(* ===== verification/Prelude.thy ===== *)
theory Prelude
  imports Main "HOL-Library.Word"
begin

unbundle bit_operations_syntax

text \<open>
  Shared vocabulary of the development: Go's basic types, the collections the components'
  proofs draw on, and generic facts on lists, association lists, maps and words.

  Go's \<open>int\<close> and \<open>uint\<close> are 64 bits wide on every platform the compiler is built for; they
  are modelled at that width where a claim depends on wrap-around (\<open>go_int\<close>, \<open>go_uint\<close>) and as
  \<^typ>\<open>int\<close> or \<^typ>\<open>nat\<close> where the code only indexes and counts. A Go string is a byte string;
  it is modelled as a list of 8-bit words where the code works on bytes, and as \<^typ>\<open>string\<close>
  (also a list of bytes in HOL) where it works on protobuf names.
\<close>

type_synonym byte = "8 word"
type_synonym bytes = "byte list"
type_synonym go_int = "64 word"
type_synonym go_uint = "64 word"
type_synonym go_int32 = "32 word"
type_synonym full_name = string

text \<open>The development's rewrite collections.\<close>

named_theorems wf_simps \<open>how well-formedness invariants unfold on each operation\<close>
named_theorems step_simps \<open>what one step of an operation does to each part of the state\<close>

section \<open>Lists\<close>

lemma sorted_wrt_snoc:
  "sorted_wrt P (xs @ [x]) \<longleftrightarrow> sorted_wrt P xs \<and> (\<forall>y \<in> set xs. P y x)"
  by (auto simp: sorted_wrt_append)

lemma nth_list_update_if: "xs[i := x] ! j = (if i = j \<and> i < length xs then x else xs ! j)"
  by (cases "i = j"; cases "i < length xs") (simp_all add: list_update_beyond)

lemma map_enumerate_snd [simp]: "map (\<lambda>x. f (snd x)) (enumerate n xs) = map f xs"
  by (induction xs arbitrary: n) simp_all

section \<open>Options and error results\<close>

text \<open>Total correctness in the option monad, where \<open>None\<close> is a panic: the computation returns, and its
  result satisfies the predicate.\<close>

definition succeeds :: "'a option \<Rightarrow> ('a \<Rightarrow> bool) \<Rightarrow> bool" where
  "succeeds m P \<longleftrightarrow> (\<exists>x. m = Some x \<and> P x)"

lemma succeeds_Some [simp]: "succeeds (Some x) P \<longleftrightarrow> P x"
  by (simp add: succeeds_def)

lemma succeeds_None [simp]: "\<not> succeeds None P"
  by (simp add: succeeds_def)

lemma succeeds_bind: "succeeds (Option.bind m f) P \<longleftrightarrow> succeeds m (\<lambda>x. succeeds (f x) P)"
  by (cases m) simp_all

lemma succeeds_mono: "succeeds m P \<Longrightarrow> (\<And>x. P x \<Longrightarrow> Q x) \<Longrightarrow> succeeds m Q"
  by (auto simp: succeeds_def)

lemma succeeds_bindI: "succeeds m Q \<Longrightarrow> (\<And>x. Q x \<Longrightarrow> succeeds (f x) P) \<Longrightarrow> succeeds (Option.bind m f) P"
  by (auto simp: succeeds_def)

lemma succeedsD: "succeeds m P \<Longrightarrow> m = Some x \<Longrightarrow> P x"
  by (simp add: succeeds_def)

lemma bind_Some_iff: "Option.bind x f = Some y \<longleftrightarrow> (\<exists>z. x = Some z \<and> f z = Some y)"
  by (cases x) auto

lemma bind_SomeE:
  assumes "Option.bind m f = Some y"
  obtains x where "m = Some x" "f x = Some y"
  using assms by (cases m) auto

section \<open>Words\<close>

lemma uint_of_nat_less: "n < 2 ^ LENGTH('a) \<Longrightarrow> unat (word_of_nat n :: 'a::len word) = n"
  by (simp add: take_bit_nat_eq_self_iff unat_of_nat)

lemma sint_range64: "- (2 ^ 63) \<le> sint (x :: 64 word) \<and> sint x < 2 ^ 63"
  using sint_greater_eq [of x] sint_less [of x] by simp

text \<open>A 32-bit word read as signed, in terms of its unsigned value.\<close>

lemma shift_mod32:
  fixes u :: int
  assumes "0 \<le> u" "u < 2 ^ 32"
  shows "(u + 2 ^ 31) mod 2 ^ 32 - 2 ^ 31 = (if u < 2 ^ 31 then u else u - 2 ^ 32)"
proof (cases "u < 2 ^ 31")
  case False
  have "(u + 2 ^ 31) mod 2 ^ 32 = u + 2 ^ 31 - 2 ^ 32"
    by (rule int_mod_pos_eq [of _ _ 1]) (use assms False in simp_all)
  with False show ?thesis by simp
qed (use assms in simp)

lemma sint_unat32:
  "sint (i :: go_int32) = (if unat i < 2 ^ 31 then int (unat i) else int (unat i) - 2 ^ 32)"
proof -
  have "sint i = (uint i + 2 ^ 31) mod 2 ^ 32 - 2 ^ 31"
    by (simp add: sint_uint signed_take_bit_eq_take_bit_shift take_bit_eq_mod)
  also have "\<dots> = (if uint i < 2 ^ 31 then uint i else uint i - 2 ^ 32)"
    by (rule shift_mod32) (use unsigned_less [of i, where ?'a = int] in simp_all)
  finally show ?thesis by (simp only: uint_nat of_nat_less_numeral_power_cancel_iff)
qed

lemma sless_zero32: "(i :: go_int32) <s 0 \<longleftrightarrow> 2 ^ 31 \<le> unat i"
proof -
  have "int (unat i) < 2 ^ 32" using unsigned_less [of i, where ?'a = int] by simp
  then show ?thesis by (simp only: word_sless_alt sint_unat32 signed_0) (simp del: of_nat_unat)
qed

lemma sless_unat32:
  "unat (a :: go_int32) < 2 ^ 31 \<Longrightarrow> unat b < 2 ^ 31 \<Longrightarrow> a <s b \<longleftrightarrow> unat a < unat b"
  by (simp only: word_sless_alt sint_unat32 if_True of_nat_less_iff)

lemma sle_unat32:
  "unat (a :: go_int32) < 2 ^ 31 \<Longrightarrow> unat b < 2 ^ 31 \<Longrightarrow> a \<le>s b \<longleftrightarrow> unat a \<le> unat b"
  by (simp only: word_sle_eq sint_unat32 if_True of_nat_le_iff)

lemma unat_Suc32: "unat (a :: go_int32) < 2 ^ 32 - 1 \<Longrightarrow> unat (a + 1) = Suc (unat a)"
  by (simp add: unat_word_ariths)

section \<open>Decimal numbers\<close>

fun show_nat :: "nat \<Rightarrow> string" where
  "show_nat n = (if n < 10 then [char_of (48 + n)] else show_nat (n div 10) @ [char_of (48 + n mod 10)])"

declare show_nat.simps [simp del]

definition show_int :: "int \<Rightarrow> string" where
  "show_int i = (if i < 0 then ''-'' @ show_nat (nat (- i)) else show_nat (nat i))"

fun show_hex :: "nat \<Rightarrow> string" where
  "show_hex n =
     (let c = n mod 16; s = [char_of (if c < 10 then 48 + c else 87 + c)]
      in if n < 16 then s else show_hex (n div 16) @ s)"

declare show_hex.simps [simp del]

end
