(* ===== verification/Bits.thy ===== *)
theory Bits
  imports Prelude
begin

text \<open>
  The machine-integer helpers of \<open>internal/ext/bitsx/bitsx.go\<close>, at Go's 64-bit width:
  powers of two, overflow-checked and saturating arithmetic, and the bool-to-int maps.
  Go's \<open>bits.OnesCount\<close> and \<open>bits.LeadingZeros\<close> are the library's \<open>pop_count\<close>-style folds over the
  64 bits; \<open>x / y\<close> truncates towards zero.
\<close>

text \<open>\<open>math/bits\<close>: the number of set bits, and the number of zero bits above the highest set bit.\<close>

definition OnesCount :: "go_uint \<Rightarrow> nat" where
  "OnesCount n = length (filter (bit n) [0..<64])"

definition LeadingZeros :: "go_uint \<Rightarrow> nat" where
  "LeadingZeros n = length (takeWhile (\<lambda>i. \<not> bit n i) (rev [0..<64]))"

definition MaxInt :: go_int where "MaxInt = word_of_int (2 ^ 63 - 1)"
definition MinInt :: go_int where "MinInt = word_of_int (- (2 ^ 63))"

section \<open>Powers of two\<close>

definition IsPowerOfTwo :: "go_uint \<Rightarrow> bool" where
  "IsPowerOfTwo n \<longleftrightarrow> OnesCount n = 1"

definition NextPowerOfTwo :: "go_uint \<Rightarrow> go_uint" where
  "NextPowerOfTwo n = drop_bit (LeadingZeros n) (- 1) + 1"

definition MakePowerOfTwo :: "go_uint \<Rightarrow> go_uint" where
  "MakePowerOfTwo n = (if IsPowerOfTwo n then n else NextPowerOfTwo n)"

section \<open>Overflow and saturation\<close>

definition AddOverflow :: "go_int \<Rightarrow> go_int \<Rightarrow> go_int \<times> bool" where
  "AddOverflow x y = (let z = x + y in (z, z <s x))"

definition AddSaturate :: "go_int \<Rightarrow> go_int \<Rightarrow> go_int" where
  "AddSaturate x y =
     (let (z, overflow) = AddOverflow x y
      in if \<not> overflow then z else if z <s 0 then MaxInt else MinInt)"

text \<open>Go's signed division truncates; on the most negative value by \<open>-1\<close> the quotient wraps.\<close>

definition go_div :: "go_int \<Rightarrow> go_int \<Rightarrow> go_int" where
  "go_div x y = word_of_int (sgn (sint x) * sgn (sint y) * (\<bar>sint x\<bar> div \<bar>sint y\<bar>))"

definition MulOverflow :: "go_int \<Rightarrow> go_int \<Rightarrow> go_int \<times> bool" where
  "MulOverflow x y = (let z = x * y in (z, x \<noteq> 0 \<and> go_div z x \<noteq> y))"

definition MulSaturate :: "go_int \<Rightarrow> go_int \<Rightarrow> go_int" where
  "MulSaturate x y =
     (let (z, overflow) = MulOverflow x y
      in if \<not> overflow then z else if (x <s 0) = (y <s 0) then MaxInt else MinInt)"

section \<open>Booleans as integers\<close>

definition Bit :: "bool \<Rightarrow> go_int" where
  "Bit b = (if b then 1 else 0)"

definition Mask :: "bool \<Rightarrow> go_int" where
  "Mask b = - Bit b"

definition Sign :: "bool \<Rightarrow> go_int" where
  "Sign b = Bit b * 2 - 1"

lemma and_Mask [simp]: "x AND Mask b = (if b then x else 0)"
  by (simp add: Mask_def Bit_def)

section \<open>Correctness\<close>

lemma takeWhile_rev_upt:
  "k < m \<Longrightarrow> P k \<Longrightarrow> \<forall>j. k < j \<and> j < m \<longrightarrow> \<not> P j \<Longrightarrow>
     length (takeWhile (\<lambda>i. \<not> P i) (rev [0..<m])) = m - 1 - k"
proof (induction m)
  case (Suc m)
  show ?case
  proof (cases "k = m")
    case False
    with Suc have "length (takeWhile (\<lambda>i. \<not> P i) (rev [0..<m])) = m - 1 - k" "k < m" "\<not> P m"
      by auto
    then show ?thesis by simp
  qed (use Suc.prems in simp)
qed simp

lemma LeadingZeros_0: "LeadingZeros 0 = 64"
  by (simp add: LeadingZeros_def takeWhile_eq_all_conv [THEN iffD2])

lemma bit_by_unat: "bit (n :: 'a::len word) j \<longleftrightarrow> odd (unat n div 2 ^ j)"
  by (simp add: bit_unsigned_iff flip: bit_iff_odd)

lemma LeadingZeros_log:
  assumes "2 ^ k \<le> unat n" "unat n < 2 ^ Suc k"
  shows "k < 64" "LeadingZeros n = 63 - k"
proof -
  have "(2::nat) ^ k < 2 ^ 64"
    using assms(1) unsigned_less [of n, where ?'a = nat] by simp
  then show k: "k < 64" by (rule power_less_imp_less_exp [rotated]) simp
  have "unat n div 2 ^ k = 1"
    using assms by (simp add: div_nat_eqI)
  then have "bit n k" by (simp add: bit_by_unat)
  moreover have "\<not> bit n j" if "k < j" for j
  proof -
    have "(2::nat) ^ Suc k \<le> 2 ^ j" using that by (intro power_increasing) auto
    then show ?thesis using assms(2) by (simp add: bit_by_unat)
  qed
  ultimately show "LeadingZeros n = 63 - k"
    using k by (simp add: LeadingZeros_def takeWhile_rev_upt)
qed

lemma unat_NextPowerOfTwo:
  assumes "2 ^ k \<le> unat n" "unat n < 2 ^ Suc k"
  shows "unat (NextPowerOfTwo n) = 2 ^ Suc k mod 2 ^ 64"
proof -
  note k = LeadingZeros_log(1) [OF assms]
  have "drop_bit (63 - k) (- 1 :: 64 word) = mask (Suc k)"
    by (rule bit_word_eqI) (use k in \<open>auto simp: bit_drop_bit_eq bit_mask_iff\<close>)
  then have "NextPowerOfTwo n = 2 ^ Suc k"
    using LeadingZeros_log(2) [OF assms] by (simp add: NextPowerOfTwo_def mask_eq_exp_minus_1)
  then have "NextPowerOfTwo n = word_of_nat (2 ^ Suc k)" by simp
  then show ?thesis by (simp only: unat_of_nat) simp
qed


lemma sint_word_of_int64:
  "sint (word_of_int i :: go_int) = (i + 2 ^ 63) mod 2 ^ 64 - 2 ^ 63"
  by (simp add: signed_of_int signed_take_bit_eq_take_bit_shift take_bit_eq_mod)

lemma sint_plus64: "sint (x + y :: go_int) = (sint x + sint y + 2 ^ 63) mod 2 ^ 64 - 2 ^ 63"
  using sint_word_of_int64 [of "sint x + sint y"] by simp

lemma sint_times64: "sint (x * y :: go_int) = (sint x * sint y + 2 ^ 63) mod 2 ^ 64 - 2 ^ 63"
  using sint_word_of_int64 [of "sint x * sint y"] by simp

lemma OnesCount_card: "OnesCount n = card {i. i < 64 \<and> bit n i}"
proof -
  have "OnesCount n = card (set (filter (bit n) [0..<64]))"
    unfolding OnesCount_def by (subst distinct_card) auto
  also have "set (filter (bit n) [0..<64]) = {i. i < 64 \<and> bit n i}" by auto
  finally show ?thesis .
qed

lemma IsPowerOfTwo_iff: "IsPowerOfTwo n \<longleftrightarrow> (\<exists>k < 64. n = 2 ^ k)"
proof
  assume "IsPowerOfTwo n"
  then obtain k where k: "{i. i < 64 \<and> bit n i} = {k}"
    by (auto simp: IsPowerOfTwo_def OnesCount_card card_1_singleton_iff)
  then have "k < 64" "bit n k" by auto
  have "n = 2 ^ k"
  proof (rule bit_word_eqI)
    fix i assume "i < LENGTH(64)"
    then have "bit n i \<longleftrightarrow> i \<in> {i. i < 64 \<and> bit n i}" by simp
    then have "bit n i \<longleftrightarrow> i = k" unfolding k by simp
    then show "bit n i \<longleftrightarrow> bit (2 ^ k :: go_uint) i" using \<open>k < 64\<close> by (auto simp: bit_exp_iff)
  qed
  with \<open>k < 64\<close> show "\<exists>k < 64. n = 2 ^ k" by blast
next
  assume "\<exists>k < 64. n = 2 ^ k"
  then obtain k where k: "k < 64" "n = 2 ^ k" by blast
  then have "{i. i < 64 \<and> bit n i} = {k}" by (auto simp: bit_exp_iff)
  then show "IsPowerOfTwo n" by (simp add: IsPowerOfTwo_def OnesCount_card)
qed

lemma sint_MaxInt [simp]: "sint MaxInt = 2 ^ 63 - 1" and sint_MinInt [simp]: "sint MinInt = - (2 ^ 63)"
  by (simp_all add: MaxInt_def MinInt_def sint_word_of_int64)

lemma sint_plus64_cases:
  "sint (x + y :: go_int) =
     (if 2 ^ 63 \<le> sint x + sint y then sint x + sint y - 2 ^ 64
      else if sint x + sint y < - (2 ^ 63) then sint x + sint y + 2 ^ 64 else sint x + sint y)"
proof -
  define s where "s = sint x + sint y"
  have bnd: "- (2 ^ 64) \<le> s" "s < 2 ^ 64"
    using sint_range64 [of x] sint_range64 [of y] by (simp_all add: s_def)
  have "(s + 2 ^ 63) mod 2 ^ 64 =
      (if 2 ^ 63 \<le> s then s + 2 ^ 63 - 2 ^ 64 else if s < - (2 ^ 63) then s + 2 ^ 63 + 2 ^ 64 else s + 2 ^ 63)"
    using bnd by (auto simp: mod_pos_pos_trivial int_mod_pos_eq [of _ _ 1] int_mod_pos_eq [of _ _ "- 1"])
  then show ?thesis unfolding sint_plus64 s_def [symmetric] by simp
qed

lemma AddOverflow_flag:
  "snd (AddOverflow x y) \<longleftrightarrow>
     (if 0 \<le> sint y then 2 ^ 63 \<le> sint x + sint y else - (2 ^ 63) \<le> sint x + sint y)"
  using sint_range64 [of x] sint_range64 [of y]
  by (simp add: AddOverflow_def Let_def word_sless_alt sint_plus64_cases)

lemma fst_AddOverflow [simp]: "fst (AddOverflow x y) = x + y"
  by (simp add: AddOverflow_def Let_def)

lemma AddSaturate_nonneg:
  "0 \<le> sint y \<Longrightarrow> sint (AddSaturate x y) = min (sint x + sint y) (2 ^ 63 - 1)"
  using sint_range64 [of x] sint_range64 [of y] AddOverflow_flag [of x y]
  by (simp add: AddSaturate_def case_prod_beta Let_def word_sless_alt sint_plus64_cases)

text \<open>Truncating division: the remainder is smaller than the divisor.\<close>

lemma trunc_div_rem:
  fixes z x :: int
  assumes "x \<noteq> 0"
  shows "\<bar>z - sgn z * sgn x * (\<bar>z\<bar> div \<bar>x\<bar>) * x\<bar> < \<bar>x\<bar>"
proof -
  have "z - sgn z * sgn x * (\<bar>z\<bar> div \<bar>x\<bar>) * x = sgn z * (\<bar>z\<bar> - \<bar>z\<bar> div \<bar>x\<bar> * \<bar>x\<bar>)"
    using sgn_mult_abs [of z] abs_sgn [of x] by (simp add: algebra_simps)
  also have "\<bar>z\<bar> - \<bar>z\<bar> div \<bar>x\<bar> * \<bar>x\<bar> = \<bar>z\<bar> mod \<bar>x\<bar>"
    by (simp add: minus_div_mult_eq_mod)
  finally have "\<bar>z - sgn z * sgn x * (\<bar>z\<bar> div \<bar>x\<bar>) * x\<bar> \<le> \<bar>z\<bar> mod \<bar>x\<bar>"
    using assms by (simp add: abs_mult abs_sgn_eq)
  also have "\<dots> < \<bar>x\<bar>" using assms by simp
  finally show ?thesis .
qed

lemma sint_0_iff: "sint (x :: go_int) = 0 \<longleftrightarrow> x = 0"
  by (metis signed_0 signed_word_eqI)

text \<open>A product that does not wrap divides back exactly.\<close>

lemma MulOverflow_exact:
  assumes "- (2 ^ 63) \<le> sint x * sint y" "sint x * sint y < 2 ^ 63"
  shows "MulOverflow x y = (x * y, False)" "sint (x * y) = sint x * sint y"
proof -
  show z: "sint (x * y) = sint x * sint y"
    unfolding sint_times64 by (subst mod_pos_pos_trivial) (use assms in auto)
  have "go_div (x * y) x = y" if "x \<noteq> 0"
  proof -
    from that have "sint x \<noteq> 0" by (simp add: sint_0_iff)
    then have "\<bar>sint x * sint y\<bar> div \<bar>sint x\<bar> = \<bar>sint y\<bar>" by (simp add: abs_mult)
    moreover have "sgn (sint x * sint y) * sgn (sint x) * \<bar>sint y\<bar> = sint y"
    proof -
      have "sgn (sint x) * sgn (sint x) = 1" using \<open>sint x \<noteq> 0\<close> by (simp add: sgn_if)
      then have "sgn (sint x) * sgn (sint y) * sgn (sint x) * \<bar>sint y\<bar> = sgn (sint y) * \<bar>sint y\<bar>"
        by (simp add: ac_simps flip: mult.assoc)
      then show ?thesis by (simp add: sgn_mult sgn_mult_abs)
    qed
    ultimately show ?thesis by (simp add: go_div_def z)
  qed
  then show "MulOverflow x y = (x * y, False)" by (auto simp: MulOverflow_def Let_def)
qed

lemma mod_eq_small_diff:
  fixes a b :: int
  assumes "a mod m = b mod m" "\<bar>a - b\<bar> < m" shows "a = b"
  using assms by (metis mod_eq_dvd_iff eq_iff_diff_eq_0 zdvd_not_zless zero_less_abs_iff abs_dvd_iff dvd_abs_iff not_less)

lemma MulOverflow_wraps:
  assumes "\<not> (- (2 ^ 63) \<le> sint x * sint y \<and> sint x * sint y < 2 ^ 63)"
    and "\<not> (x = - 1 \<and> y = MinInt)"
  shows "snd (MulOverflow x y)"
proof -
  let ?X = "sint x" and ?Y = "sint y" and ?Z = "sint (x * y)"
  let ?q = "sgn ?Z * sgn ?X * (\<bar>?Z\<bar> div \<bar>?X\<bar>)"
  have "x \<noteq> 0" using assms(1) by auto
  then have X: "?X \<noteq> 0" by (simp add: sint_0_iff)
  note rX = sint_range64 [of x] and rY = sint_range64 [of y] and rZ = sint_range64 [of "x * y"]
  have "go_div (x * y) x \<noteq> y"
  proof
    assume "go_div (x * y) x = y"
    then have qY: "(?q + 2 ^ 63) mod 2 ^ 64 - 2 ^ 63 = ?Y"
      using sint_word_of_int64 [of ?q] by (simp add: go_div_def)
    have "0 \<le> \<bar>?Z\<bar> div \<bar>?X\<bar>" "\<bar>?Z\<bar> div \<bar>?X\<bar> \<le> \<bar>?Z\<bar>"
      using X zdiv_mono2 [of "\<bar>?Z\<bar>" 1 "\<bar>?X\<bar>"] by (auto simp: pos_imp_zdiv_nonneg_iff)
    then have q: "- (2 ^ 63) \<le> ?q" "?q \<le> 2 ^ 63" using rZ by (auto simp: sgn_if)
    show False
    proof (cases "?q = 2 ^ 63")
      case True
      then have "\<bar>?Z\<bar> div \<bar>?X\<bar> = 2 ^ 63" and sg: "sgn ?Z * sgn ?X = 1"
        using \<open>0 \<le> \<bar>?Z\<bar> div \<bar>?X\<bar>\<close> by (auto simp: sgn_if split: if_splits)
      moreover have "0 \<le> \<bar>?Z\<bar> mod \<bar>?X\<bar>" using X by simp
      ultimately have "2 ^ 63 * \<bar>?X\<bar> \<le> \<bar>?Z\<bar>"
        using mult_div_mod_eq [of "\<bar>?X\<bar>" "\<bar>?Z\<bar>"] by (simp add: mult.commute)
      moreover have "\<bar>?Z\<bar> \<le> 2 ^ 63" using rZ by auto
      ultimately have "\<bar>?X\<bar> = 1" "?Z = - (2 ^ 63)" using X rZ by auto
      with sg have "?X = - 1" by (auto simp: sgn_if split: if_splits)
      moreover have "?Y = - (2 ^ 63)" using qY by (simp add: True)
      ultimately have "sint x = sint (- 1 :: go_int)" "sint y = sint MinInt" by simp_all
      then have "x = - 1" "y = MinInt" by (simp_all only: signed_word_eqI)
      with assms(2) show False by blast
    next
      case False
      with q have "(?q + 2 ^ 63) mod 2 ^ 64 = ?q + 2 ^ 63"
        by (intro mod_pos_pos_trivial) auto
      with qY have "?q = ?Y" by simp
      then have "\<bar>?Z - ?Y * ?X\<bar> < \<bar>?X\<bar>" using trunc_div_rem [OF X, of ?Z] by simp
      moreover have "\<bar>?X\<bar> \<le> 2 ^ 63" using rX by auto
      ultimately have "\<bar>?Z - ?X * ?Y\<bar> < 2 ^ 64" by (simp add: mult.commute)
      moreover have "?Z mod 2 ^ 64 = (?X * ?Y) mod 2 ^ 64"
        unfolding sint_times64 by (simp add: mod_diff_left_eq)
      ultimately have "?Z = ?X * ?Y" by (rule mod_eq_small_diff [rotated])
      with rZ assms(1) show False by simp
    qed
  qed
  with \<open>x \<noteq> 0\<close> show ?thesis by (simp add: MulOverflow_def Let_def)
qed

section \<open>Properties\<close>

text \<open>\<open>NextPowerOfTwo\<close> is the least power of two above its argument; it is zero exactly
  when that power does not fit in 64 bits.\<close>

theorem NextPowerOfTwo_least:
  assumes "0 < unat n"
  shows "\<exists>k. unat n < 2 ^ k \<and> (\<forall>j. unat n < 2 ^ j \<longrightarrow> k \<le> j) \<and>
    unat (NextPowerOfTwo n) = (if k < 64 then 2 ^ k else 0)"
proof -
  obtain k where k: "2 ^ k \<le> unat n" "unat n < 2 ^ Suc k"
    using ex_power_ivl1 [of 2 "unat n"] assms by auto
  have "Suc k \<le> j" if "unat n < 2 ^ j" for j
  proof -
    from that k(1) have "(2::nat) ^ k < 2 ^ j" by linarith
    then show ?thesis using power_less_imp_less_exp [of "2::nat" k j] by simp
  qed
  moreover have "unat (NextPowerOfTwo n) = (if Suc k < 64 then 2 ^ Suc k else 0)"
  proof (cases "Suc k < 64")
    case True
    then have "(2::nat) ^ Suc k < 2 ^ 64" by (intro power_strict_increasing) auto
    then show ?thesis using True unat_NextPowerOfTwo [OF k] by simp
  next
    case False
    with LeadingZeros_log(1) [OF k] have "k = 63" by simp
    then show ?thesis using unat_NextPowerOfTwo [OF k] by simp
  qed
  ultimately show ?thesis using k(2) by blast
qed

theorem NextPowerOfTwo_least_witness:
  "0 < unat (5 :: go_uint) \<and> (\<exists>k. unat (5 :: go_uint) < 2 ^ k \<and>
     (\<forall>j. unat (5 :: go_uint) < 2 ^ j \<longrightarrow> k \<le> j) \<and>
     unat (NextPowerOfTwo 5) = (if k < 64 then 2 ^ k else 0))"
  using NextPowerOfTwo_least [of 5] by simp

text \<open>C34: \<open>MulSaturate\<close> clamps the exact product to the range of \<open>int\<close>, on every pair of
  arguments but \<open>x = -1\<close>, \<open>y = MinInt\<close>.\<close>

theorem MulSaturate_clamps:
  assumes "\<not> (x = - 1 \<and> y = MinInt)"
  shows "sint (MulSaturate x y) = max (- (2 ^ 63)) (min (sint x * sint y) (2 ^ 63 - 1))"
proof (cases "- (2 ^ 63) \<le> sint x * sint y \<and> sint x * sint y < 2 ^ 63")
  case True
  then show ?thesis
    using MulOverflow_exact [of x y] by (simp add: MulSaturate_def)
next
  case False
  then have "snd (MulOverflow x y)" using assms by (rule MulOverflow_wraps)
  then have "MulSaturate x y = (if (sint x < 0) = (sint y < 0) then MaxInt else MinInt)"
    by (simp add: MulSaturate_def case_prod_beta word_sless_alt)
  moreover have "sint x * sint y \<noteq> 0" using False by auto
  then have "sint x * sint y < 0 \<longleftrightarrow> (sint x < 0) \<noteq> (sint y < 0)"
    by (auto simp: mult_less_0_iff)
  ultimately show ?thesis using False by (cases "sint x * sint y < 0") simp_all
qed

theorem MulSaturate_clamps_witness:
  "\<not> ((3 :: go_int) = - 1 \<and> MinInt = MinInt) \<and>
   sint (MulSaturate 3 MinInt) = max (- (2 ^ 63)) (min (sint (3 :: go_int) * sint MinInt) (2 ^ 63 - 1))"
  using MulSaturate_clamps [of 3 MinInt] by simp

text \<open>The overflow flag of \<open>AddOverflow\<close> is right for a non-negative second argument and
  inverted for a negative one.\<close>

theorem AddOverflow_flag_inverted:
  "snd (AddOverflow x y) \<longleftrightarrow>
     ((sint x + sint y < - (2 ^ 63) \<or> 2 ^ 63 \<le> sint x + sint y) = (0 \<le> sint y))"
  using sint_range64 [of x] sint_range64 [of y] by (auto simp: AddOverflow_flag)

end
