(* ===== verification/Intern.thy ===== *)
theory Intern
  imports Bits
begin

text \<open>
  String interning: \<open>internal/intern/char6.go\<close> (the in-line encoding of short strings),
  \<open>internal/ext/syncx/log.go\<close> (the append-only log, at the granularity of whole calls),
  \<open>internal/intern/intern.go\<close> (the table) and \<open>internal/intern/container.go\<close> (sets and maps
  keyed by interned strings).

  An \<open>ID\<close> is an \<open>int32\<close>. Strings are byte lists. The table's \<open>sync.Map\<close> is a map from strings to
  slots: a slot is the \<open>*atomic.Int32\<close> the code stores, either the nil pointer (a poisoned key) or
  the current value of the counter, where 0 marks an insertion in progress. Concurrent calls of
  \<open>Intern\<close> are interleaved at the atomic operations of \<open>internSlow\<close> by the step relation
  \<open>istep\<close>.
\<close>

type_synonym ID = go_int32

section \<open>The char6 encoding\<close>

definition maxInlined :: nat where "maxInlined = 32 div 6"

definition go_bytes :: "string \<Rightarrow> bytes" where
  "go_bytes s = map (\<lambda>c. of_char c) s"

definition char6ToByte :: bytes where
  "char6ToByte = go_bytes ''0123456789abcdefghijklmnopqrstuvwxyzABCDEFGHIJKLMNOPQRSTUVWXYZ_.''"

definition byteToChar6 :: bytes where
  "byteToChar6 =
     fold (\<lambda>(j, b) out. out[unat b := word_of_nat j]) (enumerate 0 char6ToByte) (replicate 256 0xff)"

text \<open>The loop of \<open>encodeOutlined\<close> runs over the bytes from the last to the first; the argument
  is the part still to do, reversed.\<close>

fun encode_loop :: "bytes \<Rightarrow> ID \<Rightarrow> ID \<times> bool" where
  "encode_loop [] value = (value, True)"
| "encode_loop (b # rest) value =
     (let sextet = byteToChar6 ! unat b
      in if sextet = 0xff then (0, False)
         else encode_loop rest (push_bit 6 value OR ucast sextet))"

definition encodeOutlined :: "bytes \<Rightarrow> ID \<times> bool" where
  "encodeOutlined data = encode_loop (rev data) (- 1)"

definition encodeChar6 :: "bytes \<Rightarrow> ID \<times> bool" where
  "encodeChar6 data =
     (if data = [] then (0, True)
      else if length data > maxInlined \<or> last data = of_char (CHR ''.'') then (0, False)
      else encodeOutlined data)"

text \<open>\<open>id >>= 6\<close> on an \<open>int32\<close> shifts arithmetically.\<close>

fun decode_buf :: "nat \<Rightarrow> ID \<Rightarrow> bytes" where
  "decode_buf 0 i = []"
| "decode_buf (Suc n) i = char6ToByte ! unat (i AND 63) # decode_buf n (signed_drop_bit 6 i)"

fun trim_len :: "bytes \<Rightarrow> nat \<Rightarrow> nat" where
  "trim_len buf 0 = 0"
| "trim_len buf (Suc n) = (if buf ! n \<noteq> of_char (CHR ''.'') then Suc n else trim_len buf n)"

definition decodeChar6 :: "ID \<Rightarrow> bytes" where
  "decodeChar6 i =
     (if i = 0 then []
      else let buf = decode_buf maxInlined i in take (trim_len buf maxInlined) buf)"

subsection \<open>Round trip\<close>

lemma index_table_other:
  fixes ks :: bytes and out :: bytes
  shows "b \<notin> set ks \<Longrightarrow>
    fold (\<lambda>(j, b) out. out[unat b := word_of_nat j]) (enumerate n ks) out ! unat b = out ! unat b"
  by (induction ks arbitrary: n out) (auto simp: word_unat_eq_iff)

lemma index_table_nth:
  fixes ks :: bytes and out :: bytes
  shows "distinct ks \<Longrightarrow> length out = 256 \<Longrightarrow> j < length ks \<Longrightarrow>
    fold (\<lambda>(j, b) out. out[unat b := word_of_nat j]) (enumerate n ks) out ! unat (ks ! j) = word_of_nat (n + j)"
proof (induction ks arbitrary: n out j)
  case (Cons k ks)
  have k: "unat k < 256" using unsigned_less [of k, where ?'a = nat] by simp
  show ?case
  proof (cases j)
    case 0
    then show ?thesis using Cons.prems k by (simp add: index_table_other)
  next
    case (Suc i)
    then show ?thesis using Cons.prems Cons.IH [of "out[unat k := word_of_nat n]" i "Suc n"] by simp
  qed
qed simp

lemma length_char6ToByte: "length char6ToByte = 64"
  by (simp add: char6ToByte_def go_bytes_def)

lemma distinct_char6ToByte: "distinct char6ToByte"
  by (simp add: char6ToByte_def go_bytes_def)

lemma byteToChar6_inverse:
  fixes b :: byte
  assumes "byteToChar6 ! unat b \<noteq> 0xff"
  shows "unat (byteToChar6 ! unat b) < 64" "char6ToByte ! unat (byteToChar6 ! unat b) = b"
proof -
  have "unat b < 256" using unsigned_less [of b, where ?'a = nat] by simp
  with assms have "b \<in> set char6ToByte"
    using index_table_other [of b char6ToByte 0 "replicate 256 0xff"] by (fastforce simp: byteToChar6_def)
  then obtain j where j: "j < 64" "char6ToByte ! j = b"
    by (auto simp: in_set_conv_nth length_char6ToByte)
  then have "byteToChar6 ! unat b = word_of_nat j" 
    using index_table_nth [OF distinct_char6ToByte, of "replicate 256 0xff" j 0]
    by (simp add: byteToChar6_def length_char6ToByte)
  then have "unat (byteToChar6 ! unat b) = j" using j(1) by (simp add: unat_of_nat)
  with j show "unat (byteToChar6 ! unat b) < 64" "char6ToByte ! unat (byteToChar6 ! unat b) = b"
    by simp_all
qed

text \<open>The integers the encoding computes: one base-64 digit per byte over an initial \<open>-1\<close>.\<close>

fun char6_int :: "bytes \<Rightarrow> int" where
  "char6_int [] = - 1"
| "char6_int (b # bs) = 64 * char6_int bs + uint (byteToChar6 ! unat b)"

definition char6_ok :: "bytes \<Rightarrow> bool" where
  "char6_ok bs \<longleftrightarrow> (\<forall>b \<in> set bs. byteToChar6 ! unat b \<noteq> 0xff)"

lemma unat_byte_less: "unat (x :: byte) < 64 \<Longrightarrow> 0 \<le> uint x \<and> uint x < 64"
  using nat_less_iff [of "uint x" 64] by (simp only: nat_uint_eq unsigned_greater_eq) simp

lemma char6_digit_bound:
  "byteToChar6 ! unat (b :: byte) \<noteq> 0xff \<Longrightarrow>
     0 \<le> uint (byteToChar6 ! unat b) \<and> uint (byteToChar6 ! unat b) < 64"
  using byteToChar6_inverse(1) [of b] unat_byte_less by blast

lemma char6_dot: "char6ToByte ! 63 = of_char (CHR ''.'')"
  by (simp add: char6ToByte_def go_bytes_def)

lemma char6_int_bounds: "char6_ok bs \<Longrightarrow> - (64 ^ length bs) \<le> char6_int bs \<and> char6_int bs < 0"
proof (induction bs)
  case (Cons b bs)
  then have "- (64 ^ length bs) \<le> char6_int bs" "char6_int bs < 0" by (auto simp: char6_ok_def)
  moreover have "0 \<le> uint (byteToChar6 ! unat b)" "uint (byteToChar6 ! unat b) < 64"
    using char6_digit_bound [of b] Cons.prems by (auto simp only: char6_ok_def list.set ball_simps)
  ultimately show ?case unfolding char6_int.simps length_Cons power_Suc by linarith
qed (simp add: char6_ok_def)

lemma encode_loop_snoc:
  "encode_loop (xs @ [b]) v =
     (if snd (encode_loop xs v) then encode_loop [b] (fst (encode_loop xs v)) else (0, False))"
  by (induction xs arbitrary: v) (auto simp: Let_def)

text \<open>One step of the encoder and of the decoder, read as integers.\<close>

lemma sint_word_of_int32: "sint (word_of_int i :: go_int32) = (i + 2 ^ 31) mod 2 ^ 32 - 2 ^ 31"
  by (simp add: signed_of_int signed_take_bit_eq_take_bit_shift take_bit_eq_mod)

lemma no_wrap32:
  fixes v u :: int
  shows "- (2 ^ 25) \<le> v \<Longrightarrow> v < 0 \<Longrightarrow> 0 \<le> u \<Longrightarrow> u < 64 \<Longrightarrow>
    (64 * v + u + 2 ^ 31) mod 2 ^ 32 - 2 ^ 31 = 64 * v + u"
  by simp

lemma digit_split:
  fixes v u :: int
  shows "0 \<le> u \<and> u < 64 \<Longrightarrow> (64 * v + u) mod 64 = u \<and> (64 * v + u) div 64 = v"
  by simp

lemma small_word_bits: "uint (s :: byte) < 64 \<Longrightarrow> 6 \<le> n \<Longrightarrow> \<not> bit s n"
proof
  assume "uint s < 64" "6 \<le> n" "bit s n"
  then have "take_bit 6 (uint s) = uint s" "bit (uint s) n"
    by (simp_all add: take_bit_int_eq_self bit_unsigned_iff)
  with \<open>6 \<le> n\<close> show False by (metis bit_take_bit_iff not_less)
qed

lemma encode_step:
  assumes "- (2 ^ 25) \<le> sint v" "sint v < 0" "uint s < 64"
  shows "sint (push_bit 6 v OR ucast (s :: byte) :: ID) = 64 * sint v + uint s"
proof -
  have "push_bit 6 v AND ucast s = (0 :: ID)"
    by (rule bit_word_eqI)
       (use small_word_bits [OF assms(3)] in \<open>auto simp: bit_and_iff bit_push_bit_iff bit_unsigned_iff\<close>)
  then have "push_bit 6 v OR ucast s = push_bit 6 v + (ucast s :: ID)"
    by (simp add: disjunctive_add_eq_or)
  also have "\<dots> = word_of_int (64 * sint v + uint s)"
    by (simp add: push_bit_eq_mult mult.commute unsigned_ucast_eq)
  finally have *: "push_bit 6 v OR ucast s = (word_of_int (64 * sint v + uint s) :: ID)" .
  show ?thesis
    unfolding * sint_word_of_int32 by (rule no_wrap32) (use assms in simp_all)
qed

lemma decode_digit: "unat (i AND 63 :: ID) = nat (sint i mod 64)"
proof -
  have "i AND 63 = take_bit 6 i" by (simp add: take_bit_eq_mask mask_numeral flip: and.commute)
  then have "uint (i AND 63) = take_bit 6 (uint i)" by (simp add: unsigned_take_bit_eq)
  also have "\<dots> = take_bit 6 (sint i)" by (simp add: uint_sint)
  finally show ?thesis by (simp add: take_bit_eq_mod unat_eq_nat_uint)
qed

lemma decode_shift: "sint (signed_drop_bit 6 i :: ID) = sint i div 64"
  by (simp add: sint_signed_drop_bit_eq drop_bit_eq_div)

lemma encode_loop_int:
  assumes "length bs \<le> 5" "char6_ok bs"
  shows "snd (encode_loop (rev bs) (- 1)) \<and> sint (fst (encode_loop (rev bs) (- 1))) = char6_int bs"
  using assms
proof (induction bs)
  case (Cons b bs)
  then have IH: "snd (encode_loop (rev bs) (- 1))"
      "sint (fst (encode_loop (rev bs) (- 1))) = char6_int bs"
    and b: "byteToChar6 ! unat b \<noteq> 0xff" by (auto simp: char6_ok_def)
  have "(64::int) ^ length bs \<le> 64 ^ 4" using Cons.prems(1) by (intro power_increasing) auto
  moreover have "- (64 ^ length bs) \<le> char6_int bs \<and> char6_int bs < 0"
    using char6_int_bounds [of bs] Cons.prems by (simp add: char6_ok_def)
  ultimately have "- (2 ^ 25) \<le> char6_int bs" "char6_int bs < 0" by auto
  moreover have "uint (byteToChar6 ! unat b) < 64" using char6_digit_bound [OF b] by blast
  ultimately show ?case using IH b by (simp add: encode_loop_snoc Let_def encode_step)
qed simp

lemma encode_loop_ok: "snd (encode_loop xs v) \<Longrightarrow> char6_ok xs"
  by (induction xs v rule: encode_loop.induct) (auto simp: char6_ok_def Let_def split: if_splits)

lemma decode_buf_int:
  assumes "char6_ok bs" "length bs \<le> n" "sint i = char6_int bs"
  shows "decode_buf n i = bs @ replicate (n - length bs) (of_char (CHR ''.''))"
  using assms
proof (induction n arbitrary: bs i)
  case (Suc n)
  show ?case
  proof (cases bs)
    case Nil
    with Suc.prems have i: "sint i = - 1" by simp
    moreover have "decode_buf n (signed_drop_bit 6 i) = replicate n (of_char (CHR ''.''))"
      using Suc.IH [of "[]" "signed_drop_bit 6 i"] by (simp add: decode_shift i char6_ok_def)
    ultimately show ?thesis using Nil by (simp add: decode_digit char6_dot)
  next
    case (Cons b cs)
    with Suc.prems have b: "byteToChar6 ! unat b \<noteq> 0xff" by (simp add: char6_ok_def)
    from Suc.prems(3) Cons have "sint i = 64 * char6_int cs + uint (byteToChar6 ! unat b)" by simp
    with digit_split [OF char6_digit_bound [OF b]]
    have i: "sint i mod 64 = uint (byteToChar6 ! unat b)" "sint i div 64 = char6_int cs" by metis+
    have "decode_buf n (signed_drop_bit 6 i) = cs @ replicate (n - length cs) (of_char (CHR ''.''))"
      by (rule Suc.IH) (use Suc.prems(1,2) Cons in \<open>simp_all add: decode_shift i char6_ok_def\<close>)
    moreover have "char6ToByte ! unat (i AND 63) = b"
      using byteToChar6_inverse(2) [OF b] by (simp add: decode_digit i)
    ultimately show ?thesis using Cons by simp
  qed
qed simp

lemma trim_len_replicate:
  "bs \<noteq> [] \<Longrightarrow> last bs \<noteq> of_char (CHR ''.'') \<Longrightarrow>
     trim_len (bs @ replicate m (of_char (CHR ''.''))) (length bs + m) = length bs"
proof (induction m)
  case 0
  then show ?case by (cases bs rule: rev_cases) auto
next
  case (Suc m)
  let ?d = "of_char (CHR ''.'') :: byte"
  have "trim_len (bs @ replicate (Suc m) ?d) k = trim_len (bs @ replicate m ?d) k"
    if "k \<le> length bs + m" for k
    using that by (induction k) (auto simp: nth_append nth_Cons')
  with Suc show ?case by (auto simp: nth_append nth_Cons')
qed

lemma encodeChar6_decode:
  assumes "encodeChar6 s = (i, True)"
  shows "decodeChar6 i = s" and "s \<noteq> [] \<Longrightarrow> sint i < 0" and "s = [] \<Longrightarrow> i = 0"
proof -
  show "s = [] \<Longrightarrow> i = 0" using assms by (simp add: encodeChar6_def)
  have main: "decodeChar6 i = s \<and> sint i < 0" if "s \<noteq> []"
  proof -
    from assms that have len: "length s \<le> 5" and dot: "last s \<noteq> of_char (CHR ''.'')"
      and enc: "encode_loop (rev s) (- 1) = (i, True)"
      by (auto simp: encodeChar6_def encodeOutlined_def maxInlined_def split: if_splits)
    then have ok: "char6_ok s" using encode_loop_ok [of "rev s" "- 1"] by (simp add: char6_ok_def)
    have i: "sint i = char6_int s" using encode_loop_int [OF len ok] enc by simp
    then have neg: "sint i < 0" using char6_int_bounds [OF ok] by simp
    have "decode_buf 5 i = s @ replicate (5 - length s) (of_char (CHR ''.''))"
      using ok len i by (rule decode_buf_int)
    moreover have "trim_len (s @ replicate (5 - length s) (of_char (CHR ''.''))) 5 = length s"
      using trim_len_replicate [OF that dot, of "5 - length s"] len by simp
    ultimately show ?thesis using neg by (auto simp: decodeChar6_def maxInlined_def Let_def)
  qed
  then show "decodeChar6 i = s" using \<open>s = [] \<Longrightarrow> i = 0\<close> by (cases "s = []") (auto simp: decodeChar6_def)
  show "s \<noteq> [] \<Longrightarrow> sint i < 0" using main by blast
qed

section \<open>The append-only log\<close>

text \<open>
  \<open>syncx.Log\<close>, one call at a time. The backing array holds \<open>None\<close> where nothing was written
  yet. \<open>grow c\<close> is the capacity that Go's \<open>append\<close> gives a full slice of \<open>c\<close> elements. A
  spin loop that no step of the call itself can leave is the outcome \<open>LogSpin\<close>.
\<close>

record 'v log =
  lnext :: go_int32
  llen :: go_int32
  lcap :: go_int32
  larr :: "'v option list"

datatype log_result = LogOk nat | LogExhausted | LogIndexPanic | LogSpin

definition new_log :: "'v log" where
  "new_log = \<lparr>lnext = 0, llen = 0, lcap = 0, larr = []\<rparr>"

definition log_Load :: "'v log \<Rightarrow> int \<Rightarrow> 'v option" where
  "log_Load l idx =
     (if 0 \<le> idx \<and> idx < sint (llen l) \<and> nat idx < length (larr l) then larr l ! nat idx else None)"

definition log_Append :: "(nat \<Rightarrow> nat) \<Rightarrow> 'v log \<Rightarrow> 'v \<Rightarrow> log_result \<times> 'v log" where
  "log_Append grow l0 v =
     (let i = lnext l0 + 1; l = l0\<lparr>lnext := i\<rparr>
      in if i <s 0 then (LogExhausted, l)
         else let i = i - 1; c = lcap l in
           if c <s i then (LogSpin, l)
           else if i <s c then
             (if i <s 0 then (LogIndexPanic, l)
              else let l = l\<lparr>larr := (larr l)[unat i := Some v], llen := llen l + 1\<rparr>
                in if llen l \<le>s i then (LogSpin, l) else (LogOk (unat i), l))
           else if llen l \<noteq> c then (LogSpin, l)
           else let n = unat c;
                    arr = take n (larr l) @ Some v # replicate (grow n - Suc n) None
                in (LogOk (unat i),
                    l\<lparr>larr := arr, lcap := word_of_nat (grow n), llen := llen l + 1\<rparr>))"

section \<open>The interning table\<close>

datatype slot = Poisoned | Counter ID

record stats =
  hits :: go_int
  total :: go_int
  queries :: go_int
  inlined :: go_int
  queryBytes :: go_int
  internBytes :: go_int

record table =
  index :: "bytes \<rightharpoonup> slot"
  tlog :: "bytes log"
  tstats :: "stats option"

definition new_table :: table where
  "new_table = \<lparr>index = Map.empty, tlog = new_log, tstats = None\<rparr>"

definition new_stats :: stats where
  "new_stats = \<lparr>hits = 0, total = 0, queries = 0, inlined = 0, queryBytes = 0, internBytes = 0\<rparr>"

definition RecordStats :: "table \<Rightarrow> bool \<Rightarrow> table" where
  "RecordStats t b = t\<lparr>tstats := (if b then Some new_stats else None)\<rparr>"

definition slot_id :: "slot option \<Rightarrow> ID \<times> bool" where
  "slot_id v = (case v of None \<Rightarrow> (0, False) | Some Poisoned \<Rightarrow> (0, False)
     | Some (Counter i) \<Rightarrow> if i = 0 then (0, False) else (i, True))"

definition Query :: "table \<Rightarrow> bytes \<Rightarrow> (ID \<times> bool) \<times> table" where
  "Query t s =
     (let (char6, ok) = encodeChar6 s; n = word_of_nat (length s)
      in if ok then ((char6, True),
           t\<lparr>tstats := map_option (\<lambda>st. st\<lparr>inlined := inlined st + 1,
                                          queryBytes := queryBytes st + n\<rparr>) (tstats t)\<rparr>)
         else (slot_id (index t s),
           t\<lparr>tstats := map_option (\<lambda>st. st\<lparr>queries := queries st + 1,
                                          queryBytes := queryBytes st + n\<rparr>) (tstats t)\<rparr>))"

text \<open>\<open>internSlow\<close> in its three atomic parts: becoming the leader for a key (or finding what
  another caller stored), appending to the log, and committing the new identifier.\<close>

datatype claim = Leader | Found ID | Retry | PoisonPanic

definition slow_claim :: "table \<Rightarrow> bytes \<Rightarrow> claim \<times> table" where
  "slow_claim t s =
     (case index t s of
        None \<Rightarrow> (Leader, t\<lparr>index := (index t)(s \<mapsto> Counter 0)\<rparr>)
      | Some Poisoned \<Rightarrow> (PoisonPanic, t)
      | Some (Counter i) \<Rightarrow> if i = 0 then (Retry, t) else (Found i, t))"

definition slow_append :: "(nat \<Rightarrow> nat) \<Rightarrow> table \<Rightarrow> bytes \<Rightarrow> log_result \<times> table" where
  "slow_append grow t s =
     (let (r, l) = log_Append grow (tlog t) s; t = t\<lparr>tlog := l\<rparr>
      in (r, if r = LogExhausted then t\<lparr>index := (index t)(s \<mapsto> Poisoned)\<rparr> else t))"

definition slow_commit :: "table \<Rightarrow> bytes \<Rightarrow> nat \<Rightarrow> ID \<times> table" where
  "slow_commit t s i = (let n = word_of_nat i + 1 in (n, t\<lparr>index := (index t)(s \<mapsto> Counter n)\<rparr>))"

text \<open>One call run alone. \<open>Hang\<close> is a spin loop that another caller would have to end.\<close>

datatype intern_result = Interned ID | Panics | Hang

definition internSlow :: "(nat \<Rightarrow> nat) \<Rightarrow> table \<Rightarrow> bytes \<Rightarrow> intern_result \<times> table" where
  "internSlow grow t s =
     (case slow_claim t s of
        (Found i, t) \<Rightarrow> (Interned i, t)
      | (PoisonPanic, t) \<Rightarrow> (Panics, t)
      | (Retry, t) \<Rightarrow> (Hang, t)
      | (Leader, t) \<Rightarrow>
          (case slow_append grow t s of
             (LogOk i, t) \<Rightarrow> (let (n, t) = slow_commit t s i in (Interned n, t))
           | (LogSpin, t) \<Rightarrow> (Hang, t)
           | (_, t) \<Rightarrow> (Panics, t)))"

definition Intern :: "(nat \<Rightarrow> nat) \<Rightarrow> table \<Rightarrow> bytes \<Rightarrow> intern_result \<times> table" where
  "Intern grow t s =
     (let ((i, ok), t) = Query t s;
          t = t\<lparr>tstats := map_option (\<lambda>st. st\<lparr>hits := hits st + Bit ok, total := total st + 1,
                 internBytes := internBytes st + (word_of_nat (length s) AND Mask ok)\<rparr>) (tstats t)\<rparr>
      in if \<not> ok then internSlow grow t s else (Interned i, t))"

text \<open>\<open>Value\<close> of a table: \<open>None\<close> is the out-of-range panic of \<open>Load\<close>.\<close>

definition Value :: "table \<Rightarrow> ID \<Rightarrow> bytes option" where
  "Value t i = (if i \<le>s 0 then Some (decodeChar6 i) else log_Load (tlog t) (sint i - 1))"

subsection \<open>Sets and maps of interned strings\<close>

type_synonym intern_set = "ID set"
type_synonym 'a intern_map = "ID \<rightharpoonup> 'a"

definition Set_ContainsID :: "intern_set \<Rightarrow> ID \<Rightarrow> bool" where
  "Set_ContainsID s i \<longleftrightarrow> i \<in> s"

definition Set_Contains :: "intern_set \<Rightarrow> table \<Rightarrow> bytes \<Rightarrow> bool \<times> table" where
  "Set_Contains s t key = (let ((k, ok), t) = Query t key in (if \<not> ok then False else k \<in> s, t))"

definition Set_AddID :: "intern_set \<Rightarrow> ID \<Rightarrow> bool \<times> intern_set" where
  "Set_AddID s i = (i \<notin> s, insert i s)"

text \<open>\<open>Add\<close> interns its key first; a panic or a spin of \<open>Intern\<close> is that of \<open>Add\<close>, \<open>None\<close>.\<close>

definition Set_Add :: "(nat \<Rightarrow> nat) \<Rightarrow> intern_set \<Rightarrow> table \<Rightarrow> bytes \<Rightarrow> (bool \<times> intern_set) option \<times> table" where
  "Set_Add grow s t key =
     (case Intern grow t key of
        (Interned k, t) \<Rightarrow> (Some (k \<notin> s, if k \<notin> s then insert k s else s), t)
      | (_, t) \<Rightarrow> (None, t))"

definition Map_Get :: "'a intern_map \<Rightarrow> table \<Rightarrow> bytes \<Rightarrow> 'a option \<times> table" where
  "Map_Get m t key = (let ((k, ok), t) = Query t key in (if \<not> ok then None else m k, t))"

text \<open>\<open>mapsx.Add\<close>: insert if absent; the value the key maps to afterwards, and whether it was new.\<close>

definition mapsx_Add :: "('k \<rightharpoonup> 'v) \<Rightarrow> 'k \<Rightarrow> 'v \<Rightarrow> ('v \<times> bool) \<times> ('k \<rightharpoonup> 'v)" where
  "mapsx_Add m k v = (case m k of Some w \<Rightarrow> ((w, False), m) | None \<Rightarrow> ((v, True), m(k \<mapsto> v)))"

definition Map_AddID :: "'a intern_map \<Rightarrow> ID \<Rightarrow> 'a \<Rightarrow> ('a \<times> bool) \<times> 'a intern_map" where
  "Map_AddID m i v = mapsx_Add m i v"

definition Map_Add ::
  "(nat \<Rightarrow> nat) \<Rightarrow> 'a intern_map \<Rightarrow> table \<Rightarrow> bytes \<Rightarrow> 'a \<Rightarrow> (('a \<times> bool) \<times> 'a intern_map) option \<times> table" where
  "Map_Add grow m t key v =
     (case Intern grow t key of (Interned k, t) \<Rightarrow> (Some (Map_AddID m k v), t) | (_, t) \<Rightarrow> (None, t))"

section \<open>What the log promises\<close>

text \<open>The contract of an append-only log towards its clients: an accepted append returns the next
  index and extends the contents by one element, a refused one (an error, or a caller that waits for
  ever) changes nothing; \<open>load\<close> reads the contents. \<open>room\<close> says that an append is accepted, \<open>usable\<close>
  that its counter does not wrap around.\<close>

locale append_log =
  fixes append :: "'l \<Rightarrow> 'v \<Rightarrow> log_result \<times> 'l"
    and load :: "'l \<Rightarrow> int \<Rightarrow> 'v option"
    and contents :: "'l \<Rightarrow> 'v list"
    and ok room usable :: "'l \<Rightarrow> bool"
  assumes append_room: "ok l \<Longrightarrow> room l \<Longrightarrow>
      \<exists>l'. append l v = (LogOk (length (contents l)), l') \<and> contents l' = contents l @ [v] \<and> ok l'"
    and append_refused: "ok l \<Longrightarrow> \<not> room l \<Longrightarrow> usable l \<Longrightarrow>
      \<exists>r l'. append l v = (r, l') \<and> r \<in> {LogExhausted, LogSpin} \<and> contents l' = contents l \<and> ok l'"
    and room_usable: "room l \<Longrightarrow> usable l"
    and load_contents: "ok l \<Longrightarrow>
      load l i = (if 0 \<le> i \<and> i < int (length (contents l)) then Some (contents l ! nat i) else None)"
begin

lemma append_cases:
  assumes "ok l" "usable l"
  obtains (accepted) l' where "append l v = (LogOk (length (contents l)), l')"
      "contents l' = contents l @ [v]" "ok l'"
    | (refused) r l' where "append l v = (r, l')" "r \<in> {LogExhausted, LogSpin}" "contents l' = contents l" "ok l'"
  using append_room [of l v] append_refused [of l v] assms by (cases "room l") auto

lemma load_stable:
  assumes "ok l" "usable l" "append l v = (r, l')" "load l i = Some w"
  shows "load l' i = Some w"
  using assms(1,2)
proof (cases rule: append_cases [where v = v])
  case (accepted l1)
  then show ?thesis using assms load_contents [of l i] load_contents [of l' i]
    by (auto simp: nth_append split: if_splits)
next
  case (refused r1 l1)
  then show ?thesis using assms load_contents [of l i] load_contents [of l' i]
    by (auto split: if_splits)
qed

lemma load_new:
  assumes "ok l" "usable l" "append l v = (LogOk n, l')"
  shows "load l' (int n) = Some v" "load l (int n) = None"
proof -
  have *: "n = length (contents l) \<and> contents l' = contents l @ [v] \<and> ok l'"
    using assms(1,2) by (cases rule: append_cases [where v = v]) (use assms(3) in auto)
  then show "load l' (int n) = Some v" using load_contents [of l' "int n"] by simp
  show "load l (int n) = None" using * load_contents [OF assms(1), of "int n"] by simp
qed

end

subsection \<open>\<open>syncx.Log\<close> keeps the contract\<close>

text \<open>What Go documents of \<open>append\<close>: the new array has room for the appended element. How much more it
  has is not documented, and the log stores the capacity as an \<open>int32\<close>, which may wrap.\<close>

definition append_grows :: "(nat \<Rightarrow> nat) \<Rightarrow> bool" where
  "append_grows grow \<longleftrightarrow> (\<forall>c. c < grow c)"

definition log_contents :: "'v log \<Rightarrow> 'v list" where
  "log_contents l = map the (take (unat (llen l)) (larr l))"

text \<open>The capacity field never promises more than the array has. Either every append so far was completed, or
  one was refused, and then so will be every later one.\<close>

definition log_ok :: "'v log \<Rightarrow> bool" where
  "log_ok l \<longleftrightarrow> unat (llen l) \<le> length (larr l) \<and> unat (llen l) < 2 ^ 31 \<and>
     (\<not> lcap l <s 0 \<longrightarrow> unat (lcap l) \<le> length (larr l)) \<and> (\<forall>i < unat (llen l). larr l ! i \<noteq> None) \<and>
     (lnext l = llen l \<or> unat (llen l) < unat (lnext l) \<and> (unat (lnext l) < 2 ^ 31 \<longrightarrow> lcap l <s lnext l))"

definition log_room :: "'v log \<Rightarrow> bool" where
  "log_room l \<longleftrightarrow> lnext l = llen l \<and> unat (llen l) < 2 ^ 31 - 1 \<and> llen l \<le>s lcap l"

lemma log_Append_accepts:
  assumes "append_grows grow" "log_ok l" "log_room l"
  obtains l' where "log_Append grow l v = (LogOk (unat (llen l)), l')" "log_ok l'"
    "log_contents l' = log_contents l @ [v]" "lnext l' = lnext l + 1" "llen l' = llen l + 1"
proof -
  let ?n = "unat (llen l)" and ?c = "unat (lcap l)"
  have nx: "lnext l = llen l" and small: "?n < 2 ^ 31 - 1" and le: "llen l \<le>s lcap l" and n_le: "?n \<le> length (larr l)"
    and set: "\<forall>i < ?n. larr l ! i \<noteq> None" and cap_len: "\<not> lcap l <s 0 \<longrightarrow> ?c \<le> length (larr l)"
    using assms by (auto simp: log_ok_def log_room_def)
  have n: "unat (llen l + 1) = Suc ?n" using small by (simp add: unat_Suc32)
  have neg: "\<not> llen l + 1 <s 0" "\<not> llen l <s 0" using n small by (auto simp: sless_zero32)
  have cap: "\<not> lcap l <s 0" using le neg(2) by (auto simp: word_sless_alt word_sle_eq)
  then have c31: "?c < 2 ^ 31" by (simp add: sless_zero32)
  have len: "?c \<le> length (larr l)" using cap cap_len by blast
  have nc: "?n \<le> ?c" using le small c31 by (simp add: sle_unat32)
  show ?thesis
  proof (cases "?n < ?c")
    case True
    let ?l = "l\<lparr>lnext := llen l + 1, larr := (larr l)[?n := Some v], llen := llen l + 1\<rparr>"
    have "\<not> lcap l <s llen l" "llen l <s lcap l" "\<not> llen l + 1 \<le>s llen l"
      using True c31 n small by (simp_all add: sless_unat32 sle_unat32)
    then have "log_Append grow l v = (LogOk ?n, ?l)"
      using neg nx by (simp add: log_Append_def Let_def)
    moreover have "log_ok ?l"
      using True len n set small cap by (auto simp: log_ok_def nth_list_update less_Suc_eq)
    moreover have "log_contents ?l = log_contents l @ [v]"
      using True len n by (simp add: log_contents_def take_Suc_conv_app_nth)
    ultimately show ?thesis using that nx by simp
  next
    case False
    with nc have c: "lcap l = llen l" by (simp add: word_unat_eq_iff)
    let ?l = "l\<lparr>lnext := llen l + 1, llen := llen l + 1,
        larr := take ?n (larr l) @ Some v # replicate (grow ?n - Suc ?n) None,
        lcap := word_of_nat (grow ?n)\<rparr>"
    have g: "?n < grow ?n" using assms(1) by (simp add: append_grows_def)
    have gu: "unat (word_of_nat (grow ?n) :: go_int32) \<le> grow ?n" by (simp add: unat_of_nat)
    have "\<not> lcap l <s llen l" "\<not> llen l <s lcap l"
      using c by (simp_all add: word_sless_alt)
    then have "log_Append grow l v = (LogOk ?n, ?l)"
      using neg nx c by (simp add: log_Append_def Let_def)
    moreover have "log_ok ?l"
      using g gu n_le n set small by (auto simp: log_ok_def nth_append less_Suc_eq)
    moreover have "log_contents ?l = log_contents l @ [v]"
      using n_le n by (simp add: log_contents_def)
    ultimately show ?thesis using that nx by simp
  qed
qed

lemma log_Append_refuses:
  assumes "log_ok l" "\<not> log_room l" "unat (lnext l) < 2 ^ 32 - 1"
  shows "\<exists>r \<in> {LogExhausted, LogSpin}. log_Append grow l v = (r, l\<lparr>lnext := lnext l + 1\<rparr>)"
    "log_ok (l\<lparr>lnext := lnext l + 1\<rparr>)"
proof -
  have n: "unat (lnext l + 1) = Suc (unat (lnext l))" using assms(3) by (rule unat_Suc32)
  have le: "unat (llen l) \<le> unat (lnext l)" using assms(1) by (auto simp: log_ok_def)
  have wait: "lcap l <s lnext l \<and> \<not> lnext l <s 0 \<and> \<not> lnext l + 1 <s 0 \<and> lcap l <s lnext l + 1" if "unat (lnext l) < 2 ^ 31 - 1"
  proof -
    have neg: "\<not> lnext l <s 0" "\<not> lnext l + 1 <s 0" using that n by (auto simp: sless_zero32)
    have "lcap l <s lnext l" using assms(1,2) that by (auto simp: log_ok_def log_room_def word_sless_alt word_sle_eq)
    moreover have "lnext l <s lnext l + 1" using that n by (simp add: sless_unat32)
    ultimately show ?thesis using neg by (auto simp: word_sless_alt)
  qed
  then show "\<exists>r \<in> {LogExhausted, LogSpin}. log_Append grow l v = (r, l\<lparr>lnext := lnext l + 1\<rparr>)"
    using n by (cases "unat (lnext l) < 2 ^ 31 - 1") (simp_all add: log_Append_def Let_def sless_zero32)
  show "log_ok (l\<lparr>lnext := lnext l + 1\<rparr>)"
    using assms(1) n le wait by (cases "unat (lnext l) < 2 ^ 31 - 1") (auto simp: log_ok_def)
qed

lemma log_Load_contents:
  assumes "log_ok l"
  shows "log_Load l i =
     (if 0 \<le> i \<and> i < int (length (log_contents l)) then Some (log_contents l ! nat i) else None)"
proof -
  have len: "unat (llen l) \<le> length (larr l)" "unat (llen l) < 2 ^ 31"
    and set: "\<forall>i < unat (llen l). larr l ! i \<noteq> None"
    using assms by (auto simp: log_ok_def)
  have "sint (llen l) = int (unat (llen l))" using len by (simp only: sint_unat32) simp
  then show ?thesis using len set
    by (auto simp: log_Load_def log_contents_def nat_less_iff simp del: of_nat_unat)
qed

interpretation glog: append_log "log_Append grow" log_Load log_contents
    "\<lambda>l. append_grows grow \<and> log_ok l" log_room "\<lambda>l. unat (lnext l) < 2 ^ 32 - 1"
  for grow :: "nat \<Rightarrow> nat"
proof (standard, goal_cases)
  case (1 l v)
  then have "length (log_contents l) = unat (llen l)" by (auto simp: log_contents_def log_ok_def)
  with 1 show ?case using log_Append_accepts [of grow l v] by metis
next
  case (2 l v)
  then show ?case using log_Append_refuses [of l] by (fastforce simp: log_contents_def)
next
  case (3 l)
  then show ?case by (simp add: log_room_def)
next
  case (4 l i)
  then show ?case by (simp add: log_Load_contents)
qed

section \<open>Concurrent interning\<close>

text \<open>
  Callers of \<open>Intern\<close> are numbered; each is at one of the atomic steps of its call. \<open>results\<close>
  records every identifier a call has returned, with the string it was called on. A caller that
  panicked or spins forever is \<open>Stopped\<close>.
\<close>

datatype ipc = Idle | AtQuery bytes | AtClaim bytes | AtAppend bytes | AtCommit bytes nat | Stopped

record isys =
  tab :: table
  pcs :: "nat \<Rightarrow> ipc"
  results :: "(bytes \<times> ID) set"

definition isys_init :: isys where
  "isys_init = \<lparr>tab = new_table, pcs = (\<lambda>_. Idle), results = {}\<rparr>"

abbreviation goto :: "isys \<Rightarrow> nat \<Rightarrow> ipc \<Rightarrow> table \<Rightarrow> isys" where
  "goto c j p t \<equiv> c\<lparr>tab := t, pcs := (pcs c)(j := p)\<rparr>"

abbreviation return_id :: "isys \<Rightarrow> nat \<Rightarrow> bytes \<Rightarrow> ID \<Rightarrow> table \<Rightarrow> isys" where
  "return_id c j s i t \<equiv> c\<lparr>tab := t, pcs := (pcs c)(j := Idle), results := insert (s, i) (results c)\<rparr>"

inductive istep :: "(nat \<Rightarrow> nat) \<Rightarrow> isys \<Rightarrow> isys \<Rightarrow> bool" for grow where
  call: "pcs c j = Idle \<Longrightarrow> istep grow c (goto c j (AtQuery s) (tab c))"
| query_hit: "pcs c j = AtQuery s \<Longrightarrow> Query (tab c) s = ((i, True), t) \<Longrightarrow>
    istep grow c (return_id c j s i t)"
| query_miss: "pcs c j = AtQuery s \<Longrightarrow> Query (tab c) s = ((i, False), t) \<Longrightarrow>
    istep grow c (goto c j (AtClaim s) t)"
| claim_leader: "pcs c j = AtClaim s \<Longrightarrow> slow_claim (tab c) s = (Leader, t) \<Longrightarrow>
    istep grow c (goto c j (AtAppend s) t)"
| claim_found: "pcs c j = AtClaim s \<Longrightarrow> slow_claim (tab c) s = (Found i, t) \<Longrightarrow>
    istep grow c (return_id c j s i t)"
| claim_retry: "pcs c j = AtClaim s \<Longrightarrow> slow_claim (tab c) s = (Retry, t) \<Longrightarrow>
    istep grow c (goto c j (AtClaim s) t)"
| claim_panic: "pcs c j = AtClaim s \<Longrightarrow> slow_claim (tab c) s = (PoisonPanic, t) \<Longrightarrow>
    istep grow c (goto c j Stopped t)"
| append_ok: "pcs c j = AtAppend s \<Longrightarrow> slow_append grow (tab c) s = (LogOk i, t) \<Longrightarrow>
    istep grow c (goto c j (AtCommit s i) t)"
| append_fail: "pcs c j = AtAppend s \<Longrightarrow> slow_append grow (tab c) s = (r, t) \<Longrightarrow>
    r = LogExhausted \<or> r = LogIndexPanic \<Longrightarrow> istep grow c (goto c j Stopped t)"
| append_spin: "pcs c j = AtAppend s \<Longrightarrow> slow_append grow (tab c) s = (LogSpin, t) \<Longrightarrow>
    istep grow c (goto c j Stopped t)"
| commit: "pcs c j = AtCommit s i \<Longrightarrow> slow_commit (tab c) s i = (n, t) \<Longrightarrow>
    istep grow c (return_id c j s n t)"

inductive ireachable :: "(nat \<Rightarrow> nat) \<Rightarrow> isys \<Rightarrow> bool" for grow where
  start: "ireachable grow isys_init"
| step: "ireachable grow c \<Longrightarrow> istep grow c d \<Longrightarrow> ireachable grow d"

text \<open>The invariant. \<open>leading c s\<close>: some caller is between claiming \<open>s\<close> and storing its
  identifier; \<open>appended c\<close>: the keys whose append has been made.\<close>

definition leading :: "isys \<Rightarrow> bytes \<Rightarrow> bool" where
  "leading c s \<longleftrightarrow> (\<exists>j. pcs c j = AtAppend s \<or> (\<exists>i. pcs c j = AtCommit s i))"

definition appended :: "isys \<Rightarrow> bytes set" where
  "appended c = dom (index (tab c)) - {s. \<exists>j. pcs c j = AtAppend s}"

definition key_of :: "ipc \<Rightarrow> bytes option" where
  "key_of p = (case p of AtAppend s \<Rightarrow> Some s | AtCommit s i \<Rightarrow> Some s | _ \<Rightarrow> None)"

definition slow_key :: "ipc \<Rightarrow> bytes option" where
  "slow_key p = (case p of AtClaim s \<Rightarrow> Some s | AtAppend s \<Rightarrow> Some s | AtCommit s i \<Rightarrow> Some s | _ \<Rightarrow> None)"

definition names :: "table \<Rightarrow> bytes \<Rightarrow> ID \<Rightarrow> bool" where
  "names t s i \<longleftrightarrow> encodeChar6 s = (i, True) \<or>
     (\<not> snd (encodeChar6 s) \<and> index t s = Some (Counter i) \<and> i \<noteq> 0)"

definition table_inv :: "isys \<Rightarrow> bool" where
  "table_inv c \<longleftrightarrow>
     log_ok (tlog (tab c)) \<and> finite (dom (index (tab c))) \<and>
     unat (lnext (tlog (tab c))) = card (appended c) \<and>
     (\<forall>j k s. key_of (pcs c j) = Some s \<and> key_of (pcs c k) = Some s \<longrightarrow> j = k) \<and>
     (\<forall>j s. pcs c j = AtAppend s \<longrightarrow> index (tab c) s = Some (Counter 0)) \<and>
     (\<forall>j s i. pcs c j = AtCommit s i \<longrightarrow> index (tab c) s = Some (Counter 0) \<and>
        i < 2 ^ 31 - 1 \<and> log_Load (tlog (tab c)) (int i) = Some s) \<and>
     (\<forall>s i. index (tab c) s = Some (Counter i) \<and> i \<noteq> 0 \<longrightarrow>
        0 < sint i \<and> log_Load (tlog (tab c)) (sint i - 1) = Some s) \<and>
     (\<forall>j s. slow_key (pcs c j) = Some s \<longrightarrow> \<not> snd (encodeChar6 s)) \<and>
     (\<forall>s i. (s, i) \<in> results c \<longrightarrow> names (tab c) s i)"

lemma Query_same: "Query t s = (r, t') \<Longrightarrow> index t' = index t \<and> tlog t' = tlog t"
  by (cases "encodeChar6 s") (auto simp: Query_def Let_def split: if_splits)

lemma Query_hit:
  "Query t s = ((i, True), t') \<Longrightarrow>
     names t s i"
  by (cases "encodeChar6 s")
     (auto simp: names_def Query_def slot_id_def Let_def split: if_splits option.splits slot.splits)

lemma Query_miss: "Query t s = ((i, False), t') \<Longrightarrow> \<not> snd (encodeChar6 s)"
  by (cases "encodeChar6 s") (auto simp: Query_def Let_def split: if_splits)

lemma ex_upd: "(\<exists>k. (f(j := p)) k = x) \<longleftrightarrow> p = x \<or> (\<exists>k. k \<noteq> j \<and> f k = x)"
  by auto

lemma ex_other: "f j \<noteq> x \<Longrightarrow> (\<exists>k. k \<noteq> j \<and> f k = x) \<longleftrightarrow> (\<exists>k. f k = x)"
  by metis

text \<open>A step that neither touches the table's contents nor makes its caller a leader.\<close>

lemma table_inv_idle:
  assumes inv: "table_inv c" and t: "index t = index (tab c)" "tlog t = tlog (tab c)"
    and key: "key_of (pcs c j) = None" "key_of p = None"
    and slow: "\<And>s. slow_key p = Some s \<Longrightarrow> \<not> snd (encodeChar6 s)"
    and R: "\<And>s i. (s, i) \<in> R \<Longrightarrow> names (tab c) s i"
  shows "table_inv (c\<lparr>tab := t, pcs := (pcs c)(j := p), results := R\<rparr>)"
proof -
  have pc: "pcs c j \<noteq> AtAppend s" "pcs c j \<noteq> AtCommit s i" "p \<noteq> AtAppend s" "p \<noteq> AtCommit s i" for s i
    using key by (auto simp: key_of_def)
  then have "appended (c\<lparr>tab := t, pcs := (pcs c)(j := p), results := R\<rparr>) = appended c"
    using t(1) by (simp add: appended_def ex_upd ex_other del: fun_upd_apply)
  moreover have "(s, i) \<in> R \<longrightarrow> names t s i" for s i
    using R [of s i] t(1) by (simp add: names_def)
  ultimately show ?thesis
    using inv key pc slow unfolding table_inv_def by (simp add: t) metis
qed

lemma names_upd:
  "names t r i \<Longrightarrow> index t s = None \<or> index t s = Some (Counter 0) \<Longrightarrow>
     names (t\<lparr>index := (index t)(s \<mapsto> x)\<rparr>) r i"
  by (auto simp: names_def)

lemma table_invD:
  assumes "table_inv c"
  shows "log_ok (tlog (tab c))" "finite (dom (index (tab c)))"
    "unat (lnext (tlog (tab c))) = card (appended c)"
    "key_of (pcs c j) = Some s \<Longrightarrow> key_of (pcs c k) = Some s \<Longrightarrow> j = k"
    "pcs c j = AtAppend s \<Longrightarrow> index (tab c) s = Some (Counter 0)"
    "pcs c j = AtCommit s n \<Longrightarrow> index (tab c) s = Some (Counter 0) \<and> n < 2 ^ 31 - 1 \<and>
       log_Load (tlog (tab c)) (int n) = Some s"
    "index (tab c) s = Some (Counter i) \<Longrightarrow> i \<noteq> 0 \<Longrightarrow>
       0 < sint i \<and> log_Load (tlog (tab c)) (sint i - 1) = Some s"
    "slow_key (pcs c j) = Some s \<Longrightarrow> \<not> snd (encodeChar6 s)"
    "(s, i) \<in> results c \<Longrightarrow> names (tab c) s i"
  using assms by (auto simp: table_inv_def)

lemma table_invI:
  assumes "log_ok (tlog (tab c))" "finite (dom (index (tab c)))"
    "unat (lnext (tlog (tab c))) = card (appended c)"
    "\<And>j k s. key_of (pcs c j) = Some s \<Longrightarrow> key_of (pcs c k) = Some s \<Longrightarrow> j = k"
    "\<And>j s. pcs c j = AtAppend s \<Longrightarrow> index (tab c) s = Some (Counter 0)"
    "\<And>j s n. pcs c j = AtCommit s n \<Longrightarrow> index (tab c) s = Some (Counter 0) \<and> n < 2 ^ 31 - 1 \<and>
       log_Load (tlog (tab c)) (int n) = Some s"
    "\<And>s i. index (tab c) s = Some (Counter i) \<Longrightarrow> i \<noteq> 0 \<Longrightarrow>
       0 < sint i \<and> log_Load (tlog (tab c)) (sint i - 1) = Some s"
    "\<And>j s. slow_key (pcs c j) = Some s \<Longrightarrow> \<not> snd (encodeChar6 s)"
    "\<And>s i. (s, i) \<in> results c \<Longrightarrow> names (tab c) s i"
  shows "table_inv c"
  unfolding table_inv_def using assms by blast

lemma slow_key_upd:
  "(\<And>j s. slow_key (f j) = Some s \<Longrightarrow> P s) \<Longrightarrow> (\<And>s. slow_key p = Some s \<Longrightarrow> P s) \<Longrightarrow>
     slow_key ((f(j := p)) k) = Some r \<Longrightarrow> P r"
  by (auto split: if_splits)

lemma table_inv_leader:
  assumes inv: "table_inv c" and pc: "pcs c j = AtClaim s" and new: "index (tab c) s = None"
  shows "table_inv (goto c j (AtAppend s) ((tab c)\<lparr>index := (index (tab c))(s \<mapsto> Counter 0)\<rparr>))"
    (is "table_inv ?d")
proof -
  note I = table_invD [OF inv]
  have app: "appended ?d = appended c"
    using new pc by (auto simp: appended_def ex_upd ex_other simp del: fun_upd_apply)
  have key: "key_of (pcs c k) \<noteq> Some s" for k
    using I(5,6) [of k] new by (auto simp: key_of_def split: ipc.splits)
  show ?thesis
  proof (rule table_invI)
    show "key_of (pcs ?d k) = Some r \<Longrightarrow> key_of (pcs ?d m) = Some r \<Longrightarrow> k = m" for k m r
      using key I(4) by (auto simp: key_of_def split: if_splits)
    show "slow_key (pcs ?d k) = Some r \<Longrightarrow> \<not> snd (encodeChar6 r)" for k r
      using I(8) [of k r] I(8) [of j s] pc by (auto simp: slow_key_def split: if_splits)
    show "(r, i) \<in> results ?d \<Longrightarrow> names (tab ?d) r i" for r i
      using I(9) new by (simp add: names_upd)
  qed (use I app in \<open>auto split: if_splits\<close>)
qed

text \<open>The leader's append, and its commit.\<close>

lemma log_Append_bound:
  assumes "append_grows grow" "log_ok l" "unat (lnext l) < 2 ^ 32 - 1" "log_Append grow l v = (r, l')"
  shows "unat (lnext l') = Suc (unat (lnext l))" "log_ok l'"
    "r \<in> {LogExhausted, LogSpin} \<or> (\<exists>n < 2 ^ 31 - 1. r = LogOk n)"
proof -
  have "unat (lnext l') = Suc (unat (lnext l)) \<and> log_ok l' \<and>
      (r \<in> {LogExhausted, LogSpin} \<or> (\<exists>n < 2 ^ 31 - 1. r = LogOk n))"
  proof (cases "log_room l")
    case True
    then have "unat (llen l) < 2 ^ 31 - 1" by (simp add: log_room_def)
    with True show ?thesis using log_Append_accepts [OF assms(1,2) True, of v] assms(4)
      by (metis assms(3) prod.inject unat_Suc32)
  next
    case False
    then show ?thesis using log_Append_refuses [OF assms(2) False assms(3)] assms(3,4)
      by (metis log.select_convs(1) log.surjective log.update_convs(1) prod.inject unat_Suc32)
  qed
  then show "unat (lnext l') = Suc (unat (lnext l))" "log_ok l'"
    "r \<in> {LogExhausted, LogSpin} \<or> (\<exists>n < 2 ^ 31 - 1. r = LogOk n)" by blast+
qed

lemma table_inv_append:
  assumes inv: "table_inv c" and g: "append_grows grow" and pc: "pcs c j = AtAppend s"
    and small: "card (dom (index (tab c))) < 2 ^ 32"
    and app: "slow_append grow (tab c) s = (r, t)"
  obtains (ok) n where "r = LogOk n" "table_inv (goto c j (AtCommit s n) t)"
  | (fail) "r \<in> {LogExhausted, LogSpin}" "table_inv (goto c j Stopped t)"
proof -
  note I = table_invD [OF inv]
  obtain l where l: "log_Append grow (tlog (tab c)) s = (r, l)"
    and t: "t = (tab c)\<lparr>tlog := l\<rparr>\<lparr>index := (if r = LogExhausted then (index (tab c))(s \<mapsto> Poisoned) else index (tab c))\<rparr>"
    using app by (auto simp: slow_append_def Let_def split: prod.splits)
  have s: "s \<in> dom (index (tab c))" "s \<notin> appended c" "appended c \<subseteq> dom (index (tab c))"
    using I(5) [OF pc] pc by (auto simp: appended_def)
  then have "card (appended c) < card (dom (index (tab c)))"
    using I(2) by (intro psubset_card_mono) auto
  with small have use: "unat (lnext (tlog (tab c))) < 2 ^ 32 - 1" by (simp add: I(3))
  note L = log_Append_bound [OF g I(1) use l] glog.load_stable [OF _ use l] glog.load_new [OF _ use]
  have uniq: "k = j" if "pcs c k = AtAppend s \<or> (\<exists>i. pcs c k = AtCommit s i)" for k
    using I(4) [of k s j] that pc by (auto simp: key_of_def)
  have fin: "finite (appended c)" using s(3) I(2) finite_subset by blast
  have main: "table_inv (goto c j p t)"
    if p: "p = Stopped \<and> r \<in> {LogExhausted, LogSpin} \<or> (\<exists>n. p = AtCommit s n \<and> r = LogOk n)" for p
  proof (rule table_invI)
    let ?d = "goto c j p t"
    have "(\<exists>k. ((pcs c)(j := p)) k = AtAppend a) \<longleftrightarrow> a \<noteq> s \<and> (\<exists>k. pcs c k = AtAppend a)" for a
      unfolding ex_upd using p pc uniq by (metis ipc.distinct ipc.inject(3))
    then have "appended ?d = insert s (appended c)"
      using s(1) by (auto simp: appended_def t simp del: fun_upd_apply)
    then show "unat (lnext (tlog (tab ?d))) = card (appended ?d)"
      using L(1) I(3) s(2) fin by (simp add: t)
    show "log_ok (tlog (tab ?d))" using L(2) by (simp add: t)
    show "finite (dom (index (tab ?d)))" using I(2) by (simp add: t)
    show "key_of (pcs ?d k) = Some a \<Longrightarrow> key_of (pcs ?d m) = Some a \<Longrightarrow> k = m" for k m a
      using I(4) p pc by (auto simp: key_of_def split: if_splits)
    show "pcs ?d k = AtAppend a \<Longrightarrow> index (tab ?d) a = Some (Counter 0)" for k a
      using I(5) [of k a] p uniq by (auto simp: t split: if_splits)
    show "index (tab ?d) a = Some (Counter 0) \<and> n < 2 ^ 31 - 1 \<and>
        log_Load (tlog (tab ?d)) (int n) = Some a" if "pcs ?d k = AtCommit a n" for k a n
    proof (cases "k = j")
      case True
      with that p have "r = LogOk n" "a = s" by auto
      then show ?thesis using L(3) I(5) [OF pc] L(5) [of grow s n l] g I(1) l by (simp add: t)
    next
      case False
      then show ?thesis using that I(6) [of k a n] uniq [of k] L(4) g I(1) by (auto simp: t)
    qed
    show "0 < sint i \<and> log_Load (tlog (tab ?d)) (sint i - 1) = Some a"
      if "index (tab ?d) a = Some (Counter i)" "i \<noteq> 0" for a i
      using that I(7) [of a i] L(4) g I(1) by (auto simp: t split: if_splits)
    show "slow_key (pcs ?d k) = Some a \<Longrightarrow> \<not> snd (encodeChar6 a)" for k a
      using I(8) [of k a] I(8) [of j s] pc p by (auto simp: slow_key_def split: if_splits)
    show "(a, i) \<in> results ?d \<Longrightarrow> names (tab ?d) a i" for a i
      using I(9) [of a i] I(5) [OF pc] by (auto simp: t names_def)
  qed
  show ?thesis using L(3) main ok fail by blast
qed

lemma table_inv_commit:
  assumes inv: "table_inv c" and pc: "pcs c j = AtCommit s n"
  shows "table_inv (return_id c j s (word_of_nat n + 1)
    ((tab c)\<lparr>index := (index (tab c))(s \<mapsto> Counter (word_of_nat n + 1))\<rparr>))" (is "table_inv ?d")
proof -
  note I = table_invD [OF inv]
  let ?i = "word_of_nat n + 1 :: ID"
  note S = I(6) [OF pc]
  then have "unat (word_of_nat n :: ID) = n" by (simp add: unat_of_nat)
  then have u: "unat ?i = Suc n" using S by (simp add: unat_Suc32)
  then have i: "sint ?i = int n + 1" using S by (simp only: sint_unat32) simp
  then have "?i \<noteq> 0" by auto
  have uniq: "k = j" if "key_of (pcs c k) = Some s" for k
    using I(4) [of k s j] that pc by (auto simp: key_of_def)
  have app: "appended ?d = appended c"
    using S pc by (auto simp: appended_def ex_upd ex_other simp del: fun_upd_apply)
  show ?thesis
  proof (rule table_invI)
    show "key_of (pcs ?d k) = Some a \<Longrightarrow> key_of (pcs ?d m) = Some a \<Longrightarrow> k = m" for k m a
      using I(4) by (auto simp: key_of_def split: if_splits)
    show "pcs ?d k = AtAppend a \<Longrightarrow> index (tab ?d) a = Some (Counter 0)" for k a
      using I(5) [of k a] uniq [of k] by (auto simp: key_of_def split: if_splits)
    show "pcs ?d k = AtCommit a m \<Longrightarrow> index (tab ?d) a = Some (Counter 0) \<and> m < 2 ^ 31 - 1 \<and>
        log_Load (tlog (tab ?d)) (int m) = Some a" for k a m
      using I(6) [of k a m] uniq [of k] by (auto simp: key_of_def split: if_splits)
    show "0 < sint i \<and> log_Load (tlog (tab ?d)) (sint i - 1) = Some a"
      if "index (tab ?d) a = Some (Counter i)" "i \<noteq> 0" for a i
      using that I(7) [of a i] S i by (auto split: if_splits)
    show "slow_key (pcs ?d k) = Some a \<Longrightarrow> \<not> snd (encodeChar6 a)" for k a
      using I(8) [of k a] by (auto simp: slow_key_def split: if_splits)
    show "(a, i) \<in> results ?d \<Longrightarrow> names (tab ?d) a i" for a i
      using I(9) [of a i] S I(8) [of j s] pc \<open>?i \<noteq> 0\<close>
      by (auto simp: names_upd) (auto simp: names_def slow_key_def)
  qed (use I app in auto)
qed

lemma istep_index:
  "istep grow c d \<Longrightarrow> index (tab d) = index (tab c) \<or> (\<exists>s x. index (tab d) = (index (tab c))(s \<mapsto> x))"
  by (induction rule: istep.induct)
     (auto simp: slow_claim_def slow_append_def slow_commit_def Let_def simp del: fun_upd_apply
        dest!: Query_same split: option.splits slot.splits if_splits prod.splits, blast+)

lemma istep_dom:
  "istep grow c d \<Longrightarrow> dom (index (tab c)) \<subseteq> dom (index (tab d)) \<and>
     (finite (dom (index (tab c))) \<longrightarrow> finite (dom (index (tab d))))"
  by (drule istep_index) auto

lemma istep_inv:
  assumes "istep grow c d" "table_inv c" "append_grows grow" "card (dom (index (tab c))) < 2 ^ 32"
  shows "table_inv d"
  using assms
proof (induction rule: istep.induct)
  case (call c j s)
  then show ?case using table_inv_idle [of c "tab c" j "AtQuery s" "results c"] table_invD(9) [of c]
    by (simp add: key_of_def slow_key_def)
next
  case (query_hit c j s i t)
  have "names (tab c) s i" "index t = index (tab c)" "tlog t = tlog (tab c)"
    using Query_same [OF query_hit(2)] Query_hit [OF query_hit(2)] by simp_all
  with query_hit show ?case
    using table_inv_idle [of c t j Idle "insert (s, i) (results c)"] table_invD(9) [of c]
    by (auto simp: key_of_def slow_key_def)
next
  case (query_miss c j s i t)
  have "\<not> snd (encodeChar6 s)" "index t = index (tab c)" "tlog t = tlog (tab c)"
    using Query_same [OF query_miss(2)] Query_miss [OF query_miss(2)] by simp_all
  with query_miss show ?case
    using table_inv_idle [of c t j "AtClaim s" "results c"] table_invD(9) [of c]
    by (auto simp: key_of_def slow_key_def)
next
  case (claim_leader c j s t)
  then show ?case using table_inv_leader [of c j s]
    by (auto simp: slow_claim_def split: option.splits slot.splits if_splits)
next
  case (claim_found c j s i t)
  then have "t = tab c" "names (tab c) s i"
    using table_invD(8) [of c j s]
    by (auto simp: slow_claim_def names_def slow_key_def split: option.splits slot.splits if_splits)
  with claim_found show ?case
    using table_inv_idle [of c t j Idle "insert (s, i) (results c)"] table_invD(9) [of c]
    by (auto simp: key_of_def slow_key_def)
next
  case (claim_retry c j s t)
  then have "t = tab c" by (auto simp: slow_claim_def split: option.splits slot.splits if_splits)
  with claim_retry show ?case
    using table_inv_idle [of c t j "AtClaim s" "results c"] table_invD(8) [of c j s] table_invD(9) [of c]
    by (auto simp: key_of_def slow_key_def)
next
  case (claim_panic c j s t)
  then have "t = tab c" by (auto simp: slow_claim_def split: option.splits slot.splits if_splits)
  with claim_panic show ?case
    using table_inv_idle [of c t j Stopped "results c"] table_invD(9) [of c] by (auto simp: key_of_def slow_key_def)
next
  case (append_ok c j s i t)
  show ?case
    by (rule table_inv_append [OF append_ok(3,4,1,5,2)]) auto
next
  case (append_fail c j s r t)
  show ?case
    by (rule table_inv_append [OF append_fail(4,5,1,6,2)]) (use append_fail(3) in auto)
next
  case (append_spin c j s t)
  show ?case
    by (rule table_inv_append [OF append_spin(3,4,1,5,2)]) auto
next
  case (commit c j s i n t)
  then show ?case using table_inv_commit [of c j s i] by (auto simp: slow_commit_def Let_def)
qed

lemma ireachable_inv:
  assumes "ireachable grow c" "append_grows grow"
  shows "finite (dom (index (tab c))) \<and> (card (dom (index (tab c))) < 2 ^ 32 \<longrightarrow> table_inv c)"
  using assms(1)
proof (induction rule: ireachable.induct)
  case start
  have "table_inv isys_init"
    by (rule table_invI)
       (simp_all add: isys_init_def new_table_def new_log_def appended_def log_ok_def key_of_def slow_key_def)
  then show ?case by (simp add: isys_init_def new_table_def)
next
  case (step c d)
  note D = istep_dom [OF step.hyps(2)]
  have "table_inv d" if "card (dom (index (tab d))) < 2 ^ 32"
  proof -
    have "card (dom (index (tab c))) \<le> card (dom (index (tab d)))"
      using D step.IH by (auto intro: card_mono)
    with that step assms(2) show ?thesis by (auto intro: istep_inv)
  qed
  with D step.IH show ?case by blast
qed

lemma names_Value:
  assumes "table_inv c" "names (tab c) s i"
  shows "Value (tab c) i = Some s"
proof (cases "encodeChar6 s = (i, True)")
  case True
  then have "sint i \<le> 0" using encodeChar6_decode(2,3) [of s i] by (cases "s = []") auto
  then show ?thesis using encodeChar6_decode(1) [OF True] by (simp add: Value_def word_sle_eq)
next
  case False
  with assms(2) have "index (tab c) s = Some (Counter i)" "i \<noteq> 0" by (auto simp: names_def)
  then show ?thesis using table_invD(7) [OF assms(1), of s i] by (simp add: Value_def word_sle_eq)
qed

lemma names_fun: "names t s i \<Longrightarrow> names t s i' \<Longrightarrow> i = i'"
  by (auto simp: names_def)

section \<open>Properties\<close>

text \<open>The char6 encoding round-trips: a string it accepts decodes back from its identifier,
  which is negative (so it is no index of the table) unless the string is empty.\<close>

theorem char6_roundtrip:
  assumes "encodeChar6 s = (i, True)"
  shows "decodeChar6 i = s \<and> (if s = [] then i = 0 else sint i < 0)"
  using encodeChar6_decode [OF assms] by simp

theorem char6_roundtrip_witness:
  "encodeChar6 (go_bytes ''foo'') = (4294805007, True) \<and>
   decodeChar6 4294805007 = go_bytes ''foo'' \<and>
   (if go_bytes ''foo'' = [] then (4294805007 :: ID) = 0 else sint (4294805007 :: ID) < 0)"
proof -
  have h: "encodeChar6 (go_bytes ''foo'') = (4294805007, True)" by code_simp
  show ?thesis using h char6_roundtrip [OF h] by blast
qed

text \<open>C10: under any interleaving of concurrent calls of \<open>Intern\<close>, whose steps are the query, the claim of a
  key, \<open>Log.Append\<close> as one step and the commit, two calls return the same identifier exactly when they were given
  the same string, and \<open>Value\<close> maps every returned identifier back to its string, as long as fewer than
  \<open>2 ^ 32\<close> distinct strings were claimed. Of Go's \<open>append\<close> only its contract is used, that the new array has
  room for one more element: when the \<open>int32\<close> capacity wraps, callers wait for ever but none gets a wrong
  identifier.\<close>

theorem intern_concurrent_correct:
  assumes "ireachable grow c" "append_grows grow" "card (dom (index (tab c))) < 2 ^ 32"
    and "(s, i) \<in> results c" "(s', i') \<in> results c"
  shows "Value (tab c) i = Some s \<and> (i = i' \<longleftrightarrow> s = s')"
proof -
  have inv: "table_inv c" using ireachable_inv [OF assms(1,2)] assms(3) by blast
  note n = table_invD(9) [OF inv assms(4)] table_invD(9) [OF inv assms(5)]
  have "Value (tab c) i = Some s" "Value (tab c) i' = Some s'"
    using names_Value [OF inv] n by blast+
  with n names_fun show ?thesis by fastforce
qed

text \<open>The run of one caller that interns a string too long to be encoded in line.\<close>

lemma intern_run:
  "\<exists>c i. ireachable Suc c \<and> card (dom (index (tab c))) = 1 \<and> (go_bytes ''foobar'', i) \<in> results c"
proof -
  let ?s = "go_bytes ''foobar''"
  have enc: "encodeChar6 ?s = (0, False)" by (simp add: encodeChar6_def maxInlined_def go_bytes_def)
  let ?c1 = "goto isys_init 0 (AtQuery ?s) new_table"
  let ?c2 = "goto ?c1 0 (AtClaim ?s) new_table"
  let ?t3 = "new_table\<lparr>index := [?s \<mapsto> Counter 0]\<rparr>"
  let ?c3 = "goto ?c2 0 (AtAppend ?s) ?t3"
  let ?t4 = "?t3\<lparr>tlog := \<lparr>lnext = 1, llen = 1, lcap = 1, larr = [Some ?s]\<rparr>\<rparr>"
  let ?c4 = "goto ?c3 0 (AtCommit ?s 0) ?t4"
  let ?c5 = "return_id ?c4 0 ?s 1 (?t4\<lparr>index := [?s \<mapsto> Counter 1]\<rparr>)"
  note defs = isys_init_def new_table_def new_log_def
  have "istep Suc isys_init ?c1" using istep.call [of isys_init 0 Suc ?s] by (simp add: defs)
  moreover have "istep Suc ?c1 ?c2"
    by (rule istep.query_miss [where s = ?s and i = 0])
       (simp_all add: enc Query_def slot_id_def Let_def defs)
  moreover have "istep Suc ?c2 ?c3"
    by (rule istep.claim_leader [where s = ?s]) (simp_all add: slow_claim_def defs)
  moreover have "istep Suc ?c3 ?c4"
    by (rule istep.append_ok [where s = ?s])
       (simp_all add: slow_append_def log_Append_def Let_def defs word_sless_alt)
  moreover have "istep Suc ?c4 ?c5"
    by (rule istep.commit [where s = ?s and i = 0]) (simp_all add: slow_commit_def defs)
  ultimately have "ireachable Suc ?c5" by (meson ireachable.intros)
  moreover have "card (dom (index (tab ?c5))) = 1" "(?s, 1) \<in> results ?c5" by simp_all
  ultimately show ?thesis by blast
qed

theorem intern_concurrent_correct_witness:
  "\<exists>c i. ireachable Suc c \<and> append_grows Suc \<and> card (dom (index (tab c))) < 2 ^ 32 \<and>
     (go_bytes ''foobar'', i) \<in> results c \<and> Value (tab c) i = Some (go_bytes ''foobar'')"
proof -
  obtain c i where c: "ireachable Suc c" "card (dom (index (tab c))) = 1" "(go_bytes ''foobar'', i) \<in> results c"
    using intern_run by blast
  have g: "append_grows Suc" by (simp add: append_grows_def)
  from c(2) have small: "card (dom (index (tab c))) < 2 ^ 32" by simp
  show ?thesis using c g small intern_concurrent_correct [OF c(1) g small c(3) c(3)] by blast
qed

subsection \<open>A call run alone\<close>

text \<open>A table with no call in progress, none that was refused, and no poisoned key.\<close>

definition quiet :: "table \<Rightarrow> bool" where
  "quiet t \<longleftrightarrow> table_inv \<lparr>tab = t, pcs = (\<lambda>_. Idle), results = {}\<rparr> \<and>
     lnext (tlog t) = llen (tlog t) \<and> (\<forall>s. index t s \<noteq> Some (Counter 0) \<and> index t s \<noteq> Some Poisoned)"

lemma quiet_iff:
  "quiet t \<longleftrightarrow> log_ok (tlog t) \<and> lnext (tlog t) = llen (tlog t) \<and> finite (dom (index t)) \<and>
     unat (lnext (tlog t)) = card (dom (index t)) \<and>
     (\<forall>s v. index t s = Some v \<longrightarrow> (\<exists>i. v = Counter i \<and> i \<noteq> 0 \<and> 0 < sint i \<and>
        log_Load (tlog t) (sint i - 1) = Some s))"
  unfolding quiet_def table_inv_def appended_def key_of_def slow_key_def
  by (auto; metis slot.exhaust)

lemma quiet_stats: "index t' = index t \<Longrightarrow> tlog t' = tlog t \<Longrightarrow> quiet t' = quiet t"
  by (simp add: quiet_iff)

lemma quiet_new: "quiet new_table"
  by (simp add: quiet_iff new_table_def new_log_def log_ok_def)

lemma quiet_Value: "quiet t \<Longrightarrow> names t s i \<Longrightarrow> Value t i = Some s"
  using names_Value [of "\<lparr>tab = t, pcs = (\<lambda>_. Idle), results = {}\<rparr>"] by (simp add: quiet_def)

lemma quiet_index_Value: "quiet t \<Longrightarrow> index t r = Some (Counter j) \<Longrightarrow> Value t j = Some r"
  by (fastforce simp: quiet_iff Value_def word_sle_eq)

lemma internSlow_quiet:
  assumes g: "append_grows grow" and q: "quiet t" and few: "unat (llen (tlog t)) < 2 ^ 31 - 1" and cap: "llen (tlog t) \<le>s lcap (tlog t)"
    and new: "index t s = None" and enc: "\<not> snd (encodeChar6 s)"
  obtains i t' where "internSlow grow t s = (Interned i, t')" "quiet t'"
    "index t' = (index t)(s \<mapsto> Counter i)" "names t' s i"
proof -
  note Q = q [unfolded quiet_iff]
  have room: "log_room (tlog t)" using Q few cap by (simp add: log_room_def)
  obtain l where l: "log_Append grow (tlog t) s = (LogOk (unat (llen (tlog t))), l)" "log_ok l"
      "log_contents l = log_contents (tlog t) @ [s]" "lnext l = lnext (tlog t) + 1" "llen l = llen (tlog t) + 1"
    using log_Append_accepts [OF g _ room] Q by blast
  let ?n = "unat (llen (tlog t))"
  let ?i = "word_of_nat ?n + 1 :: ID"
  note n = few
  then have u: "unat ?i = Suc ?n" by (simp add: unat_Suc32)
  then have i: "sint ?i = int ?n + 1" using n by (simp only: sint_unat32) simp
  let ?t = "t\<lparr>tlog := l, index := (index t)(s \<mapsto> Counter ?i)\<rparr>"
  have run: "internSlow grow t s = (Interned ?i, ?t)"
    using new l(1) by (simp add: internSlow_def slow_claim_def slow_append_def slow_commit_def Let_def)
  have use: "unat (lnext (tlog t)) < 2 ^ 32 - 1" using few Q by simp
  have keep: "log_Load l k = Some w" if "log_Load (tlog t) k = Some w" for k w
    using glog.load_stable [OF _ use l(1)] g Q that by blast
  have "log_Load l (int ?n) = Some s" using glog.load_new(1) [OF _ use l(1)] g Q by blast
  moreover have "?i \<noteq> 0" using u by auto
  moreover have "unat (lnext l) = card (dom ((index t)(s \<mapsto> Counter ?i)))"
  proof -
    have "unat (llen (tlog t)) = card (dom (index t))" "finite (dom (index t))" "lnext (tlog t) = llen (tlog t)"
      using Q by metis+
    then show ?thesis using l(4) new few by (simp add: unat_Suc32 domIff)
  qed
  ultimately have "quiet ?t"
    unfolding quiet_iff using l(2,4,5) Q i keep by (auto split: if_splits) blast
  moreover have "names ?t s ?i" using enc \<open>?i \<noteq> 0\<close> by (simp add: names_def)
  ultimately show ?thesis using that run by simp
qed

text \<open>C32: a call of \<open>Intern\<close> that runs alone on a table in which no call is in progress or was refused
  returns, as long as the log holds fewer than \<open>2 ^ 31 - 1\<close> strings and its \<open>int32\<close> capacity has not wrapped
  below its length; what it returns denotes its argument, every earlier identifier keeps its meaning, and again
  no call is in progress or was refused. Of Go's \<open>append\<close> only its contract is used.\<close>

theorem Intern_returns:
  assumes "append_grows grow" "quiet t" "unat (llen (tlog t)) < 2 ^ 31 - 1" "llen (tlog t) \<le>s lcap (tlog t)"
  shows "\<exists>i t'. Intern grow t s = (Interned i, t') \<and> quiet t' \<and> Value t' i = Some s \<and>
    (\<forall>r j. index t r = Some (Counter j) \<longrightarrow> index t' r = Some (Counter j) \<and> Value t' j = Some r)"
proof -
  obtain i ok t1 where q: "Query t s = ((i, ok), t1)" by (metis surj_pair)
  note same = Query_same [OF q]
  let ?f = "map_option (\<lambda>st. st\<lparr>hits := hits st + Bit ok, total := total st + 1,
      internBytes := internBytes st + (word_of_nat (length s) AND Mask ok)\<rparr>)"
  let ?t2 = "t1\<lparr>tstats := ?f (tstats t1)\<rparr>"
  have quiet2: "quiet ?t2" using assms(2) same quiet_stats [of ?t2 t] by simp
  show ?thesis
  proof (cases ok)
    case True
    then have "Intern grow t s = (Interned i, ?t2)" using q by (simp add: Intern_def)
    moreover have "Value ?t2 i = Some s"
      using Query_hit [of t s i t1] q True same quiet_Value [OF quiet2, of s i] by (simp add: names_def)
    ultimately show ?thesis using quiet2 same quiet_index_Value [OF quiet2] by auto
  next
    case False
    have "\<not> snd (encodeChar6 s)" using Query_miss [of t s i t1] q False by simp
    moreover have "index ?t2 s = None"
    proof (cases "index ?t2 s")
      case (Some v)
      then obtain k where "v = Counter k" "k \<noteq> 0" using quiet2 by (auto simp: quiet_iff)
      then show ?thesis using Some q False same \<open>\<not> snd (encodeChar6 s)\<close>
        by (cases "encodeChar6 s") (auto simp: Query_def slot_id_def Let_def)
    qed
    ultimately obtain n t3 where t3: "internSlow grow ?t2 s = (Interned n, t3)" "quiet t3"
        "index t3 = (index ?t2)(s \<mapsto> Counter n)" "names t3 s n"
      using internSlow_quiet [OF assms(1) quiet2, of s] assms(3,4) same by auto
    then have "Intern grow t s = (Interned n, t3)" using q False by (simp add: Intern_def)
    moreover have "index t3 r = Some (Counter j)" if "index t r = Some (Counter j)" for r j
      using that t3(3) same \<open>index ?t2 s = None\<close> by auto
    ultimately show ?thesis using t3 quiet_Value [of t3 s n] quiet_index_Value [of t3] by blast
  qed
qed

theorem Intern_returns_witness:
  "append_grows Suc \<and> quiet new_table \<and> unat (llen (tlog new_table)) < 2 ^ 31 - 1 \<and>
   llen (tlog new_table) \<le>s lcap (tlog new_table) \<and>
   (\<exists>i t'. Intern Suc new_table (go_bytes ''foobar'') = (Interned i, t') \<and>
      Value t' i = Some (go_bytes ''foobar''))"
proof -
  have h: "append_grows Suc" "unat (llen (tlog new_table)) < 2 ^ 31 - 1" "llen (tlog new_table) \<le>s lcap (tlog new_table)"
    by (simp_all add: append_grows_def new_table_def new_log_def)
  show ?thesis using h quiet_new Intern_returns [OF h(1) quiet_new h(2,3), of "go_bytes ''foobar''"] by blast
qed

text \<open>C37: once Go's \<open>append\<close> gives the log a capacity of \<open>2 ^ 31\<close> or more, the \<open>int32\<close> capacity
  field is negative and the next \<open>Append\<close> spins for ever instead of returning
  \<open>ErrLogExhausted\<close>.\<close>

theorem log_Append_spins_after_wrap:
  assumes "log_ok l" "lcap l = llen l" "unat (llen l) < 2 ^ 31 - 2" "lnext l = llen l"
    and "2 ^ 31 \<le> grow (unat (llen l))" "grow (unat (llen l)) < 2 ^ 32"
  shows "\<exists>l'. log_Append grow l v = (LogOk (unat (llen l)), l') \<and> fst (log_Append grow l' w) = LogSpin"
proof -
  let ?n = "unat (llen l)"
  have nx: "lnext l = llen l" by (rule assms(4))
  have n: "unat (llen l + 1) = Suc ?n" using assms(3) by (simp add: unat_Suc32)
  then have n2: "unat (llen l + 1 + 1) = Suc (Suc ?n)" using assms(3) unat_Suc32 [of "llen l + 1"] by simp
  have g: "unat (word_of_nat (grow ?n) :: go_int32) = grow ?n" using assms(6) by (simp add: unat_of_nat)
  have "\<not> llen l + 1 <s 0" "\<not> llen l + 1 + 1 <s 0" using n n2 assms(3) by (simp_all add: sless_zero32)
  moreover have "(word_of_nat (grow ?n) :: go_int32) <s 0" using g assms(5) by (simp add: sless_zero32)
  then have "(word_of_nat (grow ?n) :: go_int32) <s llen l + 1"
    using \<open>\<not> llen l + 1 <s 0\<close> by (simp add: word_sless_alt)
  moreover have "llen l + 1 + 1 - 1 = llen l + 1" by simp
  ultimately have "fst (log_Append grow l' w) = LogSpin"
    if "lnext l' = llen l + 1" "lcap l' = word_of_nat (grow ?n)" for l'
    using that unfolding log_Append_def Let_def by (simp only: if_True if_False) simp
  moreover have "\<exists>l'. log_Append grow l v = (LogOk ?n, l') \<and> lnext l' = llen l + 1 \<and>
      lcap l' = word_of_nat (grow ?n)"
    using nx assms(2) \<open>\<not> llen l + 1 <s 0\<close> by (simp add: log_Append_def Let_def word_sless_alt)
  ultimately show ?thesis by blast
qed

text \<open>The witness log: full at two elements, grown by an allocator that rounds up to \<open>2 ^ 31\<close>.\<close>

theorem log_Append_spins_after_wrap_witness:
  "\<exists>l'. log_Append (\<lambda>_. 2 ^ 31) \<lparr>lnext = 2, llen = 2, lcap = 2, larr = [Some (0::nat), Some 1]\<rparr> 0 =
     (LogOk 2, l') \<and> fst (log_Append (\<lambda>_. 2 ^ 31) l' 0) = LogSpin"
  using log_Append_spins_after_wrap
    [of "\<lparr>lnext = 2, llen = 2, lcap = 2, larr = [Some (0::nat), Some 1]\<rparr>" "\<lambda>_. 2 ^ 31" 0 0]
  by (simp add: log_ok_def less_2_cases_iff)

end
