(* ===== verification/LogConc.thy ===== *)
theory LogConc
  imports Intern
begin

text \<open>
  \<open>syncx.Log\<close> (\<open>internal/ext/syncx/log.go\<close>) with concurrent callers, at the grain of its atomic operations.
  Each caller of \<open>Append\<close> or \<open>Load\<close> has a program counter that says which access to shared memory is next and
  holds its local variables; one step is one access. The proof annotates every program counter with an assertion and
  shows that no step of another caller invalidates it.

  Arrays are kept in a list and the pointer of the log is a position in it, as a caller may hold on to an old array.
  A slot that has not been written is \<open>None\<close>.
\<close>

section \<open>The state\<close>

datatype 'v apc =
    Ready
  | AtNext 'v
  | AtCap 'v go_int32
  | AtPtr 'v go_int32 go_int32
  | AtWrite 'v go_int32 go_int32 nat
  | AtLen 'v go_int32
  | AtWait 'v go_int32
  | AtDrain 'v go_int32 go_int32
  | AtGrowPtr 'v go_int32 go_int32
  | AtGrow 'v go_int32 go_int32 nat
  | AtPublish 'v go_int32 nat nat
  | AtStoreCap 'v go_int32 nat
  | AtGrown 'v go_int32
  | AtLoadLen int bool
  | AtLoadPtr int bool go_int32
  | AtRead int bool go_int32 nat
  | Corrupted

text \<open>Auxiliary fields, which no step depends on: how often the counter was incremented, the indices that the
  length counts, whether a capacity did not fit its field, the results of all calls of \<open>Append\<close>, and those of all calls
  of \<open>Load\<close> with whether their index had been returned before the call.\<close>

record 'v clog =
  cnext :: go_int32
  clen :: go_int32
  ccap :: go_int32
  cptr :: nat
  carrs :: "'v option list list"
  cpcs :: "nat \<Rightarrow> 'v apc"
  claimed :: nat
  counted :: "nat set"
  wrapped :: bool
  returned :: "('v \<times> nat) list"
  loaded :: "(int \<times> bool \<times> 'v option) set"

definition new_clog :: "'v clog" where
  "new_clog = \<lparr>cnext = 0, clen = 0, ccap = 0, cptr = 0, carrs = [[]], cpcs = (\<lambda>_. Ready), claimed = 0, counted = {},
     wrapped = False, returned = [], loaded = {}\<rparr>"

abbreviation go :: "'v clog \<Rightarrow> nat \<Rightarrow> 'v apc \<Rightarrow> 'v clog" where
  "go c j p \<equiv> c\<lparr>cpcs := (cpcs c)(j := p)\<rparr>"

section \<open>The steps\<close>

definition claim_step :: "'v clog \<Rightarrow> nat \<Rightarrow> 'v \<Rightarrow> 'v clog" where
  "claim_step c j v =
     (let i = cnext c + 1; c = c\<lparr>cnext := i, claimed := Suc (claimed c)\<rparr>
      in if i <s 0 then go c j Ready else go c j (AtCap v (i - 1)))"

definition cap_step :: "'v clog \<Rightarrow> nat \<Rightarrow> 'v \<Rightarrow> go_int32 \<Rightarrow> 'v clog" where
  "cap_step c j v i =
     (let cap = ccap c
      in if cap <s i then c else if i <s cap then go c j (AtPtr v i cap) else go c j (AtDrain v i cap))"

text \<open>A write beyond the end of the array corrupts memory, as \<open>unsafe.Slice\<close> trusts the capacity.\<close>

definition write_step :: "'v clog \<Rightarrow> nat \<Rightarrow> 'v \<Rightarrow> go_int32 \<Rightarrow> nat \<Rightarrow> 'v clog" where
  "write_step c j v i p =
     (if unat i < length (carrs c ! p) then (go c j (AtLen v i))\<lparr>carrs := (carrs c)[p := (carrs c ! p)[unat i := Some v]]\<rparr>
      else go c j Corrupted)"

definition count_step :: "'v clog \<Rightarrow> nat \<Rightarrow> go_int32 \<Rightarrow> 'v clog" where
  "count_step c j i = c\<lparr>clen := clen c + 1, counted := insert (unat i) (counted c)\<rparr>"

definition return_step :: "'v clog \<Rightarrow> nat \<Rightarrow> 'v \<Rightarrow> go_int32 \<Rightarrow> 'v clog" where
  "return_step c j v i = (go c j Ready)\<lparr>returned := returned c @ [(v, unat i)]\<rparr>"

definition grow_step :: "(nat \<Rightarrow> nat) \<Rightarrow> 'v clog \<Rightarrow> nat \<Rightarrow> 'v \<Rightarrow> go_int32 \<Rightarrow> go_int32 \<Rightarrow> nat \<Rightarrow> 'v clog" where
  "grow_step grow c j v i cap p =
     (let n = unat cap; arr = take n (carrs c ! p) @ Some v # replicate (grow n - Suc n) None
      in (go c j (AtPublish v i (length (carrs c)) (grow n)))\<lparr>carrs := carrs c @ [arr]\<rparr>)"

definition store_cap_step :: "'v clog \<Rightarrow> nat \<Rightarrow> 'v \<Rightarrow> go_int32 \<Rightarrow> nat \<Rightarrow> 'v clog" where
  "store_cap_step c j v i cap =
     (go c j (AtGrown v i))\<lparr>ccap := word_of_nat cap, wrapped := wrapped c \<or> 2 ^ 31 \<le> cap\<rparr>"

definition read_step :: "'v clog \<Rightarrow> nat \<Rightarrow> int \<Rightarrow> bool \<Rightarrow> go_int32 \<Rightarrow> nat \<Rightarrow> 'v clog" where
  "read_step c j idx known len p =
     (go c j Ready)\<lparr>loaded := insert (idx, known,
        if 0 \<le> idx \<and> idx < sint len \<and> nat idx < length (carrs c ! p) then carrs c ! p ! nat idx else None) (loaded c)\<rparr>"

text \<open>The next step of caller \<open>j\<close>; a step that leaves the state as it is waits.\<close>

definition astep :: "(nat \<Rightarrow> nat) \<Rightarrow> nat \<Rightarrow> 'v clog \<Rightarrow> 'v clog option" where
  "astep grow j c =
     (case cpcs c j of
        Ready \<Rightarrow> None
      | Corrupted \<Rightarrow> None
      | AtNext v \<Rightarrow> Some (claim_step c j v)
      | AtCap v i \<Rightarrow> Some (cap_step c j v i)
      | AtPtr v i cap \<Rightarrow> Some (go c j (AtWrite v i cap (cptr c)))
      | AtWrite v i cap p \<Rightarrow> Some (write_step c j v i p)
      | AtLen v i \<Rightarrow> Some (go (count_step c j i) j (AtWait v i))
      | AtWait v i \<Rightarrow> Some (if clen c \<le>s i then c else return_step c j v i)
      | AtDrain v i cap \<Rightarrow> Some (if clen c \<noteq> cap then c else go c j (AtGrowPtr v i cap))
      | AtGrowPtr v i cap \<Rightarrow> Some (go c j (AtGrow v i cap (cptr c)))
      | AtGrow v i cap p \<Rightarrow> Some (grow_step grow c j v i cap p)
      | AtPublish v i p cap \<Rightarrow> Some ((go c j (AtStoreCap v i cap))\<lparr>cptr := p\<rparr>)
      | AtStoreCap v i cap \<Rightarrow> Some (store_cap_step c j v i cap)
      | AtGrown v i \<Rightarrow> Some (return_step (count_step c j i) j v i)
      | AtLoadLen idx known \<Rightarrow> Some (go c j (AtLoadPtr idx known (clen c)))
      | AtLoadPtr idx known len \<Rightarrow> Some (go c j (AtRead idx known len (cptr c)))
      | AtRead idx known len p \<Rightarrow> Some (read_step c j idx known len p))"

inductive areachable :: "(nat \<Rightarrow> nat) \<Rightarrow> 'v clog \<Rightarrow> bool" for grow where
  start: "areachable grow new_clog"
| append_call: "areachable grow c \<Longrightarrow> cpcs c j = Ready \<Longrightarrow> areachable grow (go c j (AtNext v))"
| load_call: "areachable grow c \<Longrightarrow> cpcs c j = Ready \<Longrightarrow>
    areachable grow (go c j (AtLoadLen idx (0 \<le> idx \<and> (\<exists>v. (v, nat idx) \<in> set (returned c)))))"
| work: "areachable grow c \<Longrightarrow> astep grow j c = Some d \<Longrightarrow> areachable grow d"

section \<open>The invariant\<close>

text \<open>The index that a caller has claimed and not counted yet.\<close>

fun pending :: "'v apc \<Rightarrow> nat option" where
  "pending (AtCap v i) = Some (unat i)"
| "pending (AtPtr v i cap) = Some (unat i)"
| "pending (AtWrite v i cap p) = Some (unat i)"
| "pending (AtLen v i) = Some (unat i)"
| "pending (AtDrain v i cap) = Some (unat i)"
| "pending (AtGrowPtr v i cap) = Some (unat i)"
| "pending (AtGrow v i cap p) = Some (unat i)"
| "pending (AtPublish v i p cap) = Some (unat i)"
| "pending (AtStoreCap v i cap) = Some (unat i)"
| "pending (AtGrown v i) = Some (unat i)"
| "pending _ = None"

text \<open>The index of a caller that has not returned yet.\<close>

definition claim_of :: "'v apc \<Rightarrow> nat option" where
  "claim_of p = (case p of AtWait v i \<Rightarrow> Some (unat i) | _ \<Rightarrow> pending p)"

definition slot_at :: "'v clog \<Rightarrow> nat \<Rightarrow> nat \<Rightarrow> 'v option" where
  "slot_at c p i = (if p < length (carrs c) \<and> i < length (carrs c ! p) then carrs c ! p ! i else None)"

abbreviation cur_slot :: "'v clog \<Rightarrow> nat \<Rightarrow> 'v option" where
  "cur_slot c i \<equiv> slot_at c (cptr c) i"

text \<open>The assertion at each program counter. While a caller grows the array, all indices below the capacity have been
  counted, so nobody else writes.\<close>

definition full :: "'v clog \<Rightarrow> bool" where
  "full c \<longleftrightarrow> counted c = {..<unat (ccap c)}"

fun holds :: "'v clog \<Rightarrow> 'v apc \<Rightarrow> bool" where
  "holds c (AtPtr v i cap) = (unat i < unat (ccap c))"
| "holds c (AtWrite v i cap p) = (unat i < unat (ccap c) \<and> p = cptr c)"
| "holds c (AtLen v i) = (unat i < unat (ccap c) \<and> cur_slot c (unat i) = Some v)"
| "holds c (AtWait v i) = (unat i \<in> counted c \<and> cur_slot c (unat i) = Some v)"
| "holds c (AtDrain v i cap) = (i = ccap c \<and> cap = ccap c)"
| "holds c (AtGrowPtr v i cap) = (i = ccap c \<and> cap = ccap c \<and> full c)"
| "holds c (AtGrow v i cap p) = (i = ccap c \<and> cap = ccap c \<and> full c \<and> p = cptr c)"
| "holds c (AtPublish v i p cap) = (i = ccap c \<and> full c \<and> p < length (carrs c) \<and> length (carrs c ! p) = cap \<and> unat i < cap \<and>
     slot_at c p (unat i) = Some v \<and> (\<forall>k < unat i. slot_at c p k = cur_slot c k))"
| "holds c (AtStoreCap v i cap) = (i = ccap c \<and> full c \<and> length (carrs c ! cptr c) = cap \<and> unat i < cap \<and> cur_slot c (unat i) = Some v)"
| "holds c (AtGrown v i) = (unat i < unat (ccap c) \<and> cur_slot c (unat i) = Some v \<and> {..<unat i} \<subseteq> counted c)"
| "holds c (AtLoadLen idx known) = (known \<longrightarrow> 0 \<le> idx \<and> (\<exists>v. (v, nat idx) \<in> set (returned c)))"
| "holds c (AtLoadPtr idx known len) = (known \<longrightarrow> 0 \<le> idx \<and> idx < sint len \<and> (\<exists>v. (v, nat idx) \<in> set (returned c)))"
| "holds c (AtRead idx known len p) =
     (known \<longrightarrow> 0 \<le> idx \<and> idx < sint len \<and> (\<exists>v. (v, nat idx) \<in> set (returned c) \<and> slot_at c p (nat idx) = Some v))"
| "holds c Corrupted = False"
| "holds c _ = True"

definition shared_ok :: "'v clog \<Rightarrow> bool" where
  "shared_ok c \<longleftrightarrow>
     cnext c = word_of_nat (claimed c) \<and> clen c = word_of_nat (card (counted c)) \<and>
     counted c \<subseteq> {..<claimed c} \<and> counted c \<subseteq> {..<unat (ccap c)} \<and> unat (ccap c) < 2 ^ 31 \<and>
     cptr c < length (carrs c) \<and> unat (ccap c) \<le> length (carrs c ! cptr c) \<and>
     (\<forall>v i. (v, i) \<in> set (returned c) \<longrightarrow> i \<in> counted c \<and> i < card (counted c) \<and> cur_slot c i = Some v) \<and>
     (\<forall>idx v. (idx, True, v) \<in> loaded c \<longrightarrow> 0 \<le> idx \<and> (\<exists>w. (w, nat idx) \<in> set (returned c) \<and> v = Some w))"

definition owners_ok :: "'v clog \<Rightarrow> bool" where
  "owners_ok c \<longleftrightarrow>
     (\<forall>j i. pending (cpcs c j) = Some i \<longrightarrow> i < claimed c \<and> i < 2 ^ 31 - 1 \<and> i \<notin> counted c) \<and>
     (\<forall>i < claimed c. i < 2 ^ 31 - 1 \<longrightarrow> i \<in> counted c \<or> (\<exists>j. pending (cpcs c j) = Some i))"

definition claims_ok :: "'v clog \<Rightarrow> bool" where
  "claims_ok c \<longleftrightarrow>
     (\<forall>j k i. claim_of (cpcs c j) = Some i \<longrightarrow> claim_of (cpcs c k) = Some i \<longrightarrow> j = k) \<and>
     (\<forall>j i. claim_of (cpcs c j) = Some i \<longrightarrow> i < claimed c \<and> i \<notin> snd ` set (returned c)) \<and> distinct (map snd (returned c))"

definition clog_ok :: "'v clog \<Rightarrow> bool" where
  "clog_ok c \<longleftrightarrow> shared_ok c \<and> owners_ok c \<and> claims_ok c \<and> (\<forall>j. holds c (cpcs c j))"


lemma slot_at_upd [simp]:
  "slot_at (c\<lparr>cnext := x\<rparr>) p i = slot_at c p i" "slot_at (c\<lparr>clen := x\<rparr>) p i = slot_at c p i"
  "slot_at (c\<lparr>ccap := x\<rparr>) p i = slot_at c p i" "slot_at (c\<lparr>cptr := q\<rparr>) p i = slot_at c p i"
  "slot_at (c\<lparr>cpcs := ps\<rparr>) p i = slot_at c p i" "slot_at (c\<lparr>claimed := q\<rparr>) p i = slot_at c p i"
  "slot_at (c\<lparr>counted := s\<rparr>) p i = slot_at c p i" "slot_at (c\<lparr>wrapped := w\<rparr>) p i = slot_at c p i"
  "slot_at (c\<lparr>returned := r\<rparr>) p i = slot_at c p i" "slot_at (c\<lparr>loaded := l\<rparr>) p i = slot_at c p i"
  by (simp_all add: slot_at_def)

lemma holds_cong:
  assumes "carrs d = carrs c" "cptr d = cptr c" "ccap d = ccap c" "counted d = counted c" "returned d = returned c"
  shows "holds d p = holds c p"
  using assms by (cases p) (simp_all add: slot_at_def full_def)

lemma holds_go [simp]: "holds (go c j p) q = holds c q"
  by (rule holds_cong) simp_all

lemma shared_go [simp]: "shared_ok (go c j p) = shared_ok c"
  by (simp add: shared_ok_def)

lemma claim_of_pending: "pending p = Some i \<Longrightarrow> claim_of p = Some i"
  by (cases p) (simp_all add: claim_of_def)

lemma claim_of_simps [simp]:
  "claim_of (AtWait v i) = Some (unat i)" "pending p \<noteq> None \<Longrightarrow> claim_of p = pending p" "claim_of Ready = None"
  "claim_of (AtNext v) = None" "claim_of (AtLoadLen idx known) = None" "claim_of (AtLoadPtr idx known len) = None"
  "claim_of (AtRead idx known len q) = None"
  using claim_of_pending [of p] by (auto simp: claim_of_def)

lemma claims_okD:
  assumes "claims_ok c"
  shows "claim_of (cpcs c j) = Some i \<Longrightarrow> claim_of (cpcs c k) = Some i \<Longrightarrow> j = k"
    "claim_of (cpcs c j) = Some i \<Longrightarrow> i < claimed c \<and> i \<notin> snd ` set (returned c)" "distinct (map snd (returned c))"
  using assms unfolding claims_ok_def by blast+

lemma clog_okD:
  assumes "clog_ok c"
  shows "cnext c = word_of_nat (claimed c)" "clen c = word_of_nat (card (counted c))"
    "counted c \<subseteq> {..<claimed c}" "counted c \<subseteq> {..<unat (ccap c)}" "unat (ccap c) < 2 ^ 31"
    "cptr c < length (carrs c)" "unat (ccap c) \<le> length (carrs c ! cptr c)"
    "(v, i) \<in> set (returned c) \<Longrightarrow> i \<in> counted c \<and> i < card (counted c) \<and> cur_slot c i = Some v"
    "(idx, True, x) \<in> loaded c \<Longrightarrow> 0 \<le> idx \<and> (\<exists>w. (w, nat idx) \<in> set (returned c) \<and> x = Some w)"
    "pending (cpcs c j) = Some i \<Longrightarrow> i < claimed c \<and> i < 2 ^ 31 - 1 \<and> i \<notin> counted c"
    "pending (cpcs c j) = Some i \<Longrightarrow> pending (cpcs c k) = Some i \<Longrightarrow> j = k"
    "i < claimed c \<Longrightarrow> i < 2 ^ 31 - 1 \<Longrightarrow> i \<in> counted c \<or> (\<exists>j. pending (cpcs c j) = Some i)"
    "holds c (cpcs c j)" "claims_ok c"
proof -
  have s: "shared_ok c" "owners_ok c" and claims: "claims_ok c" and "\<forall>j. holds c (cpcs c j)" using assms by (simp_all add: clog_ok_def)
  from this(4) show "holds c (cpcs c j)" by blast
  show "claims_ok c" by (rule claims)
  show "pending (cpcs c j) = Some i \<Longrightarrow> pending (cpcs c k) = Some i \<Longrightarrow> j = k"
    using claims_okD(1) [OF claims] claim_of_pending by blast
  show "pending (cpcs c j) = Some i \<Longrightarrow> i < claimed c \<and> i < 2 ^ 31 - 1 \<and> i \<notin> counted c"
    "i < claimed c \<Longrightarrow> i < 2 ^ 31 - 1 \<Longrightarrow> i \<in> counted c \<or> (\<exists>j. pending (cpcs c j) = Some i)"
    using s(2) unfolding owners_ok_def by blast+
qed (use assms in \<open>unfold clog_ok_def shared_ok_def, blast+\<close>)

lemma owners_okI:
  assumes "\<And>j i. pending (cpcs c j) = Some i \<Longrightarrow> i < claimed c \<and> i < 2 ^ 31 - 1 \<and> i \<notin> counted c"
    "\<And>i. i < claimed c \<Longrightarrow> i < 2 ^ 31 - 1 \<Longrightarrow> i \<in> counted c \<or> (\<exists>j. pending (cpcs c j) = Some i)"
  shows "owners_ok c"
  using assms unfolding owners_ok_def by blast

lemma shared_okI:
  assumes "cnext c = word_of_nat (claimed c)" "clen c = word_of_nat (card (counted c))"
    "counted c \<subseteq> {..<claimed c}" "counted c \<subseteq> {..<unat (ccap c)}" "unat (ccap c) < 2 ^ 31"
    "cptr c < length (carrs c)" "unat (ccap c) \<le> length (carrs c ! cptr c)"
    "\<And>v i. (v, i) \<in> set (returned c) \<Longrightarrow> i \<in> counted c \<and> i < card (counted c) \<and> cur_slot c i = Some v"
    "\<And>idx x. (idx, True, x) \<in> loaded c \<Longrightarrow> 0 \<le> idx \<and> (\<exists>w. (w, nat idx) \<in> set (returned c) \<and> x = Some w)"
  shows "shared_ok c"
  using assms unfolding shared_ok_def by blast

lemma not_full: "i \<notin> counted c \<Longrightarrow> i < unat (ccap c) \<Longrightarrow> \<not> full c"
  by (auto simp: full_def)

text \<open>A step that moves a caller on and leaves its claim and the shared fields alone.\<close>

lemma owners_moved:
  assumes "clog_ok c" "cpcs d = (cpcs c)(j := p)" "pending p = pending (cpcs c j)" "claimed d = claimed c" "counted d = counted c"
  shows "owners_ok d"
proof -
  have "pending (cpcs d k) = pending (cpcs c k)" for k using assms(2,3) by simp
  with assms(1,4,5) show ?thesis by (simp add: clog_ok_def owners_ok_def)
qed

lemma claims_moved:
  assumes "clog_ok c" "cpcs d = (cpcs c)(j := p)" "claim_of p = claim_of (cpcs c j)" "claimed d = claimed c" "returned d = returned c"
  shows "claims_ok d"
proof -
  have "claim_of (cpcs d k) = claim_of (cpcs c k)" for k using assms(2,3) by simp
  with assms(1,4,5) show ?thesis by (simp add: clog_ok_def claims_ok_def)
qed

lemma ok_go:
  assumes "clog_ok c" "pending p = pending (cpcs c j)" "claim_of p = claim_of (cpcs c j)" "holds c p"
  shows "clog_ok (go c j p)"
  using assms owners_moved [of c "go c j p"] claims_moved [of c "go c j p"] by (simp add: clog_ok_def)

text \<open>A step that changes shared fields: the caller's own assertion is new, those of the others have to survive.\<close>

lemma ok_step:
  assumes "shared_ok d" "owners_ok d" "claims_ok d" "holds d (cpcs d j)" "\<And>k. k \<noteq> j \<Longrightarrow> holds c (cpcs c k) \<Longrightarrow> holds d (cpcs c k)"
    "\<And>k. k \<noteq> j \<Longrightarrow> cpcs d k = cpcs c k" "clog_ok c"
  shows "clog_ok d"
  unfolding clog_ok_def
proof (intro conjI allI assms(1-3))
  show "holds d (cpcs d k)" for k using assms(4-6) clog_okD(13) [OF assms(7)] by (cases "k = j") simp_all
qed

subsection \<open>Claiming an index\<close>

lemma ok_claim:
  assumes "clog_ok c" "cpcs c j = AtNext v" "claimed c < 2 ^ 32 - 1"
  shows "clog_ok (claim_step c j v)"
proof -
  let ?i = "cnext c + 1"
  note I = clog_okD [OF assms(1)]
  have n: "unat (cnext c) = claimed c" using I(1) assms(3) by (simp add: unat_of_nat)
  then have i: "unat ?i = Suc (claimed c)" using assms(3) by (simp add: unat_Suc32)
  let ?p = "if ?i <s 0 then Ready else AtCap v (?i - 1)"
  let ?d = "(go c j ?p)\<lparr>cnext := ?i, claimed := Suc (claimed c)\<rparr>"
  have step: "claim_step c j v = ?d" by (simp add: claim_step_def Let_def)
  have pend: "pending (cpcs ?d k) = (if k = j then if claimed c < 2 ^ 31 - 1 then Some (claimed c) else None else pending (cpcs c k))" for k
    using i n by (auto simp: sless_zero32)
  have old: "pending (cpcs c j) = None" using assms(2) by simp
  show ?thesis unfolding step
  proof (rule ok_step [OF _ _ _ _ _ _ assms(1)])
    show "shared_ok ?d" using I(1-9) by (auto simp: shared_ok_def)
    show "owners_ok ?d"
    proof (rule owners_okI)
      show "i < claimed ?d \<and> i < 2 ^ 31 - 1 \<and> i \<notin> counted ?d" if "pending (cpcs ?d k) = Some i" for k i
        using that I(3) I(10) [of k i] unfolding pend by (auto split: if_splits)
      show "i \<in> counted ?d \<or> (\<exists>k. pending (cpcs ?d k) = Some i)" if i: "i < claimed ?d" "i < 2 ^ 31 - 1" for i
      proof (cases "i = claimed c")
        case True
        with i(2) show ?thesis unfolding pend by (intro disjI2 exI [of _ j]) simp
      next
        case False
        with i consider "i \<in> counted c" | k where "pending (cpcs c k) = Some i" "k \<noteq> j" using I(12) [of i] old by fastforce
        then show ?thesis
        proof cases
          case 2
          then show ?thesis unfolding pend by (intro disjI2 exI [of _ k]) simp
        qed simp
      qed
    qed
    have ret: "claimed c \<notin> snd ` set (returned c)" using I(3,8) by fastforce
    have claims: "claim_of (cpcs ?d k) = (if k = j then if claimed c < 2 ^ 31 - 1 then Some (claimed c) else None else claim_of (cpcs c k))" for k
      using i n by (auto simp: sless_zero32)
    show "claims_ok ?d" unfolding claims_ok_def claims
    proof (intro conjI allI impI)
      note C = claims_okD [OF I(14)]
      show "k = m" if "(if k = j then if claimed c < 2 ^ 31 - 1 then Some (claimed c) else None else claim_of (cpcs c k)) = Some i"
        "(if m = j then if claimed c < 2 ^ 31 - 1 then Some (claimed c) else None else claim_of (cpcs c m)) = Some i" for k m i
        using that C(1) [of k i m] C(2) [of k i] C(2) [of m i] by (auto split: if_splits)
      show "i < claimed ?d" "i \<notin> snd ` set (returned ?d)"
        if "(if k = j then if claimed c < 2 ^ 31 - 1 then Some (claimed c) else None else claim_of (cpcs c k)) = Some i" for k i
        using that C(2) [of k i] ret by (auto split: if_splits)
      show "distinct (map snd (returned ?d))" using C(3) by simp
    qed
    show "holds ?d (cpcs ?d j)" by simp
    show "holds c (cpcs c k) \<Longrightarrow> holds ?d (cpcs c k)" for k using holds_cong [of ?d c "cpcs c k"] by simp
  qed simp
qed


subsection \<open>Writing a slot\<close>

lemma ok_write:
  assumes "clog_ok c" "cpcs c j = AtWrite v i cap p"
  shows "clog_ok (write_step c j v i p)"
proof -
  note I = clog_okD [OF assms(1)]
  have at: "unat i < unat (ccap c)" "p = cptr c" using I(13) [of j] unfolding assms(2) by simp_all
  have mine: "unat i \<notin> counted c" using I(10) [of j] assms(2) by simp
  have len: "unat i < length (carrs c ! p)" using at I(7) by simp
  let ?d = "(go c j (AtLen v i))\<lparr>carrs := (carrs c)[p := (carrs c ! p)[unat i := Some v]]\<rparr>"
  have step: "write_step c j v i p = ?d" using len by (simp add: write_step_def)
  have slots: "slot_at ?d q k = (if q = p \<and> k = unat i then Some v else slot_at c q k)" for q k
    using len at(2) I(6) by (auto simp: slot_at_def nth_list_update)
  have lens: "length (carrs ?d ! q) = length (carrs c ! q)" for q
    using at(2) I(6) by (cases "q = p") simp_all
  have "\<not> full c" by (rule not_full [OF mine at(1)])
  show ?thesis unfolding step
  proof (rule ok_step [OF _ _ _ _ _ _ assms(1)])
    show "shared_ok ?d"
    proof (rule shared_okI)
      show "k \<in> counted ?d \<and> k < card (counted ?d) \<and> cur_slot ?d k = Some w" if "(w, k) \<in> set (returned ?d)" for w k
        using that I(8) [of w k] mine by (auto simp: slots)
      show "unat (ccap ?d) \<le> length (carrs ?d ! cptr ?d)" unfolding lens using I(7) by simp
    qed (use I(1-6,9) in simp_all)
    show "owners_ok ?d" by (rule owners_moved [OF assms(1), where j = j and p = "AtLen v i"]) (simp_all add: assms(2))
    show "claims_ok ?d" by (rule claims_moved [OF assms(1), where j = j and p = "AtLen v i"]) (simp_all add: assms(2))
    show "holds ?d (cpcs ?d j)" using at(1) slots [of p "unat i"] unfolding at(2) by simp
    show "holds ?d (cpcs c k)" if k: "k \<noteq> j" "holds c (cpcs c k)" for k
    proof -
      have "pending (cpcs c k) \<noteq> Some (unat i)" using I(11) [of k "unat i" j] k(1) assms(2) by auto
      with k(2) \<open>\<not> full c\<close> mine I(8) show ?thesis
        by (cases "cpcs c k") (auto simp: slots full_def)
    qed
  qed simp
qed


subsection \<open>Counting an index\<close>

text \<open>\<open>AtLen\<close> and \<open>AtGrown\<close> count the caller's index; the first then waits, the second could return at once.\<close>

lemma ok_count:
  assumes "clog_ok c" "pending (cpcs c j) = Some (unat i)" "unat i < unat (ccap c)" "cur_slot c (unat i) = Some v"
  shows "clog_ok (go (count_step c j i) j (AtWait v i))"
proof -
  note I = clog_okD [OF assms(1)]
  let ?d = "go (count_step c j i) j (AtWait v i)"
  have mine: "unat i \<notin> counted c" "unat i < claimed c" using I(10) [OF assms(2)] by simp_all
  have fin: "finite (counted c)" using I(4) finite_subset by blast
  then have card: "card (insert (unat i) (counted c)) = Suc (card (counted c))" using mine by simp
  have "\<not> full c" by (rule not_full [OF mine(1) assms(3)])
  show ?thesis
  proof (rule ok_step [OF _ _ _ _ _ _ assms(1)])
    show "shared_ok ?d"
    proof (rule shared_okI)
      show "k \<in> counted ?d \<and> k < card (counted ?d) \<and> cur_slot ?d k = Some w" if "(w, k) \<in> set (returned ?d)" for w k
        using that I(8) [of w k] card by (auto simp: count_step_def)
    qed (use I(1-7,9) assms(3) mine card in \<open>simp_all add: count_step_def\<close>)
    show "owners_ok ?d"
    proof (rule owners_okI)
      have other: "pending (cpcs ?d k) = Some m \<longleftrightarrow> k \<noteq> j \<and> pending (cpcs c k) = Some m" for k m
        by (auto simp: count_step_def)
      show "m < claimed ?d \<and> m < 2 ^ 31 - 1 \<and> m \<notin> counted ?d" if "pending (cpcs ?d k) = Some m" for k m
        using that I(10) [of k m] I(11) [of k m j] assms(2) unfolding other by (auto simp: count_step_def)
      show "m \<in> counted ?d \<or> (\<exists>k. pending (cpcs ?d k) = Some m)" if "m < claimed ?d" "m < 2 ^ 31 - 1" for m
      proof (cases "m = unat i")
        case False
        have "m \<in> counted c \<or> (\<exists>k. pending (cpcs c k) = Some m)" using that I(12) [of m] by (simp add: count_step_def)
        then show ?thesis unfolding other using False assms(2) by (auto simp: count_step_def) (metis option.inject)
      qed (simp add: count_step_def)
    qed
    show "claims_ok ?d"
      by (rule claims_moved [OF assms(1), where j = j and p = "AtWait v i"]) (simp_all add: assms(2) count_step_def)
    show "holds ?d (cpcs ?d j)" using assms(4) by (simp add: count_step_def)
    show "holds ?d (cpcs c k)" if "k \<noteq> j" "holds c (cpcs c k)" for k
      using that(2) \<open>\<not> full c\<close> by (cases "cpcs c k") (auto simp: count_step_def full_def)
  qed (simp add: count_step_def)
qed

lemma ok_return:
  assumes "clog_ok c" "cpcs c j = AtWait v i" "unat i < card (counted c)"
  shows "clog_ok (return_step c j v i)"
proof -
  note I = clog_okD [OF assms(1)]
  let ?d = "return_step c j v i"
  have at: "unat i \<in> counted c" "cur_slot c (unat i) = Some v" using I(13) [of j] unfolding assms(2) by simp_all
  note C = claims_okD [OF I(14)]
  have mine: "unat i < claimed c" "unat i \<notin> snd ` set (returned c)" using C(2) [of j "unat i"] assms(2) by simp_all
  show ?thesis
  proof (rule ok_step [OF _ _ _ _ _ _ assms(1)])
    show "shared_ok ?d"
    proof (rule shared_okI)
      show "k \<in> counted ?d \<and> k < card (counted ?d) \<and> cur_slot ?d k = Some w" if "(w, k) \<in> set (returned ?d)" for w k
        using that I(8) [of w k] assms(3) at by (auto simp: return_step_def)
      show "0 \<le> idx \<and> (\<exists>w. (w, nat idx) \<in> set (returned ?d) \<and> x = Some w)" if "(idx, True, x) \<in> loaded ?d" for idx x
        using that I(9) [of idx x] by (auto simp: return_step_def)
    qed (use I(1-7) in \<open>simp_all add: return_step_def\<close>)
    show "owners_ok ?d" by (rule owners_moved [OF assms(1), where j = j and p = Ready]) (simp_all add: assms(2) return_step_def)
    have other: "claim_of (cpcs ?d k) = Some m \<longleftrightarrow> k \<noteq> j \<and> claim_of (cpcs c k) = Some m" for k m
      by (simp add: return_step_def)
    have apart: "m \<noteq> unat i" if "k \<noteq> j" "claim_of (cpcs c k) = Some m" for k m
      using C(1) [of j "unat i" k] that assms(2) by auto
    show "claims_ok ?d" unfolding claims_ok_def other
    proof (intro conjI allI impI)
      show "k = l" if "k \<noteq> j \<and> claim_of (cpcs c k) = Some m" "l \<noteq> j \<and> claim_of (cpcs c l) = Some m" for k l m
        using that C(1) by blast
      show "m < claimed ?d" "m \<notin> snd ` set (returned ?d)" if "k \<noteq> j \<and> claim_of (cpcs c k) = Some m" for k m
        using that C(2) [of k m] apart [of k m] by (auto simp: return_step_def)
      show "distinct (map snd (returned ?d))" using C(3) mine(2) by (simp add: return_step_def)
    qed
    show "holds ?d (cpcs ?d j)" by (simp add: return_step_def)
    show "holds ?d (cpcs c k)" if "k \<noteq> j" "holds c (cpcs c k)" for k
      using that(2) by (cases "cpcs c k") (auto simp: return_step_def full_def)
  qed (simp add: return_step_def)
qed

subsection \<open>Growing the array\<close>

lemma ok_grow:
  assumes "clog_ok c" "cpcs c j = AtGrow v i cap p" "append_grows grow"
  shows "clog_ok (grow_step grow c j v i cap p)"
proof -
  note I = clog_okD [OF assms(1)]
  have at: "i = ccap c" "cap = ccap c" "full c" "p = cptr c" using I(13) [of j] unfolding assms(2) by simp_all
  let ?n = "unat (ccap c)"
  let ?arr = "take ?n (carrs c ! cptr c) @ Some v # replicate (grow ?n - Suc ?n) None"
  let ?d = "(go c j (AtPublish v i (length (carrs c)) (grow ?n)))\<lparr>carrs := carrs c @ [?arr]\<rparr>"
  have step: "grow_step grow c j v i cap p = ?d" by (simp add: grow_step_def Let_def at)
  have g: "?n < grow ?n" using assms(3) by (simp add: append_grows_def)
  have len: "length ?arr = grow ?n" using g I(7) by simp
  have slots: "slot_at ?d q k = slot_at c q k" if "q < length (carrs c)" for q k using that by (simp add: slot_at_def nth_append)
  have keep: "slot_at ?d q k = Some w" if "slot_at c q k = Some w" for q k w
  proof -
    have "q < length (carrs c)" using that by (simp add: slot_at_def split: if_splits)
    with that show ?thesis by (simp only: slots)
  qed
  have new: "slot_at ?d (length (carrs c)) k = (if k < grow ?n then ?arr ! k else None)" for k
    unfolding slot_at_def using len by simp
  show ?thesis unfolding step
  proof (rule ok_step [OF _ _ _ _ _ _ assms(1)])
    show "shared_ok ?d"
    proof (rule shared_okI)
      show "k \<in> counted ?d \<and> k < card (counted ?d) \<and> cur_slot ?d k = Some w" if "(w, k) \<in> set (returned ?d)" for w k
        using that I(8) [of w k] keep [of "cptr c" k w] by simp
    qed (use I(1-7,9) in \<open>simp_all add: nth_append\<close>)
    show "owners_ok ?d"
      by (rule owners_moved [OF assms(1), where j = j and p = "AtPublish v i (length (carrs c)) (grow ?n)"]) (simp_all add: assms(2))
    show "claims_ok ?d"
      by (rule claims_moved [OF assms(1), where j = j and p = "AtPublish v i (length (carrs c)) (grow ?n)"]) (simp_all add: assms(2))
    have "slot_at ?d (length (carrs c)) ?n = Some v" using g I(7) by (simp add: new nth_append)
    moreover have "slot_at ?d (length (carrs c)) k = slot_at ?d (cptr c) k" if "k < ?n" for k
      using that g I(6,7) by (simp add: new slots nth_append) (simp add: slot_at_def)
    ultimately show "holds ?d (cpcs ?d j)" using at g len by (simp add: full_def)
    show "holds ?d (cpcs c k)" if "k \<noteq> j" "holds c (cpcs c k)" for k
      using that(2) keep I(6) by (cases "cpcs c k") (auto simp: full_def slots nth_append)
  qed simp
qed

text \<open>While a caller has a grown array at hand, no other has a claim below the capacity or on it.\<close>

lemma grower_alone:
  assumes "clog_ok c" "full c" "pending (cpcs c j) = Some (unat (ccap c))" "k \<noteq> j" "pending (cpcs c k) = Some m"
  shows "unat (ccap c) < m"
  using clog_okD(10) [OF assms(1,5)] clog_okD(11) [OF assms(1,3), of k] assms(2,4,5)
  by (metis full_def lessThan_iff linorder_neqE_nat)

lemma ok_publish:
  assumes "clog_ok c" "cpcs c j = AtPublish v i p cap"
  shows "clog_ok ((go c j (AtStoreCap v i cap))\<lparr>cptr := p\<rparr>)" (is "clog_ok ?d")
proof -
  note I = clog_okD [OF assms(1)]
  have at: "i = ccap c" "full c" "p < length (carrs c)" "length (carrs c ! p) = cap" "unat i < cap" "slot_at c p (unat i) = Some v"
    "\<And>k. k < unat i \<Longrightarrow> slot_at c p k = cur_slot c k" using I(13) [of j] unfolding assms(2) holds.simps by blast+
  have same: "slot_at c p k = cur_slot c k" if "k \<in> counted c" for k using that at(1,2,7) by (simp add: full_def)
  have alone: "unat (ccap c) < m" if "k \<noteq> j" "pending (cpcs c k) = Some m" for k m
    using grower_alone [OF assms(1) at(2) _ that(1)] assms(2) at(1) that by simp
  show ?thesis
  proof (rule ok_step [OF _ _ _ _ _ _ assms(1)])
    show "shared_ok ?d"
    proof (rule shared_okI)
      show "k \<in> counted ?d \<and> k < card (counted ?d) \<and> cur_slot ?d k = Some w" if "(w, k) \<in> set (returned ?d)" for w k
        using that I(8) [of w k] same [of k] by simp
    qed (use I(1-5,9) at in simp_all)
    show "owners_ok ?d" by (rule owners_moved [OF assms(1), where j = j and p = "AtStoreCap v i cap"]) (simp_all add: assms(2))
    show "claims_ok ?d" by (rule claims_moved [OF assms(1), where j = j and p = "AtStoreCap v i cap"]) (simp_all add: assms(2))
    show "holds ?d (cpcs ?d j)" using at by (simp add: full_def)
    show "holds ?d (cpcs c k)" if k: "k \<noteq> j" "holds c (cpcs c k)" for k
      using k(2) alone [OF k(1)] same by (cases "cpcs c k") (auto simp: full_def)
  qed simp
qed

lemma ok_store_cap:
  assumes "clog_ok c" "cpcs c j = AtStoreCap v i cap" "\<not> wrapped (store_cap_step c j v i cap)"
  shows "clog_ok (store_cap_step c j v i cap)"
proof -
  note I = clog_okD [OF assms(1)]
  let ?d = "store_cap_step c j v i cap"
  have at: "i = ccap c" "full c" "length (carrs c ! cptr c) = cap" "unat i < cap" "cur_slot c (unat i) = Some v"
    using I(13) [of j] unfolding assms(2) holds.simps by blast+
  have "cap < 2 ^ 31" using assms(3) by (simp add: store_cap_step_def)
  then have w: "unat (word_of_nat cap :: go_int32) = cap" by (simp add: unat_of_nat)
  then have cap: "unat (ccap ?d) = cap" by (simp add: store_cap_step_def)
  have alone: "unat (ccap c) < m" if "k \<noteq> j" "pending (cpcs c k) = Some m" for k m
    using grower_alone [OF assms(1) at(2) _ that(1)] assms(2) at(1) that by simp
  show ?thesis
  proof (rule ok_step [OF _ _ _ _ _ _ assms(1)])
    show "shared_ok ?d"
    proof (rule shared_okI, unfold cap)
      show "k \<in> counted ?d \<and> k < card (counted ?d) \<and> cur_slot ?d k = Some w" if "(w, k) \<in> set (returned ?d)" for w k
        using that I(8) [of w k] by (simp add: store_cap_step_def)
      show "counted ?d \<subseteq> {..<cap}" using at by (auto simp: full_def store_cap_step_def)
    qed (use I(1-3,6,9) at \<open>cap < 2 ^ 31\<close> in \<open>simp_all add: store_cap_step_def\<close>)
    show "owners_ok ?d" by (rule owners_moved [OF assms(1), where j = j and p = "AtGrown v i"]) (simp_all add: assms(2) store_cap_step_def)
    show "claims_ok ?d" by (rule claims_moved [OF assms(1), where j = j and p = "AtGrown v i"]) (simp_all add: assms(2) store_cap_step_def)
    have "cpcs ?d j = AtGrown v i" by (simp add: store_cap_step_def)
    then show "holds ?d (cpcs ?d j)" using at w by (simp add: store_cap_step_def full_def)
    show "holds ?d (cpcs c k)" if k: "k \<noteq> j" "holds c (cpcs c k)" for k
      using k(2) alone [OF k(1)] by (cases "cpcs c k") (auto simp: store_cap_step_def full_def)
  qed (simp add: store_cap_step_def)
qed


subsection \<open>Reachable states\<close>

lemma ok_read:
  assumes "clog_ok c" "cpcs c j = AtRead idx known len p"
  shows "clog_ok (read_step c j idx known len p)"
proof -
  note I = clog_okD [OF assms(1)]
  let ?d = "read_step c j idx known len p"
  have at: "known \<longrightarrow> 0 \<le> idx \<and> idx < sint len \<and> (\<exists>v. (v, nat idx) \<in> set (returned c) \<and> slot_at c p (nat idx) = Some v)"
    using I(13) [of j] unfolding assms(2) holds.simps .
  show ?thesis
  proof (rule ok_step [OF _ _ _ _ _ _ assms(1)])
    show "shared_ok ?d"
    proof (rule shared_okI)
      show "0 \<le> i \<and> (\<exists>w. (w, nat i) \<in> set (returned ?d) \<and> x = Some w)" if "(i, True, x) \<in> loaded ?d" for i x
        using that I(9) [of i x] at by (auto simp: read_step_def slot_at_def split: if_splits)
    qed (use I(1-8) in \<open>simp_all add: read_step_def\<close>)
    show "owners_ok ?d" by (rule owners_moved [OF assms(1), where j = j and p = Ready]) (simp_all add: assms(2) read_step_def)
    show "claims_ok ?d" by (rule claims_moved [OF assms(1), where j = j and p = Ready]) (simp_all add: assms(2) read_step_def)
    show "holds ?d (cpcs ?d j)" by (simp add: read_step_def)
    show "holds ?d (cpcs c k)" if "k \<noteq> j" "holds c (cpcs c k)" for k
      using that(2) holds_cong [of ?d c "cpcs c k"] by (simp add: read_step_def)
  qed (simp add: read_step_def)
qed

lemma card_counted:
  assumes "clog_ok c"
  shows "finite (counted c)" "unat (clen c) = card (counted c)" "sint (clen c) = int (card (counted c))"
proof -
  note I = clog_okD [OF assms]
  show fin: "finite (counted c)" using I(4) finite_subset by blast
  have "card (counted c) \<le> unat (ccap c)" using card_mono [OF _ I(4)] by simp
  then have "card (counted c) < 2 ^ 31" using I(5) by simp
  then show "unat (clen c) = card (counted c)" using I(2) by (simp add: unat_of_nat)
  with \<open>card (counted c) < 2 ^ 31\<close> show "sint (clen c) = int (card (counted c))" by (simp add: sint_unat32)
qed

lemma sle_counted:
  assumes "clog_ok c" "unat i < 2 ^ 31"
  shows "clen c \<le>s i \<longleftrightarrow> card (counted c) \<le> unat i"
proof -
  have "sint i = int (unat i)" using assms(2) by (simp only: sint_unat32 if_True)
  then show ?thesis by (simp only: word_sle_eq card_counted(3) [OF assms(1)] of_nat_le_iff)
qed

lemma small_index: "clog_ok c \<Longrightarrow> pending (cpcs c j) = Some (unat i) \<Longrightarrow> unat i < 2 ^ 31"
  using clog_okD(10) [of c j "unat i"] by simp

lemma ok_astep:
  assumes "clog_ok c" "astep grow j c = Some d" "append_grows grow" "\<not> wrapped d" "claimed d < 2 ^ 32"
  shows "clog_ok d"
proof (cases "cpcs c j")
  case (AtNext v)
  then have d: "d = claim_step c j v" using assms(2) by (simp add: astep_def)
  have "claimed d = Suc (claimed c)" unfolding d by (simp add: claim_step_def Let_def)
  with assms(5) show ?thesis unfolding d by (intro ok_claim [OF assms(1) AtNext]) simp
next
  case (AtCap v i)
  then have d: "d = cap_step c j v i" using assms(2) by (simp add: astep_def)
  have i: "unat i < 2 ^ 31" using small_index [OF assms(1), of j i] AtCap by simp
  note cap = clog_okD(5) [OF assms(1)]
  consider "ccap c <s i" | "\<not> ccap c <s i" "i <s ccap c" | "\<not> ccap c <s i" "\<not> i <s ccap c" by blast
  then show ?thesis
  proof cases
    case 2
    then have "unat i < unat (ccap c)" using i cap by (simp add: sless_unat32)
    then show ?thesis unfolding d using 2 AtCap by (simp add: cap_step_def ok_go [OF assms(1)])
  next
    case 3
    then have "unat i = unat (ccap c)" using i cap by (simp add: sless_unat32)
    then have "i = ccap c" by (simp add: word_unat_eq_iff)
    then show ?thesis unfolding d using 3 AtCap by (simp add: cap_step_def Let_def ok_go [OF assms(1)])
  qed (simp add: d cap_step_def assms(1))
next
  case (AtPtr v i cap)
  then show ?thesis using assms(1,2) clog_okD(13) [OF assms(1), of j] ok_go [OF assms(1), of "AtWrite v i cap (cptr c)" j]
    by (simp add: astep_def)
next
  case (AtWrite v i cap p)
  then show ?thesis using assms(2) ok_write [OF assms(1) AtWrite] by (simp add: astep_def)
next
  case (AtLen v i)
  have at: "unat i < unat (ccap c)" "cur_slot c (unat i) = Some v" using clog_okD(13) [OF assms(1), of j] unfolding AtLen by simp_all
  have "clog_ok (go (count_step c j i) j (AtWait v i))"
    by (rule ok_count [OF assms(1) _ at]) (simp add: AtLen)
  then show ?thesis using assms(2) AtLen by (simp add: astep_def)
next
  case (AtWait v i)
  have at: "unat i \<in> counted c" "cur_slot c (unat i) = Some v" using clog_okD(13) [OF assms(1), of j] unfolding AtWait by simp_all
  have "unat i < 2 ^ 31" using at(1) clog_okD(4,5) [OF assms(1)] by auto
  then have "\<not> clen c \<le>s i \<Longrightarrow> unat i < card (counted c)" by (simp only: sle_counted [OF assms(1)] not_le)
  then show ?thesis using assms(1,2) AtWait ok_return [OF assms(1) AtWait] by (auto simp: astep_def split: if_splits)
next
  case (AtDrain v i cap)
  have at: "i = ccap c" "cap = ccap c" using clog_okD(13) [OF assms(1), of j] unfolding AtDrain by simp_all
  have "full c" if "clen c = cap"
  proof -
    have "card (counted c) = card {..<unat (ccap c)}" using card_counted(2) [OF assms(1)] that at by simp
    then show ?thesis unfolding full_def using clog_okD(4) [OF assms(1)] card_subset_eq [of "{..<unat (ccap c)}"] by blast
  qed
  then show ?thesis using assms(1,2) AtDrain at ok_go [OF assms(1), of "AtGrowPtr v i cap" j] by (auto simp: astep_def split: if_splits)
next
  case (AtGrowPtr v i cap)
  have at: "i = ccap c" "cap = ccap c" "full c" using clog_okD(13) [OF assms(1), of j] unfolding AtGrowPtr by simp_all
  then show ?thesis using assms(1,2) AtGrowPtr ok_go [OF assms(1), of "AtGrow v i cap (cptr c)" j] by (simp add: astep_def)
next
  case (AtGrow v i cap p)
  then show ?thesis using assms(2) ok_grow [OF assms(1) AtGrow assms(3)] by (simp add: astep_def)
next
  case (AtPublish v i p cap)
  then show ?thesis using assms(2) ok_publish [OF assms(1) AtPublish] by (simp add: astep_def)
next
  case (AtStoreCap v i cap)
  then show ?thesis using assms(2,4) ok_store_cap [OF assms(1) AtStoreCap] by (simp add: astep_def)
next
  case (AtGrown v i)
  let ?c = "go (count_step c j i) j (AtWait v i)"
  have at: "unat i < unat (ccap c)" "cur_slot c (unat i) = Some v" "{..<unat i} \<subseteq> counted c"
    using clog_okD(13) [OF assms(1), of j] unfolding AtGrown by simp_all
  have ok: "clog_ok ?c" by (rule ok_count [OF assms(1) _ at(1,2)]) (simp add: AtGrown)
  have "{..unat i} \<subseteq> counted ?c" using at(3) by (auto simp: count_step_def less_Suc_eq_le [symmetric] less_Suc_eq)
  then have "unat i < card (counted ?c)" using card_mono [OF card_counted(1) [OF ok], of "{..unat i}"] by simp
  then have "clog_ok (return_step ?c j v i)" by (intro ok_return [OF ok]) simp_all
  then show ?thesis using assms(2) AtGrown by (simp add: astep_def return_step_def count_step_def)
next
  case (AtLoadLen idx known)
  have "known \<longrightarrow> 0 \<le> idx \<and> idx < sint (clen c) \<and> (\<exists>v. (v, nat idx) \<in> set (returned c))"
    using clog_okD(13) [OF assms(1), of j] clog_okD(8) [OF assms(1), of _ "nat idx"] card_counted(3) [OF assms(1)]
    unfolding AtLoadLen by (auto simp: nat_less_iff)
  then show ?thesis using assms(1,2) AtLoadLen ok_go [OF assms(1), of "AtLoadPtr idx known (clen c)" j] by (simp add: astep_def)
next
  case (AtLoadPtr idx known len)
  have "known \<longrightarrow> 0 \<le> idx \<and> idx < sint len \<and> (\<exists>v. (v, nat idx) \<in> set (returned c) \<and> cur_slot c (nat idx) = Some v)"
    using clog_okD(13) [OF assms(1), of j] clog_okD(8) [OF assms(1)] unfolding AtLoadPtr by auto
  then show ?thesis using assms(1,2) AtLoadPtr ok_go [OF assms(1), of "AtRead idx known len (cptr c)" j] by (simp add: astep_def)
next
  case (AtRead idx known len p)
  then show ?thesis using assms(2) ok_read [OF assms(1) AtRead] by (simp add: astep_def)
qed (use assms(2) in \<open>simp_all add: astep_def\<close>)


lemma astep_mono: "astep grow j c = Some d \<Longrightarrow> claimed c \<le> claimed d \<and> (wrapped c \<longrightarrow> wrapped d)"
  by (cases "cpcs c j")
     (auto simp: astep_def claim_step_def cap_step_def write_step_def count_step_def return_step_def grow_step_def
       store_cap_step_def read_step_def Let_def)

lemma areachable_ok:
  assumes "areachable grow c" "append_grows grow" "\<not> wrapped c" "claimed c < 2 ^ 32"
  shows "clog_ok c"
  using assms
proof (induction rule: areachable.induct)
  case start
  have "shared_ok new_clog" by (rule shared_okI) (simp_all add: new_clog_def)
  moreover have "owners_ok new_clog" by (rule owners_okI) (simp_all add: new_clog_def)
  ultimately show ?case by (simp add: clog_ok_def claims_ok_def new_clog_def)
next
  case (append_call c j v)
  then show ?case by (intro ok_go) simp_all
next
  case (load_call c j idx)
  then have "clog_ok c" by simp
  then show ?case by (rule ok_go) (use load_call.hyps(2) in simp_all)
next
  case (work c j d)
  have "\<not> wrapped c" "claimed c < 2 ^ 32" using astep_mono [OF work.hyps(2)] work.prems(2,3) by auto
  then have "clog_ok c" using work.IH work.prems(1) by blast
  then show ?case by (rule ok_astep [OF _ work.hyps(2) work.prems])
qed

section \<open>Progress\<close>

definition waits :: "(nat \<Rightarrow> nat) \<Rightarrow> 'v clog \<Rightarrow> nat \<Rightarrow> bool" where
  "waits grow c j \<longleftrightarrow> (case astep grow j c of None \<Rightarrow> True | Some d \<Rightarrow> cpcs d j = cpcs c j)"

lemma waits_cases:
  assumes "waits grow c j"
  shows "cpcs c j = Ready \<or> cpcs c j = Corrupted \<or> (\<exists>v i. cpcs c j = AtCap v i \<and> ccap c <s i) \<or>
    (\<exists>v i. cpcs c j = AtWait v i \<and> clen c \<le>s i) \<or> (\<exists>v i cap. cpcs c j = AtDrain v i cap \<and> clen c \<noteq> cap)"
  using assms
  by (cases "cpcs c j")
     (simp_all add: waits_def astep_def claim_step_def cap_step_def write_step_def count_step_def return_step_def grow_step_def
       store_cap_step_def read_step_def Let_def split: if_splits)

lemma waiting:
  assumes "waits grow c j"
  obtains "cpcs c j = Ready" | "cpcs c j = Corrupted" | v i where "cpcs c j = AtCap v i" "ccap c <s i"
    | v i where "cpcs c j = AtWait v i" "clen c \<le>s i" | v i cap where "cpcs c j = AtDrain v i cap" "clen c \<noteq> cap"
  using waits_cases [OF assms] by metis

text \<open>If every caller waits, every claimed index has been counted: the owner of the first one that has not would go on.\<close>

lemma all_counted:
  assumes "clog_ok c" "\<forall>j. waits grow c j" "m < claimed c" "m < 2 ^ 31 - 1"
  shows "m \<in> counted c"
  using assms(3,4)
proof (induction m rule: less_induct)
  case (less m)
  note I = clog_okD [OF assms(1)]
  show ?case
  proof (rule ccontr)
    assume "m \<notin> counted c"
    then obtain k where k: "pending (cpcs c k) = Some m" using I(12) less.prems by blast
    have "waits grow c k" using assms(2) by blast
    then show False
    proof (cases rule: waiting)
      case (3 v i)
      then have m: "unat i = m" using k by simp
      then have "unat (ccap c) < m" using 3(2) I(5) less.prems(2) by (simp add: sless_unat32)
      then have "unat (ccap c) \<in> counted c" using less.IH less.prems by simp
      then show False using I(4) by auto
    next
      case (5 v i cap)
      then have at: "i = ccap c" "cap = ccap c" using I(13) [of k] by simp_all
      then have "m = unat (ccap c)" using k 5 by simp
      then have "{..<unat (ccap c)} \<subseteq> counted c" using less.IH less.prems by auto
      then have "counted c = {..<unat (ccap c)}" using I(4) by blast
      then have "clen c = cap" using I(2) at by simp
      then show False using 5(2) by simp
    qed (use k in simp_all)
  qed
qed

lemma some_progress:
  assumes "clog_ok c" "cpcs c j \<noteq> Ready"
  shows "\<exists>k d. astep grow k c = Some d \<and> cpcs d k \<noteq> cpcs c k"
proof (rule ccontr)
  assume no: "\<not> ?thesis"
  have wait: "\<forall>k. waits grow c k"
  proof
    fix k
    show "waits grow c k" using no by (cases "astep grow k c") (auto simp: waits_def)
  qed
  then have "waits grow c j" by blast
  note I = clog_okD [OF assms(1)]
  have none: "pending (cpcs c k) \<noteq> Some m" for k m using all_counted [OF assms(1) wait, of m] I(10) [of k m] by blast
  from \<open>waits grow c j\<close> show False
  proof (cases rule: waiting)
    case 2
    then show False using I(13) [of j] by simp
  next
    case (4 v i)
    have i: "unat i \<in> counted c" using I(13) [of j] unfolding 4(1) by simp
    then have small: "unat i < 2 ^ 31 - 1" "unat i < claimed c" using I(3,4,5) by auto
    have "{..unat i} \<subseteq> counted c"
    proof
      fix k assume "k \<in> {..unat i}"
      then show "k \<in> counted c" using small by (intro all_counted [OF assms(1) wait]) auto
    qed
    then have "unat i < card (counted c)" using card_mono [OF card_counted(1) [OF assms(1)], of "{..unat i}"] by simp
    then show False using 4(2) sle_counted [OF assms(1), of i] small(1) by simp
  next
    case (3 v i)
    then show False using none [of j "unat i"] by simp
  next
    case (5 v i cap)
    then show False using none [of j "unat i"] by simp
  qed (use assms(2) in simp)
qed

section \<open>Properties\<close>

text \<open>C11: callers of \<open>Append\<close> and \<open>Load\<close> may interleave at every single access to shared memory. As long as fewer
  than \<open>2 ^ 32\<close> calls were made and no capacity of \<open>2 ^ 31\<close> or more had to be stored: nobody writes beyond an array; no
  index is returned twice; a \<open>Load\<close> of an index that had been returned when it started does not panic and yields the
  appended value; and when some caller is in a call, some caller can take a step other than to wait. Of Go's \<open>append\<close> only
  its contract is used, that the new array has room for one more element.\<close>

theorem Append_interleaved:
  assumes "areachable grow c" "append_grows grow" "\<not> wrapped c" "claimed c < 2 ^ 32"
  shows "(\<forall>j. cpcs c j \<noteq> Corrupted) \<and> distinct (map snd (returned c)) \<and>
    (\<forall>idx x. (idx, True, x) \<in> loaded c \<longrightarrow> (\<exists>v. (v, nat idx) \<in> set (returned c) \<and> x = Some v)) \<and>
    ((\<exists>j. cpcs c j \<noteq> Ready) \<longrightarrow> (\<exists>j d. astep grow j c = Some d \<and> cpcs d j \<noteq> cpcs c j))"
proof -
  have ok: "clog_ok c" by (rule areachable_ok [OF assms])
  note I = clog_okD [OF ok]
  have "cpcs c j \<noteq> Corrupted" for j using I(13) [of j] by auto
  with I(9) claims_okD(3) [OF I(14)] some_progress [OF ok, of _ grow] show ?thesis by blast
qed


text \<open>Two callers, of which the second claims its index while the first one has to grow the array: it waits for the
  capacity, grows the array once more and then loads the first value.\<close>

definition run_schedule :: "(nat \<Rightarrow> nat) \<Rightarrow> nat list \<Rightarrow> 'v clog \<Rightarrow> 'v clog" where
  "run_schedule grow js c = foldl (\<lambda>c j. case astep grow j c of Some d \<Rightarrow> d | None \<Rightarrow> c) c js"

lemma run_reachable: "areachable grow c \<Longrightarrow> areachable grow (run_schedule grow js c)"
  by (induction js arbitrary: c) (auto simp: run_schedule_def intro: areachable.work split: option.split)

definition demo_calls :: "nat clog" where
  "demo_calls = go (go new_clog 0 (AtNext 7)) 1 (AtNext 8)"

definition demo_appended :: "nat clog" where
  "demo_appended = run_schedule Suc [0, 1, 1, 0, 0, 0, 0, 0, 0, 1, 0, 1, 1, 1, 1, 1, 1] demo_calls"

definition demo_loaded :: "nat clog" where
  "demo_loaded = run_schedule Suc [1, 1, 1] (go demo_appended 1 (AtLoadLen 0 True))"

lemmas demo_defs = run_schedule_def demo_calls_def new_clog_def astep_def claim_step_def cap_step_def write_step_def count_step_def
  return_step_def grow_step_def store_cap_step_def read_step_def Let_def word_sless_alt word_sle_eq

lemma demo_appended: "returned demo_appended = [(7, 0), (8, 1)]" "cpcs demo_appended 1 = Ready"
  by (simp_all add: demo_appended_def demo_defs)

lemma demo_loaded: "loaded demo_loaded = {(0, True, Some 7)}" "\<not> wrapped demo_loaded" "claimed demo_loaded = 2"
  by (simp_all add: demo_loaded_def demo_appended_def demo_defs)

theorem Append_interleaved_witness:
  "areachable Suc demo_loaded \<and> append_grows Suc \<and> \<not> wrapped demo_loaded \<and> claimed demo_loaded < 2 ^ 32 \<and>
   (0, True, Some 7) \<in> loaded demo_loaded \<and> (7, 0) \<in> set (returned demo_loaded)"
proof -
  have "areachable Suc demo_calls" unfolding demo_calls_def
    by (intro areachable.append_call areachable.start) (simp_all add: new_clog_def)
  then have "areachable Suc demo_appended" unfolding demo_appended_def by (rule run_reachable)
  from areachable.load_call [OF this demo_appended(2), of 0]
  have "areachable Suc (go demo_appended 1 (AtLoadLen 0 True))" by (simp add: demo_appended(1))
  then have reach: "areachable Suc demo_loaded" unfolding demo_loaded_def by (rule run_reachable)
  have grows: "append_grows Suc" by (simp add: append_grows_def)
  have small: "claimed demo_loaded < 2 ^ 32" by (simp add: demo_loaded(3))
  show ?thesis using Append_interleaved [OF reach grows demo_loaded(2) small] reach grows small demo_loaded by auto
qed

end
