(* ===== verification/Heap.thy ===== *)
theory Heap
  imports Prelude "HOL-Library.Multiset" "HOL-Library.Signed_Division" "HOL-Library.Monad_Syntax"
begin

text \<open>
  The binary heap of \<open>internal/ext/slicesx/heap.go\<close> and the merge of sorted slices that is built on it
  (\<open>internal/ext/slicesx/merge.go\<close>).

  A heap is a pair of slices, of keys and of the values that belong to them. An index out of range panics, which is \<open>None\<close>.
  Keys are of a linear order, which leaves out the floating-point numbers that are not equal to themselves.
\<close>

section \<open>The heap\<close>

record ('k, 'v) heap =
  hkeys :: "'k list"
  hvals :: "'v list"

definition at :: "'a list \<Rightarrow> int \<Rightarrow> 'a option" where
  "at xs i = (if 0 \<le> i \<and> i < int (length xs) then Some (xs ! nat i) else None)"

definition NewHeap :: "('k, 'v) heap" where
  "NewHeap = \<lparr>hkeys = [], hvals = []\<rparr>"

definition Len :: "('k, 'v) heap \<Rightarrow> int" where
  "Len h = int (length (hkeys h))"

definition less_at :: "('k::linorder, 'v) heap \<Rightarrow> int \<Rightarrow> int \<Rightarrow> bool option" where
  "less_at h i j = do { a \<leftarrow> at (hkeys h) i; b \<leftarrow> at (hkeys h) j; Some (a < b) }"

definition swap_list :: "'a list \<Rightarrow> int \<Rightarrow> int \<Rightarrow> 'a list option" where
  "swap_list xs i j = do { a \<leftarrow> at xs i; b \<leftarrow> at xs j; Some (xs[nat i := b, nat j := a]) }"

definition swap_at :: "('k, 'v) heap \<Rightarrow> int \<Rightarrow> int \<Rightarrow> ('k, 'v) heap option" where
  "swap_at h i j = do {
     ks \<leftarrow> swap_list (hkeys h) i j;
     vs \<leftarrow> swap_list (hvals h) i j;
     Some (h\<lparr>hkeys := ks, hvals := vs\<rparr>) }"

definition push_entry :: "'k \<Rightarrow> 'v \<Rightarrow> ('k, 'v) heap \<Rightarrow> ('k, 'v) heap" where
  "push_entry k v h = \<lparr>hkeys = hkeys h @ [k], hvals = hvals h @ [v]\<rparr>"

definition pop_entry :: "('k, 'v) heap \<Rightarrow> (('k \<times> 'v) \<times> ('k, 'v) heap) option" where
  "pop_entry h =
     (let end' = Len h - 1
      in do {
        k \<leftarrow> at (hkeys h) end';
        v \<leftarrow> at (hvals h) end';
        Some ((k, v), \<lparr>hkeys = take (nat end') (hkeys h), hvals = take (nat end') (hvals h)\<rparr>) })"

text \<open>Go's division truncates, so the parent of the root is the root itself.\<close>

definition heapParent :: "int \<Rightarrow> int \<times> bool" where
  "heapParent i = (let j = (i - 1) sdiv 2 in (j, i = j))"

definition wrap64 :: "int \<Rightarrow> int" where
  "wrap64 n = (n + 2 ^ 63) mod 2 ^ 64 - 2 ^ 63"

definition heapChildren :: "int \<Rightarrow> int \<times> int \<times> bool" where
  "heapChildren i = (let j = wrap64 (i * 2 + 1) in (j, wrap64 (j + 1), j < 0))"

lemma heapParent_nat: "heapParent (int n) = (int ((n - 1) div 2), n = 0)"
proof (cases "n \<le> 1")
  case True
  then have "n = 0 \<or> n = 1" by auto
  then show ?thesis by (auto simp: heapParent_def signed_divide_int_def)
next
  case False
  then have "sgn (int n - 1) = 1" by (simp add: sgn_if)
  moreover have "(int n - 1) div 2 = int ((n - 1) div 2)" using False by (simp add: zdiv_int of_nat_diff)
  ultimately show ?thesis using False by (auto simp: heapParent_def signed_divide_int_def Let_def)
qed

lemma at_Some: "at xs i = Some x \<Longrightarrow> 0 \<le> i \<and> i < int (length xs)"
  by (auto simp: at_def split: if_splits)

lemma less_at_Some: "less_at h i j = Some b \<Longrightarrow> 0 \<le> i \<and> i < Len h \<and> 0 \<le> j \<and> j < Len h"
  using at_Some by (fastforce simp: less_at_def Len_def bind_Some_iff)

lemma swap_at_Len: "swap_at h i j = Some h' \<Longrightarrow> Len h' = Len h"
  by (auto simp: swap_at_def swap_list_def Len_def split: bind_splits)

function heap_up :: "('k::linorder, 'v) heap \<Rightarrow> int \<Rightarrow> ('k, 'v) heap option" where
  "heap_up h i =
     (let (par, root) = heapParent i
      in if root then Some h
         else case less_at h i par of
             None \<Rightarrow> None
           | Some lt \<Rightarrow>
               if \<not> lt then Some h
               else case swap_at h par i of None \<Rightarrow> None | Some h \<Rightarrow> heap_up h par)"
  by pat_completeness auto
termination
proof (relation "measure (\<lambda>(h, i). nat i)")
  fix h :: "('k::linorder, 'v) heap" and i p par root lt h'
  assume *: "p = heapParent i" "(par, root) = p" "\<not> root" "less_at h i par = Some lt"
  then obtain n where n: "i = int n" using less_at_Some [OF *(4)] zero_le_imp_eq_int by blast
  then have "n \<noteq> 0" "par = int ((n - 1) div 2)" using *(1-3) by (auto simp: heapParent_nat)
  then show "((h', par), h, i) \<in> measure (\<lambda>(h, i). nat i)" using n by auto
qed simp

text \<open>The smaller child of an index, if there is one.\<close>

definition least_child :: "('k::linorder, 'v) heap \<Rightarrow> int \<Rightarrow> int \<Rightarrow> int option" where
  "least_child h left right =
     (if right < Len h then do { lt \<leftarrow> less_at h right left; Some (if lt then right else left) } else Some left)"

text \<open>A partial function, as the indices of Go are bounded and the lists of the model are not.\<close>

partial_function (option) heap_down :: "('k::linorder, 'v) heap \<Rightarrow> int \<Rightarrow> ('k, 'v) heap option" where
  "heap_down h i =
     (case heapChildren i of (left, right, overflow) \<Rightarrow>
        if overflow \<or> left \<ge> Len h then Some h
        else do {
          child \<leftarrow> least_child h left right;
          lt \<leftarrow> less_at h child i;
          if \<not> lt then Some h else do { h \<leftarrow> swap_at h i child; heap_down h child } })"

declare heap_up.simps [simp del]

definition heap_Insert :: "'k::linorder \<Rightarrow> 'v \<Rightarrow> ('k, 'v) heap \<Rightarrow> ('k, 'v) heap option" where
  "heap_Insert k v h = (let h = push_entry k v h in heap_up h (Len h - 1))"

definition Peek :: "('k, 'v) heap \<Rightarrow> ('k \<times> 'v) option" where
  "Peek h = do { k \<leftarrow> at (hkeys h) 0; v \<leftarrow> at (hvals h) 0; Some (k, v) }"

definition heap_Pop :: "('k::linorder, 'v) heap \<Rightarrow> (('k \<times> 'v) \<times> ('k, 'v) heap) option" where
  "heap_Pop h = do {
     h \<leftarrow> swap_at h 0 (Len h - 1);
     (x, h) \<leftarrow> pop_entry h;
     h \<leftarrow> heap_down h 0;
     Some (x, h) }"

definition set_at :: "'a list \<Rightarrow> int \<Rightarrow> 'a \<Rightarrow> 'a list option" where
  "set_at xs i x = (if 0 \<le> i \<and> i < int (length xs) then Some (xs[nat i := x]) else None)"

definition heap_Update :: "'k::linorder \<Rightarrow> 'v \<Rightarrow> ('k, 'v) heap \<Rightarrow> ('k, 'v) heap option" where
  "heap_Update k v h = do {
     ks \<leftarrow> set_at (hkeys h) 0 k;
     vs \<leftarrow> set_at (hvals h) 0 v;
     heap_down \<lparr>hkeys = ks, hvals = vs\<rparr> 0 }"

section \<open>Merging\<close>

text \<open>The heap holds the slices that are left, with the number of each slice, under the key of their first element.\<close>

fun preload :: "(int \<Rightarrow> 'e \<Rightarrow> 'k::linorder) \<Rightarrow> int \<Rightarrow> 'e list list \<Rightarrow> ('k, int \<times> 'e list) heap \<Rightarrow> ('k, int \<times> 'e list) heap option" where
  "preload key i [] h = Some h"
| "preload key i (sl # sls) h =
     (case sl of
        [] \<Rightarrow> preload key (i + 1) sls h
      | e # _ \<Rightarrow> do { h \<leftarrow> heap_Insert (key i e) (i, sl) h; preload key (i + 1) sls h })"

partial_function (option) merge_loop ::
  "(int \<Rightarrow> 'e \<Rightarrow> 'k::linorder) \<Rightarrow> (int \<Rightarrow> 'e \<Rightarrow> 'w) \<Rightarrow> ('k, int \<times> 'e list) heap \<Rightarrow> 'w list \<Rightarrow> 'w list option" where
  "merge_loop key mapper h output =
     (if \<not> Len h > 0 then Some output
      else do {
        (_, index, sl) \<leftarrow> Peek h;
        e \<leftarrow> at sl 0;
        let output = output @ [mapper index e];
        if length sl = 1 then do { (_, h) \<leftarrow> heap_Pop h; merge_loop key mapper h output }
        else do {
          let sl = drop 1 sl;
          e \<leftarrow> at sl 0;
          h \<leftarrow> heap_Update (key index e) (index, sl) h;
          merge_loop key mapper h output } })"

definition MergeKeySeq :: "'e list list \<Rightarrow> (int \<Rightarrow> 'e \<Rightarrow> 'k::linorder) \<Rightarrow> (int \<Rightarrow> 'e \<Rightarrow> 'w) \<Rightarrow> 'w list option" where
  "MergeKeySeq sls key mapper = do { h \<leftarrow> preload key 0 sls NewHeap; merge_loop key mapper h [] }"

definition MergeKey :: "'e list list \<Rightarrow> (int \<Rightarrow> 'e \<Rightarrow> 'k::linorder) \<Rightarrow> 'e list option" where
  "MergeKey s key =
     (case s of [] \<Rightarrow> Some [] | [sl] \<Rightarrow> Some sl | _ \<Rightarrow> MergeKeySeq s key (\<lambda>_ e. e))"

section \<open>Order\<close>

abbreviation par :: "nat \<Rightarrow> nat" where
  "par n \<equiv> (n - 1) div 2"

lemma par_iff: "0 < c \<Longrightarrow> par c = i \<longleftrightarrow> c = 2 * i + 1 \<or> c = 2 * i + 2"
  by auto

definition entries :: "('k, 'v) heap \<Rightarrow> ('k \<times> 'v) multiset" where
  "entries h = mset (zip (hkeys h) (hvals h))"

definition ordered :: "'k::linorder list \<Rightarrow> bool" where
  "ordered ks \<longleftrightarrow> (\<forall>c < length ks. 0 < c \<longrightarrow> ks ! par c \<le> ks ! c)"

definition paired :: "('k, 'v) heap \<Rightarrow> bool" where
  "paired h \<longleftrightarrow> length (hvals h) = length (hkeys h)"

definition heap_ok :: "('k::linorder, 'v) heap \<Rightarrow> bool" where
  "heap_ok h \<longleftrightarrow> paired h \<and> ordered (hkeys h)"

lemma at_nat [simp]: "i < length xs \<Longrightarrow> at xs (int i) = Some (xs ! i)"
  by (simp add: at_def)

lemma at_0 [simp]: "xs \<noteq> [] \<Longrightarrow> at xs 0 = Some (xs ! 0)"
  by (simp add: at_def)

lemma less_at_nat:
  "i < length (hkeys h) \<Longrightarrow> j < length (hkeys h) \<Longrightarrow> less_at h (int i) (int j) = Some (hkeys h ! i < hkeys h ! j)"
  by (simp add: less_at_def)

definition swapped :: "'a list \<Rightarrow> nat \<Rightarrow> nat \<Rightarrow> 'a list" where
  "swapped xs i j = xs[i := xs ! j, j := xs ! i]"

lemma swapped_nth:
  "i < length xs \<Longrightarrow> j < length xs \<Longrightarrow> k < length xs \<Longrightarrow>
     swapped xs i j ! k = (if k = i then xs ! j else if k = j then xs ! i else xs ! k)"
  by (auto simp: swapped_def nth_list_update)

lemma length_swapped [simp]: "length (swapped xs i j) = length xs"
  by (simp add: swapped_def)

lemma swap_at_nat:
  assumes "paired h" "i < length (hkeys h)" "j < length (hkeys h)"
  obtains h' where "swap_at h (int i) (int j) = Some h'" "paired h'" "hkeys h' = swapped (hkeys h) i j" "entries h' = entries h"
proof
  let ?h = "h\<lparr>hkeys := swapped (hkeys h) i j, hvals := swapped (hvals h) i j\<rparr>"
  have len: "i < length (hvals h)" "j < length (hvals h)" using assms by (simp_all add: paired_def)
  then show "swap_at h (int i) (int j) = Some ?h" "paired ?h" "hkeys ?h = swapped (hkeys h) i j"
    using assms by (simp_all add: swap_at_def swap_list_def swapped_def paired_def)
  have "zip (swapped (hkeys h) i j) (swapped (hvals h) i j) = swapped (zip (hkeys h) (hvals h)) i j"
    using assms len by (simp add: swapped_def update_zip)
  then show "entries ?h = entries h"
    using assms len mset_swap [of j "zip (hkeys h) (hvals h)" i] by (simp add: entries_def swapped_def)
qed

lemma up_ok:
  assumes "paired h" "i < length (hkeys h)"
    and "\<And>c. c < length (hkeys h) \<Longrightarrow> 0 < c \<Longrightarrow> c \<noteq> i \<Longrightarrow> hkeys h ! par c \<le> hkeys h ! c"
    and "\<And>c. c < length (hkeys h) \<Longrightarrow> 0 < c \<Longrightarrow> par c = i \<Longrightarrow> 0 < i \<Longrightarrow> hkeys h ! par i \<le> hkeys h ! c"
  shows "\<exists>h'. heap_up h (int i) = Some h' \<and> heap_ok h' \<and> entries h' = entries h"
  using assms
proof (induction i arbitrary: h rule: less_induct)
  case (less i)
  let ?ks = "hkeys h"
  show ?case
  proof (cases "i = 0 \<or> \<not> ?ks ! i < ?ks ! par i")
    case True
    then have "heap_up h (int i) = Some h"
      using less.prems(2) less_at_nat [of i h "par i"] by (subst heap_up.simps) (auto simp: heapParent_nat)
    moreover have "ordered ?ks" unfolding ordered_def
    proof (intro allI impI)
      fix c assume "c < length ?ks" "0 < c"
      then show "?ks ! par c \<le> ?ks ! c" using less.prems(3) [of c] True by (cases "c = i") auto
    qed
    ultimately show ?thesis using less.prems(1) by (auto simp: heap_ok_def)
  next
    case False
    let ?p = "par i"
    have p: "?p < i" "?p < length ?ks" using False less.prems(2) by auto
    obtain h' where h': "swap_at h (int ?p) (int i) = Some h'" "paired h'" "hkeys h' = swapped ?ks ?p i" "entries h' = entries h"
      using swap_at_nat [OF less.prems(1) p(2) less.prems(2)] .
    have nth: "hkeys h' ! c = (if c = ?p then ?ks ! i else if c = i then ?ks ! ?p else ?ks ! c)" if "c < length ?ks" for c
      using that p less.prems(2) by (simp add: h'(3) swapped_nth)
    have up: "heap_up h (int i) = heap_up h' (int ?p)"
      using less_at_nat [OF less.prems(2) p(2)] False h'(1) by (subst heap_up.simps) (auto simp: heapParent_nat)
    have "\<exists>h''. heap_up h' (int ?p) = Some h'' \<and> heap_ok h'' \<and> entries h'' = entries h'"
    proof (rule less.IH [OF p(1) h'(2)])
      show "?p < length (hkeys h')" using p h'(3) by simp
    next
      fix c assume c: "c < length (hkeys h')" "0 < c" "c \<noteq> ?p"
      then have "par c < c" "c < length ?ks" by (auto simp: h'(3))
      then show "hkeys h' ! par c \<le> hkeys h' ! c"
        using nth [of c] nth [of "par c"] c less.prems(3) [of c] less.prems(4) [of c] False by auto
    next
      fix c assume c: "c < length (hkeys h')" "0 < c" "par c = ?p" "0 < ?p"
      then have "c < length ?ks" "par ?p < ?p" "c \<noteq> ?p" by (simp_all add: h'(3)) linarith+
      then show "hkeys h' ! par ?p \<le> hkeys h' ! c"
        using nth [of c] nth [of "par ?p"] c p less.prems(3) [of c] less.prems(3) [of ?p] by fastforce
    qed
    with up h'(4) show ?thesis by auto
  qed
qed

lemma children_nat: "i < 2 ^ 61 \<Longrightarrow> heapChildren (int i) = (int (2 * i + 1), int (2 * i + 2), False)"
  by (simp add: heapChildren_def wrap64_def Let_def)

lemma down_ok:
  assumes "paired h" "length (hkeys h) < 2 ^ 61" "i \<le> length (hkeys h)"
    and "\<And>c. c < length (hkeys h) \<Longrightarrow> 0 < c \<Longrightarrow> par c \<noteq> i \<Longrightarrow> hkeys h ! par c \<le> hkeys h ! c"
    and "\<And>c. c < length (hkeys h) \<Longrightarrow> 0 < c \<Longrightarrow> par c = i \<Longrightarrow> 0 < i \<Longrightarrow> hkeys h ! par i \<le> hkeys h ! c"
  shows "\<exists>h'. heap_down h (int i) = Some h' \<and> heap_ok h' \<and> entries h' = entries h"
  using assms
proof (induction "length (hkeys h) - i" arbitrary: h i rule: less_induct)
  case less
  let ?ks = "hkeys h" and ?l = "2 * i + 1" and ?r = "2 * i + 2"
  have ch: "heapChildren (int i) = (int ?l, int ?r, False)" using less.prems(2,3) by (intro children_nat) simp
  show ?case
  proof (cases "?l < length ?ks")
    case False
    then have "heap_down h (int i) = Some h" by (subst heap_down.simps) (simp add: ch Len_def)
    moreover have "ordered ?ks" using less.prems(4) False by (force simp: ordered_def)
    ultimately show ?thesis using less.prems(1) by (auto simp: heap_ok_def)
  next
    case True
    define m where "m = (if ?r < length ?ks \<and> ?ks ! ?r < ?ks ! ?l then ?r else ?l)"
    have m: "m < length ?ks" "par m = i" "0 < m" "i < m" using True by (auto simp: m_def)
    have least: "?ks ! m \<le> ?ks ! c" if "c < length ?ks" "0 < c" "par c = i" for c
      using that par_iff [of c i] by (auto simp: m_def)
    have child: "least_child h (int ?l) (int ?r) = Some (int m)"
      using True less_at_nat [of ?r h ?l] by (auto simp: least_child_def Len_def m_def)
    have i: "i < length ?ks" using True by simp
    show ?thesis
    proof (cases "?ks ! m < ?ks ! i")
      case no: False
      then have "heap_down h (int i) = Some h"
        by (subst heap_down.simps) (use True child less_at_nat [OF m(1) i] in \<open>simp add: ch Len_def\<close>)
      moreover have "ordered ?ks" unfolding ordered_def
      proof (intro allI impI)
        fix c assume "c < length ?ks" "0 < c"
        then show "?ks ! par c \<le> ?ks ! c" using less.prems(4) [of c] least [of c] no by (cases "par c = i") auto
      qed
      ultimately show ?thesis using less.prems(1) by (auto simp: heap_ok_def)
    next
      case yes: True
      obtain h' where h': "swap_at h (int i) (int m) = Some h'" "paired h'" "hkeys h' = swapped ?ks i m" "entries h' = entries h"
        using swap_at_nat [OF less.prems(1) i m(1)] .
      have nth: "hkeys h' ! c = (if c = i then ?ks ! m else if c = m then ?ks ! i else ?ks ! c)" if "c < length ?ks" for c
        using that i m(1) by (simp add: h'(3) swapped_nth)
      have down: "heap_down h (int i) = heap_down h' (int m)"
        by (subst heap_down.simps) (use True child less_at_nat [OF m(1) i] yes h'(1) in \<open>simp add: ch Len_def\<close>)
      have "\<exists>h''. heap_down h' (int m) = Some h'' \<and> heap_ok h'' \<and> entries h'' = entries h'"
      proof (rule less.hyps)
        show "length (hkeys h') - m < length ?ks - i" "paired h'" "length (hkeys h') < 2 ^ 61" "m \<le> length (hkeys h')"
          using m h' i less.prems(2) by auto
      next
        fix c assume c: "c < length (hkeys h')" "0 < c" "par c \<noteq> m"
        then have "par c < c" "c < length ?ks" by (auto simp: h'(3))
        then show "hkeys h' ! par c \<le> hkeys h' ! c"
          using nth [of c] nth [of "par c"] c m least [of c] less.prems(4) [of c] less.prems(5) [of c] yes
            less.prems(5) [of m] by (cases "par c = i") auto
      next
        fix c assume c: "c < length (hkeys h')" "0 < c" "par c = m" "0 < m"
        then have "c < length ?ks" "m < c" by (auto simp: h'(3))
        then show "hkeys h' ! par m \<le> hkeys h' ! c"
          using nth [of c] nth [of i] c m i less.prems(4) [of c] by auto
      qed
      with down h'(4) show ?thesis by auto
    qed
  qed
qed


section \<open>Operations\<close>

text \<open>What a priority queue promises, as long as it has fewer than \<open>limit\<close> entries.\<close>

locale priority_queue =
  fixes ok :: "'q \<Rightarrow> bool" and elems :: "'q \<Rightarrow> ('k::linorder \<times> 'v) multiset" and limit :: nat
    and ins upd :: "'k \<Rightarrow> 'v \<Rightarrow> 'q \<Rightarrow> 'q option" and peek :: "'q \<Rightarrow> ('k \<times> 'v) option" and pop :: "'q \<Rightarrow> (('k \<times> 'v) \<times> 'q) option"
  assumes ins: "ok q \<Longrightarrow> size (elems q) + 1 < limit \<Longrightarrow>
      succeeds (ins k v q) (\<lambda>q'. ok q' \<and> elems q' = add_mset (k, v) (elems q))"
    and peek: "ok q \<Longrightarrow> elems q \<noteq> {#} \<Longrightarrow> succeeds (peek q) (\<lambda>x. x \<in># elems q \<and> (\<forall>y \<in># elems q. fst x \<le> fst y))"
    and pop: "ok q \<Longrightarrow> elems q \<noteq> {#} \<Longrightarrow> size (elems q) < limit \<Longrightarrow>
      succeeds (pop q) (\<lambda>(x, q'). peek q = Some x \<and> ok q' \<and> elems q' = elems q - {#x#})"
    and upd: "ok q \<Longrightarrow> peek q = Some x \<Longrightarrow> size (elems q) < limit \<Longrightarrow>
      succeeds (upd k v q) (\<lambda>q'. ok q' \<and> elems q' = add_mset (k, v) (elems q - {#x#}))"
begin

lemma insert_entry:
  assumes "ok q" "size (elems q) + 1 < limit"
  obtains q' where "ins k v q = Some q'" "ok q'" "elems q' = add_mset (k, v) (elems q)"
  using ins [OF assms, of k v] that by (auto simp: succeeds_def split: option.splits)

lemma least_entry:
  assumes "ok q" "elems q \<noteq> {#}" "size (elems q) < limit"
  obtains x q' where "peek q = Some x" "x \<in># elems q" "\<forall>y \<in># elems q. fst x \<le> fst y"
    "pop q = Some (x, q')" "ok q'" "elems q' = elems q - {#x#}"
  using peek [OF assms(1,2)] pop [OF assms] that by (auto simp: succeeds_def split: option.splits)

lemma replace_least:
  assumes "ok q" "peek q = Some x" "size (elems q) < limit"
  obtains q' where "upd k v q = Some q'" "ok q'" "elems q' = add_mset (k, v) (elems q - {#x#})"
  using upd [OF assms, of k v] that by (auto simp: succeeds_def split: option.splits)

end

lemma ordered_root:
  assumes "ordered ks" "c < length ks"
  shows "ks ! 0 \<le> ks ! c"
  using assms(2)
proof (induction c rule: less_induct)
  case (less c)
  show ?case
  proof (cases "c = 0")
    case False
    then have "ks ! 0 \<le> ks ! par c" using less.IH [of "par c"] less.prems by auto
    then show ?thesis using assms(1) False less.prems by (fastforce simp: ordered_def intro: order_trans)
  qed simp
qed

lemma ordered_prefix: "ordered (xs @ ys) \<Longrightarrow> ordered xs"
  unfolding ordered_def
proof (intro allI impI)
  fix c
  assume *: "\<forall>c < length (xs @ ys). 0 < c \<longrightarrow> (xs @ ys) ! par c \<le> (xs @ ys) ! c" "c < length xs" "0 < c"
  then have "par c < length xs" "c < length (xs @ ys)" by auto
  with * show "xs ! par c \<le> xs ! c" by (metis nth_append)
qed

lemma Insert_ok:
  assumes "heap_ok h"
  shows "\<exists>h'. heap_Insert k v h = Some h' \<and> heap_ok h' \<and> entries h' = add_mset (k, v) (entries h)"
proof -
  let ?h = "push_entry k v h" and ?n = "length (hkeys h)"
  have keys: "hkeys ?h = hkeys h @ [k]" by (simp add: push_entry_def)
  have "\<exists>h'. heap_up ?h (int ?n) = Some h' \<and> heap_ok h' \<and> entries h' = entries ?h"
  proof (rule up_ok)
    show "paired ?h" "?n < length (hkeys ?h)" using assms by (simp_all add: paired_def heap_ok_def push_entry_def)
    show "hkeys ?h ! par c \<le> hkeys ?h ! c" if "c < length (hkeys ?h)" "0 < c" "c \<noteq> ?n" for c
      using assms that by (auto simp: keys nth_append heap_ok_def ordered_def)
    show "hkeys ?h ! par ?n \<le> hkeys ?h ! c" if "c < length (hkeys ?h)" "0 < c" "par c = ?n" for c
      using that par_iff [of c ?n] by (auto simp: keys)
  qed
  moreover have "entries ?h = add_mset (k, v) (entries h)"
    using assms by (simp add: entries_def push_entry_def paired_def heap_ok_def)
  ultimately show ?thesis by (simp add: heap_Insert_def Len_def keys Let_def)
qed

lemma entries_pair:
  assumes "heap_ok h" "entries h \<noteq> {#}"
  obtains k ks v vs where "hkeys h = k # ks" "hvals h = v # vs" "length vs = length ks" "Peek h = Some (k, v)"
  using assms by (cases "hkeys h"; cases "hvals h") (auto simp: entries_def heap_ok_def paired_def Peek_def)

lemma Peek_ok:
  assumes "heap_ok h" "entries h \<noteq> {#}"
  shows "\<exists>x. Peek h = Some x \<and> x \<in># entries h \<and> (\<forall>y \<in># entries h. fst x \<le> fst y)"
proof -
  obtain k ks v vs where h: "hkeys h = k # ks" "hvals h = v # vs" "length vs = length ks" "Peek h = Some (k, v)"
    using entries_pair [OF assms] .
  have "k \<le> fst y" if "y \<in># entries h" for y
  proof -
    have "fst y \<in> set (hkeys h)" using that by (cases y) (auto simp: entries_def dest: set_zip_leftD)
    then obtain c where "c < length (hkeys h)" "fst y = hkeys h ! c" by (auto simp: in_set_conv_nth)
    then show ?thesis using ordered_root [of "hkeys h" c] assms(1) h(1) by (simp add: heap_ok_def)
  qed
  with h show ?thesis by (auto simp: entries_def)
qed

text \<open>Both operations put an entry at the root, from where it moves down.\<close>

lemma down_root:
  assumes "ordered (k # ks)" "length vs = length ks" "length ks < 2 ^ 61 - 1"
  shows "\<exists>h'. heap_down \<lparr>hkeys = k' # ks, hvals = v' # vs\<rparr> 0 = Some h' \<and> heap_ok h' \<and> entries h' = add_mset (k', v') (mset (zip ks vs))"
proof -
  let ?h = "\<lparr>hkeys = k' # ks, hvals = v' # vs\<rparr>"
  have "\<exists>h'. heap_down ?h (int 0) = Some h' \<and> heap_ok h' \<and> entries h' = entries ?h"
  proof (rule down_ok)
    show "hkeys ?h ! par c \<le> hkeys ?h ! c" if "c < length (hkeys ?h)" "0 < c" "par c \<noteq> 0" for c
      using that assms(1) by (auto simp: ordered_def nth_Cons' dest!: spec [of _ c])
  qed (use assms in \<open>auto simp: paired_def\<close>)
  then show ?thesis by (simp add: entries_def)
qed

lemma down_empty: "heap_down \<lparr>hkeys = [], hvals = []\<rparr> 0 = Some \<lparr>hkeys = [], hvals = []\<rparr>"
  by (subst heap_down.simps) (simp add: heapChildren_def wrap64_def Let_def Len_def)

lemma Update_ok:
  assumes "heap_ok h" "Peek h = Some x" "size (entries h) < 2 ^ 61"
  shows "\<exists>h'. heap_Update k v h = Some h' \<and> heap_ok h' \<and> entries h' = add_mset (k, v) (entries h - {#x#})"
proof -
  have "entries h \<noteq> {#}" using assms(1,2)
    by (cases "hkeys h") (auto simp: entries_def Peek_def heap_ok_def paired_def at_def zip_eq_Nil_iff)
  then obtain k0 ks v0 vs where h: "hkeys h = k0 # ks" "hvals h = v0 # vs" "length vs = length ks" "Peek h = Some (k0, v0)"
    using entries_pair [OF assms(1)] by blast
  have "ordered (k0 # ks)" using assms(1) h by (simp add: heap_ok_def)
  from down_root [OF this h(3)] show ?thesis using h assms(2,3) by (simp add: heap_Update_def set_at_def entries_def)
qed

lemma pop_entry_snoc:
  "length vs = length ks \<Longrightarrow> pop_entry \<lparr>hkeys = ks @ [k], hvals = vs @ [v]\<rparr> = Some ((k, v), \<lparr>hkeys = ks, hvals = vs\<rparr>)"
  by (simp add: pop_entry_def Len_def at_def Let_def nth_append)

lemma Pop_ok:
  assumes "heap_ok h" "entries h \<noteq> {#}" "size (entries h) < 2 ^ 61"
  shows "\<exists>x h'. heap_Pop h = Some (x, h') \<and> Peek h = Some x \<and> heap_ok h' \<and> entries h' = entries h - {#x#}"
proof -
  obtain k ks v vs where h: "hkeys h = k # ks" "hvals h = v # vs" "length vs = length ks" "Peek h = Some (k, v)"
    using entries_pair [OF assms(1,2)] .
  show ?thesis
  proof (cases ks rule: rev_cases)
    case Nil
    with h show ?thesis
      by (simp add: heap_Pop_def swap_at_def swap_list_def at_def Len_def pop_entry_def down_empty heap_ok_def paired_def ordered_def entries_def)
  next
    case (snoc ks' k')
    then obtain vs' v' where vs: "vs = vs' @ [v']" "length vs' = length ks'" using h(3) by (cases vs rule: rev_cases) auto
    have "ordered ((k # ks') @ [k'])" using assms(1) h snoc by (simp add: heap_ok_def)
    then have ord: "ordered (k # ks')" by (rule ordered_prefix)
    have end': "Len h - 1 = int (Suc (length ks'))" using h snoc by (simp add: Len_def)
    have swap: "swap_at h 0 (Len h - 1) = Some \<lparr>hkeys = k' # ks' @ [k], hvals = v' # vs' @ [v]\<rparr>"
      unfolding end' swap_at_def swap_list_def using h snoc vs
      by (cases h) (simp add: nth_append list_update_append del: of_nat_Suc)
    have "length ks' < 2 ^ 61 - 1" using assms(3) h snoc by (simp add: entries_def)
    from down_root [OF ord vs(2) this, of k' v'] show ?thesis
      using h snoc vs pop_entry_snoc [of "v' # vs'" "k' # ks'" k v] unfolding heap_Pop_def swap by (auto simp: entries_def)
  qed
qed


interpretation hq: priority_queue heap_ok entries "2 ^ 61" heap_Insert heap_Update Peek heap_Pop
proof unfold_locales
  fix q :: "('k::linorder, 'v) heap" and k v x
  assume q: "heap_ok q"
  show "succeeds (heap_Insert k v q) (\<lambda>q'. heap_ok q' \<and> entries q' = add_mset (k, v) (entries q))"
    using Insert_ok [OF q, of k v] by auto
  show "succeeds (Peek q) (\<lambda>x. x \<in># entries q \<and> (\<forall>y \<in># entries q. fst x \<le> fst y))" if "entries q \<noteq> {#}"
    using Peek_ok [OF q that] by auto
  show "succeeds (heap_Pop q) (\<lambda>(x, q'). Peek q = Some x \<and> heap_ok q' \<and> entries q' = entries q - {#x#})"
    if "entries q \<noteq> {#}" "size (entries q) < 2 ^ 61"
    using Pop_ok [OF q that] by auto
  show "succeeds (heap_Update k v q) (\<lambda>q'. heap_ok q' \<and> entries q' = add_mset (k, v) (entries q - {#x#}))"
    if "Peek q = Some x" "size (entries q) < 2 ^ 61"
    using Update_ok [OF q that, of k v] by auto
qed


section \<open>Merging\<close>

text \<open>The entries of the heap when \<open>rest i\<close> is left of the slice \<open>i\<close>.\<close>

definition queued :: "(int \<Rightarrow> 'e \<Rightarrow> 'k) \<Rightarrow> nat \<Rightarrow> (nat \<Rightarrow> 'e list) \<Rightarrow> ('k \<times> int \<times> 'e list) multiset" where
  "queued key n rest = image_mset (\<lambda>i. (key (int i) (hd (rest i)), int i, rest i)) (mset_set {i. i < n \<and> rest i \<noteq> []})"

lemma queued_0 [simp]: "queued key 0 rest = {#}"
  by (simp add: queued_def)

lemma queued_Suc:
  "queued key (Suc n) rest =
     (if rest n = [] then queued key n rest else add_mset (key (int n) (hd (rest n)), int n, rest n) (queued key n rest))"
proof -
  have "{i. i < Suc n \<and> rest i \<noteq> []} = (if rest n = [] then {i. i < n \<and> rest i \<noteq> []} else insert n {i. i < n \<and> rest i \<noteq> []})"
    by (auto simp: less_Suc_eq)
  then show ?thesis by (simp add: queued_def)
qed

lemma size_queued: "size (queued key n rest) \<le> n"
  by (induction n) (simp_all add: queued_Suc)

lemma queued_take:
  assumes "i < n" "rest i = e # es"
  shows "queued key n rest - {#(key (int i) e, int i, e # es)#} =
      queued key n (rest(i := [])) \<and>
    (es \<noteq> [] \<longrightarrow> queued key n (rest(i := es)) = add_mset (key (int i) (hd es), int i, es) (queued key n (rest(i := []))))"
proof -
  let ?A = "\<lambda>rest. {j. j < n \<and> rest j \<noteq> []}" and ?f = "\<lambda>rest j. (key (int j) (hd (rest j)), int j, rest j)"
  let ?B = "?A rest - {i}"
  have B: "?A (rest(i := [])) = ?B" "finite ?B" "i \<notin> ?B" by auto
  have same: "image_mset (?f (rest(i := xs))) (mset_set ?B) = image_mset (?f rest) (mset_set ?B)" for xs
    by (rule image_mset_cong) auto
  have ins: "queued key n (rest(i := xs)) = add_mset (key (int i) (hd xs), int i, xs) (image_mset (?f rest) (mset_set ?B))"
    if "xs \<noteq> []" for xs
  proof -
    have A: "?A (rest(i := xs)) = insert i ?B" using that assms(1) by auto
    show ?thesis unfolding queued_def A mset_set.insert [OF B(2,3)] image_mset_add_mset same by simp
  qed
  have "queued key n (rest(i := [])) = image_mset (?f rest) (mset_set ?B)"
    using same [of "[]"] by (simp only: queued_def B(1))
  moreover have "rest(i := e # es) = rest" using assms(2) by auto
  ultimately show ?thesis using ins [of "e # es"] ins [of es] by simp
qed

lemma preload_ok:
  assumes "heap_ok h" "entries h = queued key m (nth sls)" "m \<le> length sls" "length sls < 2 ^ 61 - 1"
  shows "\<exists>h'. preload key (int m) (drop m sls) h = Some h' \<and> heap_ok h' \<and> entries h' = queued key (length sls) (nth sls)"
  using assms
proof (induction "length sls - m" arbitrary: m h)
  case 0
  then show ?case by simp
next
  case (Suc x)
  then have m: "m < length sls" "drop m sls = sls ! m # drop (Suc m) sls" by (auto simp: Cons_nth_drop_Suc)
  have IH: "heap_ok h1 \<Longrightarrow> entries h1 = queued key (Suc m) (nth sls) \<Longrightarrow>
      \<exists>h'. preload key (int m + 1) (drop (Suc m) sls) h1 = Some h' \<and> heap_ok h' \<and> entries h' = queued key (length sls) (nth sls)" for h1
    using Suc.hyps(1) [of "Suc m" h1] Suc.hyps(2) Suc.prems(4) m(1) by (simp add: add.commute)
  show ?case
  proof (cases "sls ! m")
    case Nil
    then show ?thesis using IH [of h] Suc.prems m by (simp add: queued_Suc)
  next
    case (Cons e es)
    have "size (entries h) + 1 < 2 ^ 61" using size_queued [of key m "nth sls"] Suc.prems m(1) by simp
    then obtain h1 where "heap_Insert (key (int m) e) (int m, sls ! m) h = Some h1" "heap_ok h1"
        "entries h1 = add_mset (key (int m) e, int m, sls ! m) (entries h)"
      using hq.insert_entry [OF Suc.prems(1)] by blast
    then show ?thesis using IH [of h1] Suc.prems(2) m Cons by (simp add: queued_Suc)
  qed
qed

text \<open>The list of elements with the number of their slice is an interleaving of the slices.\<close>

definition interleaves :: "nat \<Rightarrow> (nat \<Rightarrow> 'e list) \<Rightarrow> (int \<times> 'e) list \<Rightarrow> bool" where
  "interleaves n rest tagged \<longleftrightarrow>
     (\<forall>i < n. map snd (filter (\<lambda>p. fst p = int i) tagged) = rest i) \<and> (\<forall>p \<in> set tagged. \<exists>i < n. fst p = int i)"

lemma interleaves_Cons:
  "i < n \<Longrightarrow> rest i = e # es \<Longrightarrow> interleaves n (rest(i := es)) tagged \<Longrightarrow> interleaves n rest ((int i, e) # tagged)"
  by (auto simp: interleaves_def split: if_splits)

lemma interleaves_mem: "interleaves n rest tagged \<Longrightarrow> p \<in> set tagged \<Longrightarrow> \<exists>i < n. fst p = int i \<and> snd p \<in> set (rest i)"
proof -
  assume *: "interleaves n rest tagged" "p \<in> set tagged"
  then obtain i where "i < n" "fst p = int i" by (auto simp: interleaves_def)
  moreover from this * have "snd p \<in> set (map snd (filter (\<lambda>p. fst p = int i) tagged))" by auto
  ultimately show ?thesis using * unfolding interleaves_def by metis
qed

lemma Len_entries: "heap_ok h \<Longrightarrow> Len h = int (size (entries h))"
  by (simp add: Len_def entries_def heap_ok_def paired_def)

lemma merge_loop_ok:
  fixes key :: "int \<Rightarrow> 'e \<Rightarrow> 'k::linorder"
  assumes "heap_ok h" "entries h = queued key n rest" "n < 2 ^ 61" "\<forall>i < n. sorted (map (key (int i)) (rest i))"
  shows "\<exists>tagged. merge_loop key mapper h out = Some (out @ map (\<lambda>(i, e). mapper i e) tagged) \<and>
    sorted (map (\<lambda>(i, e). key i e) tagged) \<and> interleaves n rest tagged"
  using assms
proof (induction "\<Sum>i < n. length (rest i)" arbitrary: h rest out rule: less_induct)
  case less
  show ?case
  proof (cases "entries h = {#}")
    case True
    then have "rest i = []" if "i < n" for i
      using that less.prems(2) by (auto simp: queued_def mset_set_empty_iff)
    moreover have "merge_loop key mapper h out = Some out"
      using True less.prems(1) by (subst merge_loop.simps) (simp add: Len_entries)
    ultimately show ?thesis by (intro exI [of _ "[]"]) (simp add: interleaves_def)
  next
    case False
    have size: "size (entries h) < 2 ^ 61" using size_queued [of key n rest] less.prems(2,3) by simp
    from hq.least_entry [OF less.prems(1) False size] obtain x h1 where x: "Peek h = Some x" "x \<in># entries h"
      "\<forall>y \<in># entries h. fst x \<le> fst y" "heap_Pop h = Some (x, h1)" "heap_ok h1" "entries h1 = entries h - {#x#}" .
    then obtain i e es where i: "i < n" "rest i = e # es" "x = (key (int i) e, int i, e # es)"
      by (cases "rest (nat (fst (snd x)))") (auto simp: less.prems(2) queued_def neq_Nil_conv)
    let ?rest = "rest(i := es)"
    note Q = queued_take [of i n rest e es key, OF i(1,2)]
    have "(\<Sum>j < n. length (?rest j)) < (\<Sum>j < n. length (rest j))"
      by (rule sum_strict_mono_ex1) (use i in auto)
    moreover have "\<forall>j < n. sorted (map (key (int j)) (?rest j))" using less.prems(4) i by auto
    ultimately have IH: "heap_ok h' \<Longrightarrow> entries h' = queued key n ?rest \<Longrightarrow>
      \<exists>tagged. merge_loop key mapper h' out' = Some (out' @ map (\<lambda>(i, e). mapper i e) tagged) \<and>
        sorted (map (\<lambda>(i, e). key i e) tagged) \<and> interleaves n ?rest tagged" for h' out'
      using less.hyps less.prems(3) by blast
    have "\<exists>h'. merge_loop key mapper h out = merge_loop key mapper h' (out @ [mapper (int i) e]) \<and>
      heap_ok h' \<and> entries h' = queued key n ?rest"
    proof (cases es)
      case Nil
      have "entries h1 = queued key n ?rest" using Q x(6) i(3) less.prems(2) Nil by simp
      moreover have "merge_loop key mapper h out = merge_loop key mapper h1 (out @ [mapper (int i) e])"
        using False x(1,4) i(3) Nil less.prems(1) by (subst merge_loop.simps) (simp add: Len_entries at_def)
      ultimately show ?thesis using x(5) by blast
    next
      case (Cons f fs)
      obtain h2 where h2: "heap_Update (key (int i) f) (int i, es) h = Some h2" "heap_ok h2"
        "entries h2 = add_mset (key (int i) f, int i, es) (entries h - {#x#})"
        using hq.replace_least [OF less.prems(1) x(1) size] by blast
      have "entries h2 = queued key n ?rest" using Q h2(3) i(3) less.prems(2) Cons by simp
      moreover have "merge_loop key mapper h out = merge_loop key mapper h2 (out @ [mapper (int i) e])"
        using False x(1) i(3) Cons h2(1) less.prems(1) by (subst merge_loop.simps) (simp add: Len_entries at_def)
      ultimately show ?thesis using h2(2) by blast
    qed
    then obtain h' tagged where run: "merge_loop key mapper h out = merge_loop key mapper h' (out @ [mapper (int i) e])"
      "merge_loop key mapper h' (out @ [mapper (int i) e]) = Some ((out @ [mapper (int i) e]) @ map (\<lambda>(i, e). mapper i e) tagged)"
      "sorted (map (\<lambda>(i, e). key i e) tagged)" "interleaves n ?rest tagged"
      using IH by metis
    have "key (int i) e \<le> key (fst p) (snd p)" if p: "p \<in> set tagged" for p
    proof -
      obtain j where j: "j < n" "fst p = int j" "snd p \<in> set (?rest j)" using interleaves_mem [OF run(4) p] by blast
      show ?thesis
      proof (cases "j = i")
        case True
        then show ?thesis using j i less.prems(4) by auto
      next
        case False
        then obtain f fs where f: "rest j = f # fs" "snd p \<in> set (f # fs)" using j(3) by (cases "rest j") auto
        then have "(key (int j) f, int j, rest j) \<in># entries h"
          using j(1) by (auto simp: less.prems(2) queued_def intro!: image_eqI [of _ _ j])
        then have "key (int i) e \<le> key (int j) f" using x(3) i(3) by auto
        also have "key (int j) f \<le> key (int j) (snd p)" using less.prems(4) j(1) f by fastforce
        finally show ?thesis using j(2) by simp
      qed
    qed
    then have "sorted (map (\<lambda>(i, e). key i e) ((int i, e) # tagged))" using run(3) by (auto simp: case_prod_beta)
    moreover have "interleaves n rest ((int i, e) # tagged)" by (rule interleaves_Cons [of i n rest e es, OF i(1,2) run(4)])
    ultimately show ?thesis using run(1,2) by (intro exI [of _ "(int i, e) # tagged"]) simp
  qed
qed


lemma MergeKeySeq_ok:
  fixes key :: "int \<Rightarrow> 'e \<Rightarrow> 'k::linorder"
  assumes "\<forall>i < length sls. sorted (map (key (int i)) (sls ! i))" "length sls < 2 ^ 61 - 1"
  shows "\<exists>tagged. MergeKeySeq sls key mapper = Some (map (\<lambda>(i, e). mapper i e) tagged) \<and>
    sorted (map (\<lambda>(i, e). key i e) tagged) \<and> interleaves (length sls) (nth sls) tagged"
proof -
  have "heap_ok NewHeap" "entries NewHeap = queued key 0 (nth sls)"
    by (simp_all add: NewHeap_def heap_ok_def paired_def ordered_def entries_def)
  from preload_ok [OF this _ assms(2)] obtain h where h: "preload key 0 sls NewHeap = Some h" "heap_ok h"
    "entries h = queued key (length sls) (nth sls)" by auto
  from merge_loop_ok [OF h(2,3) _ assms(1), of mapper "[]"] assms(2) h(1) show ?thesis by (simp add: MergeKeySeq_def)
qed

text \<open>C39: the merge of sorted slices is sorted and loses nothing. If every slice is sorted by its keys, \<open>MergeKey\<close>
  returns without a panic; its result lists the elements of all slices in the order of their keys, and those of
  one slice in the order in which they stand there. The number of slices is bounded by the range of Go's indices.\<close>

theorem MergeKey_merges:
  fixes key :: "int \<Rightarrow> 'e \<Rightarrow> 'k::linorder"
  assumes "\<forall>i < length s. sorted (map (key (int i)) (s ! i))" "length s < 2 ^ 61 - 1"
  shows "\<exists>tagged. MergeKey s key = Some (map snd tagged) \<and> sorted (map (\<lambda>(i, e). key i e) tagged) \<and>
    interleaves (length s) (nth s) tagged"
proof (cases s rule: remdups_adj.cases)
  case 1
  then show ?thesis by (auto simp: MergeKey_def interleaves_def)
next
  case (2 sl)
  let ?tagged = "map (Pair 0) sl :: (int \<times> 'e) list"
  have "map snd ?tagged = sl" "map (\<lambda>(i, e). key i e) ?tagged = map (key 0) sl" by (simp_all add: comp_def)
  moreover have "interleaves (length s) (nth s) ?tagged" using 2 by (simp add: interleaves_def comp_def)
  ultimately show ?thesis using 2 assms(1) by (intro exI [of _ ?tagged]) (auto simp: MergeKey_def comp_def)
next
  case (3 x y xs)
  then have "MergeKey s key = MergeKeySeq s key (\<lambda>_ e. e)" by (simp add: MergeKey_def)
  with MergeKeySeq_ok [OF assms, of "\<lambda>_ e. e"] show ?thesis by (simp add: case_prod_beta')
qed

declare heap_down.simps [code] merge_loop.simps [code]

definition demo_slices :: "int list list" where
  "demo_slices = [[1, 4, 6], [], [2, 4], [0]]"

theorem MergeKey_merges_witness:
  "MergeKey demo_slices (\<lambda>_ e. e) = Some [0, 1, 2, 4, 4, 6] \<and>
   (\<exists>tagged. map snd tagged = [0, 1, 2, 4, 4, 6] \<and> interleaves 4 (nth demo_slices) tagged)"
proof -
  have run: "MergeKey demo_slices (\<lambda>_ e. e) = Some [0, 1, 2, 4, 4, 6]" by code_simp
  have len: "length demo_slices = 4" by (simp add: demo_slices_def)
  have "\<forall>i < length demo_slices. sorted (map (\<lambda>e. e) (demo_slices ! i))"
    by (auto simp: demo_slices_def less_Suc_eq)
  from MergeKey_merges [OF this] run show ?thesis unfolding len by force
qed

end
