(* ===== verification/Walk.thy ===== *)
theory Walk
  imports Prelude
begin

text \<open>
  Descriptor hierarchies and their traversal: \<open>walk/walk.go\<close> and the field numbers of
  \<open>internal/tags/generated.go\<close> it puts into source paths.

  A descriptor proto is modelled by what the traversal reads: names and the repeated fields that
  hold nested elements, over an arbitrary payload \<open>'a\<close> for the rest of each message. The same
  shapes serve the linked descriptors (\<open>protoreflect.Descriptor\<close>), whose name field then holds
  the full name.

  The callbacks may change state and stop the traversal with an error: they are actions
  \<open>('s, 'e) act\<close> that return an optional error and the next state.
\<close>

section \<open>Descriptor hierarchies\<close>

datatype 'a leaf = Leaf (leaf_name: string) (leaf_data: 'a)

datatype 'a enump = EnumP (en_name: string) (en_data: 'a) (en_values: "'a leaf list")

datatype 'a msgp = MsgP (msg_name: string) (msg_data: 'a) (msg_fields: "'a leaf list")
  (msg_oneofs: "'a leaf list") (msg_nested: "'a msgp list") (msg_enums: "'a enump list")
  (msg_exts: "'a leaf list")

datatype 'a svcp = SvcP (svc_name: string) (svc_data: 'a) (svc_methods: "'a leaf list")

record 'a filep =
  fpackage :: string
  fmessages :: "'a msgp list"
  fenums :: "'a enump list"
  fexts :: "'a leaf list"
  fservices :: "'a svcp list"

datatype 'a elem = EMessage "'a msgp" | EField "'a leaf" | EOneof "'a leaf" | EEnum "'a enump"
  | EValue "'a leaf" | EExtension "'a leaf" | EService "'a svcp" | EMethod "'a leaf"

section \<open>Actions\<close>

type_synonym ('s, 'e) act = "'s \<Rightarrow> 'e option \<times> 's"

definition skip :: "('s, 'e) act" where
  "skip s = (None, s)"

definition andThen :: "('s, 'e) act \<Rightarrow> ('s, 'e) act \<Rightarrow> ('s, 'e) act" where
  "andThen a b s = (case a s of (None, s') \<Rightarrow> b s' | (Some e, s') \<Rightarrow> (Some e, s'))"

primrec run_all :: "('s, 'e) act list \<Rightarrow> ('s, 'e) act" where
  "run_all [] = skip"
| "run_all (a # as) = andThen a (run_all as)"

lemma andThen_skip [simp]: "andThen skip a = a" "andThen a skip = a"
  by (auto simp: andThen_def skip_def fun_eq_iff split: prod.splits option.splits)

lemma andThen_assoc: "andThen (andThen a b) c = andThen a (andThen b c)"
  by (auto simp: andThen_def fun_eq_iff split: prod.splits option.splits)

lemma run_all_append [simp]: "run_all (as @ bs) = andThen (run_all as) (run_all bs)"
  by (induction as) (simp_all add: andThen_assoc)

lemma run_all_concat: "run_all (concat xss) = run_all (map run_all xss)"
  by (induction xss) simp_all

section \<open>Field numbers of the descriptor protos\<close>

type_synonym source_path = "int list"

definition File_MessageType :: int where "File_MessageType = 4"
definition File_EnumType :: int where "File_EnumType = 5"
definition File_Service :: int where "File_Service = 6"
definition File_Extension :: int where "File_Extension = 7"
definition Message_Field :: int where "Message_Field = 2"
definition Message_NestedType :: int where "Message_NestedType = 3"
definition Message_EnumType :: int where "Message_EnumType = 4"
definition Message_Extension :: int where "Message_Extension = 6"
definition Message_OneofDecl :: int where "Message_OneofDecl = 8"
definition Enum_Value :: int where "Enum_Value = 2"
definition Service_Method :: int where "Service_Method = 2"

lemmas tag_defs = File_MessageType_def File_EnumType_def File_Service_def File_Extension_def
  Message_Field_def Message_NestedType_def Message_EnumType_def Message_Extension_def
  Message_OneofDecl_def Enum_Value_def Service_Method_def

section \<open>Walking linked descriptors\<close>

text \<open>\<open>DescriptorsEnterAndExit\<close> and its parts; the exit callback is optional, as the Go
  function value may be nil.\<close>

definition call_exit :: "('x \<Rightarrow> ('s, 'e) act) option \<Rightarrow> 'x \<Rightarrow> ('s, 'e) act" where
  "call_exit exit x = (case exit of None \<Rightarrow> skip | Some f \<Rightarrow> f x)"

definition visit_leaves ::
  "('x \<Rightarrow> ('s, 'e) act) \<Rightarrow> ('x \<Rightarrow> ('s, 'e) act) option \<Rightarrow> 'x list \<Rightarrow> ('s, 'e) act" where
  "visit_leaves enter exit xs = run_all (map (\<lambda>x. andThen (enter x) (call_exit exit x)) xs)"

definition enumDescriptor ::
  "('a elem \<Rightarrow> ('s, 'e) act) \<Rightarrow> ('a elem \<Rightarrow> ('s, 'e) act) option \<Rightarrow> 'a enump \<Rightarrow> ('s, 'e) act" where
  "enumDescriptor enter exit en =
     andThen (enter (EEnum en))
       (andThen (visit_leaves enter exit (map EValue (en_values en))) (call_exit exit (EEnum en)))"

fun messageDescriptor ::
  "('a elem \<Rightarrow> ('s, 'e) act) \<Rightarrow> ('a elem \<Rightarrow> ('s, 'e) act) option \<Rightarrow> 'a msgp \<Rightarrow> ('s, 'e) act"
and walkContainer ::
  "('a elem \<Rightarrow> ('s, 'e) act) \<Rightarrow> ('a elem \<Rightarrow> ('s, 'e) act) option \<Rightarrow>
   'a msgp list \<Rightarrow> 'a enump list \<Rightarrow> 'a leaf list \<Rightarrow> ('s, 'e) act" where
  "messageDescriptor enter exit (MsgP n d flds oneofs nested enums exts) =
     andThen (enter (EMessage (MsgP n d flds oneofs nested enums exts)))
       (andThen (visit_leaves enter exit (map EField flds))
         (andThen (visit_leaves enter exit (map EOneof oneofs))
           (andThen (walkContainer enter exit nested enums exts)
             (call_exit exit (EMessage (MsgP n d flds oneofs nested enums exts))))))"
| "walkContainer enter exit [] enums exts =
     andThen (run_all (map (enumDescriptor enter exit) enums))
       (visit_leaves enter exit (map EExtension exts))"
| "walkContainer enter exit (msg # msgs) enums exts =
     andThen (messageDescriptor enter exit msg) (walkContainer enter exit msgs enums exts)"

definition serviceDescriptor ::
  "('a elem \<Rightarrow> ('s, 'e) act) \<Rightarrow> ('a elem \<Rightarrow> ('s, 'e) act) option \<Rightarrow> 'a svcp \<Rightarrow> ('s, 'e) act" where
  "serviceDescriptor enter exit svc =
     andThen (enter (EService svc))
       (andThen (visit_leaves enter exit (map EMethod (svc_methods svc))) (call_exit exit (EService svc)))"

definition DescriptorsEnterAndExit ::
  "'a filep \<Rightarrow> ('a elem \<Rightarrow> ('s, 'e) act) \<Rightarrow> ('a elem \<Rightarrow> ('s, 'e) act) option \<Rightarrow> ('s, 'e) act" where
  "DescriptorsEnterAndExit file enter exit =
     andThen (walkContainer enter exit (fmessages file) (fenums file) (fexts file))
       (run_all (map (serviceDescriptor enter exit) (fservices file)))"

definition Descriptors :: "'a filep \<Rightarrow> ('a elem \<Rightarrow> ('s, 'e) act) \<Rightarrow> ('s, 'e) act" where
  "Descriptors file fn = DescriptorsEnterAndExit file fn None"

section \<open>Walking descriptor protos\<close>

type_synonym 'a visit = "full_name \<times> source_path \<times> 'a elem"

record ('a, 's, 'e) protoWalker =
  usePath :: bool
  enter :: "'a visit \<Rightarrow> ('s, 'e) act"
  exit :: "('a visit \<Rightarrow> ('s, 'e) act) option"

definition sub_path :: "('a, 's, 'e) protoWalker \<Rightarrow> source_path \<Rightarrow> int \<Rightarrow> nat \<Rightarrow> source_path" where
  "sub_path w path tag i = (if usePath w then path @ [tag, int i] else [])"

text \<open>One of the loops over fields, oneofs, enum values, extensions or methods.\<close>

definition walk_leaves ::
  "('a, 's, 'e) protoWalker \<Rightarrow> string \<Rightarrow> source_path \<Rightarrow> int \<Rightarrow> ('a leaf \<Rightarrow> 'a elem) \<Rightarrow>
   'a leaf list \<Rightarrow> ('s, 'e) act" where
  "walk_leaves w prefix path tag con leaves =
     visit_leaves (enter w) (exit w)
       (map (\<lambda>(i, l). (prefix @ leaf_name l, sub_path w path tag i, con l)) (enumerate 0 leaves))"

definition walkEnumDescriptorProto ::
  "('a, 's, 'e) protoWalker \<Rightarrow> string \<Rightarrow> source_path \<Rightarrow> 'a enump \<Rightarrow> ('s, 'e) act" where
  "walkEnumDescriptorProto w prefix path en =
     (let fqn = prefix @ en_name en
      in andThen (enter w (fqn, path, EEnum en))
           (andThen (walk_leaves w prefix path Enum_Value EValue (en_values en))
             (call_exit (exit w) (fqn, path, EEnum en))))"

definition walk_enums ::
  "('a, 's, 'e) protoWalker \<Rightarrow> string \<Rightarrow> source_path \<Rightarrow> int \<Rightarrow> 'a enump list \<Rightarrow> ('s, 'e) act" where
  "walk_enums w prefix path tag enums =
     run_all (map (\<lambda>(i, en). walkEnumDescriptorProto w prefix (sub_path w path tag i) en)
       (enumerate 0 enums))"

fun walkDescriptorProto ::
  "('a, 's, 'e) protoWalker \<Rightarrow> string \<Rightarrow> source_path \<Rightarrow> 'a msgp \<Rightarrow> ('s, 'e) act"
and walk_messages ::
  "('a, 's, 'e) protoWalker \<Rightarrow> string \<Rightarrow> source_path \<Rightarrow> int \<Rightarrow> nat \<Rightarrow> 'a msgp list \<Rightarrow> ('s, 'e) act" where
  "walkDescriptorProto w prefix path (MsgP n d flds oneofs nested enums exts) =
     (let msg = MsgP n d flds oneofs nested enums exts;
          fqn = prefix @ n;
          prefix = fqn @ ''.''
      in andThen (enter w (fqn, path, EMessage msg))
           (andThen (walk_leaves w prefix path Message_Field EField flds)
             (andThen (walk_leaves w prefix path Message_OneofDecl EOneof oneofs)
               (andThen (walk_messages w prefix path Message_NestedType 0 nested)
                 (andThen (walk_enums w prefix path Message_EnumType enums)
                   (andThen (walk_leaves w prefix path Message_Extension EExtension exts)
                     (call_exit (exit w) (fqn, path, EMessage msg))))))))"
| "walk_messages w prefix path tag i [] = skip"
| "walk_messages w prefix path tag i (m # ms) =
     andThen (walkDescriptorProto w prefix (sub_path w path tag i) m)
       (walk_messages w prefix path tag (Suc i) ms)"

definition walk_service ::
  "('a, 's, 'e) protoWalker \<Rightarrow> string \<Rightarrow> source_path \<Rightarrow> 'a svcp \<Rightarrow> ('s, 'e) act" where
  "walk_service w prefix p svc =
     (let fqn = prefix @ svc_name svc
      in andThen (enter w (fqn, p, EService svc))
           (andThen (walk_leaves w (fqn @ ''.'') p Service_Method EMethod (svc_methods svc))
             (call_exit (exit w) (fqn, p, EService svc))))"

definition filep_prefix :: "'a filep \<Rightarrow> string" where
  "filep_prefix file = (if fpackage file \<noteq> [] then fpackage file @ ''.'' else [])"

definition walkDescriptorProtos :: "('a, 's, 'e) protoWalker \<Rightarrow> 'a filep \<Rightarrow> ('s, 'e) act" where
  "walkDescriptorProtos w file =
     (let prefix = filep_prefix file
      in andThen (walk_messages w prefix [] File_MessageType 0 (fmessages file))
           (andThen (walk_enums w prefix [] File_EnumType (fenums file))
             (andThen (walk_leaves w prefix [] File_Extension EExtension (fexts file))
               (run_all (map (\<lambda>(i, svc). walk_service w prefix (sub_path w [] File_Service i) svc)
                  (enumerate 0 (fservices file)))))))"

definition DescriptorProtosWithPathEnterAndExit ::
  "'a filep \<Rightarrow> ('a visit \<Rightarrow> ('s, 'e) act) \<Rightarrow> ('a visit \<Rightarrow> ('s, 'e) act) option \<Rightarrow> ('s, 'e) act" where
  "DescriptorProtosWithPathEnterAndExit file en ex =
     walkDescriptorProtos \<lparr>usePath = True, enter = en, exit = ex\<rparr> file"

definition DescriptorProtosWithPath :: "'a filep \<Rightarrow> ('a visit \<Rightarrow> ('s, 'e) act) \<Rightarrow> ('s, 'e) act" where
  "DescriptorProtosWithPath file fn = DescriptorProtosWithPathEnterAndExit file fn None"

definition DescriptorProtosEnterAndExit ::
  "'a filep \<Rightarrow> (full_name \<times> 'a elem \<Rightarrow> ('s, 'e) act) \<Rightarrow>
   (full_name \<times> 'a elem \<Rightarrow> ('s, 'e) act) option \<Rightarrow> ('s, 'e) act" where
  "DescriptorProtosEnterAndExit file en ex =
     walkDescriptorProtos \<lparr>usePath = False, enter = (\<lambda>(n, _, m). en (n, m)),
       exit = map_option (\<lambda>f (n, _, m). f (n, m)) ex\<rparr> file"

definition DescriptorProtos :: "'a filep \<Rightarrow> (full_name \<times> 'a elem \<Rightarrow> ('s, 'e) act) \<Rightarrow> ('s, 'e) act" where
  "DescriptorProtos file fn = DescriptorProtosEnterAndExit file fn None"

section \<open>The specification: a list of events\<close>

text \<open>What a traversal with paths has to do, as the list of its callbacks in order.\<close>

datatype 'v event = Enter 'v | Exit 'v

definition ev_leaves :: "string \<Rightarrow> source_path \<Rightarrow> int \<Rightarrow> ('a leaf \<Rightarrow> 'a elem) \<Rightarrow> 'a leaf list \<Rightarrow> 'a visit event list" where
  "ev_leaves prefix path tag con leaves =
     concat (map (\<lambda>(i, l). let v = (prefix @ leaf_name l, path @ [tag, int i], con l) in [Enter v, Exit v])
       (enumerate 0 leaves))"

definition bracket :: "'v \<Rightarrow> 'v event list \<Rightarrow> 'v event list" where
  "bracket v es = Enter v # es @ [Exit v]"

definition ev_enum :: "string \<Rightarrow> source_path \<Rightarrow> 'a enump \<Rightarrow> 'a visit event list" where
  "ev_enum prefix path en =
     bracket (prefix @ en_name en, path, EEnum en) (ev_leaves prefix path Enum_Value EValue (en_values en))"

definition ev_enums :: "string \<Rightarrow> source_path \<Rightarrow> int \<Rightarrow> 'a enump list \<Rightarrow> 'a visit event list" where
  "ev_enums prefix path tag enums =
     concat (map (\<lambda>(i, en). ev_enum prefix (path @ [tag, int i]) en) (enumerate 0 enums))"

fun ev_message :: "string \<Rightarrow> source_path \<Rightarrow> 'a msgp \<Rightarrow> 'a visit event list"
and ev_messages :: "string \<Rightarrow> source_path \<Rightarrow> int \<Rightarrow> nat \<Rightarrow> 'a msgp list \<Rightarrow> 'a visit event list" where
  "ev_message prefix path (MsgP n d flds oneofs nested enums exts) =
     (let fqn = prefix @ n; prefix = fqn @ ''.''
      in bracket (fqn, path, EMessage (MsgP n d flds oneofs nested enums exts))
           (ev_leaves prefix path Message_Field EField flds @
            ev_leaves prefix path Message_OneofDecl EOneof oneofs @
            ev_messages prefix path Message_NestedType 0 nested @
            ev_enums prefix path Message_EnumType enums @
            ev_leaves prefix path Message_Extension EExtension exts))"
| "ev_messages prefix path tag i [] = []"
| "ev_messages prefix path tag i (m # ms) =
     ev_message prefix (path @ [tag, int i]) m @ ev_messages prefix path tag (Suc i) ms"

definition ev_service :: "string \<Rightarrow> source_path \<Rightarrow> 'a svcp \<Rightarrow> 'a visit event list" where
  "ev_service prefix path svc =
     (let fqn = prefix @ svc_name svc
      in bracket (fqn, path, EService svc)
           (ev_leaves (fqn @ ''.'') path Service_Method EMethod (svc_methods svc)))"

definition ev_file :: "'a filep \<Rightarrow> 'a visit event list" where
  "ev_file file =
     (let prefix = filep_prefix file
      in ev_messages prefix [] File_MessageType 0 (fmessages file) @
         ev_enums prefix [] File_EnumType (fenums file) @
         ev_leaves prefix [] File_Extension EExtension (fexts file) @
         concat (map (\<lambda>(i, svc). ev_service prefix [File_Service, int i] svc) (enumerate 0 (fservices file))))"

fun callback :: "('v \<Rightarrow> ('s, 'e) act) \<Rightarrow> ('v \<Rightarrow> ('s, 'e) act) option \<Rightarrow> 'v event \<Rightarrow> ('s, 'e) act" where
  "callback en ex (Enter v) = en v"
| "callback en ex (Exit v) = call_exit ex v"

abbreviation run_events :: "('v \<Rightarrow> ('s, 'e) act) \<Rightarrow> ('v \<Rightarrow> ('s, 'e) act) option \<Rightarrow> 'v event list \<Rightarrow> ('s, 'e) act" where
  "run_events en ex es \<equiv> run_all (map (callback en ex) es)"

subsection \<open>The traversal runs its events\<close>

lemma run_bracket: "run_events en ex (bracket v es) = andThen (en v) (andThen (run_events en ex es) (call_exit ex v))"
  by (simp add: bracket_def)

lemma run_concat: "run_events en ex (concat ess) = run_all (map (run_events en ex) ess)"
  by (induction ess) simp_all

text \<open>A walker that does not track paths passes the empty path to its callbacks.\<close>

definition up :: "('a, 's, 'e) protoWalker \<Rightarrow> source_path \<Rightarrow> source_path" where
  "up w path = (if usePath w then path else [])"

definition up_enter :: "('a, 's, 'e) protoWalker \<Rightarrow> 'a visit \<Rightarrow> ('s, 'e) act" where
  "up_enter w = (\<lambda>(n, path, e). enter w (n, up w path, e))"

definition up_exit :: "('a, 's, 'e) protoWalker \<Rightarrow> ('a visit \<Rightarrow> ('s, 'e) act) option" where
  "up_exit w = map_option (\<lambda>f (n, path, e). f (n, up w path, e)) (exit w)"

abbreviation run_walk :: "('a, 's, 'e) protoWalker \<Rightarrow> 'a visit event list \<Rightarrow> ('s, 'e) act" where
  "run_walk w es \<equiv> run_events (up_enter w) (up_exit w) es"

lemma call_up_exit [simp]: "call_exit (up_exit w) (n, path, e) = call_exit (exit w) (n, up w path, e)"
  by (cases "exit w") (simp_all add: call_exit_def up_exit_def)

lemma up_enter_apply [simp]: "up_enter w (n, path, e) = enter w (n, up w path, e)"
  by (simp add: up_enter_def)

lemma sub_path_up [simp]: "sub_path w (up w path) tag i = up w (path @ [tag, int i])"
  by (simp add: sub_path_def up_def)

lemma walk_leaves_events:
  "walk_leaves w prefix (up w path) tag con ls = run_walk w (ev_leaves prefix path tag con ls)"
  by (simp add: walk_leaves_def visit_leaves_def ev_leaves_def run_concat case_prod_beta' Let_def comp_def)

lemma walk_enums_events:
  "walk_enums w prefix (up w path) tag ens = run_walk w (ev_enums prefix path tag ens)"
  by (simp add: walk_enums_def ev_enums_def run_concat walkEnumDescriptorProto_def ev_enum_def
      run_bracket walk_leaves_events case_prod_beta' Let_def comp_def)

lemma walk_messages_events:
  fixes w :: "('a, 's, 'e) protoWalker" and m :: "'a msgp" and ms :: "'a msgp list"
  shows "walkDescriptorProto w prefix (up w path) m = run_walk w (ev_message prefix path m)"
    and "walk_messages w prefix (up w path) tag i ms = run_walk w (ev_messages prefix path tag i ms)"
  by (induction prefix path m and prefix path tag i ms rule: ev_message_ev_messages.induct)
     (simp_all add: Let_def run_bracket walk_leaves_events walk_enums_events andThen_assoc)

lemma walkDescriptorProtos_events: "walkDescriptorProtos w file = run_walk w (ev_file file)"
proof -
  have root: "[] = up w []" by (simp add: up_def)
  have svc: "walk_service w prefix (sub_path w [] File_Service i) svc =
      run_walk w (ev_service prefix [File_Service, int i] svc)" for prefix i svc
    by (subst root, subst sub_path_up)
       (simp add: walk_service_def ev_service_def run_bracket walk_leaves_events Let_def)
  show ?thesis
    unfolding walkDescriptorProtos_def ev_file_def Let_def svc
    by (subst (1 2 3) root)
       (simp add: walk_messages_events walk_leaves_events walk_enums_events run_concat case_prod_beta' comp_def)
qed

lemma run_walk_usePath: "usePath w \<Longrightarrow> run_walk w es = run_events (enter w) (exit w) es"
proof -
  assume "usePath w"
  then have "up_enter w = enter w" "up_exit w = exit w"
    by (auto simp: up_enter_def up_exit_def up_def option.map_id0 [unfolded id_def])
  then show ?thesis by simp
qed

subsection \<open>What the events are\<close>

text \<open>The element a source path leads to.\<close>

definition leaf_at :: "('a leaf \<Rightarrow> 'a elem) \<Rightarrow> 'a leaf list \<Rightarrow> int \<Rightarrow> source_path \<Rightarrow> 'a elem option" where
  "leaf_at con ls i rest =
     (if rest = [] \<and> 0 \<le> i \<and> i < int (length ls) then Some (con (ls ! nat i)) else None)"

definition enum_at :: "'a enump \<Rightarrow> source_path \<Rightarrow> 'a elem option" where
  "enum_at en path =
     (case path of [] \<Rightarrow> Some (EEnum en)
      | t # i # rest \<Rightarrow> if t = Enum_Value then leaf_at EValue (en_values en) i rest else None
      | _ \<Rightarrow> None)"

definition enums_at :: "'a enump list \<Rightarrow> int \<Rightarrow> source_path \<Rightarrow> 'a elem option" where
  "enums_at ens i rest = (if 0 \<le> i \<and> i < int (length ens) then enum_at (ens ! nat i) rest else None)"

fun message_at :: "'a msgp \<Rightarrow> source_path \<Rightarrow> 'a elem option"
and messages_at :: "'a msgp list \<Rightarrow> int \<Rightarrow> source_path \<Rightarrow> 'a elem option" where
  "message_at (MsgP n d flds oneofs nested enums exts) path =
     (case path of [] \<Rightarrow> Some (EMessage (MsgP n d flds oneofs nested enums exts))
      | t # i # rest \<Rightarrow>
          if t = Message_Field then leaf_at EField flds i rest
          else if t = Message_OneofDecl then leaf_at EOneof oneofs i rest
          else if t = Message_NestedType then messages_at nested i rest
          else if t = Message_EnumType then enums_at enums i rest
          else if t = Message_Extension then leaf_at EExtension exts i rest else None
      | _ \<Rightarrow> None)"
| "messages_at [] i rest = None"
| "messages_at (m # ms) i rest = (if i = 0 then message_at m rest else messages_at ms (i - 1) rest)"

lemma messages_at_neg: "i < 0 \<Longrightarrow> messages_at ms i rest = None"
  by (induction ms arbitrary: i) auto

definition service_at :: "'a svcp \<Rightarrow> source_path \<Rightarrow> 'a elem option" where
  "service_at svc path =
     (case path of [] \<Rightarrow> Some (EService svc)
      | t # i # rest \<Rightarrow> if t = Service_Method then leaf_at EMethod (svc_methods svc) i rest else None
      | _ \<Rightarrow> None)"

definition file_at :: "'a filep \<Rightarrow> source_path \<Rightarrow> 'a elem option" where
  "file_at file path =
     (case path of t # i # rest \<Rightarrow>
          if t = File_MessageType then messages_at (fmessages file) i rest
          else if t = File_EnumType then enums_at (fenums file) i rest
          else if t = File_Extension then leaf_at EExtension (fexts file) i rest
          else if t = File_Service \<and> 0 \<le> i \<and> i < int (length (fservices file))
            then service_at (fservices file ! nat i) rest else None
      | _ \<Rightarrow> None)"

text \<open>\<open>visits es path at\<close>: the elements entered by \<open>es\<close> are exactly those that \<open>at\<close> finds,
  each under its path below \<open>path\<close>.\<close>

definition entered :: "'a visit event list \<Rightarrow> (source_path \<times> 'a elem) set" where
  "entered es = {(p, e). \<exists>fqn. Enter (fqn, p, e) \<in> set es}"

definition found :: "source_path \<Rightarrow> (source_path \<Rightarrow> 'a elem option) \<Rightarrow> (source_path \<times> 'a elem) set" where
  "found path at = {(path @ r, e) |r e. at r = Some e}"

definition visits :: "'a visit event list \<Rightarrow> source_path \<Rightarrow> (source_path \<Rightarrow> 'a elem option) \<Rightarrow> bool" where
  "visits es path at \<longleftrightarrow> entered es = found path at"

lemma visitsI:
  assumes "\<And>fqn p e. Enter (fqn, p, e) \<in> set es \<Longrightarrow> \<exists>rest. p = path @ rest \<and> at rest = Some e"
    and "\<And>rest e. at rest = Some e \<Longrightarrow> \<exists>fqn. Enter (fqn, path @ rest, e) \<in> set es"
  shows "visits es path at"
  using assms unfolding visits_def entered_def found_def by fast

lemma entered_append [simp]: "entered (es @ es') = entered es \<union> entered es'"
  by (auto simp: entered_def)

lemma entered_Nil [simp]: "entered [] = {}"
  by (simp add: entered_def)

lemma entered_bracket [simp]: "entered (bracket (fqn, p, e) es) = insert (p, e) (entered es)"
  by (auto simp: entered_def bracket_def)

text \<open>The part of a path below a repeated field, and below one of its elements.\<close>

definition sel :: "int \<Rightarrow> (int \<Rightarrow> source_path \<Rightarrow> 'b option) \<Rightarrow> source_path \<Rightarrow> 'b option" where
  "sel tag f r = (case r of t # j # rest \<Rightarrow> if t = tag then f j rest else None | _ \<Rightarrow> None)"

lemma sel_Some: "sel tag f r = Some e \<longleftrightarrow> (\<exists>j rest. r = tag # j # rest \<and> f j rest = Some e)"
  by (auto simp: sel_def split: list.splits)

lemma visitsD: "visits es path f \<Longrightarrow> entered es = {(path @ r, e) |r e. f r = Some e}"
  by (simp add: visits_def found_def)

lemma visits_leaves: "visits (ev_leaves prefix path tag con ls) path (sel tag (leaf_at con ls))"
proof (rule visitsI)
  fix fqn p e
  assume "Enter (fqn, p, e) \<in> set (ev_leaves prefix path tag con ls)"
  then obtain i where "i < length ls" "p = path @ [tag, int i]" "e = con (ls ! i)"
    by (auto simp: ev_leaves_def in_set_enumerate_eq Let_def)
  then show "\<exists>rest. p = path @ rest \<and> sel tag (leaf_at con ls) rest = Some e"
    by (auto simp: leaf_at_def sel_Some)
next
  fix rest e
  assume "sel tag (leaf_at con ls) rest = Some e"
  then obtain i where "rest = [tag, i]" "0 \<le> i" "i < int (length ls)" "e = con (ls ! nat i)"
    by (auto simp: leaf_at_def sel_Some split: if_splits)
  then show "\<exists>fqn. Enter (fqn, path @ rest, e) \<in> set (ev_leaves prefix path tag con ls)"
    by (auto simp: ev_leaves_def in_set_enumerate_eq Let_def intro!: bexI [of _ "(nat i, ls ! nat i)"])
qed

lemma enum_at_Some:
  "enum_at en r = Some e \<longleftrightarrow> r = [] \<and> e = EEnum en \<or> sel Enum_Value (leaf_at EValue (en_values en)) r = Some e"
  by (auto simp: enum_at_def sel_Some split: list.splits)

lemma visits_enum: "visits (ev_enum prefix path en) path (enum_at en)"
  using visitsD [OF visits_leaves [of prefix path Enum_Value EValue "en_values en"]]
  by (auto simp: visits_def found_def ev_enum_def enum_at_Some)

lemma visits_concat:
  assumes "\<And>i x. i < length xs \<Longrightarrow> x = xs ! i \<Longrightarrow> visits (g i x) (path @ [tag, int i]) (f x)"
  shows "visits (concat (map (\<lambda>(i, x). g i x) (enumerate 0 xs))) path
    (sel tag (\<lambda>j rest. if 0 \<le> j \<and> j < int (length xs) then f (xs ! nat j) rest else None))"
    (is "visits _ _ ?at")
proof (rule visitsI)
  fix fqn p e
  assume "Enter (fqn, p, e) \<in> set (concat (map (\<lambda>(i, x). g i x) (enumerate 0 xs)))"
  then obtain i where i: "i < length xs" "Enter (fqn, p, e) \<in> set (g i (xs ! i))"
    by (auto simp: in_set_enumerate_eq)
  then have "(p, e) \<in> entered (g i (xs ! i))" by (auto simp: entered_def)
  then obtain r where "p = path @ [tag, int i] @ r" "f (xs ! i) r = Some e"
    using visitsD [OF assms [OF i(1) refl]] by auto
  then show "\<exists>rest. p = path @ rest \<and> ?at rest = Some e"
    using i(1) by (intro exI [of _ "[tag, int i] @ r"]) (simp add: sel_Some)
next
  fix rest e
  assume "?at rest = Some e"
  then obtain j r where j: "rest = tag # j # r" "0 \<le> j" "j < int (length xs)" "f (xs ! nat j) r = Some e"
    by (auto simp: sel_Some split: if_splits)
  then have "nat j < length xs" by simp
  then have "(path @ rest, e) \<in> entered (g (nat j) (xs ! nat j))"
    using visitsD [OF assms [OF _ refl, of "nat j"]] j by auto
  then show "\<exists>fqn. Enter (fqn, path @ rest, e) \<in> set (concat (map (\<lambda>(i, x). g i x) (enumerate 0 xs)))"
    using \<open>nat j < length xs\<close>
    by (fastforce simp: entered_def in_set_enumerate_eq intro!: bexI [of _ "(nat j, xs ! nat j)"])
qed

lemma visits_enums: "visits (ev_enums prefix path tag ens) path (sel tag (enums_at ens))"
  unfolding ev_enums_def enums_at_def by (rule visits_concat) (rule visits_enum)

lemma message_at_Some:
  "message_at (MsgP n d flds oneofs nested enums exts) r = Some e \<longleftrightarrow>
     r = [] \<and> e = EMessage (MsgP n d flds oneofs nested enums exts) \<or>
     sel Message_Field (leaf_at EField flds) r = Some e \<or>
     sel Message_OneofDecl (leaf_at EOneof oneofs) r = Some e \<or>
     sel Message_NestedType (messages_at nested) r = Some e \<or>
     sel Message_EnumType (enums_at enums) r = Some e \<or>
     sel Message_Extension (leaf_at EExtension exts) r = Some e"
  by (auto simp: sel_Some tag_defs split: list.splits)

lemma visits_messages:
  fixes m :: "'a msgp" and ms :: "'a msgp list"
  shows "visits (ev_message prefix path m) path (message_at m)"
    and "visits (ev_messages prefix path tag i ms) path (sel tag (\<lambda>j. messages_at ms (j - int i)))"
proof (induction prefix path m and prefix path tag i ms rule: ev_message_ev_messages.induct)
  case (1 prefix path n d flds oneofs nested enums exts)
  let ?p = "prefix @ n @ ''.''"
  have "visits (ev_messages ?p path Message_NestedType 0 nested) path (sel Message_NestedType (messages_at nested))"
    using "1" [OF refl refl] by simp
  note parts = visitsD [OF this] visitsD [OF visits_leaves [of ?p path Message_Field EField flds]]
    visitsD [OF visits_leaves [of ?p path Message_OneofDecl EOneof oneofs]]
    visitsD [OF visits_enums [of ?p path Message_EnumType enums]]
    visitsD [OF visits_leaves [of ?p path Message_Extension EExtension exts]]
  show ?case
    unfolding visits_def found_def message_at_Some by (auto simp: Let_def parts)
next
  case (2 prefix path tag i)
  show ?case by (rule visitsI) (auto simp: sel_Some)
next
  case (3 prefix path tag i m ms)
  have "messages_at (m # ms) (j - int i) rest = Some e \<longleftrightarrow>
      j = int i \<and> message_at m rest = Some e \<or> messages_at ms (j - int (Suc i)) rest = Some e" for j rest e
    using messages_at_neg [of "- 1" ms rest] by (cases "j = int i") (simp_all add: algebra_simps)
  then have "sel tag (\<lambda>j. messages_at (m # ms) (j - int i)) r = Some e \<longleftrightarrow>
      (\<exists>rest. r = tag # int i # rest \<and> message_at m rest = Some e) \<or>
      sel tag (\<lambda>j. messages_at ms (j - int (Suc i))) r = Some e" for r e
    by (auto simp: sel_Some simp del: messages_at.simps)
  then show ?case
    unfolding visits_def found_def using visitsD [OF 3(1)] visitsD [OF 3(2)] by auto
qed

lemma visits_service: "visits (ev_service prefix path svc) path (service_at svc)"
proof -
  have "service_at svc r = Some e \<longleftrightarrow> r = [] \<and> e = EService svc \<or>
      sel Service_Method (leaf_at EMethod (svc_methods svc)) r = Some e" for r e
    by (auto simp: service_at_def sel_Some split: list.splits)
  then show ?thesis
    using visitsD [OF visits_leaves [of "prefix @ svc_name svc @ ''.''" path Service_Method EMethod "svc_methods svc"]]
    by (auto simp: visits_def found_def ev_service_def Let_def)
qed

lemma visits_file: "visits (ev_file file) [] (file_at file)"
proof -
  let ?svc = "\<lambda>j rest. if 0 \<le> j \<and> j < int (length (fservices file)) then service_at (fservices file ! nat j) rest else None"
  have svcs: "visits (concat (map (\<lambda>(i, svc). ev_service (filep_prefix file) [File_Service, int i] svc)
      (enumerate 0 (fservices file)))) [] (sel File_Service ?svc)"
    by (rule visits_concat) (simp add: visits_service)
  have msgs: "visits (ev_messages (filep_prefix file) [] File_MessageType 0 (fmessages file)) []
      (sel File_MessageType (messages_at (fmessages file)))"
    using visits_messages(2) [of "filep_prefix file" "[]" File_MessageType 0 "fmessages file"] by simp
  have "file_at file r = Some e \<longleftrightarrow>
      sel File_MessageType (messages_at (fmessages file)) r = Some e \<or>
      sel File_EnumType (enums_at (fenums file)) r = Some e \<or>
      sel File_Extension (leaf_at EExtension (fexts file)) r = Some e \<or> sel File_Service ?svc r = Some e" for r e
    by (auto simp: file_at_def sel_Some tag_defs split: list.splits if_splits)
  then show ?thesis
    unfolding visits_def found_def ev_file_def Let_def
    by (auto simp: visitsD [OF msgs] visitsD [OF svcs] visitsD [OF visits_enums] visitsD [OF visits_leaves])
qed

text \<open>The paths of the entered elements, in order: none is entered twice.\<close>

fun enter_path :: "'a visit event \<Rightarrow> source_path list" where
  "enter_path (Enter (fqn, p, e)) = [p]"
| "enter_path (Exit v) = []"

definition entered_paths :: "'a visit event list \<Rightarrow> source_path list" where
  "entered_paths es = concat (map enter_path es)"

lemma entered_paths_simps [simp]:
  "entered_paths [] = []" "entered_paths (es @ es') = entered_paths es @ entered_paths es'"
  "entered_paths (bracket (fqn, p, e) es) = p # entered_paths es"
  by (simp_all add: entered_paths_def bracket_def)

lemma entered_paths_set: "set (entered_paths es) = fst ` entered es"
proof -
  have "p \<in> set (enter_path x) \<longleftrightarrow> (\<exists>fqn e. x = Enter (fqn, p, e))" for p and x :: "'a visit event"
    by (cases x rule: enter_path.cases) auto
  then show ?thesis by (force simp: entered_paths_def entered_def image_iff)
qed

lemma entered_paths_concat: "entered_paths (concat ess) = concat (map entered_paths ess)"
  by (induction ess) simp_all

lemma visits_paths: "visits es path f \<Longrightarrow> set (entered_paths es) = {path @ r |r. f r \<noteq> None}"
  by (force simp: entered_paths_set visitsD)

lemma distinct_concat_enumerate:
  assumes "\<And>i. i < length xs \<Longrightarrow> distinct (h i (xs ! i))"
    and "\<And>i j. i < j \<Longrightarrow> j < length xs \<Longrightarrow> set (h i (xs ! i)) \<inter> set (h j (xs ! j)) = {}"
  shows "distinct (concat (map (\<lambda>(i, x). h i x) (enumerate 0 xs)))"
  using assms
proof (induction xs rule: rev_induct)
  case (snoc x xs)
  have "distinct (concat (map (\<lambda>(i, x). h i x) (enumerate 0 xs)))"
  proof (rule snoc.IH)
    show "distinct (h i (xs ! i))" if "i < length xs" for i using snoc.prems(1) [of i] that by (simp add: nth_append)
    show "set (h i (xs ! i)) \<inter> set (h j (xs ! j)) = {}" if "i < j" "j < length xs" for i j
      using snoc.prems(2) [of i j] that by (simp add: nth_append)
  qed
  moreover have "set (h i (xs ! i)) \<inter> set (h (length xs) x) = {}" if "i < length xs" for i
    using snoc.prems(2) [of i "length xs"] that by (simp add: nth_append)
  moreover have "distinct (h (length xs) x)" using snoc.prems(1) [of "length xs"] by simp
  ultimately show ?case by (fastforce simp: enumerate_append_eq in_set_enumerate_eq)
qed simp

lemma once_concat:
  assumes "\<And>i x. i < length xs \<Longrightarrow> x = xs ! i \<Longrightarrow> visits (g i x) (path @ [tag, int i]) (f x)"
    and "\<And>i x. i < length xs \<Longrightarrow> x = xs ! i \<Longrightarrow> distinct (entered_paths (g i x))"
  shows "distinct (entered_paths (concat (map (\<lambda>(i, x). g i x) (enumerate 0 xs))))"
proof -
  have "distinct (concat (map (\<lambda>(i, x). entered_paths (g i x)) (enumerate 0 xs)))"
  proof (rule distinct_concat_enumerate)
    show "set (entered_paths (g i (xs ! i))) \<inter> set (entered_paths (g j (xs ! j))) = {}" if "i < j" "j < length xs" for i j
      using that visits_paths [OF assms(1) [OF _ refl, of i]] visits_paths [OF assms(1) [OF _ refl, of j]] by auto
  qed (simp add: assms(2))
  then show ?thesis by (simp add: entered_paths_concat comp_def case_prod_beta')
qed

lemma once_leaves: "distinct (entered_paths (ev_leaves prefix path tag con ls))"
proof -
  have "entered_paths (concat (map (\<lambda>(i, l). let v = (prefix @ leaf_name l, path @ [tag, int i], con l) in [Enter v, Exit v]) xs)) =
      map (\<lambda>(i, l). path @ [tag, int i]) xs" for xs
    by (induction xs) (auto simp: entered_paths_def Let_def)
  then have "entered_paths (ev_leaves prefix path tag con ls) = map (\<lambda>(i, l). path @ [tag, int i]) (enumerate 0 ls)"
    by (simp add: ev_leaves_def)
  also have "\<dots> = map (\<lambda>i. path @ [tag, int i]) [0..<length ls]"
    by (rule nth_equalityI) (simp_all add: nth_enumerate_eq)
  finally show ?thesis by (simp add: distinct_map inj_on_def)
qed

lemma once_enum: "distinct (entered_paths (ev_enum prefix path en))"
  using once_leaves visits_paths [OF visits_leaves [of prefix path Enum_Value EValue "en_values en"]]
  by (auto simp: ev_enum_def sel_def)

lemma once_enums: "distinct (entered_paths (ev_enums prefix path tag ens))"
  unfolding ev_enums_def by (rule once_concat [where f = enum_at]) (rule visits_enum, rule once_enum)

lemma visits_below: "visits es path (sel tag f) \<Longrightarrow> p \<in> set (entered_paths es) \<Longrightarrow> \<exists>r. p = path @ tag # r"
  by (auto simp: visits_paths sel_Some)

lemmas below_tag = visits_below [OF visits_leaves] visits_below [OF visits_enums] visits_below [OF visits_messages(2)]

lemma once_messages:
  fixes m :: "'a msgp" and ms :: "'a msgp list"
  shows "distinct (entered_paths (ev_message prefix path m))"
    and "distinct (entered_paths (ev_messages prefix path tag i ms))"
proof (induction prefix path m and prefix path tag i ms rule: ev_message_ev_messages.induct)
  case (1 prefix path n d flds oneofs nested enums exts)
  from "1" [OF refl refl] show ?case
    by (auto simp: Let_def once_leaves once_enums dest!: below_tag) (simp_all add: tag_defs)
next
  case (3 prefix path tag i m ms)
  have "p \<notin> set (entered_paths (ev_messages prefix path tag (Suc i) ms))"
    if "p \<in> set (entered_paths (ev_message prefix (path @ [tag, int i]) m))" for p
    using that visits_paths [OF visits_messages(1) [of prefix "path @ [tag, int i]" m]]
      visits_paths [OF visits_messages(2) [of prefix path tag "Suc i" ms]]
    by (auto simp: sel_def messages_at_neg split: list.splits if_splits)
  then show ?case using 3 by auto
qed simp

lemma once_service: "distinct (entered_paths (ev_service prefix path svc))"
  by (auto simp: ev_service_def Let_def once_leaves dest!: below_tag)

lemma once_file: "distinct (entered_paths (ev_file file))"
proof -
  let ?svcs = "concat (map (\<lambda>(i, svc). ev_service (filep_prefix file) [File_Service, int i] svc) (enumerate 0 (fservices file)))"
  have v: "visits (ev_service (filep_prefix file) [File_Service, int i] x) ([] @ [File_Service, int i]) (service_at x)" for i x
    by (simp add: visits_service)
  have "distinct (entered_paths ?svcs)" by (rule once_concat [OF v once_service])
  moreover have "\<exists>r. p = File_Service # r" if "p \<in> set (entered_paths ?svcs)" for p
    using visits_below [OF visits_concat [OF v] that] by simp
  ultimately show ?thesis
    unfolding ev_file_def Let_def
    by (simp add: once_leaves once_enums once_messages disjoint_iff) (use tag_defs in \<open>fastforce dest: below_tag\<close>)
qed

subsection \<open>Nesting\<close>

text \<open>\<open>closes\<close>: every enter is closed by its own exit, like brackets, and an element is entered while the one
  whose path is the path of its own less the last tag and index is the innermost open one (or none is open).\<close>

definition innermost_open :: "'a visit list \<Rightarrow> source_path" where
  "innermost_open stack = (case stack of [] \<Rightarrow> [] | (fqn, p, e) # _ \<Rightarrow> p)"

fun closes :: "'a visit list \<Rightarrow> 'a visit event list \<Rightarrow> 'a visit list option" where
  "closes stack [] = Some stack"
| "closes stack (Enter v # es) =
     (if butlast (butlast (fst (snd v))) = innermost_open stack then closes (v # stack) es else None)"
| "closes [] (Exit v # es) = None"
| "closes (u # stack) (Exit v # es) = (if u = v then closes stack es else None)"

definition balanced :: "source_path \<Rightarrow> 'a visit event list \<Rightarrow> bool" where
  "balanced path es \<longleftrightarrow>
     (\<forall>stack es'. innermost_open stack = path \<longrightarrow> closes stack (es @ es') = closes stack es')"

lemma balanced_Nil [simp]: "balanced path []"
  by (simp add: balanced_def)

lemma balanced_append [simp, intro]: "balanced path es \<Longrightarrow> balanced path es' \<Longrightarrow> balanced path (es @ es')"
  by (simp add: balanced_def)

lemma balanced_bracket [intro]: "balanced p es \<Longrightarrow> butlast (butlast p) = path \<Longrightarrow> balanced path (bracket (fqn, p, e) es)"
  by (simp add: balanced_def bracket_def innermost_open_def)

lemma balanced_concat: "(\<And>es. es \<in> set ess \<Longrightarrow> balanced path es) \<Longrightarrow> balanced path (concat ess)"
  by (induction ess) auto

lemma butlast_tag [simp]: "butlast (butlast (path @ [tag, i])) = path"
  by (simp add: butlast_append)

lemma balanced_leaves [simp]: "balanced path (ev_leaves prefix path tag con ls)"
  unfolding ev_leaves_def by (rule balanced_concat) (auto simp: balanced_def Let_def)

lemma balanced_enums [simp]: "balanced path (ev_enums prefix path tag ens)"
  unfolding ev_enums_def by (rule balanced_concat) (auto simp: ev_enum_def intro!: balanced_bracket)

lemma balanced_messages:
  fixes m :: "'a msgp" and ms :: "'a msgp list"
  shows "balanced (butlast (butlast path)) (ev_message prefix path m)" "balanced path (ev_messages prefix path tag i ms)"
proof (induction prefix path m and prefix path tag i ms rule: ev_message_ev_messages.induct)
  case (3 prefix path tag i m ms)
  then show ?case by simp
qed (auto simp: Let_def)

lemma balanced_file: "balanced [] (ev_file file)"
proof -
  have "balanced [] (ev_service prefix [tag, i] svc)" for prefix tag i and svc :: "'a svcp"
    unfolding ev_service_def Let_def by (rule balanced_bracket) simp_all
  then show ?thesis
    unfolding ev_file_def Let_def
    by (intro balanced_append balanced_concat) (auto simp: balanced_messages)
qed

section \<open>Properties\<close>

text \<open>C24: a traversal of the descriptor protos with paths calls its callbacks exactly on a list of events
  that depends on the file only, and stops at the first error. The events enter exactly the elements of the file,
  each once and under the source path that leads to it; every enter is closed by its exit, and an element is
  entered when the element that contains it is the innermost open one (a depth-first traversal).\<close>

theorem walk_with_path_correct:
  "\<exists>es. (\<forall>en ex. DescriptorProtosWithPathEnterAndExit file en ex = run_events en ex es) \<and>
     closes [] es = Some [] \<and>
     (\<forall>p e. (\<exists>fqn. Enter (fqn, p, e) \<in> set es) \<longleftrightarrow> file_at file p = Some e) \<and>
     distinct (entered_paths es)"
proof (intro exI [of _ "ev_file file"] conjI allI)
  show "DescriptorProtosWithPathEnterAndExit file en ex = run_events en ex (ev_file file)" for en ex
    by (simp add: DescriptorProtosWithPathEnterAndExit_def walkDescriptorProtos_events run_walk_usePath)
  show "closes [] (ev_file file) = Some []"
    using balanced_file [of "file", unfolded balanced_def, rule_format, of "[]" "[]"] by (simp add: innermost_open_def)
  show "(\<exists>fqn. Enter (fqn, p, e) \<in> set (ev_file file)) \<longleftrightarrow> file_at file p = Some e" for p e
  proof -
    have "(p, e) \<in> entered (ev_file file) \<longleftrightarrow> file_at file p = Some e"
      using visitsD [OF visits_file [of "file"]] by simp
    then show ?thesis by (simp add: entered_def)
  qed
  show "distinct (entered_paths (ev_file file))" by (rule once_file)
qed

text \<open>The three traversals agree: without paths, and over the linked hierarchy, the same elements
  are visited in the same order.\<close>

abbreviation elem_of :: "'a visit event \<Rightarrow> 'a elem event" where
  "elem_of \<equiv> map_event (\<lambda>(n, path, e). e)"

lemma visit_leaves_events:
  "visit_leaves en ex (map con ls) = run_events en ex (map elem_of (ev_leaves prefix path tag con ls))"
proof -
  have "map elem_of (ev_leaves prefix path tag con ls) = concat (map (\<lambda>l. [Enter (con l), Exit (con l)]) ls)"
    using map_enumerate_snd [of "\<lambda>l. [Enter (con l), Exit (con l)]" 0 ls]
    by (simp add: ev_leaves_def map_concat comp_def case_prod_beta' Let_def)
  then show ?thesis by (simp add: run_concat visit_leaves_def comp_def)
qed

lemma map_bracket [simp]: "map (map_event f) (bracket v es) = bracket (f v) (map (map_event f) es)"
  by (simp add: bracket_def)

lemma enumDescriptor_events:
  "enumDescriptor en ex x = run_events en ex (map elem_of (ev_enum prefix path x))"
  by (simp add: enumDescriptor_def ev_enum_def run_bracket visit_leaves_events [of en ex _ _ prefix path Enum_Value])

lemma run_concat_elem:
  "run_events en ex (map f (concat ess)) = run_all (map (\<lambda>es. run_events en ex (map f es)) ess)"
  by (induction ess) simp_all

lemma enumDescriptors_events:
  "run_all (map (enumDescriptor en ex) ens) = run_events en ex (map elem_of (ev_enums prefix path tag ens))"
  unfolding ev_enums_def
  unfolding run_concat_elem
  unfolding map_map comp_def case_prod_beta' enumDescriptor_events [symmetric, unfolded map_map comp_def case_prod_beta']
  by simp

lemma messageDescriptor_events:
  fixes m :: "'a msgp" and ms :: "'a msgp list"
  shows "messageDescriptor en ex m = run_events en ex (map elem_of (ev_message prefix path m))"
    and "\<And>enums exts. walkContainer en ex ms enums exts =
      andThen (run_events en ex (map elem_of (ev_messages prefix path tag i ms)))
        (andThen (run_all (map (enumDescriptor en ex) enums)) (visit_leaves en ex (map EExtension exts)))"
proof (induction prefix path m and prefix path tag i ms rule: ev_message_ev_messages.induct)
  case (1 prefix path n d flds oneofs nested enums exts)
  let ?p = "prefix @ n @ ''.''"
  have "walkContainer en ex nested enums exts =
      andThen (run_events en ex (map elem_of (ev_messages ?p path Message_NestedType 0 nested)))
        (andThen (run_all (map (enumDescriptor en ex) enums)) (visit_leaves en ex (map EExtension exts)))"
    using "1" [OF refl refl] by simp
  then show ?case
    by (simp add: Let_def run_bracket andThen_assoc
        visit_leaves_events [of en ex EField _ ?p path Message_Field]
        visit_leaves_events [of en ex EOneof _ ?p path Message_OneofDecl]
        visit_leaves_events [of en ex EExtension _ ?p path Message_Extension]
        enumDescriptors_events [of en ex _ ?p path Message_EnumType])
qed (simp_all add: andThen_assoc)

lemma DescriptorsEnterAndExit_events:
  "DescriptorsEnterAndExit file en ex = run_events en ex (map elem_of (ev_file file))"
proof -
  let ?p = "filep_prefix file"
  have svc: "serviceDescriptor en ex svc = run_events en ex (map elem_of (ev_service ?p path svc))" for svc path
    by (simp add: serviceDescriptor_def ev_service_def Let_def run_bracket
        visit_leaves_events [of en ex EMethod _ "?p @ svc_name svc @ ''.''" path Service_Method])
  have "run_all (map (serviceDescriptor en ex) (fservices file)) =
      run_events en ex (map elem_of (concat (map (\<lambda>(i, svc). ev_service ?p [File_Service, int i] svc)
        (enumerate 0 (fservices file)))))"
    unfolding run_concat_elem
    unfolding map_map comp_def case_prod_beta' svc [symmetric, unfolded map_map comp_def case_prod_beta'] by simp
  then show ?thesis
    unfolding DescriptorsEnterAndExit_def ev_file_def Let_def
      messageDescriptor_events(2) [of en ex _ _ _ ?p "[]" File_MessageType 0]
    by (simp add: andThen_assoc visit_leaves_events [of en ex EExtension _ ?p "[]" File_Extension]
        enumDescriptors_events [of en ex _ ?p "[]" File_EnumType])
qed

text \<open>Without an exit callback, \<open>Descriptors\<close> runs its callback over the elements in the order they
  are entered.\<close>

fun entered_elem :: "'a visit event \<Rightarrow> 'a elem list" where
  "entered_elem (Enter (n, path, e)) = [e]"
| "entered_elem (Exit v) = []"

definition file_elems :: "'a filep \<Rightarrow> 'a elem list" where
  "file_elems file = concat (map entered_elem (ev_file file))"

lemma Descriptors_run:
  fixes fd :: "'x filep"
  shows "Descriptors fd fn = run_all (map fn (file_elems fd))"
proof -
  have *: "run_events fn None (map elem_of es) = run_all (map fn (concat (map entered_elem es)))"
    for es :: "'x visit event list"
  proof (induction es)
    case (Cons ev es)
    then show ?case by (cases ev) (auto simp: call_exit_def)
  qed simp
  show ?thesis by (simp only: Descriptors_def DescriptorsEnterAndExit_events file_elems_def *)
qed

text \<open>C26: the traversal of the linked descriptors and the two traversals of the descriptor protos
  make the same callbacks on the same elements in the same order; they differ only in the names and
  paths they pass along.\<close>

theorem walks_agree:
  fixes fd :: "'x filep"
  shows "DescriptorsEnterAndExit fd en ex =
     DescriptorProtosEnterAndExit fd (\<lambda>(n, e). en e) (map_option (\<lambda>f (n, e). f e) ex) \<and>
   DescriptorsEnterAndExit fd en ex =
     DescriptorProtosWithPathEnterAndExit fd (\<lambda>(n, path, e). en e) (map_option (\<lambda>f (n, path, e). f e) ex)"
proof
  have "callback (\<lambda>(n, path, e). en e) (map_option (\<lambda>f (n, path, e). f e) ex) v =
      callback en ex (elem_of v)" for v :: "'x visit event"
    by (cases v; cases ex) (auto simp: call_exit_def)
  then have "callback (\<lambda>(n :: full_name, path :: source_path, e). en e)
      (map_option (\<lambda>f (n, path, e). f e) ex) = (\<lambda>v. callback en ex (elem_of v))" by blast
  then show "DescriptorsEnterAndExit fd en ex =
     DescriptorProtosWithPathEnterAndExit fd (\<lambda>(n, path, e). en e) (map_option (\<lambda>f (n, path, e). f e) ex)"
    by (simp add: DescriptorsEnterAndExit_events DescriptorProtosWithPathEnterAndExit_def
        walkDescriptorProtos_events run_walk_usePath comp_def)
  let ?w = "\<lparr>usePath = False, enter = \<lambda>(n, _, m). (\<lambda>(n, e). en e) (n, m),
      exit = map_option (\<lambda>f (n, _, m). f (n, m)) (map_option (\<lambda>f (n, e). f e) ex)\<rparr>"
  have "callback (up_enter ?w) (up_exit ?w) v = callback en ex (elem_of v)" for v :: "'x visit event"
    by (cases v; cases ex) (auto simp: call_exit_def up_enter_def up_exit_def)
  then have "callback (up_enter ?w) (up_exit ?w) = (\<lambda>v. callback en ex (elem_of v))" by blast
  then show "DescriptorsEnterAndExit fd en ex =
     DescriptorProtosEnterAndExit fd (\<lambda>(n, e). en e) (map_option (\<lambda>f (n, e). f e) ex)"
    by (simp add: DescriptorsEnterAndExit_events DescriptorProtosEnterAndExit_def
        walkDescriptorProtos_events comp_def)
qed

end
