(* ===== verification/Reporter.thy ===== *)
theory Reporter
  imports Prelude
begin

text \<open>
  Error reporting: \<open>reporter/errors.go\<close> and \<open>reporter/reporter.go\<close>.

  Source positions and spans are those of \<open>ast\<close>. An \<open>error\<close> value is a message, the sentinel
  \<open>ErrInvalidSource\<close>, an error with a position, or an error that wraps another one. The reporter is
  the caller's code: a parameter \<open>rep\<close> of the operations, with a state \<open>'r\<close> of its own, that returns
  nil (\<open>None\<close>) to go on or an error to abort.

  Handlers form a tree by their \<open>parent\<close> pointers. They live in a store, a list indexed by the order
  of creation, so a parent's index is below its children's; every operation holds the mutexes it
  needs for its whole duration and is one step.
\<close>

record source_pos =
  Filename :: string
  Line :: int
  Col :: int
  Offset :: int

record source_span =
  Start :: source_pos
  End :: source_pos

definition UnknownSpan :: "string \<Rightarrow> source_span" where
  "UnknownSpan filename =
     (let p = \<lparr>Filename = filename, Line = 0, Col = 0, Offset = 0\<rparr> in \<lparr>Start = p, End = p\<rparr>)"

section \<open>Errors\<close>

datatype go_error = ErrInvalidSource | Msg string | Wrapped string go_error | WithSpan source_span go_error

text \<open>\<open>errors.As(err, &ewp)\<close>: the first error with a position in the chain.\<close>

fun as_ErrorWithPos :: "go_error \<Rightarrow> (source_span \<times> go_error) option" where
  "as_ErrorWithPos (WithSpan sp u) = Some (sp, u)"
| "as_ErrorWithPos (Wrapped m e) = as_ErrorWithPos e"
| "as_ErrorWithPos _ = None"

text \<open>\<open>reporter.Error\<close> and \<open>reporter.Errorf\<close> (the formatted message is its argument).\<close>

definition Error :: "source_span \<Rightarrow> go_error \<Rightarrow> go_error" where
  "Error span err =
     (case as_ErrorWithPos err of
        Some (_, underlying) \<Rightarrow> WithSpan span underlying
      | None \<Rightarrow> WithSpan span err)"

definition Errorf :: "source_span \<Rightarrow> string \<Rightarrow> go_error" where
  "Errorf span msg = Error span (Msg msg)"

definition is_ErrorWithPos :: "go_error \<Rightarrow> bool" where
  "is_ErrorWithPos e = (case e of WithSpan _ _ \<Rightarrow> True | _ \<Rightarrow> False)"

section \<open>Reporters\<close>

type_synonym 'r reporter = "go_error \<Rightarrow> 'r \<Rightarrow> go_error option \<times> 'r"

text \<open>\<open>NewReporter(errs, warnings)\<close>: a nil error function returns the error itself.\<close>

definition reporterFuncs_Error :: "('r reporter) option \<Rightarrow> 'r reporter" where
  "reporterFuncs_Error errs err r = (case errs of None \<Rightarrow> (Some err, r) | Some f \<Rightarrow> f err r)"

definition reporterFuncs_Warning :: "(go_error \<Rightarrow> 'r \<Rightarrow> 'r) option \<Rightarrow> go_error \<Rightarrow> 'r \<Rightarrow> 'r" where
  "reporterFuncs_Warning warnings err r = (case warnings of None \<Rightarrow> r | Some f \<Rightarrow> f err r)"

section \<open>Handlers\<close>

record handler =
  parent :: "nat option"
  errsReported :: bool
  herr :: "go_error option"

record 'r hstore =
  handlers :: "handler list"
  rstate :: 'r

definition NewHandler :: "'r hstore \<Rightarrow> nat \<times> 'r hstore" where
  "NewHandler st =
     (length (handlers st),
      st\<lparr>handlers := handlers st @ [\<lparr>parent = None, errsReported = False, herr = None\<rparr>]\<rparr>)"

definition SubHandler :: "nat \<Rightarrow> 'r hstore \<Rightarrow> nat \<times> 'r hstore" where
  "SubHandler h st =
     (length (handlers st),
      st\<lparr>handlers := handlers st @ [\<lparr>parent = Some h, errsReported = False, herr = None\<rparr>]\<rparr>)"

abbreviation hget :: "'r hstore \<Rightarrow> nat \<Rightarrow> handler" where
  "hget st h \<equiv> handlers st ! h"

abbreviation hput :: "'r hstore \<Rightarrow> nat \<Rightarrow> handler \<Rightarrow> 'r hstore" where
  "hput st h x \<equiv> st\<lparr>handlers := (handlers st)[h := x]\<rparr>"

text \<open>\<open>HandleError\<close>. The guard \<open>p < h\<close> on the parent holds for every handler in a store built by
  \<open>NewHandler\<close> and \<open>SubHandler\<close>; it makes the recursion up the tree well-founded.\<close>

function HandleError :: "'r reporter \<Rightarrow> nat \<Rightarrow> go_error \<Rightarrow> 'r hstore \<Rightarrow> go_error option \<times> 'r hstore" where
  "HandleError rep h err st =
     (case parent (hget st h) of
        Some p \<Rightarrow>
          if p < h then
            (let (res, st) = HandleError rep p err st; s = hget st h
             in (res, hput st h (s\<lparr>errsReported := errsReported s \<or> is_ErrorWithPos err, herr := res\<rparr>)))
          else (None, st)
      | None \<Rightarrow>
          let s = hget st h
          in case herr s of
               Some e \<Rightarrow> (Some e, st)
             | None \<Rightarrow>
                 if is_ErrorWithPos err then
                   (let (res, r) = rep err (rstate st)
                    in (res, (hput st h (s\<lparr>errsReported := True, herr := res\<rparr>))\<lparr>rstate := r\<rparr>))
                 else (Some err, hput st h (s\<lparr>herr := Some err\<rparr>)))"
  by pat_completeness auto
termination
  by (relation "measure (\<lambda>(rep, h, err, st). h)") auto

declare HandleError.simps [simp del]

definition HandleErrorWithPos ::
  "'r reporter \<Rightarrow> nat \<Rightarrow> source_span \<Rightarrow> go_error \<Rightarrow> 'r hstore \<Rightarrow> go_error option \<times> 'r hstore" where
  "HandleErrorWithPos rep h span err st = HandleError rep h (Error span err) st"

definition HandleErrorf ::
  "'r reporter \<Rightarrow> nat \<Rightarrow> source_span \<Rightarrow> string \<Rightarrow> 'r hstore \<Rightarrow> go_error option \<times> 'r hstore" where
  "HandleErrorf rep h span msg st = HandleError rep h (Errorf span msg) st"

text \<open>\<open>HandleWarning\<close> delegates to the root's reporter.\<close>

function HandleWarning :: "(go_error \<Rightarrow> 'r \<Rightarrow> 'r) \<Rightarrow> nat \<Rightarrow> go_error \<Rightarrow> 'r hstore \<Rightarrow> 'r hstore" where
  "HandleWarning warn h err st =
     (case parent (hget st h) of
        Some p \<Rightarrow> if p < h then HandleWarning warn p err st else st
      | None \<Rightarrow> st\<lparr>rstate := warn err (rstate st)\<rparr>)"
  by pat_completeness auto
termination
  by (relation "measure (\<lambda>(warn, h, err, st). h)") auto

declare HandleWarning.simps [simp del]

definition Handler_Error :: "nat \<Rightarrow> 'r hstore \<Rightarrow> go_error option" where
  "Handler_Error h st =
     (let s = hget st h in if errsReported s \<and> herr s = None then Some ErrInvalidSource else herr s)"

definition ReporterError :: "nat \<Rightarrow> 'r hstore \<Rightarrow> go_error option" where
  "ReporterError h st = herr (hget st h)"

section \<open>Invariant and frame\<close>

definition hstore_ok :: "'r hstore \<Rightarrow> bool" where
  "hstore_ok st \<longleftrightarrow> (\<forall>h < length (handlers st). \<forall>p. parent (hget st h) = Some p \<longrightarrow> p < h)"

lemma hstore_ok_NewHandler: "hstore_ok st \<Longrightarrow> hstore_ok (snd (NewHandler st))"
  by (auto simp: hstore_ok_def NewHandler_def nth_append)

lemma hstore_ok_SubHandler:
  "hstore_ok st \<Longrightarrow> h < length (handlers st) \<Longrightarrow> hstore_ok (snd (SubHandler h st))"
  by (auto simp: hstore_ok_def SubHandler_def nth_append)

text \<open>A handler and its ancestors up to the root.\<close>

function chain :: "'r hstore \<Rightarrow> nat \<Rightarrow> nat list" where
  "chain st h = h # (case parent (hget st h) of Some p \<Rightarrow> if p < h then chain st p else [] | None \<Rightarrow> [])"
  by pat_completeness auto
termination
  by (relation "measure (\<lambda>(st, h). h)") auto

declare chain.simps [simp del]

abbreviation root :: "'r hstore \<Rightarrow> nat \<Rightarrow> nat" where
  "root st h \<equiv> last (chain st h)"

lemma chain_root: "parent (hget st h) = None \<Longrightarrow> chain st h = [h]"
  by (subst chain.simps) simp

lemma chain_child: "parent (hget st h) = Some p \<Longrightarrow> p < h \<Longrightarrow> chain st h = h # chain st p"
  by (subst chain.simps) simp

lemma chain_not_Nil [simp]: "chain st h \<noteq> []"
  by (subst chain.simps) simp

lemma chain_le: "k \<in> set (chain st h) \<Longrightarrow> k \<le> h"
proof (induction st h rule: chain.induct)
  case (1 st h)
  then show ?case
    by (cases "\<exists>p. parent (hget st h) = Some p \<and> p < h")
       (fastforce simp: chain_child, fastforce simp: chain.simps [of st h] split: option.splits if_splits)
qed

lemma HandleError_root:
  "parent (hget st h) = None \<Longrightarrow> HandleError rep h err st =
     (case herr (hget st h) of
        Some e \<Rightarrow> (Some e, st)
      | None \<Rightarrow>
          if is_ErrorWithPos err then
            (let (res, r) = rep err (rstate st)
             in (res, (hput st h ((hget st h)\<lparr>errsReported := True, herr := res\<rparr>))\<lparr>rstate := r\<rparr>))
          else (Some err, hput st h ((hget st h)\<lparr>herr := Some err\<rparr>)))"
  by (subst HandleError.simps) (simp add: Let_def)

lemma HandleError_child:
  "parent (hget st h) = Some p \<Longrightarrow> p < h \<Longrightarrow> HandleError rep h err st =
     (let (res, st) = HandleError rep p err st; s = hget st h
      in (res, hput st h (s\<lparr>errsReported := errsReported s \<or> is_ErrorWithPos err, herr := res\<rparr>)))"
  by (subst HandleError.simps) (simp add: Let_def)

text \<open>\<open>HandleError\<close> touches the handler and its ancestors only.\<close>

lemma HandleError_frame:
  assumes "hstore_ok st" "h < length (handlers st)" "HandleError rep h err st = (res, st')"
  shows "length (handlers st') = length (handlers st) \<and>
    (\<forall>k. parent (hget st' k) = parent (hget st k)) \<and>
    (\<forall>k. k \<notin> set (chain st h) \<longrightarrow> hget st' k = hget st k)"
  using assms
proof (induction rep h err st arbitrary: res st' rule: HandleError.induct)
  case (1 rep h err st)
  show ?case
  proof (cases "parent (hget st h)")
    case None
    with 1(4) have "handlers st' = (handlers st)[h := hget st' h]" "parent (hget st' h) = None" 
      using 1(3) by (auto simp: HandleError_root chain_root Let_def split: option.splits if_splits prod.splits)
    with None 1(3) show ?thesis by (auto simp: chain_root) (metis nth_list_update_neq length_list_update)+
  next
    case (Some p)
    with 1(2,3) have p: "p < h" by (auto simp: hstore_ok_def)
    obtain st1 where st1: "HandleError rep p err st = (res, st1)"
      and st': "st' = hput st1 h ((hget st1 h)\<lparr>errsReported := errsReported (hget st1 h) \<or> is_ErrorWithPos err, herr := res\<rparr>)"
      using 1(4) by (auto simp: HandleError_child [OF Some p] Let_def split: prod.splits)
    have "length (handlers st1) = length (handlers st) \<and> (\<forall>k. parent (hget st1 k) = parent (hget st k)) \<and>
        (\<forall>k. k \<notin> set (chain st p) \<longrightarrow> hget st1 k = hget st k)"
      using 1(1) [OF Some p 1(2) _ st1] 1(3) p by simp
    then show ?thesis using st' by (auto simp: chain_child [OF Some p] nth_list_update_if)
  qed
qed

lemma root_le: "root st h \<le> h"
  by (rule chain_le) (rule last_in_set, simp)

text \<open>What a call returns is decided at the root: an aborted root answers with its error and does
  not report; otherwise an error with a position goes to the reporter and any other error aborts.\<close>

definition root_reply :: "'r reporter \<Rightarrow> go_error \<Rightarrow> handler \<Rightarrow> 'r \<Rightarrow> go_error option \<times> 'r" where
  "root_reply rep err s r =
     (case herr s of Some e \<Rightarrow> (Some e, r) | None \<Rightarrow> if is_ErrorWithPos err then rep err r else (Some err, r))"

lemma HandleError_reply:
  assumes "hstore_ok st" "h < length (handlers st)" "HandleError rep h err st = (res, st')"
  shows "(res, rstate st') = root_reply rep err (hget st (root st h)) (rstate st) \<and>
    herr (hget st' h) = res \<and> herr (hget st' (root st h)) = res \<and>
    (is_ErrorWithPos err \<and> herr (hget st (root st h)) = None \<longrightarrow> errsReported (hget st' h)) \<and>
    (h \<noteq> root st h \<longrightarrow> errsReported (hget st' h) = (errsReported (hget st h) \<or> is_ErrorWithPos err))"
  using assms
proof (induction rep h err st arbitrary: res st' rule: HandleError.induct)
  case (1 rep h err st)
  show ?case
  proof (cases "parent (hget st h)")
    case None
    with 1(3,4) show ?thesis
      by (auto simp: HandleError_root chain_root root_reply_def Let_def split: option.splits if_splits prod.splits)
  next
    case (Some p)
    with 1(2,3) have p: "p < h" by (auto simp: hstore_ok_def)
    obtain st1 where st1: "HandleError rep p err st = (res, st1)"
      and st': "st' = hput st1 h ((hget st1 h)\<lparr>errsReported := errsReported (hget st1 h) \<or> is_ErrorWithPos err, herr := res\<rparr>)"
      using 1(4) by (auto simp: HandleError_child [OF Some p] Let_def split: prod.splits)
    have len: "p < length (handlers st)" using p 1(3) by simp
    note IH = 1(1) [OF Some p 1(2) len st1] and F = HandleError_frame [OF 1(2) len st1]
    have r: "root st h = root st p" "root st p \<noteq> h" using p root_le [of st p] by (auto simp: chain_child [OF Some p])
    have "h \<notin> set (chain st p)" using chain_le [of h st p] p by auto
    then have "hget st1 h = hget st h" "length (handlers st1) = length (handlers st)" using F by auto
    then show ?thesis using IH r st' 1(3) by auto
  qed
qed

lemma Handler_Error_after:
  assumes "hstore_ok st" "h < length (handlers st)" "HandleError rep h err st = (res, st')"
  shows "Handler_Error h st' \<noteq> None"
proof -
  note R = HandleError_reply [OF assms]
  show ?thesis
  proof (cases res)
    case None
    then have "herr (hget st (root st h)) = None" "is_ErrorWithPos err"
      using R by (auto simp: root_reply_def split: option.splits if_splits)
    with R have "errsReported (hget st' h)" by blast
    then show ?thesis by (simp add: Handler_Error_def Let_def)
  next
    case (Some e)
    with R show ?thesis by (simp add: Handler_Error_def Let_def)
  qed
qed

section \<open>Properties\<close>

text \<open>C33: once a handler tree has aborted with an error, every later \<open>HandleError\<close> on any handler
  of the tree returns that same error and nothing more is reported.\<close>

theorem aborted_handler_is_final:
  assumes "hstore_ok st" "h < length (handlers st)" "herr (hget st (root st h)) = Some e"
  shows "fst (HandleError rep h err st) = Some e \<and> rstate (snd (HandleError rep h err st)) = rstate st \<and>
    herr (hget (snd (HandleError rep h err st)) (root st h)) = Some e"
  using HandleError_reply [OF assms(1,2), of rep err] assms(3)
  by (cases "HandleError rep h err st") (auto simp: root_reply_def)

text \<open>A sub-handler reports through its parent but keeps its own verdict: after an error was
  handled by handler \<open>h\<close>, \<open>Error()\<close> of \<open>h\<close> is non-nil, while every handler that is neither \<open>h\<close> nor
  one of its ancestors is unchanged.\<close>

theorem sub_handler_isolated:
  assumes "hstore_ok st" "h < length (handlers st)" "HandleError rep h err st = (res, st')"
  shows "Handler_Error h st' \<noteq> None \<and> ReporterError h st' = res \<and>
    (\<forall>k. k \<notin> set (chain st h) \<longrightarrow> Handler_Error k st' = Handler_Error k st)"
  using Handler_Error_after [OF assms] HandleError_reply [OF assms] HandleError_frame [OF assms]
  by (auto simp: ReporterError_def Handler_Error_def)

text \<open>The witness: a root handler with two children; the second child reports an error to a
  reporter that collects errors and lets the operation go on.\<close>

definition demo_store :: "go_error list hstore" where
  "demo_store = snd (SubHandler 0 (snd (SubHandler 0 (snd (NewHandler \<lparr>handlers = [], rstate = []\<rparr>)))))"

lemma demo_store_ok: "hstore_ok demo_store" "length (handlers demo_store) = 3"
  by (auto simp: demo_store_def NewHandler_def SubHandler_def hstore_ok_def nth_append less_Suc_eq)

theorem sub_handler_isolated_witness:
  "\<exists>res st'. HandleError (\<lambda>e r. (None, e # r)) 2 (Errorf (UnknownSpan ''a.proto'') ''bad'') demo_store = (res, st') \<and>
     Handler_Error 2 st' \<noteq> None \<and> Handler_Error 1 st' = Handler_Error 1 demo_store"
proof -
  obtain res st' where run: "HandleError (\<lambda>e r. (None, e # r)) 2 (Errorf (UnknownSpan ''a.proto'') ''bad'') demo_store = (res, st')"
    by (metis surj_pair)
  have h: "2 < length (handlers demo_store)" by (simp add: demo_store_ok)
  have "1 \<notin> set (chain demo_store 2)"
    by (simp add: chain.simps demo_store_def NewHandler_def SubHandler_def nth_append)
  with run sub_handler_isolated [OF demo_store_ok(1) h run] show ?thesis by blast
qed

definition aborted_store :: "go_error list hstore" where
  "aborted_store = demo_store\<lparr>handlers := (handlers demo_store)[0 := \<lparr>parent = None, errsReported = True,
     herr = Some ErrInvalidSource\<rparr>]\<rparr>"

theorem aborted_handler_is_final_witness:
  "hstore_ok aborted_store \<and> herr (hget aborted_store (root aborted_store 2)) = Some ErrInvalidSource \<and>
   fst (HandleError (\<lambda>e r. (None, e # r)) 2 (Msg ''late'') aborted_store) = Some ErrInvalidSource"
proof -
  have h: "hstore_ok aborted_store" "2 < length (handlers aborted_store)"
    by (auto simp: aborted_store_def demo_store_def NewHandler_def SubHandler_def hstore_ok_def
        nth_append nth_Cons less_Suc_eq split: nat.splits)
  have r: "herr (hget aborted_store (root aborted_store 2)) = Some ErrInvalidSource"
    by (simp add: chain.simps aborted_store_def demo_store_def NewHandler_def SubHandler_def)
  show ?thesis using h r aborted_handler_is_final [OF h r, of "\<lambda>e r. (None, e # r)" "Msg ''late''"] by blast
qed

end
