(* ===== verification/Symbols.thy ===== *)
theory Symbols
  imports Walk Reporter
begin

text \<open>
  The symbol table of the linker: \<open>linker/symbols.go\<close>.

  \<open>packageSymbols\<close> nodes live in a store, a list indexed by creation order with the trie's root at
  index 0; a child pointer is an index. Every method holds the locks it needs throughout, so each is
  one step of the state; the re-checks after upgrading a read lock see the same state and are not
  repeated here.

  A file descriptor is modelled by what the table reads: its identity (the key of \<open>files\<close>), whether
  it is a \<open>result\<close> built from source, the span of its package name, its element hierarchy
  (\<open>Walk.filep\<close>, with full names) and its imports. The payload of an element holds the spans that
  \<open>sourceSpanFor\<close>, \<open>nameSpan\<close> and \<open>sourceSpanForNumber\<close> compute and, for an extension, the
  extendee, the extendee's package and the tag.
\<close>

section \<open>State\<close>

record symbol_entry =
  span :: source_span
  isEnumValue :: bool
  isPackage :: bool

record package_symbols =
  children :: "full_name \<rightharpoonup> nat"
  sfiles :: "nat set"
  symbols :: "full_name \<rightharpoonup> symbol_entry"
  exts :: "full_name \<times> int \<rightharpoonup> source_span"

record ext_decl =
  ed_span :: source_span
  ed_extendee :: full_name
  ed_tag :: int

record symtab =
  nodes :: "package_symbols list"
  extDecls :: "full_name \<rightharpoonup> ext_decl"

definition empty_package :: package_symbols where
  "empty_package = \<lparr>children = Map.empty, sfiles = {}, symbols = Map.empty, exts = Map.empty\<rparr>"

definition new_symtab :: symtab where
  "new_symtab = \<lparr>nodes = [empty_package], extDecls = Map.empty\<rparr>"

text \<open>The operations also drive an error handler \<open>h\<close> of a handler store.\<close>

record 'r sstate =
  stab :: symtab
  shst :: "'r hstore"

abbreviation node :: "'r sstate \<Rightarrow> nat \<Rightarrow> package_symbols" where
  "node st n \<equiv> nodes (stab st) ! n"

abbreviation put_node :: "'r sstate \<Rightarrow> nat \<Rightarrow> package_symbols \<Rightarrow> 'r sstate" where
  "put_node st n x \<equiv> st\<lparr>stab := (stab st)\<lparr>nodes := (nodes (stab st))[n := x]\<rparr>\<rparr>"

section \<open>Messages\<close>

text \<open>\<open>SourcePos.String\<close>, and \<open>%q\<close> of a protobuf name (letters, digits, underscores and dots, so
  quoting only adds the quotes).\<close>

definition show_pos :: "source_pos \<Rightarrow> string" where
  "show_pos pos =
     (if Line pos \<le> 0 \<or> Col pos \<le> 0 then Filename pos
      else Filename pos @ '':'' @ show_int (Line pos) @ '':'' @ show_int (Col pos))"

definition quoted :: "full_name \<Rightarrow> string" where
  "quoted n = [CHR 0x22] @ n @ [CHR 0x22]"

definition posLess :: "source_pos \<Rightarrow> source_pos \<Rightarrow> bool" where
  "posLess a b =
     (if Filename a = Filename b then
        if Line a = Line b then Col a < Col b else Line a < Line b
      else False)"

text \<open>Reporting through the handler, as an action on the joint state.\<close>

definition report :: "'r reporter \<Rightarrow> nat \<Rightarrow> source_span \<Rightarrow> string \<Rightarrow> ('r sstate, go_error) act" where
  "report rep h sp msg st =
     (let (res, hs) = HandleErrorf rep h sp msg (shst st) in (res, st\<lparr>shst := hs\<rparr>))"

definition reportSymbolCollision ::
  "'r reporter \<Rightarrow> nat \<Rightarrow> source_span \<Rightarrow> full_name \<Rightarrow> bool \<Rightarrow> symbol_entry \<Rightarrow> ('r sstate, go_error) act" where
  "reportSymbolCollision rep h sp fqn additionIsEnumVal existing =
     (let suffix = (if additionIsEnumVal \<or> isEnumValue existing
            then ''; protobuf uses C++ scoping rules for enum values, so they exist in the scope enclosing the enum''
            else '''');
          isPkg = (if isPackage existing then '' as a package'' else '''');
          (orig, conflict) = (if posLess (Start sp) (Start (span existing))
                              then (sp, span existing) else (span existing, sp))
      in report rep h conflict
           (''symbol '' @ quoted fqn @ '' already defined'' @ isPkg @ '' at '' @ show_pos (Start orig) @ suffix))"

section \<open>Files and their source locations\<close>

text \<open>A \<open>protoreflect.SourceLocation\<close> and \<open>internal.IsZeroLocation\<close>; a nil path and nil comments are
  the empty list.\<close>

record source_loc =
  loc_path :: source_path
  StartLine :: int
  StartColumn :: int
  EndLine :: int
  EndColumn :: int
  LeadingDetachedComments :: "string list"
  LeadingComments :: string
  TrailingComments :: string
  Next :: int

definition IsZeroLocation :: "source_loc \<Rightarrow> bool" where
  "IsZeroLocation loc \<longleftrightarrow> loc_path loc = [] \<and> StartLine loc = 0 \<and> StartColumn loc = 0 \<and>
     EndLine loc = 0 \<and> EndColumn loc = 0 \<and> LeadingDetachedComments loc = [] \<and>
     LeadingComments loc = [] \<and> TrailingComments loc = [] \<and> Next loc = 0"

text \<open>What the table reads of an element beside its full name: its source path
  (\<open>internal.ComputePath\<close>), the spans of its name and of its tag in the syntax tree (of a \<open>result\<close>),
  and for an extension its extendee, the extendee's package and its number.\<close>

record dinfo =
  dpath :: "source_path option"
  name_node :: source_span
  tag_node :: source_span
  ext_package :: full_name
  ext_extendee :: full_name
  fld_number :: int

text \<open>A file: its identity, path, whether it is a \<open>*result\<close> and has source, the spans of its package
  declarations, its source locations by path, its elements and its imports.\<close>

datatype fdesc = FDesc (fd_id: nat) (fd_path: string) (fd_result: bool) (fd_hasSource: bool)
  (fd_packages: "source_span list") (fd_locs: "source_path \<Rightarrow> source_loc") (fd_file: "dinfo filep")
  (fd_imports: "fdesc list")

fun FullName :: "'a elem \<Rightarrow> full_name" where
  "FullName (EMessage m) = msg_name m"
| "FullName (EEnum e) = en_name e"
| "FullName (EService s) = svc_name s"
| "FullName (EField l) = leaf_name l"
| "FullName (EOneof l) = leaf_name l"
| "FullName (EValue l) = leaf_name l"
| "FullName (EExtension l) = leaf_name l"
| "FullName (EMethod l) = leaf_name l"

fun elem_data :: "'a elem \<Rightarrow> 'a" where
  "elem_data (EMessage m) = msg_data m"
| "elem_data (EEnum e) = en_data e"
| "elem_data (EService s) = svc_data s"
| "elem_data (EField l) = leaf_data l"
| "elem_data (EOneof l) = leaf_data l"
| "elem_data (EValue l) = leaf_data l"
| "elem_data (EExtension l) = leaf_data l"
| "elem_data (EMethod l) = leaf_data l"

definition isEnumVal :: "'a elem \<Rightarrow> bool" where
  "isEnumVal d = (case d of EValue _ \<Rightarrow> True | _ \<Rightarrow> False)"

definition File_Package :: int where "File_Package = 2"
definition Field_Number :: int where "Field_Number = 3"

definition Message_Name :: int where "Message_Name = 1"
definition Field_Name :: int where "Field_Name = 1"
definition Oneof_Name :: int where "Oneof_Name = 1"
definition Enum_Name :: int where "Enum_Name = 1"
definition EnumValue_Name :: int where "EnumValue_Name = 1"
definition Service_Name :: int where "Service_Name = 1"
definition Method_Name :: int where "Method_Name = 1"

text \<open>The tag of the name field in each kind of descriptor proto.\<close>

fun name_tag :: "'a elem \<Rightarrow> int" where
  "name_tag (EField _) = Field_Name"
| "name_tag (EExtension _) = Field_Name"
| "name_tag (EMessage _) = Message_Name"
| "name_tag (EOneof _) = Oneof_Name"
| "name_tag (EEnum _) = Enum_Name"
| "name_tag (EValue _) = EnumValue_Name"
| "name_tag (EService _) = Service_Name"
| "name_tag (EMethod _) = Method_Name"

definition span_of_loc :: "string \<Rightarrow> source_loc \<Rightarrow> source_span" where
  "span_of_loc path loc =
     \<lparr>Start = \<lparr>Filename = path, Line = StartLine loc, Col = StartColumn loc, Offset = 0\<rparr>,
      End = \<lparr>Filename = path, Line = EndLine loc, Col = EndColumn loc, Offset = 0\<rparr>\<rparr>"

definition sourceSpanForPackage :: "fdesc \<Rightarrow> source_span" where
  "sourceSpanForPackage fd =
     (let loc = fd_locs fd [File_Package]
      in if IsZeroLocation loc then UnknownSpan (fd_path fd) else span_of_loc (fd_path fd) loc)"

definition packageNameSpan :: "fdesc \<Rightarrow> source_span" where
  "packageNameSpan r =
     (if fd_hasSource r then case fd_packages r of sp # _ \<Rightarrow> sp | [] \<Rightarrow> UnknownSpan (fd_path r)
      else UnknownSpan (fd_path r))"

text \<open>The location of a sub-path, falling back to the element's own.\<close>

definition span_at :: "fdesc \<Rightarrow> source_path \<Rightarrow> int \<Rightarrow> source_span" where
  "span_at fd path tag =
     (let loc = fd_locs fd (path @ [tag])
      in if IsZeroLocation loc
         then let loc = fd_locs fd path
              in if IsZeroLocation loc then UnknownSpan (fd_path fd) else span_of_loc (fd_path fd) loc
         else span_of_loc (fd_path fd) loc)"

definition sourceSpanFor :: "fdesc \<Rightarrow> dinfo elem \<Rightarrow> source_span" where
  "sourceSpanFor fd d =
     (if fd_result fd then name_node (elem_data d)
      else case dpath (elem_data d) of
             None \<Rightarrow> UnknownSpan (fd_path fd)
           | Some path \<Rightarrow> span_at fd path (name_tag d))"

definition sourceSpanForNumber :: "fdesc \<Rightarrow> dinfo leaf \<Rightarrow> source_span" where
  "sourceSpanForNumber fd fld =
     (case dpath (leaf_data fld) of
        None \<Rightarrow> UnknownSpan (fd_path fd)
      | Some path \<Rightarrow> span_at fd path Field_Number)"

section \<open>Packages\<close>

text \<open>\<open>nameEnumerator\<close>: the dotted prefixes of a name, shortest first.\<close>

record nameEnumerator =
  ne_name :: full_name
  ne_start :: int

definition IndexByte :: "string \<Rightarrow> char \<Rightarrow> int" where
  "IndexByte s c = (let k = length (takeWhile (\<lambda>x. x \<noteq> c) s) in if k < length s then int k else - 1)"

definition nameEnumerator_next :: "nameEnumerator \<Rightarrow> (full_name \<times> bool) \<times> nameEnumerator" where
  "nameEnumerator_next e =
     (if ne_start e < 0 then (([], False), e)
      else let pos = IndexByte (drop (nat (ne_start e)) (ne_name e)) (CHR ''.'')
           in if pos = - 1 then ((ne_name e, True), e\<lparr>ne_start := - 1\<rparr>)
              else let pos = pos + ne_start e
                   in ((take (nat pos) (ne_name e), True), e\<lparr>ne_start := pos + 1\<rparr>))"

lemma IndexByte_bounds: "- 1 \<le> IndexByte s c" "IndexByte s c < int (length s) \<or> s = []"
  by (auto simp: IndexByte_def Let_def)

function enum_all :: "nameEnumerator \<Rightarrow> full_name list" where
  "enum_all e = (case nameEnumerator_next e of ((p, ok), e') \<Rightarrow> if ok then p # enum_all e' else [])"
  by pat_completeness auto
termination
  by (relation "measure (\<lambda>e. if ne_start e < 0 then 0 else Suc (length (ne_name e) + 1 - nat (ne_start e)))")
     (auto simp: nameEnumerator_next_def Let_def IndexByte_def nat_add_distrib split: if_splits)

declare enum_all.simps [simp del]

definition HasPrefix :: "string \<Rightarrow> string \<Rightarrow> bool" where
  "HasPrefix s p \<longleftrightarrow> take (length p) s = p"

text \<open>\<open>importPackage\<close> and \<open>importPackages\<close> return a node (or nil) and an error.\<close>

definition importPackage :: "'r reporter \<Rightarrow> nat \<Rightarrow> nat \<Rightarrow> source_span \<Rightarrow> full_name \<Rightarrow> 'r sstate \<Rightarrow>
    (nat option \<times> go_error option) \<times> 'r sstate" where
  "importPackage rep h s pkgSpan pkg st =
     (case symbols (node st s) pkg of
        Some existing \<Rightarrow>
          if isPackage existing then ((children (node st s) pkg, None), st)
          else let (err, st) = reportSymbolCollision rep h pkgSpan pkg False existing st in ((None, err), st)
      | None \<Rightarrow>
          let child = length (nodes (stab st));
              x = node st s;
              st = put_node st s (x\<lparr>symbols := (symbols x)(pkg \<mapsto> \<lparr>span = pkgSpan, isEnumValue = False, isPackage = True\<rparr>),
                     children := (children x)(pkg \<mapsto> child)\<rparr>);
              st = st\<lparr>stab := (stab st)\<lparr>nodes := nodes (stab st) @ [empty_package]\<rparr>\<rparr>
          in ((Some child, None), st))"

primrec import_prefixes :: "'r reporter \<Rightarrow> nat \<Rightarrow> source_span \<Rightarrow> full_name list \<Rightarrow> nat \<Rightarrow> 'r sstate \<Rightarrow>
    (nat option \<times> go_error option) \<times> 'r sstate" where
  "import_prefixes rep h pkgSpan [] cur st = ((Some cur, None), st)"
| "import_prefixes rep h pkgSpan (p # ps) cur st =
     (case importPackage rep h cur pkgSpan p st of
        ((_, Some err), st) \<Rightarrow> ((None, Some err), st)
      | ((None, None), st) \<Rightarrow> ((None, None), st)
      | ((Some cur, None), st) \<Rightarrow> import_prefixes rep h pkgSpan ps cur st)"

definition importPackages :: "'r reporter \<Rightarrow> nat \<Rightarrow> source_span \<Rightarrow> full_name \<Rightarrow> 'r sstate \<Rightarrow>
    (nat option \<times> go_error option) \<times> 'r sstate" where
  "importPackages rep h pkgSpan pkg st =
     (if pkg = [] then ((Some 0, None), st)
      else import_prefixes rep h pkgSpan (enum_all \<lparr>ne_name = pkg, ne_start = 0\<rparr>) 0 st)"

primrec get_prefixes :: "symtab \<Rightarrow> bool \<Rightarrow> full_name list \<Rightarrow> nat \<Rightarrow> nat option" where
  "get_prefixes t exact [] cur = Some cur"
| "get_prefixes t exact (p # ps) cur =
     (case children (nodes t ! cur) p of
        None \<Rightarrow> if exact then None else Some cur
      | Some n \<Rightarrow> get_prefixes t exact ps n)"

definition getPackage :: "symtab \<Rightarrow> full_name \<Rightarrow> bool \<Rightarrow> nat option" where
  "getPackage t pkg exact =
     (if pkg = [] then Some 0 else get_prefixes t exact (enum_all \<lparr>ne_name = pkg, ne_start = 0\<rparr>) 0)"

section \<open>Importing files\<close>

definition check_symbol ::
  "'r reporter \<Rightarrow> nat \<Rightarrow> (full_name \<rightharpoonup> symbol_entry) \<Rightarrow> source_span \<Rightarrow> dinfo elem \<Rightarrow> ('r sstate, go_error) act" where
  "check_symbol rep h syms sp d =
     (case syms (FullName d) of
        Some existing \<Rightarrow> reportSymbolCollision rep h sp (FullName d) (isEnumVal d) existing
      | None \<Rightarrow> skip)"

definition checkFileLocked :: "'r reporter \<Rightarrow> nat \<Rightarrow> nat \<Rightarrow> fdesc \<Rightarrow> ('r sstate, go_error) act" where
  "checkFileLocked rep h s f =
     Descriptors (fd_file f) (\<lambda>d st. check_symbol rep h (symbols (node st s)) (sourceSpanFor f d) d st)"

text \<open>\<open>checkResultLocked\<close> keeps the result's own symbols in the local map \<open>resultSyms\<close>.\<close>

definition check_result_elem ::
  "'r reporter \<Rightarrow> nat \<Rightarrow> nat \<Rightarrow> dinfo elem \<Rightarrow> ((full_name \<rightharpoonup> symbol_entry) \<times> 'r sstate, go_error) act" where
  "check_result_elem rep h s d = (\<lambda>(resultSyms, st).
     let sp = name_node (elem_data d);
         (err, st) = check_symbol rep h (symbols (node st s)) sp d st
     in case err of
          Some e \<Rightarrow> (Some e, (resultSyms, st))
        | None \<Rightarrow>
            let (err, st) = check_symbol rep h resultSyms sp d st
            in case err of
                 Some e \<Rightarrow> (Some e, (resultSyms, st))
               | None \<Rightarrow> (None, (resultSyms(FullName d \<mapsto>
                   \<lparr>span = sp, isEnumValue = isEnumVal d, isPackage = False\<rparr>), st)))"

definition checkResultLocked :: "'r reporter \<Rightarrow> nat \<Rightarrow> nat \<Rightarrow> fdesc \<Rightarrow> ('r sstate, go_error) act" where
  "checkResultLocked rep h s r st =
     (let (err, (_, st)) = Descriptors (fd_file r) (check_result_elem rep h s) (Map.empty, st) in (err, st))"

definition entry_of :: "fdesc \<Rightarrow> dinfo elem \<Rightarrow> symbol_entry" where
  "entry_of f d = \<lparr>span = sourceSpanFor f d, isEnumValue = isEnumVal d, isPackage = False\<rparr>"

definition commit_symbol :: "nat \<Rightarrow> fdesc \<Rightarrow> dinfo elem \<Rightarrow> ('r sstate, go_error) act" where
  "commit_symbol s f d st =
     (let x = node st s in (None, put_node st s (x\<lparr>symbols := (symbols x)(FullName d \<mapsto> entry_of f d)\<rparr>)))"

definition commitFileLocked :: "nat \<Rightarrow> fdesc \<Rightarrow> 'r sstate \<Rightarrow> 'r sstate" where
  "commitFileLocked s f st =
     (let (_, st) = Descriptors (fd_file f) (commit_symbol s f) st; x = node st s
      in put_node st s (x\<lparr>sfiles := insert (fd_id f) (sfiles x)\<rparr>))"

text \<open>\<open>importFile\<close> and \<open>importResult\<close> share the shape check, ask the handler, commit.\<close>

definition check_and_commit ::
  "('r sstate, go_error) act \<Rightarrow> nat \<Rightarrow> nat \<Rightarrow> fdesc \<Rightarrow> 'r sstate \<Rightarrow> (bool \<times> go_error option) \<times> 'r sstate" where
  "check_and_commit check h s fd st =
     (if fd_id fd \<in> sfiles (node st s) then ((False, None), st)
      else let (err, st) = check st
           in case err of
                Some e \<Rightarrow> ((False, Some e), st)
              | None \<Rightarrow>
                  case Handler_Error h (shst st) of
                    Some e \<Rightarrow> ((False, Some e), st)
                  | None \<Rightarrow> ((True, None), commitFileLocked s fd st))"

definition importFile ::
  "'r reporter \<Rightarrow> nat \<Rightarrow> nat \<Rightarrow> fdesc \<Rightarrow> 'r sstate \<Rightarrow> (bool \<times> go_error option) \<times> 'r sstate" where
  "importFile rep h s fd = check_and_commit (checkFileLocked rep h s fd) h s fd"

definition package_importResult ::
  "'r reporter \<Rightarrow> nat \<Rightarrow> nat \<Rightarrow> fdesc \<Rightarrow> 'r sstate \<Rightarrow> (bool \<times> go_error option) \<times> 'r sstate" where
  "package_importResult rep h s r = check_and_commit (checkResultLocked rep h s r) h s r"

definition importResult :: "'r reporter \<Rightarrow> nat \<Rightarrow> fdesc \<Rightarrow> ('r sstate, go_error) act" where
  "importResult rep h r st =
     (case importPackages rep h (packageNameSpan r) (fpackage (fd_file r)) st of
        ((Some pkg, None), st) \<Rightarrow> (let ((_, err), st) = package_importResult rep h pkg r st in (err, st))
      | ((_, err), st) \<Rightarrow> (err, st))"

section \<open>Extensions\<close>

definition addExtension ::
  "'r reporter \<Rightarrow> nat \<Rightarrow> nat \<Rightarrow> full_name \<Rightarrow> int \<Rightarrow> source_span \<Rightarrow> ('r sstate, go_error) act" where
  "addExtension rep h s extendee tag sp st =
     (case exts (node st s) (extendee, tag) of
        Some existing \<Rightarrow> report rep h sp (''extension with tag '' @ show_int tag @ '' for message '' @ extendee @
          '' already defined at '' @ show_pos (Start existing)) st
      | None \<Rightarrow> let x = node st s in (None, put_node st s (x\<lparr>exts := (exts x)((extendee, tag) \<mapsto> sp)\<rparr>)))"

definition AddExtension ::
  "'r reporter \<Rightarrow> nat \<Rightarrow> full_name \<Rightarrow> full_name \<Rightarrow> int \<Rightarrow> source_span \<Rightarrow> ('r sstate, go_error) act" where
  "AddExtension rep h pkg extendee tag sp st =
     (if pkg \<noteq> [] \<and> \<not> HasPrefix extendee (pkg @ ''.'')
      then report rep h sp (''could not register extension: extendee '' @ quoted extendee @
             '' does not match package '' @ quoted pkg) st
      else case getPackage (stab st) pkg True of
             None \<Rightarrow> report rep h sp (''could not register extension: missing package symbols for '' @ quoted pkg) st
           | Some pkgSyms \<Rightarrow> addExtension rep h pkgSyms extendee tag sp st)"

definition AddExtensionDeclaration ::
  "'r reporter \<Rightarrow> nat \<Rightarrow> full_name \<Rightarrow> full_name \<Rightarrow> int \<Rightarrow> source_span \<Rightarrow> ('r sstate, go_error) act" where
  "AddExtensionDeclaration rep h extension extendee tag sp st =
     (case extDecls (stab st) extension of
        Some existing \<Rightarrow>
          if ed_extendee existing = extendee \<and> ed_tag existing = tag then (None, st)
          else report rep h sp (''extension '' @ extension @ '' already declared as extending '' @
                 ed_extendee existing @ '' with tag '' @ show_int (ed_tag existing) @ '' at '' @
                 show_pos (Start (ed_span existing))) st
      | None \<Rightarrow> (None, st\<lparr>stab := (stab st)\<lparr>extDecls := (extDecls (stab st))(extension \<mapsto>
                 \<lparr>ed_span = sp, ed_extendee = extendee, ed_tag = tag\<rparr>)\<rparr>\<rparr>))"

definition file_extension :: "'r reporter \<Rightarrow> nat \<Rightarrow> (dinfo leaf \<Rightarrow> source_span) \<Rightarrow> dinfo elem \<Rightarrow> ('r sstate, go_error) act" where
  "file_extension rep h sp d =
     (case d of
        EExtension fld \<Rightarrow>
          AddExtension rep h (ext_package (leaf_data fld)) (ext_extendee (leaf_data fld))
            (fld_number (leaf_data fld)) (sp fld)
      | _ \<Rightarrow> skip)"

definition with_extensions ::
  "('r sstate \<Rightarrow> (bool \<times> go_error option) \<times> 'r sstate) \<Rightarrow> 'r reporter \<Rightarrow> nat \<Rightarrow>
   (dinfo leaf \<Rightarrow> source_span) \<Rightarrow> fdesc \<Rightarrow> ('r sstate, go_error) act" where
  "with_extensions imp rep h sp fd st =
     (case imp st of
        ((_, Some err), st) \<Rightarrow> (Some err, st)
      | ((False, None), st) \<Rightarrow> (None, st)
      | ((True, None), st) \<Rightarrow> Descriptors (fd_file fd) (file_extension rep h sp) st)"

definition importFileWithExtensions :: "'r reporter \<Rightarrow> nat \<Rightarrow> nat \<Rightarrow> fdesc \<Rightarrow> ('r sstate, go_error) act" where
  "importFileWithExtensions rep h pkg fd =
     with_extensions (importFile rep h pkg fd) rep h (sourceSpanForNumber fd) fd"

definition importResultWithExtensions :: "'r reporter \<Rightarrow> nat \<Rightarrow> nat \<Rightarrow> fdesc \<Rightarrow> ('r sstate, go_error) act" where
  "importResultWithExtensions rep h pkg r =
     with_extensions (package_importResult rep h pkg r) rep h (\<lambda>fld. tag_node (leaf_data fld)) r"

section \<open>Import and lookup\<close>

definition import_here :: "'r reporter \<Rightarrow> nat \<Rightarrow> nat \<Rightarrow> fdesc \<Rightarrow> ('r sstate, go_error) act" where
  "import_here rep h pkg fd =
     (if fd_result fd \<and> fd_hasSource fd then importResultWithExtensions rep h pkg fd
      else importFileWithExtensions rep h pkg fd)"

definition package_span :: "fdesc \<Rightarrow> source_span" where
  "package_span fd = (if fd_result fd then packageNameSpan fd else sourceSpanForPackage fd)"

fun Import :: "'r reporter \<Rightarrow> nat \<Rightarrow> fdesc \<Rightarrow> ('r sstate, go_error) act"
and import_all :: "'r reporter \<Rightarrow> nat \<Rightarrow> fdesc list \<Rightarrow> ('r sstate, go_error) act" where
  "Import rep h (FDesc i path res src pkgs locs f imports) st =
     (let fd = FDesc i path res src pkgs locs f imports
      in case importPackages rep h (package_span fd) (fpackage f) st of
           ((_, Some err), st) \<Rightarrow> (Some err, st)
         | ((None, None), st) \<Rightarrow> (None, st)
         | ((Some pkg, None), st) \<Rightarrow>
             if i \<in> sfiles (node st pkg) then (None, st)
             else andThen (import_all rep h imports) (import_here rep h pkg fd) st)"
| "import_all rep h [] st = (None, st)"
| "import_all rep h (fd # fds) st = andThen (Import rep h fd) (import_all rep h fds) st"

definition Lookup :: "symtab \<Rightarrow> full_name \<Rightarrow> source_span option" where
  "Lookup t name =
     (case getPackage t name False of
        Some pkgSyms \<Rightarrow> map_option span (symbols (nodes t ! pkgSyms) name)
      | None \<Rightarrow> None)"

definition LookupExtension :: "symtab \<Rightarrow> full_name \<Rightarrow> int \<Rightarrow> source_span option" where
  "LookupExtension t messageName extensionNumber =
     (case getPackage t messageName False of
        Some pkgSyms \<Rightarrow> exts (nodes t ! pkgSyms) (messageName, extensionNumber)
      | None \<Rightarrow> None)"

section \<open>The prefixes of a name\<close>

lemma filter_upt_first:
  assumes "k = s + length (takeWhile (\<lambda>x. x \<noteq> c) (drop s xs))"
  shows "filter (\<lambda>i. xs ! i = c) [s..<length xs] =
    (if k < length xs then k # filter (\<lambda>i. xs ! i = c) [Suc k..<length xs] else [])"
proof -
  have none: "xs ! i \<noteq> c" if "s \<le> i" "i < k" for i
  proof -
    have "i - s < length (takeWhile (\<lambda>x. x \<noteq> c) (drop s xs))" using that assms by simp
    have "takeWhile (\<lambda>x. x \<noteq> c) (drop s xs) ! (i - s) \<noteq> c"
      using nth_mem [OF \<open>i - s < _\<close>] by (auto dest: set_takeWhileD)
    moreover have "takeWhile (\<lambda>x. x \<noteq> c) (drop s xs) ! (i - s) = drop s xs ! (i - s)"
      using \<open>i - s < _\<close> by (rule takeWhile_nth)
    moreover have "s \<le> length xs" using \<open>i - s < _\<close> by (cases "s \<le> length xs") auto
    ultimately show ?thesis using that by simp
  qed
  have le: "length (takeWhile (\<lambda>x. x \<noteq> c) (drop s xs)) \<le> length xs - s"
    using length_takeWhile_le [of _ "drop s xs"] by simp
  show ?thesis
  proof (cases "k < length xs")
    case True
    then have "length (takeWhile (\<lambda>x. x \<noteq> c) (drop s xs)) < length (drop s xs)" using assms by simp
    from nth_length_takeWhile [OF this] True assms have "xs ! k = c" by simp
    moreover have "[s..<length xs] = [s..<k] @ k # [Suc k..<length xs]"
      using True assms upt_add_eq_append [of s k "length xs - k"] by (simp add: upt_conv_Cons)
    ultimately show ?thesis using True none by (simp add: filter_empty_conv)
  next
    case False
    then show ?thesis using none by (auto simp: filter_empty_conv)
  qed
qed

definition prefixes_from :: "full_name \<Rightarrow> nat \<Rightarrow> full_name list" where
  "prefixes_from n s = map (\<lambda>i. take i n) (filter (\<lambda>i. n ! i = CHR ''.'') [s..<length n]) @ [n]"

lemma enum_all_prefixes: "enum_all \<lparr>ne_name = n, ne_start = int s\<rparr> = prefixes_from n s"
proof (induction "length n + 1 - s" arbitrary: s rule: less_induct)
  case less
  let ?k = "s + length (takeWhile (\<lambda>x. x \<noteq> CHR ''.'') (drop s n))"
  have stop: "enum_all \<lparr>ne_name = n, ne_start = - 1\<rparr> = []"
    by (subst enum_all.simps) (simp add: nameEnumerator_next_def)
  have k: "?k < length n \<longleftrightarrow> length (takeWhile (\<lambda>x. x \<noteq> CHR ''.'') (drop s n)) < length (drop s n)"
    by auto
  have pos: "IndexByte (drop s n) (CHR ''.'') = (if ?k < length n then int (?k - s) else - 1)"
    unfolding k by (simp add: IndexByte_def Let_def)
  have step: "enum_all \<lparr>ne_name = n, ne_start = int s\<rparr> =
      (if ?k < length n then take ?k n # enum_all \<lparr>ne_name = n, ne_start = int (Suc ?k)\<rparr>
       else [n])"
  proof (cases "?k < length n")
    case True
    then have "nameEnumerator_next \<lparr>ne_name = n, ne_start = int s\<rparr> =
        ((take ?k n, True), \<lparr>ne_name = n, ne_start = int (Suc ?k)\<rparr>)"
      unfolding nameEnumerator_next_def by (simp add: pos Let_def nat_add_distrib add.commute)
    with True show ?thesis by (subst enum_all.simps) simp
  next
    case False
    then have "nameEnumerator_next \<lparr>ne_name = n, ne_start = int s\<rparr> = ((n, True), \<lparr>ne_name = n, ne_start = - 1\<rparr>)"
      unfolding nameEnumerator_next_def by (simp add: pos)
    with False stop show ?thesis by (subst enum_all.simps) simp
  qed
  have split: "prefixes_from n s = (if ?k < length n then take ?k n # prefixes_from n (Suc ?k) else [n])"
    unfolding prefixes_from_def by (subst filter_upt_first [OF refl]) simp
  show ?case
  proof (cases "?k < length n")
    case True
    have "length n + 1 - Suc ?k < length n + 1 - s" using True by simp
    from less [OF this] True show ?thesis by (simp only: step split if_True)
  qed (simp only: step split if_False)
qed

section \<open>The handler as the table sees it\<close>

definition sst_ok :: "nat \<Rightarrow> 'r sstate \<Rightarrow> bool" where
  "sst_ok h st \<longleftrightarrow> hstore_ok (shst st) \<and> h < length (handlers (shst st))"

lemma report_effect:
  assumes "sst_ok h st" "report rep h sp msg st = (res, st')"
  shows "stab st' = stab st \<and> sst_ok h st' \<and> Handler_Error h (shst st') \<noteq> None"
proof -
  obtain hs where hs: "HandleError rep h (Errorf sp msg) (shst st) = (res, hs)" "st' = st\<lparr>shst := hs\<rparr>"
    using assms(2) by (auto simp: report_def HandleErrorf_def split: prod.splits)
  note ok = assms(1) [unfolded sst_ok_def, THEN conjunct1] assms(1) [unfolded sst_ok_def, THEN conjunct2]
  show ?thesis
    using HandleError_frame [OF ok hs(1)] Handler_Error_after [OF ok hs(1)] assms(1) hs(2)
    by (auto simp: sst_ok_def hstore_ok_def)
qed

lemma reportSymbolCollision_report:
  "\<exists>sp' msg. reportSymbolCollision rep h sp fqn ev ex = report rep h sp' msg"
  unfolding reportSymbolCollision_def Let_def case_prod_beta by blast

lemma reportSymbolCollision_effect:
  assumes "sst_ok h st" "reportSymbolCollision rep h sp fqn ev ex st = (res, st')"
  shows "stab st' = stab st \<and> sst_ok h st' \<and> Handler_Error h (shst st') \<noteq> None"
  using assms report_effect reportSymbolCollision_report [of rep h sp fqn ev ex] by metis

text \<open>A check either finds nothing and changes nothing, or leaves an error with the handler. It never
  touches the table.\<close>

definition check_outcome :: "nat \<Rightarrow> 'r sstate \<Rightarrow> bool \<Rightarrow> go_error option \<Rightarrow> 'r sstate \<Rightarrow> bool" where
  "check_outcome h st clean res st' \<longleftrightarrow> stab st' = stab st \<and> sst_ok h st' \<and>
     (if clean then res = None \<and> st' = st else Handler_Error h (shst st') \<noteq> None)"

lemma check_symbol_outcome:
  assumes "sst_ok h st" "check_symbol rep h syms sp d st = (res, st')"
  shows "check_outcome h st (syms (FullName d) = None) res st'"
  using assms reportSymbolCollision_effect [OF assms(1)]
  by (auto simp: check_symbol_def check_outcome_def skip_def split: option.splits)

lemma check_outcome_then:
  assumes "check_outcome h st c None st1" "check_outcome h st1 c' res st2"
  shows "check_outcome h st (c \<and> c') res st2"
  using assms by (auto simp: check_outcome_def split: if_splits)

lemma check_outcome_stop: "check_outcome h st c (Some e) st1 \<Longrightarrow> check_outcome h st (c \<and> c') (Some e) st1"
  by (auto simp: check_outcome_def split: if_splits)

definition fresh :: "'r sstate \<Rightarrow> nat \<Rightarrow> dinfo elem list \<Rightarrow> bool" where
  "fresh st s ds \<longleftrightarrow> (\<forall>d \<in> set ds. symbols (node st s) (FullName d) = None)"

lemma fresh_cong: "stab st' = stab st \<Longrightarrow> fresh st' s ds = fresh st s ds"
  by (simp add: fresh_def)

lemma check_file_elems:
  assumes "sst_ok h st"
    "run_all (map (\<lambda>d st. check_symbol rep h (symbols (node st s)) (sp d) d st) ds) st = (res, st')"
  shows "check_outcome h st (fresh st s ds) res st'"
  using assms
proof (induction ds arbitrary: st)
  case Nil
  then show ?case by (simp add: skip_def check_outcome_def fresh_def)
next
  case (Cons d ds)
  obtain r1 st1 where 1: "check_symbol rep h (symbols (node st s)) (sp d) d st = (r1, st1)" by fastforce
  note o1 = check_symbol_outcome [OF Cons.prems(1) 1]
  have fr: "fresh st s (d # ds) = (symbols (node st s) (FullName d) = None \<and> fresh st s ds)"
    by (auto simp: fresh_def)
  show ?case
  proof (cases r1)
    case None
    with Cons.prems(2) 1 have 2: "run_all (map (\<lambda>d st. check_symbol rep h (symbols (node st s)) (sp d) d st) ds) st1 = (res, st')"
      by (simp add: andThen_def)
    have "sst_ok h st1" "fresh st1 s ds = fresh st s ds" using o1 by (auto simp: check_outcome_def fresh_def)
    with Cons.IH [OF _ 2] o1 None show ?thesis by (simp add: fr check_outcome_then)
  next
    case (Some e)
    with Cons.prems(2) 1 o1 show ?thesis by (auto simp: andThen_def fr intro: check_outcome_stop)
  qed
qed

lemma check_result_elems:
  assumes "sst_ok h st" "run_all (map (check_result_elem rep h s) ds) (rs, st) = (res, (rs', st'))"
  shows "check_outcome h st
    (fresh st s ds \<and> (\<forall>d \<in> set ds. rs (FullName d) = None) \<and> distinct (map FullName ds)) res st'"
  using assms
proof (induction ds arbitrary: st rs)
  case Nil
  then show ?case by (simp add: skip_def check_outcome_def fresh_def)
next
  case (Cons d ds)
  let ?sp = "name_node (elem_data d)" and ?ds = "\<lambda>rs. \<forall>d \<in> set ds. rs (FullName d) = None"
  let ?rs = "rs(FullName d \<mapsto> \<lparr>span = ?sp, isEnumValue = isEnumVal d, isPackage = False\<rparr>)"
  let ?c1 = "symbols (node st s) (FullName d) = None" and ?c2 = "rs (FullName d) = None"
  have fr: "(fresh st s (d # ds) \<and> (\<forall>d \<in> set (d # ds). rs (FullName d) = None) \<and> distinct (map FullName (d # ds))) =
      (?c1 \<and> ?c2 \<and> fresh st s ds \<and> ?ds ?rs \<and> distinct (map FullName ds))"
    by (auto simp: fresh_def) (metis image_eqI)
  obtain r1 st1 where 1: "check_symbol rep h (symbols (node st s)) ?sp d st = (r1, st1)" by fastforce
  obtain r2 st2 where 2: "check_symbol rep h rs ?sp d st1 = (r2, st2)" by fastforce
  note o1 = check_symbol_outcome [OF Cons.prems(1) 1]
  then have ok1: "sst_ok h st1" by (simp add: check_outcome_def)
  note o2 = check_symbol_outcome [OF ok1 2]
  then have ok2: "sst_ok h st2" "fresh st2 s ds = fresh st s ds" using o1
    by (auto simp: check_outcome_def fresh_def)
  show ?case
  proof (cases r1)
    case (Some e)
    with Cons.prems(2) 1 have "res = Some e" "st' = st1" by (auto simp: andThen_def check_result_elem_def)
    with o1 Some show ?thesis unfolding fr by (auto intro: check_outcome_stop)
  next
    case None
    show ?thesis
    proof (cases r2)
      case (Some e)
      with Cons.prems(2) 1 2 None have "res = Some e" "st' = st2"
        by (auto simp: andThen_def check_result_elem_def)
      with check_outcome_then [OF o1 [unfolded None] o2] Some show ?thesis
        unfolding fr by (auto simp flip: conj_assoc intro: check_outcome_stop)
    next
      case r2: None
      with Cons.prems(2) 1 2 None have run: "run_all (map (check_result_elem rep h s) ds) (?rs, st2) = (res, (rs', st'))"
        by (simp add: andThen_def check_result_elem_def [of rep h s d])
      note o12 = check_outcome_then [OF o1 [unfolded None] o2 [unfolded r2]]
      show ?thesis using check_outcome_then [OF o12 Cons.IH [OF ok2(1) run]] unfolding fr ok2(2) by simp
    qed
  qed
qed

section \<open>Committing\<close>

definition entries :: "fdesc \<Rightarrow> (full_name \<rightharpoonup> symbol_entry)" where
  "entries f = map_of (rev (map (\<lambda>d. (FullName d, entry_of f d)) (file_elems (fd_file f))))"

definition committed :: "nat \<Rightarrow> fdesc \<Rightarrow> symtab \<Rightarrow> symtab" where
  "committed s f t =
     (let x = nodes t ! s
      in t\<lparr>nodes := (nodes t)[s := x\<lparr>symbols := symbols x ++ entries f, sfiles := insert (fd_id f) (sfiles x)\<rparr>]\<rparr>)"

lemma commit_symbols:
  "s < length (nodes (stab st)) \<Longrightarrow> run_all (map (commit_symbol s f) ds) st =
     (None, put_node st s ((node st s)\<lparr>symbols := symbols (node st s) ++
        map_of (rev (map (\<lambda>d. (FullName d, entry_of f d)) ds))\<rparr>))"
  by (induction ds arbitrary: st) (simp_all add: skip_def andThen_def commit_symbol_def Let_def)

lemma commitFileLocked_committed:
  "s < length (nodes (stab st)) \<Longrightarrow> commitFileLocked s f st = st\<lparr>stab := committed s f (stab st)\<rparr>"
  by (simp add: commitFileLocked_def Descriptors_run commit_symbols committed_def entries_def Let_def)

lemma entries_Some: "entries f n = Some e \<Longrightarrow> \<exists>d \<in> set (file_elems (fd_file f)). FullName d = n \<and> e = entry_of f d"
  by (auto simp: entries_def dest!: map_of_SomeD)

lemma entries_None: "entries f n = None \<longleftrightarrow> n \<notin> FullName ` set (file_elems (fd_file f))"
  by (auto simp: entries_def map_of_eq_None_iff image_comp comp_def)

lemma entries_distinct:
  "distinct (map FullName (file_elems (fd_file f))) \<Longrightarrow> d \<in> set (file_elems (fd_file f)) \<Longrightarrow>
     entries f (FullName d) = Some (entry_of f d)"
  unfolding entries_def by (rule map_of_is_SomeI) (auto simp: comp_def rev_map [symmetric])

section \<open>Check, ask, commit\<close>

text \<open>The contract \<open>importFile\<close> and \<open>importResult\<close> ask of their first pass, and what they give in turn.\<close>

locale checker =
  fixes check :: "('r sstate, go_error) act" and h :: nat and clean :: "'r sstate \<Rightarrow> bool"
  assumes check: "sst_ok h st \<Longrightarrow> check st = (res, st') \<Longrightarrow> check_outcome h st (clean st) res st'"
begin

lemma commits:
  assumes "sst_ok h st" "s < length (nodes (stab st))"
    and "check_and_commit check h s fd st = ((ok, err), st')"
  shows "sst_ok h st' \<and> (Handler_Error h (shst st') = None \<longrightarrow> shst st' = shst st) \<and>
    (ok \<longleftrightarrow> fd_id fd \<notin> sfiles (node st s) \<and> clean st \<and> Handler_Error h (shst st) = None) \<and>
    (if ok then err = None \<and> st' = st\<lparr>stab := committed s fd (stab st)\<rparr>
     else stab st' = stab st \<and> (fd_id fd \<notin> sfiles (node st s) \<longrightarrow> err \<noteq> None))"
proof (cases "fd_id fd \<in> sfiles (node st s)")
  case True
  with assms show ?thesis by (simp add: check_and_commit_def)
next
  case False
  obtain res st1 where c: "check st = (res, st1)" by fastforce
  note o = check [OF assms(1) c]
  show ?thesis
  proof (cases "res = None \<and> Handler_Error h (shst st1) = None")
    case True
    with o have "clean st" "st1 = st" by (auto simp: check_outcome_def split: if_splits)
    with False True c assms show ?thesis
      by (auto simp: check_and_commit_def commitFileLocked_committed sst_ok_def)
  next
    case nok: False
    with c False assms(3) have "\<not> ok" "err \<noteq> None" "st' = st1"
      by (auto simp: check_and_commit_def split: option.splits) metis
    moreover from nok o have "\<not> (clean st \<and> Handler_Error h (shst st) = None)"
      by (auto simp: check_outcome_def)
    ultimately show ?thesis using o by (auto simp: check_outcome_def split: if_splits)
  qed
qed

end

interpretation filecheck: checker "checkFileLocked rep h s f" h "\<lambda>st. fresh st s (file_elems (fd_file f))"
  by unfold_locales (simp add: checkFileLocked_def Descriptors_run check_file_elems)

interpretation resultcheck: checker "checkResultLocked rep h s f" h
  "\<lambda>st. fresh st s (file_elems (fd_file f)) \<and> distinct (map FullName (file_elems (fd_file f)))"
proof (unfold_locales, goal_cases)
  case (1 st res st')
  then obtain rs' where "run_all (map (check_result_elem rep h s) (file_elems (fd_file f))) (Map.empty, st) = (res, (rs', st'))"
    by (auto simp: checkResultLocked_def Descriptors_run split: prod.splits)
  from check_result_elems [OF 1(1) this] show ?case by simp
qed

lemma importFile_commits:
  assumes "sst_ok h st" "s < length (nodes (stab st))" "importFile rep h s fd st = ((ok, err), st')"
  shows "sst_ok h st' \<and> (Handler_Error h (shst st') = None \<longrightarrow> shst st' = shst st) \<and>
    (ok \<longleftrightarrow> fd_id fd \<notin> sfiles (node st s) \<and> fresh st s (file_elems (fd_file fd)) \<and> Handler_Error h (shst st) = None) \<and>
    (if ok then err = None \<and> st' = st\<lparr>stab := committed s fd (stab st)\<rparr>
     else stab st' = stab st \<and> (fd_id fd \<notin> sfiles (node st s) \<longrightarrow> err \<noteq> None))"
  using filecheck.commits [OF assms(1,2) assms(3) [unfolded importFile_def]] .

lemma importResult_commits:
  assumes "sst_ok h st" "s < length (nodes (stab st))" "package_importResult rep h s fd st = ((ok, err), st')"
  shows "sst_ok h st' \<and> (Handler_Error h (shst st') = None \<longrightarrow> shst st' = shst st) \<and>
    (ok \<longleftrightarrow> fd_id fd \<notin> sfiles (node st s) \<and> (fresh st s (file_elems (fd_file fd)) \<and>
       distinct (map FullName (file_elems (fd_file fd)))) \<and> Handler_Error h (shst st) = None) \<and>
    (if ok then err = None \<and> st' = st\<lparr>stab := committed s fd (stab st)\<rparr>
     else stab st' = stab st \<and> (fd_id fd \<notin> sfiles (node st s) \<longrightarrow> err \<noteq> None))"
  using resultcheck.commits [OF assms(1,2) assms(3) [unfolded package_importResult_def]] .

section \<open>The table as an abstract machine\<close>

text \<open>What the operations may do to the table, as a step relation: declare a package, record an
  extension tag, record an extension declaration, or commit a whole file of the set \<open>D\<close> whose names
  are all new. Every operation is shown to be a sequence of such steps.\<close>

definition with_package :: "nat \<Rightarrow> full_name \<Rightarrow> source_span \<Rightarrow> symtab \<Rightarrow> symtab" where
  "with_package s pkg sp t =
     (let x = nodes t ! s
      in t\<lparr>nodes := (nodes t)[s := x\<lparr>symbols := (symbols x)(pkg \<mapsto> \<lparr>span = sp, isEnumValue = False, isPackage = True\<rparr>),
             children := (children x)(pkg \<mapsto> length (nodes t))\<rparr>] @ [empty_package]\<rparr>)"

definition with_extension :: "nat \<Rightarrow> full_name \<times> int \<Rightarrow> source_span \<Rightarrow> symtab \<Rightarrow> symtab" where
  "with_extension s key sp t =
     (let x = nodes t ! s in t\<lparr>nodes := (nodes t)[s := x\<lparr>exts := (exts x)(key \<mapsto> sp)\<rparr>]\<rparr>)"

inductive tstep :: "fdesc set \<Rightarrow> symtab \<Rightarrow> symtab \<Rightarrow> bool" for D where
  new_package: "s < length (nodes t) \<Longrightarrow> symbols (nodes t ! s) pkg = None \<Longrightarrow> tstep D t (with_package s pkg sp t)"
| new_extension: "s < length (nodes t) \<Longrightarrow> exts (nodes t ! s) key = None \<Longrightarrow> tstep D t (with_extension s key sp t)"
| new_declaration: "extDecls t n = None \<Longrightarrow> tstep D t (t\<lparr>extDecls := (extDecls t)(n \<mapsto> decl)\<rparr>)"
| new_file: "s < length (nodes t) \<Longrightarrow> fd \<in> D \<Longrightarrow> fd_id fd \<notin> sfiles (nodes t ! s) \<Longrightarrow>
    (\<forall>d \<in> set (file_elems (fd_file fd)). symbols (nodes t ! s) (FullName d) = None) \<Longrightarrow>
    tstep D t (committed s fd t)"

abbreviation tsteps :: "fdesc set \<Rightarrow> symtab \<Rightarrow> symtab \<Rightarrow> bool" where
  "tsteps D \<equiv> (tstep D)\<^sup>*\<^sup>*"

subsection \<open>Invariant and growth\<close>

definition node_ok :: "nat \<Rightarrow> nat \<Rightarrow> package_symbols \<Rightarrow> bool" where
  "node_ok len n x \<longleftrightarrow> (\<forall>p c. children x p = Some c \<longrightarrow> n < c \<and> c < len) \<and>
     (\<forall>p. children x p \<noteq> None \<longleftrightarrow> (\<exists>e. symbols x p = Some e \<and> isPackage e))"

lemma node_ok_child: "node_ok len n x \<Longrightarrow> children x p = Some c \<Longrightarrow> n < c \<and> c < len"
  by (simp add: node_ok_def)

lemma node_ok_package: "node_ok len n x \<Longrightarrow> children x p \<noteq> None \<longleftrightarrow> (\<exists>e. symbols x p = Some e \<and> isPackage e)"
  by (simp add: node_ok_def)

lemma node_ok_more: "node_ok len n x \<Longrightarrow> len \<le> len' \<Longrightarrow> node_ok len' n x"
  by (auto simp: node_ok_def intro: less_le_trans)

definition symtab_ok :: "symtab \<Rightarrow> bool" where
  "symtab_ok t \<longleftrightarrow> nodes t \<noteq> [] \<and> (\<forall>n < length (nodes t). node_ok (length (nodes t)) n (nodes t ! n))"

lemma symtab_ok_node: "symtab_ok t \<Longrightarrow> s < length (nodes t) \<Longrightarrow> node_ok (length (nodes t)) s (nodes t ! s)"
  by (simp add: symtab_ok_def)

text \<open>The table only grows: no symbol, extension, package, file or declaration is lost or changed.\<close>

definition node_grows :: "package_symbols \<Rightarrow> package_symbols \<Rightarrow> bool" where
  "node_grows x y \<longleftrightarrow> children x \<subseteq>\<^sub>m children y \<and> sfiles x \<subseteq> sfiles y \<and> symbols x \<subseteq>\<^sub>m symbols y \<and>
     exts x \<subseteq>\<^sub>m exts y"

definition grows :: "symtab \<Rightarrow> symtab \<Rightarrow> bool" where
  "grows t t' \<longleftrightarrow> length (nodes t) \<le> length (nodes t') \<and> extDecls t \<subseteq>\<^sub>m extDecls t' \<and>
     (\<forall>n < length (nodes t). node_grows (nodes t ! n) (nodes t' ! n))"

lemma grows_child:
  "grows t t' \<Longrightarrow> n < length (nodes t) \<Longrightarrow> children (nodes t ! n) p = Some c \<Longrightarrow> children (nodes t' ! n) p = Some c"
  by (simp add: grows_def node_grows_def map_le_def) (metis domI)

lemma grows_symbol:
  "grows t t' \<Longrightarrow> n < length (nodes t) \<Longrightarrow> symbols (nodes t ! n) p = Some e \<Longrightarrow> symbols (nodes t' ! n) p = Some e"
  by (simp add: grows_def node_grows_def map_le_def) (metis domI)

lemma node_grows_refl [simp, intro]: "node_grows x x"
  by (simp add: node_grows_def)

lemma grows_refl [simp, intro]: "grows t t"
  by (simp add: grows_def)

lemma node_grows_trans: "node_grows x y \<Longrightarrow> node_grows y z \<Longrightarrow> node_grows x z"
  unfolding node_grows_def by (meson map_le_trans subset_trans)

lemma grows_trans:
  assumes "grows t t'" "grows t' t''"
  shows "grows t t''"
  unfolding grows_def
proof (intro conjI allI impI)
  show "length (nodes t) \<le> length (nodes t'')" using assms by (simp add: grows_def)
  show "extDecls t \<subseteq>\<^sub>m extDecls t''" using assms map_le_trans by (auto simp: grows_def)
  show "node_grows (nodes t ! n) (nodes t'' ! n)" if "n < length (nodes t)" for n
    using assms that node_grows_trans [of "nodes t ! n" "nodes t' ! n" "nodes t'' ! n"] by (auto simp: grows_def)
qed

lemma update_node_ok:
  assumes "symtab_ok t" "s < length (nodes t)" "node_ok (length (nodes t)) s x" "node_grows (nodes t ! s) x"
  shows "symtab_ok (t\<lparr>nodes := (nodes t)[s := x]\<rparr>) \<and> grows t (t\<lparr>nodes := (nodes t)[s := x]\<rparr>)"
  using assms by (auto simp: symtab_ok_def grows_def nth_list_update_if)

lemma with_package_ok:
  assumes t: "symtab_ok t" and s: "s < length (nodes t)" and new: "symbols (nodes t ! s) pkg = None"
  shows "symtab_ok (with_package s pkg sp t) \<and> grows t (with_package s pkg sp t)"
proof -
  let ?x = "(nodes t ! s)\<lparr>symbols := (symbols (nodes t ! s))(pkg \<mapsto> \<lparr>span = sp, isEnumValue = False, isPackage = True\<rparr>),
      children := (children (nodes t ! s))(pkg \<mapsto> length (nodes t))\<rparr>"
  have ok: "node_ok (length (nodes t)) s (nodes t ! s)" using symtab_ok_node [OF t s] .
  have nochild: "children (nodes t ! s) pkg = None" using node_ok_package [OF ok, of pkg] new by simp
  have x: "node_ok (Suc (length (nodes t))) s ?x" using ok s unfolding node_ok_def by (auto simp: less_SucI)
  have e: "node_ok len n empty_package" for len n by (simp add: node_ok_def empty_package_def)
  have "node_ok (Suc (length (nodes t))) n (nodes (with_package s pkg sp t) ! n)" if "n < Suc (length (nodes t))" for n
  proof (cases "n < length (nodes t)")
    case True
    with s x node_ok_more [OF symtab_ok_node [OF t True], of "Suc (length (nodes t))"] show ?thesis
      by (cases "n = s") (simp_all add: with_package_def Let_def nth_append)
  next
    case False
    with that have "n = length (nodes t)" by simp
    then show ?thesis using e by (simp add: with_package_def Let_def nth_append)
  qed
  then have "symtab_ok (with_package s pkg sp t)" by (simp add: symtab_ok_def with_package_def Let_def)
  moreover have "node_grows (nodes t ! s) ?x" using nochild new by (auto simp: node_grows_def map_le_def)
  ultimately show ?thesis using s
    by (auto simp: grows_def with_package_def Let_def nth_append nth_list_update_if)
qed

lemma with_extension_ok:
  assumes "symtab_ok t" "s < length (nodes t)" "exts (nodes t ! s) key = None"
  shows "symtab_ok (with_extension s key sp t) \<and> grows t (with_extension s key sp t)"
  unfolding with_extension_def Let_def
  by (rule update_node_ok [OF assms(1,2)])
     (use symtab_ok_node [OF assms(1,2)] assms(3) in \<open>auto simp: node_ok_def node_grows_def map_le_def\<close>)

lemma committed_ok:
  assumes t: "symtab_ok t" and s: "s < length (nodes t)"
    and new: "\<forall>d \<in> set (file_elems (fd_file fd)). symbols (nodes t ! s) (FullName d) = None"
  shows "symtab_ok (committed s fd t) \<and> grows t (committed s fd t)"
  unfolding committed_def Let_def
proof (rule update_node_ok [OF t s])
  let ?y = "nodes t ! s"
  let ?x = "?y\<lparr>symbols := symbols ?y ++ entries fd, sfiles := insert (fd_id fd) (sfiles ?y)\<rparr>"
  have disj: "dom (symbols ?y) \<inter> dom (entries fd) = {}" using new by (fastforce dest: entries_Some)
  have "symbols ?y \<subseteq>\<^sub>m symbols ?y ++ entries fd" using disj by (metis map_add_comm map_le_map_add)
  then show "node_grows ?y ?x" by (auto simp: node_grows_def)
  have pk: "\<not> isPackage e" if "entries fd p = Some e" for e p
    using entries_Some [OF that] by (auto simp: entry_of_def)
  have "(\<exists>e. (symbols ?y ++ entries fd) p = Some e \<and> isPackage e) \<longleftrightarrow> (\<exists>e. symbols ?y p = Some e \<and> isPackage e)" for p
  proof (cases "entries fd p")
    case (Some e)
    then have "symbols ?y p = None" using disj by auto
    with Some pk show ?thesis by (auto simp: map_add_def)
  qed (simp add: map_add_def)
  then show "node_ok (length (nodes t)) s ?x" using symtab_ok_node [OF t s] by (simp add: node_ok_def)
qed

lemma tstep_ok: "tstep D t t' \<Longrightarrow> symtab_ok t \<Longrightarrow> symtab_ok t' \<and> grows t t'"
proof (induction rule: tstep.induct)
  case (new_declaration t n decl)
  then show ?case by (auto simp: symtab_ok_def grows_def map_le_def)
qed (simp_all add: with_package_ok with_extension_ok committed_ok)

lemma tsteps_ok: "tsteps D t t' \<Longrightarrow> symtab_ok t \<Longrightarrow> symtab_ok t' \<and> grows t t'"
  by (induction rule: rtranclp_induct) (auto dest: tstep_ok intro: grows_trans)

text \<open>Every file of the table has its symbols in the table; \<open>F\<close> gives the file of an identity.\<close>

definition files_ok :: "(nat \<Rightarrow> fdesc) \<Rightarrow> symtab \<Rightarrow> bool" where
  "files_ok F t \<longleftrightarrow> (\<forall>n < length (nodes t). \<forall>i \<in> sfiles (nodes t ! n). entries (F i) \<subseteq>\<^sub>m symbols (nodes t ! n))"

lemma tstep_files_ok:
  assumes "tstep D t t'" "symtab_ok t" "files_ok F t" "\<forall>fd \<in> D. F (fd_id fd) = fd"
  shows "files_ok F t'"
proof -
  have new: "entries (F i) \<subseteq>\<^sub>m symbols (nodes t' ! n)"
    if "n < length (nodes t)" "i \<in> sfiles (nodes t ! n)" for n i
    using that assms(3) tstep_ok [OF assms(1,2)] map_le_trans
    by (fastforce simp: files_ok_def grows_def node_grows_def)
  have "n < length (nodes t) \<and> i \<in> sfiles (nodes t ! n) \<or> entries (F i) \<subseteq>\<^sub>m symbols (nodes t' ! n)"
    if "n < length (nodes t')" "i \<in> sfiles (nodes t' ! n)" for n i
    using assms(1) that
  proof cases
    case (new_package s pkg sp)
    then show ?thesis using that
      by (auto simp: with_package_def Let_def nth_append nth_list_update_if empty_package_def split: if_splits)
  next
    case (new_extension s key sp)
    then show ?thesis using that by (auto simp: with_extension_def Let_def nth_list_update_if split: if_splits)
  next
    case (new_declaration m decl)
    then show ?thesis using that by simp
  next
    case (new_file s fd)
    then show ?thesis using that assms(4)
      by (auto simp: committed_def Let_def nth_list_update_if split: if_splits)
  qed
  then show ?thesis using new by (auto simp: files_ok_def)
qed

lemma tsteps_files_ok:
  assumes "tsteps D t t'" "symtab_ok t" "files_ok F t" "\<forall>fd \<in> D. F (fd_id fd) = fd"
  shows "files_ok F t'"
  using assms(1)
proof (induction rule: rtranclp_induct)
  case (step y z)
  then show ?case using tstep_files_ok [OF step(2) _ step(3) assms(4)] tsteps_ok [OF step(1) assms(2)] by blast
qed (use assms in simp)

section \<open>The operations refine the abstract machine\<close>

definition good :: "nat \<Rightarrow> 'r sstate \<Rightarrow> bool" where
  "good h st \<longleftrightarrow> sst_ok h st \<and> symtab_ok (stab st)"

text \<open>What running an operation does: abstract steps on the table, and either the handler is left
  alone or it holds an error in the end.\<close>

definition safe :: "fdesc set \<Rightarrow> nat \<Rightarrow> 'r sstate \<Rightarrow> 'r sstate \<Rightarrow> bool" where
  "safe D h st st' \<longleftrightarrow> sst_ok h st' \<and> tsteps D (stab st) (stab st') \<and>
     (Handler_Error h (shst st') = None \<longrightarrow> shst st' = shst st)"

lemma safe_good: "good h st \<Longrightarrow> safe D h st st' \<Longrightarrow> good h st' \<and> grows (stab st) (stab st')"
  using tsteps_ok by (auto simp: good_def safe_def)

lemma safe_refl: "good h st \<Longrightarrow> safe D h st st"
  by (simp add: safe_def good_def)

lemma safe_trans: "safe D h st st' \<Longrightarrow> safe D h st' st'' \<Longrightarrow> safe D h st st''"
  by (auto simp: safe_def)

lemma safe_step: "good h st \<Longrightarrow> tstep D (stab st) t \<Longrightarrow> safe D h st (st\<lparr>stab := t\<rparr>)"
  by (auto simp: safe_def good_def sst_ok_def)

definition safe_act :: "fdesc set \<Rightarrow> nat \<Rightarrow> ('r sstate, go_error) act \<Rightarrow> bool" where
  "safe_act D h a \<longleftrightarrow> (\<forall>st res st'. good h st \<longrightarrow> a st = (res, st') \<longrightarrow> safe D h st st')"

lemma safe_actD: "safe_act D h a \<Longrightarrow> good h st \<Longrightarrow> a st = (res, st') \<Longrightarrow> safe D h st st'"
  by (auto simp: safe_act_def)

lemma safe_act_skip [simp, intro]: "safe_act D h skip"
  by (auto simp: safe_act_def skip_def safe_refl)

lemma safe_act_then [intro]:
  assumes "safe_act D h a" "safe_act D h b"
  shows "safe_act D h (andThen a b)"
  unfolding safe_act_def
proof (intro allI impI)
  fix st res and st' :: "'a sstate"
  assume g: "good h st" and run: "andThen a b st = (res, st')"
  obtain r1 st1 where 1: "a st = (r1, st1)" by fastforce
  note s1 = safe_actD [OF assms(1) g 1]
  show "safe D h st st'"
  proof (cases r1)
    case None
    with run 1 have "b st1 = (res, st')" by (simp add: andThen_def)
    from safe_actD [OF assms(2) _ this] safe_good [OF g s1] s1 show ?thesis by (blast intro: safe_trans)
  next
    case (Some e)
    with run 1 s1 show ?thesis by (simp add: andThen_def)
  qed
qed

lemma safe_act_run_all [intro]: "(\<And>a. a \<in> set as \<Longrightarrow> safe_act D h a) \<Longrightarrow> safe_act D h (run_all as)"
  by (induction as) auto

lemma safe_report: "good h st \<Longrightarrow> report rep h sp msg st = (res, st') \<Longrightarrow> safe D h st st'"
  using report_effect [of h st rep sp msg res st'] by (auto simp: good_def safe_def)

subsection \<open>Packages\<close>

lemma importPackage_spec:
  assumes g: "good h st" and s: "s < length (nodes (stab st))"
    and run: "importPackage rep h s sp pkg st = ((r, err), st')"
  shows "safe D h st st' \<and> (\<forall>n. r = Some n \<longrightarrow> err = None \<and> n < length (nodes (stab st')) \<and>
    children (node st' s) pkg = Some n) \<and> (r = None \<longrightarrow> Handler_Error h (shst st') \<noteq> None)"
proof (cases "symbols (node st s) pkg")
  case None
  have r: "r = Some (length (nodes (stab st)))" "err = None" and st': "st' = st\<lparr>stab := with_package s pkg sp (stab st)\<rparr>"
    using run None by (auto simp: importPackage_def with_package_def Let_def)
  have "safe D h st st'" unfolding st' by (rule safe_step [OF g new_package [OF s None]])
  then show ?thesis using r st' s by (simp add: with_package_def Let_def nth_append)
next
  case (Some e)
  have ok: "node_ok (length (nodes (stab st))) s (node st s)" using symtab_ok_node s g by (simp add: good_def)
  show ?thesis
  proof (cases "isPackage e")
    case True
    obtain c where c: "children (node st s) pkg = Some c" "c < length (nodes (stab st))"
      using node_ok_package [OF ok, of pkg] node_ok_child [OF ok, of pkg] Some True by auto
    with run Some True have "r = Some c" "err = None" "st' = st" by (auto simp: importPackage_def)
    then show ?thesis using c g by (simp add: safe_refl)
  next
    case False
    have sok: "sst_ok h st" using g by (simp add: good_def)
    have rep: "reportSymbolCollision rep h sp pkg False e st = (err, st')" and "r = None"
      using run Some False by (auto simp: importPackage_def split: prod.splits)
    then show ?thesis using reportSymbolCollision_effect [OF sok rep] by (auto simp: safe_def)
  qed
qed

lemma get_prefixes_mono:
  assumes "symtab_ok t" "grows t t'" "cur < length (nodes t)" "get_prefixes t True ps cur = Some n"
  shows "get_prefixes t' True ps cur = Some n \<and> n < length (nodes t)"
  using assms(3,4)
proof (induction ps arbitrary: cur)
  case (Cons p ps)
  then obtain c where c: "children (nodes t ! cur) p = Some c" "get_prefixes t True ps c = Some n"
    by (auto split: option.splits)
  have "c < length (nodes t)" using node_ok_child [OF symtab_ok_node [OF assms(1) Cons.prems(1)] c(1)] by simp
  then show ?case using Cons.IH c(2) grows_child [OF assms(2) Cons.prems(1) c(1)] by simp
qed simp

lemma import_prefixes_spec:
  assumes "good h st" "cur < length (nodes (stab st))"
    "import_prefixes rep h sp ps cur st = ((r, err), st')"
  shows "safe D h st st' \<and> (\<forall>n. r = Some n \<longrightarrow> err = None \<and> n < length (nodes (stab st')) \<and>
    get_prefixes (stab st') True ps cur = Some n) \<and> (r = None \<longrightarrow> Handler_Error h (shst st') \<noteq> None)"
  using assms
proof (induction ps arbitrary: cur st)
  case Nil
  then show ?case by (auto simp: safe_refl)
next
  case (Cons p ps)
  obtain r1 e1 st1 where 1: "importPackage rep h cur sp p st = ((r1, e1), st1)" by (metis surj_pair)
  note spec1 = importPackage_spec [OF Cons.prems(1,2) 1, of D]
  then have s1: "safe D h st st1" by blast
  show ?case
  proof (cases r1)
    case None
    with 1 Cons.prems(3) have "r = None" "st' = st1" by (auto split: option.splits)
    with spec1 None show ?thesis by simp
  next
    case (Some c)
    with spec1 have c: "e1 = None" "c < length (nodes (stab st1))" "children (node st1 cur) p = Some c" by auto
    from 1 Cons.prems(3) Some c(1) have rest: "import_prefixes rep h sp ps c st1 = ((r, err), st')" by simp
    note G1 = safe_good [OF Cons.prems(1) s1]
    note IH = Cons.IH [OF G1 [THEN conjunct1] c(2) rest]
    have "cur < length (nodes (stab st1))" using Cons.prems(2) G1 by (simp add: grows_def)
    from grows_child [OF _ this c(3)] have "children (node st' cur) p = Some c"
      using IH safe_good [OF G1 [THEN conjunct1], of D st'] by blast
    with IH s1 show ?thesis by (auto intro: safe_trans)
  qed
qed

lemma importPackages_spec:
  assumes "good h st" "importPackages rep h sp pkg st = ((r, err), st')"
  shows "safe D h st st' \<and> (\<forall>n. r = Some n \<longrightarrow> err = None \<and> n < length (nodes (stab st')) \<and>
    getPackage (stab st') pkg True = Some n) \<and> (r = None \<longrightarrow> Handler_Error h (shst st') \<noteq> None)"
proof (cases "pkg = []")
  case True
  with assms show ?thesis by (auto simp: importPackages_def getPackage_def safe_refl good_def symtab_ok_def)
next
  case False
  have len: "0 < length (nodes (stab st))" using assms(1) by (auto simp: good_def symtab_ok_def)
  show ?thesis
    using import_prefixes_spec [OF assms(1) len] assms(2) False
    by (simp add: importPackages_def getPackage_def)
qed

lemma getPackage_mono:
  assumes "symtab_ok t" "grows t t'" "getPackage t pkg True = Some n"
  shows "getPackage t' pkg True = Some n \<and> n < length (nodes t)"
  using assms get_prefixes_mono [OF assms(1,2), of 0 _ n] by (auto simp: getPackage_def symtab_ok_def)

subsection \<open>Files and extensions\<close>

lemma safe_import_file:
  assumes "good h st" "s < length (nodes (stab st))" "fd \<in> D"
    "importFile rep h s fd st = ((ok, err), st') \<or> package_importResult rep h s fd st = ((ok, err), st')"
  shows "safe D h st st' \<and> (err = None \<longrightarrow> fd_id fd \<in> sfiles (node st' s))"
proof -
  have sok: "sst_ok h st" using assms(1) by (simp add: good_def)
  have E: "sst_ok h st' \<and> (Handler_Error h (shst st') = None \<longrightarrow> shst st' = shst st) \<and>
    (if ok then fd_id fd \<notin> sfiles (node st s) \<and> fresh st s (file_elems (fd_file fd)) \<and> st' = st\<lparr>stab := committed s fd (stab st)\<rparr>
     else stab st' = stab st \<and> (fd_id fd \<notin> sfiles (node st s) \<longrightarrow> err \<noteq> None))"
    using assms(4)
  proof
    assume "importFile rep h s fd st = ((ok, err), st')"
    note C = importFile_commits [OF sok assms(2) this]
    show ?thesis
    proof (cases ok)
      case True
      with C show ?thesis unfolding if_P [OF True] by blast
    next
      case False
      with C show ?thesis unfolding if_not_P [OF False] by blast
    qed
  next
    assume "package_importResult rep h s fd st = ((ok, err), st')"
    note C = importResult_commits [OF sok assms(2) this]
    show ?thesis
    proof (cases ok)
      case True
      with C show ?thesis unfolding if_P [OF True] by blast
    next
      case False
      with C show ?thesis unfolding if_not_P [OF False] by blast
    qed
  qed
  show ?thesis
  proof (cases ok)
    case True
    with E have st': "st' = st\<lparr>stab := committed s fd (stab st)\<rparr>"
      and new: "fd_id fd \<notin> sfiles (node st s)" "fresh st s (file_elems (fd_file fd))" by simp_all
    have "tstep D (stab st) (committed s fd (stab st))"
      by (rule new_file [OF assms(2,3) new(1)]) (use new(2) in \<open>simp add: fresh_def\<close>)
    from safe_step [OF assms(1) this] have "safe D h st st'" unfolding st' .
    moreover have "fd_id fd \<in> sfiles (node st' s)" using assms(2) unfolding st' by (simp add: committed_def Let_def)
    ultimately show ?thesis by blast
  next
    case False
    with E have "stab st' = stab st" "fd_id fd \<notin> sfiles (node st s) \<longrightarrow> err \<noteq> None" by simp_all
    moreover have "sst_ok h st' \<and> (Handler_Error h (shst st') = None \<longrightarrow> shst st' = shst st)" using E by blast
    ultimately show ?thesis unfolding safe_def by auto
  qed
qed

lemma addExtension_cases:
  assumes "addExtension rep h s extendee tag sp st = (res, st')"
  obtains msg e where "exts (node st s) (extendee, tag) = Some e" "report rep h sp msg st = (res, st')"
  | "exts (node st s) (extendee, tag) = None" "res = None" "st' = st\<lparr>stab := with_extension s (extendee, tag) sp (stab st)\<rparr>"
  using assms unfolding addExtension_def with_extension_def by (auto simp: Let_def split: option.splits)

lemma AddExtension_cases:
  assumes "AddExtension rep h pkg extendee tag sp st = (res, st')"
  obtains msg where "report rep h sp msg st = (res, st')"
  | n where "getPackage (stab st) pkg True = Some n" "exts (node st n) (extendee, tag) = None" "res = None"
      "st' = st\<lparr>stab := with_extension n (extendee, tag) sp (stab st)\<rparr>" "pkg = [] \<or> HasPrefix extendee (pkg @ ''.'')"
proof (cases "pkg \<noteq> [] \<and> \<not> HasPrefix extendee (pkg @ ''.'')")
  case True
  with assms that(1) show ?thesis by (auto simp: AddExtension_def)
next
  case False
  show ?thesis
  proof (cases "getPackage (stab st) pkg True")
    case None
    with False assms that(1) show ?thesis unfolding AddExtension_def if_not_P [OF False] by auto
  next
    case (Some n)
    with assms have "addExtension rep h n extendee tag sp st = (res, st')" unfolding AddExtension_def if_not_P [OF False] by simp
    then show ?thesis by (rule addExtension_cases) (use that Some False in blast)+
  qed
qed

lemma safe_AddExtension [intro]: "safe_act D h (AddExtension rep h pkg extendee tag sp)"
  unfolding safe_act_def
proof (intro allI impI)
  fix st res and st' :: "'a sstate"
  assume g: "good h st" and run: "AddExtension rep h pkg extendee tag sp st = (res, st')"
  from run show "safe D h st st'"
  proof (cases rule: AddExtension_cases)
    case (1 msg)
    then show ?thesis by (rule safe_report [OF g])
  next
    case (2 n)
    have "n < length (nodes (stab st))" using getPackage_mono [OF _ grows_refl 2(1)] g by (simp add: good_def)
    then show ?thesis unfolding 2(4) by (rule safe_step [OF g new_extension [OF _ 2(2)]])
  qed
qed

lemma safe_AddExtensionDeclaration [intro]: "safe_act D h (AddExtensionDeclaration rep h extension extendee tag sp)"
  unfolding safe_act_def
proof (intro allI impI)
  fix st res and st' :: "'a sstate"
  assume g: "good h st" and run: "AddExtensionDeclaration rep h extension extendee tag sp st = (res, st')"
  show "safe D h st st'"
  proof (cases "extDecls (stab st) extension")
    case None
    with run show ?thesis by (auto simp: AddExtensionDeclaration_def intro!: safe_step [OF g] new_declaration)
  next
    case (Some d)
    then consider "st' = st" | msg where "report rep h sp msg st = (res, st')"
      using run unfolding AddExtensionDeclaration_def by (auto split: if_splits)
    then show ?thesis by cases (use g safe_refl safe_report in blast)+
  qed
qed

lemma safe_file_extensions: "safe_act D h (Descriptors (fd_file fd) (file_extension rep h sp))"
  unfolding Descriptors_run file_extension_def
  by (intro safe_act_run_all) (auto split: elem.splits)

lemma import_here_spec:
  assumes "good h st" "s < length (nodes (stab st))" "fd \<in> D" "import_here rep h s fd st = (res, st')"
  shows "safe D h st st' \<and> (res = None \<longrightarrow> fd_id fd \<in> sfiles (node st' s))"
proof -
  obtain imp sp where imp: "imp = importFile rep h s fd \<or> imp = package_importResult rep h s fd"
    and run: "with_extensions imp rep h sp fd st = (res, st')"
    using assms(4) unfolding import_here_def importFileWithExtensions_def importResultWithExtensions_def
    by (cases "fd_result fd \<and> fd_hasSource fd") (simp_all, blast+)
  obtain ok err st1 where 1: "imp st = ((ok, err), st1)" by (metis surj_pair)
  then have s1: "safe D h st st1 \<and> (err = None \<longrightarrow> fd_id fd \<in> sfiles (node st1 s))"
    using imp safe_import_file [OF assms(1-3)] by blast
  then have G1: "good h st1 \<and> grows (stab st) (stab st1)" using safe_good [OF assms(1)] by blast
  show ?thesis
  proof (cases "err = None \<and> ok")
    case True
    with 1 run have "Descriptors (fd_file fd) (file_extension rep h sp) st1 = (res, st')"
      by (simp add: with_extensions_def)
    from safe_actD [OF safe_file_extensions _ this, of D] G1 have s2: "safe D h st1 st'" by blast
    have "grows (stab st1) (stab st')" using safe_good [OF _ s2] G1 by blast
    then have "sfiles (node st1 s) \<subseteq> sfiles (node st' s)"
      using G1 assms(2) by (auto simp: grows_def node_grows_def)
    then show ?thesis using s1 s2 True safe_trans by blast
  next
    case False
    with 1 run have "st' = st1" "res = None \<longrightarrow> err = None" by (auto simp: with_extensions_def split: option.splits bool.splits)
    with s1 show ?thesis by simp
  qed
qed

subsection \<open>Import\<close>

lemma import_all_run: "import_all rep h fds = run_all (map (Import rep h) fds)"
proof
  show "import_all rep h fds st = run_all (map (Import rep h) fds) st" for st
  proof (induction fds arbitrary: st)
    case (Cons fd fds)
    then have "import_all rep h fds = run_all (map (Import rep h) fds)" by (intro ext)
    then show ?case by simp
  qed (simp add: skip_def)
qed

lemma Import_unfold:
  "Import rep h fd st =
     (case importPackages rep h (package_span fd) (fpackage (fd_file fd)) st of
        ((_, Some err), st) \<Rightarrow> (Some err, st)
      | ((None, None), st) \<Rightarrow> (None, st)
      | ((Some pkg, None), st) \<Rightarrow>
          if fd_id fd \<in> sfiles (node st pkg) then (None, st)
          else andThen (run_all (map (Import rep h) (fd_imports fd))) (import_here rep h pkg fd) st)"
  by (cases fd) (simp only: Import.simps import_all_run Let_def fdesc.sel)

declare Import.simps [simp del] import_all.simps [simp del]

text \<open>A file and the files it imports, transitively.\<close>

primrec fd_tree :: "fdesc \<Rightarrow> fdesc set" where
  "fd_tree (FDesc i path res src pkgs locs f imps) =
     insert (FDesc i path res src pkgs locs f imps) (\<Union> (set (map fd_tree imps)))"

lemma fd_tree_self: "fd \<in> fd_tree fd"
  by (cases fd) simp

lemma fd_tree_imports: "x \<in> set (fd_imports fd) \<Longrightarrow> fd_tree x \<subseteq> fd_tree fd"
  by (cases fd) auto

text \<open>What \<open>Import\<close> does once it has the package: it is there in the end unless an error was returned
  or reported.\<close>

lemma Import_step:
  assumes g: "good h st" and D: "fd_tree fd \<subseteq> D" and run: "Import rep h fd st = (res, st')"
    and imps: "safe_act D h (run_all (map (Import rep h) (fd_imports fd)))"
  shows "safe D h st st' \<and> (res = None \<and> Handler_Error h (shst st') = None \<longrightarrow>
    (\<exists>n. getPackage (stab st') (fpackage (fd_file fd)) True = Some n \<and> fd_id fd \<in> sfiles (node st' n)))"
proof -
  have fdD: "fd \<in> D" using D fd_tree_self by blast
  obtain r err st1 where 1: "importPackages rep h (package_span fd) (fpackage (fd_file fd)) st = ((r, err), st1)"
    by (metis surj_pair)
  note P = importPackages_spec [OF g 1, of D]
  then have s1: "safe D h st st1" by blast
  then have G1: "good h st1" using safe_good [OF g] by blast
  show ?thesis
  proof (cases "\<exists>n. r = Some n \<and> fd_id fd \<notin> sfiles (node st1 n)")
    case False
    then have "st' = st1" "r = None \<or> (\<exists>n. r = Some n \<and> fd_id fd \<in> sfiles (node st1 n))"
      using run 1 P by (auto simp: Import_unfold split: option.splits if_splits)
    with P show ?thesis by auto
  next
    case True
    then obtain n where n: "r = Some n" "fd_id fd \<notin> sfiles (node st1 n)" by blast
    then have len: "n < length (nodes (stab st1))" "err = None" "getPackage (stab st1) (fpackage (fd_file fd)) True = Some n"
      using P by auto
    with run 1 n have run': "andThen (run_all (map (Import rep h) (fd_imports fd))) (import_here rep h n fd) st1 = (res, st')"
      by (simp add: Import_unfold)
    obtain r2 st2 where 2: "run_all (map (Import rep h) (fd_imports fd)) st1 = (r2, st2)" by (metis surj_pair)
    note s2 = safe_actD [OF imps G1 2]
    then have G2: "good h st2 \<and> grows (stab st1) (stab st2)" using safe_good [OF G1] by blast
    then have len2: "n < length (nodes (stab st2))" using len by (simp add: grows_def)
    have s3: "safe D h st2 st' \<and> (res = None \<longrightarrow> fd_id fd \<in> sfiles (node st' n))"
    proof (cases r2)
      case None
      then have "import_here rep h n fd st2 = (res, st')" using run' 2 by (simp add: andThen_def)
      then show ?thesis using import_here_spec [OF _ len2 fdD] G2 by blast
    next
      case (Some e)
      then have "st' = st2" "res = Some e" using run' 2 by (auto simp: andThen_def)
      then show ?thesis using G2 by (simp add: safe_refl)
    qed
    have s13: "safe D h st1 st'" using s2 s3 safe_trans by blast
    have "getPackage (stab st') (fpackage (fd_file fd)) True = Some n"
      using getPackage_mono [OF _ _ len(3), of "stab st'"] safe_good [OF G1 s13] G1 by (simp add: good_def)
    then show ?thesis using s1 s13 s3 safe_trans by blast
  qed
qed

lemma safe_Import: "fd_tree fd \<subseteq> D \<Longrightarrow> safe_act D h (Import rep h fd)"
proof (induction fd)
  case (FDesc i path res src pkgs locs f imps)
  let ?fd = "FDesc i path res src pkgs locs f imps"
  have imps: "safe_act D h (run_all (map (Import rep h) (fd_imports ?fd)))"
    using FDesc fd_tree_imports [of _ ?fd] by (intro safe_act_run_all) fastforce
  show ?case unfolding safe_act_def
    by (intro allI impI) (rule Import_step [OF _ FDesc.prems _ imps, THEN conjunct1])
qed

section \<open>Lookup\<close>

lemma prefixes_from_append:
  "prefixes_from (a @ ''.'' @ b) 0 = prefixes_from a 0 @ map (\<lambda>p. a @ ''.'' @ p) (prefixes_from b 0)"
proof -
  let ?n = "a @ ''.'' @ b"
  have "[0..<length ?n] = [0..<length a] @ [length a] @ map (\<lambda>i. Suc (length a) + i) [0..<length b]"
  proof -
    have "[0..<length ?n] = [0..<length a] @ [length a..<length ?n]"
      using upt_add_eq_append [of 0 "length a" "Suc (length b)"] by simp
    moreover have "[length a..<length ?n] = length a # [Suc (length a)..<length ?n]" by (rule upt_conv_Cons) simp
    moreover have "[Suc (length a)..<length ?n] = map (\<lambda>i. Suc (length a) + i) [0..<length b]"
      by (rule nth_equalityI) (simp_all del: upt_Suc)
    ultimately show ?thesis by simp
  qed
  moreover have "filter (\<lambda>i. ?n ! i = CHR ''.'') [0..<length a] = filter (\<lambda>i. a ! i = CHR ''.'') [0..<length a]"
    by (rule filter_cong) (auto simp: nth_append)
  moreover have "filter (\<lambda>i. ?n ! i = CHR ''.'') (map (\<lambda>i. Suc (length a) + i) [0..<length b]) =
      map (\<lambda>i. Suc (length a) + i) (filter (\<lambda>i. b ! i = CHR ''.'') [0..<length b])"
    by (simp add: filter_map comp_def nth_append)
  ultimately show ?thesis by (simp add: prefixes_from_def comp_def)
qed

lemma prefixes_from_simple: "CHR ''.'' \<notin> set x \<Longrightarrow> prefixes_from x 0 = [x]"
  by (auto simp: prefixes_from_def filter_empty_conv in_set_conv_nth)

lemma get_prefixes_append:
  "get_prefixes t True ps cur = Some n \<Longrightarrow> get_prefixes t False (ps @ qs) cur = get_prefixes t False qs n"
  by (induction ps arbitrary: cur) (auto split: option.splits)

text \<open>The full name of an element of package \<open>pkg\<close> below the top-level name \<open>x\<close>.\<close>

definition in_package :: "full_name \<Rightarrow> full_name" where
  "in_package pkg = (if pkg = [] then [] else pkg @ ''.'')"

definition below :: "full_name \<Rightarrow> full_name \<Rightarrow> bool" where
  "below q name \<longleftrightarrow> name = q \<or> (\<exists>rest. name = q @ ''.'' @ rest)"

lemma getPackage_of_element:
  assumes pkg: "getPackage t pkg True = Some n" and x: "CHR ''.'' \<notin> set x" "x \<noteq> []"
    and name: "below (in_package pkg @ x) name" and top: "children (nodes t ! n) (in_package pkg @ x) = None"
  shows "getPackage t name False = Some n"
proof -
  have name_ne: "name \<noteq> []" using name x(2) by (auto simp: below_def)
  obtain more where more: "prefixes_from name 0 =
      (if pkg = [] then [] else prefixes_from pkg 0) @ (in_package pkg @ x) # more"
  proof -
    obtain y more where y: "name = in_package pkg @ y" "prefixes_from y 0 = x # more"
      using name prefixes_from_simple [OF x(1)] prefixes_from_append [of x] by (auto simp: below_def)
    show ?thesis
    proof (cases "pkg = []")
      case True
      with y that show ?thesis by (simp add: in_package_def)
    next
      case False
      with y that show ?thesis using prefixes_from_append [of pkg y] by (simp add: in_package_def)
    qed
  qed
  have e: "enum_all \<lparr>ne_name = m, ne_start = 0\<rparr> = prefixes_from m 0" for m
    using enum_all_prefixes [of m 0] by simp
  show ?thesis
  proof (cases "pkg = []")
    case True
    with pkg more top name_ne show ?thesis by (auto simp: getPackage_def e)
  next
    case False
    then have "get_prefixes t True (prefixes_from pkg 0) 0 = Some n" using pkg by (simp add: getPackage_def e)
    from get_prefixes_append [OF this] False more top name_ne show ?thesis by (simp add: getPackage_def e)
  qed
qed

lemma Lookup_of_element:
  assumes "symtab_ok t" "getPackage t pkg True = Some n" "CHR ''.'' \<notin> set x" "x \<noteq> []"
    "below (in_package pkg @ x) name" "symbols (nodes t ! n) (in_package pkg @ x) = Some e" "\<not> isPackage e"
  shows "Lookup t name = map_option span (symbols (nodes t ! n) name)"
    and "LookupExtension t name tag = exts (nodes t ! n) (name, tag)"
proof -
  have len: "n < length (nodes t)" using getPackage_mono [OF assms(1) grows_refl assms(2)] by simp
  have "children (nodes t ! n) (in_package pkg @ x) = None"
    using node_ok_package [OF symtab_ok_node [OF assms(1) len], of "in_package pkg @ x"] assms(6,7)
    by (cases "children (nodes t ! n) (in_package pkg @ x)") auto
  from getPackage_of_element [OF assms(2-5) this]
  show "Lookup t name = map_option span (symbols (nodes t ! n) name)"
    and "LookupExtension t name tag = exts (nodes t ! n) (name, tag)"
    by (simp_all add: Lookup_def LookupExtension_def)
qed

text \<open>The names of a file are scoped: each is below a top-level name of the file's package that is
  itself declared in the file.\<close>

definition well_scoped :: "fdesc \<Rightarrow> bool" where
  "well_scoped fd \<longleftrightarrow> (\<forall>d \<in> set (file_elems (fd_file fd)). \<exists>x. x \<noteq> [] \<and> CHR ''.'' \<notin> set x \<and>
     below (in_package (fpackage (fd_file fd)) @ x) (FullName d) \<and>
     in_package (fpackage (fd_file fd)) @ x \<in> FullName ` set (file_elems (fd_file fd)))"

section \<open>Properties\<close>

text \<open>C1: importing a file, with everything it imports, is a sequence of steps of the abstract
  symbol table: the table stays well formed (a name is a package exactly when it has a node of its
  own) and nothing registered before, by whatever file, is lost or changed, whether or not errors
  are found.\<close>

theorem Import_refines:
  assumes "hstore_ok (shst st)" "h < length (handlers (shst st))" "symtab_ok (stab st)"
    and "Import rep h fd st = (res, st')"
  shows "tsteps (fd_tree fd) (stab st) (stab st') \<and> symtab_ok (stab st') \<and> grows (stab st) (stab st')"
proof -
  have g: "good h st" using assms by (simp add: good_def sst_ok_def)
  have "safe (fd_tree fd) h st st'" using safe_actD [OF safe_Import [OF subset_refl] g assms(4)] .
  then show ?thesis using assms(3) tsteps_ok by (auto simp: safe_def)
qed

text \<open>C25: importing a result into its package is all or nothing. It succeeds exactly when the file is
  new, the handler holds no error, all its names are free in the package and no two of its elements
  share a name; then every element is registered with its span and nothing else changes. Otherwise
  the table is unchanged, and an error is returned unless the file was already there.\<close>

theorem importResult_all_or_nothing:
  assumes "hstore_ok (shst st)" "h < length (handlers (shst st))" "s < length (nodes (stab st))"
    and "package_importResult rep h s r st = ((ok, err), st')"
  defines "ds \<equiv> file_elems (fd_file r)"
  shows "(ok \<longleftrightarrow> fd_id r \<notin> sfiles (node st s) \<and> Handler_Error h (shst st) = None \<and>
           (\<forall>d \<in> set ds. symbols (node st s) (FullName d) = None) \<and> distinct (map FullName ds)) \<and>
    (ok \<longrightarrow> err = None \<and> (\<forall>d \<in> set ds. symbols (node st' s) (FullName d) = Some (entry_of r d)) \<and>
       (\<forall>x. x \<notin> FullName ` set ds \<longrightarrow> symbols (node st' s) x = symbols (node st s) x) \<and>
       (\<forall>k. k \<noteq> s \<longrightarrow> node st' k = node st k) \<and> fd_id r \<in> sfiles (node st' s)) \<and>
    (\<not> ok \<longrightarrow> stab st' = stab st \<and> (fd_id r \<in> sfiles (node st s) \<longleftrightarrow> err = None))"
proof -
  have "sst_ok h st" using assms(1,2) by (simp add: sst_ok_def)
  note C = importResult_commits [OF this assms(3,4), folded ds_def]
  have 1: "ok \<longleftrightarrow> fd_id r \<notin> sfiles (node st s) \<and> Handler_Error h (shst st) = None \<and>
           (\<forall>d \<in> set ds. symbols (node st s) (FullName d) = None) \<and> distinct (map FullName ds)"
    using C unfolding fresh_def by blast
  show ?thesis
  proof (cases ok)
    case True
    then have st': "err = None" "st' = st\<lparr>stab := committed s r (stab st)\<rparr>" and dist: "distinct (map FullName ds)"
      using C by simp_all
    have sy: "symbols (node st' s) = symbols (node st s) ++ entries r" "fd_id r \<in> sfiles (node st' s)"
      "k \<noteq> s \<longrightarrow> node st' k = node st k" for k
      using assms(3) st'(2) by (simp_all add: committed_def Let_def)
    have "symbols (node st' s) (FullName d) = Some (entry_of r d)" if "d \<in> set ds" for d
      using entries_distinct [OF dist [unfolded ds_def] that [unfolded ds_def]] sy(1) by (simp add: map_add_Some_iff)
    moreover have "symbols (node st' s) x = symbols (node st s) x" if "x \<notin> FullName ` set ds" for x
      using that sy(1) by (simp add: map_add_dom_app_simps(3) domIff entries_None ds_def)
    ultimately show ?thesis using 1 True st'(1) sy(2,3) by blast
  next
    case False
    with C have n: "stab st' = stab st" "fd_id r \<notin> sfiles (node st s) \<longrightarrow> err \<noteq> None" by simp_all
    have "err = None" if "fd_id r \<in> sfiles (node st s)"
      using that assms(4) by (simp add: package_importResult_def check_and_commit_def)
    with 1 False n show ?thesis by blast
  qed
qed

text \<open>After an import that returned no error and reported none, every element of the file is
  found by \<open>Lookup\<close> at the span registered for its name, also when the file had been imported
  before.\<close>

theorem Import_then_Lookup:
  assumes "hstore_ok (shst st)" "h < length (handlers (shst st))" "symtab_ok (stab st)" "files_ok F (stab st)"
    and "\<forall>x \<in> fd_tree fd. F (fd_id x) = x" "well_scoped fd"
    and "Import rep h fd st = (None, st')" "Handler_Error h (shst st') = None"
    and "d \<in> set (file_elems (fd_file fd))"
  shows "\<exists>d' \<in> set (file_elems (fd_file fd)). FullName d' = FullName d \<and>
    Lookup (stab st') (FullName d) = Some (sourceSpanFor fd d')"
proof -
  let ?pkg = "fpackage (fd_file fd)"
  have g: "good h st" using assms by (simp add: good_def sst_ok_def)
  have "safe_act (fd_tree fd) h (run_all (map (Import rep h) (fd_imports fd)))"
    using fd_tree_imports [of _ fd] by (intro safe_act_run_all) (auto intro: safe_Import)
  from Import_step [OF g subset_refl assms(7) this] assms(8) obtain n
    where safe: "safe (fd_tree fd) h st st'" and n: "getPackage (stab st') ?pkg True = Some n" "fd_id fd \<in> sfiles (node st' n)"
    by auto
  have ok: "symtab_ok (stab st')" using safe_good [OF g safe] by (simp add: good_def)
  have len: "n < length (nodes (stab st'))" using getPackage_mono [OF ok grows_refl n(1)] by simp
  have "files_ok F (stab st')" using tsteps_files_ok [OF _ assms(3,4,5)] safe by (simp add: safe_def)
  then have "entries (F (fd_id fd)) \<subseteq>\<^sub>m symbols (node st' n)" using len n(2) by (simp add: files_ok_def)
  then have le: "entries fd \<subseteq>\<^sub>m symbols (node st' n)" using assms(5) fd_tree_self [of fd] by simp
  have entry: "\<exists>d' \<in> set (file_elems (fd_file fd)). FullName d' = q \<and> symbols (node st' n) q = Some (entry_of fd d')"
    if "q \<in> FullName ` set (file_elems (fd_file fd))" for q
  proof -
    have "entries fd q \<noteq> None" using that entries_None [of fd q] by blast
    then obtain e where e: "entries fd q = Some e" by blast
    then have "symbols (node st' n) q = Some e" using le by (metis domI map_le_def)
    with entries_Some [OF e] show ?thesis by auto
  qed
  obtain x where x: "x \<noteq> []" "CHR ''.'' \<notin> set x" "below (in_package ?pkg @ x) (FullName d)"
    "in_package ?pkg @ x \<in> FullName ` set (file_elems (fd_file fd))"
    using assms(6,9) by (auto simp: well_scoped_def)
  obtain dx where dx: "symbols (node st' n) (in_package ?pkg @ x) = Some (entry_of fd dx)" using entry [OF x(4)] by blast
  have np: "\<not> isPackage (entry_of fd dx)" by (simp add: entry_of_def)
  note L = Lookup_of_element(1) [OF ok n(1) x(2,1,3) dx np]
  obtain d' where "d' \<in> set (file_elems (fd_file fd))" "FullName d' = FullName d"
    "symbols (node st' n) (FullName d) = Some (entry_of fd d')" using entry assms(9) by blast
  then show ?thesis using L by (auto simp: entry_of_def)
qed

text \<open>C30: extension tags are unique. An extension that was accepted is found by \<open>LookupExtension\<close> as
  long as its extendee is registered in the extendee's package, and from then on no table that has
  grown from this one accepts another extension with the same extendee and tag: the attempt leaves
  the table alone and an error with the handler.\<close>

theorem AddExtension_unique:
  assumes "hstore_ok (shst st)" "h < length (handlers (shst st))" "symtab_ok (stab st)"
    and "AddExtension rep h pkg extendee tag sp st = (res, st1)" "Handler_Error h (shst st1) = None"
    and "CHR ''.'' \<notin> set x" "x \<noteq> []" "below (in_package pkg @ x) extendee"
      "getPackage (stab st) pkg True = Some n" "symbols (node st n) (in_package pkg @ x) = Some e" "\<not> isPackage e"
    and "hstore_ok (shst st2)" "k < length (handlers (shst st2))" "grows (stab st1) (stab st2)" "symtab_ok (stab st2)"
    and "AddExtension rep' k pkg extendee tag sp' st2 = (res', st3)"
  shows "res = None \<and> LookupExtension (stab st2) extendee tag = Some sp \<and>
    stab st3 = stab st2 \<and> Handler_Error k (shst st3) \<noteq> None"
proof -
  have g: "good h st" using assms(1-3) by (simp add: good_def sst_ok_def)
  have ok: "sst_ok h st" "sst_ok k st2" using assms by (simp_all add: sst_ok_def)
  from assms(4) have st1: "res = None \<and> exts (node st n) (extendee, tag) = None \<and>
      st1 = st\<lparr>stab := with_extension n (extendee, tag) sp (stab st)\<rparr>"
  proof (cases rule: AddExtension_cases)
    case (1 msg)
    then show ?thesis using report_effect [OF ok(1) 1] assms(5) by simp
  next
    case (2 m)
    then show ?thesis using assms(9) by simp
  qed
  have len: "n < length (nodes (stab st))" using getPackage_mono [OF assms(3) grows_refl assms(9)] by simp
  have safe: "good h st1 \<and> grows (stab st) (stab st1)"
    using safe_good [OF g safe_actD [OF safe_AddExtension g assms(4), where D = "{}"]] .
  then have gr: "grows (stab st) (stab st2)" using assms(14) grows_trans by blast
  have ex1: "exts (node st1 n) (extendee, tag) = Some sp" using st1 len by (simp add: with_extension_def Let_def)
  have len1: "n < length (nodes (stab st1))" using len safe by (simp add: grows_def)
  have ex2: "exts (node st2 n) (extendee, tag) = Some sp"
    using assms(14) len1 ex1 by (simp add: grows_def node_grows_def map_le_def) (metis domI)
  have p2: "getPackage (stab st2) pkg True = Some n" using getPackage_mono [OF assms(3) gr assms(9)] by simp
  have "symbols (node st2 n) (in_package pkg @ x) = Some e" using grows_symbol [OF gr len assms(10)] .
  from Lookup_of_element(2) [OF assms(15) p2 assms(6,7,8) this assms(11)] ex2
  have look: "LookupExtension (stab st2) extendee tag = Some sp" by simp
  from assms(16) have "\<exists>msg. report rep' k sp' msg st2 = (res', st3)"
    by (rule AddExtension_cases) (use p2 ex2 in auto)
  then show ?thesis using report_effect [OF ok(2)] look st1 by blast
qed

section \<open>Witnesses\<close>

text \<open>A file \<open>a.proto\<close> of package \<open>p\<close> with a message \<open>p.M\<close> (a field \<open>p.M.f\<close>) and an extension \<open>p.x\<close> of
  \<open>p.M\<close> with tag 7; a second file \<open>b.proto\<close> imports it and declares another extension with that
  tag.\<close>

definition span_line :: "string \<Rightarrow> int \<Rightarrow> source_span" where
  "span_line f l = (let p = \<lparr>Filename = f, Line = l, Col = 1, Offset = 0\<rparr> in \<lparr>Start = p, End = p\<rparr>)"

definition info_at :: "string \<Rightarrow> int \<Rightarrow> dinfo" where
  "info_at f l = \<lparr>dpath = None, name_node = span_line f l, tag_node = span_line f l,
     ext_package = ''p'', ext_extendee = ''p.M'', fld_number = 7\<rparr>"

definition no_locs :: "source_path \<Rightarrow> source_loc" where
  "no_locs p = \<lparr>loc_path = [], StartLine = 0, StartColumn = 0, EndLine = 0, EndColumn = 0,
     LeadingDetachedComments = [], LeadingComments = [], TrailingComments = [], Next = 0\<rparr>"

definition demo_a :: fdesc where
  "demo_a = FDesc 1 ''a.proto'' True True [span_line ''a.proto'' 2] no_locs
     \<lparr>fpackage = ''p'', fmessages = [MsgP ''p.M'' (info_at ''a.proto'' 3) [Leaf ''p.M.f'' (info_at ''a.proto'' 4)] [] [] [] []],
      fenums = [], fexts = [Leaf ''p.x'' (info_at ''a.proto'' 6)], fservices = []\<rparr> []"

definition demo_b :: fdesc where
  "demo_b = FDesc 2 ''b.proto'' True True [span_line ''b.proto'' 2] no_locs
     \<lparr>fpackage = ''q'', fmessages = [], fenums = [], fexts = [Leaf ''q.y'' (info_at ''b.proto'' 5)], fservices = []\<rparr>
     [demo_a]"

definition demo_state :: "go_error list sstate" where
  "demo_state = \<lparr>stab = new_symtab, shst = snd (NewHandler \<lparr>handlers = [], rstate = []\<rparr>)\<rparr>"

definition collect :: "go_error list reporter" where
  "collect e r = (Some e, r @ [e])"

lemma demo_ok: "hstore_ok (shst demo_state)" "0 < length (handlers (shst demo_state))"
  "symtab_ok (stab demo_state)" "files_ok F (stab demo_state)"
  by (auto simp: demo_state_def NewHandler_def hstore_ok_def new_symtab_def symtab_ok_def node_ok_def
      empty_package_def files_ok_def)

lemma demo_run: "fst (Import collect 0 demo_a demo_state) = None"
  "Handler_Error 0 (shst (snd (Import collect 0 demo_a demo_state))) = None"
  by code_simp+

lemma demo_elems: "file_elems (fd_file demo_a) =
    [EMessage (MsgP ''p.M'' (info_at ''a.proto'' 3) [Leaf ''p.M.f'' (info_at ''a.proto'' 4)] [] [] [] []),
     EField (Leaf ''p.M.f'' (info_at ''a.proto'' 4)), EExtension (Leaf ''p.x'' (info_at ''a.proto'' 6))]"
  by (simp add: file_elems_def demo_a_def ev_file_def ev_leaves_def ev_enums_def bracket_def Let_def)

theorem Import_refines_witness:
  "\<exists>res st'. Import collect 0 demo_b demo_state = (res, st') \<and>
     tsteps (fd_tree demo_b) new_symtab (stab st') \<and> symtab_ok (stab st')"
proof -
  obtain res st' where run: "Import collect 0 demo_b demo_state = (res, st')" by fastforce
  from Import_refines [OF demo_ok(1-3) run] run show ?thesis by (auto simp: demo_state_def)
qed

theorem importResult_all_or_nothing_witness:
  "\<exists>st'. package_importResult collect 0 0 demo_a demo_state = ((True, None), st') \<and>
     symbols (node st' 0) ''p.x'' = Some \<lparr>span = span_line ''a.proto'' 6, isEnumValue = False, isPackage = False\<rparr>"
proof -
  have len: "0 < length (nodes (stab demo_state))" by (simp add: demo_state_def new_symtab_def)
  obtain ok err st' where run: "package_importResult collect 0 0 demo_a demo_state = ((ok, err), st')"
    by (metis surj_pair)
  note T = importResult_all_or_nothing [OF demo_ok(1,2) len run]
  have free: "fd_id demo_a \<notin> sfiles (node demo_state 0)" "symbols (node demo_state 0) x = None"
    "Handler_Error 0 (shst demo_state) = None" for x
    by (simp_all add: demo_state_def new_symtab_def empty_package_def NewHandler_def Handler_Error_def)
  have dist: "distinct (map FullName (file_elems (fd_file demo_a)))" by (simp add: demo_elems)
  have ok: "ok" using T free dist by blast
  then have e: "err = None" "\<forall>d \<in> set (file_elems (fd_file demo_a)). symbols (node st' 0) (FullName d) = Some (entry_of demo_a d)"
    using T by blast+
  have "symbols (node st' 0) ''p.x'' = Some (entry_of demo_a (EExtension (Leaf ''p.x'' (info_at ''a.proto'' 6))))"
    using e(2) by (simp add: demo_elems)
  then show ?thesis using run ok e(1)
    by (simp add: entry_of_def sourceSpanFor_def isEnumVal_def demo_a_def info_at_def)
qed

theorem Import_then_Lookup_witness:
  "\<exists>st'. Import collect 0 demo_a demo_state = (None, st') \<and> Lookup (stab st') ''p.M.f'' = Some (span_line ''a.proto'' 4)"
proof -
  let ?d = "EField (Leaf ''p.M.f'' (info_at ''a.proto'' 4))"
  obtain st' where run: "Import collect 0 demo_a demo_state = (None, st')" "Handler_Error 0 (shst st') = None"
    using demo_run by (metis prod.collapse)
  have tree: "\<forall>x \<in> fd_tree demo_a. (\<lambda>_. demo_a) (fd_id x) = x" by (simp add: demo_a_def)
  have scoped: "well_scoped demo_a"
    unfolding well_scoped_def demo_elems
    by (auto simp: demo_a_def in_package_def below_def intro: exI [of _ "''M''"] exI [of _ "''x''"])
  have d: "?d \<in> set (file_elems (fd_file demo_a))" by (simp add: demo_elems)
  from Import_then_Lookup [OF demo_ok(1-4) tree scoped run d]
  have "Lookup (stab st') ''p.M.f'' = Some (sourceSpanFor demo_a ?d)" by (auto simp: demo_elems)
  moreover have "sourceSpanFor demo_a ?d = span_line ''a.proto'' 4"
    by (simp add: sourceSpanFor_def demo_a_def info_at_def)
  ultimately show ?thesis using run(1) by simp
qed

lemma demo_imported:
  "hstore_ok (shst (snd (Import collect 0 demo_a demo_state)))"
  "0 < length (handlers (shst (snd (Import collect 0 demo_a demo_state))))"
  "symtab_ok (stab (snd (Import collect 0 demo_a demo_state)))"
proof -
  obtain res st' where run: "Import collect 0 demo_a demo_state = (res, st')" by fastforce
  have g: "good 0 demo_state" using demo_ok by (simp add: good_def sst_ok_def)
  have "good 0 st'" using safe_good [OF g safe_actD [OF safe_Import [OF subset_refl] g run]] by blast
  then show "hstore_ok (shst (snd (Import collect 0 demo_a demo_state)))"
    "0 < length (handlers (shst (snd (Import collect 0 demo_a demo_state))))"
    "symtab_ok (stab (snd (Import collect 0 demo_a demo_state)))"
    using run by (simp_all add: good_def sst_ok_def)
qed

theorem AddExtension_unique_witness:
  "\<exists>st1 res' st3. AddExtension collect 0 ''p'' ''p.M'' 8 (span_line ''c.proto'' 1)
       (snd (Import collect 0 demo_a demo_state)) = (None, st1) \<and>
     AddExtension collect 0 ''p'' ''p.M'' 8 (span_line ''d.proto'' 1) st1 = (res', st3) \<and>
     LookupExtension (stab st1) ''p.M'' 8 = Some (span_line ''c.proto'' 1) \<and>
     stab st3 = stab st1 \<and> Handler_Error 0 (shst st3) \<noteq> None"
proof -
  let ?st = "snd (Import collect 0 demo_a demo_state)"
  obtain res st1 where 1: "AddExtension collect 0 ''p'' ''p.M'' 8 (span_line ''c.proto'' 1) ?st = (res, st1)" by fastforce
  obtain res' st3 where 3: "AddExtension collect 0 ''p'' ''p.M'' 8 (span_line ''d.proto'' 1) st1 = (res', st3)" by fastforce
  have g: "good 0 ?st" using demo_imported by (simp add: good_def sst_ok_def)
  have g1: "good 0 st1" using safe_good [OF g safe_actD [OF safe_AddExtension g 1, where D = "{}"]] by blast
  have no_err: "Handler_Error 0 (shst (snd (AddExtension collect 0 ''p'' ''p.M'' 8 (span_line ''c.proto'' 1) ?st))) = None"
    by code_simp
  have "getPackage (stab ?st) ''p'' True = Some 1" by code_simp
  moreover have "symbols (node ?st 1) ''p.M'' =
      Some \<lparr>span = span_line ''a.proto'' 3, isEnumValue = False, isPackage = False\<rparr>" by code_simp
  ultimately show ?thesis
    using AddExtension_unique [OF demo_imported 1 _ _ _ _ _ _ _ _ _ grows_refl _ 3, of "''M''" 1
        "\<lparr>span = span_line ''a.proto'' 3, isEnumValue = False, isPackage = False\<rparr>"] no_err g1 1 3
    by (simp add: good_def sst_ok_def below_def in_package_def)
qed

text \<open>An import that fails on an extension tag does not leave the table as it was: its symbols
  have been committed before the tags are checked. Here \<open>b.proto\<close> declares an extension of \<open>p.M\<close> with
  a tag that \<open>a.proto\<close> already uses; its import is rejected, yet \<open>q.y\<close> is registered by it.\<close>

lemma Import_rejected_but_committed:
  "let st = snd (Import collect 0 demo_a demo_state); (res, st') = Import collect 0 demo_b st
   in res \<noteq> None \<and> Lookup (stab st) ''q.y'' = None \<and>
      Lookup (stab st') ''q.y'' = Some (span_line ''b.proto'' 5)"
  by code_simp

end
