(* ===== verification/Cases.thy ===== *)
theory Cases
  imports Prelude
begin

text \<open>
  Identifier case conversion: \<open>internal/cases\<close> (\<open>cases.go\<close>, \<open>words.go\<close>) and the name functions of
  \<open>internal/util.go\<close> built on it.

  The code iterates over the runes of a Go string, so a string is a list of runes here. Go's
  character tables (package \<open>unicode\<close>) enter as a record of functions; the facts about them that a
  property needs are its hypotheses, restricted to the runes of the input.
\<close>

type_synonym rune = nat

record unicode =
  IsLetter :: "rune \<Rightarrow> bool"
  IsDigit :: "rune \<Rightarrow> bool"
  IsUpper :: "rune \<Rightarrow> bool"
  IsLower :: "rune \<Rightarrow> bool"
  ToUpper :: "rune \<Rightarrow> rune"
  ToLower :: "rune \<Rightarrow> rune"

abbreviation underscore :: rune where "underscore \<equiv> 95"

section \<open>Words\<close>

text \<open>\<open>Words\<close>: the loop keeps the word it is inside of (\<open>start\<close>; \<open>None\<close> for -1) and the previous
  rune. The look-ahead at the end of the string is the zero rune.\<close>

definition splitHere :: "unicode \<Rightarrow> rune \<Rightarrow> rune \<Rightarrow> rune \<Rightarrow> bool" where
  "splitHere U prev cur nxt \<longleftrightarrow>
     (\<not> IsUpper U prev \<and> IsUpper U cur) \<or> (IsUpper U prev \<and> IsUpper U cur \<and> IsLower U nxt)"

fun words_loop :: "unicode \<Rightarrow> rune list option \<Rightarrow> rune \<Rightarrow> rune list \<Rightarrow> rune list list" where
  "words_loop U start prev [] = (case start of None \<Rightarrow> [] | Some w \<Rightarrow> [w])"
| "words_loop U start prev (cur # rest) =
     (let alnum = IsLetter U cur \<or> IsDigit U cur
      in if \<not> alnum then
           (case start of None \<Rightarrow> words_loop U None cur rest | Some w \<Rightarrow> w # words_loop U None cur rest)
         else case start of
                None \<Rightarrow> words_loop U (Some [cur]) cur rest
              | Some w \<Rightarrow>
                  let nxt = (case rest of [] \<Rightarrow> 0 | r # _ \<Rightarrow> r)
                  in if splitHere U prev cur nxt then w # words_loop U (Some [cur]) cur rest
                     else words_loop U (Some (w @ [cur])) cur rest)"

definition Words :: "unicode \<Rightarrow> rune list \<Rightarrow> rune list list" where
  "Words U str = words_loop U None 0 str"

text \<open>\<open>strings.SplitSeq\<close> with a one-character separator.\<close>

fun split_on :: "rune \<Rightarrow> rune list \<Rightarrow> rune list list" where
  "split_on c [] = [[]]"
| "split_on c (x # xs) =
     (if x = c then [] # split_on c xs
      else case split_on c xs of [] \<Rightarrow> [[x]] | w # ws \<Rightarrow> (x # w) # ws)"

section \<open>Conversion\<close>

datatype case_style = Snake | Enum | Camel | Pascal

definition setCase :: "unicode \<Rightarrow> rune \<Rightarrow> bool \<Rightarrow> rune" where
  "setCase U r upper = (if upper then ToUpper U r else ToLower U r)"

text \<open>The two loops of \<open>Case.convert\<close>, writing to the buffer they return.\<close>

definition snake_word :: "unicode \<Rightarrow> bool \<Rightarrow> bool \<Rightarrow> rune list \<Rightarrow> rune list" where
  "snake_word U uppercase lowercase word =
     concat (map (\<lambda>r. if uppercase \<or> lowercase then [setCase U r uppercase] else []) word)"

fun snake_words :: "unicode \<Rightarrow> bool \<Rightarrow> bool \<Rightarrow> bool \<Rightarrow> rune list list \<Rightarrow> rune list" where
  "snake_words U uppercase lowercase first [] = []"
| "snake_words U uppercase lowercase first (word # words) =
     (if first then [] else [underscore]) @ snake_word U uppercase lowercase word @
       snake_words U uppercase lowercase False words"

fun camel_word :: "unicode \<Rightarrow> bool \<Rightarrow> bool \<Rightarrow> bool \<Rightarrow> bool \<Rightarrow> rune list \<Rightarrow> rune list" where
  "camel_word U uppercase lowercase firstWord firstRune [] = []"
| "camel_word U uppercase lowercase firstWord firstRune (r # rs) =
     (let up = (uppercase \<or> \<not> firstWord) \<and> firstRune
      in (if up \<or> lowercase then setCase U r up else r) #
           camel_word U uppercase lowercase firstWord False rs)"

fun camel_words :: "unicode \<Rightarrow> bool \<Rightarrow> bool \<Rightarrow> bool \<Rightarrow> rune list list \<Rightarrow> rune list" where
  "camel_words U uppercase lowercase firstWord [] = []"
| "camel_words U uppercase lowercase firstWord (word # words) =
     camel_word U uppercase lowercase firstWord True word @ camel_words U uppercase lowercase False words"

definition convert :: "unicode \<Rightarrow> case_style \<Rightarrow> bool \<Rightarrow> rune list list \<Rightarrow> rune list" where
  "convert U c lowercase words =
     (case c of
        Snake \<Rightarrow> snake_words U False lowercase True words
      | Enum \<Rightarrow> snake_words U True lowercase True words
      | Camel \<Rightarrow> camel_words U False lowercase True words
      | Pascal \<Rightarrow> camel_words U True lowercase True words)"

record converter =
  Case :: case_style
  NaiveSplit :: bool
  NoLowercase :: bool

definition Append :: "unicode \<Rightarrow> converter \<Rightarrow> rune list \<Rightarrow> rune list \<Rightarrow> rune list" where
  "Append U c buf str =
     buf @ convert U (Case c) (\<not> NoLowercase c) (if NaiveSplit c then split_on underscore str else Words U str)"

definition Convert :: "unicode \<Rightarrow> converter \<Rightarrow> rune list \<Rightarrow> rune list" where
  "Convert U c str = Append U c [] str"

definition Case_Convert :: "unicode \<Rightarrow> case_style \<Rightarrow> rune list \<Rightarrow> rune list" where
  "Case_Convert U c str = Convert U \<lparr>Case = c, NaiveSplit = False, NoLowercase = False\<rparr> str"

definition JSONName :: "unicode \<Rightarrow> rune list \<Rightarrow> rune list" where
  "JSONName U name = Convert U \<lparr>Case = Camel, NaiveSplit = True, NoLowercase = True\<rparr> name"

text \<open>The literal \<open>"Entry"\<close> in runes.\<close>

definition MapEntry :: "unicode \<Rightarrow> rune list \<Rightarrow> rune list" where
  "MapEntry U name =
     (let buf = Append U \<lparr>Case = Pascal, NaiveSplit = True, NoLowercase = True\<rparr> [] name
      in buf @ map of_char ''Entry'')"

section \<open>TrimPrefix\<close>

fun skip_underscores :: "rune list \<Rightarrow> rune list" where
  "skip_underscores [] = []"
| "skip_underscores (p # ps) = (if p = underscore then skip_underscores ps else p # ps)"

text \<open>The loop over \<open>str\<close>: \<open>rest\<close> is \<open>str[i:]\<close>, \<open>prefix\<close> is \<open>prefix[j:]\<close>; \<open>None\<close> when \<open>str\<close> is returned
  unchanged.\<close>

fun trim_loop :: "unicode \<Rightarrow> rune list \<Rightarrow> rune list \<Rightarrow> rune list option" where
  "trim_loop U [] prefix = None"
| "trim_loop U (r # rest) prefix =
     (if r = underscore then trim_loop U rest prefix
      else case skip_underscores prefix of
             [] \<Rightarrow> (let result = skip_underscores (r # rest) in if result = [] then None else Some result)
           | p # prefix' \<Rightarrow>
               if ToLower U r \<noteq> ToLower U p then None else trim_loop U rest prefix')"

definition TrimPrefix :: "unicode \<Rightarrow> rune list \<Rightarrow> rune list \<Rightarrow> rune list" where
  "TrimPrefix U str prefix = (case trim_loop U str prefix of None \<Rightarrow> str | Some result \<Rightarrow> result)"

section \<open>Word splitting\<close>

definition alnum :: "unicode \<Rightarrow> rune \<Rightarrow> bool" where
  "alnum U r \<longleftrightarrow> IsLetter U r \<or> IsDigit U r"

lemma words_loop_concat:
  "concat (words_loop U start prev str) = (case start of None \<Rightarrow> [] | Some w \<Rightarrow> w) @ filter (alnum U) str"
  by (induction U start prev str rule: words_loop.induct) (auto simp: alnum_def Let_def split: option.splits)

lemma words_loop_nonempty:
  "start \<noteq> Some [] \<Longrightarrow> w \<in> set (words_loop U start prev str) \<Longrightarrow> w \<noteq> []"
  by (induction U start prev str rule: words_loop.induct)
     (auto simp: Let_def split: option.splits if_splits)

text \<open>Splitting after conversion: a lower-case word list, joined by underscores, splits back.\<close>

definition lower_word :: "unicode \<Rightarrow> rune list \<Rightarrow> bool" where
  "lower_word U w \<longleftrightarrow> w \<noteq> [] \<and> (\<forall>r \<in> set w. alnum U r \<and> \<not> IsUpper U r)"

lemma words_loop_lower:
  "\<forall>r \<in> set w. alnum U r \<and> \<not> IsUpper U r \<Longrightarrow>
     words_loop U (Some v) prev (w @ rest) = words_loop U (Some (v @ w)) (last (prev # w)) rest"
  by (induction w arbitrary: v prev) (auto simp: alnum_def Let_def splitHere_def)

lemma words_loop_first:
  assumes "lower_word U w"
  shows "words_loop U None prev (w @ rest) = words_loop U (Some w) (last w) rest"
proof -
  obtain r w' where w: "w = r # w'" using assms by (cases w) (auto simp: lower_word_def)
  have "words_loop U None prev (w @ rest) = words_loop U (Some [r]) r (w' @ rest)"
    using assms w by (auto simp: lower_word_def alnum_def Let_def)
  also have "\<dots> = words_loop U (Some w) (last w) rest"
    using assms w words_loop_lower [of w' U "[r]" r rest] by (simp add: lower_word_def)
  finally show ?thesis .
qed

lemma snake_words_more:
  "snake_words U up True False ws = concat (map (\<lambda>w. underscore # map (\<lambda>r. setCase U r up) w) ws)"
  by (induction ws) (simp_all add: snake_word_def)

lemma snake_words_joined:
  "snake_words U up True True (w # ws) = map (\<lambda>r. setCase U r up) w @
     concat (map (\<lambda>w. underscore # map (\<lambda>r. setCase U r up) w) ws)"
  by (simp add: snake_words_more snake_word_def)

lemma Words_joined:
  assumes "\<not> alnum U underscore" "lower_word U w" "\<forall>w \<in> set ws. lower_word U w"
  shows "words_loop U None prev (w @ concat (map (\<lambda>w. underscore # w) ws)) = w # ws"
  using assms(2,3)
proof (induction ws arbitrary: w prev)
  case Nil
  then show ?case using words_loop_first [of U w prev "[]"] by simp
next
  case (Cons v ws)
  have "words_loop U None prev (w @ concat (map (\<lambda>w. underscore # w) (v # ws))) =
      words_loop U (Some w) (last w) (underscore # v @ concat (map (\<lambda>w. underscore # w) ws))"
    using words_loop_first [OF Cons.prems(1)] by simp
  also have "\<dots> = w # words_loop U None underscore (v @ concat (map (\<lambda>w. underscore # w) ws))"
    using assms(1) by (simp add: alnum_def Let_def)
  finally show ?case using Cons.IH [of v underscore] Cons.prems by simp
qed

lemma camel_word_tail:
  "camel_word U up lc fw False rs = (if lc then map (ToLower U) rs else rs)"
  by (induction rs) (simp_all add: setCase_def)

section \<open>Reference algorithms\<close>

text \<open>The conversion of protoc's \<open>ToJsonName\<close> and \<open>ToCamelCase\<close>: one pass that drops underscores and
  upper-cases the character after one.\<close>

fun protoc_camel :: "unicode \<Rightarrow> bool \<Rightarrow> rune list \<Rightarrow> rune list" where
  "protoc_camel U cap [] = []"
| "protoc_camel U cap (r # rs) =
     (if r = underscore then protoc_camel U True rs
      else (if cap then ToUpper U r else r) # protoc_camel U False rs)"

lemma split_on_Cons: "\<exists>w ws. split_on c s = w # ws"
  by (induction s) (auto split: list.splits)

lemma camel_split:
  "split_on underscore s = w # ws \<Longrightarrow>
     camel_word U up False fw fr w @ camel_words U up False False ws = protoc_camel U ((up \<or> \<not> fw) \<and> fr) s"
proof (induction s arbitrary: w ws fw fr)
  case (Cons r s)
  obtain v vs where v: "split_on underscore s = v # vs" using split_on_Cons [of underscore s] by blast
  show ?case
  proof (cases "r = underscore")
    case True
    with Cons.prems v have "w = []" "ws = v # vs" by auto
    with True Cons.IH [OF v, of False True] show ?thesis by simp
  next
    case False
    with Cons.prems v have "w = r # v" "ws = vs" by auto
    with False Cons.IH [OF v, of fw False] show ?thesis by (simp add: Let_def setCase_def)
  qed
qed simp

text \<open>Names compared without case and underscores.\<close>

definition norm :: "unicode \<Rightarrow> rune list \<Rightarrow> rune list" where
  "norm U s = map (ToLower U) (filter (\<lambda>r. r \<noteq> underscore) s)"

lemma norm_simps [simp]: "norm U [] = []" "norm U (r # s) = (if r = underscore then norm U s else ToLower U r # norm U s)"
  by (simp_all add: norm_def)

lemma norm_skip: "norm U (skip_underscores s) = norm U s"
  by (induction s) auto

lemma skip_underscores_Nil: "skip_underscores s = [] \<longleftrightarrow> norm U s = []"
  by (induction s) auto

lemma skip_underscores_Cons: "skip_underscores s = p # ps \<Longrightarrow> p \<noteq> underscore \<and> norm U s = ToLower U p # norm U ps"
  by (induction s) (auto split: if_splits)

lemma trim_loop_Some:
  "trim_loop U str prefix = Some rest \<longleftrightarrow>
     rest \<noteq> [] \<and> hd rest \<noteq> underscore \<and> (\<exists>pre. str = pre @ rest \<and> norm U pre = norm U prefix)"
proof (induction U str prefix rule: trim_loop.induct)
  case (2 U r str prefix)
  show ?case
  proof (cases "r = underscore")
    case True
    then have "(\<exists>pre. r # str = pre @ rest \<and> norm U pre = norm U prefix) \<longleftrightarrow>
        (\<exists>pre. str = pre @ rest \<and> norm U pre = norm U prefix)" if "rest \<noteq> []" "hd rest \<noteq> underscore"
      using that by (auto simp: Cons_eq_append_conv)
    with True 2(1) show ?thesis by auto
  next
    case False
    show ?thesis
    proof (cases "skip_underscores prefix")
      case Nil
      then have n: "norm U prefix = []" using skip_underscores_Nil by blast
      have "(\<exists>pre. r # str = pre @ rest \<and> norm U pre = []) \<longleftrightarrow> rest = r # str" if "rest \<noteq> []" "hd rest \<noteq> underscore"
        using False by (auto simp: Cons_eq_append_conv)
      with False Nil n show ?thesis by auto
    next
      case (Cons p ps)
      from skip_underscores_Cons [OF this] have n: "norm U prefix = ToLower U p # norm U ps" by blast
      have "(\<exists>pre. r # str = pre @ rest \<and> norm U pre = norm U prefix) \<longleftrightarrow>
          ToLower U r = ToLower U p \<and> (\<exists>pre. str = pre @ rest \<and> norm U pre = norm U ps)"
        using False n by (auto simp: Cons_eq_append_conv)
      with False Cons 2(2) [OF False Cons] show ?thesis by auto
    qed
  qed
qed auto

section \<open>Properties\<close>

text \<open>C38: the default JSON name and the map entry name of a field are the ones protoc's one-pass
  algorithm computes, for every input.\<close>

theorem JSONName_as_protoc:
  "JSONName U name = protoc_camel U False name \<and>
   MapEntry U name = protoc_camel U True name @ map of_char ''Entry''"
proof -
  obtain w ws where s: "split_on underscore name = w # ws" using split_on_Cons [of underscore name] by blast
  show ?thesis
    using camel_split [OF s, of U False True True] camel_split [OF s, of U True True True] s
    by (simp add: JSONName_def MapEntry_def Convert_def Append_def convert_def Let_def)
qed

text \<open>\<open>Words\<close> cuts the letters and digits of a string into non-empty words, in order and without
  loss, and snake case is a normal form: converted again it splits into the lower-cased words of the
  original and does not change. The hypotheses say what the character tables do on the string: the
  underscore is no letter or digit, and lower-casing a letter or digit gives one that is not upper
  case and is its own lower case.\<close>

theorem snake_case_normal_form:
  assumes "\<not> alnum U underscore"
    and "\<forall>r \<in> set str. alnum U r \<longrightarrow>
      alnum U (ToLower U r) \<and> \<not> IsUpper U (ToLower U r) \<and> ToLower U (ToLower U r) = ToLower U r"
  shows "concat (Words U str) = filter (alnum U) str \<and> [] \<notin> set (Words U str) \<and>
    Words U (Case_Convert U Snake str) = map (map (ToLower U)) (Words U str) \<and>
    Case_Convert U Snake (Case_Convert U Snake str) = Case_Convert U Snake str"
proof -
  let ?L = "map (map (ToLower U)) (Words U str)"
  have cat: "concat (Words U str) = filter (alnum U) str" by (simp add: Words_def words_loop_concat)
  have ne: "[] \<notin> set (Words U str)" using words_loop_nonempty [of None "[]"] by (auto simp: Words_def)
  have mem: "alnum U r \<and> r \<in> set str" if "w \<in> set (Words U str)" "r \<in> set w" for w r
  proof -
    have "r \<in> set (concat (Words U str))" using that by auto
    then show ?thesis unfolding cat by simp
  qed
  have low: "\<forall>w \<in> set ?L. lower_word U w"
    using mem ne assms(2) by (fastforce simp: lower_word_def)
  have idem: "map (map (ToLower U)) ?L = ?L"
    using mem assms(2) by simp
  have conv: "Case_Convert U Snake s = snake_words U False True True (Words U s)" for s
    by (simp add: Case_Convert_def Convert_def Append_def convert_def)
  have words: "Words U (Case_Convert U Snake str) = ?L"
  proof (cases "Words U str")
    case Nil
    then show ?thesis unfolding conv by (simp add: Words_def)
  next
    case (Cons w ws)
    have "Case_Convert U Snake str = map (ToLower U) w @ concat (map (\<lambda>w. underscore # w) (map (map (ToLower U)) ws))"
      unfolding conv Cons snake_words_joined by (simp add: setCase_def comp_def)
    then show ?thesis using Words_joined [OF assms(1), of "map (ToLower U) w" "map (map (ToLower U)) ws"] low Cons
      by (simp add: Words_def)
  qed
  have word: "snake_word U False True w = map (ToLower U) w" for w
    by (induction w) (simp_all add: snake_word_def setCase_def)
  have sn: "snake_words U False True f (map (map (ToLower U)) ws) = snake_words U False True f ws"
    if "map (map (ToLower U)) (map (map (ToLower U)) ws) = map (map (ToLower U)) ws" for ws f
    using that by (induction ws arbitrary: f) (auto simp: word)
  have "Case_Convert U Snake (Case_Convert U Snake str) = Case_Convert U Snake str"
    using sn [OF idem, of True] words conv by simp
  with cat ne words show ?thesis by blast
qed

text \<open>\<open>TrimPrefix\<close> removes exactly a prefix that equals the given one up to case and underscores,
  together with the underscores after it, provided something is left; otherwise it returns its
  argument.\<close>

theorem TrimPrefix_spec:
  "(\<forall>pre rest. str = pre @ rest \<and> norm U pre = norm U prefix \<and> rest \<noteq> [] \<and> hd rest \<noteq> underscore \<longrightarrow>
      TrimPrefix U str prefix = rest) \<and>
   ((\<nexists>pre rest. str = pre @ rest \<and> norm U pre = norm U prefix \<and> rest \<noteq> [] \<and> hd rest \<noteq> underscore) \<longrightarrow>
      TrimPrefix U str prefix = str)"
proof (intro conjI allI impI)
  fix pre rest
  assume "str = pre @ rest \<and> norm U pre = norm U prefix \<and> rest \<noteq> [] \<and> hd rest \<noteq> underscore"
  then have "trim_loop U str prefix = Some rest" using trim_loop_Some by blast
  then show "TrimPrefix U str prefix = rest" by (simp add: TrimPrefix_def)
next
  assume "\<nexists>pre rest. str = pre @ rest \<and> norm U pre = norm U prefix \<and> rest \<noteq> [] \<and> hd rest \<noteq> underscore"
  then have "trim_loop U str prefix = None" using trim_loop_Some [of U str prefix]
    by (metis option.exhaust)
  then show "TrimPrefix U str prefix = str" by (simp add: TrimPrefix_def)
qed

text \<open>With \<open>NoLowercase\<close> set, conversion to snake case loses every letter: the output consists of
  underscores only.\<close>

theorem snake_NoLowercase_drops_text:
  "set (Convert U \<lparr>Case = Snake, NaiveSplit = naive, NoLowercase = True\<rparr> str) \<subseteq> {underscore}"
proof -
  have "set (snake_words U False False f ws) \<subseteq> {underscore}" for f ws
    by (induction ws arbitrary: f) (auto simp: snake_word_def)
  then show ?thesis by (simp add: Convert_def Append_def convert_def)
qed

section \<open>Witnesses\<close>

definition ascii :: unicode where
  "ascii = \<lparr>IsLetter = (\<lambda>r. (65 \<le> r \<and> r \<le> 90) \<or> (97 \<le> r \<and> r \<le> 122)), IsDigit = (\<lambda>r. 48 \<le> r \<and> r \<le> 57),
     IsUpper = (\<lambda>r. 65 \<le> r \<and> r \<le> 90), IsLower = (\<lambda>r. 97 \<le> r \<and> r \<le> 122),
     ToUpper = (\<lambda>r. if 97 \<le> r \<and> r \<le> 122 then r - 32 else r),
     ToLower = (\<lambda>r. if 65 \<le> r \<and> r \<le> 90 then r + 32 else r)\<rparr>"

theorem snake_case_normal_form_witness:
  "Words ascii (Case_Convert ascii Snake (map of_char ''parseXMLHttp2'')) =
     map (map of_char) [''parse'', ''xml'', ''http2'']"
proof -
  have u: "\<not> alnum ascii underscore" by code_simp
  have h: "\<forall>r \<in> set (map of_char ''parseXMLHttp2''). alnum ascii r \<longrightarrow>
      alnum ascii (ToLower ascii r) \<and> \<not> IsUpper ascii (ToLower ascii r) \<and> ToLower ascii (ToLower ascii r) = ToLower ascii r"
    by code_simp
  have "map (map (ToLower ascii)) (Words ascii (map of_char ''parseXMLHttp2'')) =
      map (map of_char) [''parse'', ''xml'', ''http2'']" by code_simp
  with snake_case_normal_form [OF u h] show ?thesis by simp
qed

theorem TrimPrefix_spec_witness:
  "TrimPrefix ascii (map of_char ''FOO_BAR_baz'') (map of_char ''fooBar'') = map of_char ''baz''"
proof -
  have "map of_char ''FOO_BAR_baz'' = map of_char ''FOO_BAR_'' @ (map of_char ''baz'' :: rune list) \<and>
      norm ascii (map of_char ''FOO_BAR_'') = norm ascii (map of_char ''fooBar'') \<and>
      (map of_char ''baz'' :: rune list) \<noteq> [] \<and> hd (map of_char ''baz'') \<noteq> underscore" by code_simp
  with TrimPrefix_spec [of "map of_char ''FOO_BAR_baz''" ascii "map of_char ''fooBar''"] show ?thesis by blast
qed

end
