(* ===== verification/Reader.thy ===== *)
theory Reader
  imports Prelude
begin

text \<open>
  The rune reader at the bottom of \<open>parser/lexer.go\<close>, over the part of \<open>unicode/utf8\<close> the lexer uses.

  A rune is an \<^typ>\<open>int\<close> (Go's \<open>rune\<close> is a signed 32-bit integer). \<open>DecodeRune\<close> accepts exactly the
  well-formed encodings: no overlong forms, no surrogates, nothing above U+10FFFF; anything else is
  one byte wide and reads as U+FFFD. \<open>encode_rune\<close> is what \<open>string(r)\<close> and \<open>WriteRune(r)\<close> produce.
  The reader never looks before its mark: \<open>unreadRune\<close> panics (\<open>None\<close>) instead.
\<close>

section \<open>UTF-8\<close>

definition RuneError :: int where
  "RuneError = 0xFFFD"

definition cont_byte :: "byte \<Rightarrow> bool" where
  "cont_byte b \<longleftrightarrow> 0x80 \<le> b \<and> b \<le> 0xBF"

definition tail6 :: "byte \<Rightarrow> int" where
  "tail6 b = uint b - 0x80"

text \<open>The range of the second byte after a given first byte (the \<open>acceptRanges\<close> of the library).\<close>

definition accept2 :: "byte \<Rightarrow> byte \<Rightarrow> bool" where
  "accept2 b0 b1 \<longleftrightarrow>
     (if b0 = 0xE0 then 0xA0 else if b0 = 0xF0 then 0x90 else 0x80) \<le> b1 \<and>
     b1 \<le> (if b0 = 0xED then 0x9F else if b0 = 0xF4 then 0x8F else 0xBF)"

definition DecodeRune :: "bytes \<Rightarrow> int \<times> nat" where
  "DecodeRune p =
     (case p of
        [] \<Rightarrow> (RuneError, 0)
      | b0 # p1 \<Rightarrow>
          if b0 < 0x80 then (uint b0, 1)
          else if b0 < 0xC2 \<or> 0xF4 < b0 then (RuneError, 1)
          else case p1 of
            [] \<Rightarrow> (RuneError, 1)
          | b1 # p2 \<Rightarrow>
              if \<not> accept2 b0 b1 then (RuneError, 1)
              else if b0 < 0xE0 then ((uint b0 - 0xC0) * 64 + tail6 b1, 2)
              else case p2 of
                [] \<Rightarrow> (RuneError, 1)
              | b2 # p3 \<Rightarrow>
                  if \<not> cont_byte b2 then (RuneError, 1)
                  else if b0 < 0xF0 then ((uint b0 - 0xE0) * 4096 + tail6 b1 * 64 + tail6 b2, 3)
                  else case p3 of
                    [] \<Rightarrow> (RuneError, 1)
                  | b3 # _ \<Rightarrow>
                      if \<not> cont_byte b3 then (RuneError, 1)
                      else ((uint b0 - 0xF0) * 262144 + tail6 b1 * 4096 + tail6 b2 * 64 + tail6 b3, 4))"

definition rune_byte :: "int \<Rightarrow> byte" where
  "rune_byte r = word_of_int r"

definition encode_rune :: "int \<Rightarrow> bytes" where
  "encode_rune r =
     (if r < 0 \<or> 0x10FFFF < r \<or> 0xD800 \<le> r \<and> r \<le> 0xDFFF then [0xEF, 0xBF, 0xBD]
      else if r < 0x80 then [rune_byte r]
      else if r < 0x800 then [rune_byte (0xC0 + r div 64), rune_byte (0x80 + r mod 64)]
      else if r < 0x10000 then
        [rune_byte (0xE0 + r div 4096), rune_byte (0x80 + r div 64 mod 64), rune_byte (0x80 + r mod 64)]
      else
        [rune_byte (0xF0 + r div 262144), rune_byte (0x80 + r div 4096 mod 64),
         rune_byte (0x80 + r div 64 mod 64), rune_byte (0x80 + r mod 64)])"

text \<open>Text that reads as runes without any replacement.\<close>

function valid_utf8 :: "bytes \<Rightarrow> bool" where
  "valid_utf8 p =
     (if p = [] then True
      else let (r, sz) = DecodeRune p in \<not> (r = RuneError \<and> sz = 1) \<and> valid_utf8 (drop (max 1 sz) p))"
  by pat_completeness auto
termination
  by (relation "measure length") auto

declare valid_utf8.simps [simp del]

section \<open>The reader\<close>

datatype read_err = EOF | InvalidUTF8 nat byte

record runeReader =
  rdata :: bytes
  pos :: nat
  rerr :: "read_err option"
  rmark :: nat
  utf8Strict :: bool

definition readRune :: "runeReader \<Rightarrow> (read_err + int \<times> nat) \<times> runeReader" where
  "readRune rr =
     (case rerr rr of
        Some e \<Rightarrow> (Inl e, rr)
      | None \<Rightarrow>
          if length (rdata rr) \<le> pos rr then (Inl EOF, rr\<lparr>rerr := Some EOF\<rparr>)
          else let (r, sz) = DecodeRune (drop (pos rr) (rdata rr))
               in if utf8Strict rr \<and> r = RuneError then
                    let e = InvalidUTF8 (pos rr) (rdata rr ! pos rr) in (Inl e, rr\<lparr>rerr := Some e\<rparr>)
                  else (Inr (r, sz), rr\<lparr>pos := pos rr + sz\<rparr>))"

definition unreadRune :: "nat \<Rightarrow> runeReader \<Rightarrow> runeReader option" where
  "unreadRune sz rr = (if pos rr < rmark rr + sz then None else Some (rr\<lparr>pos := pos rr - sz\<rparr>))"

definition setMark :: "runeReader \<Rightarrow> runeReader" where
  "setMark rr = rr\<lparr>rmark := pos rr\<rparr>"

definition getMark :: "runeReader \<Rightarrow> bytes" where
  "getMark rr = take (pos rr - rmark rr) (drop (rmark rr) (rdata rr))"

section \<open>Decoding and encoding\<close>

lemma byte_range: "0 \<le> uint (b :: byte) \<and> uint b < 256"
  using unsigned_less [of b, where ?'a = int] by simp

lemma word_less_uint: "(a :: byte) < b \<longleftrightarrow> uint a < uint b" "a \<le> b \<longleftrightarrow> uint a \<le> uint b"
  by (simp_all add: word_less_def word_le_def)

lemma special_bytes:
  "(b :: byte) = 0xE0 \<longleftrightarrow> uint b = 224" "b = 0xED \<longleftrightarrow> uint b = 237"
  "b = 0xF0 \<longleftrightarrow> uint b = 240" "b = 0xF4 \<longleftrightarrow> uint b = 244"
  using word_uint_eq_iff [of b "0xE0"] word_uint_eq_iff [of b "0xED"]
    word_uint_eq_iff [of b "0xF0"] word_uint_eq_iff [of b "0xF4"] by simp_all

lemma uint_rune_byte: "0 \<le> r \<Longrightarrow> r < 256 \<Longrightarrow> uint (rune_byte r) = r"
  by (simp add: rune_byte_def take_bit_eq_mod unsigned_of_int)

lemma rune_byte_uint [simp]: "rune_byte (uint b) = b"
  by (simp add: rune_byte_def)

lemma DecodeRune_size:
  "p \<noteq> [] \<Longrightarrow> DecodeRune p = (r, sz) \<Longrightarrow> 1 \<le> sz \<and> sz \<le> 4 \<and> sz \<le> length p"
  by (auto simp: DecodeRune_def split: list.splits if_splits)

lemma valid_utf8_Nil [simp]: "valid_utf8 []"
  by (subst valid_utf8.simps) simp

lemma valid_utf8_step:
  assumes "p \<noteq> []" "DecodeRune p = (r, sz)"
  shows "valid_utf8 p \<longleftrightarrow> \<not> (r = RuneError \<and> sz = 1) \<and> valid_utf8 (drop sz p)"
  using DecodeRune_size [OF assms] assms by (subst valid_utf8.simps) (simp add: max_def)

text \<open>The three multi-byte forms, as arithmetic on their parts.\<close>

lemma split6: "0 \<le> t \<Longrightarrow> t < 64 \<Longrightarrow> (h * 64 + t) div 64 = h \<and> (h * 64 + t) mod 64 = (t :: int)"
  by (simp add: mod_pos_pos_trivial div_pos_pos_trivial)

lemma encode_rune_3:
  "2048 \<le> r \<and> r < 65536 \<and> \<not> (55296 \<le> r \<and> r \<le> 57343) \<Longrightarrow> encode_rune r =
     [rune_byte (0xE0 + r div 4096), rune_byte (0x80 + r div 64 mod 64), rune_byte (0x80 + r mod 64)]"
  by (auto simp: encode_rune_def)

lemma encode_rune_4:
  "65536 \<le> r \<and> r \<le> 1114111 \<Longrightarrow> encode_rune r =
     [rune_byte (0xF0 + r div 262144), rune_byte (0x80 + r div 4096 mod 64),
      rune_byte (0x80 + r div 64 mod 64), rune_byte (0x80 + r mod 64)]"
  by (simp add: encode_rune_def)

text \<open>The five ways decoding can go.\<close>

lemma DecodeRune_cases:
  assumes "DecodeRune p = (r, sz)" "p \<noteq> []"
  obtains (ascii) b q where "p = b # q" "b < 0x80" "r = uint b" "sz = 1"
  | (bad) b q where "p = b # q" "\<not> b < 0x80" "r = RuneError" "sz = 1"
  | (two) b0 b1 q where "p = b0 # b1 # q" "0xC2 \<le> b0" "b0 < 0xE0" "accept2 b0 b1" "sz = 2"
      "r = (uint b0 - 0xC0) * 64 + tail6 b1"
  | (three) b0 b1 b2 q where "p = b0 # b1 # b2 # q" "0xE0 \<le> b0" "b0 < 0xF0" "accept2 b0 b1" "cont_byte b2" "sz = 3"
      "r = (uint b0 - 0xE0) * 4096 + tail6 b1 * 64 + tail6 b2"
  | (four) b0 b1 b2 b3 q where "p = b0 # b1 # b2 # b3 # q" "0xF0 \<le> b0" "b0 \<le> 0xF4" "accept2 b0 b1" "cont_byte b2" "cont_byte b3"
      "sz = 4" "r = (uint b0 - 0xF0) * 262144 + tail6 b1 * 4096 + tail6 b2 * 64 + tail6 b3"
proof -
  obtain b0 p1 where p: "p = b0 # p1" using assms(2) by (cases p) auto
  show ?thesis
  proof (cases "b0 < 0x80")
    case True
    then show ?thesis using ascii [OF p] assms(1) p by (simp add: DecodeRune_def)
  next
    case False
    show ?thesis
    proof (cases "r = RuneError \<and> sz = 1")
      case True
      then show ?thesis using bad [OF p] False by blast
    next
      case nb: False
      then have c2: "\<not> b0 < 0xC2 \<and> \<not> 0xF4 < b0" using assms(1) False p by (simp add: DecodeRune_def split: if_splits)
      then obtain b1 p2 where p1: "p1 = b1 # p2" "accept2 b0 b1"
        using assms(1) False nb p by (cases p1) (simp_all add: DecodeRune_def split: if_splits)
      show ?thesis
      proof (cases "b0 < 0xE0")
        case True
        then show ?thesis using two [of b0 b1 p2] assms(1) False c2 p p1 by (simp add: DecodeRune_def not_less)
      next
        case e0: False
        then obtain b2 p3 where p2: "p2 = b2 # p3" "cont_byte b2"
          using assms(1) False nb c2 p p1 by (cases p2) (simp_all add: DecodeRune_def split: if_splits)
        show ?thesis
        proof (cases "b0 < 0xF0")
          case True
          then show ?thesis using three [of b0 b1 b2 p3] assms(1) False c2 e0 p p1 p2 by (simp add: DecodeRune_def not_less)
        next
          case f0: False
          then obtain b3 p4 where p3: "p3 = b3 # p4" "cont_byte b3"
            using assms(1) False nb c2 e0 p p1 p2 by (cases p3) (simp_all add: DecodeRune_def split: if_splits)
          show ?thesis using four [of b0 b1 b2 b3 p4] assms(1) False c2 e0 f0 p p1 p2 p3 by (simp add: DecodeRune_def not_less)
        qed
      qed
    qed
  qed
qed

lemma encode_DecodeRune:
  assumes "DecodeRune p = (r, sz)" "p \<noteq> []" "\<not> (r = RuneError \<and> sz = 1)"
  shows "encode_rune r = take sz p"
  using assms(1,2)
proof (cases rule: DecodeRune_cases)
  case (ascii b q)
  then show ?thesis using byte_range [of b] by (simp add: encode_rune_def word_less_uint)
next
  case (bad b q)
  then show ?thesis using assms(3) by simp
next
  case (two b0 b1 q)
  then have f: "194 \<le> uint b0" "uint b0 < 224" "128 \<le> uint b1" "uint b1 \<le> 191"
    by (simp_all add: word_less_uint accept2_def special_bytes split: if_splits)
  then have "128 \<le> r" "r < 2048" and s: "r div 64 = uint b0 - 192" "r mod 64 = uint b1 - 128"
    using split6 [of "tail6 b1" "uint b0 - 192"] two by (simp_all add: tail6_def)
  then show ?thesis using two by (simp add: encode_rune_def)
next
  case (three b0 b1 b2 q)
  let ?h = "(uint b0 - 224) * 64 + tail6 b1"
  have f: "r = ?h * 64 + tail6 b2" "224 \<le> uint b0" "uint b0 < 240"
      "128 \<le> uint b1" "uint b1 \<le> 191" "128 \<le> uint b2" "uint b2 \<le> 191"
      "uint b0 = 224 \<Longrightarrow> 160 \<le> uint b1" "uint b0 = 237 \<Longrightarrow> uint b1 \<le> 159"
    using three by (simp_all add: word_less_uint accept2_def cont_byte_def special_bytes split: if_splits)
  have t: "r div 64 = ?h" "r mod 64 = tail6 b2" "?h div 64 = uint b0 - 224" "?h mod 64 = tail6 b1"
    using split6 [of "tail6 b2" ?h] split6 [of "tail6 b1" "uint b0 - 224"] f by (simp_all add: tail6_def)
  have "r div 4096 = uint b0 - 224" using t zdiv_zmult2_eq [of 64 r 64] by simp
  moreover consider "uint b0 = 224" | "225 \<le> uint b0" "uint b0 \<le> 236" | "uint b0 = 237" | "238 \<le> uint b0"
    using f(2) by linarith
  then have "2048 \<le> r \<and> r < 65536 \<and> \<not> (55296 \<le> r \<and> r \<le> 57343)"
    by cases (use f in \<open>simp_all add: tail6_def\<close>)
  note encode_rune_3 [OF this]
  ultimately show ?thesis using t(2,4) unfolding t(1) three(1,6) by (simp add: tail6_def)
next
  case (four b0 b1 b2 b3 q)
  define g where "g = (uint b0 - 240) * 64 + tail6 b1"
  define h where "h = g * 64 + tail6 b2"
  have f: "240 \<le> uint b0" "uint b0 \<le> 244"
      "128 \<le> uint b1" "uint b1 \<le> 191" "128 \<le> uint b2" "uint b2 \<le> 191" "128 \<le> uint b3" "uint b3 \<le> 191"
      "uint b0 = 240 \<Longrightarrow> 144 \<le> uint b1" "uint b0 = 244 \<Longrightarrow> uint b1 \<le> 143"
    using four by (simp_all add: word_less_uint accept2_def cont_byte_def special_bytes split: if_splits)
  have r: "r = h * 64 + tail6 b3" using four by (simp add: g_def h_def)
  have t: "r div 64 = h" "r mod 64 = tail6 b3" "h div 64 = g" "h mod 64 = tail6 b2" "g div 64 = uint b0 - 240" "g mod 64 = tail6 b1"
    using split6 [of "tail6 b3" h] split6 [of "tail6 b2" g] split6 [of "tail6 b1" "uint b0 - 240"] f
    by (simp_all add: tail6_def r h_def g_def del: times_divide_eq_left)
  have d: "r div 4096 = g" using zdiv_zmult2_eq [of 64 r 64] t(1,3) by simp
  have "r div 262144 = uint b0 - 240" using zdiv_zmult2_eq [of 64 r 4096] d t(5) by simp
  moreover consider "uint b0 = 240" | "241 \<le> uint b0" "uint b0 \<le> 243" | "uint b0 = 244"
    using f(1,2) by linarith
  then have "16 \<le> g \<and> g < 272" by cases (use f in \<open>simp_all add: tail6_def g_def\<close>)
  then have "65536 \<le> r \<and> r \<le> 1114111" using f(5-8) by (simp add: r h_def tail6_def)
  note encode_rune_4 [OF this]
  ultimately show ?thesis using t(2,4,6) unfolding d t(1) four(1,7) by (simp add: tail6_def)
qed

lemma DecodeRune_ascii: "b < 0x80 \<Longrightarrow> DecodeRune (b # p) = (uint b, 1)"
  by (simp add: DecodeRune_def)

text \<open>Which bytes a rune consumed: an ASCII rune is its own byte, any other rune consists of bytes above
  127.\<close>

lemma DecodeRune_bytes:
  assumes "p \<noteq> []" "DecodeRune p = (r, sz)"
  shows "0 \<le> r \<and> (r < 128 \<longrightarrow> sz = 1 \<and> uint (hd p) = r) \<and> (128 \<le> r \<longrightarrow> (\<forall>b \<in> set (take sz p). 0x80 \<le> b))"
  using assms(2,1)
proof (cases rule: DecodeRune_cases)
  case (ascii b q)
  then show ?thesis by (simp add: word_less_uint)
next
  case (bad b q)
  then show ?thesis by (simp add: RuneError_def not_less)
next
  case (two b0 b1 q)
  then have "194 \<le> uint b0" "128 \<le> uint b1" by (simp_all add: word_less_uint accept2_def special_bytes split: if_splits)
  then show ?thesis using two by (simp add: tail6_def word_less_uint)
next
  case (three b0 b1 b2 q)
  then have f: "224 \<le> uint b0" "128 \<le> uint b1" "128 \<le> uint b2" "uint b0 = 224 \<Longrightarrow> 160 \<le> uint b1"
    by (simp_all add: word_less_uint accept2_def cont_byte_def special_bytes split: if_splits)
  then have "128 \<le> r" using three by (cases "uint b0 = 224") (simp_all add: tail6_def)
  then show ?thesis using three f by (simp add: word_less_uint)
next
  case (four b0 b1 b2 b3 q)
  then have f: "240 \<le> uint b0" "128 \<le> uint b1" "128 \<le> uint b2" "128 \<le> uint b3" "uint b0 = 240 \<Longrightarrow> 144 \<le> uint b1"
    by (simp_all add: word_less_uint accept2_def cont_byte_def special_bytes split: if_splits)
  then have "128 \<le> r" using four by (cases "uint b0 = 240") (simp_all add: tail6_def)
  then show ?thesis using four f by (simp add: word_less_uint)
qed

section \<open>Reading keeps the reader in range\<close>

definition reader_ok :: "runeReader \<Rightarrow> bool" where
  "reader_ok rr \<longleftrightarrow> \<not> utf8Strict rr \<and> rmark rr \<le> pos rr \<and> pos rr \<le> length (rdata rr) \<and>
     (\<forall>e. rerr rr = Some e \<longrightarrow> e = EOF \<and> pos rr = length (rdata rr))"

lemma readRune_cases:
  assumes "reader_ok rr"
  obtains (eof) "readRune rr = (Inl EOF, rr\<lparr>rerr := Some EOF\<rparr>)" "pos rr = length (rdata rr)"
  | (rune) r sz where "readRune rr = (Inr (r, sz), rr\<lparr>pos := pos rr + sz\<rparr>)" "DecodeRune (drop (pos rr) (rdata rr)) = (r, sz)"
      "1 \<le> sz" "pos rr + sz \<le> length (rdata rr)" "rerr rr = None"
proof (cases "rerr rr")
  case None
  show ?thesis
  proof (cases "length (rdata rr) \<le> pos rr")
    case True
    then show ?thesis using eof None assms by (simp add: readRune_def reader_ok_def)
  next
    case False
    obtain r sz where d: "DecodeRune (drop (pos rr) (rdata rr)) = (r, sz)" by force
    from DecodeRune_size [OF _ d] False have "1 \<le> sz" "pos rr + sz \<le> length (rdata rr)" by auto
    then show ?thesis using rune [OF _ d] None False d assms by (simp add: readRune_def reader_ok_def)
  qed
next
  case (Some e)
  then have "e = EOF" "pos rr = length (rdata rr)" using assms by (simp_all add: reader_ok_def)
  moreover have "rr\<lparr>rerr := Some EOF\<rparr> = rr" using Some \<open>e = EOF\<close> by simp
  ultimately show ?thesis using eof Some by (simp add: readRune_def)
qed

lemma readRune_fields:
  assumes "reader_ok rr" "readRune rr = (x, rr')"
  shows "reader_ok rr' \<and> rdata rr' = rdata rr \<and> rmark rr' = rmark rr \<and> pos rr \<le> pos rr'"
  using assms(1)
proof (cases rule: readRune_cases)
  case eof
  then show ?thesis using assms by (auto simp: reader_ok_def)
next
  case (rune r sz)
  then show ?thesis using assms by (auto simp: reader_ok_def)
qed

text \<open>What loops over the reader need for their termination: a rune read is progress.\<close>

lemma readRune_progress:
  assumes "readRune rr = (Inr (r, sz), rr')"
  shows "rdata rr' = rdata rr \<and> pos rr < pos rr' \<and> pos rr' \<le> length (rdata rr) \<and> pos rr' = pos rr + sz \<and> rmark rr' = rmark rr"
proof -
  obtain r1 s1 where d: "DecodeRune (drop (pos rr) (rdata rr)) = (r1, s1)" by force
  have lt: "pos rr < length (rdata rr)" using assms by (auto simp: readRune_def Let_def split: option.splits if_splits prod.splits)
  from DecodeRune_size [OF _ d] lt have "1 \<le> s1" "pos rr + s1 \<le> length (rdata rr)" by auto
  then show ?thesis using assms d by (auto simp: readRune_def Let_def split: option.splits if_splits)
qed

lemma unreadRune_ok:
  assumes "reader_ok rr" "rerr rr = None" "rmark rr + sz \<le> pos rr"
  shows "unreadRune sz rr = Some (rr\<lparr>pos := pos rr - sz\<rparr>)" "reader_ok (rr\<lparr>pos := pos rr - sz\<rparr>)"
  using assms by (auto simp: unreadRune_def reader_ok_def)

lemma setMark_ok: "reader_ok rr \<Longrightarrow> reader_ok (setMark rr)"
  by (simp add: setMark_def reader_ok_def)

text \<open>Reading within valid text consumes as many bytes as the rune's encoding has, and leaves valid
  text.\<close>

definition at_text :: "runeReader \<Rightarrow> bool" where
  "at_text rr \<longleftrightarrow> valid_utf8 (drop (pos rr) (rdata rr))"

lemma readRune_text:
  assumes "reader_ok rr" "at_text rr" "readRune rr = (Inr (r, sz), rr')"
  shows "at_text rr' \<and> encode_rune r = take sz (drop (pos rr) (rdata rr)) \<and> length (encode_rune r) = sz"
  using assms(1)
proof (cases rule: readRune_cases)
  case eof
  then show ?thesis using assms(3) by simp
next
  case (rune r1 s1)
  then have e: "r1 = r" "s1 = sz" "rr' = rr\<lparr>pos := pos rr + sz\<rparr>" using assms(3) by auto
  have ne: "drop (pos rr) (rdata rr) \<noteq> []" using rune by auto
  note V = valid_utf8_step [OF ne rune(2) [unfolded e]]
  have "at_text rr'" using V assms(2) e by (simp add: at_text_def add.commute)
  moreover have "encode_rune r = take sz (drop (pos rr) (rdata rr))"
    using encode_DecodeRune [OF rune(2) [unfolded e] ne] V assms(2) by (simp add: at_text_def)
  ultimately show ?thesis using rune e by simp
qed

end
