(* ===== verification/FileInfo.thy ===== *)
theory FileInfo
  imports Reporter
begin

text \<open>
  Source position bookkeeping: \<open>ast/file_info.go\<close>.

  A \<open>FileInfo\<close> holds the file's contents, the offsets at which its lines start, a span for every
  lexed item (token or comment) and, for every comment, the item it is and the token it is attributed
  to. Go's \<open>int\<close>s are \<^typ>\<open>int\<close>s here (offsets are bounded by the file's size); a panic is \<open>None\<close>.
  \<open>NodeInfo\<close>, \<open>Comments\<close> and \<open>Comment\<close> are pairs of indices into a \<open>FileInfo\<close>, so their methods take
  the file as an argument.
\<close>

record commentInfo =
  cindex :: int
  attributedToIndex :: int

record itemSpan =
  ioffset :: int
  ilength :: int

record fileInfo =
  fname :: string
  fdata :: bytes
  flines :: "int list"
  fcomments :: "commentInfo list"
  fitems :: "itemSpan list"

definition NewFileInfo :: "string \<Rightarrow> bytes \<Rightarrow> fileInfo" where
  "NewFileInfo filename contents =
     \<lparr>fname = filename, fdata = contents, flines = [0], fcomments = [], fitems = []\<rparr>"

definition AddLine :: "int \<Rightarrow> fileInfo \<Rightarrow> fileInfo option" where
  "AddLine offset f =
     (if offset < 0 then None
      else if int (length (fdata f)) < offset then None
      else if flines f \<noteq> [] \<and> offset \<le> last (flines f) then None
      else Some (f\<lparr>flines := flines f @ [offset]\<rparr>))"

definition item_end :: "itemSpan \<Rightarrow> int" where
  "item_end it = ioffset it + ilength it"

definition AddToken :: "int \<Rightarrow> int \<Rightarrow> fileInfo \<Rightarrow> (int \<times> fileInfo) option" where
  "AddToken offset len f =
     (if offset < 0 then None
      else if len < 0 then None
      else if int (length (fdata f)) < offset + len then None
      else if fitems f \<noteq> [] \<and> offset \<le> item_end (last (fitems f)) - 1 then None
      else Some (int (length (fitems f)), f\<lparr>fitems := fitems f @ [\<lparr>ioffset = offset, ilength = len\<rparr>]\<rparr>))"

definition AddComment :: "int \<Rightarrow> int \<Rightarrow> fileInfo \<Rightarrow> (int \<times> fileInfo) option" where
  "AddComment comment attributedTo f =
     (if fcomments f \<noteq> [] \<and> (comment \<le> cindex (last (fcomments f)) \<or>
           attributedTo < attributedToIndex (last (fcomments f))) then None
      else Some (int (length (fcomments f)),
             f\<lparr>fcomments := fcomments f @ [\<lparr>cindex = comment, attributedToIndex = attributedTo\<rparr>]\<rparr>))"

section \<open>Binary search\<close>

text \<open>\<open>sort.Search\<close>, as the library implements it.\<close>

function search_loop :: "(nat \<Rightarrow> bool) \<Rightarrow> nat \<Rightarrow> nat \<Rightarrow> nat" where
  "search_loop p i j =
     (if i < j then let h = (i + j) div 2 in if p h then search_loop p i h else search_loop p (h + 1) j
      else i)"
  by pat_completeness auto
termination
  by (relation "measure (\<lambda>(p, i, j). j - i)") auto

declare search_loop.simps [simp del]

definition Search :: "nat \<Rightarrow> (nat \<Rightarrow> bool) \<Rightarrow> nat" where
  "Search n p = search_loop p 0 n"

section \<open>Items and comments\<close>

definition isComment :: "fileInfo \<Rightarrow> int \<Rightarrow> bool" where
  "isComment f i =
     (let item = fitems f ! nat i
      in if ilength item < 2 then False
         else if fdata f ! nat (ioffset item) \<noteq> 47 then False
         else let c = fdata f ! nat (ioffset item + 1) in c = 47 \<or> c = 42)"

text \<open>A token or comment, or the invalid value (\<open>TokenError\<close>, a zero \<open>Comment\<close>).\<close>

datatype item_ref = TokenRef int | CommentRef nat | NoItem

definition GetItem :: "fileInfo \<Rightarrow> int \<Rightarrow> item_ref" where
  "GetItem f i =
     (if i < 0 \<or> int (length (fitems f)) \<le> i then NoItem
      else if \<not> isComment f i then TokenRef i
      else let c = Search (length (fcomments f)) (\<lambda>c. i \<le> cindex (fcomments f ! c))
           in if c < length (fcomments f) \<and> cindex (fcomments f ! c) = i then CommentRef c else NoItem)"

function itemForward :: "fileInfo \<Rightarrow> int \<Rightarrow> bool \<Rightarrow> int \<times> bool" where
  "itemForward f i allowComment =
     (if i < int (length (fitems f)) then
        if allowComment \<or> \<not> isComment f i then (i, True) else itemForward f (i + 1) allowComment
      else (0, False))"
  by pat_completeness auto
termination
  by (relation "measure (\<lambda>(f, i, a). nat (int (length (fitems f)) - i))") auto

function itemBackward :: "fileInfo \<Rightarrow> int \<Rightarrow> bool \<Rightarrow> int \<times> bool" where
  "itemBackward f i allowComment =
     (if 0 \<le> i then
        if allowComment \<or> \<not> isComment f i then (i, True) else itemBackward f (i - 1) allowComment
      else (0, False))"
  by pat_completeness auto
termination
  by (relation "measure (\<lambda>(f, i, a). nat (i + 1))") auto

declare itemForward.simps [simp del] itemBackward.simps [simp del]

definition items_First :: "fileInfo \<Rightarrow> int \<times> bool" where
  "items_First f = (if fitems f = [] then (0, False) else (0, True))"

definition items_Next :: "fileInfo \<Rightarrow> int \<Rightarrow> int \<times> bool" where
  "items_Next f item =
     (if item < 0 \<or> int (length (fitems f)) - 1 \<le> item then (0, False) else itemForward f (item + 1) True)"

definition items_Last :: "fileInfo \<Rightarrow> int \<times> bool" where
  "items_Last f = (if fitems f = [] then (0, False) else (int (length (fitems f)) - 1, True))"

definition items_Previous :: "fileInfo \<Rightarrow> int \<Rightarrow> int \<times> bool" where
  "items_Previous f item =
     (if item \<le> 0 \<or> int (length (fitems f)) \<le> item then (0, False) else itemBackward f (item - 1) True)"

definition tokens_First :: "fileInfo \<Rightarrow> int \<times> bool" where
  "tokens_First f = itemForward f 0 False"

definition tokens_Next :: "fileInfo \<Rightarrow> int \<Rightarrow> int \<times> bool" where
  "tokens_Next f tok =
     (if tok < 0 \<or> int (length (fitems f)) - 1 \<le> tok then (0, False) else itemForward f (tok + 1) False)"

definition tokens_Last :: "fileInfo \<Rightarrow> int \<times> bool" where
  "tokens_Last f = itemBackward f (int (length (fitems f)) - 1) False"

definition tokens_Previous :: "fileInfo \<Rightarrow> int \<Rightarrow> int \<times> bool" where
  "tokens_Previous f tok =
     (if tok \<le> 0 \<or> int (length (fitems f)) \<le> tok then (0, False) else itemBackward f (tok - 1) False)"

section \<open>Positions\<close>

definition RuneStart :: "byte \<Rightarrow> bool" where
  "RuneStart b \<longleftrightarrow> b AND 0xC0 \<noteq> 0x80"

definition advance_col :: "nat \<Rightarrow> byte \<Rightarrow> nat" where
  "advance_col col b =
     (if b = 9 then col + (8 - col mod 8) else if RuneStart b then col + 1 else col)"

text \<open>\<open>SourcePos\<close>; it panics when no line starts at or before the offset, or when the offset lies
  beyond the data.\<close>

definition SourcePos :: "fileInfo \<Rightarrow> int \<Rightarrow> source_pos option" where
  "SourcePos f offset =
     (let lineNumber = Search (length (flines f)) (\<lambda>n. offset < flines f ! n)
      in if lineNumber = 0 then None
         else let start = flines f ! (lineNumber - 1)
              in if offset \<le> start then
                   Some \<lparr>Filename = fname f, Line = int lineNumber, Col = 1, Offset = offset\<rparr>
                 else if start < 0 \<or> int (length (fdata f)) < offset then None
                 else let col = foldl advance_col 0 (take (nat (offset - start)) (drop (nat start) (fdata f)))
                      in Some \<lparr>Filename = fname f, Line = int lineNumber, Col = int col + 1, Offset = offset\<rparr>)"

record node_info =
  startIndex :: int
  endIndex :: int

definition nodeInfo :: "fileInfo \<Rightarrow> int \<Rightarrow> int \<Rightarrow> node_info" where
  "nodeInfo f start fin =
     (if start < 0 \<or> int (length (fitems f)) \<le> start then \<lparr>startIndex = 0, endIndex = 0\<rparr>
      else if fin < 0 \<or> int (length (fitems f)) \<le> fin then \<lparr>startIndex = 0, endIndex = 0\<rparr>
      else \<lparr>startIndex = start, endIndex = fin\<rparr>)"

definition TokenInfo :: "fileInfo \<Rightarrow> int \<Rightarrow> node_info" where
  "TokenInfo f t = nodeInfo f t t"

text \<open>Indexing and slicing as Go does them: out of range they panic.\<close>

definition item_at :: "fileInfo \<Rightarrow> int \<Rightarrow> itemSpan option" where
  "item_at f i = (if 0 \<le> i \<and> i < int (length (fitems f)) then Some (fitems f ! nat i) else None)"

definition slice :: "bytes \<Rightarrow> int \<Rightarrow> int \<Rightarrow> bytes" where
  "slice xs i j = take (nat (j - i)) (drop (nat i) xs)"

definition go_slice :: "bytes \<Rightarrow> int \<Rightarrow> int \<Rightarrow> bytes option" where
  "go_slice xs i j = (if 0 \<le> i \<and> i \<le> j \<and> j \<le> int (length xs) then Some (slice xs i j) else None)"

definition NodeInfo_Start :: "fileInfo \<Rightarrow> node_info \<Rightarrow> source_pos option" where
  "NodeInfo_Start f n = Option.bind (item_at f (startIndex n)) (\<lambda>tok. SourcePos f (ioffset tok))"

definition NodeInfo_End :: "fileInfo \<Rightarrow> node_info \<Rightarrow> source_pos option" where
  "NodeInfo_End f n =
     Option.bind (item_at f (endIndex n)) (\<lambda>tok.
       let offset = (if 0 < ilength tok then ioffset tok + (ilength tok - 1) else ioffset tok)
       in Option.bind (SourcePos f offset) (\<lambda>pos.
            Some (if 0 < ilength tok then pos\<lparr>Col := Col pos + 1\<rparr> else pos)))"

text \<open>The whitespace before an item, shared by \<open>NodeInfo\<close> and \<open>Comment\<close>.\<close>

definition item_whitespace :: "fileInfo \<Rightarrow> int \<Rightarrow> bytes option" where
  "item_whitespace f i =
     Option.bind (item_at f i) (\<lambda>tok.
       if 0 < i then Option.bind (item_at f (i - 1)) (\<lambda>prev. go_slice (fdata f) (item_end prev) (ioffset tok))
       else go_slice (fdata f) 0 (ioffset tok))"

definition NodeInfo_LeadingWhitespace :: "fileInfo \<Rightarrow> node_info \<Rightarrow> bytes option" where
  "NodeInfo_LeadingWhitespace f n = item_whitespace f (startIndex n)"

definition NodeInfo_RawText :: "fileInfo \<Rightarrow> node_info \<Rightarrow> bytes option" where
  "NodeInfo_RawText f n =
     Option.bind (item_at f (startIndex n)) (\<lambda>startTok.
       Option.bind (item_at f (endIndex n)) (\<lambda>endTok. go_slice (fdata f) (ioffset startTok) (item_end endTok)))"

section \<open>Attributed comments\<close>

text \<open>\<open>Comments\<close>: a range of comment indices (first, number).\<close>

type_synonym comments = "nat \<times> nat"

fun count_from :: "(commentInfo \<Rightarrow> bool) \<Rightarrow> commentInfo list \<Rightarrow> nat" where
  "count_from p [] = 0"
| "count_from p (c # cs) = (if p c then 1 + count_from p cs else 0)"

definition LeadingComments :: "fileInfo \<Rightarrow> node_info \<Rightarrow> comments" where
  "LeadingComments f n =
     (let start = Search (length (fcomments f)) (\<lambda>i. startIndex n \<le> attributedToIndex (fcomments f ! i))
      in if start = length (fcomments f) \<or> attributedToIndex (fcomments f ! start) \<noteq> startIndex n then (0, 0)
         else (start, count_from (\<lambda>c. attributedToIndex c = startIndex n \<and> cindex c < startIndex n)
                (drop start (fcomments f))))"

definition TrailingComments :: "fileInfo \<Rightarrow> node_info \<Rightarrow> comments" where
  "TrailingComments f n =
     (let start = Search (length (fcomments f))
            (\<lambda>i. endIndex n \<le> attributedToIndex (fcomments f ! i) \<and> endIndex n < cindex (fcomments f ! i))
      in if start = length (fcomments f) \<or> attributedToIndex (fcomments f ! start) \<noteq> endIndex n then (0, 0)
         else (start, count_from (\<lambda>c. attributedToIndex c = endIndex n) (drop start (fcomments f))))"

definition Comments_Index :: "comments \<Rightarrow> int \<Rightarrow> nat option" where
  "Comments_Index c i = (if i < 0 \<or> int (snd c) \<le> i then None else Some (fst c + nat i))"

definition Comment_AsItem :: "fileInfo \<Rightarrow> nat \<Rightarrow> int option" where
  "Comment_AsItem f c = (if c < length (fcomments f) then Some (cindex (fcomments f ! c)) else None)"

definition Comment_span :: "fileInfo \<Rightarrow> nat \<Rightarrow> itemSpan option" where
  "Comment_span f c = Option.bind (Comment_AsItem f c) (item_at f)"

definition Comment_Start :: "fileInfo \<Rightarrow> nat \<Rightarrow> source_pos option" where
  "Comment_Start f c = Option.bind (Comment_span f c) (\<lambda>span. SourcePos f (ioffset span))"

definition Comment_End :: "fileInfo \<Rightarrow> nat \<Rightarrow> source_pos option" where
  "Comment_End f c = Option.bind (Comment_span f c) (\<lambda>span. SourcePos f (ioffset span + ilength span - 1))"

definition Comment_LeadingWhitespace :: "fileInfo \<Rightarrow> nat \<Rightarrow> bytes option" where
  "Comment_LeadingWhitespace f c = Option.bind (Comment_AsItem f c) (item_whitespace f)"

definition Comment_RawText :: "fileInfo \<Rightarrow> nat \<Rightarrow> bytes option" where
  "Comment_RawText f c =
     Option.bind (Comment_span f c) (\<lambda>span. go_slice (fdata f) (ioffset span) (ioffset span + ilength span))"

text \<open>The node or comment that \<open>ItemInfo\<close> returns, \<open>None\<close> for its \<open>nil\<close>.\<close>

definition ItemInfo :: "fileInfo \<Rightarrow> int \<Rightarrow> (node_info + nat) option" where
  "ItemInfo f i =
     (case GetItem f i of
        TokenRef t \<Rightarrow> Some (Inl (TokenInfo f t))
      | CommentRef c \<Rightarrow> Some (Inr c)
      | NoItem \<Rightarrow> None)"

section \<open>Binary search finds the least index\<close>

definition upward :: "nat \<Rightarrow> (nat \<Rightarrow> bool) \<Rightarrow> bool" where
  "upward n p \<longleftrightarrow> (\<forall>a b. p a \<longrightarrow> a \<le> b \<longrightarrow> b < n \<longrightarrow> p b)"

lemma search_loop_least:
  assumes mono: "upward n p"
    and "i \<le> j" "j \<le> n" "\<forall>k < i. \<not> p k" "j < n \<longrightarrow> p j"
  shows "search_loop p i j \<le> n \<and> (\<forall>k < search_loop p i j. \<not> p k) \<and> (search_loop p i j < n \<longrightarrow> p (search_loop p i j))"
  using assms(2-5)
proof (induction "j - i" arbitrary: i j rule: less_induct)
  case less
  show ?case
  proof (cases "i < j")
    case True
    let ?h = "(i + j) div 2"
    have h: "i \<le> ?h" "?h < j" using True by auto
    show ?thesis
    proof (cases "p ?h")
      case p: True
      have eq: "search_loop p i j = search_loop p i ?h"
        using True p by (subst search_loop.simps) (simp add: Let_def)
      show ?thesis unfolding eq by (rule less.hyps) (use h p less.prems in auto)
    next
      case np: False
      have eq: "search_loop p i j = search_loop p (?h + 1) j"
        using True np by (subst search_loop.simps) (simp add: Let_def)
      have "\<not> p k" if "k < ?h + 1" for k
        using np mono [unfolded upward_def, rule_format, of k ?h] that h less.prems(2) by auto
      then show ?thesis unfolding eq by (intro less.hyps) (use h less.prems in auto)
    qed
  next
    case False
    then show ?thesis using less.prems by (subst (1 2 3 4) search_loop.simps) auto
  qed
qed

lemma Search_least:
  assumes "upward n p"
  shows "Search n p \<le> n" "k < Search n p \<Longrightarrow> \<not> p k" "Search n p < n \<Longrightarrow> p (Search n p)"
proof -
  have "search_loop p 0 n \<le> n \<and> (\<forall>k < search_loop p 0 n. \<not> p k) \<and> (search_loop p 0 n < n \<longrightarrow> p (search_loop p 0 n))"
    by (rule search_loop_least [OF assms]) simp_all
  then show "Search n p \<le> n" "k < Search n p \<Longrightarrow> \<not> p k" "Search n p < n \<Longrightarrow> p (Search n p)"
    unfolding Search_def by blast+
qed

lemma Search_eqI:
  assumes "upward n p" "m \<le> n" "\<And>k. k < m \<Longrightarrow> \<not> p k" "m < n \<Longrightarrow> p m"
  shows "Search n p = m"
proof -
  have "\<not> Search n p < m" using Search_least(3) [OF assms(1)] assms(2) assms(3) [of "Search n p"] by auto
  moreover have "\<not> m < Search n p" using Search_least(1,2) [OF assms(1)] assms(4) by fastforce
  ultimately show ?thesis by simp
qed

section \<open>The invariant\<close>

definition item_ok :: "bytes \<Rightarrow> itemSpan \<Rightarrow> bool" where
  "item_ok d it \<longleftrightarrow> 0 \<le> ioffset it \<and> 0 \<le> ilength it \<and> item_end it \<le> int (length d)"

definition comment_less :: "commentInfo \<Rightarrow> commentInfo \<Rightarrow> bool" where
  "comment_less a b \<longleftrightarrow> cindex a < cindex b \<and> attributedToIndex a \<le> attributedToIndex b"

definition info_ok :: "fileInfo \<Rightarrow> bool" where
  "info_ok f \<longleftrightarrow> flines f \<noteq> [] \<and> hd (flines f) = 0 \<and> sorted_wrt (<) (flines f) \<and>
     (\<forall>l \<in> set (flines f). l \<le> int (length (fdata f))) \<and>
     (\<forall>it \<in> set (fitems f). item_ok (fdata f) it) \<and>
     sorted_wrt (\<lambda>a b. item_end a \<le> ioffset b) (fitems f) \<and> sorted_wrt comment_less (fcomments f)"

lemma info_ok_new: "info_ok (NewFileInfo name d)"
  by (simp add: info_ok_def NewFileInfo_def)

lemma sorted_snoc_last:
  assumes "sorted_wrt P xs" "xs \<noteq> [] \<Longrightarrow> P (last xs) x" "\<And>a b c. P a b \<Longrightarrow> P b c \<Longrightarrow> P a c"
  shows "sorted_wrt P (xs @ [x])"
proof -
  have "P y x" if "y \<in> set xs" for y
  proof (cases "y = last xs")
    case False
    have ne: "xs \<noteq> []" using that by auto
    have xs: "xs = butlast xs @ [last xs]" using ne by simp
    then have "y \<in> set (butlast xs)" using that False by (metis Un_iff empty_iff insert_iff list.set(1) list.simps(15) set_append)
    moreover have "sorted_wrt P (butlast xs @ [last xs])" using assms(1) xs by metis
    ultimately have "P y (last xs)" by (simp add: sorted_wrt_append)
    then show ?thesis using assms(2,3) ne by blast
  next
    case True
    moreover have "xs \<noteq> []" using that by auto
    ultimately show ?thesis using assms(2) by simp
  qed
  then show ?thesis using assms(1) by (simp add: sorted_wrt_snoc)
qed

lemma info_ok_AddLine: "info_ok f \<Longrightarrow> AddLine off f = Some f' \<Longrightarrow> info_ok f'"
  by (auto simp: info_ok_def AddLine_def split: if_splits intro!: sorted_snoc_last)

lemma info_ok_AddToken:
  assumes "info_ok f" "AddToken off len f = Some (t, f')"
  shows "info_ok f'"
proof -
  let ?it = "\<lparr>ioffset = off, ilength = len\<rparr>"
  have f': "f' = f\<lparr>fitems := fitems f @ [?it]\<rparr>" and it: "item_ok (fdata f) ?it"
    and last: "fitems f \<noteq> [] \<Longrightarrow> item_end (last (fitems f)) \<le> off"
    using assms(2) by (auto simp: AddToken_def item_ok_def item_end_def split: if_splits)
  have "item_end it \<le> off" if "it \<in> set (fitems f)" for it
  proof (cases "it = last (fitems f)")
    case False
    have ne: "fitems f \<noteq> []" using that by auto
    have xs: "fitems f = butlast (fitems f) @ [last (fitems f)]" using ne by simp
    have "it \<in> set (butlast (fitems f))"
      using that False xs by (metis Un_iff empty_iff insert_iff list.set(1) list.simps(15) set_append)
    moreover have "sorted_wrt (\<lambda>a b. item_end a \<le> ioffset b) (butlast (fitems f) @ [last (fitems f)])"
      using assms(1) xs by (metis info_ok_def)
    ultimately have "item_end it \<le> ioffset (last (fitems f))" by (simp add: sorted_wrt_append)
    moreover have "item_ok (fdata f) (last (fitems f))" using assms(1) ne by (simp add: info_ok_def)
    ultimately show ?thesis using last [OF ne] by (simp add: item_ok_def item_end_def)
  next
    case True
    moreover have "fitems f \<noteq> []" using that by auto
    ultimately show ?thesis using last by simp
  qed
  then show ?thesis using assms(1) it f' by (auto simp: info_ok_def sorted_wrt_snoc)
qed

lemma info_ok_AddComment: "info_ok f \<Longrightarrow> AddComment c a f = Some (k, f') \<Longrightarrow> info_ok f'"
  by (auto simp: info_ok_def AddComment_def comment_less_def split: if_splits intro!: sorted_snoc_last)

text \<open>The files that the operations build.\<close>

inductive built :: "fileInfo \<Rightarrow> bool" where
  new: "built (NewFileInfo name contents)"
| line: "built f \<Longrightarrow> AddLine off f = Some f' \<Longrightarrow> built f'"
| token: "built f \<Longrightarrow> AddToken off len f = Some (t, f') \<Longrightarrow> built f'"
| comment: "built f \<Longrightarrow> AddComment c a f = Some (k, f') \<Longrightarrow> built f'"

lemma built_ok: "built f \<Longrightarrow> info_ok f"
  by (induction rule: built.induct) (auto intro: info_ok_new info_ok_AddLine info_ok_AddToken info_ok_AddComment)

section \<open>Lines and columns\<close>

lemma info_ok_lines_mono:
  assumes "info_ok f" "a \<le> b" "b < length (flines f)"
  shows "flines f ! a \<le> flines f ! b"
proof (cases "a = b")
  case False
  then show ?thesis using assms sorted_wrt_nth_less [of "(<)" "flines f" a b] by (simp add: info_ok_def)
qed simp

lemma line_search:
  assumes "info_ok f" "0 \<le> off"
  defines "n \<equiv> Search (length (flines f)) (\<lambda>n. off < flines f ! n)"
  shows "0 < n" "n \<le> length (flines f)" "flines f ! (n - 1) \<le> off" "n < length (flines f) \<Longrightarrow> off < flines f ! n"
    "0 \<le> flines f ! (n - 1)"
proof -
  have "upward (length (flines f)) (\<lambda>n. off < flines f ! n)"
    unfolding upward_def using info_ok_lines_mono [OF assms(1)] by (meson less_le_trans)
  note S = Search_least [OF this]
  have z: "flines f ! 0 = 0" "0 < length (flines f)" using assms(1) by (auto simp: info_ok_def hd_conv_nth)
  show pos: "0 < n"
  proof (rule ccontr)
    assume "\<not> 0 < n"
    then have "off < flines f ! 0" using S(3) z unfolding n_def by simp
    then show False using z assms(2) by simp
  qed
  show "n \<le> length (flines f)" using S(1) by (simp add: n_def)
  show "flines f ! (n - 1) \<le> off" using S(2) [where k = "n - 1"] pos unfolding n_def by (simp add: not_less)
  show "off < flines f ! n" if "n < length (flines f)" using S(3) that unfolding n_def by simp
  show "0 \<le> flines f ! (n - 1)"
    using info_ok_lines_mono [OF assms(1), of 0 "n - 1"] z pos S(1) unfolding n_def by simp
qed

lemma foldl_advance_mono: "col \<le> foldl advance_col col bs"
proof (induction bs arbitrary: col)
  case (Cons b bs)
  have "col mod 8 < 8" by simp
  then have "col \<le> advance_col col b" unfolding advance_col_def by auto
  then show ?case using Cons [of "advance_col col b"] by simp
qed simp

definition pos_le :: "source_pos \<Rightarrow> source_pos \<Rightarrow> bool" where
  "pos_le p q \<longleftrightarrow> Line p < Line q \<or> Line p = Line q \<and> Col p \<le> Col q"

lemma SourcePos_Some:
  assumes "info_ok f" "0 \<le> off" "off \<le> int (length (fdata f))"
  defines "n \<equiv> Search (length (flines f)) (\<lambda>n. off < flines f ! n)"
  shows "SourcePos f off = Some \<lparr>Filename = fname f, Line = int n,
    Col = int (foldl advance_col 0 (slice (fdata f) (flines f ! (n - 1)) off)) + 1, Offset = off\<rparr>"
  using line_search [OF assms(1,2)] assms(3) unfolding SourcePos_def Let_def n_def [symmetric]
  by (auto simp: slice_def n_def)

lemma slice_split: "0 \<le> a \<Longrightarrow> a \<le> b \<Longrightarrow> b \<le> c \<Longrightarrow> slice xs a c = slice xs a b @ slice xs b c"
proof -
  assume h: "0 \<le> a" "a \<le> b" "b \<le> c"
  then have "nat (c - a) = nat (b - a) + nat (c - b)" "nat a + nat (b - a) = nat b" by linarith+
  then show ?thesis by (simp add: slice_def take_add add.commute)
qed

lemma SourcePos_le:
  assumes f: "info_ok f" and o: "0 \<le> off" "off \<le> off'" "off' \<le> int (length (fdata f))"
    and p: "SourcePos f off = Some pos" "SourcePos f off' = Some pos'"
  shows "pos_le pos pos'"
proof -
  let ?n = "Search (length (flines f)) (\<lambda>n. off < flines f ! n)" and ?m = "Search (length (flines f)) (\<lambda>n. off' < flines f ! n)"
  note N = line_search [OF f o(1)] and M = line_search [OF f order_trans [OF o(1,2)]]
  have le: "?n \<le> ?m"
  proof (rule ccontr)
    assume "\<not> ?n \<le> ?m"
    then have "?m \<le> ?n - 1" "?n - 1 < length (flines f)" using N(1,2) by simp_all
    then have "off' < flines f ! (?n - 1)"
      using M(4) info_ok_lines_mono [OF f, of ?m "?n - 1"] by simp
    then show False using N(3) o(2) by simp
  qed
  show ?thesis
  proof (cases "?n = ?m")
    case True
    have "slice (fdata f) (flines f ! (?n - 1)) off' =
        slice (fdata f) (flines f ! (?n - 1)) off @ slice (fdata f) off off'"
      using N(3,5) o(2) by (intro slice_split) auto
    then show ?thesis
      using p SourcePos_Some [OF f o(1)] SourcePos_Some [OF f order_trans [OF o(1,2)] o(3)] o(2,3) True
        foldl_advance_mono by (auto simp: pos_le_def)
  next
    case False
    then show ?thesis using le p SourcePos_Some [OF f o(1)] SourcePos_Some [OF f order_trans [OF o(1,2)] o(3)] o(2,3)
      by (auto simp: pos_le_def)
  qed
qed

section \<open>Comment ranges\<close>

lemma count_from_le: "count_from p cs \<le> length cs"
  by (induction cs) auto

lemma count_from_holds: "i < count_from p cs \<Longrightarrow> p (cs ! i)"
  by (induction cs arbitrary: i) (auto simp: nth_Cons split: nat.splits if_splits)

lemma count_from_stop: "count_from p cs < length cs \<Longrightarrow> \<not> p (cs ! count_from p cs)"
  by (induction cs) (auto split: if_splits)

lemma comments_sorted:
  assumes "info_ok f" "a < b" "b < length (fcomments f)"
  shows "comment_less (fcomments f ! a) (fcomments f ! b)"
  using assms sorted_wrt_nth_less [of comment_less "fcomments f" a b] by (simp add: info_ok_def)

lemma comments_le:
  assumes "info_ok f" "a \<le> b" "b < length (fcomments f)"
  shows "cindex (fcomments f ! a) \<le> cindex (fcomments f ! b)"
    "attributedToIndex (fcomments f ! a) \<le> attributedToIndex (fcomments f ! b)"
  using comments_sorted [OF assms(1), of a b] assms(2,3) by (cases "a = b"; simp add: comment_less_def)+

text \<open>In a list where the wanted elements form one block that starts at \<open>start\<close>, counting finds the
  whole block.\<close>

lemma block_range:
  assumes "start \<le> length cs" "\<And>i. i < length cs \<Longrightarrow> q (cs ! i) \<Longrightarrow> start \<le> i"
    and "\<And>i j. start \<le> i \<Longrightarrow> i \<le> j \<Longrightarrow> j < length cs \<Longrightarrow> q (cs ! j) \<Longrightarrow> p (cs ! i)"
    and "\<And>i. start \<le> i \<Longrightarrow> i < length cs \<Longrightarrow> p (cs ! i) \<Longrightarrow> q (cs ! i)"
  shows "{i. i < length cs \<and> q (cs ! i)} = {start..<start + count_from p (drop start cs)}"
proof (rule set_eqI, simp only: mem_Collect_eq atLeastLessThan_iff, rule iffI, goal_cases)
  case (1 i)
  let ?n = "count_from p (drop start cs)"
  have s: "start \<le> i" using 1 assms(2) by blast
  show ?case
  proof (rule ccontr)
    assume "\<not> (start \<le> i \<and> i < start + ?n)"
    with s have le: "start + ?n \<le> i" by simp
    then have lt: "start + ?n < length cs" using 1 by simp
    have "p (cs ! (start + ?n))" by (rule assms(3) [of "start + ?n" i]) (use 1 le in auto)
    moreover have "\<not> p (drop start cs ! ?n)" by (rule count_from_stop) (use lt in simp)
    ultimately show False using lt by simp
  qed
next
  case (2 i)
  let ?n = "count_from p (drop start cs)"
  have "?n \<le> length cs - start" using count_from_le [of p "drop start cs"] by simp
  then have len: "i < length cs" using 2 assms(1) by linarith
  have "p (drop start cs ! (i - start))" by (rule count_from_holds) (use 2 in linarith)
  then have "p (cs ! i)" using 2 len by simp
  then show ?case using len 2 assms(4) by blast
qed

lemma empty_range: "{a..<a + (0::nat)} = {}"
  by simp

lemma LeadingComments_range:
  assumes f: "info_ok f"
  shows "{c. c < length (fcomments f) \<and> attributedToIndex (fcomments f ! c) = startIndex n \<and> cindex (fcomments f ! c) < startIndex n} =
    (let (first, num) = LeadingComments f n in {first..<first + num})"
proof -
  let ?cs = "fcomments f" and ?k = "startIndex n"
  let ?start = "Search (length ?cs) (\<lambda>i. ?k \<le> attributedToIndex (?cs ! i))"
  have "upward (length ?cs) (\<lambda>i. ?k \<le> attributedToIndex (?cs ! i))"
    unfolding upward_def using comments_le(2) [OF f] by (meson order_trans)
  note S = Search_least [OF this]
  have before: "?start \<le> i" if "i < length ?cs" "attributedToIndex (?cs ! i) = ?k" for i
    using S(2) [of i] that by (metis not_le order_refl)
  show ?thesis
  proof (cases "?start = length ?cs \<or> attributedToIndex (?cs ! ?start) \<noteq> ?k")
    case True
    then have "LeadingComments f n = (0, 0)" by (simp add: LeadingComments_def Let_def)
    moreover have "attributedToIndex (?cs ! i) \<noteq> ?k" if "i < length ?cs" for i
    proof
      assume a: "attributedToIndex (?cs ! i) = ?k"
      have "?start \<le> i" using before [OF that a] .
      then show False using True a S(3) comments_le(2) [OF f, of ?start i] that by auto
    qed
    ultimately show ?thesis by auto
  next
    case False
    have "{i. i < length ?cs \<and> attributedToIndex (?cs ! i) = ?k \<and> cindex (?cs ! i) < ?k} =
        {?start..<?start + count_from (\<lambda>c. attributedToIndex c = ?k \<and> cindex c < ?k) (drop ?start ?cs)}"
    proof (rule block_range)
      fix i j
      assume h: "?start \<le> i" "i \<le> j" "j < length ?cs" "attributedToIndex (?cs ! j) = ?k \<and> cindex (?cs ! j) < ?k"
      then show "attributedToIndex (?cs ! i) = ?k \<and> cindex (?cs ! i) < ?k"
        using comments_le [OF f, of i j] comments_le(2) [OF f, of ?start i] False by auto
    qed (use S(1) before in auto)
    then show ?thesis using False by (simp add: LeadingComments_def Let_def)
  qed
qed

lemma TrailingComments_range:
  assumes f: "info_ok f"
  shows "{c. c < length (fcomments f) \<and> attributedToIndex (fcomments f ! c) = endIndex n \<and> endIndex n < cindex (fcomments f ! c)} =
    (let (first, num) = TrailingComments f n in {first..<first + num})"
proof -
  let ?cs = "fcomments f" and ?k = "endIndex n"
  let ?p = "\<lambda>i. ?k \<le> attributedToIndex (?cs ! i) \<and> ?k < cindex (?cs ! i)"
  let ?start = "Search (length ?cs) ?p"
  have "upward (length ?cs) ?p"
    unfolding upward_def using comments_le [OF f] by (meson order_trans less_le_trans)
  note S = Search_least [OF this]
  have before: "?start \<le> i" if "i < length ?cs" "attributedToIndex (?cs ! i) = ?k" "?k < cindex (?cs ! i)" for i
    using S(2) [of i] that by (metis not_le order_refl)
  show ?thesis
  proof (cases "?start = length ?cs \<or> attributedToIndex (?cs ! ?start) \<noteq> ?k")
    case True
    then have "TrailingComments f n = (0, 0)" by (simp add: TrailingComments_def Let_def)
    moreover have "\<not> (attributedToIndex (?cs ! i) = ?k \<and> ?k < cindex (?cs ! i))" if "i < length ?cs" for i
    proof
      assume a: "attributedToIndex (?cs ! i) = ?k \<and> ?k < cindex (?cs ! i)"
      then have "?start \<le> i" using before [OF that] by blast
      then show False using True a S(3) comments_le(2) [OF f, of ?start i] that by auto
    qed
    ultimately show ?thesis by auto
  next
    case False
    then have lt: "?start < length ?cs" using S(1) by simp
    have "{i. i < length ?cs \<and> attributedToIndex (?cs ! i) = ?k \<and> ?k < cindex (?cs ! i)} =
        {?start..<?start + count_from (\<lambda>c. attributedToIndex c = ?k) (drop ?start ?cs)}"
    proof (rule block_range)
      fix i j
      assume h: "?start \<le> i" "i \<le> j" "j < length ?cs" "attributedToIndex (?cs ! j) = ?k \<and> ?k < cindex (?cs ! j)"
      then show "attributedToIndex (?cs ! i) = ?k"
        using comments_le [OF f, of i j] comments_le(2) [OF f, of ?start i] False by auto
    next
      fix i
      assume h: "?start \<le> i" "i < length ?cs" "attributedToIndex (?cs ! i) = ?k"
      have "?k < cindex (?cs ! ?start)" using S(3) [OF lt] by blast
      then show "attributedToIndex (?cs ! i) = ?k \<and> ?k < cindex (?cs ! i)"
        using comments_le(1) [OF f h(1,2)] h(3) by simp
    qed (use S(1) before in auto)
    then show ?thesis using False by (simp add: TrailingComments_def Let_def)
  qed
qed

section \<open>Items tile the file\<close>

definition item_text :: "fileInfo \<Rightarrow> nat \<Rightarrow> bytes" where
  "item_text f i = slice (fdata f) (ioffset (fitems f ! i)) (item_end (fitems f ! i))"

definition item_gap :: "fileInfo \<Rightarrow> nat \<Rightarrow> bytes" where
  "item_gap f i = slice (fdata f) (if i = 0 then 0 else item_end (fitems f ! (i - 1))) (ioffset (fitems f ! i))"

lemma previous_end:
  assumes f: "info_ok f" and n: "n < length (fitems f)"
  shows "0 \<le> (if n = 0 then 0 else item_end (fitems f ! (n - 1))) \<and>
    (if n = 0 then 0 else item_end (fitems f ! (n - 1))) \<le> ioffset (fitems f ! n)"
proof (cases n)
  case 0
  then show ?thesis using f n by (simp add: info_ok_def item_ok_def)
next
  case (Suc m)
  then have "item_end (fitems f ! m) \<le> ioffset (fitems f ! n)" "item_ok (fdata f) (fitems f ! m)"
    using f n sorted_wrt_nth_less [of "\<lambda>a b. item_end a \<le> ioffset b" "fitems f" m n] by (simp_all add: info_ok_def)
  then show ?thesis using Suc by (simp add: item_ok_def item_end_def)
qed

lemma item_texts:
  assumes f: "info_ok f" and n: "n < length (fitems f)"
  shows "item_whitespace f (int n) = Some (item_gap f n)"
    "NodeInfo_RawText f (TokenInfo f (int n)) = Some (item_text f n)"
proof -
  have ok: "item_ok (fdata f) (fitems f ! n)" using f n by (simp add: info_ok_def)
  have at: "item_at f (int n) = Some (fitems f ! n)" using n by (simp add: item_at_def)
  show "NodeInfo_RawText f (TokenInfo f (int n)) = Some (item_text f n)" using n ok
    by (simp add: NodeInfo_RawText_def TokenInfo_def nodeInfo_def at go_slice_def item_text_def item_ok_def item_end_def)
  show "item_whitespace f (int n) = Some (item_gap f n)"
  proof (cases n)
    case 0
    then show ?thesis using ok n by (simp add: item_whitespace_def item_at_def go_slice_def item_gap_def item_ok_def item_end_def)
  next
    case (Suc m)
    then have prev: "item_at f (int n - 1) = Some (fitems f ! m)" using n by (simp add: item_at_def)
    have "item_whitespace f (int n) = go_slice (fdata f) (item_end (fitems f ! m)) (ioffset (fitems f ! n))"
      unfolding item_whitespace_def at prev using Suc by simp
    then show ?thesis using previous_end [OF f n] ok Suc by (simp add: go_slice_def item_gap_def item_ok_def item_end_def)
  qed
qed

lemma items_tile:
  assumes f: "info_ok f"
  shows "n \<le> length (fitems f) \<Longrightarrow>
    concat (map (\<lambda>i. item_gap f i @ item_text f i) [0..<n]) =
    slice (fdata f) 0 (if n = 0 then 0 else item_end (fitems f ! (n - 1)))"
proof (induction n)
  case 0
  then show ?case by (simp add: slice_def)
next
  case (Suc n)
  let ?e = "if n = 0 then 0 else item_end (fitems f ! (n - 1))" and ?it = "fitems f ! n"
  have ok: "item_ok (fdata f) ?it" using f Suc.prems by (simp add: info_ok_def)
  have prev: "0 \<le> ?e \<and> ?e \<le> ioffset ?it" using previous_end [OF f, of n] Suc.prems by simp
  have "concat (map (\<lambda>i. item_gap f i @ item_text f i) [0..<Suc n]) =
      slice (fdata f) 0 ?e @ slice (fdata f) ?e (ioffset ?it) @ slice (fdata f) (ioffset ?it) (item_end ?it)"
    using Suc by (simp add: item_text_def item_gap_def)
  also have "\<dots> = slice (fdata f) 0 (item_end ?it)"
    using prev ok slice_split [of 0 ?e "ioffset ?it" "fdata f"] slice_split [of 0 "ioffset ?it" "item_end ?it" "fdata f"]
    by (simp add: item_ok_def item_end_def)
  finally show ?case by simp
qed

section \<open>Properties\<close>

text \<open>C28: in a file built by the package's operations, every offset of the file has a position, on the
  line that starts at or before it and before the next line; positions are ordered as offsets are.\<close>

theorem SourcePos_correct:
  assumes "built f" "0 \<le> off" "off \<le> off'" "off' \<le> int (length (fdata f))"
  shows "\<exists>pos pos'. SourcePos f off = Some pos \<and> SourcePos f off' = Some pos' \<and> pos_le pos pos' \<and>
    Offset pos = off \<and> 1 \<le> Line pos \<and> 1 \<le> Col pos \<and> flines f ! nat (Line pos - 1) \<le> off \<and>
    (Line pos < int (length (flines f)) \<longrightarrow> off < flines f ! nat (Line pos))"
proof -
  note ok = built_ok [OF assms(1)]
  have 2: "0 \<le> off'" "off \<le> int (length (fdata f))" using assms by simp_all
  let ?n = "Search (length (flines f)) (\<lambda>n. off < flines f ! n)"
  note S = SourcePos_Some [OF ok assms(2) 2(2)] and S' = SourcePos_Some [OF ok 2(1) assms(4)]
  note L = line_search [OF ok assms(2)]
  have "nat (int ?n - 1) = ?n - 1" by simp
  then show ?thesis using S S' SourcePos_le [OF ok assms(2-4) S S'] L by auto
qed

text \<open>C29: the leading and the trailing comments of a node are exactly the comments attributed to its
  first token that come before it, and to its last token that come after it.\<close>

theorem comments_of_node:
  assumes "built f"
  shows "(let (first, num) = LeadingComments f n in {first..<first + num}) =
      {c. c < length (fcomments f) \<and> attributedToIndex (fcomments f ! c) = startIndex n \<and> cindex (fcomments f ! c) < startIndex n} \<and>
    (let (first, num) = TrailingComments f n in {first..<first + num}) =
      {c. c < length (fcomments f) \<and> attributedToIndex (fcomments f ! c) = endIndex n \<and> endIndex n < cindex (fcomments f ! c)}"
  using LeadingComments_range [OF built_ok [OF assms]] TrailingComments_range [OF built_ok [OF assms]] by simp

text \<open>C27: nothing of the source is lost: the whitespace before each item and the item's text, in
  order, give back the file up to the end of the last item.\<close>

theorem items_reproduce_source:
  assumes "built f" "fitems f \<noteq> []"
  shows "\<exists>ws ts. (\<forall>i < length (fitems f). NodeInfo_LeadingWhitespace f (TokenInfo f (int i)) = Some (ws i) \<and>
      NodeInfo_RawText f (TokenInfo f (int i)) = Some (ts i)) \<and>
    concat (map (\<lambda>i. ws i @ ts i) [0..<length (fitems f)]) = take (nat (item_end (last (fitems f)))) (fdata f)"
proof (rule exI [of _ "item_gap f"], rule exI [of _ "item_text f"], rule conjI)
  note ok = built_ok [OF assms(1)]
  show "\<forall>i < length (fitems f). NodeInfo_LeadingWhitespace f (TokenInfo f (int i)) = Some (item_gap f i) \<and>
      NodeInfo_RawText f (TokenInfo f (int i)) = Some (item_text f i)"
    using item_texts [OF ok] by (simp add: NodeInfo_LeadingWhitespace_def TokenInfo_def nodeInfo_def)
  show "concat (map (\<lambda>i. item_gap f i @ item_text f i) [0..<length (fitems f)]) =
      take (nat (item_end (last (fitems f)))) (fdata f)"
    using items_tile [OF ok, of "length (fitems f)"] assms(2) by (simp add: last_conv_nth slice_def)
qed

section \<open>Witnesses\<close>

text \<open>The file \<open>a;//c\<close> and a newline: a token, a token, a comment attributed to the second token, and
  the end of the file.\<close>

definition demo_bytes :: bytes where
  "demo_bytes = [97, 59, 47, 47, 99, 10]"

definition demo_info :: fileInfo where
  "demo_info = \<lparr>fname = ''x.proto'', fdata = demo_bytes, flines = [0, 6],
     fcomments = [\<lparr>cindex = 2, attributedToIndex = 1\<rparr>],
     fitems = [\<lparr>ioffset = 0, ilength = 1\<rparr>, \<lparr>ioffset = 1, ilength = 1\<rparr>, \<lparr>ioffset = 2, ilength = 3\<rparr>,
       \<lparr>ioffset = 6, ilength = 0\<rparr>]\<rparr>"

lemma demo_built: "built demo_info"
proof -
  let ?f0 = "NewFileInfo ''x.proto'' demo_bytes"
  let ?it = "[\<lparr>ioffset = 0, ilength = 1\<rparr>, \<lparr>ioffset = 1, ilength = 1\<rparr>, \<lparr>ioffset = 2, ilength = 3\<rparr>, \<lparr>ioffset = 6, ilength = 0\<rparr>]"
  have "built (?f0\<lparr>fitems := take 1 ?it\<rparr>)"
    by (rule built.token [OF built.new [of "''x.proto''" demo_bytes], of 0 1]) (simp add: AddToken_def NewFileInfo_def demo_bytes_def)
  then have "built (?f0\<lparr>fitems := take 2 ?it\<rparr>)"
    by (rule built.token [of _ 1 1]) (simp add: AddToken_def NewFileInfo_def demo_bytes_def item_end_def)
  then have "built (?f0\<lparr>fitems := take 3 ?it\<rparr>)"
    by (rule built.token [of _ 2 3]) (simp add: AddToken_def NewFileInfo_def demo_bytes_def item_end_def)
  then have "built (?f0\<lparr>fitems := take 3 ?it, flines := [0, 6]\<rparr>)"
    by (rule built.line [of _ 6]) (simp add: AddLine_def NewFileInfo_def demo_bytes_def)
  then have "built (?f0\<lparr>fitems := ?it, flines := [0, 6]\<rparr>)"
    by (rule built.token [of _ 6 0]) (simp add: AddToken_def NewFileInfo_def demo_bytes_def item_end_def)
  then have "built (?f0\<lparr>fitems := ?it, flines := [0, 6], fcomments := [\<lparr>cindex = 2, attributedToIndex = 1\<rparr>]\<rparr>)"
    by (rule built.comment [of _ 2 1]) (simp add: AddComment_def NewFileInfo_def demo_bytes_def)
  then show ?thesis by (simp add: demo_info_def NewFileInfo_def)
qed

theorem SourcePos_correct_witness:
  "\<exists>pos. SourcePos demo_info 4 = Some pos \<and> Line pos = 1 \<and> Col pos = 5 \<and> flines demo_info ! nat (Line pos) = 6"
proof -
  have h: "0 \<le> (4::int)" "(4::int) \<le> 5" "5 \<le> int (length (fdata demo_info))" by (simp_all add: demo_info_def demo_bytes_def)
  have "SourcePos demo_info 4 = Some \<lparr>Filename = ''x.proto'', Line = 1, Col = 5, Offset = 4\<rparr>" by code_simp
  with SourcePos_correct [OF demo_built h] show ?thesis by (auto simp: demo_info_def)
qed

theorem comments_of_node_witness:
  "(let (first, num) = TrailingComments demo_info (TokenInfo demo_info 1) in {first..<first + num}) = {0}"
proof -
  have n: "endIndex (TokenInfo demo_info 1) = 1" by (simp add: TokenInfo_def nodeInfo_def demo_info_def)
  from comments_of_node [OF demo_built, of "TokenInfo demo_info 1"]
  have "(let (first, num) = TrailingComments demo_info (TokenInfo demo_info 1) in {first..<first + num}) =
      {c. c < 1 \<and> attributedToIndex (fcomments demo_info ! c) = 1 \<and> 1 < cindex (fcomments demo_info ! c)}"
    unfolding n by (simp add: demo_info_def)
  also have "\<dots> = {0}" by (auto simp: demo_info_def)
  finally show ?thesis .
qed

theorem items_reproduce_source_witness:
  "\<exists>ws ts. NodeInfo_LeadingWhitespace demo_info (TokenInfo demo_info 3) = Some (ws 3) \<and>
    NodeInfo_RawText demo_info (TokenInfo demo_info 2) = Some (ts 2) \<and>
    concat (map (\<lambda>i. ws i @ ts i) [0..<4]) = demo_bytes"
proof -
  have h: "fitems demo_info \<noteq> []" "length (fitems demo_info) = 4" "nat (item_end (last (fitems demo_info))) = 6"
    "take 6 (fdata demo_info) = demo_bytes"
    by (simp_all add: demo_info_def demo_bytes_def item_end_def)
  from items_reproduce_source [OF demo_built h(1), unfolded h(2-4)]
  obtain ws ts where w: "\<forall>i < 4. NodeInfo_LeadingWhitespace demo_info (TokenInfo demo_info (int i)) = Some (ws i) \<and>
      NodeInfo_RawText demo_info (TokenInfo demo_info (int i)) = Some (ts i)"
    "concat (map (\<lambda>i. ws i @ ts i) [0..<4]) = demo_bytes" by blast
  show ?thesis using w(1) [rule_format, of 3] w(1) [rule_format, of 2] w(2) by (intro exI [of _ ws] exI [of _ ts]) simp
qed

text \<open>The end of a node is wrong after a character of several bytes. For a token that is the single
  character \<open>0xC3 0xA9\<close> the end reported is column 3, while the text after it starts in column 2.\<close>

lemma NodeInfo_End_past_multibyte:
  "\<exists>f. built f \<and> fdata f = [0xC3, 0xA9] \<and> fitems f = [\<lparr>ioffset = 0, ilength = 2\<rparr>] \<and>
     map_option Col (NodeInfo_End f (TokenInfo f 0)) = Some 3 \<and> map_option Col (SourcePos f 2) = Some 2"
proof (intro exI conjI)
  let ?f = "\<lparr>fname = ''x.proto'', fdata = [0xC3, 0xA9], flines = [0], fcomments = [], fitems = [\<lparr>ioffset = 0, ilength = 2\<rparr>]\<rparr>"
  show "built ?f"
    by (rule built.token [OF built.new [of "''x.proto''" "[0xC3, 0xA9]"], of 0 2]) (simp add: AddToken_def NewFileInfo_def)
  show "map_option Col (NodeInfo_End ?f (TokenInfo ?f 0)) = Some 3" by code_simp
  show "map_option Col (SourcePos ?f 2) = Some 2" by code_simp
qed simp_all

end
