(* ===== verification/Lexer.thy ===== *)
theory Lexer
  imports Reader FileInfo "HOL-Library.Monad_Syntax"
begin

text \<open>
  The lexer: \<open>parser/lexer.go\<close>.

  The state is the struct \<open>protoLex\<close>: the reader, the file info that records lines, tokens and comments,
  the handler (an index into its store), and what is needed to attribute comments. Operations that can
  panic (in the reader or in the file info) return an option, \<open>None\<close> being the panic; \<open>Lex\<close> is a loop
  over single iterations, each of which consumes at least one rune when it asks for another one.

  \<open>strconv.ParseFloat\<close> is a parameter \<open>pf\<close> that returns the bits of a \<open>float64\<close> and an error; the rest of
  \<open>strconv\<close> that the lexer uses is defined here. The syntax tree \<open>res\<close> belongs to the parser.
\<close>

section \<open>Characters and text\<close>

abbreviation ch :: "char \<Rightarrow> int" where
  "ch c \<equiv> of_char c"

definition text_bytes :: "string \<Rightarrow> bytes" where
  "text_bytes s = map of_char s"

definition text_of :: "bytes \<Rightarrow> string" where
  "text_of bs = map (\<lambda>b. char_of (unat b)) bs"

definition is_whitespace :: "int \<Rightarrow> bool" where
  "is_whitespace c \<longleftrightarrow> c = 10 \<or> c = 13 \<or> c = 9 \<or> c = 12 \<or> c = 11 \<or> c = 32"

definition is_digit :: "int \<Rightarrow> bool" where
  "is_digit c \<longleftrightarrow> ch CHR ''0'' \<le> c \<and> c \<le> ch CHR ''9''"

definition is_letter :: "int \<Rightarrow> bool" where
  "is_letter c \<longleftrightarrow> ch CHR ''a'' \<le> c \<and> c \<le> ch CHR ''z'' \<or> ch CHR ''A'' \<le> c \<and> c \<le> ch CHR ''Z''"

definition is_hex_digit :: "int \<Rightarrow> bool" where
  "is_hex_digit c \<longleftrightarrow> is_digit c \<or> ch CHR ''a'' \<le> c \<and> c \<le> ch CHR ''f'' \<or> ch CHR ''A'' \<le> c \<and> c \<le> ch CHR ''F''"

definition is_octal_digit :: "int \<Rightarrow> bool" where
  "is_octal_digit c \<longleftrightarrow> ch CHR ''0'' \<le> c \<and> c \<le> ch CHR ''7''"

definition is_symbol :: "int \<Rightarrow> bool" where
  "is_symbol c \<longleftrightarrow> c \<in> set (map of_char '';,.:=-+(){}[]<>/'')"

section \<open>Numbers\<close>

datatype num_err = ErrSyntax | ErrRange

definition digit_value :: "byte \<Rightarrow> int option" where
  "digit_value c =
     (if 48 \<le> c \<and> c \<le> 57 then Some (uint (c - 48))
      else let lower = c OR 0x20 in if 97 \<le> lower \<and> lower \<le> 122 then Some (uint (lower - 97) + 10) else None)"

fun parse_digits :: "int \<Rightarrow> int \<Rightarrow> int \<Rightarrow> bytes \<Rightarrow> num_err + int" where
  "parse_digits base maxVal n [] = Inr n"
| "parse_digits base maxVal n (c # s) =
     (case digit_value c of
        None \<Rightarrow> Inl ErrSyntax
      | Some d \<Rightarrow>
          if base \<le> d then Inl ErrSyntax
          else if maxVal < n * base + d then Inl ErrRange
          else parse_digits base maxVal (n * base + d) s)"

text \<open>\<open>strconv.ParseUint\<close> and \<open>strconv.ParseInt\<close> for an explicit base: no prefixes, no underscores, and
  for \<open>ParseInt\<close> an optional sign.\<close>

definition ParseUint :: "bytes \<Rightarrow> int \<Rightarrow> nat \<Rightarrow> num_err + int" where
  "ParseUint s base bitSize = (if s = [] then Inl ErrSyntax else parse_digits base (2 ^ bitSize - 1) 0 s)"

definition ParseInt :: "bytes \<Rightarrow> int \<Rightarrow> nat \<Rightarrow> num_err + int" where
  "ParseInt s base bitSize =
     (if s = [] then Inl ErrSyntax
      else let neg = hd s = of_char CHR ''-'';
               s0 = (if hd s = of_char CHR ''+'' \<or> neg then tl s else s)
           in case ParseUint s0 base bitSize of
                Inl e \<Rightarrow> Inl e
              | Inr un \<Rightarrow>
                  if \<not> neg \<and> 2 ^ (bitSize - 1) \<le> un then Inl ErrRange
                  else if neg \<and> 2 ^ (bitSize - 1) < un then Inl ErrRange
                  else Inr (if neg then - un else un))"

type_synonym float64 = "64 word"
type_synonym float_parser = "bytes \<Rightarrow> float64 \<times> num_err option"

definition pos_inf :: float64 where
  "pos_inf = 0x7FF0000000000000"

definition parseFloat :: "float_parser \<Rightarrow> bytes \<Rightarrow> float64 \<times> num_err option" where
  "parseFloat pf token =
     (if of_char CHR ''_'' \<in> set token then (0, Some ErrSyntax)
      else let (f, err) = pf token
           in if err = None then (f, None)
              else if err = Some ErrRange \<and> f = pos_inf then (f, None)
              else (f, err))"

definition numError :: "num_err \<Rightarrow> string \<Rightarrow> bytes \<Rightarrow> go_error" where
  "numError err kind s =
     (if err = ErrRange then Msg (''value out of range for '' @ kind @ '': '' @ text_of s)
      else Msg (''invalid syntax in '' @ kind @ '' value: '' @ text_of s))"

section \<open>Tokens\<close>

text \<open>The token numbers of the generated parser.\<close>

definition tok_STRING_LIT :: int where "tok_STRING_LIT = 57346"
definition tok_INT_LIT :: int where "tok_INT_LIT = 57347"
definition tok_FLOAT_LIT :: int where "tok_FLOAT_LIT = 57348"
definition tok_NAME :: int where "tok_NAME = 57349"
definition tok_ERROR :: int where "tok_ERROR = 57395"

lemmas tok_defs = tok_STRING_LIT_def tok_INT_LIT_def tok_FLOAT_LIT_def tok_NAME_def tok_ERROR_def

definition keyword_table :: "(string \<times> int) list" where
  "keyword_table =
     [(''syntax'', 57350), (''edition'', 57351), (''import'', 57352), (''weak'', 57353), (''public'', 57354),
      (''package'', 57355), (''option'', 57356), (''true'', 57357), (''false'', 57358), (''inf'', 57359),
      (''nan'', 57360), (''repeated'', 57361), (''optional'', 57362), (''required'', 57363), (''double'', 57364),
      (''float'', 57365), (''int32'', 57366), (''int64'', 57367), (''uint32'', 57368), (''uint64'', 57369),
      (''sint32'', 57370), (''sint64'', 57371), (''fixed32'', 57372), (''fixed64'', 57373), (''sfixed32'', 57374),
      (''sfixed64'', 57375), (''bool'', 57376), (''string'', 57377), (''bytes'', 57378), (''group'', 57379),
      (''oneof'', 57380), (''map'', 57381), (''extensions'', 57382), (''to'', 57383), (''max'', 57384),
      (''reserved'', 57385), (''enum'', 57386), (''message'', 57387), (''extend'', 57388), (''service'', 57389),
      (''rpc'', 57390), (''stream'', 57391), (''returns'', 57392), (''export'', 57393), (''local'', 57394)]"

datatype terminal =
    StringLiteralNode bytes int
  | IdentNode bytes int
  | UintLiteralNode int int
  | FloatLiteralNode float64 int
  | RuneNode int int

fun terminal_Token :: "terminal \<Rightarrow> int" where
  "terminal_Token (StringLiteralNode _ t) = t"
| "terminal_Token (IdentNode _ t) = t"
| "terminal_Token (UintLiteralNode _ t) = t"
| "terminal_Token (FloatLiteralNode _ t) = t"
| "terminal_Token (RuneNode _ t) = t"

text \<open>What \<open>Lex\<close> leaves in \<open>lval\<close>: nothing, a terminal, or an error.\<close>

datatype sym_val = NoVal | Sym terminal | SymErr go_error

section \<open>State\<close>

record lex_comment =
  ctok :: int
  isBlock :: bool

record 'r protoLex =
  input :: runeReader
  info :: fileInfo
  lhandler :: nat
  lstore :: "'r hstore"
  prevSym :: "terminal option"
  prevOffset :: nat
  eofTok :: int
  prevLine :: int
  curLine :: int
  maybeDonateComment :: int
  lcomments :: "lex_comment list"

definition utf8Bom :: bytes where
  "utf8Bom = [0xEF, 0xBB, 0xBF]"

text \<open>\<open>newLexer\<close>: reading the input gives its bytes or an error.\<close>

definition newLexer :: "go_error + bytes \<Rightarrow> string \<Rightarrow> nat \<Rightarrow> 'r hstore \<Rightarrow> go_error + 'r protoLex" where
  "newLexer inp filename h st =
     (case inp of
        Inl err \<Rightarrow> Inl err
      | Inr bs \<Rightarrow>
          let contents = (if take 3 bs = utf8Bom then drop 3 bs else bs)
          in Inr \<lparr>input = \<lparr>rdata = contents, pos = 0, rerr = None, rmark = 0, utf8Strict = False\<rparr>,
                  info = NewFileInfo filename contents, lhandler = h, lstore = st, prevSym = None, prevOffset = 0,
                  eofTok = 0, prevLine = 0, curLine = 0, maybeDonateComment = 0, lcomments = []\<rparr>)"

definition maybeNewLine :: "int \<Rightarrow> 'r protoLex \<Rightarrow> 'r protoLex option" where
  "maybeNewLine r l =
     (if r = 10 then do {
        f \<leftarrow> AddLine (int (pos (input l))) (info l);
        Some (l\<lparr>info := f, curLine := curLine l + 1,
                maybeDonateComment :=
                  (if lcomments l \<noteq> [] \<and> isBlock (hd (lcomments l)) \<and> 0 < maybeDonateComment l
                   then maybeDonateComment l + 1 else maybeDonateComment l)\<rparr>)
      }
      else Some l)"

section \<open>Reporting errors\<close>

definition prev :: "'r protoLex \<Rightarrow> source_pos option" where
  "prev l = SourcePos (info l) (int (prevOffset l))"

definition addSourceError :: "'r reporter \<Rightarrow> go_error \<Rightarrow> 'r protoLex \<Rightarrow> (go_error \<times> bool \<times> 'r protoLex) option" where
  "addSourceError rep err l = do {
     ewp \<leftarrow> (if is_ErrorWithPos err then Some err
            else do { p \<leftarrow> prev l; Some (Error \<lparr>Start = p, End = p\<rparr> err) });
     let (handlerErr, st) = HandleError rep (lhandler l) ewp (lstore l);
     Some (ewp, handlerErr = None, l\<lparr>lstore := st\<rparr>)
   }"

definition lex_Error :: "'r reporter \<Rightarrow> string \<Rightarrow> 'r protoLex \<Rightarrow> 'r protoLex option" where
  "lex_Error rep s l = do { (_, _, l) \<leftarrow> addSourceError rep (Msg s) l; Some l }"

definition errWithCurrentPos :: "'r protoLex \<Rightarrow> go_error \<Rightarrow> int \<Rightarrow> go_error option" where
  "errWithCurrentPos l err offset =
     (if is_ErrorWithPos err then Some err
      else do {
        p \<leftarrow> SourcePos (info l) (int (pos (input l)) + offset);
        Some (Error \<lparr>Start = p, End = p\<rparr> err)
      })"

definition setError :: "'r reporter \<Rightarrow> go_error \<Rightarrow> 'r protoLex \<Rightarrow> (sym_val \<times> 'r protoLex) option" where
  "setError rep err l = do { (ewp, _, l) \<leftarrow> addSourceError rep err l; Some (SymErr ewp, l) }"

definition requireSemicolon ::
  "'r reporter \<Rightarrow> terminal list \<Rightarrow> 'r protoLex \<Rightarrow> (terminal option \<times> terminal list \<times> 'r protoLex) option" where
  "requireSemicolon rep semicolons l =
     (case semicolons of
        [] \<Rightarrow> do { l \<leftarrow> lex_Error rep (''syntax error: expecting '' @ [CHR 0x27, CHR '';'', CHR 0x27]) l; Some (None, [], l) }
      | s # ss \<Rightarrow> Some (Some s, ss, l))"

section \<open>Identifiers and numbers\<close>

function readIdentifier :: "runeReader \<Rightarrow> runeReader option" where
  "readIdentifier rr =
     (case readRune rr of
        (Inl _, rr1) \<Rightarrow> Some rr1
      | (Inr (c, sz), rr1) \<Rightarrow>
          if c \<noteq> ch CHR ''_'' \<and> \<not> is_letter c \<and> \<not> is_digit c then unreadRune sz rr1 else readIdentifier rr1)"
  by pat_completeness auto
termination
  by (relation "measure (\<lambda>rr. length (rdata rr) - pos rr)") (auto dest!: sym [of _ "readRune _"] readRune_progress)

function number_loop :: "bool \<Rightarrow> runeReader \<Rightarrow> runeReader option" where
  "number_loop allowExpSign rr =
     (case readRune rr of
        (Inl _, rr1) \<Rightarrow> Some rr1
      | (Inr (c, sz), rr1) \<Rightarrow>
          if (c = ch CHR ''-'' \<or> c = ch CHR ''+'') \<and> \<not> allowExpSign then unreadRune sz rr1
          else if c \<noteq> ch CHR ''.'' \<and> c \<noteq> ch CHR ''_'' \<and> \<not> is_digit c \<and> \<not> is_letter c \<and>
                  c \<noteq> ch CHR ''-'' \<and> c \<noteq> ch CHR ''+'' then unreadRune sz rr1
          else number_loop (c = ch CHR ''e'' \<or> c = ch CHR ''E'') rr1)"
  by pat_completeness auto
termination
  by (relation "measure (\<lambda>(_, rr). length (rdata rr) - pos rr)") (auto dest!: sym [of _ "readRune _"] readRune_progress)

definition readNumber :: "runeReader \<Rightarrow> runeReader option" where
  "readNumber rr = number_loop False rr"

section \<open>String literals\<close>

definition read_error :: "read_err \<Rightarrow> go_error" where
  "read_error e =
     (case e of
        EOF \<Rightarrow> Msg ''EOF''
      | InvalidUTF8 off b \<Rightarrow> Msg (''invalid UTF8 at offset '' @ show_nat off @ '': '' @ show_hex (unat b)))"

text \<open>What an escape sequence leads to: the reader's error, a report, or bytes of the literal.\<close>

datatype esc = EscFail read_err | EscBad string bytes | EscOk bytes

definition read_hex_escape :: "int \<Rightarrow> int \<Rightarrow> runeReader \<Rightarrow> (esc \<times> runeReader) option" where
  "read_hex_escape quote c rr =
     (case readRune rr of
        (Inl e, rr) \<Rightarrow> Some (EscFail e, rr)
      | (Inr (c1, sz1), rr) \<Rightarrow>
          if c1 = quote \<or> c1 = 92 then do {
            rr \<leftarrow> unreadRune sz1 rr;
            Some (EscBad ''invalid hex escape: %s'' (92 # encode_rune c), rr)
          }
          else case readRune rr of
            (Inl e, rr) \<Rightarrow> Some (EscFail e, rr)
          | (Inr (c2, sz2), rr) \<Rightarrow> do {
              (hex, rr) \<leftarrow>
                (if \<not> is_hex_digit c2 then do { rr \<leftarrow> unreadRune sz2 rr; Some (encode_rune c1, rr) }
                 else Some (encode_rune c1 @ encode_rune c2, rr));
              Some (case ParseInt hex 16 32 of
                      Inl _ \<Rightarrow> EscBad ''invalid hex escape: %s'' (92 # encode_rune c @ hex)
                    | Inr i \<Rightarrow> EscOk [word_of_int i], rr)
            })"

definition octal_escape :: "bytes \<Rightarrow> esc" where
  "octal_escape octal =
     (case ParseInt octal 8 32 of
        Inl _ \<Rightarrow> EscBad ''invalid octal escape: %s'' (92 # octal)
      | Inr i \<Rightarrow>
          if 0xFF < i then EscBad ''octal escape is out range, must be between 0 and 377: %s'' (92 # octal)
          else EscOk [word_of_int i])"

definition read_octal_escape :: "int \<Rightarrow> runeReader \<Rightarrow> (esc \<times> runeReader) option" where
  "read_octal_escape c rr =
     (case readRune rr of
        (Inl e, rr) \<Rightarrow> Some (EscFail e, rr)
      | (Inr (c2, sz2), rr) \<Rightarrow>
          if \<not> is_octal_digit c2 then do {
            rr \<leftarrow> unreadRune sz2 rr;
            Some (octal_escape (encode_rune c), rr)
          }
          else case readRune rr of
            (Inl e, rr) \<Rightarrow> Some (EscFail e, rr)
          | (Inr (c3, sz3), rr) \<Rightarrow>
              if \<not> is_octal_digit c3 then do {
                rr \<leftarrow> unreadRune sz3 rr;
                Some (octal_escape (encode_rune c @ encode_rune c2), rr)
              }
              else Some (octal_escape (encode_rune c @ encode_rune c2 @ encode_rune c3), rr))"

text \<open>Up to \<open>n\<close> runes of a unicode escape; a quote or a backslash ends it early.\<close>

fun read_escape_runes :: "int \<Rightarrow> nat \<Rightarrow> runeReader \<Rightarrow> ((read_err + int list) \<times> runeReader) option" where
  "read_escape_runes quote 0 rr = Some (Inr [], rr)"
| "read_escape_runes quote (Suc n) rr =
     (case readRune rr of
        (Inl e, rr) \<Rightarrow> Some (Inl e, rr)
      | (Inr (c2, sz2), rr) \<Rightarrow>
          if c2 = quote \<or> c2 = 92 then do { rr \<leftarrow> unreadRune sz2 rr; Some (Inr [], rr) }
          else do {
            (x, rr) \<leftarrow> read_escape_runes quote n rr;
            Some (case x of Inl e \<Rightarrow> Inl e | Inr u \<Rightarrow> Inr (c2 # u), rr)
          })"

definition string_of_runes :: "int list \<Rightarrow> bytes" where
  "string_of_runes u = concat (map encode_rune u)"

definition short_unicode :: "int list \<Rightarrow> esc" where
  "short_unicode u =
     (let codepointStr = string_of_runes u; bad = EscBad ''invalid unicode escape: %s'' (text_bytes [CHR 0x5C, CHR ''u''] @ codepointStr)
      in if length u < 4 then bad
         else case ParseInt codepointStr 16 32 of Inl _ \<Rightarrow> bad | Inr i \<Rightarrow> EscOk (encode_rune i))"

definition long_unicode :: "int list \<Rightarrow> esc" where
  "long_unicode u =
     (let codepointStr = string_of_runes u; text = text_bytes [CHR 0x5C, CHR ''U''] @ codepointStr
      in if length u < 8 then EscBad ''invalid unicode escape: %s'' text
         else case ParseInt codepointStr 16 32 of
           Inl _ \<Rightarrow> EscBad ''invalid unicode escape: %s'' text
         | Inr i \<Rightarrow>
             if 0x10FFFF < i \<or> i < 0 then
               EscBad ''unicode escape is out of range, must be between 0 and 0x10ffff: %s'' text
             else EscOk (encode_rune i))"

definition read_unicode_escape :: "int \<Rightarrow> nat \<Rightarrow> (int list \<Rightarrow> esc) \<Rightarrow> runeReader \<Rightarrow> (esc \<times> runeReader) option" where
  "read_unicode_escape quote n decode rr = do {
     (x, rr) \<leftarrow> read_escape_runes quote n rr;
     Some (case x of Inl e \<Rightarrow> EscFail e | Inr u \<Rightarrow> decode u, rr)
   }"

definition simple_escape :: "int \<Rightarrow> byte option" where
  "simple_escape c =
     map_of [(ch CHR ''a'', 7), (ch CHR ''b'', 8), (ch CHR ''f'', 12), (ch CHR ''n'', 10), (ch CHR ''r'', 13),
             (ch CHR ''t'', 9), (ch CHR ''v'', 11), (92, 92), (39, 39), (34, 34), (ch CHR ''?'', 63)] c"

definition read_escape :: "int \<Rightarrow> runeReader \<Rightarrow> (esc \<times> runeReader) option" where
  "read_escape quote rr =
     (case readRune rr of
        (Inl e, rr) \<Rightarrow> Some (EscFail e, rr)
      | (Inr (c, _), rr) \<Rightarrow>
          if c = ch CHR ''x'' \<or> c = ch CHR ''X'' then read_hex_escape quote c rr
          else if is_octal_digit c then read_octal_escape c rr
          else if c = ch CHR ''u'' then read_unicode_escape quote 4 short_unicode rr
          else if c = ch CHR ''U'' then read_unicode_escape quote 8 long_unicode rr
          else case simple_escape c of
                 Some b \<Rightarrow> Some (EscOk [b], rr)
               | None \<Rightarrow> Some (EscBad ''invalid escape sequence: %s'' (92 # encode_rune c), rr))"

declare readIdentifier.simps [simp del] number_loop.simps [simp del]

text \<open>Escapes never move the reader back.\<close>

definition advances :: "runeReader \<Rightarrow> runeReader \<Rightarrow> bool" where
  "advances rr rr1 \<longleftrightarrow> rdata rr1 = rdata rr \<and> pos rr \<le> pos rr1"

lemma advances_trans: "advances a b \<Longrightarrow> advances b c \<Longrightarrow> advances a c"
  by (auto simp: advances_def)

lemma advances_refl [simp]: "advances a a"
  by (simp add: advances_def)

lemma readRune_advances: "readRune rr = (x, rr1) \<Longrightarrow> advances rr rr1"
  by (cases x)
     (auto simp: advances_def readRune_def Let_def split: option.splits if_splits prod.splits dest: readRune_progress)

lemma unread_advances:
  "readRune rr = (Inr (c, sz), rr1) \<Longrightarrow> unreadRune sz rr1 = Some rr2 \<Longrightarrow> advances rr rr2"
  by (auto simp: advances_def unreadRune_def split: if_splits dest: readRune_progress)

lemma read_hex_escape_advances: "read_hex_escape quote c rr = Some (x, rr1) \<Longrightarrow> advances rr rr1"
  by (auto simp: read_hex_escape_def elim!: bind_SomeE split: prod.split_asm sum.split_asm if_split_asm
      intro: readRune_advances advances_trans dest: unread_advances)

lemma read_octal_escape_advances: "read_octal_escape c rr = Some (x, rr1) \<Longrightarrow> advances rr rr1"
  by (auto simp: read_octal_escape_def elim!: bind_SomeE split: prod.split_asm sum.split_asm if_split_asm
      intro: readRune_advances advances_trans dest: unread_advances)

lemma read_escape_runes_advances: "read_escape_runes quote n rr = Some (x, rr1) \<Longrightarrow> advances rr rr1"
proof (induction n arbitrary: rr x)
  case 0
  then show ?case by simp
next
  case (Suc n)
  then show ?case
    by (auto elim!: bind_SomeE split: prod.split_asm sum.split_asm if_split_asm
        intro: readRune_advances advances_trans dest: unread_advances)
qed

lemma read_escape_advances: "read_escape quote rr = Some (x, rr1) \<Longrightarrow> advances rr rr1"
  by (auto simp: read_escape_def read_unicode_escape_def elim!: bind_SomeE split: prod.split_asm sum.split_asm if_split_asm option.split_asm
      intro: readRune_advances advances_trans
      dest!: read_hex_escape_advances read_octal_escape_advances read_escape_runes_advances)

text \<open>\<open>reportErr\<close>, with its variables \<open>escapeError\<close> and \<open>noMoreErrors\<close>.\<close>

type_synonym esc_state = "go_error option \<times> bool"

definition format_msg :: "string \<Rightarrow> bytes \<Rightarrow> string" where
  "format_msg msg bad = (if drop (length msg - 2) msg = ''%s'' then take (length msg - 2) msg @ text_of bad else msg)"

definition reportErr ::
  "'r reporter \<Rightarrow> string \<Rightarrow> bytes \<Rightarrow> esc_state \<Rightarrow> 'r protoLex \<Rightarrow> (esc_state \<times> 'r protoLex) option" where
  "reportErr rep msg badEscape es l =
     (case es of (escapeError, noMoreErrors) \<Rightarrow>
        if noMoreErrors then Some (es, l)
        else do {
          (noMoreErrors, l) \<leftarrow>
            (case escapeError of
               None \<Rightarrow> Some (False, l)
             | Some e \<Rightarrow> do { (_, ok, l) \<leftarrow> addSourceError rep e l; Some (\<not> ok, l) });
          e \<leftarrow> errWithCurrentPos l (Msg (format_msg msg badEscape)) (- int (length badEscape));
          Some ((Some e, noMoreErrors), l)
        })"

lemma addSourceError_frame:
  "addSourceError rep err l = Some (ewp, ok, l1) \<Longrightarrow> \<exists>st. l1 = l\<lparr>lstore := st\<rparr>"
  by (auto simp: addSourceError_def Let_def elim!: bind_SomeE split: prod.split_asm)

lemma setError_frame: "setError rep err l = Some (v, l1) \<Longrightarrow> \<exists>st. l1 = l\<lparr>lstore := st\<rparr>"
  by (auto simp: setError_def elim!: bind_SomeE dest: addSourceError_frame)

lemma reportErr_frame:
  assumes "reportErr rep msg bad es l = Some (es1, l1)"
  shows "\<exists>st. l1 = l\<lparr>lstore := st\<rparr>"
proof -
  have same: "\<exists>st. l = l\<lparr>lstore := st\<rparr>" by (rule exI [of _ "lstore l"]) simp
  obtain e n where es: "es = (e, n)" by (cases es)
  show ?thesis
  proof (cases "n \<or> e = None")
    case True
    then have "l1 = l" using assms es by (auto simp: reportErr_def elim!: bind_SomeE split: if_split_asm option.split_asm)
    then show ?thesis using same by simp
  next
    case False
    then obtain e0 where "e = Some e0" "\<not> n" by auto
    then obtain ewp ok where "addSourceError rep e0 l = Some (ewp, ok, l1)"
      using assms es by (auto simp: reportErr_def elim!: bind_SomeE split: if_split_asm option.split_asm)
    then show ?thesis by (rule addSourceError_frame)
  qed
qed

definition null_msg :: string where
  "null_msg = ''null character ('' @ [CHR 0x27, CHR 0x5C, CHR ''0'', CHR 0x27] @ '') not allowed in string literal''"

function string_loop ::
  "'r reporter \<Rightarrow> int \<Rightarrow> bytes \<Rightarrow> esc_state \<Rightarrow> 'r protoLex \<Rightarrow> ((go_error + bytes) \<times> 'r protoLex) option" where
  "string_loop rep quote buf es l =
     (case readRune (input l) of
        (Inl e, i) \<Rightarrow> Some (Inl (if e = EOF then Msg ''unexpected EOF'' else read_error e), l\<lparr>input := i\<rparr>)
      | (Inr (c, _), i) \<Rightarrow>
          if c = 10 then
            Some (Inl (Msg ''encountered end-of-line before end of string literal''), l\<lparr>input := i\<rparr>)
          else if c = quote then
            Some (case fst es of Some e \<Rightarrow> Inl e | None \<Rightarrow> Inr buf, l\<lparr>input := i\<rparr>)
          else if c = 0 then do {
            (es1, l1) \<leftarrow> reportErr rep null_msg (encode_rune 0) es (l\<lparr>input := i\<rparr>);
            string_loop rep quote buf es1 l1
          }
          else if c = 92 then do {
            (x, i1) \<leftarrow> read_escape quote i;
            (case x of
               EscFail e \<Rightarrow> Some (Inl (read_error e), l\<lparr>input := i1\<rparr>)
             | EscBad msg bad \<Rightarrow> do {
                 (es1, l1) \<leftarrow> reportErr rep msg bad es (l\<lparr>input := i1\<rparr>);
                 string_loop rep quote buf es1 l1
               }
             | EscOk bs \<Rightarrow> string_loop rep quote (buf @ bs) es (l\<lparr>input := i1\<rparr>))
          }
          else string_loop rep quote (buf @ encode_rune c) es (l\<lparr>input := i\<rparr>))"
  by pat_completeness auto
termination
  by (relation "measure (\<lambda>(rep, quote, buf, es, l). length (rdata (input l)) - pos (input l))")
     (auto simp: advances_def dest!: sym [of _ "readRune _"] readRune_progress read_escape_advances reportErr_frame)

declare string_loop.simps [simp del]

definition readStringLiteral :: "'r reporter \<Rightarrow> int \<Rightarrow> 'r protoLex \<Rightarrow> ((go_error + bytes) \<times> 'r protoLex) option" where
  "readStringLiteral rep quote l = string_loop rep quote [] (None, False) l"

section \<open>Comments\<close>

text \<open>The loop of \<open>skipToEndOfLineComment\<close>; true when it stopped at a NUL.\<close>

function line_comment_loop :: "runeReader \<Rightarrow> (bool \<times> runeReader) option" where
  "line_comment_loop rr =
     (case readRune rr of
        (Inl _, rr1) \<Rightarrow> Some (False, rr1)
      | (Inr (c, sz), rr1) \<Rightarrow>
          if c = 10 then do { rr2 \<leftarrow> unreadRune sz rr1; Some (False, rr2) }
          else if c = 0 then Some (True, rr1)
          else line_comment_loop rr1)"
  by pat_completeness auto
termination
  by (relation "measure (\<lambda>rr. length (rdata rr) - pos rr)") (auto dest!: sym [of _ "readRune _"] readRune_progress)

declare line_comment_loop.simps [simp del]

text \<open>\<open>hasErr\<close> together with the error left in \<open>lval\<close>.\<close>

definition skipToEndOfLineComment :: "'r reporter \<Rightarrow> 'r protoLex \<Rightarrow> (sym_val option \<times> 'r protoLex) option" where
  "skipToEndOfLineComment rep l = do {
     (nul, i) \<leftarrow> line_comment_loop (input l);
     (if nul then do {
        (v, l) \<leftarrow> setError rep (Msg ''invalid control character'') (l\<lparr>input := i\<rparr>);
        Some (Some v, l)
      }
      else Some (None, l\<lparr>input := i\<rparr>))
   }"

lemma maybeNewLine_input: "maybeNewLine c l = Some l1 \<Longrightarrow> input l1 = input l"
  by (auto simp: maybeNewLine_def elim!: bind_SomeE split: if_split_asm)

function skipToEndOfBlockComment :: "'r reporter \<Rightarrow> 'r protoLex \<Rightarrow> (bool \<times> sym_val option \<times> 'r protoLex) option" where
  "skipToEndOfBlockComment rep l =
     (case readRune (input l) of
        (Inl _, i) \<Rightarrow> Some (False, None, l\<lparr>input := i\<rparr>)
      | (Inr (c, _), i) \<Rightarrow>
          if c = 0 then do {
            (v, l) \<leftarrow> setError rep (Msg ''invalid control character'') (l\<lparr>input := i\<rparr>);
            Some (False, Some v, l)
          }
          else do {
            l1 \<leftarrow> maybeNewLine c (l\<lparr>input := i\<rparr>);
            (if c = ch CHR ''*'' then
               (case readRune (input l1) of
                  (Inl _, i1) \<Rightarrow> Some (False, None, l1\<lparr>input := i1\<rparr>)
                | (Inr (c1, sz), i1) \<Rightarrow>
                    if c1 = ch CHR ''/'' then Some (True, None, l1\<lparr>input := i1\<rparr>)
                    else do {
                      i2 \<leftarrow> unreadRune sz i1;
                      skipToEndOfBlockComment rep (l1\<lparr>input := i2\<rparr>)
                    })
             else skipToEndOfBlockComment rep l1)
          })"
  by pat_completeness auto
termination
  by (relation "measure (\<lambda>(rep, l). length (rdata (input l)) - pos (input l))")
     (auto simp: unreadRune_def split: if_split_asm dest!: sym [of _ "readRune _"] maybeNewLine_input readRune_progress)

declare skipToEndOfBlockComment.simps [simp del]

section \<open>Tokens and attribution of comments\<close>

definition newToken :: "'r protoLex \<Rightarrow> (int \<times> 'r protoLex) option" where
  "newToken l = do {
     (tok, f) \<leftarrow> AddToken (int (rmark (input l))) (int (pos (input l)) - int (rmark (input l))) (info l);
     Some (tok, l\<lparr>info := f\<rparr>)
   }"

definition addComment :: "bool \<Rightarrow> int \<Rightarrow> 'r protoLex \<Rightarrow> 'r protoLex option" where
  "addComment block startLine l =
     (let l = (if lcomments l = [] \<and> startLine = prevLine l
               then l\<lparr>maybeDonateComment := maybeDonateComment l + 1\<rparr> else l)
      in do {
        (tok, l) \<leftarrow> newToken l;
        Some (l\<lparr>lcomments := lcomments l @ [\<lparr>ctok = tok, isBlock = block\<rparr>]\<rparr>)
      })"

fun is_eof_node :: "terminal \<Rightarrow> bool" where
  "is_eof_node (RuneNode r _) = (r = 0)"
| "is_eof_node _ = False"

text \<open>How the pending comments are divided: those that trail the previous token, and those that lead the
  next one.\<close>

definition split_comments :: "terminal \<Rightarrow> 'r protoLex \<Rightarrow> lex_comment list \<times> lex_comment list" where
  "split_comments n l =
     (let comments = lcomments l; donate = maybeDonateComment l
      in if prevSym l \<noteq> None \<and> comments \<noteq> [] then
           let cur = (if curLine l = prevLine l \<and> is_eof_node n then curLine l + 1 else curLine l)
           in if prevLine l < cur \<and> 0 < donate \<and>
                 (\<not> isBlock (hd comments) \<or> 1 < length comments \<or> 1 < donate)
              then ([hd comments], tl comments)
              else ([], comments)
         else ([], comments))"

fun add_comments :: "lex_comment list \<Rightarrow> int \<Rightarrow> fileInfo \<Rightarrow> fileInfo option" where
  "add_comments [] tok f = Some f"
| "add_comments (c # cs) tok f = do { (_, f) \<leftarrow> AddComment (ctok c) tok f; add_comments cs tok f }"

definition setPrevAndAddComments :: "terminal \<Rightarrow> 'r protoLex \<Rightarrow> 'r protoLex option" where
  "setPrevAndAddComments n l =
     (let (prevTrailingComments, comments) = split_comments n l
      in do {
        f \<leftarrow> (case prevSym l of
                 None \<Rightarrow> Some (info l)
               | Some p \<Rightarrow> add_comments prevTrailingComments (terminal_Token p) (info l));
        f \<leftarrow> add_comments comments (terminal_Token n) f;
        Some (l\<lparr>info := f, lcomments := [], maybeDonateComment := 0, prevSym := Some n, prevLine := curLine l\<rparr>)
      })"

definition set_node :: "(int \<Rightarrow> terminal) \<Rightarrow> 'r protoLex \<Rightarrow> (sym_val \<times> 'r protoLex) option" where
  "set_node mk l = do {
     (tok, l) \<leftarrow> newToken l;
     l \<leftarrow> setPrevAndAddComments (mk tok) l;
     Some (Sym (mk tok), l)
   }"

definition setString :: "bytes \<Rightarrow> 'r protoLex \<Rightarrow> (sym_val \<times> 'r protoLex) option" where
  "setString val = set_node (StringLiteralNode val)"

definition setIdent :: "bytes \<Rightarrow> 'r protoLex \<Rightarrow> (sym_val \<times> 'r protoLex) option" where
  "setIdent val = set_node (IdentNode val)"

definition setInt :: "int \<Rightarrow> 'r protoLex \<Rightarrow> (sym_val \<times> 'r protoLex) option" where
  "setInt val = set_node (UintLiteralNode val)"

definition setFloat :: "float64 \<Rightarrow> 'r protoLex \<Rightarrow> (sym_val \<times> 'r protoLex) option" where
  "setFloat val = set_node (FloatLiteralNode val)"

definition setRune :: "int \<Rightarrow> 'r protoLex \<Rightarrow> (sym_val \<times> 'r protoLex) option" where
  "setRune val = set_node (RuneNode val)"

lemmas set_defs = setString_def setIdent_def setInt_def setFloat_def setRune_def

section \<open>Lex\<close>

datatype 'r lex_step = Again "'r protoLex" | Ret int sym_val "'r protoLex"

definition lex_return :: "int \<Rightarrow> (sym_val \<times> 'r protoLex) option \<Rightarrow> 'r lex_step option" where
  "lex_return t m = do { (v, l) \<leftarrow> m; Some (Ret t v l) }"

definition lex_fail :: "'r reporter \<Rightarrow> go_error \<Rightarrow> 'r protoLex \<Rightarrow> 'r lex_step option" where
  "lex_fail rep err l = lex_return tok_ERROR (setError rep err l)"

fun val_token :: "sym_val \<Rightarrow> int" where
  "val_token (Sym n) = terminal_Token n"
| "val_token _ = 0"

definition lex_eof :: "'r protoLex \<Rightarrow> 'r lex_step option" where
  "lex_eof l = do { (v, l) \<leftarrow> setRune 0 l; Some (Ret 0 v (l\<lparr>eofTok := val_token v\<rparr>)) }"

definition lex_float :: "float_parser \<Rightarrow> 'r reporter \<Rightarrow> bytes \<Rightarrow> 'r protoLex \<Rightarrow> 'r lex_step option" where
  "lex_float pf rep token l =
     (case parseFloat pf token of
        (f, None) \<Rightarrow> lex_return tok_FLOAT_LIT (setFloat f l)
      | (_, Some err) \<Rightarrow> lex_fail rep (numError err ''float'' token) l)"

definition lex_dot :: "float_parser \<Rightarrow> 'r reporter \<Rightarrow> int \<Rightarrow> 'r protoLex \<Rightarrow> 'r lex_step option" where
  "lex_dot pf rep c l =
     (case readRune (input l) of
        (Inl _, i) \<Rightarrow> lex_return c (setRune c (l\<lparr>input := i\<rparr>))
      | (Inr (cn, szn), i) \<Rightarrow>
          if is_digit cn then do {
            i \<leftarrow> readNumber i;
            lex_float pf rep (getMark i) (l\<lparr>input := i\<rparr>)
          }
          else do {
            i \<leftarrow> unreadRune szn i;
            lex_return c (setRune c (l\<lparr>input := i\<rparr>))
          })"

definition ident_kind :: "bytes \<Rightarrow> int" where
  "ident_kind str = (case map_of keyword_table (text_of str) of Some t \<Rightarrow> t | None \<Rightarrow> tok_NAME)"

definition lex_ident :: "'r protoLex \<Rightarrow> 'r lex_step option" where
  "lex_ident l = do {
     i \<leftarrow> readIdentifier (input l);
     lex_return (ident_kind (getMark i)) (setIdent (getMark i) (l\<lparr>input := i\<rparr>))
   }"

definition lex_number_token :: "float_parser \<Rightarrow> 'r reporter \<Rightarrow> bytes \<Rightarrow> 'r protoLex \<Rightarrow> 'r lex_step option" where
  "lex_number_token pf rep token l =
     (if take 2 token = text_bytes ''0x'' \<or> take 2 token = text_bytes ''0X'' then
        (case ParseUint (drop 2 token) 16 64 of
           Inl err \<Rightarrow> lex_fail rep (numError err ''hexadecimal integer'' (drop 2 token)) l
         | Inr ui \<Rightarrow> lex_return tok_INT_LIT (setInt ui l))
      else if \<exists>b \<in> set (text_bytes ''.eE''). b \<in> set token then lex_float pf rep token l
      else let base = (if hd token = of_char CHR ''0'' then 8 else 10)
           in case ParseUint token base 64 of
                Inr ui \<Rightarrow> lex_return tok_INT_LIT (setInt ui l)
              | Inl err \<Rightarrow>
                  if base = 8 then lex_fail rep (numError err ''octal integer'' token) l
                  else if err = ErrRange then lex_float pf rep token l
                  else lex_fail rep (numError err ''integer'' token) l)"

definition lex_number :: "float_parser \<Rightarrow> 'r reporter \<Rightarrow> 'r protoLex \<Rightarrow> 'r lex_step option" where
  "lex_number pf rep l = do {
     i \<leftarrow> readNumber (input l);
     lex_number_token pf rep (getMark i) (l\<lparr>input := i\<rparr>)
   }"

definition lex_string :: "'r reporter \<Rightarrow> int \<Rightarrow> 'r protoLex \<Rightarrow> 'r lex_step option" where
  "lex_string rep c l = do {
     (x, l) \<leftarrow> readStringLiteral rep c l;
     (case x of
        Inl err \<Rightarrow> lex_fail rep err l
      | Inr str \<Rightarrow> lex_return tok_STRING_LIT (setString str l))
   }"

definition lex_symbol :: "'r reporter \<Rightarrow> int \<Rightarrow> 'r protoLex \<Rightarrow> 'r lex_step option" where
  "lex_symbol rep c l =
     (if c < 32 \<or> c = 127 then lex_fail rep (Msg ''invalid control character'') l
      else if \<not> is_symbol c then lex_fail rep (Msg ''invalid character'') l
      else lex_return c (setRune c l))"

definition lex_line_comment :: "'r reporter \<Rightarrow> 'r protoLex \<Rightarrow> 'r lex_step option" where
  "lex_line_comment rep l = do {
     (hasErr, l1) \<leftarrow> skipToEndOfLineComment rep l;
     (case hasErr of
        Some v \<Rightarrow> Some (Ret tok_ERROR v l1)
      | None \<Rightarrow> do { l2 \<leftarrow> addComment False (curLine l) l1; Some (Again l2) })
   }"

definition lex_block_comment :: "'r reporter \<Rightarrow> 'r protoLex \<Rightarrow> 'r lex_step option" where
  "lex_block_comment rep l = do {
     (ok, hasErr, l1) \<leftarrow> skipToEndOfBlockComment rep l;
     (case hasErr of
        Some v \<Rightarrow> Some (Ret tok_ERROR v l1)
      | None \<Rightarrow>
          if \<not> ok then lex_fail rep (Msg ''block comment never terminates, unexpected EOF'') l1
          else do { l2 \<leftarrow> addComment True (curLine l) l1; Some (Again l2) })
   }"

definition lex_slash :: "'r reporter \<Rightarrow> int \<Rightarrow> 'r protoLex \<Rightarrow> 'r lex_step option" where
  "lex_slash rep c l =
     (case readRune (input l) of
        (Inl _, i) \<Rightarrow> lex_return c (setRune c (l\<lparr>input := i\<rparr>))
      | (Inr (cn, szn), i) \<Rightarrow>
          if cn = ch CHR ''/'' then lex_line_comment rep (l\<lparr>input := i\<rparr>)
          else if cn = ch CHR ''*'' then lex_block_comment rep (l\<lparr>input := i\<rparr>)
          else do {
            i \<leftarrow> unreadRune szn i;
            lex_symbol rep c (l\<lparr>input := i\<rparr>)
          })"

text \<open>One iteration of the loop in \<open>Lex\<close>; \<open>lex_rune\<close> is its body after the first rune was read.\<close>

definition lex_rune :: "float_parser \<Rightarrow> 'r reporter \<Rightarrow> int \<Rightarrow> 'r protoLex \<Rightarrow> 'r lex_step option" where
  "lex_rune pf rep c l =
     (if is_whitespace c then do { l \<leftarrow> maybeNewLine c l; Some (Again l) }
      else if c = ch CHR ''.'' then lex_dot pf rep c l
      else if c = ch CHR ''_'' \<or> is_letter c then lex_ident l
      else if is_digit c then lex_number pf rep l
      else if c = 39 \<or> c = 34 then lex_string rep c l
      else if c = ch CHR ''/'' then lex_slash rep c l
      else lex_symbol rep c l)"

definition lex_iter :: "float_parser \<Rightarrow> 'r reporter \<Rightarrow> 'r protoLex \<Rightarrow> 'r lex_step option" where
  "lex_iter pf rep l =
     (let l = l\<lparr>input := setMark (input l), prevOffset := pos (input l)\<rparr>
      in case readRune (input l) of
           (Inl EOF, i) \<Rightarrow> lex_eof (l\<lparr>input := i\<rparr>)
         | (Inl e, i) \<Rightarrow> lex_fail rep (read_error e) (l\<lparr>input := i\<rparr>)
         | (Inr (c, _), i) \<Rightarrow> lex_rune pf rep c (l\<lparr>input := i\<rparr>))"

subsection \<open>Progress of an iteration\<close>

lemma lex_return_not_Again [simp]: "lex_return t m \<noteq> Some (Again l)"
  by (auto simp: lex_return_def elim!: bind_SomeE)

lemma lex_fail_not_Again [simp]: "lex_fail rep err m \<noteq> Some (Again l)"
  by (simp add: lex_fail_def)

lemma line_comment_loop_advances: "line_comment_loop rr = Some (x, rr1) \<Longrightarrow> advances rr rr1"
proof (induction rr rule: line_comment_loop.induct)
  case (1 rr)
  obtain x1 rr2 where r: "readRune rr = (x1, rr2)" by force
  show ?case
  proof (cases x1)
    case (Inl e)
    then show ?thesis using 1(2) r readRune_advances [OF r] by (simp add: line_comment_loop.simps [of rr])
  next
    case (Inr p)
    obtain c sz where p: "p = (c, sz)" by (cases p)
    note r1 = r [unfolded Inr p]
    note IH = 1(1) [OF r [symmetric] Inr p [symmetric]]
    show ?thesis using 1(2) IH readRune_advances [OF r1] unread_advances [OF r1]
      by (auto simp: line_comment_loop.simps [of rr] r1 elim!: bind_SomeE split: if_split_asm intro: advances_trans)
  qed
qed

lemma skipToEndOfBlockComment_advances:
  "skipToEndOfBlockComment rep l = Some (ok, e, l1) \<Longrightarrow> advances (input l) (input l1)"
proof (induction rep l rule: skipToEndOfBlockComment.induct)
  case (1 rep l)
  obtain x1 i where r: "readRune (input l) = (x1, i)" by force
  show ?case
  proof (cases x1)
    case (Inl e)
    then show ?thesis using 1(3) r readRune_advances [OF r] by (auto simp: skipToEndOfBlockComment.simps [of rep l])
  next
    case (Inr p)
    obtain c sz where p: "p = (c, sz)" by (cases p)
    note r1 = r [unfolded Inr p]
    note adv = readRune_advances [OF r1]
    show ?thesis
    proof (cases "c = 0")
      case True
      then show ?thesis using 1(3) r1 adv
        by (auto simp: skipToEndOfBlockComment.simps [of rep l] elim!: bind_SomeE dest!: setError_frame)
    next
      case False
      then obtain l2 where l2: "maybeNewLine c (l\<lparr>input := i\<rparr>) = Some l2"
        using 1(3) r1 by (auto simp: skipToEndOfBlockComment.simps [of rep l] elim!: bind_SomeE)
      note i2 = maybeNewLine_input [OF l2, simplified]
      note IH = 1(1) [OF r [symmetric] Inr p [symmetric] False l2] 1(2) [OF r [symmetric] Inr p [symmetric] False l2]
      show ?thesis
      proof (cases "c = ch CHR ''*''")
        case star: True
        obtain y i3 where s: "readRune (input l2) = (y, i3)" by force
        show ?thesis
        proof (cases y)
          case (Inl a)
          then show ?thesis using 1(3) r1 False l2 star s i2 adv readRune_advances [OF s]
            by (auto simp: skipToEndOfBlockComment.simps [of rep l] intro: advances_trans)
        next
          case y: (Inr q)
          obtain c1 s1 where q: "q = (c1, s1)" by (cases q)
          note s1 = s [unfolded y q]
          show ?thesis using 1(3) r1 False l2 star s1 i2 adv readRune_advances [OF s] unread_advances [OF s1]
              IH(1) [OF star s [symmetric] y q [symmetric]]
            by (auto simp: skipToEndOfBlockComment.simps [of rep l] elim!: bind_SomeE split: if_split_asm intro: advances_trans [OF _ advances_trans] advances_trans)
        qed
      next
        case star: False
        then show ?thesis using 1(3) r1 False l2 i2 adv IH(2)
          by (auto simp: skipToEndOfBlockComment.simps [of rep l] intro: advances_trans)
      qed
    qed
  qed
qed

lemma addComment_input: "addComment b n l = Some l1 \<Longrightarrow> input l1 = input l"
  by (auto simp: addComment_def newToken_def Let_def elim!: bind_SomeE split: if_split_asm)

lemma comment_Again:
  "lex_line_comment rep l = Some (Again l1) \<Longrightarrow> advances (input l) (input l1)"
  "lex_block_comment rep l = Some (Again l1) \<Longrightarrow> advances (input l) (input l1)"
  by (auto simp: lex_line_comment_def lex_block_comment_def skipToEndOfLineComment_def
      elim!: bind_SomeE split: option.split_asm if_split_asm
      dest!: addComment_input line_comment_loop_advances skipToEndOfBlockComment_advances)

lemma no_Again [simp]:
  "lex_float pf rep t l \<noteq> Some (Again l1)" "lex_dot pf rep c l \<noteq> Some (Again l1)" "lex_ident l \<noteq> Some (Again l1)"
  "lex_number pf rep l \<noteq> Some (Again l1)" "lex_string rep c l \<noteq> Some (Again l1)" "lex_symbol rep c l \<noteq> Some (Again l1)"
proof -
  show f: "lex_float pf rep t l \<noteq> Some (Again l1)" for t l
    by (auto simp: lex_float_def split: prod.split option.split)
  show "lex_dot pf rep c l \<noteq> Some (Again l1)"
    by (auto simp: lex_dot_def f elim!: bind_SomeE split: prod.split_asm sum.split_asm if_split_asm)
  show "lex_ident l \<noteq> Some (Again l1)" by (auto simp: lex_ident_def elim!: bind_SomeE)
  have "lex_number_token pf rep t l \<noteq> Some (Again l1)" for t l
    by (simp add: lex_number_token_def Let_def f split: sum.split)
  then show "lex_number pf rep l \<noteq> Some (Again l1)" by (auto simp: lex_number_def elim!: bind_SomeE)
  show "lex_string rep c l \<noteq> Some (Again l1)" by (auto simp: lex_string_def elim!: bind_SomeE split: sum.split_asm)
  show "lex_symbol rep c l \<noteq> Some (Again l1)" by (simp add: lex_symbol_def)
qed

lemma lex_slash_Again: "lex_slash rep c l = Some (Again l1) \<Longrightarrow> advances (input l) (input l1)"
  by (auto simp: lex_slash_def elim!: bind_SomeE split: prod.split_asm sum.split_asm if_split_asm
      dest!: comment_Again dest: readRune_advances intro: advances_trans)

lemma lex_rune_Again: "lex_rune pf rep c l = Some (Again l1) \<Longrightarrow> advances (input l) (input l1)"
  by (auto simp: lex_rune_def elim!: bind_SomeE split: if_split_asm dest!: maybeNewLine_input lex_slash_Again)

lemma lex_eof_not_Again [simp]: "lex_eof l \<noteq> Some (Again l1)"
  by (auto simp: lex_eof_def elim!: bind_SomeE)

lemma lex_iter_Again:
  assumes "lex_iter pf rep l = Some (Again l1)"
  shows "rdata (input l1) = rdata (input l) \<and> pos (input l) < pos (input l1) \<and> pos (input l) < length (rdata (input l))"
proof -
  obtain c sz i where r: "readRune (setMark (input l)) = (Inr (c, sz), i)"
      and a: "lex_rune pf rep c (l\<lparr>prevOffset := pos (input l), input := i\<rparr>) = Some (Again l1)"
    using assms by (auto simp: lex_iter_def Let_def split: prod.split_asm sum.split_asm read_err.split_asm)
  show ?thesis using lex_rune_Again [OF a] readRune_progress [OF r] by (auto simp: advances_def setMark_def)
qed

subsection \<open>The loop\<close>

function lex_loop :: "float_parser \<Rightarrow> 'r reporter \<Rightarrow> 'r protoLex \<Rightarrow> (int \<times> sym_val \<times> 'r protoLex) option" where
  "lex_loop pf rep l =
     (case lex_iter pf rep l of
        None \<Rightarrow> None
      | Some (Again l1) \<Rightarrow> lex_loop pf rep l1
      | Some (Ret t v l1) \<Rightarrow> Some (t, v, l1))"
  by pat_completeness auto
termination
  by (relation "measure (\<lambda>(pf, rep, l). length (rdata (input l)) - pos (input l))") (auto dest!: lex_iter_Again)

declare lex_loop.simps [simp del]

definition Lex :: "float_parser \<Rightarrow> 'r reporter \<Rightarrow> 'r protoLex \<Rightarrow> (int \<times> sym_val \<times> 'r protoLex) option" where
  "Lex pf rep l =
     (if ReporterError (lhandler l) (lstore l) \<noteq> None then Some (0, NoVal, l)
      else lex_loop pf rep (l\<lparr>lcomments := []\<rparr>))"

end
