(* ===== verification/LexerSafe.thy ===== *)
theory LexerSafe
  imports Lexer
begin

text \<open>
  The lexer does not panic on valid UTF-8 text, and keeps its books: the invariant of \<open>protoLex\<close> and what
  each operation does to it.

  Every operation gets a total-correctness statement: it returns (its result is not \<open>None\<close>) and what it
  returns satisfies the invariant again.
\<close>

section \<open>Reading text\<close>

definition text_ok :: "runeReader \<Rightarrow> bool" where
  "text_ok rr \<longleftrightarrow> reader_ok rr \<and> at_text rr"

text \<open>The bytes between two positions of a reader.\<close>

definition consumed :: "runeReader \<Rightarrow> runeReader \<Rightarrow> bytes" where
  "consumed rr rr1 = take (pos rr1 - pos rr) (drop (pos rr) (rdata rr))"

text \<open>The reader moved forward through text.\<close>

definition reads :: "runeReader \<Rightarrow> runeReader \<Rightarrow> bool" where
  "reads rr rr1 \<longleftrightarrow> text_ok rr1 \<and> rdata rr1 = rdata rr \<and> rmark rr1 = rmark rr \<and> pos rr \<le> pos rr1"

lemma reads_refl: "text_ok rr \<Longrightarrow> reads rr rr"
  by (simp add: reads_def)

lemma reads_trans: "reads a b \<Longrightarrow> reads b c \<Longrightarrow> reads a c"
  by (auto simp: reads_def)

lemma reads_text: "reads rr rr1 \<Longrightarrow> text_ok rr1"
  by (simp add: reads_def)

lemma consumed_refl [simp]: "consumed rr rr = []"
  by (simp add: consumed_def)

lemma consumed_append:
  assumes "reads a b" "reads b c"
  shows "consumed a c = consumed a b @ consumed b c"
proof -
  have "pos c - pos a = (pos b - pos a) + (pos c - pos b)" using assms by (simp add: reads_def)
  then have "take (pos c - pos a) (drop (pos a) (rdata a)) =
      take (pos b - pos a) (drop (pos a) (rdata a)) @ take (pos c - pos b) (drop (pos b - pos a) (drop (pos a) (rdata a)))"
    by (simp only: take_add)
  then show ?thesis using assms by (simp add: consumed_def reads_def)
qed

lemma length_consumed: "reads a b \<Longrightarrow> length (consumed a b) = pos b - pos a"
  by (auto simp: consumed_def reads_def text_ok_def reader_ok_def)

definition no_newline :: "runeReader \<Rightarrow> runeReader \<Rightarrow> bool" where
  "no_newline a b \<longleftrightarrow> 10 \<notin> set (consumed a b)"

lemma no_newline_refl [simp]: "no_newline a a"
  by (simp add: no_newline_def)

lemma no_newline_trans: "reads a b \<Longrightarrow> reads b c \<Longrightarrow> no_newline a b \<Longrightarrow> no_newline b c \<Longrightarrow> no_newline a c"
  by (simp add: no_newline_def consumed_append)

text \<open>The only two outcomes of reading a rune of text, with everything the lexer relies on.\<close>

lemma text_cases:
  assumes "text_ok rr"
  obtains (eof) rr1 where "readRune rr = (Inl EOF, rr1)" "pos rr = length (rdata rr)" "reads rr rr1" "pos rr1 = pos rr"
  | (rune) c sz rr1 where "readRune rr = (Inr (c, sz), rr1)" "reads rr rr1" "consumed rr rr1 = encode_rune c"
      "pos rr1 = pos rr + sz" "length (encode_rune c) = sz" "unreadRune sz rr1 = Some rr"
      "pos rr < length (rdata rr)" "0 \<le> c" "c < 128 \<Longrightarrow> sz = 1 \<and> uint (rdata rr ! pos rr) = c"
      "128 \<le> c \<Longrightarrow> (\<forall>b \<in> set (encode_rune c). 0x80 \<le> b)"
proof -
  have ok: "reader_ok rr" and at: "at_text rr" using assms by (simp_all add: text_ok_def)
  show ?thesis
    using ok
  proof (cases rule: readRune_cases)
    case eof
    have "reads rr (rr\<lparr>rerr := Some EOF\<rparr>)"
      using readRune_fields [OF ok eof(1)] at by (simp add: reads_def text_ok_def at_text_def)
    then show ?thesis using that(1) [OF eof] by simp
  next
    case (rune c sz)
    let ?rr1 = "rr\<lparr>pos := pos rr + sz\<rparr>"
    note t = readRune_text [OF ok at rune(1)]
    have r: "reads rr ?rr1" using readRune_fields [OF ok rune(1)] t by (simp add: reads_def text_ok_def)
    have ne: "drop (pos rr) (rdata rr) \<noteq> []" using rune by auto
    note B = DecodeRune_bytes [OF ne rune(2)]
    have hd: "hd (drop (pos rr) (rdata rr)) = rdata rr ! pos rr" using ne by (simp add: hd_drop_conv_nth)
    have c: "consumed rr ?rr1 = encode_rune c" using t by (simp add: consumed_def)
    have u: "unreadRune sz ?rr1 = Some rr" using ok by (auto simp: unreadRune_def reader_ok_def)
    show ?thesis
    proof (rule that(2) [OF rune(1) r c])
      show "unreadRune sz ?rr1 = Some rr" by (rule u)
      show "c < 128 \<Longrightarrow> sz = 1 \<and> uint (rdata rr ! pos rr) = c" using B hd by simp
      show "128 \<le> c \<Longrightarrow> \<forall>b \<in> set (encode_rune c). 0x80 \<le> b" using B t by simp
      show "length (encode_rune c) = sz" using t by blast
    qed (use B ne in auto)
  qed
qed

lemma encode_ascii: "0 \<le> c \<Longrightarrow> c < 128 \<Longrightarrow> encode_rune c = [word_of_int c]"
  by (simp add: encode_rune_def rune_byte_def)

lemma word_of_int_newline: "0 \<le> c \<Longrightarrow> c < 128 \<Longrightarrow> (word_of_int c :: byte) = 10 \<longleftrightarrow> c = 10"
  using uint_rune_byte [of c] by (auto simp: rune_byte_def)

lemma encode_newline: "0 \<le> c \<Longrightarrow> (128 \<le> c \<Longrightarrow> (\<forall>b \<in> set (encode_rune c). 0x80 \<le> b)) \<Longrightarrow> 10 \<in> set (encode_rune c) \<longleftrightarrow> c = 10"
  using word_of_int_newline [of c] by (cases "c < 128") (auto simp: encode_ascii)

text \<open>A rune other than a newline contains no newline byte.\<close>

lemma rune_no_newline:
  assumes "text_ok rr" "readRune rr = (Inr (c, sz), rr1)" "c \<noteq> 10"
  shows "no_newline rr rr1"
  using assms(1)
proof (cases rule: text_cases)
  case (eof rr2)
  then show ?thesis using assms(2) by simp
next
  case (rune c1 s1 rr2)
  then show ?thesis using assms encode_newline [of c] by (simp add: no_newline_def)
qed

section \<open>Identifiers, numbers and line comments\<close>

definition ident_byte :: "byte \<Rightarrow> bool" where
  "ident_byte b \<longleftrightarrow> (let c = uint b in c = ch CHR ''_'' \<or> is_letter c \<or> is_digit c)"

lemma encode_rune_nonempty: "encode_rune c \<noteq> []"
  by (simp add: encode_rune_def)

lemma ident_rune_ascii: "c = ch CHR ''_'' \<or> is_letter c \<or> is_digit c \<Longrightarrow> c < 128 \<and> c \<noteq> 10"
  by (auto simp: is_letter_def is_digit_def)

lemma high_not_ident: "0x80 \<le> b \<Longrightarrow> \<not> ident_byte b"
  by (auto simp: ident_byte_def Let_def is_letter_def is_digit_def word_less_uint)

text \<open>\<open>readIdentifier\<close> takes the longest run of identifier characters.\<close>

lemma readIdentifier_spec:
  "text_ok rr \<Longrightarrow> succeeds (readIdentifier rr) (\<lambda>rr1. reads rr rr1 \<and> no_newline rr rr1 \<and>
     consumed rr rr1 = takeWhile ident_byte (drop (pos rr) (rdata rr)))"
proof (induction rr rule: readIdentifier.induct)
  case (1 rr)
  show ?case
    using 1(2)
  proof (cases rule: text_cases)
    case (eof rr1)
    then show ?thesis
      by (simp add: readIdentifier.simps [of rr] consumed_def no_newline_def)
  next
    case (rune c sz rr1)
    have d: "drop (pos rr) (rdata rr) = rdata rr ! pos rr # drop (Suc (pos rr)) (rdata rr)"
      using rune(7) by (simp add: Cons_nth_drop_Suc)
    show ?thesis
    proof (cases "c = ch CHR ''_'' \<or> is_letter c \<or> is_digit c")
      case True
      then have a: "c < 128" "c \<noteq> 10" using ident_rune_ascii by auto
      then have sz: "sz = 1" and u: "uint (rdata rr ! pos rr) = c" using rune(9) by auto
      then have ib: "ident_byte (rdata rr ! pos rr)" using True by (simp add: ident_byte_def)
      have nn: "no_newline rr rr1" by (rule rune_no_newline [OF 1(2) rune(1) a(2)])
      have c1: "consumed rr rr1 = [rdata rr ! pos rr]" using sz rune(4) d by (simp add: consumed_def)
      have IH: "succeeds (readIdentifier rr1) (\<lambda>rr2. reads rr1 rr2 \<and> no_newline rr1 rr2 \<and>
          consumed rr1 rr2 = takeWhile ident_byte (drop (pos rr1) (rdata rr1)))"
        by (rule 1(1) [OF rune(1) [symmetric]]) (use True reads_text [OF rune(2)] in auto)
      have eq: "readIdentifier rr = readIdentifier rr1" using True rune(1) by (auto simp: readIdentifier.simps [of rr])
      show ?thesis unfolding eq
      proof (rule succeeds_mono [OF IH])
        fix rr2
        assume h: "reads rr1 rr2 \<and> no_newline rr1 rr2 \<and> consumed rr1 rr2 = takeWhile ident_byte (drop (pos rr1) (rdata rr1))"
        have "consumed rr rr2 = takeWhile ident_byte (drop (pos rr) (rdata rr))"
          using h consumed_append [OF rune(2), of rr2] c1 ib d rune(2,4) sz by (simp add: reads_def)
        then show "reads rr rr2 \<and> no_newline rr rr2 \<and> consumed rr rr2 = takeWhile ident_byte (drop (pos rr) (rdata rr))"
          using h rune(2) nn by (blast intro: reads_trans no_newline_trans)
      qed
    next
      case False
      have "\<not> ident_byte (rdata rr ! pos rr)"
      proof (cases "c < 128")
        case True
        then show ?thesis using False rune(9) by (simp add: ident_byte_def Let_def)
      next
        case c: False
        have "sz \<noteq> 0" using rune(5) encode_rune_nonempty [of c] by auto
        then obtain k where "sz = Suc k" by (cases sz) auto
        then have "consumed rr rr1 = rdata rr ! pos rr # take k (drop (Suc (pos rr)) (rdata rr))"
          using rune(4) by (simp add: consumed_def d)
        then have "rdata rr ! pos rr \<in> set (consumed rr rr1)" by simp
        then show ?thesis using rune(3,10) c high_not_ident by auto
      qed
      moreover have "readIdentifier rr = Some rr" using False rune(1,6) by (simp add: readIdentifier.simps [of rr])
      ultimately show ?thesis using d reads_refl [OF 1(2)] by simp
    qed
  qed
qed

lemma number_loop_spec:
  "text_ok rr \<Longrightarrow> succeeds (number_loop allow rr) (\<lambda>rr1. reads rr rr1 \<and> no_newline rr rr1)"
proof (induction allow rr rule: number_loop.induct)
  case (1 allow rr)
  show ?case
    using 1(2)
  proof (cases rule: text_cases)
    case (eof rr1)
    then show ?thesis by (simp add: number_loop.simps [of allow rr] consumed_def no_newline_def)
  next
    case (rune c sz rr1)
    let ?stop = "(c = ch CHR ''-'' \<or> c = ch CHR ''+'') \<and> \<not> allow \<or> c \<noteq> ch CHR ''.'' \<and> c \<noteq> ch CHR ''_'' \<and>
       \<not> is_digit c \<and> \<not> is_letter c \<and> c \<noteq> ch CHR ''-'' \<and> c \<noteq> ch CHR ''+''"
    show ?thesis
    proof (cases ?stop)
      case True
      then have "number_loop allow rr = Some rr" using rune(1,6) by (auto simp: number_loop.simps [of allow rr])
      then show ?thesis using reads_refl [OF 1(2)] by simp
    next
      case False
      then have "c \<noteq> 10" by (auto simp: is_digit_def is_letter_def)
      note nn = rune_no_newline [OF 1(2) rune(1) this]
      have eq: "number_loop allow rr = number_loop (c = ch CHR ''e'' \<or> c = ch CHR ''E'') rr1"
        using False rune(1) by (subst number_loop.simps) auto
      have "succeeds (number_loop (c = ch CHR ''e'' \<or> c = ch CHR ''E'') rr1) (\<lambda>rr2. reads rr1 rr2 \<and> no_newline rr1 rr2)"
        by (rule 1(1) [OF rune(1) [symmetric]]) (use False reads_text [OF rune(2)] in auto)
      then show ?thesis unfolding eq
        by (rule succeeds_mono) (use rune(2) nn in \<open>blast intro: reads_trans no_newline_trans\<close>)
    qed
  qed
qed

lemma readNumber_spec: "text_ok rr \<Longrightarrow> succeeds (readNumber rr) (\<lambda>rr1. reads rr rr1 \<and> no_newline rr rr1)"
  unfolding readNumber_def by (rule number_loop_spec)

lemma line_comment_loop_spec:
  "text_ok rr \<Longrightarrow> succeeds (line_comment_loop rr) (\<lambda>(nul, rr1). reads rr rr1 \<and> no_newline rr rr1)"
proof (induction rr rule: line_comment_loop.induct)
  case (1 rr)
  show ?case
    using 1(2)
  proof (cases rule: text_cases)
    case (eof rr1)
    then show ?thesis by (simp add: line_comment_loop.simps [of rr] consumed_def no_newline_def)
  next
    case (rune c sz rr1)
    consider (newline) "c = 10" | (nul) "c = 0" | (other) "c \<noteq> 10" "c \<noteq> 0" by blast
    then show ?thesis
    proof cases
      case newline
      then show ?thesis using rune(1,6) reads_refl [OF 1(2)] by (simp add: line_comment_loop.simps [of rr])
    next
      case nul
      then show ?thesis using rune(1,2) rune_no_newline [OF 1(2) rune(1)] by (simp add: line_comment_loop.simps [of rr])
    next
      case other
      note nn = rune_no_newline [OF 1(2) rune(1) other(1)]
      have eq: "line_comment_loop rr = line_comment_loop rr1" using other rune(1) by (simp add: line_comment_loop.simps [of rr])
      have "succeeds (line_comment_loop rr1) (\<lambda>(nul, rr2). reads rr1 rr2 \<and> no_newline rr1 rr2)"
        by (rule 1(1) [OF rune(1) [symmetric]]) (use other reads_text [OF rune(2)] in auto)
      then show ?thesis unfolding eq
        by (rule succeeds_mono) (use rune(2) nn in \<open>auto intro: reads_trans no_newline_trans\<close>)
    qed
  qed
qed

section \<open>Escape sequences\<close>

lemma parse_digits_no_newline: "parse_digits b m n s = Inr k \<Longrightarrow> 10 \<notin> set s"
proof (induction s arbitrary: n)
  case (Cons c s)
  then have "digit_value c \<noteq> None" by (auto split: option.split_asm)
  moreover have "digit_value 10 = None" by (simp add: digit_value_def)
  ultimately have "c \<noteq> 10" by auto
  then show ?case using Cons by (auto split: option.split_asm if_split_asm)
qed simp

lemma ParseUint_no_newline: "ParseUint s b k = Inr i \<Longrightarrow> 10 \<notin> set s"
  by (auto simp: ParseUint_def simp del: parse_digits.simps split: if_split_asm dest!: parse_digits_no_newline)

lemma ParseInt_no_newline: "ParseInt s b k = Inr i \<Longrightarrow> 10 \<notin> set s"
  by (cases s) (auto simp: ParseInt_def Let_def split: if_split_asm sum.split_asm dest!: ParseUint_no_newline)

text \<open>What an escape promises: a bad escape quotes exactly the text read since its backslash, of which
  \<open>start\<close> bytes were read before; a good one contains no newline.\<close>

definition esc_ok :: "nat \<Rightarrow> runeReader \<Rightarrow> esc \<times> runeReader \<Rightarrow> bool" where
  "esc_ok start rr x \<longleftrightarrow> reads rr (snd x) \<and>
     (case fst x of
        EscBad _ bad \<Rightarrow> length bad = start + (pos (snd x) - pos rr)
      | EscOk _ \<Rightarrow> no_newline rr (snd x)
      | EscFail _ \<Rightarrow> True)"

lemma esc_ok_later:
  "reads a b \<Longrightarrow> no_newline a b \<Longrightarrow> esc_ok (start + (pos b - pos a)) b (x, c) \<Longrightarrow> esc_ok start a (x, c)"
  by (auto simp: esc_ok_def reads_def split: esc.splits)
     (metis no_newline_trans reads_def)

lemma read_hex_escape_spec:
  assumes "text_ok rr" "0 \<le> c" "c < 128"
  shows "succeeds (read_hex_escape quote c rr) (esc_ok 2 rr)"
  using assms(1)
proof (cases rule: text_cases)
  case (eof rr1)
  then show ?thesis by (simp add: read_hex_escape_def esc_ok_def)
next
  case (rune c1 s1 rr1)
  have lc: "length (encode_rune c) = 1" using assms by (simp add: encode_ascii)
  show ?thesis
  proof (cases "c1 = quote \<or> c1 = 92")
    case True
    then show ?thesis using rune lc reads_refl [OF assms(1)] by (simp add: read_hex_escape_def esc_ok_def)
  next
    case False
    note t1 = reads_text [OF rune(2)]
    have one: "esc_ok 2 rr (case ParseInt (encode_rune c1) 16 32 of Inl _ \<Rightarrow> EscBad m (92 # encode_rune c @ encode_rune c1) | Inr i \<Rightarrow> EscOk [word_of_int i], rr1)" for m
      using rune lc ParseInt_no_newline [of "encode_rune c1"] by (auto simp: esc_ok_def no_newline_def split: sum.split)
    show ?thesis
      using t1
    proof (cases rule: text_cases)
      case (eof rr2)
      then show ?thesis using False rune reads_trans [OF rune(2)] by (auto simp: read_hex_escape_def esc_ok_def)
    next
      case r2: (rune c2 s2 rr2)
      show ?thesis
      proof (cases "is_hex_digit c2")
        case True
        have "consumed rr rr2 = encode_rune c1 @ encode_rune c2" using consumed_append [OF rune(2) r2(2)] rune(3) r2(3) by simp
        then have "esc_ok 2 rr (case ParseInt (encode_rune c1 @ encode_rune c2) 16 32 of Inl _ \<Rightarrow> EscBad m (92 # encode_rune c @ encode_rune c1 @ encode_rune c2) | Inr i \<Rightarrow> EscOk [word_of_int i], rr2)" for m
          using rune r2 lc reads_trans [OF rune(2) r2(2)] ParseInt_no_newline [of "encode_rune c1 @ encode_rune c2"]
          by (auto simp: esc_ok_def no_newline_def split: sum.split)
        then show ?thesis using False True rune r2 by (simp add: read_hex_escape_def)
      next
        case nh: False
        then show ?thesis using False rune r2 one by (simp add: read_hex_escape_def)
      qed
    qed
  qed
qed

lemma octal_rune: "is_octal_digit c \<Longrightarrow> 0 \<le> c \<and> c < 128 \<and> c \<noteq> 10"
  by (auto simp: is_octal_digit_def)

lemma octal_escape_ok:
  assumes "reads rr rr1" "no_newline rr rr1" "length octal = 1 + (pos rr1 - pos rr)"
  shows "esc_ok 2 rr (octal_escape octal, rr1)"
  using assms by (auto simp: esc_ok_def octal_escape_def split: sum.split)

lemma read_octal_escape_spec:
  assumes "text_ok rr" "is_octal_digit c"
  shows "succeeds (read_octal_escape c rr) (esc_ok 2 rr)"
  using assms(1)
proof (cases rule: text_cases)
  case (eof rr1)
  then show ?thesis by (simp add: read_octal_escape_def esc_ok_def)
next
  case (rune c1 s1 rr1)
  have lc: "length (encode_rune c) = 1" using octal_rune [OF assms(2)] by (simp add: encode_ascii)
  show ?thesis
  proof (cases "is_octal_digit c1")
    case False
    have "esc_ok 2 rr (octal_escape (encode_rune c), rr)"
      by (rule octal_escape_ok) (use lc reads_refl [OF assms(1)] in simp_all)
    then show ?thesis using False rune by (simp add: read_octal_escape_def)
  next
    case True
    note nn = rune_no_newline [OF assms(1) rune(1)] and o1 = octal_rune [OF True]
    note t1 = reads_text [OF rune(2)]
    show ?thesis
      using t1
    proof (cases rule: text_cases)
      case (eof rr2)
      then show ?thesis using True rune reads_trans [OF rune(2)] by (auto simp: read_octal_escape_def esc_ok_def)
    next
      case r2: (rune c2 s2 rr2)
      have two: "esc_ok 2 rr (octal_escape (encode_rune c @ encode_rune c1), rr1)"
        by (rule octal_escape_ok) (use lc rune nn o1 in simp_all)
      show ?thesis
      proof (cases "is_octal_digit c2")
        case o2: True
        have "no_newline rr1 rr2" using rune_no_newline [OF t1 r2(1)] octal_rune [OF o2] by simp
        then have "esc_ok 2 rr (octal_escape (encode_rune c @ encode_rune c1 @ encode_rune c2), rr2)"
          using lc rune r2 nn o1 by (intro octal_escape_ok) (auto intro: reads_trans no_newline_trans)
        then show ?thesis using True o2 rune r2 by (simp add: read_octal_escape_def)
      next
        case False
        then show ?thesis using True rune r2 two by (simp add: read_octal_escape_def)
      qed
    qed
  qed
qed

lemma read_escape_runes_spec:
  "text_ok rr \<Longrightarrow> succeeds (read_escape_runes quote n rr) (\<lambda>(x, rr1). reads rr rr1 \<and>
     (case x of Inl _ \<Rightarrow> True | Inr u \<Rightarrow> consumed rr rr1 = string_of_runes u))"
proof (induction n arbitrary: rr)
  case 0
  then show ?case by (simp add: reads_refl string_of_runes_def)
next
  case (Suc n)
  show ?case
    using Suc.prems
  proof (cases rule: text_cases)
    case (eof rr1)
    then show ?thesis by simp
  next
    case (rune c sz rr1)
    show ?thesis
    proof (cases "c = quote \<or> c = 92")
      case True
      then show ?thesis using rune reads_refl [OF Suc.prems] by (simp add: string_of_runes_def)
    next
      case False
      have "succeeds (read_escape_runes quote n rr1)
          (\<lambda>(x, rr2). reads rr rr2 \<and> (case x of Inl _ \<Rightarrow> True | Inr u \<Rightarrow> consumed rr rr2 = encode_rune c @ string_of_runes u))"
        by (rule succeeds_mono [OF Suc.IH [OF reads_text [OF rune(2)]]])
           (use rune(2,3) in \<open>auto simp: consumed_append split: sum.splits intro: reads_trans\<close>)
      then show ?thesis using False rune(1)
        by (auto simp: succeeds_bind split_def string_of_runes_def elim!: succeeds_mono split: sum.splits)
    qed
  qed
qed

lemma read_unicode_escape_spec:
  assumes "text_ok rr"
    and good: "\<And>u bs. decode u = EscOk bs \<Longrightarrow> 10 \<notin> set (string_of_runes u)"
    and bad: "\<And>u m b. decode u = EscBad m b \<Longrightarrow> length b = 2 + length (string_of_runes u)"
  shows "succeeds (read_unicode_escape quote n decode rr) (esc_ok 2 rr)"
  unfolding read_unicode_escape_def succeeds_bind
proof (rule succeeds_mono [OF read_escape_runes_spec [OF assms(1)]], clarify)
  fix x :: "read_err + int list" and rr1
  assume r: "reads rr rr1" and c: "case x of Inl _ \<Rightarrow> True | Inr u \<Rightarrow> consumed rr rr1 = string_of_runes u"
  show "succeeds (Some (case x of Inl e \<Rightarrow> EscFail e | Inr u \<Rightarrow> decode u, rr1)) (esc_ok 2 rr)"
  proof (cases x)
    case (Inl e)
    then show ?thesis using r by (simp add: esc_ok_def)
  next
    case (Inr u)
    then have "consumed rr rr1 = string_of_runes u" using c by simp
    then show ?thesis using Inr r good [of u] bad [of u] length_consumed [OF r]
      by (auto simp: esc_ok_def no_newline_def split: esc.split)
  qed
qed

lemma unicode_good:
  "short_unicode u = EscOk bs \<Longrightarrow> 10 \<notin> set (string_of_runes u)"
  "long_unicode u = EscOk bs \<Longrightarrow> 10 \<notin> set (string_of_runes u)"
  by (auto simp: short_unicode_def long_unicode_def Let_def split: if_split_asm sum.split_asm dest: ParseInt_no_newline)

lemma unicode_bad:
  "short_unicode u = EscBad m b \<Longrightarrow> length b = 2 + length (string_of_runes u)"
  "long_unicode u = EscBad m b \<Longrightarrow> length b = 2 + length (string_of_runes u)"
  by (auto simp: short_unicode_def long_unicode_def Let_def text_bytes_def split: if_split_asm sum.split_asm)

text \<open>After the backslash, of one byte.\<close>

lemma simple_escape_newline: "simple_escape 10 = None"
  by (simp add: simple_escape_def)

lemma read_escape_spec:
  assumes "text_ok rr"
  shows "succeeds (read_escape quote rr) (esc_ok 1 rr)"
  using assms
proof (cases rule: text_cases)
  case (eof rr1)
  then show ?thesis by (simp add: read_escape_def esc_ok_def)
next
  case (rune c sz rr1)
  note t1 = reads_text [OF rune(2)]
  have lift: "succeeds m (esc_ok 2 rr1) \<Longrightarrow> c < 128 \<Longrightarrow> c \<noteq> 10 \<Longrightarrow> succeeds m (esc_ok 1 rr)" for m
    using esc_ok_later [OF rune(2) rune_no_newline [OF assms rune(1)], of 1] rune(4,9)
    by (auto elim!: succeeds_mono simp: numeral_2_eq_2)
  consider (hex) "c = ch CHR ''x'' \<or> c = ch CHR ''X''" | (octal) "\<not> (c = ch CHR ''x'' \<or> c = ch CHR ''X'')" "is_octal_digit c"
    | (u) "c = ch CHR ''u''" | (U) "c = ch CHR ''U''"
    | (simple) b where "\<not> (c = ch CHR ''x'' \<or> c = ch CHR ''X'' \<or> c = ch CHR ''u'' \<or> c = ch CHR ''U'' \<or> is_octal_digit c)" "simple_escape c = Some b"
    | (bad) "\<not> (c = ch CHR ''x'' \<or> c = ch CHR ''X'' \<or> c = ch CHR ''u'' \<or> c = ch CHR ''U'' \<or> is_octal_digit c)" "simple_escape c = None"
    by (cases "simple_escape c") blast+
  then show ?thesis
  proof cases
    case hex
    then have "succeeds (read_hex_escape quote c rr1) (esc_ok 1 rr)"
      by (intro lift read_hex_escape_spec [OF t1]) auto
    then show ?thesis using hex rune(1) by (simp add: read_escape_def)
  next
    case octal
    then have "succeeds (read_octal_escape c rr1) (esc_ok 1 rr)"
      using octal_rune by (intro lift read_octal_escape_spec [OF t1]) auto
    then show ?thesis using octal rune(1) by (simp add: read_escape_def)
  next
    case u
    then have "succeeds (read_unicode_escape quote 4 short_unicode rr1) (esc_ok 1 rr)"
      by (intro lift read_unicode_escape_spec [OF t1]) (auto dest: unicode_good unicode_bad)
    then show ?thesis using u rune(1) by (simp add: read_escape_def is_octal_digit_def)
  next
    case U
    then have "succeeds (read_unicode_escape quote 8 long_unicode rr1) (esc_ok 1 rr)"
      by (intro lift read_unicode_escape_spec [OF t1]) (auto dest: unicode_good unicode_bad)
    then show ?thesis using U rune(1) by (simp add: read_escape_def is_octal_digit_def)
  next
    case (simple b)
    then have "c \<noteq> 10" using simple_escape_newline by auto
    then show ?thesis using simple rune(1,2) rune_no_newline [OF assms rune(1)] by (simp add: read_escape_def esc_ok_def)
  next
    case bad
    then show ?thesis using rune by (simp add: read_escape_def esc_ok_def)
  qed
qed

section \<open>The invariant of the lexer\<close>

text \<open>Where the recorded items end.\<close>

definition covered :: "fileInfo \<Rightarrow> nat" where
  "covered f = (if fitems f = [] then 0 else nat (item_end (last (fitems f))))"

text \<open>Pending comments are items in order, after every comment already attributed; attributions have not
  passed the previous token.\<close>

definition comments_ok :: "fileInfo \<Rightarrow> lex_comment list \<Rightarrow> terminal option \<Rightarrow> bool" where
  "comments_ok f cs p \<longleftrightarrow>
     (\<forall>c \<in> set cs. ctok c < int (length (fitems f))) \<and> sorted_wrt (\<lambda>a b. ctok a < ctok b) cs \<and>
     (p \<noteq> None \<longrightarrow> terminal_Token (the p) < int (length (fitems f))) \<and>
     (fcomments f \<noteq> [] \<longrightarrow> p \<noteq> None \<and> cindex (last (fcomments f)) < int (length (fitems f)) \<and>
        (\<forall>c \<in> set cs. cindex (last (fcomments f)) < ctok c) \<and>
        attributedToIndex (last (fcomments f)) \<le> terminal_Token (the p))"

definition lex_at :: "nat \<Rightarrow> 'r protoLex \<Rightarrow> bool" where
  "lex_at p l \<longleftrightarrow> text_ok (input l) \<and> built (info l) \<and> fdata (info l) = rdata (input l) \<and>
     last (flines (info l)) \<le> int (pos (input l)) \<and> covered (info l) \<le> p \<and>
     comments_ok (info l) (lcomments l) (prevSym l) \<and> prevOffset l \<le> length (rdata (input l))"

text \<open>Between two iterations, and within one (where the items end before the mark).\<close>

abbreviation lex_inv :: "'r protoLex \<Rightarrow> bool" where
  "lex_inv l \<equiv> lex_at (pos (input l)) l"

abbreviation lex_mid :: "'r protoLex \<Rightarrow> bool" where
  "lex_mid l \<equiv> lex_at (rmark (input l)) l"

lemma mid_inv: "lex_mid l \<Longrightarrow> lex_inv l"
  by (auto simp: lex_at_def text_ok_def reader_ok_def)

lemma lex_at_info: "lex_at p l \<Longrightarrow> info_ok (info l)"
  by (simp add: lex_at_def built_ok)

text \<open>The line table that a prefix of the file should have.\<close>

definition line_starts :: "bytes \<Rightarrow> nat \<Rightarrow> int list" where
  "line_starts d p = 0 # map (\<lambda>i. int i + 1) (filter (\<lambda>i. d ! i = 10) [0..<p])"

definition lines_ok :: "'r protoLex \<Rightarrow> bool" where
  "lines_ok l \<longleftrightarrow> flines (info l) = line_starts (rdata (input l)) (pos (input l))"

lemma upt_split: "a \<le> b \<Longrightarrow> [0..<b] = [0..<a] @ [a..<b]"
  using upt_add_eq_append [of 0 a "b - a"] by simp

lemma line_starts_no_newline:
  assumes "reads a b" "no_newline a b"
  shows "line_starts (rdata a) (pos b) = line_starts (rdata a) (pos a)"
proof -
  have le: "pos a \<le> pos b" "pos b \<le> length (rdata a)" using assms(1) by (auto simp: reads_def text_ok_def reader_ok_def)
  have "rdata a ! i \<noteq> 10" if i: "pos a \<le> i" "i < pos b" for i
  proof -
    have "consumed a b ! (i - pos a) = rdata a ! i" using i le by (simp add: consumed_def)
    moreover have "i - pos a < length (consumed a b)" using i length_consumed [OF assms(1)] by simp
    ultimately show ?thesis using assms(2) nth_mem unfolding no_newline_def by metis
  qed
  then have "filter (\<lambda>i. rdata a ! i = 10) [pos a..<pos b] = []" by (simp add: filter_empty_conv)
  then show ?thesis using upt_split [OF le(1)] by (simp add: line_starts_def)
qed

text \<open>Steps within an iteration: the reader moves, no item is added, and the line table may be kept.\<close>

definition mid_step :: "'r protoLex \<Rightarrow> 'r protoLex \<Rightarrow> bool" where
  "mid_step l l1 \<longleftrightarrow> lex_mid l1 \<and> reads (input l) (input l1) \<and> fitems (info l1) = fitems (info l) \<and>
     fcomments (info l1) = fcomments (info l) \<and> lcomments l1 = lcomments l \<and> prevSym l1 = prevSym l"

definition lines_to :: "'r protoLex \<Rightarrow> 'r protoLex \<Rightarrow> bool" where
  "lines_to l l1 \<longleftrightarrow> (lines_ok l \<longrightarrow> lines_ok l1)"

lemma mid_step_trans: "mid_step a b \<Longrightarrow> mid_step b c \<Longrightarrow> mid_step a c"
  by (auto simp: mid_step_def intro: reads_trans)

lemma lines_to_trans: "lines_to a b \<Longrightarrow> lines_to b c \<Longrightarrow> lines_to a c"
  by (simp add: lines_to_def)

lemma mid_step_refl: "lex_mid l \<Longrightarrow> mid_step l l"
  by (simp add: mid_step_def reads_refl lex_at_def)

lemma lines_to_refl [simp]: "lines_to l l"
  by (simp add: lines_to_def)

lemma mid_step_input:
  assumes "lex_mid l" "reads (input l) i"
  shows "mid_step l (l\<lparr>input := i\<rparr>)"
  using assms by (auto simp: mid_step_def lex_at_def reads_def)

lemma lines_to_input: "reads (input l) i \<Longrightarrow> no_newline (input l) i \<Longrightarrow> lines_to l (l\<lparr>input := i\<rparr>)"
  using line_starts_no_newline [of "input l" i] by (simp add: lines_to_def lines_ok_def reads_def)

lemma mid_step_store: "mid_step l (l\<lparr>lstore := st\<rparr>) = lex_mid l"
  by (auto simp: mid_step_def lex_at_def reads_refl)

lemma lines_to_store [simp]: "lines_to l (l\<lparr>lstore := st\<rparr>)"
  by (simp add: lines_to_def lines_ok_def)

lemma mid_step_mid: "mid_step l l1 \<Longrightarrow> lex_mid l1"
  by (simp add: mid_step_def)

section \<open>Errors and lines\<close>

lemma prev_Some: "lex_at p l \<Longrightarrow> \<exists>x. prev l = Some x"
  using SourcePos_Some [OF lex_at_info, of p l "int (prevOffset l)"] by (auto simp: prev_def lex_at_def)

lemma addSourceError_spec:
  assumes "lex_at p l"
  shows "succeeds (addSourceError rep err l) (\<lambda>(ewp, ok, l1). \<exists>st. l1 = l\<lparr>lstore := st\<rparr>)"
proof -
  obtain x where x: "prev l = Some x" using prev_Some [OF assms] by blast
  have "\<exists>ewp ok l1. addSourceError rep err l = Some (ewp, ok, l1)"
    by (auto simp: addSourceError_def x split: prod.split)
  then show ?thesis using addSourceError_frame by (fastforce simp: succeeds_def)
qed

lemma setError_spec:
  assumes "lex_at p l"
  shows "succeeds (setError rep err l) (\<lambda>(v, l1). \<exists>st. l1 = l\<lparr>lstore := st\<rparr>)"
  unfolding setError_def by (rule succeeds_bindI [OF addSourceError_spec [OF assms]]) auto

lemma maybeNewLine_spec:
  assumes "lex_mid l" "readRune (input l) = (Inr (c, sz), i)"
  shows "succeeds (maybeNewLine c (l\<lparr>input := i\<rparr>)) (\<lambda>l1. mid_step l l1 \<and> lines_to l l1 \<and> input l1 = i)"
proof -
  have t: "text_ok (input l)" using assms(1) by (simp add: lex_at_def)
  then show ?thesis
  proof (cases rule: text_cases)
    case (eof rr)
    then show ?thesis using assms(2) by simp
  next
    case (rune c1 s1 rr1)
    then have e: "c1 = c" "s1 = sz" "rr1 = i" using assms(2) by auto
    note R = rune [unfolded e]
    show ?thesis
    proof (cases "c = 10")
      case False
      then show ?thesis
        using mid_step_input [OF assms(1) R(2)] lines_to_input [OF R(2) rune_no_newline [OF t assms(2) False]]
        by (simp add: maybeNewLine_def)
    next
      case True
      then have sz: "sz = 1" "uint (rdata (input l) ! pos (input l)) = 10" using R(9) by auto
      then have nl: "rdata (input l) ! pos (input l) = 10" by (metis word_of_int_numeral word_of_int_uint)
      have p: "pos i = Suc (pos (input l))" using R(4) sz by simp
      let ?f = "(info l)\<lparr>flines := flines (info l) @ [int (pos i)]\<rparr>"
      have add: "AddLine (int (pos i)) (info l) = Some ?f"
        using assms(1) R(2) p by (auto simp: AddLine_def lex_at_def reads_def text_ok_def reader_ok_def)
      have b: "built ?f" by (rule built.line [OF _ add]) (use assms(1) in \<open>simp add: lex_at_def\<close>)
      let ?l = "l\<lparr>input := i, info := ?f\<rparr>"
      have "line_starts (rdata i) (pos i) = line_starts (rdata i) (pos (input l)) @ [int (pos i)]"
        using nl R(2) p by (simp add: line_starts_def reads_def)
      then have "lines_to l ?l" using R(2) by (simp add: lines_to_def lines_ok_def reads_def)
      moreover have "mid_step l ?l"
        using assms(1) R(2) b by (auto simp: mid_step_def lex_at_def reads_def covered_def comments_ok_def)
      ultimately show ?thesis using True add
        by (simp add: maybeNewLine_def mid_step_def lines_to_def lines_ok_def lex_at_def)
    qed
  qed
qed

section \<open>Comments and strings\<close>

lemma mid_text: "lex_at p l \<Longrightarrow> text_ok (input l)"
  by (simp add: lex_at_def)

lemma skipToEndOfLineComment_spec:
  assumes "lex_mid l"
  shows "succeeds (skipToEndOfLineComment rep l) (\<lambda>(e, l1). mid_step l l1 \<and> lines_to l l1)"
  unfolding skipToEndOfLineComment_def
proof (rule succeeds_bindI [OF line_comment_loop_spec [OF mid_text [OF assms]]], clarify)
  fix nul i
  assume i: "reads (input l) i" "no_newline (input l) i"
  let ?l = "l\<lparr>input := i\<rparr>"
  have m: "mid_step l ?l" "lines_to l ?l" using mid_step_input [OF assms i(1)] lines_to_input [OF i] by simp_all
  have st: "mid_step l (?l\<lparr>lstore := st\<rparr>) \<and> lines_to l (?l\<lparr>lstore := st\<rparr>)" for st
    using m mid_step_store [of ?l st] mid_step_mid [OF m(1)] by (blast intro: mid_step_trans lines_to_trans lines_to_store)
  have "succeeds (setError rep err ?l) (\<lambda>(v, l1). mid_step l l1 \<and> lines_to l l1)" for err
    by (rule succeeds_mono [OF setError_spec [OF mid_step_mid [OF m(1)]]]) (use st in auto)
  then show "succeeds (if nul then do { (v, l) \<leftarrow> setError rep (Msg ''invalid control character'') ?l; Some (Some v, l) }
      else Some (None, ?l)) (\<lambda>(e, l1). mid_step l l1 \<and> lines_to l l1)"
    using m by (auto simp: succeeds_bind split_def elim!: succeeds_mono)
qed

lemma skipToEndOfBlockComment_spec:
  "lex_mid l \<Longrightarrow> succeeds (skipToEndOfBlockComment rep l) (\<lambda>(ok, e, l1). mid_step l l1 \<and> (e = None \<longrightarrow> lines_to l l1))"
proof (induction rep l rule: skipToEndOfBlockComment.induct)
  case (1 rep l)
  let ?P = "\<lambda>(ok, e, l1). mid_step l l1 \<and> (e = None \<longrightarrow> lines_to l l1)"
  show ?case
    using mid_text [OF 1(3)]
  proof (cases rule: text_cases)
    case (eof i)
    have "no_newline (input l) i" using eof by (simp add: no_newline_def consumed_def)
    then show ?thesis using eof mid_step_input [OF 1(3) eof(3)] lines_to_input [OF eof(3)]
      by (simp add: skipToEndOfBlockComment.simps [of rep l])
  next
    case (rune c sz i)
    show ?thesis
    proof (cases "c = 0")
      case True
      note m = mid_step_input [OF 1(3) rune(2)]
      have "succeeds (setError rep err (l\<lparr>input := i\<rparr>)) (\<lambda>(v, l1). mid_step l l1)" for err
        by (rule succeeds_mono [OF setError_spec [OF mid_step_mid [OF m]]])
           (use m mid_step_store mid_step_mid [OF m] in \<open>blast intro: mid_step_trans\<close>)
      then show ?thesis using True rune(1)
        by (auto simp: skipToEndOfBlockComment.simps [of rep l] succeeds_bind split_def elim!: succeeds_mono)
    next
      case nz: False
      have body: "succeeds (if c = ch CHR ''*'' then
               (case readRune (input l1) of
                  (Inl _, i1) \<Rightarrow> Some (False, None, l1\<lparr>input := i1\<rparr>)
                | (Inr (c1, sz), i1) \<Rightarrow>
                    if c1 = ch CHR ''/'' then Some (True, None, l1\<lparr>input := i1\<rparr>)
                    else do { i2 \<leftarrow> unreadRune sz i1; skipToEndOfBlockComment rep (l1\<lparr>input := i2\<rparr>) })
             else skipToEndOfBlockComment rep l1) ?P"
        if l1: "maybeNewLine c (l\<lparr>input := i\<rparr>) = Some l1" and m: "mid_step l l1" "lines_to l l1" for l1
      proof (cases "c = ch CHR ''*''")
        case False
        have "succeeds (skipToEndOfBlockComment rep l1) (\<lambda>(ok, e, l2). mid_step l1 l2 \<and> (e = None \<longrightarrow> lines_to l1 l2))"
          by (rule 1(2) [OF rune(1) [symmetric]]) (use nz l1 False mid_step_mid [OF m(1)] in auto)
        then show ?thesis using False m by (auto elim!: succeeds_mono intro: mid_step_trans lines_to_trans)
      next
        case star: True
        note mid1 = mid_step_mid [OF m(1)]
        show ?thesis
          using mid_text [OF mid1]
        proof (cases rule: text_cases)
          case (eof i1)
          have "no_newline (input l1) i1" using eof by (simp add: no_newline_def consumed_def)
          then show ?thesis using star eof m mid_step_input [OF mid1 eof(3)] lines_to_input [OF eof(3)]
            by (auto intro: mid_step_trans lines_to_trans)
        next
          case r2: (rune c1 s1 i1)
          show ?thesis
          proof (cases "c1 = ch CHR ''/''")
            case True
            then have "no_newline (input l1) i1" using rune_no_newline [OF mid_text [OF mid1] r2(1)] by simp
            then show ?thesis using star True r2 m mid_step_input [OF mid1 r2(2)] lines_to_input [OF r2(2)]
              by (auto intro: mid_step_trans lines_to_trans)
          next
            case False
            have same: "l1\<lparr>input := input l1\<rparr> = l1" by simp
            have "succeeds (skipToEndOfBlockComment rep (l1\<lparr>input := input l1\<rparr>))
                (\<lambda>(ok, e, l2). mid_step (l1\<lparr>input := input l1\<rparr>) l2 \<and> (e = None \<longrightarrow> lines_to (l1\<lparr>input := input l1\<rparr>) l2))"
              by (rule 1(1) [OF rune(1) [symmetric] _ _ nz l1 star r2(1) [symmetric]]) (use False r2(6) mid1 in auto)
            then show ?thesis using star False r2 m
              by (auto elim!: succeeds_mono intro: mid_step_trans lines_to_trans)
          qed
        qed
      qed
      have "succeeds (maybeNewLine c (l\<lparr>input := i\<rparr>)) (\<lambda>l1. mid_step l l1 \<and> lines_to l l1 \<and> input l1 = i)"
        by (rule maybeNewLine_spec [OF 1(3) rune(1)])
      then show ?thesis using nz rune(1) body
        by (auto simp: skipToEndOfBlockComment.simps [of rep l] succeeds_def)
    qed
  qed
qed

text \<open>The variables of \<open>reportErr\<close>: reports are suppressed only after one was kept.\<close>

definition es_ok :: "esc_state \<Rightarrow> bool" where
  "es_ok es \<longleftrightarrow> (snd es \<longrightarrow> fst es \<noteq> None)"

lemma errWithCurrentPos_Some:
  assumes "lex_at p l" "n \<le> pos (input l)"
  shows "\<exists>e. errWithCurrentPos l err (- int n) = Some e"
proof -
  have "0 \<le> int (pos (input l)) + - int n" "int (pos (input l)) + - int n \<le> int (length (fdata (info l)))"
    using assms by (auto simp: lex_at_def text_ok_def reader_ok_def)
  from SourcePos_Some [OF lex_at_info [OF assms(1)] this] show ?thesis by (auto simp: errWithCurrentPos_def)
qed

lemma reportErr_spec:
  assumes "lex_mid l" "es_ok es" "length bad \<le> pos (input l)"
  shows "succeeds (reportErr rep msg bad es l) (\<lambda>(es1, l1). fst es1 \<noteq> None \<and> (\<exists>st. l1 = l\<lparr>lstore := st\<rparr>))"
proof -
  obtain e n where es: "es = (e, n)" by (cases es)
  have same: "\<exists>st. l = l\<lparr>lstore := st\<rparr>" by (rule exI [of _ "lstore l"]) simp
  have at: "lex_mid (l\<lparr>lstore := st\<rparr>)" for st using assms(1) by (simp add: lex_at_def)
  have err: "\<exists>x. errWithCurrentPos (l\<lparr>lstore := st\<rparr>) (Msg (format_msg msg bad)) (- int (length bad)) = Some x" for st
    by (rule errWithCurrentPos_Some [OF at]) (use assms(3) in simp)
  have err0: "\<exists>x. errWithCurrentPos l (Msg (format_msg msg bad)) (- int (length bad)) = Some x"
    by (rule errWithCurrentPos_Some [OF assms(1,3)])
  show ?thesis
  proof (cases n)
    case True
    then show ?thesis using assms(2) es same by (auto simp: reportErr_def es_ok_def)
  next
    case False
    show ?thesis
    proof (cases e)
      case None
      then show ?thesis using False es err0 same by (auto simp: reportErr_def)
    next
      case (Some x)
      obtain ewp ok st where a: "addSourceError rep x l = Some (ewp, ok, l\<lparr>lstore := st\<rparr>)"
        using addSourceError_spec [OF assms(1), of rep x] by (auto simp: succeeds_def)
      then show ?thesis using False Some es err [of st] by (auto simp: reportErr_def)
    qed
  qed
qed

text \<open>The literal is read to its end; a value is returned only if nothing was reported, and then the
  literal has no newline.\<close>

definition string_ok :: "'r protoLex \<Rightarrow> esc_state \<Rightarrow> (go_error + bytes) \<times> 'r protoLex \<Rightarrow> bool" where
  "string_ok l es x \<longleftrightarrow> mid_step l (snd x) \<and>
     (\<forall>buf. fst x = Inr buf \<longrightarrow> fst es = None \<and> no_newline (input l) (input (snd x)) \<and> info (snd x) = info l)"

lemma string_ok_later:
  assumes "mid_step l l1" "no_newline (input l) (input l1) \<and> info l1 = info l \<or> fst es1 \<noteq> None" "fst es \<noteq> None \<Longrightarrow> fst es1 \<noteq> None"
    "string_ok l1 es1 x"
  shows "string_ok l es x"
  using assms
  by (cases x; cases "fst es") (auto simp: string_ok_def mid_step_def intro: reads_trans no_newline_trans)

lemma string_loop_spec:
  "lex_mid l \<Longrightarrow> es_ok es \<Longrightarrow> succeeds (string_loop rep quote buf es l) (string_ok l es)"
proof (induction rep quote buf es l rule: string_loop.induct)
  case (1 rep quote buf es l)
  note mid = 1(5) and eok = 1(6)
  note unf = string_loop.simps [of rep quote buf es l]
  show ?case
    using mid_text [OF mid]
  proof (cases rule: text_cases)
    case (eof i)
    then show ?thesis using mid_step_input [OF mid eof(3)] by (simp add: unf string_ok_def)
  next
    case (rune c sz i)
    let ?l = "l\<lparr>input := i\<rparr>"
    note m = mid_step_input [OF mid rune(2)]
    note mi = mid_step_mid [OF m]
    have report: "succeeds (Option.bind (reportErr rep msg bad es l2) (\<lambda>(es1, l1). string_loop rep quote buf es1 l1)) (string_ok l es)"
      if m2: "mid_step l l2" and len: "length bad \<le> pos (input l2)"
        and IH: "\<And>es1 l1. reportErr rep msg bad es l2 = Some (es1, l1) \<Longrightarrow> lex_mid l1 \<Longrightarrow> es_ok es1 \<Longrightarrow>
          succeeds (string_loop rep quote buf es1 l1) (string_ok l1 es1)" for msg bad l2
    proof -
      obtain es1 st where r: "reportErr rep msg bad es l2 = Some (es1, l2\<lparr>lstore := st\<rparr>)" "fst es1 \<noteq> None"
        using reportErr_spec [OF mid_step_mid [OF m2] eok len, of rep msg] by (auto simp: succeeds_def)
      have m3: "mid_step l (l2\<lparr>lstore := st\<rparr>)"
        using m2 mid_step_store [of l2 st] mid_step_mid [OF m2] by (blast intro: mid_step_trans)
      have "succeeds (string_loop rep quote buf es1 (l2\<lparr>lstore := st\<rparr>)) (string_ok (l2\<lparr>lstore := st\<rparr>) es1)"
        by (rule IH [OF r(1) mid_step_mid [OF m3]]) (use r(2) in \<open>simp add: es_ok_def\<close>)
      then have "succeeds (string_loop rep quote buf es1 (l2\<lparr>lstore := st\<rparr>)) (string_ok l es)"
        by (rule succeeds_mono) (rule string_ok_later [OF m3], use r(2) in auto)
      then show ?thesis using r(1) by simp
    qed
    consider (newline) "c = 10" | (quote) "c \<noteq> 10" "c = quote" | (null) "c \<noteq> 10" "c \<noteq> quote" "c = 0"
      | (esc) "c \<noteq> 10" "c \<noteq> quote" "c = 92" | (plain) "c \<noteq> 10" "c \<noteq> quote" "c \<noteq> 0" "c \<noteq> 92" by blast
    then show ?thesis
    proof cases
      case newline
      then show ?thesis using rune(1) m by (simp add: unf string_ok_def)
    next
      case quote
      then show ?thesis using rune(1) m rune_no_newline [OF mid_text [OF mid] rune(1)]
        by (auto simp: unf string_ok_def split: option.split)
    next
      case null
      have "succeeds (Option.bind (reportErr rep null_msg (encode_rune 0) es ?l) (\<lambda>(es1, l1). string_loop rep quote buf es1 l1)) (string_ok l es)"
      proof (rule report [OF m])
        show "length (encode_rune 0) \<le> pos (input ?l)" using rune null by simp
        show "succeeds (string_loop rep quote buf es1 l1) (string_ok l1 es1)"
          if "reportErr rep null_msg (encode_rune 0) es ?l = Some (es1, l1)" "lex_mid l1" "es_ok es1" for es1 l1
          by (rule 1(1) [OF rune(1) [symmetric] _ _ null that(1)]) (use that in auto)
      qed
      then show ?thesis using rune(1) null by (simp add: unf)
    next
      case esc
      obtain x i1 where e: "read_escape quote i = Some (x, i1)" "esc_ok 1 i (x, i1)"
        using read_escape_spec [OF reads_text [OF rune(2)], of quote] by (auto simp: succeeds_def)
      have r1: "reads i i1" using e(2) by (simp add: esc_ok_def)
      have m1: "mid_step l (l\<lparr>input := i1\<rparr>)" by (rule mid_step_input [OF mid reads_trans [OF rune(2) r1]])
      note IH = 1(2,3) [OF rune(1) [symmetric] _ _ esc(1,2) _ esc(3) e(1), simplified]
      show ?thesis
      proof (cases x)
        case (EscFail err)
        then show ?thesis using rune(1) esc e(1) m1 by (simp add: unf string_ok_def)
      next
        case (EscBad msg bad)
        have "succeeds (Option.bind (reportErr rep msg bad es (l\<lparr>input := i1\<rparr>)) (\<lambda>(es1, l1). string_loop rep quote buf es1 l1)) (string_ok l es)"
        proof (rule report [OF m1])
          show "length bad \<le> pos (input (l\<lparr>input := i1\<rparr>))"
            using e(2) EscBad rune(4,9) esc r1 by (auto simp: esc_ok_def reads_def)
          show "succeeds (string_loop rep quote buf es1 l1) (string_ok l1 es1)"
            if "reportErr rep msg bad es (l\<lparr>input := i1\<rparr>) = Some (es1, l1)" "lex_mid l1" "es_ok es1" for es1 l1
            by (rule 1(2) [OF rune(1) [symmetric] _ _ esc(1,2) _ esc(3) e(1) _ EscBad that(1)]) (use esc that in auto)
        qed
        then show ?thesis using rune(1) esc e(1) EscBad by (simp add: unf)
      next
        case (EscOk bs)
        have nn: "no_newline (input l) i1"
          using e(2) EscOk rune_no_newline [OF mid_text [OF mid] rune(1) esc(1)] rune(2) r1
          by (auto simp: esc_ok_def intro: no_newline_trans)
        have "succeeds (string_loop rep quote (buf @ bs) es (l\<lparr>input := i1\<rparr>)) (string_ok (l\<lparr>input := i1\<rparr>) es)"
          by (rule 1(3) [OF rune(1) [symmetric] _ _ esc(1,2) _ esc(3) e(1) _ EscOk]) (use esc eok mid_step_mid [OF m1] in auto)
        then have "succeeds (string_loop rep quote (buf @ bs) es (l\<lparr>input := i1\<rparr>)) (string_ok l es)"
          by (rule succeeds_mono) (rule string_ok_later [OF m1], use nn in auto)
        then show ?thesis using rune(1) esc e(1) EscOk by (simp add: unf)
      qed
    next
      case plain
      have "succeeds (string_loop rep quote (buf @ encode_rune c) es ?l) (string_ok ?l es)"
        by (rule 1(4) [OF rune(1) [symmetric]]) (use plain eok mi in auto)
      then have "succeeds (string_loop rep quote (buf @ encode_rune c) es ?l) (string_ok l es)"
        by (rule succeeds_mono) (rule string_ok_later [OF m], use rune_no_newline [OF mid_text [OF mid] rune(1) plain(1)] in auto)
      then show ?thesis using rune(1) plain by (simp add: unf)
    qed
  qed
qed

section \<open>Tokens and comments\<close>

definition token_span :: "'r protoLex \<Rightarrow> itemSpan" where
  "token_span l = \<lparr>ioffset = int (rmark (input l)), ilength = int (pos (input l)) - int (rmark (input l))\<rparr>"

lemma newToken_Some:
  assumes "lex_mid l"
  defines "f \<equiv> (info l)\<lparr>fitems := fitems (info l) @ [token_span l]\<rparr>"
  shows "newToken l = Some (int (length (fitems (info l))), l\<lparr>info := f\<rparr>)" "built f" "covered f = pos (input l)"
proof -
  have le: "rmark (input l) \<le> pos (input l)" "pos (input l) \<le> length (fdata (info l))" "covered (info l) \<le> rmark (input l)"
    using assms(1) by (auto simp: lex_at_def text_ok_def reader_ok_def)
  then have add: "AddToken (int (rmark (input l))) (int (pos (input l)) - int (rmark (input l))) (info l) =
      Some (int (length (fitems (info l))), f)"
    by (auto simp: AddToken_def f_def token_span_def covered_def)
  then show "newToken l = Some (int (length (fitems (info l))), l\<lparr>info := f\<rparr>)" by (simp add: newToken_def)
  show "built f" by (rule built.token [OF _ add]) (use assms(1) in \<open>simp add: lex_at_def\<close>)
  show "covered f = pos (input l)" using le by (simp add: covered_def f_def token_span_def item_end_def)
qed

text \<open>\<open>addComment\<close> appends one item and one pending comment.\<close>

lemma addComment_items:
  assumes "lex_mid l"
  shows "succeeds (addComment b n l) (\<lambda>l1. lex_inv l1 \<and> input l1 = input l \<and> flines (info l1) = flines (info l) \<and>
    fitems (info l1) = fitems (info l) @ [token_span l])"
proof -
  define l0 where "l0 = (if lcomments l = [] \<and> n = prevLine l then l\<lparr>maybeDonateComment := maybeDonateComment l + 1\<rparr> else l)"
  let ?f = "(info l)\<lparr>fitems := fitems (info l) @ [token_span l]\<rparr>"
  let ?cs = "lcomments l @ [\<lparr>ctok = int (length (fitems (info l))), isBlock = b\<rparr>]"
  have mid: "lex_mid l0" using assms by (auto simp: lex_at_def l0_def)
  have eq: "info l0 = info l" "token_span l0 = token_span l" "input l0 = input l" "lcomments l0 = lcomments l"
      "prevSym l0 = prevSym l" "prevOffset l0 = prevOffset l"
    by (simp_all add: token_span_def l0_def)
  note T = newToken_Some [OF mid, unfolded eq]
  have add: "addComment b n l = Some (l0\<lparr>info := ?f, lcomments := ?cs\<rparr>)"
    using T(1) eq(4) by (simp add: addComment_def Let_def l0_def [symmetric])
  have "comments_ok ?f ?cs (prevSym l)"
    using assms by (auto simp: lex_at_def comments_ok_def sorted_wrt_append)
  then have "lex_inv (l0\<lparr>info := ?f, lcomments := ?cs\<rparr>)"
    using assms T(2,3) eq by (simp add: lex_at_def)
  then show ?thesis using add T(3) eq by simp
qed

definition attributed :: "int \<Rightarrow> lex_comment \<Rightarrow> commentInfo" where
  "attributed t c = \<lparr>cindex = ctok c, attributedToIndex = t\<rparr>"

lemma add_comments_Some:
  assumes "built f" "sorted_wrt (\<lambda>a b. ctok a < ctok b) cs"
    and "fcomments f \<noteq> [] \<Longrightarrow> (\<forall>c \<in> set cs. cindex (last (fcomments f)) < ctok c) \<and> attributedToIndex (last (fcomments f)) \<le> t"
  shows "add_comments cs t f = Some (f\<lparr>fcomments := fcomments f @ map (attributed t) cs\<rparr>) \<and>
    built (f\<lparr>fcomments := fcomments f @ map (attributed t) cs\<rparr>)"
  using assms
proof (induction cs arbitrary: f)
  case Nil
  then show ?case by simp
next
  case (Cons c cs)
  let ?f = "f\<lparr>fcomments := fcomments f @ [attributed t c]\<rparr>"
  have add: "AddComment (ctok c) t f = Some (int (length (fcomments f)), ?f)"
    using Cons.prems(3) by (auto simp: AddComment_def attributed_def)
  have "built ?f" by (rule built.comment [OF Cons.prems(1) add])
  then have "add_comments cs t ?f = Some (?f\<lparr>fcomments := fcomments ?f @ map (attributed t) cs\<rparr>) \<and>
      built (?f\<lparr>fcomments := fcomments ?f @ map (attributed t) cs\<rparr>)"
    by (rule Cons.IH) (use Cons.prems in \<open>auto simp: attributed_def\<close>)
  then show ?case using add by simp
qed

lemma split_comments_append: "split_comments n l = (a, b) \<Longrightarrow> a @ b = lcomments l \<and> (prevSym l = None \<longrightarrow> a = [])"
  by (auto simp: split_comments_def Let_def split: if_split_asm)

lemma setPrevAndAddComments_Some:
  assumes "built (info l)" "comments_ok (info l) (lcomments l) (prevSym l)"
    "terminal_Token n < int (length (fitems (info l)))"
    "prevSym l \<noteq> None \<Longrightarrow> terminal_Token (the (prevSym l)) \<le> terminal_Token n"
  shows "\<exists>f. setPrevAndAddComments n l = Some (l\<lparr>info := f, lcomments := [], maybeDonateComment := 0, prevSym := Some n, prevLine := curLine l\<rparr>) \<and>
    built f \<and> fitems f = fitems (info l) \<and> flines f = flines (info l) \<and> fdata f = fdata (info l) \<and> comments_ok f [] (Some n)"
proof -
  obtain a b where ab: "split_comments n l = (a, b)" by force
  note cs = split_comments_append [OF ab]
  have so: "sorted_wrt (\<lambda>a b. ctok a < ctok b) (a @ b)" using assms(2) cs by (simp add: comments_ok_def)
  let ?tp = "terminal_Token (the (prevSym l))"
  let ?f1 = "(info l)\<lparr>fcomments := fcomments (info l) @ map (attributed ?tp) a\<rparr>"
  have prev: "fcomments (info l) \<noteq> [] \<Longrightarrow> prevSym l \<noteq> None \<and> (\<forall>c \<in> set (a @ b). cindex (last (fcomments (info l))) < ctok c) \<and>
      attributedToIndex (last (fcomments (info l))) \<le> ?tp" using assms(2) cs by (simp add: comments_ok_def)
  have ct: "\<forall>c \<in> set (a @ b). ctok c < int (length (fitems (info l)))"
    using assms(2) cs by (simp add: comments_ok_def)
  have A: "add_comments a ?tp (info l) = Some ?f1 \<and> built ?f1"
    by (rule add_comments_Some [OF assms(1)]) (use so prev in \<open>auto simp: sorted_wrt_append\<close>)
  have one: "(case prevSym l of None \<Rightarrow> Some (info l) | Some p \<Rightarrow> add_comments a (terminal_Token p) (info l)) = Some ?f1"
    using A cs by (cases "prevSym l") auto
  let ?f2 = "?f1\<lparr>fcomments := fcomments ?f1 @ map (attributed (terminal_Token n)) b\<rparr>"
  have B: "add_comments b (terminal_Token n) ?f1 = Some ?f2 \<and> built ?f2"
  proof (rule add_comments_Some)
    show "(\<forall>c \<in> set b. cindex (last (fcomments ?f1)) < ctok c) \<and> attributedToIndex (last (fcomments ?f1)) \<le> terminal_Token n"
      if "fcomments ?f1 \<noteq> []"
    proof (cases "a = []")
      case True
      then show ?thesis using that prev assms(4) by fastforce
    next
      case False
      then have "prevSym l \<noteq> None" using cs by auto
      then show ?thesis using False so assms(4) by (auto simp: last_map attributed_def sorted_wrt_append)
    qed
  qed (use A so in \<open>auto simp: sorted_wrt_append\<close>)
  have "comments_ok ?f2 [] (Some n)"
  proof -
    have "cindex (last (fcomments ?f2)) < int (length (fitems (info l))) \<and> attributedToIndex (last (fcomments ?f2)) \<le> terminal_Token n"
      if ne: "fcomments ?f2 \<noteq> []"
    proof (cases "b = []")
      case False
      then show ?thesis using ct by (simp add: last_map attributed_def)
    next
      case b: True
      show ?thesis
      proof (cases "a = []")
        case False
        then have "prevSym l \<noteq> None" using cs by auto
        then show ?thesis using False b ct assms(4) by (simp add: last_map attributed_def)
      next
        case True
        then show ?thesis using b ne prev assms(2,4) by (auto simp: comments_ok_def)
      qed
    qed
    then show ?thesis using assms(3) by (simp add: comments_ok_def)
  qed
  moreover have "setPrevAndAddComments n l = Some (l\<lparr>info := ?f2, lcomments := [], maybeDonateComment := 0, prevSym := Some n, prevLine := curLine l\<rparr>)"
    unfolding setPrevAndAddComments_def ab Let_def prod.case one using B by simp
  ultimately show ?thesis using B by (intro exI [of _ ?f2]) simp
qed

section \<open>One iteration\<close>

text \<open>Every byte that was passed is whitespace or belongs to a recorded item.\<close>

definition white_byte :: "byte \<Rightarrow> bool" where
  "white_byte b \<longleftrightarrow> is_whitespace (uint b)"

definition accounted :: "fileInfo \<Rightarrow> nat \<Rightarrow> bool" where
  "accounted f p \<longleftrightarrow> (\<forall>i < p. white_byte (fdata f ! i) \<or> (\<exists>it \<in> set (fitems f). ioffset it \<le> int i \<and> int i < item_end it))"

definition faithful :: "'r protoLex \<Rightarrow> bool" where
  "faithful l \<longleftrightarrow> lines_ok l \<and> accounted (info l) (pos (input l))"

definition step_ok :: "'r protoLex \<Rightarrow> 'r lex_step \<Rightarrow> bool" where
  "step_ok l st \<longleftrightarrow>
     (case st of
        Again l1 \<Rightarrow> lex_inv l1 \<and> rdata (input l1) = rdata (input l) \<and> (faithful l \<longrightarrow> faithful l1)
      | Ret t v l1 \<Rightarrow> lex_inv l1 \<and> rdata (input l1) = rdata (input l) \<and> pos (input l) \<le> pos (input l1) \<and>
          (t \<noteq> 0 \<longrightarrow> pos (input l) < pos (input l1)) \<and>
          (t \<noteq> tok_ERROR \<longrightarrow> (faithful l \<longrightarrow> faithful l1) \<and> covered (info l1) = pos (input l1)) \<and>
          (t = 0 \<longrightarrow> pos (input l1) = length (rdata (input l1))))"

text \<open>The state of an iteration that started in \<open>l\<close>: the mark is where it started, and it has read
  something unless it is at the end of the file.\<close>

definition within :: "'r protoLex \<Rightarrow> 'r protoLex \<Rightarrow> bool" where
  "within l m \<longleftrightarrow> lex_mid m \<and> rmark (input m) = pos (input l) \<and> rdata (input m) = rdata (input l) \<and>
     fdata (info m) = fdata (info l) \<and> fitems (info m) = fitems (info l) \<and> pos (input l) < pos (input m)"

lemma within_step: "within l m \<Longrightarrow> mid_step m m1 \<Longrightarrow> within l m1"
  by (auto simp: within_def mid_step_def reads_def lex_at_def)

lemma within_mid: "within l m \<Longrightarrow> lex_mid m"
  unfolding within_def by blast

lemma set_node_spec:
  assumes "lex_mid m" "\<And>t. terminal_Token (mk t) = t"
  shows "succeeds (set_node mk m) (\<lambda>(v, m1). v = Sym (mk (int (length (fitems (info m))))) \<and> lex_inv m1 \<and> input m1 = input m \<and>
    flines (info m1) = flines (info m) \<and> fitems (info m1) = fitems (info m) @ [token_span m] \<and> covered (info m1) = pos (input m) \<and>
    lstore m1 = lstore m \<and> lhandler m1 = lhandler m)"
proof -
  let ?t = "int (length (fitems (info m)))" and ?f = "(info m)\<lparr>fitems := fitems (info m) @ [token_span m]\<rparr>"
  note T = newToken_Some [OF assms(1)]
  have c: "comments_ok ?f (lcomments m) (prevSym m)" using assms(1) by (auto simp: lex_at_def comments_ok_def)
  have p: "prevSym m \<noteq> None \<Longrightarrow> terminal_Token (the (prevSym m)) \<le> ?t" using assms(1) by (auto simp: lex_at_def comments_ok_def)
  obtain f where S: "setPrevAndAddComments (mk ?t) (m\<lparr>info := ?f\<rparr>) =
      Some (m\<lparr>info := f, lcomments := [], maybeDonateComment := 0, prevSym := Some (mk ?t), prevLine := curLine m\<rparr>)"
      and f: "built f" "fitems f = fitems ?f" "flines f = flines (info m)" "fdata f = fdata (info m)" "comments_ok f [] (Some (mk ?t))"
    using setPrevAndAddComments_Some [of "m\<lparr>info := ?f\<rparr>" "mk ?t"] T(2) c p assms(2) by auto
  have cov: "covered f = pos (input m)" using T(3) f(2) by (simp add: covered_def)
  have "set_node mk m = Some (Sym (mk ?t), m\<lparr>info := f, lcomments := [], maybeDonateComment := 0, prevSym := Some (mk ?t), prevLine := curLine m\<rparr>)"
    using T(1) S by (simp add: set_node_def)
  then show ?thesis using f cov assms(1) by (simp add: lex_at_def)
qed

text \<open>Emitting a token for the text since the mark.\<close>

lemma accounted_token:
  assumes "fitems f1 = fitems f @ [\<lparr>ioffset = int p, ilength = int q - int p\<rparr>]" "fdata f1 = fdata f" "accounted f p"
  shows "accounted f1 q"
  unfolding accounted_def
proof (intro allI impI)
  fix i
  assume i: "i < q"
  show "white_byte (fdata f1 ! i) \<or> (\<exists>it \<in> set (fitems f1). ioffset it \<le> int i \<and> int i < item_end it)"
    using assms i by (cases "i < p") (auto simp: accounted_def item_end_def)
qed

lemma lex_return_spec:
  assumes "within l m" "lines_to l m" "\<And>t. terminal_Token (mk t) = t" "t \<noteq> 0"
  shows "succeeds (lex_return t (set_node mk m)) (step_ok l)"
  unfolding lex_return_def
proof (rule succeeds_bindI [OF set_node_spec [OF within_mid [OF assms(1)] assms(3)]], clarify)
  fix m1 :: "'a protoLex"
  assume h: "lex_inv m1" "input m1 = input m" "flines (info m1) = flines (info m)"
    "fitems (info m1) = fitems (info m) @ [token_span m]" "covered (info m1) = pos (input m)"
  have acc: "accounted (info m1) (pos (input m))" if "accounted (info l) (pos (input l))"
  proof (rule accounted_token)
    show "fitems (info m1) = fitems (info l) @ [\<lparr>ioffset = int (pos (input l)), ilength = int (pos (input m)) - int (pos (input l))\<rparr>]"
      using h(4) assms(1) by (simp add: within_def token_span_def)
  qed (use that h assms(1) in \<open>auto simp: within_def lex_at_def accounted_def\<close>)
  show "succeeds (Some (Ret t (Sym (mk (int (length (fitems (info m)))))) m1)) (step_ok l)"
    using h assms(1,2,4) acc by (auto simp: step_ok_def faithful_def within_def lines_to_def lines_ok_def)
qed

lemma lex_fail_spec:
  assumes "within l m"
  shows "succeeds (lex_fail rep err m) (step_ok l)"
  unfolding lex_fail_def lex_return_def
proof (rule succeeds_bindI [OF setError_spec [OF within_mid [OF assms]]], clarify)
  fix v st
  have "lex_inv (m\<lparr>lstore := st\<rparr>)" using mid_inv [OF within_mid [OF assms]] by (simp add: lex_at_def)
  then show "succeeds (Some (Ret tok_ERROR v (m\<lparr>lstore := st\<rparr>))) (step_ok l)"
    using assms by (simp add: step_ok_def within_def tok_ERROR_def)
qed

lemma within_input:
  assumes "within l m" "lines_to l m" "reads (input m) i" "no_newline (input m) i"
  shows "within l (m\<lparr>input := i\<rparr>)" "lines_to l (m\<lparr>input := i\<rparr>)"
  using within_step [OF assms(1) mid_step_input [OF within_mid [OF assms(1)] assms(3)]]
    lines_to_trans [OF assms(2) lines_to_input [OF assms(3,4)]] by simp_all

lemma within_text: "within l m \<Longrightarrow> text_ok (input m)"
  by (simp add: within_def lex_at_def)

lemmas return_specs = lex_return_spec [where mk = "StringLiteralNode v" for v] lex_return_spec [where mk = "IdentNode v" for v]
  lex_return_spec [where mk = "UintLiteralNode v" for v] lex_return_spec [where mk = "FloatLiteralNode v" for v]
  lex_return_spec [where mk = "RuneNode v" for v]

lemma lex_float_spec:
  assumes "within l m" "lines_to l m"
  shows "succeeds (lex_float pf rep token m) (step_ok l)"
  unfolding lex_float_def setFloat_def
  using return_specs(4) [OF assms] lex_fail_spec [OF assms(1)] by (auto simp: tok_defs split: prod.split option.split)

lemma lex_rune_node_spec:
  assumes "within l m" "lines_to l m" "c \<noteq> 0"
  shows "succeeds (lex_return c (setRune c m)) (step_ok l)"
  unfolding setRune_def by (rule return_specs(5) [OF assms(1,2)]) (simp_all add: assms(3))

lemma lex_dot_spec:
  assumes "within l m" "lines_to l m" "c \<noteq> 0"
  shows "succeeds (lex_dot pf rep c m) (step_ok l)"
  using within_text [OF assms(1)]
proof (cases rule: text_cases)
  case (eof i)
  have "no_newline (input m) i" using eof by (simp add: no_newline_def consumed_def)
  then show ?thesis using eof(1) lex_rune_node_spec [OF within_input [OF assms(1,2) eof(3)] assms(3)]
    by (simp add: lex_dot_def)
next
  case (rune cn szn i)
  show ?thesis
  proof (cases "is_digit cn")
    case True
    then have nn: "no_newline (input m) i" using rune_no_newline [OF within_text [OF assms(1)] rune(1)] by (auto simp: is_digit_def)
    have "succeeds (Option.bind (readNumber i) (\<lambda>i. lex_float pf rep (getMark i) (m\<lparr>input := i\<rparr>))) (step_ok l)"
    proof (rule succeeds_bindI [OF readNumber_spec [OF reads_text [OF rune(2)]]])
      fix j
      assume j: "reads i j \<and> no_newline i j"
      then have j: "reads (input m) j" "no_newline (input m) j"
        using rune(2) nn by (auto intro: reads_trans no_newline_trans)
      show "succeeds (lex_float pf rep (getMark j) (m\<lparr>input := j\<rparr>)) (step_ok l)"
        by (rule lex_float_spec [OF within_input [OF assms(1,2) j]])
    qed
    then show ?thesis using True rune(1) by (simp add: lex_dot_def)
  next
    case False
    then show ?thesis using rune(1,6) lex_rune_node_spec [OF assms] by (simp add: lex_dot_def)
  qed
qed

lemma keyword_values: "map_of keyword_table k = Some t \<Longrightarrow> 57350 \<le> t \<and> t \<le> 57394"
  by (drule map_of_SomeD) (auto simp: keyword_table_def)

lemma ident_kind_range: "57349 \<le> ident_kind str \<and> ident_kind str \<le> 57394"
  using keyword_values [of "text_of str"] by (auto simp: ident_kind_def tok_NAME_def split: option.split)

lemma lex_ident_spec:
  assumes "within l m" "lines_to l m"
  shows "succeeds (lex_ident m) (step_ok l)"
  unfolding lex_ident_def
proof (rule succeeds_bindI [OF readIdentifier_spec [OF within_text [OF assms(1)]]], elim conjE)
  fix i
  assume i: "reads (input m) i" "no_newline (input m) i"
  have "ident_kind (getMark i) \<noteq> 0" using ident_kind_range [of "getMark i"] by auto
  then show "succeeds (lex_return (ident_kind (getMark i)) (setIdent (getMark i) (m\<lparr>input := i\<rparr>))) (step_ok l)"
    unfolding setIdent_def by (intro return_specs(2) [OF within_input [OF assms i]]) simp_all
qed

lemma lex_number_token_spec:
  assumes "within l m" "lines_to l m"
  shows "succeeds (lex_number_token pf rep token m) (step_ok l)"
  unfolding lex_number_token_def setInt_def Let_def
  using return_specs(3) [OF assms, where t = tok_INT_LIT] lex_fail_spec [OF assms(1)] lex_float_spec [OF assms]
  by (simp add: tok_INT_LIT_def split: sum.split)

lemma lex_number_spec:
  assumes "within l m" "lines_to l m"
  shows "succeeds (lex_number pf rep m) (step_ok l)"
  unfolding lex_number_def
  by (rule succeeds_bindI [OF readNumber_spec [OF within_text [OF assms(1)]]])
     (elim conjE, rule lex_number_token_spec [OF within_input [OF assms]])

lemma lex_string_spec:
  assumes "within l m" "lines_to l m"
  shows "succeeds (lex_string rep c m) (step_ok l)"
  unfolding lex_string_def readStringLiteral_def
proof (rule succeeds_bindI [OF string_loop_spec [OF within_mid [OF assms(1)]]])
  show "es_ok (None, False)" by (simp add: es_ok_def)
  fix x :: "(go_error + bytes) \<times> 'a protoLex"
  assume x: "string_ok m (None, False) x"
  obtain y m1 where xy: "x = (y, m1)" by (cases x)
  have m1: "within l m1" using within_step [OF assms(1)] x xy by (simp add: string_ok_def)
  have "succeeds (case y of Inl err \<Rightarrow> lex_fail rep err m1 | Inr str \<Rightarrow> lex_return tok_STRING_LIT (setString str m1)) (step_ok l)"
  proof (cases y)
    case (Inl err)
    then show ?thesis using lex_fail_spec [OF m1] by simp
  next
    case (Inr str)
    then have nn: "no_newline (input m) (input m1)" "info m1 = info m" "reads (input m) (input m1)"
      using x xy by (simp_all add: string_ok_def mid_step_def)
    have "lines_to l m1" using assms(2) nn line_starts_no_newline [OF nn(3,1)]
      by (simp add: lines_to_def lines_ok_def reads_def)
    then show ?thesis using Inr return_specs(1) [OF m1, where t = tok_STRING_LIT] by (simp add: setString_def tok_STRING_LIT_def)
  qed
  then show "succeeds (case x of (y, m1) \<Rightarrow> case y of Inl err \<Rightarrow> lex_fail rep err m1
      | Inr str \<Rightarrow> lex_return tok_STRING_LIT (setString str m1)) (step_ok l)" using xy by simp
qed

lemma lex_symbol_spec:
  assumes "within l m" "lines_to l m"
  shows "succeeds (lex_symbol rep c m) (step_ok l)"
  using lex_fail_spec [OF assms(1)] lex_rune_node_spec [OF assms, of c] by (auto simp: lex_symbol_def)

lemma add_comment_step:
  assumes "within l m" "lines_to l m"
  shows "succeeds (Option.bind (addComment b n m) (\<lambda>l2. Some (Again l2))) (step_ok l)"
proof (rule succeeds_bindI [OF addComment_items [OF within_mid [OF assms(1)]]])
  fix m1 :: "'a protoLex"
  assume h: "lex_inv m1 \<and> input m1 = input m \<and> flines (info m1) = flines (info m) \<and> fitems (info m1) = fitems (info m) @ [token_span m]"
  have acc: "accounted (info m1) (pos (input m))" if "accounted (info l) (pos (input l))"
  proof (rule accounted_token)
    show "fitems (info m1) = fitems (info l) @ [\<lparr>ioffset = int (pos (input l)), ilength = int (pos (input m)) - int (pos (input l))\<rparr>]"
      using h assms(1) by (simp add: within_def token_span_def)
  qed (use that h assms(1) in \<open>auto simp: within_def lex_at_def accounted_def\<close>)
  then show "succeeds (Some (Again m1)) (step_ok l)"
    using h assms by (auto simp: step_ok_def faithful_def within_def lines_to_def lines_ok_def)
qed

lemma error_step: "within l m \<Longrightarrow> succeeds (Some (Ret tok_ERROR v m)) (step_ok l)"
  by (frule within_mid, drule mid_inv) (simp add: step_ok_def within_def tok_ERROR_def)

lemma lex_line_comment_spec:
  assumes "within l m" "lines_to l m"
  shows "succeeds (lex_line_comment rep m) (step_ok l)"
  unfolding lex_line_comment_def
proof (rule succeeds_bindI [OF skipToEndOfLineComment_spec [OF within_mid [OF assms(1)]]], clarify)
  fix e :: "sym_val option" and m1 :: "'a protoLex"
  assume h: "mid_step m m1" "lines_to m m1"
  have w: "within l m1" "lines_to l m1" using within_step [OF assms(1) h(1)] lines_to_trans [OF assms(2) h(2)] by simp_all
  show "succeeds (case e of Some v \<Rightarrow> Some (Ret tok_ERROR v m1)
      | None \<Rightarrow> Option.bind (addComment False (curLine m) m1) (\<lambda>l2. Some (Again l2))) (step_ok l)"
    using error_step [OF w(1)] add_comment_step [OF w] by (cases e) simp_all
qed

lemma lex_block_comment_spec:
  assumes "within l m" "lines_to l m"
  shows "succeeds (lex_block_comment rep m) (step_ok l)"
  unfolding lex_block_comment_def
proof (rule succeeds_bindI [OF skipToEndOfBlockComment_spec [OF within_mid [OF assms(1)]]], clarify)
  fix ok and e :: "sym_val option" and m1 :: "'a protoLex"
  assume h: "mid_step m m1" "e = None \<longrightarrow> lines_to m m1"
  have w: "within l m1" using within_step [OF assms(1) h(1)] .
  show "succeeds (case e of Some v \<Rightarrow> Some (Ret tok_ERROR v m1)
      | None \<Rightarrow> if \<not> ok then lex_fail rep (Msg ''block comment never terminates, unexpected EOF'') m1
          else Option.bind (addComment True (curLine m) m1) (\<lambda>l2. Some (Again l2))) (step_ok l)"
    using error_step [OF w] add_comment_step [OF w lines_to_trans [OF assms(2)]] lex_fail_spec [OF w] h(2)
    by (cases e) simp_all
qed

lemma lex_slash_spec:
  assumes "within l m" "lines_to l m" "c \<noteq> 0"
  shows "succeeds (lex_slash rep c m) (step_ok l)"
  using within_text [OF assms(1)]
proof (cases rule: text_cases)
  case (eof i)
  have "no_newline (input m) i" using eof by (simp add: no_newline_def consumed_def)
  then show ?thesis using eof(1) lex_rune_node_spec [OF within_input [OF assms(1,2) eof(3)] assms(3)]
    by (simp add: lex_slash_def)
next
  case (rune cn szn i)
  show ?thesis
  proof (cases "cn = ch CHR ''/'' \<or> cn = ch CHR ''*''")
    case True
    then have "no_newline (input m) i" using rune_no_newline [OF within_text [OF assms(1)] rune(1)] by auto
    note w = within_input [OF assms(1,2) rune(2) this]
    show ?thesis using True rune(1) lex_line_comment_spec [OF w] lex_block_comment_spec [OF w] by (auto simp: lex_slash_def)
  next
    case False
    then show ?thesis using rune(1,6) lex_symbol_spec [OF assms(1,2)] by (simp add: lex_slash_def)
  qed
qed

lemma accounted_white:
  assumes "accounted f p" "white_byte (fdata f ! p)"
  shows "accounted f (Suc p)"
  using assms by (auto simp: accounted_def less_Suc_eq)

lemma lex_iter_spec:
  assumes "lex_inv l"
  shows "succeeds (lex_iter pf rep l) (step_ok l)"
proof -
  let ?m = "l\<lparr>input := setMark (input l), prevOffset := pos (input l)\<rparr>"
  have t: "text_ok (setMark (input l))"
    using assms setMark_ok by (simp add: lex_at_def text_ok_def at_text_def setMark_def reader_ok_def)
  have mid: "lex_mid ?m" using assms t by (auto simp: lex_at_def setMark_def text_ok_def reader_ok_def)
  have lo: "lines_to l ?m" by (simp add: lines_to_def lines_ok_def setMark_def)
  show ?thesis
    using t
  proof (cases rule: text_cases)
    case (eof i)
    let ?m1 = "?m\<lparr>input := i\<rparr>"
    have mm: "mid_step ?m ?m1" using mid_step_input [OF mid] eof(3) by simp
    have pos: "pos i = pos (input l)" "rdata i = rdata (input l)" "rmark i = pos (input l)"
      using eof(3,4) by (simp_all add: setMark_def reads_def)
    have "succeeds (lex_eof ?m1) (step_ok l)"
      unfolding lex_eof_def setRune_def
    proof (rule succeeds_bindI [OF set_node_spec [OF mid_step_mid [OF mm]]], simp, clarify)
      fix m2 :: "'a protoLex"
      assume h: "lex_inv m2" "input m2 = input ?m1" "flines (info m2) = flines (info ?m1)"
        "fitems (info m2) = fitems (info ?m1) @ [token_span ?m1]" "covered (info m2) = pos (input ?m1)"
      have "accounted (info m2) (pos i)" if "accounted (info l) (pos (input l))"
        using that h(1,2,4) pos assms by (auto simp: accounted_def lex_at_def)
      moreover have "lex_inv (m2\<lparr>eofTok := x\<rparr>)" for x using h(1) by (simp add: lex_at_def)
      ultimately show "succeeds (Some (Ret 0 (Sym (RuneNode 0 (int (length (fitems (info ?m1)))))) 
          (m2\<lparr>eofTok := val_token (Sym (RuneNode 0 (int (length (fitems (info ?m1))))))\<rparr>))) (step_ok l)"
        using h pos eof(2) by (auto simp: step_ok_def faithful_def lines_ok_def setMark_def)
    qed
    then show ?thesis using eof(1) by (simp add: lex_iter_def)
  next
    case (rune c sz i)
    let ?m1 = "?m\<lparr>input := i\<rparr>"
    have r: "reads (input ?m) i" using rune(2) by simp
    have mm: "mid_step ?m ?m1" using mid_step_input [OF mid r] .
    have sz: "0 < sz" using rune(5) encode_rune_nonempty [of c] by auto
    have w: "within l ?m1"
      using mid_step_mid [OF mm] rune(2,4) sz by (auto simp: within_def setMark_def reads_def lex_at_def)
    have run: "lex_iter pf rep l = lex_rune pf rep c ?m1" using rune(1) by (simp add: lex_iter_def)
    show ?thesis
    proof (cases "is_whitespace c")
      case True
      then have a: "c < 128" by (auto simp: is_whitespace_def)
      have "readRune (input ?m) = (Inr (c, sz), i)" using rune(1) by simp
      from maybeNewLine_spec [OF mid this]
      have "succeeds (maybeNewLine c ?m1) (\<lambda>m2. mid_step ?m m2 \<and> lines_to ?m m2 \<and> input m2 = i)" by simp
      then have "succeeds (Option.bind (maybeNewLine c ?m1) (\<lambda>l. Some (Again l))) (step_ok l)"
      proof (rule succeeds_bindI, elim conjE)
        fix m2 :: "'a protoLex"
        assume h: "mid_step ?m m2" "lines_to ?m m2" "input m2 = i"
        have it: "fitems (info m2) = fitems (info l)" "fdata (info m2) = fdata (info l)" "fdata (info l) = rdata (input l)"
          using h(1) assms by (auto simp: mid_step_def lex_at_def reads_def setMark_def)
        have p: "pos i = Suc (pos (input l))" "uint (rdata (input l) ! pos (input l)) = c" "rdata i = rdata (input l)"
          using rune(2,4,9) a by (auto simp: setMark_def reads_def)
        have "accounted (info m2) (Suc (pos (input l)))" if "accounted (info l) (pos (input l))"
          using accounted_white [of "info m2"] that it p True by (simp add: accounted_def white_byte_def)
        then show "succeeds (Some (Again m2)) (step_ok l)"
          using mid_inv [OF mid_step_mid [OF h(1)]] lines_to_trans [OF lo h(2)] h(3) p
          by (simp add: step_ok_def faithful_def lines_to_def)
      qed
      then show ?thesis using True run by (simp add: lex_rune_def)
    next
      case False
      then have nn: "no_newline (input ?m) i" using rune_no_newline [OF t rune(1)] by (auto simp: is_whitespace_def)
      have lines: "lines_to l ?m1" using lines_to_trans [OF lo lines_to_input [OF r nn]] .
      show ?thesis unfolding run lex_rune_def
        using False lex_dot_spec [OF w lines, of c] lex_ident_spec [OF w lines] lex_number_spec [OF w lines]
          lex_string_spec [OF w lines] lex_slash_spec [OF w lines, of c] lex_symbol_spec [OF w lines] by (cases "c = 0") auto
    qed
  qed
qed

section \<open>Lex\<close>

lemma lex_loop_spec: "lex_inv l \<Longrightarrow> succeeds (lex_loop pf rep l) (\<lambda>(t, v, l1). step_ok l (Ret t v l1))"
proof (induction pf rep l rule: lex_loop.induct)
  case (1 pf rep l)
  obtain st where st: "lex_iter pf rep l = Some st" "step_ok l st"
    using lex_iter_spec [OF 1(2), of pf rep] by (auto simp: succeeds_def)
  show ?case
  proof (cases st)
    case (Ret t v l1)
    then show ?thesis using st by (simp add: lex_loop.simps [of pf rep l])
  next
    case (Again l1)
    have p: "rdata (input l1) = rdata (input l)" "pos (input l) < pos (input l1)"
      using lex_iter_Again st(1) Again by blast+
    have "lex_inv l1" "faithful l \<longrightarrow> faithful l1" using st(2) Again by (simp_all add: step_ok_def)
    moreover have eq: "lex_loop pf rep l = lex_loop pf rep l1" using st(1) Again by (simp add: lex_loop.simps [of pf rep l])
    ultimately show ?thesis unfolding eq
      using 1(1) [OF st(1) Again] p by (auto simp: step_ok_def elim!: succeeds_mono)
  qed
qed

lemma Lex_spec:
  assumes "lex_inv l"
  shows "succeeds (Lex pf rep l) (\<lambda>(t, v, l1). lex_inv l1 \<and> rdata (input l1) = rdata (input l) \<and>
    (t \<noteq> 0 \<longrightarrow> pos (input l) < pos (input l1)) \<and>
    (ReporterError (lhandler l) (lstore l) \<noteq> None \<longrightarrow> t = 0 \<and> l1 = l) \<and>
    (ReporterError (lhandler l) (lstore l) = None \<longrightarrow> step_ok l (Ret t v l1)))"
proof (cases "ReporterError (lhandler l) (lstore l) = None")
  case False
  then show ?thesis using assms by (auto simp: Lex_def)
next
  case True
  let ?l = "l\<lparr>lcomments := []\<rparr>"
  have inv: "lex_inv ?l" using assms by (auto simp: lex_at_def comments_ok_def)
  have f: "faithful ?l = faithful l" by (simp add: faithful_def lines_ok_def)
  then have "step_ok ?l x = step_ok l x" for x by (simp add: step_ok_def split: lex_step.split)
  then have "succeeds (lex_loop pf rep ?l) (\<lambda>(t, v, l1). step_ok l (Ret t v l1))"
    using lex_loop_spec [OF inv, of pf rep] by simp
  then show ?thesis using True by (auto simp: Lex_def step_ok_def elim!: succeeds_mono)
qed

text \<open>The parser calls \<open>Lex\<close> repeatedly; a run is the sequence of what it returned.\<close>

inductive lexes :: "float_parser \<Rightarrow> 'r reporter \<Rightarrow> 'r protoLex \<Rightarrow> (int \<times> sym_val) list \<Rightarrow> 'r protoLex \<Rightarrow> bool"
  for pf rep where
  none: "lexes pf rep l [] l"
| call: "Lex pf rep l = Some (t, v, l1) \<Longrightarrow> lexes pf rep l1 ts l2 \<Longrightarrow> lexes pf rep l ((t, v) # ts) l2"

inductive_simps lexes_Nil [simp]: "lexes pf rep l [] l1"
inductive_cases lexes_ConsE: "lexes pf rep l (x # ts) l2"

lemma lexes_append: "lexes pf rep l ts l1 \<Longrightarrow> lexes pf rep l1 us l2 \<Longrightarrow> lexes pf rep l (ts @ us) l2"
  by (induction rule: lexes.induct) (auto intro: lexes.intros)

lemma lexes_inv: "lexes pf rep l ts l1 \<Longrightarrow> lex_inv l \<Longrightarrow> lex_inv l1 \<and> rdata (input l1) = rdata (input l)"
proof (induction rule: lexes.induct)
  case (call l t v l1 ts l2)
  then show ?case using succeedsD [OF Lex_spec [OF call.prems, of pf rep] call.hyps(1)] by simp
qed simp

text \<open>From every state the end of input (or an abort by the reporter) is reached, with at most one call
  per remaining byte before it.\<close>

lemma lexing_reaches_end:
  "lex_inv l \<Longrightarrow> \<exists>ts v l1. lexes pf rep l (ts @ [(0, v)]) l1 \<and> (\<forall>x \<in> set ts. fst x \<noteq> 0) \<and>
     length ts \<le> length (rdata (input l)) - pos (input l)"
proof (induction "length (rdata (input l)) - pos (input l)" arbitrary: l rule: less_induct)
  case less
  obtain t v l1 where L: "Lex pf rep l = Some (t, v, l1)" and inv: "lex_inv l1" and d: "rdata (input l1) = rdata (input l)"
      and p: "t \<noteq> 0 \<Longrightarrow> pos (input l) < pos (input l1)"
    using Lex_spec [OF less.prems, of pf rep] by (auto simp: succeeds_def)
  show ?case
  proof (cases "t = 0")
    case True
    have "lexes pf rep l ([] @ [(0, v)]) l1" using L True by (auto intro: lexes.intros)
    then show ?thesis by (intro exI [of _ "[]"] exI [of _ v] exI [of _ l1]) simp
  next
    case False
    have le: "pos (input l1) \<le> length (rdata (input l))" using inv d by (auto simp: lex_at_def text_ok_def reader_ok_def)
    have "length (rdata (input l1)) - pos (input l1) < length (rdata (input l)) - pos (input l)"
      using p [OF False] d le by simp
    from less.hyps [OF this inv] obtain ts w l2 where r: "lexes pf rep l1 (ts @ [(0, w)]) l2" "\<forall>x \<in> set ts. fst x \<noteq> 0"
        "length ts \<le> length (rdata (input l1)) - pos (input l1)" by blast
    have "lexes pf rep l (((t, v) # ts) @ [(0, w)]) l2" using L r(1) by (auto intro: lexes.intros)
    moreover have "length ((t, v) # ts) \<le> length (rdata (input l)) - pos (input l)" using r(3) d p [OF False] le by simp
    ultimately show ?thesis using r(2) False
      by (intro exI [of _ "(t, v) # ts"] exI [of _ w] exI [of _ l2]) simp
  qed
qed

section \<open>A new lexer\<close>

lemma newLexer_inv:
  assumes "newLexer (Inr contents) name h st = Inr l" "valid_utf8 contents"
  shows "lex_inv l \<and> faithful l \<and> rdata (input l) = (if take 3 contents = utf8Bom then drop 3 contents else contents) \<and>
    pos (input l) = 0 \<and> lhandler l = h \<and> lstore l = st"
proof -
  let ?d = "if take 3 contents = utf8Bom then drop 3 contents else contents"
  have "valid_utf8 (drop 3 contents)" if b: "take 3 contents = utf8Bom"
  proof -
    have "contents = utf8Bom @ drop 3 contents" using b append_take_drop_id [of 3 contents] by simp
    moreover have "DecodeRune (utf8Bom @ xs) = (0xFEFF, 3)" for xs
      by (simp add: DecodeRune_def utf8Bom_def accept2_def cont_byte_def tail6_def)
    ultimately have "DecodeRune contents = (0xFEFF, 3)" by metis
    moreover have "contents \<noteq> []" using b by (auto simp: utf8Bom_def)
    ultimately show ?thesis using valid_utf8_step assms(2) by blast
  qed
  then have v: "valid_utf8 ?d" using assms(2) by simp
  have l: "input l = \<lparr>rdata = ?d, pos = 0, rerr = None, rmark = 0, utf8Strict = False\<rparr>" "info l = NewFileInfo name ?d"
      "lcomments l = []" "prevSym l = None" "prevOffset l = 0" "lhandler l = h" "lstore l = st"
    using assms(1) by (auto simp: newLexer_def Let_def simp del: if_split)
  have "lex_inv l" using v l built.new [of name ?d]
    by (simp add: lex_at_def text_ok_def reader_ok_def at_text_def comments_ok_def covered_def NewFileInfo_def del: if_split)
  moreover have "faithful l" using l by (simp add: faithful_def lines_ok_def line_starts_def accounted_def NewFileInfo_def)
  ultimately show ?thesis using l by simp
qed

section \<open>Lossless lexing\<close>

lemma items_sorted:
  assumes "info_ok f" "i < j" "j < length (fitems f)"
  shows "item_end (fitems f ! i) \<le> ioffset (fitems f ! j)"
  using assms sorted_wrt_nth_less [of "\<lambda>a b. item_end a \<le> ioffset b" "fitems f" i j] by (simp add: info_ok_def)

lemma length_slice: "0 \<le> a \<Longrightarrow> a \<le> b \<Longrightarrow> b \<le> int (length xs) \<Longrightarrow> length (slice xs a b) = nat (b - a)"
  by (auto simp: slice_def)

text \<open>No item reaches into the gap before another.\<close>

lemma gap_free:
  assumes f: "info_ok f" and i: "i < length (fitems f)" and j: "j < length (fitems f)"
    and k: "(if i = 0 then 0 else item_end (fitems f ! (i - 1))) \<le> k" "k < ioffset (fitems f ! i)"
  shows "\<not> (ioffset (fitems f ! j) \<le> k \<and> k < item_end (fitems f ! j))"
proof (cases "j < i")
  case True
  then have "item_end (fitems f ! j) \<le> item_end (fitems f ! (i - 1))"
  proof (cases "j = i - 1")
    case False
    have "item_ok (fdata f) (fitems f ! (i - 1))" using f i by (simp add: info_ok_def)
    moreover have "j < i - 1" "i - 1 < length (fitems f)" using True False i by linarith+
    ultimately show ?thesis using items_sorted [OF f, of j "i - 1"] by (simp add: item_ok_def item_end_def)
  qed simp
  then show ?thesis using k(1) True by auto
next
  case False
  have "ioffset (fitems f ! i) \<le> ioffset (fitems f ! j)"
  proof (cases "i = j")
    case nij: False
    have "item_ok (fdata f) (fitems f ! i)" using f i by (simp add: info_ok_def)
    then show ?thesis using items_sorted [OF f, of i j] False nij j by (simp add: item_ok_def item_end_def)
  qed simp
  then show ?thesis using k(2) by simp
qed

lemma gap_white:
  assumes f: "info_ok f" and acc: "accounted f (length (fdata f))" and i: "i < length (fitems f)"
  shows "\<forall>b \<in> set (item_gap f i). white_byte b"
proof
  fix b
  assume "b \<in> set (item_gap f i)"
  define e where "e = (if i = 0 then 0 else item_end (fitems f ! (i - 1)))"
  let ?o = "ioffset (fitems f ! i)"
  have "item_ok (fdata f) (fitems f ! i)" using f i by (simp add: info_ok_def)
  then have ok: "0 \<le> ?o" "?o \<le> int (length (fdata f))" by (simp_all add: item_ok_def item_end_def)
  have pe: "0 \<le> e" "e \<le> ?o" using previous_end [OF f i] by (simp_all add: e_def)
  have gap: "item_gap f i = slice (fdata f) e ?o" by (simp add: item_gap_def e_def)
  obtain k where k: "k < length (item_gap f i)" "b = item_gap f i ! k"
    using \<open>b \<in> set (item_gap f i)\<close> by (metis in_set_conv_nth)
  define n where "n = nat e + k"
  have "k < nat (?o - e)" using k(1) gap length_slice [OF pe ok(2)] by simp
  then have n: "b = fdata f ! n" "n < length (fdata f)" "e \<le> int n" "int n < ?o"
    using k(2) pe ok gap by (auto simp: n_def slice_def)
  have "\<not> (\<exists>it \<in> set (fitems f). ioffset it \<le> int n \<and> int n < item_end it)"
    using gap_free [OF f i _ n(3) [unfolded e_def] n(4)] by (auto simp: in_set_conv_nth)
  then show "white_byte b" using acc n(1,2) by (auto simp: accounted_def)
qed

lemma lexes_faithful:
  "lexes pf rep l ts l1 \<Longrightarrow> lex_inv l \<Longrightarrow> faithful l \<Longrightarrow> tok_ERROR \<notin> fst ` set ts \<Longrightarrow> faithful l1"
proof (induction rule: lexes.induct)
  case (call l t v l1 ts l2)
  note S = succeedsD [OF Lex_spec [OF call.prems(1), of pf rep] call.hyps(1)]
  have "faithful l1" using S call.prems by (cases "ReporterError (lhandler l) (lstore l)") (auto simp: step_ok_def)
  then show ?case using call.IH S call.prems by simp
qed simp

lemma lexes_snoc: "lexes pf rep l (ts @ [x]) l2 \<Longrightarrow> \<exists>l1. lexes pf rep l ts l1 \<and> Lex pf rep l1 = Some (fst x, snd x, l2)"
proof (induction ts arbitrary: l)
  case Nil
  then show ?case by (auto elim!: lexes_ConsE)
next
  case (Cons y ts)
  then obtain t v l1 where "y = (t, v)" "Lex pf rep l = Some (t, v, l1)" "lexes pf rep l1 (ts @ [x]) l2"
    by (auto elim!: lexes_ConsE)
  then show ?case using Cons.IH by (metis lexes.call)
qed

lemma lexing_end_covers:
  assumes "lexes pf rep l (ts @ [(0, v)]) l2" "lex_inv l" "ReporterError (lhandler l2) (lstore l2) = None"
  shows "covered (info l2) = length (rdata (input l2)) \<and> pos (input l2) = length (rdata (input l2))"
proof -
  obtain l1 where l1: "lexes pf rep l ts l1" "Lex pf rep l1 = Some (0, v, l2)" using lexes_snoc [OF assms(1)] by auto
  have inv: "lex_inv l1" using lexes_inv [OF l1(1) assms(2)] by simp
  note S = succeedsD [OF Lex_spec [OF inv, of pf rep] l1(2)]
  have r: "ReporterError (lhandler l1) (lstore l1) = None" using S assms(3) by auto
  then show ?thesis using S by (auto simp: step_ok_def tok_ERROR_def)
qed

lemma lossless_items:
  assumes "info_ok f" "accounted f (length (fdata f))" "covered f = length (fdata f)"
  shows "\<exists>ws ts. (\<forall>i < length (fitems f). NodeInfo_LeadingWhitespace f (TokenInfo f (int i)) = Some (ws i) \<and>
      NodeInfo_RawText f (TokenInfo f (int i)) = Some (ts i) \<and> (\<forall>b \<in> set (ws i). white_byte b)) \<and>
    concat (map (\<lambda>i. ws i @ ts i) [0..<length (fitems f)]) = fdata f"
proof (rule exI [of _ "item_gap f"], rule exI [of _ "item_text f"], rule conjI)
  show "\<forall>i < length (fitems f). NodeInfo_LeadingWhitespace f (TokenInfo f (int i)) = Some (item_gap f i) \<and>
      NodeInfo_RawText f (TokenInfo f (int i)) = Some (item_text f i) \<and> (\<forall>b \<in> set (item_gap f i). white_byte b)"
    using item_texts [OF assms(1)] gap_white [OF assms(1,2)]
    by (simp add: NodeInfo_LeadingWhitespace_def TokenInfo_def nodeInfo_def)
  show "concat (map (\<lambda>i. item_gap f i @ item_text f i) [0..<length (fitems f)]) = fdata f"
    using items_tile [OF assms(1), of "length (fitems f)"] assms(3)
    by (cases "fitems f = []") (auto simp: covered_def slice_def last_conv_nth)
qed

section \<open>Properties\<close>

text \<open>C5: the lexer never panics on text in valid UTF-8, whatever the reporter does and however often it
  is called, and every call that returns a token consumes input.\<close>

theorem Lex_never_panics:
  assumes "valid_utf8 contents" "newLexer (Inr contents) name h st = Inr l0" "lexes pf rep l0 ts l"
  shows "\<exists>t v l1. Lex pf rep l = Some (t, v, l1) \<and> (t \<noteq> 0 \<longrightarrow> pos (input l) < pos (input l1))"
proof -
  have "lex_inv l0" using newLexer_inv [OF assms(2,1)] by blast
  from lexes_inv [OF assms(3) this] have "lex_inv l" by blast
  from Lex_spec [OF this, of pf rep] show ?thesis by (auto simp: succeeds_def)
qed

text \<open>C22: on a file of valid UTF-8, calling \<open>Lex\<close> until it returns 0 ends: there is at most one call per byte
  of the file before the final call, the one that returns 0. (On invalid UTF-8 the lexer can panic.)\<close>

theorem lexing_ends:
  assumes "valid_utf8 contents" "newLexer (Inr contents) name h st = Inr l0"
  shows "\<exists>ts v l. lexes pf rep l0 (ts @ [(0, v)]) l \<and> (\<forall>x \<in> set ts. fst x \<noteq> 0) \<and> length ts \<le> length contents"
proof -
  have inv: "lex_inv l0" using newLexer_inv [OF assms(2,1)] by blast
  have "length (rdata (input l0)) \<le> length contents" using newLexer_inv [OF assms(2,1)] by simp
  moreover obtain ts v l where "lexes pf rep l0 (ts @ [(0, v)]) l" "\<forall>x \<in> set ts. fst x \<noteq> 0"
      "length ts \<le> length (rdata (input l0)) - pos (input l0)" using lexing_reaches_end [OF inv, of pf rep] by blast
  ultimately show ?thesis by (intro exI [of _ ts] exI [of _ v] exI [of _ l]) simp
qed

text \<open>C6: lexing is lossless. When a file of valid UTF-8 is lexed to its end without an error, the line table
  holds exactly the starts of its lines, and the items and the whitespace between them, in order, are the file
  (less a byte order mark): nothing but whitespace lies outside the tokens and comments.\<close>

theorem lexing_lossless:
  assumes "valid_utf8 contents" "newLexer (Inr contents) name h st = Inr l0" "lexes pf rep l0 (ts @ [(0, v)]) l"
    "tok_ERROR \<notin> fst ` set ts" "ReporterError (lhandler l) (lstore l) = None"
  shows "flines (info l) = line_starts (rdata (input l0)) (length (rdata (input l0))) \<and>
    (\<exists>ws txts. (\<forall>i < length (fitems (info l)). NodeInfo_LeadingWhitespace (info l) (TokenInfo (info l) (int i)) = Some (ws i) \<and>
        NodeInfo_RawText (info l) (TokenInfo (info l) (int i)) = Some (txts i) \<and> (\<forall>b \<in> set (ws i). white_byte b)) \<and>
      concat (map (\<lambda>i. ws i @ txts i) [0..<length (fitems (info l))]) = rdata (input l0))"
proof -
  have inv0: "lex_inv l0" and f0: "faithful l0" using newLexer_inv [OF assms(2,1)] by blast+
  note inv = lexes_inv [OF assms(3) inv0]
  note C = lexing_end_covers [OF assms(3) inv0 assms(5)]
  have "faithful l" by (rule lexes_faithful [OF assms(3) inv0 f0]) (use assms(4) in \<open>auto simp: tok_ERROR_def\<close>)
  moreover have d: "fdata (info l) = rdata (input l0)" using inv by (simp add: lex_at_def)
  moreover have "info_ok (info l)" using inv by (simp add: lex_at_def built_ok)
  ultimately show ?thesis using C inv lossless_items [of "info l"] unfolding d
    by (simp add: faithful_def lines_ok_def)
qed

section \<open>Identifiers\<close>

definition ident_start :: "byte \<Rightarrow> bool" where
  "ident_start b \<longleftrightarrow> uint b = ch CHR ''_'' \<or> is_letter (uint b)"

lemma ident_start_ascii: "ident_start b \<Longrightarrow> b < 0x80 \<and> ident_byte b \<and> \<not> is_whitespace (uint b) \<and> uint b \<noteq> ch CHR ''.''"
  by (auto simp: ident_start_def ident_byte_def is_letter_def is_whitespace_def word_less_uint)

text \<open>Within a state of the lexer, a byte below 128 is read as itself.\<close>

lemma readRune_ascii_byte:
  assumes "text_ok rr" "pos rr < length (rdata rr)" "rdata rr ! pos rr < 0x80"
  shows "readRune rr = (Inr (uint (rdata rr ! pos rr), 1), rr\<lparr>pos := pos rr + 1\<rparr>) \<and> reads rr (rr\<lparr>pos := pos rr + 1\<rparr>)"
proof -
  have "reader_ok rr" using assms(1) by (simp add: text_ok_def)
  then show ?thesis
  proof (cases rule: readRune_cases)
    case eof
    then show ?thesis using assms(2) by simp
  next
    case (rune r sz)
    have "drop (pos rr) (rdata rr) = rdata rr ! pos rr # drop (Suc (pos rr)) (rdata rr)"
      using assms(2) by (simp add: Cons_nth_drop_Suc)
    then have e: "r = uint (rdata rr ! pos rr)" "sz = 1"
      using rune(2) DecodeRune_ascii [OF assms(3), of "drop (Suc (pos rr)) (rdata rr)"] by simp_all
    from assms(1) show ?thesis
    proof (cases rule: text_cases)
      case (eof rr1)
      then show ?thesis using assms(2) by simp
    next
      case r1: (rune c1 s1 rr1)
      have "rr1 = rr\<lparr>pos := pos rr + 1\<rparr>" using r1(1) rune(1) unfolding e by auto
      then show ?thesis using r1(2) rune(1) unfolding e by simp
    qed
  qed
qed

lemma Lex_ident:
  assumes inv: "lex_inv l" and r: "ReporterError (lhandler l) (lstore l) = None"
    and p: "pos (input l) < length (rdata (input l))" "ident_start (rdata (input l) ! pos (input l))"
  defines "w \<equiv> takeWhile ident_byte (drop (pos (input l)) (rdata (input l)))"
  shows "\<exists>l1. Lex pf rep l = Some (ident_kind w, Sym (IdentNode w (int (length (fitems (info l))))), l1) \<and>
    pos (input l1) = pos (input l) + length w"
proof -
  let ?d = "rdata (input l)" and ?p = "pos (input l)"
  let ?l = "l\<lparr>lcomments := []\<rparr>"
  let ?m = "?l\<lparr>input := setMark (input l), prevOffset := ?p\<rparr>"
  let ?i = "(setMark (input l))\<lparr>pos := ?p + 1\<rparr>"
  note A = ident_start_ascii [OF p(2)]
  have inv0: "lex_inv ?l" using inv by (auto simp: lex_at_def comments_ok_def)
  have t: "text_ok (setMark (input l))"
    using inv setMark_ok by (simp add: lex_at_def text_ok_def at_text_def setMark_def reader_ok_def)
  have mid: "lex_mid ?m" using inv0 t by (auto simp: lex_at_def setMark_def text_ok_def reader_ok_def)
  have rd: "readRune (setMark (input l)) = (Inr (uint (?d ! ?p), 1), ?i)" and re: "reads (setMark (input l)) ?i"
    using readRune_ascii_byte [OF t] p A by (simp_all add: setMark_def)
  obtain j where j: "readIdentifier ?i = Some j" "reads ?i j" "consumed ?i j = takeWhile ident_byte (drop (?p + 1) ?d)"
    using readIdentifier_spec [OF reads_text [OF re]] by (auto simp: succeeds_def setMark_def)
  have d: "drop ?p ?d = ?d ! ?p # drop (?p + 1) ?d" using p(1) by (simp add: Cons_nth_drop_Suc)
  have "consumed (setMark (input l)) j = consumed (setMark (input l)) ?i @ consumed ?i j"
    using consumed_append [OF re j(2)] .
  also have "consumed (setMark (input l)) ?i = [?d ! ?p]" using p(1) d by (simp add: consumed_def setMark_def)
  finally have w: "consumed (setMark (input l)) j = w" using A d j(3) by (simp add: w_def)
  have rj: "reads (setMark (input l)) j" by (rule reads_trans [OF re j(2)])
  have g: "getMark j = w" using w rj by (simp add: getMark_def consumed_def reads_def setMark_def)
  have pj: "pos j = ?p + length w" using w length_consumed [OF rj] rj by (auto simp: reads_def setMark_def)
  have mj: "lex_mid (?m\<lparr>input := j\<rparr>)" using mid_step_mid [OF mid_step_input [OF mid]] rj by simp
  obtain l1 where s: "set_node (IdentNode w) (?m\<lparr>input := j\<rparr>) = Some (Sym (IdentNode w (int (length (fitems (info l))))), l1)" "input l1 = j"
    using set_node_spec [OF mj, of "IdentNode w"] by (auto simp: succeeds_def)
  have "lex_iter pf rep ?l = lex_rune pf rep (uint (?d ! ?p)) (?m\<lparr>input := ?i\<rparr>)" using rd by (simp add: lex_iter_def)
  also have "\<dots> = lex_ident (?m\<lparr>input := ?i\<rparr>)" using A p(2) by (simp add: lex_rune_def ident_start_def)
  also have "\<dots> = Some (Ret (ident_kind w) (Sym (IdentNode w (int (length (fitems (info l)))))) l1)"
    using j(1) g s(1) by (simp add: lex_ident_def lex_return_def setIdent_def)
  finally show ?thesis using r pj s(2) by (simp add: Lex_def lex_loop.simps [of pf rep ?l])
qed

text \<open>C23: in a file of valid UTF-8, as long as the handler has no error, at a letter or an underscore
  \<open>Lex\<close> returns the longest identifier there (maximal munch), as the keyword it spells or as a name.\<close>

theorem Lex_identifier:
  assumes "valid_utf8 contents" "newLexer (Inr contents) name h st = Inr l0" "lexes pf rep l0 ts l"
    "ReporterError (lhandler l) (lstore l) = None" "pos (input l) < length (rdata (input l))" "ident_start (rdata (input l) ! pos (input l))"
  shows "\<exists>tok l1. Lex pf rep l =
      Some (let w = takeWhile ident_byte (drop (pos (input l)) (rdata (input l))) in
        (case map_of keyword_table (text_of w) of Some t \<Rightarrow> t | None \<Rightarrow> tok_NAME, Sym (IdentNode w tok), l1)) \<and>
    pos (input l1) = pos (input l) + length (takeWhile ident_byte (drop (pos (input l)) (rdata (input l))))"
proof -
  have "lex_inv l0" using newLexer_inv [OF assms(2,1)] by blast
  from lexes_inv [OF assms(3) this] have "lex_inv l" by blast
  from Lex_ident [OF this assms(4-6), of pf rep] show ?thesis unfolding ident_kind_def Let_def by blast
qed

section \<open>Invalid input\<close>

text \<open>A handler store with one handler, a reporter that always goes on, and a float parser, to run the
  lexer on concrete files.\<close>

definition single_handler :: "unit hstore" where
  "single_handler = \<lparr>handlers = [\<lparr>parent = None, errsReported = False, herr = None\<rparr>], rstate = ()\<rparr>"

definition demo_reporter :: "unit reporter" where
  "demo_reporter e r = (None, r)"

definition demo_floats :: float_parser where
  "demo_floats t = (0, Some ErrSyntax)"

definition lex_first :: "bytes \<Rightarrow> (int \<times> sym_val) option" where
  "lex_first contents =
     (case newLexer (Inr contents) ''x.proto'' 0 single_handler of
        Inl _ \<Rightarrow> None
      | Inr l \<Rightarrow> map_option (\<lambda>(t, v, l1). (t, v)) (Lex demo_floats demo_reporter l))"

text \<open>On invalid UTF-8 the lexer can panic. The three bytes of a quote, a backslash and \<open>0xFF\<close> are
  enough: the bad escape is quoted back with the three-byte replacement character, so the position
  reported for it lies before the start of the file, which \<open>SourcePos\<close> does not accept.\<close>

lemma Lex_panics_on_invalid_utf8: "lex_first [34, 92, 0xFF] = None"
  by code_simp

text \<open>Hexadecimal and unicode escapes accept a sign. The literal with the escapes \<open>x-1\<close> and \<open>u-041\<close>
  is lexed without an error, as the byte \<open>0xFF\<close> and the replacement character.\<close>

theorem signed_escapes_accepted:
  "lex_first ([34, 92] @ text_bytes ''x-1'' @ [92] @ text_bytes ''u-041'' @ [34]) =
     Some (tok_STRING_LIT, Sym (StringLiteralNode [0xFF, 0xEF, 0xBF, 0xBD] 0))"
  by code_simp

section \<open>Witnesses\<close>

definition lex_demo_file :: bytes where
  "lex_demo_file = [97, 59, 47, 47, 10]"

definition demo_lexer :: "unit protoLex" where
  "demo_lexer = (case newLexer (Inr lex_demo_file) ''x.proto'' 0 single_handler of Inr l \<Rightarrow> l | Inl _ \<Rightarrow> undefined)"

lemma lex_demo_new: "newLexer (Inr lex_demo_file) ''x.proto'' 0 single_handler = Inr demo_lexer"
  by (simp add: demo_lexer_def newLexer_def Let_def)

lemma lex_demo_valid: "valid_utf8 lex_demo_file"
  by code_simp

definition lex_demo_run :: "(int \<times> sym_val) list" where
  "lex_demo_run = [(tok_NAME, Sym (IdentNode [97] 0)), (59, Sym (RuneNode 59 1))]"

fun run_lexer :: "nat \<Rightarrow> unit protoLex \<Rightarrow> ((int \<times> sym_val) list \<times> unit protoLex) option" where
  "run_lexer 0 l = Some ([], l)"
| "run_lexer (Suc n) l =
     (case Lex demo_floats demo_reporter l of
        None \<Rightarrow> None
      | Some (t, v, l1) \<Rightarrow> map_option (\<lambda>(ts, l2). ((t, v) # ts, l2)) (run_lexer n l1))"

lemma run_lexer_lexes: "run_lexer n l = Some (ts, l2) \<Longrightarrow> lexes demo_floats demo_reporter l ts l2"
  by (induction n arbitrary: l ts) (auto split: option.split_asm prod.split_asm intro: lexes.intros)

lemma lex_demo_lexes:
  "map_option fst (run_lexer 3 demo_lexer) = Some (lex_demo_run @ [(0, Sym (RuneNode 0 3))])"
  "map_option (\<lambda>(_, l). ReporterError (lhandler l) (lstore l)) (run_lexer 3 demo_lexer) = Some None"
  "map_option (\<lambda>(_, l). length (fitems (info l))) (run_lexer 3 demo_lexer) = Some 4"
  by code_simp+

lemma lex_demo_end:
  obtains l where "lexes demo_floats demo_reporter demo_lexer (lex_demo_run @ [(0, Sym (RuneNode 0 3))]) l"
    "ReporterError (lhandler l) (lstore l) = None" "length (fitems (info l)) = 4"
proof -
  obtain ts l where r: "run_lexer 3 demo_lexer = Some (ts, l)" using lex_demo_lexes(1) by auto
  then show ?thesis using that [of l] run_lexer_lexes [OF r] lex_demo_lexes by simp
qed

theorem Lex_never_panics_witness:
  "\<exists>t v l1. Lex demo_floats demo_reporter demo_lexer = Some (t, v, l1) \<and> (t \<noteq> 0 \<longrightarrow> pos (input demo_lexer) < pos (input l1))"
  by (rule Lex_never_panics [OF lex_demo_valid lex_demo_new]) (rule lexes.none)

theorem lexing_ends_witness:
  "\<exists>ts v l. lexes demo_floats demo_reporter demo_lexer (ts @ [(0, v)]) l \<and> (\<forall>x \<in> set ts. fst x \<noteq> 0) \<and> length ts \<le> 5"
proof -
  have len: "length lex_demo_file = 5" by (simp add: lex_demo_file_def)
  show ?thesis using lexing_ends [OF lex_demo_valid lex_demo_new, of demo_floats demo_reporter] unfolding len .
qed

theorem lexing_lossless_witness:
  "\<exists>(l :: unit protoLex) ws txts. flines (info l) = [0, 5] \<and> NodeInfo_RawText (info l) (TokenInfo (info l) 2) = Some (txts 2) \<and>
     concat (map (\<lambda>i. ws i @ txts i) [0..<4]) = lex_demo_file"
proof -
  obtain l where l: "lexes demo_floats demo_reporter demo_lexer (lex_demo_run @ [(0, Sym (RuneNode 0 3))]) l"
    "ReporterError (lhandler l) (lstore l) = None" "length (fitems (info l)) = 4" by (rule lex_demo_end)
  have d: "rdata (input demo_lexer) = lex_demo_file" by (simp add: demo_lexer_def newLexer_def lex_demo_file_def utf8Bom_def Let_def)
  have ls: "line_starts lex_demo_file (length lex_demo_file) = [0, 5]" by code_simp
  have ne: "tok_ERROR \<notin> fst ` set lex_demo_run" by (simp add: lex_demo_run_def tok_defs)
  from lexing_lossless [OF lex_demo_valid lex_demo_new l(1) ne l(2)] obtain ws txts where
    w: "flines (info l) = [0, 5]" "\<forall>i < 4. NodeInfo_LeadingWhitespace (info l) (TokenInfo (info l) (int i)) = Some (ws i) \<and>
        NodeInfo_RawText (info l) (TokenInfo (info l) (int i)) = Some (txts i) \<and> (\<forall>b \<in> set (ws i). white_byte b)"
      "concat (map (\<lambda>i. ws i @ txts i) [0..<4]) = lex_demo_file" unfolding d ls l(3) by blast
  show ?thesis using w(1,3) w(2) [rule_format, of 2]
    by (intro exI [of _ l] exI [of _ ws] exI [of _ txts]) simp
qed

theorem Lex_identifier_witness:
  "\<exists>tok l1. Lex demo_floats demo_reporter demo_lexer = Some (tok_NAME, Sym (IdentNode [97] tok), l1)"
proof -
  have d: "pos (input demo_lexer) = 0" "rdata (input demo_lexer) = lex_demo_file" "lhandler demo_lexer = 0" "lstore demo_lexer = single_handler"
    by (simp_all add: demo_lexer_def newLexer_def lex_demo_file_def utf8Bom_def Let_def)
  have h: "ReporterError (lhandler demo_lexer) (lstore demo_lexer) = None" by (simp add: d ReporterError_def single_handler_def)
  have p: "pos (input demo_lexer) < length (rdata (input demo_lexer))" "ident_start (rdata (input demo_lexer) ! pos (input demo_lexer))"
    by (simp_all add: d lex_demo_file_def ident_start_def is_letter_def)
  have w: "takeWhile ident_byte (drop 0 lex_demo_file) = [97]" "map_of keyword_table (text_of [97]) = None" by code_simp+
  from Lex_identifier [OF lex_demo_valid lex_demo_new lexes.none h p, of demo_floats demo_reporter]
  show ?thesis unfolding d w Let_def by (auto simp: w)
qed

end
