(* ===== verification/Util.thy ===== *)
theory Util
  imports Walk
begin

text \<open>
  Helpers of \<open>internal/util.go\<close>: \<open>ComputePath\<close>, \<open>CreatePrefixList\<close>, \<open>EscapeBytes\<close> and \<open>CanPack\<close>. (The
  name conversions of that file are in \<open>Cases\<close>, \<open>IsZeroLocation\<close> is in \<open>Symbols\<close>.)

  \<open>ComputePath\<close> climbs from a descriptor to its file through \<open>Parent()\<close>; a descriptor is modelled by
  that chain, each link with its kind and its index among its siblings.
\<close>

section \<open>Source paths\<close>

datatype desc = DFile | DMessage nat desc | DField nat bool desc | DOneof nat desc | DEnum nat desc
  | DEnumValue nat desc | DService nat desc | DMethod nat desc

text \<open>The flag of a field says whether it is an extension. The loop appends index and tag at each
  level and reverses the path at the file.\<close>

fun path_loop :: "source_path \<Rightarrow> desc \<Rightarrow> source_path option" where
  "path_loop path DFile = Some (rev path)"
| "path_loop path (DMessage i p) =
     (case p of
        DFile \<Rightarrow> path_loop (path @ [int i, File_MessageType]) p
      | DMessage _ _ \<Rightarrow> path_loop (path @ [int i, Message_NestedType]) p
      | _ \<Rightarrow> None)"
| "path_loop path (DField i ext p) =
     (case p of
        DFile \<Rightarrow> if ext then path_loop (path @ [int i, File_Extension]) p else None
      | DMessage _ _ \<Rightarrow> path_loop (path @ [int i, if ext then Message_Extension else Message_Field]) p
      | _ \<Rightarrow> None)"
| "path_loop path (DOneof i p) =
     (case p of DMessage _ _ \<Rightarrow> path_loop (path @ [int i, Message_OneofDecl]) p | _ \<Rightarrow> None)"
| "path_loop path (DEnum i p) =
     (case p of
        DFile \<Rightarrow> path_loop (path @ [int i, File_EnumType]) p
      | DMessage _ _ \<Rightarrow> path_loop (path @ [int i, Message_EnumType]) p
      | _ \<Rightarrow> None)"
| "path_loop path (DEnumValue i p) =
     (case p of DEnum _ _ \<Rightarrow> path_loop (path @ [int i, Enum_Value]) p | _ \<Rightarrow> None)"
| "path_loop path (DService i p) =
     (case p of DFile \<Rightarrow> path_loop (path @ [int i, File_Service]) p | _ \<Rightarrow> None)"
| "path_loop path (DMethod i p) =
     (case p of DService _ _ \<Rightarrow> path_loop (path @ [int i, Service_Method]) p | _ \<Rightarrow> None)"

definition ComputePath :: "desc \<Rightarrow> source_path option" where
  "ComputePath d = (case d of DFile \<Rightarrow> Some [] | _ \<Rightarrow> path_loop [] d)"

section \<open>Prefix lists\<close>

definition numDots :: "string \<Rightarrow> nat" where
  "numDots pkg = length (filter (\<lambda>c. c = CHR ''.'') pkg)"

text \<open>The second pass: \<open>i\<close> runs over the positions of \<open>pkg\<close>, \<open>n\<close> is the next slot to fill.\<close>

fun fill_prefixes :: "string \<Rightarrow> nat list \<Rightarrow> nat \<Rightarrow> string list \<Rightarrow> string list" where
  "fill_prefixes pkg [] n prefixes = prefixes"
| "fill_prefixes pkg (i # is) n prefixes =
     (if pkg ! i = CHR ''.'' then fill_prefixes pkg is (n - 1) (prefixes[n := take i pkg])
      else fill_prefixes pkg is n prefixes)"

definition CreatePrefixList :: "string \<Rightarrow> string list" where
  "CreatePrefixList pkg =
     (if pkg = [] then [[]]
      else let n = numDots pkg
           in if n = 0 then [pkg, []]
              else (fill_prefixes pkg [0..<length pkg] n (replicate (n + 2) []))[0 := pkg])"

section \<open>Escaping\<close>

definition octal_digit :: "byte \<Rightarrow> byte" where
  "octal_digit c = 48 + (c AND 7)"

definition escape_byte :: "byte \<Rightarrow> bytes" where
  "escape_byte c =
     (if c = 10 then [92, 110]
      else if c = 13 then [92, 114]
      else if c = 9 then [92, 116]
      else if c = 34 then [92, 34]
      else if c = 39 then [92, 39]
      else if c = 92 then [92, 92]
      else if 32 \<le> c \<and> c < 127 then [c]
      else [92, octal_digit (drop_bit 6 c), octal_digit (drop_bit 3 c), octal_digit c])"

definition EscapeBytes :: "bytes \<Rightarrow> bytes" where
  "EscapeBytes data = concat (map escape_byte data)"

section \<open>Packing\<close>

datatype kind = BoolKind | EnumKind | Int32Kind | Sint32Kind | Uint32Kind | Int64Kind | Sint64Kind
  | Uint64Kind | Sfixed32Kind | Fixed32Kind | FloatKind | Sfixed64Kind | Fixed64Kind | DoubleKind
  | StringKind | BytesKind | MessageKind | GroupKind

definition CanPack :: "kind \<Rightarrow> bool" where
  "CanPack k =
     (case k of MessageKind \<Rightarrow> False | GroupKind \<Rightarrow> False | StringKind \<Rightarrow> False | BytesKind \<Rightarrow> False | _ \<Rightarrow> True)"

section \<open>Paths lead to their descriptors\<close>

lemma messages_at_nth:
  "messages_at ms i rest = (if 0 \<le> i \<and> i < int (length ms) then message_at (ms ! nat i) rest else None)"
proof (induction ms arbitrary: i)
  case (Cons m ms)
  show ?case
  proof (cases "i = 0")
    case False
    then show ?thesis using Cons [of "i - 1"] messages_at_neg [of "i - 1" ms rest]
      by (cases "0 < i") (auto simp: nth_Cons' nat_diff_distrib)
  qed simp
qed auto

text \<open>What a path leads to below an element.\<close>

definition elem_at :: "'a elem \<Rightarrow> source_path \<Rightarrow> 'a elem option" where
  "elem_at e rest =
     (case e of
        EMessage m \<Rightarrow> message_at m rest
      | EEnum en \<Rightarrow> enum_at en rest
      | EService svc \<Rightarrow> service_at svc rest
      | _ \<Rightarrow> if rest = [] then Some e else None)"

lemma leaf_at_append:
  assumes "leaf_at con ls i p = Some e" "\<And>l. elem_at (con l) rest = (if rest = [] then Some (con l) else None)"
  shows "leaf_at con ls i (p @ rest) = elem_at e rest"
  using assms by (auto simp: leaf_at_def split: if_splits)

lemma enum_at_append: "enum_at en p = Some e \<Longrightarrow> enum_at en (p @ rest) = elem_at e rest"
  by (auto simp: enum_at_def split: list.splits if_splits intro!: leaf_at_append)
     (auto simp: elem_at_def enum_at_def)

lemma service_at_append: "service_at svc p = Some e \<Longrightarrow> service_at svc (p @ rest) = elem_at e rest"
  by (auto simp: service_at_def split: list.splits if_splits intro!: leaf_at_append)
     (auto simp: elem_at_def service_at_def)

lemma message_at_append:
  fixes m :: "'a msgp" and ms :: "'a msgp list"
  shows "message_at m p = Some e \<Longrightarrow> message_at m (p @ rest) = elem_at e rest"
    and "messages_at ms i p = Some e \<Longrightarrow> messages_at ms i (p @ rest) = elem_at e rest"
proof (induction m p and ms i p rule: message_at_messages_at.induct)
  case (1 n d flds oneofs nested enums exts path)
  consider "path = []" | t i r where "path = t # i # r" using 1(2)
    by (cases path; cases "tl path") auto
  then show ?case
  proof cases
    case 1
    then show ?thesis using \<open>message_at _ path = Some e\<close> by (auto simp: elem_at_def)
  next
    case (2 t i r)
    have nest: "messages_at nested i (r @ rest) = elem_at e rest"
      if "t = Message_NestedType" "messages_at nested i r = Some e"
      using that 1(1) [of t "i # r" i r] 2 by (simp add: tag_defs)
    show ?thesis
      using \<open>message_at _ path = Some e\<close> 2 nest
      by (auto simp: enums_at_def enum_at_append split: if_splits intro!: leaf_at_append)
         (auto simp: elem_at_def)
  qed
qed (auto split: if_splits)

lemma file_at_append: "file_at f p = Some e \<Longrightarrow> file_at f (p @ rest) = elem_at e rest"
  by (auto simp: file_at_def enums_at_def enum_at_append service_at_append message_at_append
      split: list.splits if_splits intro!: leaf_at_append) (auto simp: elem_at_def)

text \<open>The element a descriptor stands for in its file.\<close>

definition nth_of :: "'b list \<Rightarrow> nat \<Rightarrow> ('b \<Rightarrow> 'c) \<Rightarrow> 'c option" where
  "nth_of xs i con = (if i < length xs then Some (con (xs ! i)) else None)"

fun desc_elem :: "'a filep \<Rightarrow> desc \<Rightarrow> 'a elem option" where
  "desc_elem f DFile = None"
| "desc_elem f (DMessage i DFile) = nth_of (fmessages f) i EMessage"
| "desc_elem f (DMessage i p) =
     (case desc_elem f p of Some (EMessage m) \<Rightarrow> nth_of (msg_nested m) i EMessage | _ \<Rightarrow> None)"
| "desc_elem f (DField i ext DFile) = (if ext then nth_of (fexts f) i EExtension else None)"
| "desc_elem f (DField i ext p) =
     (case desc_elem f p of
        Some (EMessage m) \<Rightarrow> if ext then nth_of (msg_exts m) i EExtension else nth_of (msg_fields m) i EField
      | _ \<Rightarrow> None)"
| "desc_elem f (DOneof i p) =
     (case desc_elem f p of Some (EMessage m) \<Rightarrow> nth_of (msg_oneofs m) i EOneof | _ \<Rightarrow> None)"
| "desc_elem f (DEnum i DFile) = nth_of (fenums f) i EEnum"
| "desc_elem f (DEnum i p) =
     (case desc_elem f p of Some (EMessage m) \<Rightarrow> nth_of (msg_enums m) i EEnum | _ \<Rightarrow> None)"
| "desc_elem f (DEnumValue i p) =
     (case desc_elem f p of Some (EEnum en) \<Rightarrow> nth_of (en_values en) i EValue | _ \<Rightarrow> None)"
| "desc_elem f (DService i DFile) = nth_of (fservices f) i EService"
| "desc_elem f (DService i _) = None"
| "desc_elem f (DMethod i p) =
     (case desc_elem f p of Some (EService svc) \<Rightarrow> nth_of (svc_methods svc) i EMethod | _ \<Rightarrow> None)"

text \<open>The path from the file down, without the accumulator.\<close>

definition down_tag :: "desc \<Rightarrow> (int \<times> nat \<times> desc) option" where
  "down_tag d =
     (case d of
        DFile \<Rightarrow> None
      | DMessage i p \<Rightarrow> (case p of DFile \<Rightarrow> Some (File_MessageType, i, p) | DMessage _ _ \<Rightarrow> Some (Message_NestedType, i, p) | _ \<Rightarrow> None)
      | DField i ext p \<Rightarrow>
          (case p of DFile \<Rightarrow> if ext then Some (File_Extension, i, p) else None
           | DMessage _ _ \<Rightarrow> Some (if ext then Message_Extension else Message_Field, i, p) | _ \<Rightarrow> None)
      | DOneof i p \<Rightarrow> (case p of DMessage _ _ \<Rightarrow> Some (Message_OneofDecl, i, p) | _ \<Rightarrow> None)
      | DEnum i p \<Rightarrow> (case p of DFile \<Rightarrow> Some (File_EnumType, i, p) | DMessage _ _ \<Rightarrow> Some (Message_EnumType, i, p) | _ \<Rightarrow> None)
      | DEnumValue i p \<Rightarrow> (case p of DEnum _ _ \<Rightarrow> Some (Enum_Value, i, p) | _ \<Rightarrow> None)
      | DService i p \<Rightarrow> (case p of DFile \<Rightarrow> Some (File_Service, i, p) | _ \<Rightarrow> None)
      | DMethod i p \<Rightarrow> (case p of DService _ _ \<Rightarrow> Some (Service_Method, i, p) | _ \<Rightarrow> None))"

lemma down_tag_parent: "down_tag d = Some (t, i, p) \<Longrightarrow> size p < size d"
  by (cases d) (auto simp: down_tag_def split: desc.splits if_splits)

lemma path_loop_step:
  "d \<noteq> DFile \<Longrightarrow> path_loop path d =
     (case down_tag d of None \<Rightarrow> None | Some (t, i, p) \<Rightarrow> path_loop (path @ [int i, t]) p)"
  by (cases d) (auto simp: down_tag_def split: desc.splits)

lemma path_loop_acc: "path_loop path d = map_option (\<lambda>q. q @ rev path) (path_loop [] d)"
proof (induction "size d" arbitrary: path d rule: less_induct)
  case less
  show ?case
  proof (cases "d = DFile")
    case False
    show ?thesis
    proof (cases "down_tag d")
      case None
      then show ?thesis using path_loop_step [OF False] by simp
    next
      case (Some tip)
      obtain t i p where tip: "tip = (t, i, p)" by (cases tip)
      have IH: "path_loop a p = map_option (\<lambda>q. q @ rev a) (path_loop [] p)" for a
        using less down_tag_parent Some tip by blast
      have step: "path_loop a d = path_loop (a @ [int i, t]) p" for a
        using path_loop_step [OF False, of a] Some tip by simp
      show ?thesis unfolding step [of path] step [of "[]"] IH [of "path @ _"] IH [of "[] @ _"]
        by (simp add: option.map_comp comp_def)
    qed
  qed simp
qed

lemma ComputePath_step:
  assumes "down_tag d = Some (t, i, p)"
  shows "ComputePath d = map_option (\<lambda>q. q @ [t, int i]) (ComputePath p)"
proof -
  have d: "d \<noteq> DFile" using assms by (auto simp: down_tag_def)
  have c: "ComputePath x = path_loop [] x" for x by (cases x) (simp_all add: ComputePath_def)
  have "ComputePath d = path_loop [int i, t] p" using path_loop_step [OF d, of "[]"] assms c by simp
  then show ?thesis using path_loop_acc [of "[int i, t]" p] c by simp
qed

lemma elem_at_nth:
  "nth_of (fmessages f) i EMessage = file_at f [File_MessageType, int i]"
  "nth_of (fexts f) i EExtension = file_at f [File_Extension, int i]"
  "nth_of (fenums f) i EEnum = file_at f [File_EnumType, int i]"
  "nth_of (fservices f) i EService = file_at f [File_Service, int i]"
  "nth_of (msg_nested m) i EMessage = elem_at (EMessage m) [Message_NestedType, int i]"
  "nth_of (msg_exts m) i EExtension = elem_at (EMessage m) [Message_Extension, int i]"
  "nth_of (msg_fields m) i EField = elem_at (EMessage m) [Message_Field, int i]"
  "nth_of (msg_oneofs m) i EOneof = elem_at (EMessage m) [Message_OneofDecl, int i]"
  "nth_of (msg_enums m) i EEnum = elem_at (EMessage m) [Message_EnumType, int i]"
  "nth_of (en_values en) i EValue = elem_at (EEnum en) [Enum_Value, int i]"
  "nth_of (svc_methods s) i EMethod = elem_at (EService s) [Service_Method, int i]"
proof -
  have m: "message_at x [] = Some (EMessage x)" for x :: "'x msgp" by (cases x) simp
  show "nth_of (msg_nested m) i EMessage = elem_at (EMessage m) [Message_NestedType, int i]"
    by (cases m) (simp add: nth_of_def elem_at_def messages_at_nth m tag_defs)
  show "nth_of (fmessages f) i EMessage = file_at f [File_MessageType, int i]"
    by (simp add: nth_of_def file_at_def messages_at_nth m tag_defs)
qed (simp add: nth_of_def file_at_def elem_at_def leaf_at_def enums_at_def enum_at_def service_at_def tag_defs;
     cases m; simp add: leaf_at_def enums_at_def enum_at_def)+

lemma desc_elem_message: "desc_elem f p = Some (EMessage m) \<Longrightarrow> \<exists>j q. p = DMessage j q"
  by (cases "(f, p)" rule: desc_elem.cases) (auto simp: nth_of_def split: if_splits option.splits elem.splits)

lemma desc_elem_enum: "desc_elem f p = Some (EEnum m) \<Longrightarrow> \<exists>j q. p = DEnum j q"
  by (cases "(f, p)" rule: desc_elem.cases) (auto simp: nth_of_def split: if_splits option.splits elem.splits)

lemma desc_elem_service: "desc_elem f p = Some (EService m) \<Longrightarrow> \<exists>j q. p = DService j q"
  by (cases "(f, p)" rule: desc_elem.cases) (auto simp: nth_of_def split: if_splits option.splits elem.splits)

lemma desc_elem_parent:
  "p \<noteq> DFile \<Longrightarrow> desc_elem f (DMessage i p) =
     (case desc_elem f p of Some (EMessage m) \<Rightarrow> nth_of (msg_nested m) i EMessage | _ \<Rightarrow> None)"
  "p \<noteq> DFile \<Longrightarrow> desc_elem f (DField i ext p) =
     (case desc_elem f p of
        Some (EMessage m) \<Rightarrow> if ext then nth_of (msg_exts m) i EExtension else nth_of (msg_fields m) i EField
      | _ \<Rightarrow> None)"
  "p \<noteq> DFile \<Longrightarrow> desc_elem f (DEnum i p) =
     (case desc_elem f p of Some (EMessage m) \<Rightarrow> nth_of (msg_enums m) i EEnum | _ \<Rightarrow> None)"
  "p \<noteq> DFile \<Longrightarrow> desc_elem f (DService i p) = None"
  by (cases p; simp)+

definition child_step :: "'a filep \<Rightarrow> desc \<Rightarrow> 'a elem \<Rightarrow> int \<Rightarrow> nat \<Rightarrow> desc \<Rightarrow> bool" where
  "child_step f d e t i p \<longleftrightarrow> down_tag d = Some (t, i, p) \<and>
     (if p = DFile then file_at f [t, int i] = Some e
      else \<exists>ep. desc_elem f p = Some ep \<and> elem_at ep [t, int i] = Some e)"

lemma child_step_message:
  assumes "(case desc_elem f p of Some (EMessage m) \<Rightarrow> nth_of (subs m) i con | _ \<Rightarrow> None) = Some e"
    "\<And>m. nth_of (subs m) i con = elem_at (EMessage m) [t, int i]"
    "\<And>j q. p = DMessage j q \<Longrightarrow> down_tag d = Some (t, i, p)"
  shows "child_step f d e t i p"
proof -
  obtain m where m: "desc_elem f p = Some (EMessage m)" "nth_of (subs m) i con = Some e"
    using assms(1) by (auto split: option.splits elem.splits)
  obtain j q where "p = DMessage j q" using desc_elem_message [OF m(1)] by blast
  then show ?thesis using m assms(2) [of m] assms(3) by (auto simp: child_step_def)
qed

lemma child_step_file:
  "down_tag d = Some (t, i, DFile) \<Longrightarrow> file_at f [t, int i] = Some e \<Longrightarrow> child_step f d e t i DFile"
  by (simp add: child_step_def)

lemma child_step_other:
  "down_tag d = Some (t, i, p) \<Longrightarrow> desc_elem f p = Some ep \<Longrightarrow> elem_at ep [t, int i] = Some e \<Longrightarrow> child_step f d e t i p"
  by (auto simp: child_step_def)

lemma desc_elem_step:
  assumes "desc_elem f d = Some e"
  shows "\<exists>t i p. child_step f d e t i p"
proof (cases d)
  case (DMessage i p)
  show ?thesis
  proof (cases "p = DFile")
    case True
    with assms DMessage have "child_step f d e File_MessageType i p"
      by (auto simp: down_tag_def elem_at_nth intro!: child_step_file)
    then show ?thesis by blast
  next
    case False
    with assms DMessage have "child_step f d e Message_NestedType i p"
      by (intro child_step_message [where subs = msg_nested, OF _ elem_at_nth(5)]) (auto simp: desc_elem_parent down_tag_def)
    then show ?thesis by blast
  qed
next
  case (DField i ext p)
  show ?thesis
  proof (cases "p = DFile")
    case True
    with assms DField have "child_step f d e File_Extension i p"
      by (auto simp: down_tag_def elem_at_nth split: if_splits intro!: child_step_file)
    then show ?thesis by blast
  next
    case False
    have "child_step f d e (if ext then Message_Extension else Message_Field) i p"
    proof (cases ext)
      case True
      with False assms DField show ?thesis unfolding if_P [OF True]
        by (intro child_step_message [where subs = msg_exts, OF _ elem_at_nth(6)])
           (auto simp: desc_elem_parent down_tag_def cong: option.case_cong elem.case_cong)
    next
      case no_ext: False
      with False assms DField show ?thesis unfolding if_not_P [OF no_ext]
        by (intro child_step_message [where subs = msg_fields, OF _ elem_at_nth(7)])
           (auto simp: desc_elem_parent down_tag_def cong: option.case_cong elem.case_cong)
    qed
    then show ?thesis by blast
  qed
next
  case (DOneof i p)
  with assms have "child_step f d e Message_OneofDecl i p"
    by (intro child_step_message [where subs = msg_oneofs, OF _ elem_at_nth(8)]) (auto simp: down_tag_def)
  then show ?thesis by blast
next
  case (DEnum i p)
  show ?thesis
  proof (cases "p = DFile")
    case True
    with assms DEnum have "child_step f d e File_EnumType i p"
      by (auto simp: down_tag_def elem_at_nth intro!: child_step_file)
    then show ?thesis by blast
  next
    case False
    with assms DEnum have "child_step f d e Message_EnumType i p"
      by (intro child_step_message [where subs = msg_enums, OF _ elem_at_nth(9)]) (auto simp: desc_elem_parent down_tag_def)
    then show ?thesis by blast
  qed
next
  case (DEnumValue i p)
  with assms obtain en where en: "desc_elem f p = Some (EEnum en)" "nth_of (en_values en) i EValue = Some e"
    by (auto split: option.splits elem.splits)
  obtain j q where p: "p = DEnum j q" using desc_elem_enum [OF en(1)] by blast
  have "child_step f d e Enum_Value i p"
    by (rule child_step_other [OF _ en(1)]) (use DEnumValue p en(2) in \<open>auto simp: down_tag_def elem_at_nth\<close>)
  then show ?thesis by blast
next
  case (DService i p)
  then have p: "p = DFile" using assms desc_elem_parent(4) [of p f i] by auto
  with assms DService have "child_step f d e File_Service i p"
    by (auto simp: down_tag_def elem_at_nth intro!: child_step_file)
  then show ?thesis by blast
next
  case (DMethod i p)
  with assms obtain svc where svc: "desc_elem f p = Some (EService svc)" "nth_of (svc_methods svc) i EMethod = Some e"
    by (auto split: option.splits elem.splits)
  obtain j q where p: "p = DService j q" using desc_elem_service [OF svc(1)] by blast
  have "child_step f d e Service_Method i p"
    by (rule child_step_other [OF _ svc(1)]) (use DMethod p svc(2) in \<open>auto simp: down_tag_def elem_at_nth\<close>)
  then show ?thesis by blast
qed (use assms in simp)

lemma ComputePath_file: "ComputePath d = Some [] \<Longrightarrow> d = DFile"
proof (rule ccontr)
  assume c: "ComputePath d = Some []" and d: "d \<noteq> DFile"
  show False
  proof (cases "down_tag d")
    case None
    then show ?thesis using c d path_loop_step [OF d, of "[]"] by (cases d) (simp_all add: ComputePath_def)
  next
    case (Some tip)
    then show ?thesis using c ComputePath_step [of d] by (cases tip) auto
  qed
qed

lemma ComputePath_snoc:
  assumes "ComputePath d = Some p" "p \<noteq> []"
  shows "\<exists>t i d' q. down_tag d = Some (t, i, d') \<and> ComputePath d' = Some q \<and> p = q @ [t, int i]"
proof -
  have d: "d \<noteq> DFile" using assms by (auto simp: ComputePath_def)
  then obtain tip where tip: "down_tag d = Some tip"
    using assms path_loop_step [OF d, of "[]"] by (cases d; cases "down_tag d") (simp_all add: ComputePath_def)
  obtain t i d' where "tip = (t, i, d')" by (cases tip)
  then show ?thesis using assms tip ComputePath_step [of d t i d'] by auto
qed

text \<open>A tag, an index and a parent determine the descriptor.\<close>

definition untag :: "int \<Rightarrow> nat \<Rightarrow> desc \<Rightarrow> desc" where
  "untag t i p =
     (case p of
        DFile \<Rightarrow> if t = File_MessageType then DMessage i p else if t = File_EnumType then DEnum i p
          else if t = File_Service then DService i p else DField i True p
      | DEnum _ _ \<Rightarrow> DEnumValue i p
      | DService _ _ \<Rightarrow> DMethod i p
      | _ \<Rightarrow> if t = Message_Field then DField i False p else if t = Message_NestedType then DMessage i p
          else if t = Message_EnumType then DEnum i p else if t = Message_Extension then DField i True p
          else DOneof i p)"

lemma untag_down: "down_tag d = Some (t, i, p) \<Longrightarrow> untag t i p = d"
  by (cases d) (auto simp: down_tag_def untag_def tag_defs split: desc.splits if_splits)

lemma ComputePath_inj: "ComputePath d = Some p \<Longrightarrow> ComputePath d' = Some p \<Longrightarrow> d' = d"
proof (induction "length p" arbitrary: p d d' rule: less_induct)
  case less
  show ?case
  proof (cases "p = []")
    case True
    with less.prems ComputePath_file show ?thesis by blast
  next
    case False
    obtain t i x q where 1: "down_tag d = Some (t, i, x)" "ComputePath x = Some q" "p = q @ [t, int i]"
      using ComputePath_snoc [OF less.prems(1) False] by blast
    obtain t' i' x' q' where 2: "down_tag d' = Some (t', i', x')" "ComputePath x' = Some q'" "p = q' @ [t', int i']"
      using ComputePath_snoc [OF less.prems(2) False] by blast
    have eq: "t' = t" "i' = i" "q' = q" "length q < length p" using 1(3) 2(3) by auto
    then have "x' = x" using less.hyps 1(2) 2(2) by blast
    then show ?thesis using untag_down [OF 1(1)] untag_down [OF 2(1)] eq by simp
  qed
qed

section \<open>Prefix lists\<close>

definition dots :: "string \<Rightarrow> nat list" where
  "dots pkg = filter (\<lambda>i. pkg ! i = CHR ''.'') [0..<length pkg]"

lemma fill_prefixes_spec:
  assumes "ds = filter (\<lambda>i. pkg ! i = CHR ''.'') is" "length ds \<le> n" "n < length ps"
  shows "fill_prefixes pkg is n ps = take (Suc (n - length ds)) ps @ rev (map (\<lambda>i. take i pkg) ds) @ drop (Suc n) ps"
  using assms
proof (induction "is" arbitrary: n ps ds)
  case (Cons i "is")
  show ?case
  proof (cases "pkg ! i = CHR ''.''")
    case True
    then obtain ds' where ds: "ds = i # ds'" "ds' = filter (\<lambda>i. pkg ! i = CHR ''.'') is" using Cons.prems(1) by simp
    obtain k where n: "n = Suc k" using Cons.prems(2) ds by (cases n) auto
    have "fill_prefixes pkg (i # is) n ps = fill_prefixes pkg is k (ps[n := take i pkg])" using True n by simp
    also have "\<dots> = take (Suc (k - length ds')) (ps[n := take i pkg]) @ rev (map (\<lambda>i. take i pkg) ds') @ drop (Suc k) (ps[n := take i pkg])"
      using Cons.IH [OF ds(2), of k "ps[n := take i pkg]"] Cons.prems n ds by simp
    also have "drop (Suc k) (ps[n := take i pkg]) = take i pkg # drop (Suc n) ps"
      using n Cons.prems(3) by (simp add: drop_update_cancel Cons_nth_drop_Suc [symmetric])
    also have "take (Suc (k - length ds')) (ps[n := take i pkg]) = take (Suc (n - length ds)) ps"
      using n ds Cons.prems by simp
    finally show ?thesis using ds by simp
  next
    case False
    then show ?thesis using Cons by simp
  qed
qed simp

lemma numDots_dots: "numDots pkg = length (dots pkg)"
  unfolding numDots_def dots_def
  by (induction pkg rule: rev_induct) (auto simp: nth_append intro!: arg_cong [where f = length] filter_cong)

lemma CreatePrefixList_eq:
  assumes "pkg \<noteq> []"
  shows "CreatePrefixList pkg = pkg # rev (map (\<lambda>i. take i pkg) (dots pkg)) @ [[]]"
proof (cases "dots pkg = []")
  case True
  then show ?thesis using assms by (simp add: CreatePrefixList_def numDots_dots)
next
  case False
  let ?n = "length (dots pkg)"
  have "fill_prefixes pkg [0..<length pkg] ?n (replicate (?n + 2) []) =
      [] # rev (map (\<lambda>i. take i pkg) (dots pkg)) @ [[]]"
    by (subst fill_prefixes_spec [OF refl]) (simp_all add: dots_def drop_replicate take_replicate del: replicate_Suc, simp)
  then show ?thesis using assms False by (simp add: CreatePrefixList_def numDots_dots)
qed

section \<open>Properties\<close>

text \<open>The source path computed for a descriptor leads, in its file, to the element the
  descriptor stands for, and no two descriptors share a path.\<close>

theorem ComputePath_leads_to_element:
  assumes "desc_elem f d = Some e"
  shows "\<exists>p. ComputePath d = Some p \<and> file_at f p = Some e \<and> (\<forall>d'. ComputePath d' = Some p \<longrightarrow> d' = d)"
proof -
  have "\<exists>p. ComputePath d = Some p \<and> file_at f p = Some e"
    using assms
  proof (induction "size d" arbitrary: d e rule: less_induct)
    case less
    obtain t i p where c: "child_step f d e t i p" using desc_elem_step [OF less.prems] by blast
    then have tip: "down_tag d = Some (t, i, p)" by (simp add: child_step_def)
    note step = ComputePath_step [OF tip]
    show ?case
    proof (cases "p = DFile")
      case True
      with step c show ?thesis by (simp add: ComputePath_def child_step_def)
    next
      case False
      with c obtain ep where ep: "desc_elem f p = Some ep" "elem_at ep [t, int i] = Some e" by (auto simp: child_step_def)
      from less.hyps [OF down_tag_parent [OF tip] ep(1)] obtain q where "ComputePath p = Some q" "file_at f q = Some ep" by blast
      then show ?thesis using step file_at_append [of f q ep "[t, int i]"] ep(2) by simp
    qed
  qed
  then show ?thesis using ComputePath_inj by blast
qed

definition demo_file :: "nat filep" where
  "demo_file = \<lparr>fpackage = ''p'', fmessages = [MsgP ''M'' 0 [] [] [MsgP ''N'' 1 [Leaf ''a'' 2, Leaf ''b'' 3] [] [] [] []] [] []],
     fenums = [], fexts = [], fservices = []\<rparr>"

theorem ComputePath_leads_to_element_witness:
  "\<exists>p. ComputePath (DField 1 False (DMessage 0 (DMessage 0 DFile))) = Some p \<and> p = [4, 0, 3, 0, 2, 1] \<and>
     file_at demo_file p = Some (EField (Leaf ''b'' 3))"
proof -
  have "desc_elem demo_file (DField 1 False (DMessage 0 (DMessage 0 DFile))) = Some (EField (Leaf ''b'' 3))"
    by (simp add: demo_file_def nth_of_def)
  from ComputePath_leads_to_element [OF this] show ?thesis by (auto simp: ComputePath_def tag_defs)
qed

end
