(* ===== verification/Literal.thy ===== *)
theory Literal
  imports LexerSafe Util
begin

text \<open>
  Escaping and lexing agree: a byte string printed by \<open>EscapeBytes\<close> (\<open>internal/util.go\<close>) between quotes is
  lexed (\<open>parser/lexer.go\<close>) back to the same bytes.
\<close>

section \<open>Reading ASCII text\<close>

definition reads_at :: "runeReader \<Rightarrow> bytes \<Rightarrow> bool" where
  "reads_at rr s \<longleftrightarrow> rerr rr = None \<and> \<not> utf8Strict rr \<and> rmark rr \<le> pos rr \<and> pos rr \<le> length (rdata rr) \<and>
     drop (pos rr) (rdata rr) = s"

lemma read_byte:
  assumes "reads_at rr (b # s)" "b < 0x80"
  shows "readRune rr = (Inr (uint b, 1), rr\<lparr>pos := pos rr + 1\<rparr>)" "reads_at (rr\<lparr>pos := pos rr + 1\<rparr>) s"
proof -
  have d: "drop (pos rr) (rdata rr) = b # s" using assms(1) by (simp add: reads_at_def)
  then have lt: "pos rr < length (rdata rr)" by (metis drop_all list.discI not_le)
  have "drop (pos rr + 1) (rdata rr) = s" using d lt by (metis Cons_nth_drop_Suc Suc_eq_plus1 list.inject)
  then show "reads_at (rr\<lparr>pos := pos rr + 1\<rparr>) s" using assms(1) lt by (simp add: reads_at_def)
  show "readRune rr = (Inr (uint b, 1), rr\<lparr>pos := pos rr + 1\<rparr>)"
    using assms lt d DecodeRune_ascii [OF assms(2), of s] by (simp add: readRune_def reads_at_def)
qed

section \<open>Escapes\<close>

lemma octal_byte: "octal_digit (c AND 7) = octal_digit c" "octal_digit c < 0x80" "is_octal_digit (uint (octal_digit c))"
  "encode_rune (uint (octal_digit c)) = [octal_digit c]" "digit_value (octal_digit c) = Some (uint c mod 8)"
proof -
  have m: "uint (c AND 7) = uint c mod 8"
    using take_bit_eq_mask [of 3 "uint c"] by (simp add: uint_and take_bit_eq_mod mask_eq_exp_minus_1)
  have r: "0 \<le> uint c mod 8 \<and> uint c mod 8 < 8" by simp
  then have u: "uint (octal_digit c) = 48 + uint c mod 8"
    unfolding octal_digit_def uint_word_ariths m by simp
  show "octal_digit (c AND 7) = octal_digit c" by (simp add: octal_digit_def and.assoc)
  show "octal_digit c < 0x80" using u r by (simp add: word_less_uint)
  show "is_octal_digit (uint (octal_digit c))" using u r by (simp add: is_octal_digit_def)
  have "0 \<le> uint (octal_digit c)" "uint (octal_digit c) < 128" using u r by simp_all
  then show "encode_rune (uint (octal_digit c)) = [octal_digit c]" by (simp only: encode_ascii word_of_int_uint)
  have "octal_digit c - 48 = c AND 7" by (simp add: octal_digit_def)
  moreover have "uint c mod 8 \<le> 9" using r by linarith
  ultimately show "digit_value (octal_digit c) = Some (uint c mod 8)"
    using u m by (simp add: digit_value_def word_less_uint)
qed

lemma octal_value:
  "octal_escape [octal_digit (drop_bit 6 c), octal_digit (drop_bit 3 c), octal_digit c] = EscOk [c]"
proof -
  let ?a = "uint (drop_bit 6 c) mod 8" and ?b = "uint (drop_bit 3 c) mod 8" and ?c = "uint c mod 8"
  have d: "uint (drop_bit 6 c) = uint c div 64" "uint (drop_bit 3 c) = uint c div 8"
    by (simp_all add: drop_bit_eq_div uint_div_distrib)
  have v: "(?a * 8 + ?b) * 8 + ?c = uint c" 
  proof -
    have "uint c div 64 = uint c div 8 div 8" using zdiv_zmult2_eq [of 8 "uint c" 8] by simp
    moreover have "uint c div 8 div 8 mod 8 = uint c div 8 div 8"
      by (rule mod_pos_pos_trivial) (use byte_range [of c] in linarith)+
    ultimately have "?a * 8 + ?b = uint c div 8" unfolding d by simp
    then show ?thesis by simp
  qed
  have s: "octal_digit (drop_bit 6 c) \<noteq> of_char CHR ''-''" "octal_digit (drop_bit 6 c) \<noteq> of_char CHR ''+''"
    using octal_byte(5) [of "drop_bit 6 c"] by (auto simp: digit_value_def)
  have r: "\<not> 8 \<le> ?a" "\<not> 8 \<le> ?b" "\<not> 8 \<le> ?c"
    using pos_mod_bound [of 8 "uint (drop_bit 6 c)"] pos_mod_bound [of 8 "uint (drop_bit 3 c)"] pos_mod_bound [of 8 "uint c"]
    by linarith+
  have "ParseUint [octal_digit (drop_bit 6 c), octal_digit (drop_bit 3 c), octal_digit c] 8 32 = Inr (uint c)"
    using r v byte_range [of c] by (simp add: ParseUint_def octal_byte(5))
  then have "ParseInt [octal_digit (drop_bit 6 c), octal_digit (drop_bit 3 c), octal_digit c] 8 32 = Inr (uint c)"
    using s byte_range [of c] by (simp add: ParseInt_def)
  then show ?thesis using byte_range [of c] by (simp add: octal_escape_def)
qed

definition ahead :: "nat \<Rightarrow> runeReader \<Rightarrow> runeReader" where
  "ahead n rr = rr\<lparr>pos := pos rr + n\<rparr>"

lemma ahead_ahead [simp]: "ahead n (ahead m rr) = ahead (m + n) rr"
  by (simp add: ahead_def add.assoc)

lemma ahead_pos: "rr\<lparr>pos := pos rr + n\<rparr> = ahead n rr"
  by (simp add: ahead_def)

lemmas read_ahead = read_byte [unfolded ahead_pos]

lemma octal_rune_byte: "octal_digit c \<noteq> 120 \<and> octal_digit c \<noteq> 88"
  using octal_byte(3) [of c] by (auto simp: is_octal_digit_def)

text \<open>Bytes printed by an escape are read back as that byte.\<close>

lemma read_octal:
  assumes "reads_at rr ([octal_digit (drop_bit 6 c), octal_digit (drop_bit 3 c), octal_digit c] @ s)"
  shows "read_escape quote rr = Some (EscOk [c], ahead 3 rr) \<and> reads_at (ahead 3 rr) s"
proof -
  let ?x = "octal_digit (drop_bit 6 c)" and ?y = "octal_digit (drop_bit 3 c)" and ?z = "octal_digit c"
  have a: "reads_at rr (?x # ?y # ?z # s)" using assms by simp
  note R1 = read_ahead [OF a octal_byte(2)]
  note R2 = read_ahead [OF R1(2) octal_byte(2)]
  note R3 = read_ahead [OF R2(2) octal_byte(2)]
  have n: "uint ?x \<noteq> ch CHR ''x'' \<and> uint ?x \<noteq> ch CHR ''X''"
    using octal_byte(3) [of "drop_bit 6 c"] by (auto simp: is_octal_digit_def)
  have "read_octal_escape (uint ?x) (ahead 1 rr) = Some (octal_escape [?x, ?y, ?z], ahead 3 rr)"
    using R2 R3 by (simp add: read_octal_escape_def octal_byte del: One_nat_def)
  then show ?thesis using R1 R3(2) n by (simp add: read_escape_def octal_byte octal_value del: One_nat_def)
qed

lemma read_simple:
  assumes "reads_at rr (b # s)" "simple_escape (uint b) = Some c" "b < 0x80"
    "\<not> is_octal_digit (uint b)" "uint b \<notin> {ch CHR ''x'', ch CHR ''X'', ch CHR ''u'', ch CHR ''U''}"
  shows "read_escape quote rr = Some (EscOk [c], ahead 1 rr) \<and> reads_at (ahead 1 rr) s"
  using read_ahead [OF assms(1,3)] assms(2,4,5) by (simp add: read_escape_def)

lemma escape_read:
  assumes "escape_byte c = 92 # e" "reads_at rr (e @ s)"
  shows "read_escape quote rr = Some (EscOk [c], ahead (length e) rr) \<and> reads_at (ahead (length e) rr) s"
proof -
  consider (simple) b where "e = [b]" "b \<in> {110, 114, 116, 34, 39, 92}" "simple_escape (uint b) = Some c"
    | (octal) "e = [octal_digit (drop_bit 6 c), octal_digit (drop_bit 3 c), octal_digit c]"
    using assms(1) by (auto simp: escape_byte_def simple_escape_def split: if_split_asm)
  then show ?thesis
  proof cases
    case simple
    then have "b < 0x80" "\<not> is_octal_digit (uint b)" "uint b \<notin> {ch CHR ''x'', ch CHR ''X'', ch CHR ''u'', ch CHR ''U''}"
      by (auto simp: is_octal_digit_def)
    then show ?thesis using read_simple [of rr b s c quote] simple assms(2) by simp
  next
    case octal
    then show ?thesis using assms(2) read_octal [of rr c s quote] by (simp add: numeral_3_eq_3)
  qed
qed

lemma escape_byte_cases:
  obtains (plain) "escape_byte c = [c]" "c < 0x80" "uint c \<noteq> 10" "uint c \<noteq> 34" "uint c \<noteq> 39" "uint c \<noteq> 0" "uint c \<noteq> 92"
  | (escaped) e where "escape_byte c = 92 # e"
proof (cases "c = 10 \<or> c = 13 \<or> c = 9 \<or> c = 34 \<or> c = 39 \<or> c = 92 \<or> \<not> (32 \<le> c \<and> c < 127)")
  case True
  then have "\<exists>e. escape_byte c = 92 # e" by (auto simp: escape_byte_def)
  then show ?thesis using escaped by blast
next
  case False
  then have h: "32 \<le> uint c" "uint c < 127" by (simp_all add: word_less_uint)
  have n: "c \<noteq> 34" "c \<noteq> 39" "c \<noteq> 92" using False by auto
  then have "uint c \<noteq> 34" "uint c \<noteq> 39" "uint c \<noteq> 92"
    using word_uint_eq_iff [of c 34] word_uint_eq_iff [of c 39] word_uint_eq_iff [of c 92] by auto
  then show ?thesis using plain h False by (simp add: escape_byte_def word_less_uint)
qed

lemma string_loop_EscapeBytes:
  assumes "q = 34 \<or> q = 39" "reads_at (input l) (EscapeBytes data @ q # rest)"
  shows "string_loop rep (uint q) buf (None, False) l =
    Some (Inr (buf @ data), l\<lparr>input := ahead (length (EscapeBytes data) + 1) (input l)\<rparr>)"
  using assms(2)
proof (induction data arbitrary: buf l)
  case Nil
  have "q < 0x80" using assms(1) by auto
  from read_ahead [OF _ this] Nil have r: "readRune (input l) = (Inr (uint q, 1), ahead 1 (input l))" by (simp add: EscapeBytes_def)
  have "uint q \<noteq> 10" using assms(1) by auto
  then show ?case using r by (simp add: string_loop.simps [of rep "uint q" buf "(None, False)" l] EscapeBytes_def)
next
  case (Cons c data)
  have e: "EscapeBytes (c # data) = escape_byte c @ EscapeBytes data" by (simp add: EscapeBytes_def)
  show ?case
  proof (cases c rule: escape_byte_cases)
    case plain
    note r = read_ahead [OF _ plain(2), of "input l" "EscapeBytes data @ q # rest"]
    have r1: "readRune (input l) = (Inr (uint c, 1), ahead 1 (input l))" and r2: "reads_at (ahead 1 (input l)) (EscapeBytes data @ q # rest)"
      using r Cons.prems e plain(1) by simp_all
    have en: "encode_rune (uint c) = [c]" using plain(2) byte_range [of c] by (simp add: encode_ascii word_less_uint)
    have nq: "uint c \<noteq> uint q" using plain assms(1) by auto
    have "string_loop rep (uint q) buf (None, False) l = string_loop rep (uint q) (buf @ [c]) (None, False) (l\<lparr>input := ahead 1 (input l)\<rparr>)"
      using r1 nq en plain by (simp add: string_loop.simps [of rep "uint q" buf "(None, False)" l])
    then show ?thesis using Cons.IH [of "l\<lparr>input := ahead 1 (input l)\<rparr>" "buf @ [c]"] r2 e plain(1) by simp
  next
    case (escaped x)
    have "(92 :: byte) < 0x80" by simp
    note r = read_ahead [OF _ this, of "input l" "x @ EscapeBytes data @ q # rest"]
    have r1: "readRune (input l) = (Inr (92, 1), ahead 1 (input l))" and r2: "reads_at (ahead 1 (input l)) (x @ EscapeBytes data @ q # rest)"
      using r Cons.prems e escaped by simp_all
    note E = escape_read [OF escaped r2, of "uint q"]
    have nq: "(92 :: int) \<noteq> uint q" using assms(1) by auto
    have "string_loop rep (uint q) buf (None, False) l =
        string_loop rep (uint q) (buf @ [c]) (None, False) (l\<lparr>input := ahead (1 + length x) (input l)\<rparr>)"
      using r1 nq E by (simp add: string_loop.simps [of rep "uint q" buf "(None, False)" l])
    then show ?thesis using Cons.IH [of "l\<lparr>input := ahead (1 + length x) (input l)\<rparr>" "buf @ [c]"] E e escaped by simp
  qed
qed

section \<open>The round trip\<close>

text \<open>C9: printing bytes and lexing them is the identity. A literal made of \<open>EscapeBytes data\<close> between double or
  single quotes, at the start of any file, is lexed to the string with the bytes \<open>data\<close> (also when they are
  not UTF-8), and its token is exactly the literal.\<close>

theorem string_literal_roundtrip:
  assumes "q = 34 \<or> q = 39" "newLexer (Inr (q # EscapeBytes data @ q # rest)) name h st = Inr l"
    "ReporterError h st = None"
  shows "\<exists>l1. Lex pf rep l = Some (tok_STRING_LIT, Sym (StringLiteralNode data 0), l1) \<and>
    getMark (input l1) = q # EscapeBytes data @ [q]"
proof -
  let ?d = "q # EscapeBytes data @ q # rest" and ?n = "length (EscapeBytes data)"
  have "take 3 ?d \<noteq> utf8Bom" using assms(1) by (auto simp: utf8Bom_def)
  then have l: "input l = \<lparr>rdata = ?d, pos = 0, rerr = None, rmark = 0, utf8Strict = False\<rparr>" "info l = NewFileInfo name ?d"
      "lcomments l = []" "prevSym l = None" "lhandler l = h" "lstore l = st"
    using assms(2) by (auto simp: newLexer_def Let_def)
  let ?l = "l\<lparr>lcomments := []\<rparr>"
  let ?m = "?l\<lparr>input := setMark (input l), prevOffset := pos (input l)\<rparr>"
  have q: "q < 0x80" using assms(1) by auto
  have "reads_at (setMark (input l)) (q # EscapeBytes data @ q # rest)" using l(1) by (simp add: reads_at_def setMark_def)
  note R = read_ahead [OF this q]
  let ?i = "ahead 1 (setMark (input l))"
  let ?j = "ahead (?n + 1) ?i"
  have s: "string_loop rep (uint q) [] (None, False) (?m\<lparr>input := ?i\<rparr>) = Some (Inr data, ?m\<lparr>input := ?j\<rparr>)"
    using string_loop_EscapeBytes [OF assms(1), of "?m\<lparr>input := ?i\<rparr>" data rest rep "[]"] R(2) by simp
  have j: "pos ?j = ?n + 2" "rmark ?j = 0" "rdata ?j = ?d" using l(1) by (simp_all add: ahead_def setMark_def)
  let ?f = "(NewFileInfo name ?d)\<lparr>fitems := [\<lparr>ioffset = 0, ilength = int ?n + 2\<rparr>]\<rparr>"
  have tok: "newToken (?m\<lparr>input := ?j\<rparr>) = Some (0, ?m\<lparr>input := ?j, info := ?f\<rparr>)"
    using j l by (simp add: newToken_def AddToken_def NewFileInfo_def)
  have "\<exists>l1. set_node (StringLiteralNode data) (?m\<lparr>input := ?j\<rparr>) = Some (Sym (StringLiteralNode data 0), l1) \<and> input l1 = ?j"
    using tok l by (simp add: set_node_def setPrevAndAddComments_def split_comments_def)
  then obtain l1 where l1: "set_node (StringLiteralNode data) (?m\<lparr>input := ?j\<rparr>) = Some (Sym (StringLiteralNode data 0), l1)" "input l1 = ?j"
    by blast
  have c: "\<not> is_whitespace (uint q)" "uint q \<noteq> ch CHR ''.''" "uint q \<noteq> ch CHR ''_''" "\<not> is_letter (uint q)" "\<not> is_digit (uint q)"
      "uint q = 39 \<or> uint q = 34"
    using assms(1) by (auto simp: is_whitespace_def is_letter_def is_digit_def)
  have "lex_iter pf rep ?l = lex_rune pf rep (uint q) (?m\<lparr>input := ?i\<rparr>)" using R(1) by (simp add: lex_iter_def)
  also have "\<dots> = lex_string rep (uint q) (?m\<lparr>input := ?i\<rparr>)" using c by (simp add: lex_rune_def)
  also have "\<dots> = Some (Ret tok_STRING_LIT (Sym (StringLiteralNode data 0)) l1)"
    unfolding lex_string_def readStringLiteral_def s using l1(1) by (simp add: lex_return_def setString_def)
  finally have "Lex pf rep l = Some (tok_STRING_LIT, Sym (StringLiteralNode data 0), l1)"
    using assms(3) l by (simp add: Lex_def lex_loop.simps [of pf rep ?l])
  moreover have "getMark (input l1) = q # EscapeBytes data @ [q]" using l1(2) j by (simp add: getMark_def)
  ultimately show ?thesis by blast
qed

theorem string_literal_roundtrip_witness:
  "\<exists>l l1. newLexer (Inr ([34] @ EscapeBytes [0, 10, 34, 97, 255] @ [34])) ''x.proto'' 0 single_handler = Inr l \<and>
     Lex demo_floats demo_reporter l = Some (tok_STRING_LIT, Sym (StringLiteralNode [0, 10, 34, 97, 255] 0), l1)"
proof -
  have h: "ReporterError 0 single_handler = None" by (simp add: ReporterError_def single_handler_def)
  obtain l where l: "newLexer (Inr (34 # EscapeBytes [0, 10, 34, 97, 255] @ 34 # [])) ''x.proto'' 0 single_handler = Inr l"
    by (simp add: newLexer_def Let_def)
  from string_literal_roundtrip [OF _ l h, of demo_floats demo_reporter] l show ?thesis by auto
qed

end
