(* ===== verification/Toposort.thy ===== *)
theory Toposort
  imports Prelude
begin

text \<open>
  Topological sorting: \<open>internal/toposort/toposort.go\<close>.

  \<open>Sorter.Sort\<close> is a depth-first search with an explicit stack. The stack is a list with its top
  first. The consumer of the returned iterator is the function \<open>yield\<close>, which may keep state and may
  ask to stop. A panic is an outcome; the deferred clean-up runs after it too. The loop may run for
  ever on an infinite graph, so it is a partial function into \<open>option\<close>.
\<close>

datatype mark = Unsorted | Walking | Sorted

record ('n, 'k) sorter =
  state :: "'k \<Rightarrow> mark"
  stack :: "'n list"
  iterating :: bool

definition new_sorter :: "('n, 'k) sorter" where
  "new_sorter = \<lparr>state = (\<lambda>_. Unsorted), stack = [], iterating = False\<rparr>"

datatype outcome = Finished | Stopped | CyclePanic | ReentrantPanic

text \<open>\<open>push\<close> panics (\<open>None\<close>) on a node that is being walked.\<close>

definition push :: "('n \<Rightarrow> 'k) \<Rightarrow> 'n \<Rightarrow> ('n, 'k) sorter \<Rightarrow> ('n, 'k) sorter option" where
  "push key v s =
     (case state s (key v) of
        Unsorted \<Rightarrow> Some (s\<lparr>stack := v # stack s\<rparr>)
      | Walking \<Rightarrow> None
      | Sorted \<Rightarrow> Some s)"

primrec push_all :: "('n \<Rightarrow> 'k) \<Rightarrow> 'n list \<Rightarrow> ('n, 'k) sorter \<Rightarrow> ('n, 'k) sorter option" where
  "push_all key [] s = Some s"
| "push_all key (c # cs) s = (case push key c s of None \<Rightarrow> None | Some s' \<Rightarrow> push_all key cs s')"

partial_function (option) sort_loop ::
  "('n \<Rightarrow> 'k) \<Rightarrow> ('n \<Rightarrow> 'n list) \<Rightarrow> ('n \<Rightarrow> 's \<Rightarrow> bool \<times> 's) \<Rightarrow> ('n, 'k) sorter \<Rightarrow> 's \<Rightarrow>
   (outcome \<times> ('n, 'k) sorter \<times> 's) option" where
  "sort_loop key dag yield s acc =
     (case stack s of
        [] \<Rightarrow> Some (Finished, s, acc)
      | node # rest \<Rightarrow>
          if state s (key node) = Unsorted then
            (case push_all key (dag node) (s\<lparr>state := (state s)(key node := Walking)\<rparr>) of
               None \<Rightarrow> Some (CyclePanic, s, acc)
             | Some s' \<Rightarrow> sort_loop key dag yield s' acc)
          else if state s (key node) = Walking then
            (let (more, acc') = yield node acc
             in if more
                then sort_loop key dag yield (s\<lparr>stack := rest, state := (state s)(key node := Sorted)\<rparr>) acc'
                else Some (Stopped, s\<lparr>stack := rest\<rparr>, acc'))
          else sort_loop key dag yield (s\<lparr>stack := rest\<rparr>) acc)"

primrec sort_roots ::
  "('n \<Rightarrow> 'k) \<Rightarrow> ('n \<Rightarrow> 'n list) \<Rightarrow> ('n \<Rightarrow> 's \<Rightarrow> bool \<times> 's) \<Rightarrow> 'n list \<Rightarrow> ('n, 'k) sorter \<Rightarrow> 's \<Rightarrow>
   (outcome \<times> ('n, 'k) sorter \<times> 's) option" where
  "sort_roots key dag yield [] s acc = Some (Finished, s, acc)"
| "sort_roots key dag yield (r # roots) s acc =
     (case push key r s of
        None \<Rightarrow> Some (CyclePanic, s, acc)
      | Some s' \<Rightarrow>
          (case sort_loop key dag yield s' acc of
             Some (Finished, s'', acc') \<Rightarrow> sort_roots key dag yield roots s'' acc'
           | other \<Rightarrow> other))"

text \<open>The deferred function: clear the state and the stack.\<close>

definition cleanup :: "('n, 'k) sorter \<Rightarrow> ('n, 'k) sorter" where
  "cleanup s = s\<lparr>state := (\<lambda>_. Unsorted), stack := [], iterating := False\<rparr>"

definition Sorter_Sort ::
  "('n \<Rightarrow> 'k) \<Rightarrow> ('n \<Rightarrow> 'n list) \<Rightarrow> ('n \<Rightarrow> 's \<Rightarrow> bool \<times> 's) \<Rightarrow> 'n list \<Rightarrow> ('n, 'k) sorter \<Rightarrow> 's \<Rightarrow>
   (outcome \<times> ('n, 'k) sorter \<times> 's) option" where
  "Sorter_Sort key dag yield roots s acc =
     (if iterating s then Some (ReentrantPanic, s, acc)
      else case sort_roots key dag yield roots (s\<lparr>iterating := True\<rparr>) acc of
             None \<Rightarrow> None
           | Some (r, s', acc') \<Rightarrow> Some (r, cleanup s', acc'))"

definition Sort ::
  "('n \<Rightarrow> 'k) \<Rightarrow> ('n \<Rightarrow> 'n list) \<Rightarrow> ('n \<Rightarrow> 's \<Rightarrow> bool \<times> 's) \<Rightarrow> 'n list \<Rightarrow> 's \<Rightarrow>
   (outcome \<times> ('n, 'k) sorter \<times> 's) option" where
  "Sort key dag yield roots acc = Sorter_Sort key dag yield roots new_sorter acc"

section \<open>The graph\<close>

text \<open>Edges between keys. The algorithm identifies nodes by their keys, so it relies on nodes with
  the same key having children with the same keys.\<close>

definition edge :: "('n \<Rightarrow> 'k) \<Rightarrow> ('n \<Rightarrow> 'n list) \<Rightarrow> 'k \<Rightarrow> 'k \<Rightarrow> bool" where
  "edge key dag k c \<longleftrightarrow> (\<exists>n. key n = k \<and> c \<in> key ` set (dag n))"

definition key_ok :: "('n \<Rightarrow> 'k) \<Rightarrow> ('n \<Rightarrow> 'n list) \<Rightarrow> bool" where
  "key_ok key dag \<longleftrightarrow> (\<forall>n m. key n = key m \<longrightarrow> key ` set (dag n) = key ` set (dag m))"

lemma edge_iff: "key_ok key dag \<Longrightarrow> edge key dag (key n) c \<longleftrightarrow> c \<in> key ` set (dag n)"
  unfolding edge_def key_ok_def by blast

definition reachable :: "('n \<Rightarrow> 'k) \<Rightarrow> ('n \<Rightarrow> 'n list) \<Rightarrow> 'n list \<Rightarrow> 'k \<Rightarrow> bool" where
  "reachable key dag roots k \<longleftrightarrow> (\<exists>r \<in> set roots. (edge key dag)\<^sup>*\<^sup>* (key r) k)"

text \<open>The consumer that collects what it is given.\<close>

definition collect_all :: "'n \<Rightarrow> 'n list \<Rightarrow> bool \<times> 'n list" where
  "collect_all n acc = (True, acc @ [n])"

text \<open>Each node comes after all the nodes it points to.\<close>

definition deps_first :: "('n \<Rightarrow> 'k) \<Rightarrow> ('n \<Rightarrow> 'n list) \<Rightarrow> 'n list \<Rightarrow> bool" where
  "deps_first key dag out \<longleftrightarrow>
     (\<forall>i < length out. \<forall>c. edge key dag (key (out ! i)) c \<longrightarrow> (\<exists>j < i. key (out ! j) = c))"

section \<open>The invariant of the loop\<close>

text \<open>A walked key sits on the stack; everything above it is reachable from it, and each of its
  children is either done or above it.\<close>

definition walk_ok :: "('n \<Rightarrow> 'k) \<Rightarrow> ('n \<Rightarrow> 'n list) \<Rightarrow> ('n, 'k) sorter \<Rightarrow> 'k \<Rightarrow> bool" where
  "walk_ok key dag s k \<longleftrightarrow> (\<exists>above n below. stack s = above @ n # below \<and> key n = k \<and> k \<notin> key ` set above \<and>
     (\<forall>c. edge key dag k c \<longrightarrow> state s c = Sorted \<or> c \<in> key ` set above) \<and>
     (\<forall>j \<in> key ` set above. (edge key dag)\<^sup>+\<^sup>+ k j))"

definition loop_inv :: "('n \<Rightarrow> 'k) \<Rightarrow> ('n \<Rightarrow> 'n list) \<Rightarrow> ('k \<Rightarrow> bool) \<Rightarrow> ('n, 'k) sorter \<Rightarrow> 'n list \<Rightarrow> bool" where
  "loop_inv key dag R s out \<longleftrightarrow>
     (\<forall>k. state s k = Walking \<longrightarrow> walk_ok key dag s k) \<and>
     (\<forall>k. state s k = Sorted \<longleftrightarrow> k \<in> key ` set out) \<and> distinct (map key out) \<and> deps_first key dag out \<and>
     (\<forall>n \<in> set (stack s). R (key n)) \<and> (\<forall>k. state s k \<noteq> Unsorted \<longrightarrow> R k)"

lemma push_all_spec:
  "push_all key cs s = (if \<exists>c \<in> set cs. state s (key c) = Walking then None
     else Some (s\<lparr>stack := rev (filter (\<lambda>c. state s (key c) = Unsorted) cs) @ stack s\<rparr>))"
proof (induction cs arbitrary: s)
  case (Cons c cs)
  show ?case
  proof (cases "state s (key c)")
    case Unsorted
    then show ?thesis using Cons [of "s\<lparr>stack := c # stack s\<rparr>"] by (simp add: push_def)
  next
    case Walking
    then show ?thesis by (simp add: push_def)
  next
    case Sorted
    then show ?thesis using Cons [of s] by (simp add: push_def)
  qed
qed simp

text \<open>Popping a finished node, yielding a walked one and expanding a new one keep the invariant.\<close>

lemma walk_ok_pop:
  assumes "walk_ok key dag s k" "stack s = node # rest" "key node \<noteq> k"
    "stack s' = rest" "\<And>c. state s c = Sorted \<Longrightarrow> state s' c = Sorted" "state s' (key node) = Sorted"
  shows "walk_ok key dag s' k"
proof -
  obtain above n below where a: "stack s = above @ n # below" "key n = k" "k \<notin> key ` set above"
    "\<forall>c. edge key dag k c \<longrightarrow> state s c = Sorted \<or> c \<in> key ` set above"
    "\<forall>j \<in> key ` set above. (edge key dag)\<^sup>+\<^sup>+ k j"
    using assms(1) unfolding walk_ok_def by blast
  obtain above' where above: "above = node # above'"
    using a(1,2) assms(2,3) by (cases above) auto
  show ?thesis unfolding walk_ok_def
  proof (intro exI conjI)
    show "stack s' = above' @ n # below" using a(1) above assms(2,4) by simp
    show "\<forall>c. edge key dag k c \<longrightarrow> state s' c = Sorted \<or> c \<in> key ` set above'"
      using a(4) above assms(5,6) by auto
  qed (use a above in auto)
qed

lemma walk_ok_top:
  assumes "walk_ok key dag s (key node)" "stack s = node # rest"
  shows "\<forall>c. edge key dag (key node) c \<longrightarrow> state s c = Sorted"
proof -
  obtain above n below where a: "stack s = above @ n # below" "key node \<notin> key ` set above"
    "\<forall>c. edge key dag (key node) c \<longrightarrow> state s c = Sorted \<or> c \<in> key ` set above"
    using assms(1) unfolding walk_ok_def by blast
  have "above = []" using a(1,2) assms(2) by (cases above) auto
  then show ?thesis using a(3) by simp
qed

lemma walk_ok_push:
  assumes "walk_ok key dag s k" "stack s = node # rest" "key node \<noteq> k"
    "stack s' = new @ stack s" "\<And>c. state s c = Sorted \<Longrightarrow> state s' c = Sorted" "k \<notin> key ` set new"
    "\<And>c. c \<in> key ` set new \<Longrightarrow> edge key dag (key node) c"
  shows "walk_ok key dag s' k"
proof -
  obtain above n below where a: "stack s = above @ n # below" "key n = k" "k \<notin> key ` set above"
    "\<forall>c. edge key dag k c \<longrightarrow> state s c = Sorted \<or> c \<in> key ` set above"
    "\<forall>j \<in> key ` set above. (edge key dag)\<^sup>+\<^sup>+ k j"
    using assms(1) unfolding walk_ok_def by blast
  have "node \<in> set above" using a(1,2) assms(2,3) by (cases above) auto
  then have "(edge key dag)\<^sup>+\<^sup>+ k (key node)" using a(5) by blast
  then have new: "(edge key dag)\<^sup>+\<^sup>+ k c" if "c \<in> key ` set new" for c
    using assms(7) [OF that] by (rule tranclp.trancl_into_trancl)
  show ?thesis unfolding walk_ok_def
  proof (intro exI conjI)
    show "stack s' = (new @ above) @ n # below" using a(1) assms(4) by simp
    show "\<forall>c. edge key dag k c \<longrightarrow> state s' c = Sorted \<or> c \<in> key ` set (new @ above)"
      using a(4) assms(5) by auto
    show "\<forall>j \<in> key ` set (new @ above). (edge key dag)\<^sup>+\<^sup>+ k j" using a(5) new by auto
  qed (use a assms(6) in auto)
qed

definition R_closed :: "('n \<Rightarrow> 'k) \<Rightarrow> ('n \<Rightarrow> 'n list) \<Rightarrow> ('k \<Rightarrow> bool) \<Rightarrow> bool" where
  "R_closed key dag R \<longleftrightarrow> (\<forall>k c. R k \<longrightarrow> edge key dag k c \<longrightarrow> R c)"

lemma loop_invI:
  assumes "\<And>k. state s k = Walking \<Longrightarrow> walk_ok key dag s k" "\<And>k. state s k = Sorted \<longleftrightarrow> k \<in> key ` set out"
    "distinct (map key out)" "deps_first key dag out" "\<And>n. n \<in> set (stack s) \<Longrightarrow> R (key n)"
    "\<And>k. state s k \<noteq> Unsorted \<Longrightarrow> R k"
  shows "loop_inv key dag R s out"
  using assms unfolding loop_inv_def by blast

lemma loop_invD:
  assumes "loop_inv key dag R s out"
  shows "state s k = Walking \<Longrightarrow> walk_ok key dag s k" "state s k = Sorted \<longleftrightarrow> k \<in> key ` set out"
    "distinct (map key out)" "deps_first key dag out" "n \<in> set (stack s) \<Longrightarrow> R (key n)"
    "state s k \<noteq> Unsorted \<Longrightarrow> R k"
  using assms unfolding loop_inv_def by blast+

lemma inv_pop:
  assumes inv: "loop_inv key dag R s out" and st: "stack s = node # rest" "state s (key node) = Sorted"
  shows "loop_inv key dag R (s\<lparr>stack := rest\<rparr>) out"
proof (rule loop_invI)
  show "walk_ok key dag (s\<lparr>stack := rest\<rparr>) k" if "state (s\<lparr>stack := rest\<rparr>) k = Walking" for k
  proof -
    have w: "state s k = Walking" using that by simp
    then have "key node \<noteq> k" using st(2) by auto
    from walk_ok_pop [OF loop_invD(1) [OF inv w] st(1) this] st(2) show ?thesis by simp
  qed
qed (use loop_invD [OF inv] st in auto)

lemma deps_first_snoc:
  assumes "deps_first key dag out" "\<forall>c. edge key dag (key n) c \<longrightarrow> c \<in> key ` set out"
  shows "deps_first key dag (out @ [n])"
  unfolding deps_first_def
proof (intro allI impI)
  fix i c
  assume i: "i < length (out @ [n])" and e: "edge key dag (key ((out @ [n]) ! i)) c"
  show "\<exists>j<i. key ((out @ [n]) ! j) = c"
  proof (cases "i < length out")
    case True
    then obtain j where "j < i" "key (out ! j) = c" using e assms(1) by (auto simp: deps_first_def nth_append)
    then show ?thesis using True by (intro exI [of _ j]) (simp add: nth_append)
  next
    case False
    then have "i = length out" using i by simp
    then have "c \<in> key ` set out" using e assms(2) by simp
    then obtain j where "j < length out" "key (out ! j) = c" by (auto simp: in_set_conv_nth)
    then show ?thesis using \<open>i = length out\<close> by (intro exI [of _ j]) (simp add: nth_append)
  qed
qed

lemma inv_yield:
  assumes inv: "loop_inv key dag R s out" and st: "stack s = node # rest" "state s (key node) = Walking"
  shows "loop_inv key dag R (s\<lparr>stack := rest, state := (state s)(key node := Sorted)\<rparr>) (out @ [node])"
proof (rule loop_invI)
  let ?s = "s\<lparr>stack := rest, state := (state s)(key node := Sorted)\<rparr>"
  note I = loop_invD [OF inv]
  show "walk_ok key dag ?s k" if "state ?s k = Walking" for k
  proof -
    have w: "state s k = Walking" "key node \<noteq> k" using that by (auto split: if_splits)
    from walk_ok_pop [OF I(1) [OF w(1)] st(1) w(2), of ?s] show ?thesis by simp
  qed
  show "deps_first key dag (out @ [node])"
    using deps_first_snoc [OF I(4)] walk_ok_top [OF I(1) [OF st(2)] st(1)] I(2) by blast
  have "key node \<notin> key ` set out" using I(2) [of "key node"] st(2) by simp
  then show "distinct (map key (out @ [node]))" using I(3) by simp
  show "state ?s k = Sorted \<longleftrightarrow> k \<in> key ` set (out @ [node])" for k using I(2) [of k] by auto
  show "R (key n)" if "n \<in> set (stack ?s)" for n using that I(5) [of n] st(1) by simp
  show "R k" if "state ?s k \<noteq> Unsorted" for k
    using that I(6) [of k] I(5) [of node] st(1) by (cases "k = key node") simp_all
qed

lemma push_all_Some:
  assumes "push_all key cs s = Some s'"
  obtains new where "stack s' = new @ stack s" "state s' = state s" "set new = {c \<in> set cs. state s (key c) = Unsorted}"
    "\<forall>c \<in> set cs. state s (key c) \<noteq> Walking"
proof -
  have nw: "\<not> (\<exists>c \<in> set cs. state s (key c) = Walking)" using assms unfolding push_all_spec by (auto split: if_split_asm)
  with assms have "s' = s\<lparr>stack := rev (filter (\<lambda>c. state s (key c) = Unsorted) cs) @ stack s\<rparr>"
    unfolding push_all_spec by simp
  with nw show ?thesis using that [of "rev (filter (\<lambda>c. state s (key c) = Unsorted) cs)"] by auto
qed

lemma inv_expand:
  assumes k: "key_ok key dag" and R: "R_closed key dag R"
    and inv: "loop_inv key dag R s out" and st: "stack s = node # rest" "state s (key node) = Unsorted"
    and p: "push_all key (dag node) (s\<lparr>state := (state s)(key node := Walking)\<rparr>) = Some s'"
  shows "loop_inv key dag R s' out"
proof -
  let ?f = "(state s)(key node := Walking)"
  obtain new where s': "stack s' = new @ stack s" "state s' = ?f" and new: "set new = {c \<in> set (dag node). ?f (key c) = Unsorted}"
    and nw: "\<forall>c \<in> set (dag node). ?f (key c) \<noteq> Walking"
    by (rule push_all_Some [OF p]) auto
  note I = loop_invD [OF inv]
  have e: "edge key dag (key node) c \<longleftrightarrow> c \<in> key ` set (dag node)" for c by (rule edge_iff [OF k])
  have en: "edge key dag (key node) c" if "c \<in> key ` set new" for c using that e new by auto
  have nn: "?f j = Unsorted" if "j \<in> key ` set new" for j using that new by blast
  show ?thesis
  proof (rule loop_invI)
    show "walk_ok key dag s' j" if "state s' j = Walking" for j
    proof (cases "j = key node")
      case True
      have "state s' c = Sorted \<or> c \<in> key ` set new" if ec: "edge key dag j c" for c
      proof -
        obtain d where d: "d \<in> set (dag node)" "c = key d" using ec True e by auto
        show ?thesis
        proof (cases "?f c")
          case Unsorted
          then show ?thesis using d new by blast
        next
          case Walking
          then show ?thesis using d nw by blast
        next
          case Sorted
          then show ?thesis by (simp add: s'(2))
        qed
      qed
      moreover have "j \<notin> key ` set new" using nn [of j] True by auto
      moreover have "\<forall>c \<in> key ` set new. (edge key dag)\<^sup>+\<^sup>+ j c" using True en by blast
      ultimately show ?thesis unfolding walk_ok_def using s'(1) st(1) True
        by (intro exI [of _ new] exI [of _ node] exI [of _ rest]) auto
    next
      case False
      then have w: "state s j = Walking" using that s'(2) by simp
      have "j \<notin> key ` set new" using nn [of j] w False by auto
      moreover have "state s' c = Sorted" if "state s c = Sorted" for c using that s'(2) st(2) by auto
      ultimately show ?thesis
        using walk_ok_push [OF I(1) [OF w] st(1) _ s'(1)] False en by blast
    qed
    show "R (key n)" if "n \<in> set (stack s')" for n
    proof -
      have "R (key node)" using I(5) st(1) by simp
      then have "R (key n)" if "n \<in> set (dag node)" using that R e unfolding R_closed_def by blast
      moreover have "n \<in> set (stack s) \<or> n \<in> set (dag node)" using that s'(1) new by auto
      ultimately show ?thesis using I(5) by blast
    qed
    show "state s' j = Sorted \<longleftrightarrow> j \<in> key ` set out" for j
      using I(2) [of j] I(2) [of "key node"] st(2) by (cases "j = key node") (simp_all add: s'(2))
    show "R j" if "state s' j \<noteq> Unsorted" for j
      using that I(6) [of j] I(5) [of node] st(1) by (cases "j = key node") (simp_all add: s'(2))
  qed (use I(3,4) in simp_all)
qed

lemma panic_cycle:
  assumes k: "key_ok key dag" and inv: "loop_inv key dag R s out" and st: "stack s = node # rest"
    and c: "c \<in> set (dag node)" "state (s\<lparr>state := (state s)(key node := Walking)\<rparr>) (key c) = Walking"
  shows "R (key c) \<and> (edge key dag)\<^sup>+\<^sup>+ (key c) (key c)"
proof -
  have e: "edge key dag (key node) (key c)" using c(1) edge_iff [OF k] by blast
  show ?thesis
  proof (cases "key c = key node")
    case True
    then show ?thesis using e inv st by (auto simp: loop_inv_def)
  next
    case False
    then have "state s (key c) = Walking" using c(2) by simp
    then have "walk_ok key dag s (key c)" "R (key c)" using inv by (auto simp: loop_inv_def)
    then obtain above n below where a: "stack s = above @ n # below" "key n = key c"
      "\<forall>j \<in> key ` set above. (edge key dag)\<^sup>+\<^sup>+ (key c) j" unfolding walk_ok_def by blast
    have "node \<in> set above" using a(1,2) st False by (cases above) auto
    then have "(edge key dag)\<^sup>+\<^sup>+ (key c) (key node)" using a(3) by blast
    then show ?thesis using e \<open>R (key c)\<close> by (auto intro: tranclp.trancl_into_trancl)
  qed
qed

section \<open>Termination\<close>

text \<open>A step marks a new key or shortens the stack.\<close>

definition todo :: "('k \<Rightarrow> bool) \<Rightarrow> ('n, 'k) sorter \<Rightarrow> nat" where
  "todo R s = card {k. R k \<and> state s k = Unsorted}"

definition result_ok :: "('n \<Rightarrow> 'k) \<Rightarrow> ('n \<Rightarrow> 'n list) \<Rightarrow> ('k \<Rightarrow> bool) \<Rightarrow> outcome \<Rightarrow> ('n, 'k) sorter \<Rightarrow> 'n list \<Rightarrow> bool" where
  "result_ok key dag R r s out \<longleftrightarrow>
     r = Finished \<and> stack s = [] \<and> loop_inv key dag R s out \<or>
     r = CyclePanic \<and> (\<exists>k. R k \<and> (edge key dag)\<^sup>+\<^sup>+ k k)"

lemma sort_loop_unfold:
  "stack s = [] \<Longrightarrow> sort_loop key dag yield s acc = Some (Finished, s, acc)"
  "stack s = node # rest \<Longrightarrow> state s (key node) = Sorted \<Longrightarrow>
     sort_loop key dag yield s acc = sort_loop key dag yield (s\<lparr>stack := rest\<rparr>) acc"
  "stack s = node # rest \<Longrightarrow> state s (key node) = Walking \<Longrightarrow> yield node acc = (True, acc') \<Longrightarrow>
     sort_loop key dag yield s acc =
       sort_loop key dag yield (s\<lparr>stack := rest, state := (state s)(key node := Sorted)\<rparr>) acc'"
  "stack s = node # rest \<Longrightarrow> state s (key node) = Unsorted \<Longrightarrow>
     sort_loop key dag yield s acc =
       (case push_all key (dag node) (s\<lparr>state := (state s)(key node := Walking)\<rparr>) of
          None \<Rightarrow> Some (CyclePanic, s, acc)
        | Some s' \<Rightarrow> sort_loop key dag yield s' acc)"
  by (subst sort_loop.simps, simp)+

lemma todo_decreases:
  assumes "finite {k. R k}" "R j" "state s j = Unsorted" "state s' = (state s)(j := Walking)"
  shows "todo R s' < todo R s"
  unfolding todo_def
proof (rule psubset_card_mono)
  show "finite {k. R k \<and> state s k = Unsorted}" using assms(1) by (rule rev_finite_subset) auto
  show "{k. R k \<and> state s' k = Unsorted} \<subset> {k. R k \<and> state s k = Unsorted}" using assms(2-4) by auto
qed

lemma sort_loop_total:
  fixes s :: "('n, 'k) sorter"
  assumes k: "key_ok key dag" and R: "R_closed key dag R" and fin: "finite {k. R k}"
    and inv: "loop_inv key dag R s out"
  shows "\<exists>r s' out'. sort_loop key dag collect_all s out = Some (r, s', out') \<and> result_ok key dag R r s' out' \<and>
    (r = Finished \<longrightarrow> key ` set (stack s) \<subseteq> key ` set out' \<and> set out \<subseteq> set out')"
  using inv
proof (induction s arbitrary: out rule: wf_induct [OF wf_measures [of "[todo R, \<lambda>s. length (stack s)]"]])
  case (1 s)
  have IH: "\<exists>r s' out'. sort_loop key dag collect_all t o1 = Some (r, s', out') \<and> result_ok key dag R r s' out' \<and>
      (r = Finished \<longrightarrow> key ` set (stack t) \<subseteq> key ` set out' \<and> set o1 \<subseteq> set out')"
    if "todo R t < todo R s \<or> todo R t = todo R s \<and> length (stack t) < length (stack s)" "loop_inv key dag R t o1" for t o1
    using 1(1) that by auto
  show ?case
  proof (cases "stack s")
    case Nil
    then show ?thesis unfolding sort_loop_unfold(1) [OF Nil] using 1(2) by (auto simp: result_ok_def)
  next
    case (Cons node rest)
    note top = loop_invD [OF 1(2)]
    show ?thesis
    proof (cases "state s (key node)")
      case Sorted
      let ?t = "s\<lparr>stack := rest\<rparr>"
      have "todo R ?t = todo R s" by (simp add: todo_def)
      then obtain r s' out' where r: "sort_loop key dag collect_all ?t out = Some (r, s', out')"
        "result_ok key dag R r s' out'" "r = Finished \<longrightarrow> key ` set rest \<subseteq> key ` set out' \<and> set out \<subseteq> set out'"
        using IH [OF _ inv_pop [OF 1(2) Cons Sorted]] Cons by auto
      have "key node \<in> key ` set out" using top(2) Sorted by blast
      then show ?thesis unfolding sort_loop_unfold(2) [of s node rest key, OF Cons Sorted] using r Cons by auto
    next
      case Walking
      let ?t = "s\<lparr>stack := rest, state := (state s)(key node := Sorted)\<rparr>"
      have "{k. R k \<and> state ?t k = Unsorted} = {k. R k \<and> state s k = Unsorted}" using Walking by auto
      then have "todo R ?t = todo R s" by (simp add: todo_def)
      then obtain r s' out' where r: "sort_loop key dag collect_all ?t (out @ [node]) = Some (r, s', out')"
        "result_ok key dag R r s' out'"
        "r = Finished \<longrightarrow> key ` set rest \<subseteq> key ` set out' \<and> set (out @ [node]) \<subseteq> set out'"
        using IH [OF _ inv_yield [OF 1(2) Cons Walking]] Cons by auto
      have y: "collect_all node out = (True, out @ [node])" by (simp add: collect_all_def)
      show ?thesis unfolding sort_loop_unfold(3) [of s node rest key collect_all out "out @ [node]", OF Cons Walking y] using r Cons by auto
    next
      case Unsorted
      let ?w = "s\<lparr>state := (state s)(key node := Walking)\<rparr>"
      show ?thesis
      proof (cases "push_all key (dag node) ?w")
        case None
        then obtain c where "c \<in> set (dag node)" "state ?w (key c) = Walking"
          unfolding push_all_spec by (metis option.distinct(1))
        from panic_cycle [OF k 1(2) Cons this] None show ?thesis
          unfolding sort_loop_unfold(4) [of s node rest key, OF Cons Unsorted] by (auto simp: result_ok_def)
      next
        case (Some t)
        obtain new where t: "stack t = new @ stack s" "state t = (state s)(key node := Walking)"
          by (rule push_all_Some [OF Some]) simp
        have "R (key node)" using top(5) Cons by simp
        from todo_decreases [OF fin this Unsorted t(2)] have "todo R t < todo R s" .
        then obtain r s' out' where r: "sort_loop key dag collect_all t out = Some (r, s', out')"
          "result_ok key dag R r s' out'" "r = Finished \<longrightarrow> key ` set (stack t) \<subseteq> key ` set out' \<and> set out \<subseteq> set out'"
          using IH [OF _ inv_expand [OF k R 1(2) Cons Unsorted Some]] by auto
        then show ?thesis unfolding sort_loop_unfold(4) [of s node rest key, OF Cons Unsorted] using Some t(1) by auto
      qed
    qed
  qed
qed

lemma sort_roots_total:
  assumes k: "key_ok key dag" and R: "R_closed key dag R" and fin: "finite {k. R k}"
    and "loop_inv key dag R s out" "stack s = []" "\<forall>r \<in> set roots. R (key r)"
  shows "\<exists>r s' out'. sort_roots key dag collect_all roots s out = Some (r, s', out') \<and> result_ok key dag R r s' out' \<and>
    (r = Finished \<longrightarrow> key ` set roots \<subseteq> key ` set out' \<and> set out \<subseteq> set out')"
  using assms(4-6)
proof (induction roots arbitrary: s out)
  case Nil
  then show ?case by (simp add: result_ok_def)
next
  case (Cons n roots)
  have no_walk: "state s j \<noteq> Walking" for j
  proof
    assume "state s j = Walking"
    from loop_invD(1) [OF Cons.prems(1) this] Cons.prems(2) show False by (simp add: walk_ok_def)
  qed
  obtain t where push: "push key n s = Some t" and tst: "state t = state s" "set (stack t) \<subseteq> {n}"
    and on: "state s (key n) = Unsorted \<Longrightarrow> n \<in> set (stack t)"
  proof (cases "state s (key n)")
    case Unsorted
    then show ?thesis using that [of "s\<lparr>stack := n # stack s\<rparr>"] Cons.prems(2) by (simp add: push_def)
  next
    case Walking
    then show ?thesis using no_walk by blast
  next
    case Sorted
    then show ?thesis using that [of s] Cons.prems(2) by (simp add: push_def)
  qed
  note I = loop_invD [OF Cons.prems(1)]
  have "loop_inv key dag R t out"
  proof (rule loop_invI)
    show "walk_ok key dag t j" if "state t j = Walking" for j using that no_walk unfolding tst(1) by blast
    show "R (key m)" if "m \<in> set (stack t)" for m using that tst(2) Cons.prems(3) by auto
    show "R j" if "state t j \<noteq> Unsorted" for j using that I(6) unfolding tst(1) by blast
    show "state t j = Sorted \<longleftrightarrow> j \<in> key ` set out" for j using I(2) unfolding tst(1) by blast
  qed (rule I(3), rule I(4))
  from sort_loop_total [OF k R fin this] obtain r s' out'
    where r: "sort_loop key dag collect_all t out = Some (r, s', out')" "result_ok key dag R r s' out'"
      "r = Finished \<longrightarrow> key ` set (stack t) \<subseteq> key ` set out' \<and> set out \<subseteq> set out'" by blast
  show ?case
  proof (cases "r = Finished")
    case True
    with r(2) have f: "stack s' = []" "loop_inv key dag R s' out'" unfolding result_ok_def by blast+
    have "\<forall>r \<in> set roots. R (key r)" using Cons.prems(3) by simp
    from Cons.IH [OF f(2,1) this] obtain r2 s2 out2
      where r2: "sort_roots key dag collect_all roots s' out' = Some (r2, s2, out2)" "result_ok key dag R r2 s2 out2"
        "r2 = Finished \<longrightarrow> key ` set roots \<subseteq> key ` set out2 \<and> set out' \<subseteq> set out2" by blast
    have root: "key n \<in> key ` set out'"
    proof (cases "state s (key n)")
      case Unsorted
      then show ?thesis using r(3) True on by blast
    next
      case Walking
      then show ?thesis using no_walk by blast
    next
      case Sorted
      then have "key n \<in> key ` set out" using I(2) [of "key n"] by simp
      then show ?thesis using image_mono [of "set out" "set out'" key] r(3) True by auto
    qed
    have "sort_roots key dag collect_all (n # roots) s out = Some (r2, s2, out2)"
      using push r(1) True r2(1) by simp
    moreover have "key ` set (n # roots) \<subseteq> key ` set out2 \<and> set out \<subseteq> set out2" if "r2 = Finished"
      using r2(3) that root r(3) True by auto
    ultimately show ?thesis using r2(2) by (intro exI [of _ r2] exI [of _ s2] exI [of _ out2]) simp
  next
    case False
    with r(2) have "r = CyclePanic" by (simp add: result_ok_def)
    with push r(1) have run: "sort_roots key dag collect_all (n # roots) s out = Some (r, s', out')" by simp
    show ?thesis using run r(2) False by (intro exI [of _ r] exI [of _ s'] exI [of _ out'] conjI) auto
  qed
qed

section \<open>Properties\<close>

text \<open>C12: on a finite graph the sort always returns. It panics exactly when a cycle can be reached
  from the roots; otherwise it yields every reachable key once, each node after all the nodes it
  points to. In either case the sorter is left as new.\<close>

theorem Sort_topological:
  assumes "key_ok key dag" "finite {k. reachable key dag roots k}"
  shows "\<exists>r out. Sort key dag collect_all roots [] = Some (r, new_sorter, out) \<and>
    (if \<exists>k. reachable key dag roots k \<and> (edge key dag)\<^sup>+\<^sup>+ k k then r = CyclePanic
     else r = Finished \<and> distinct (map key out) \<and> deps_first key dag out \<and>
       key ` set out = {k. reachable key dag roots k})"
proof -
  let ?R = "reachable key dag roots" and ?s = "new_sorter\<lparr>iterating := True\<rparr>"
  have cl: "R_closed key dag ?R" unfolding R_closed_def reachable_def by (meson rtranclp.rtrancl_into_rtrancl)
  have inv: "loop_inv key dag ?R ?s []" by (simp add: loop_inv_def new_sorter_def deps_first_def)
  have roots: "\<forall>r \<in> set roots. ?R (key r)" by (auto simp: reachable_def)
  have "stack ?s = []" by (simp add: new_sorter_def)
  from sort_roots_total [OF assms(1) cl assms(2) inv this roots] obtain r s' out
    where r: "sort_roots key dag collect_all roots ?s [] = Some (r, s', out)" "result_ok key dag ?R r s' out"
      "r = Finished \<longrightarrow> key ` set roots \<subseteq> key ` set out" by auto
  have run: "Sort key dag collect_all roots [] = Some (r, new_sorter, out)"
    using r(1) by (simp add: Sort_def Sorter_Sort_def new_sorter_def cleanup_def)
  show ?thesis
  proof (cases "r = Finished")
    case True
    with r(2) have inv': "loop_inv key dag ?R s' out" by (simp add: result_ok_def)
    note I = loop_invD [OF inv']
    have closed: "c \<in> key ` set out" if kc: "k \<in> key ` set out" "edge key dag k c" for k c
    proof -
      obtain i where "i < length out" "key (out ! i) = k" using kc(1) by (auto simp: in_set_conv_nth)
      then obtain j where "j < i" "key (out ! j) = c" using I(4) kc(2) by (auto simp: deps_first_def)
      then show ?thesis using \<open>i < length out\<close> by (auto intro!: image_eqI [of c key "out ! j"])
    qed
    have all: "k \<in> key ` set out" if rk: "?R k" for k
    proof -
      obtain n where n: "n \<in> set roots" "(edge key dag)\<^sup>*\<^sup>* (key n) k" using rk by (auto simp: reachable_def)
      from n(2) show ?thesis by induction (use n(1) r(3) True closed in blast)+
    qed
    have sub: "?R k" if "k \<in> key ` set out" for k using I(2,6) that by (metis mark.distinct(3))
    have index: "\<exists>j < i. key (out ! j) = c" if il: "i < length out" "(edge key dag)\<^sup>+\<^sup>+ (key (out ! i)) c" for i c
      using il(2)
    proof (induction rule: tranclp_induct)
      case (base y)
      then show ?case using I(4) il(1) by (auto simp: deps_first_def)
    next
      case (step y z)
      then obtain j where "j < i" "key (out ! j) = y" by blast
      moreover have "j < length out" using il(1) \<open>j < i\<close> by simp
      ultimately obtain l where "l < j" "key (out ! l) = z" using step(2) I(4) unfolding deps_first_def by blast
      then show ?case using less_trans [OF \<open>l < j\<close> \<open>j < i\<close>] by blast
    qed
    have "\<not> (edge key dag)\<^sup>+\<^sup>+ k k" if rk: "?R k" for k
    proof
      assume c: "(edge key dag)\<^sup>+\<^sup>+ k k"
      obtain i where i: "i < length out" "key (out ! i) = k" using all [OF rk] by (auto simp: in_set_conv_nth)
      then obtain j where "j < i" "key (out ! j) = k" using index [OF i(1)] c by auto
      then show False using I(3) i by (auto simp: distinct_conv_nth)
    qed
    then show ?thesis using run True I(3,4) all sub by auto
  next
    case False
    with r(2) run show ?thesis by (auto simp: result_ok_def)
  qed
qed

section \<open>Witness\<close>

definition demo_dag :: "nat \<Rightarrow> nat list" where
  "demo_dag n = (if n = 1 then [2, 3] else if n = 2 then [3] else [])"

theorem Sort_topological_witness:
  "\<exists>out. Sort (\<lambda>n. n) demo_dag collect_all [1] [] = Some (Finished, new_sorter, out) \<and>
     distinct out \<and> deps_first (\<lambda>n. n) demo_dag out"
proof -
  have e: "edge (\<lambda>n. n) demo_dag a b \<longleftrightarrow> (a = 1 \<and> (b = 2 \<or> b = 3)) \<or> (a = 2 \<and> b = 3)" for a b
    by (auto simp: edge_def demo_dag_def)
  have k: "key_ok (\<lambda>n. n) demo_dag" by (simp add: key_ok_def)
  have less: "(edge (\<lambda>n. n) demo_dag)\<^sup>+\<^sup>+ a b \<Longrightarrow> a < b \<and> b \<le> 3" for a b
    by (induction rule: tranclp_induct) (auto simp: e)
  have "{k. reachable (\<lambda>n. n) demo_dag [1] k} \<subseteq> {..3}"
    using less by (auto simp: reachable_def dest!: rtranclpD)
  then have fin: "finite {k. reachable (\<lambda>n. n) demo_dag [1] k}" by (rule finite_subset) simp
  have acyc: "\<not> (edge (\<lambda>n. n) demo_dag)\<^sup>+\<^sup>+ a a" for a using less by blast
  from Sort_topological [OF k fin] acyc show ?thesis by auto
qed

end
