(* ===== verification/Queue.thy ===== *)
theory Queue
  imports Bits "HOL-Library.Monad_Syntax"
begin

text \<open>
  The ring buffer of \<open>internal/ext/slicesx/queue.go\<close>, a double-ended queue.

  The buffer's length is zero or a power of two, and one slot is always kept free. Go's zero value of the
  element type is the parameter \<open>z\<close>: it fills new buffers and the slots of popped elements. Slicing or
  allocating out of range panics, which is \<open>None\<close>; the invariant shows that this does not happen.
\<close>

record 'e queue =
  buf :: "'e list"
  qstart :: nat
  qend :: nat

text \<open>\<open>make([]E, n)\<close>, and \<open>copy\<close> into \<open>b[i:]\<close> and \<open>b[i:j]\<close>.\<close>

definition make :: "'e \<Rightarrow> int \<Rightarrow> 'e list option" where
  "make z n = (if n < 0 then None else Some (replicate (nat n) z))"

definition copy_from :: "nat \<Rightarrow> 'e list \<Rightarrow> 'e list \<Rightarrow> 'e list option" where
  "copy_from i b src =
     (if length b < i then None
      else Some (take i b @ take (length b - i) src @ drop (i + length src) b))"

definition copy_range :: "nat \<Rightarrow> nat \<Rightarrow> 'e list \<Rightarrow> 'e list \<Rightarrow> 'e list option" where
  "copy_range i j b src =
     (if j < i \<or> length b < j then None
      else Some (take i b @ take (j - i) src @ drop (i + min (j - i) (length src)) b))"

definition bufLen :: "int \<Rightarrow> int" where
  "bufLen n = sint (MakePowerOfTwo (word_of_int n))"

definition NewQueue :: "'e \<Rightarrow> int \<Rightarrow> 'e queue option" where
  "NewQueue z capacity =
     (if capacity = 0 then Some \<lparr>buf = [], qstart = 0, qend = 0\<rparr>
      else do { b \<leftarrow> make z (bufLen (capacity + 1)); Some \<lparr>buf = b, qstart = 0, qend = 0\<rparr> })"

definition queue_Len :: "'e queue \<Rightarrow> nat" where
  "queue_Len r = (if qend r < qstart r then length (buf r) - qstart r + qend r else qend r - qstart r)"

definition queue_Cap :: "'e queue \<Rightarrow> nat" where
  "queue_Cap r = (if buf r = [] then 0 else length (buf r) - 1)"

definition Values :: "'e queue \<Rightarrow> 'e list" where
  "Values r =
     (if qstart r \<le> qend r then take (qend r - qstart r) (drop (qstart r) (buf r))
      else drop (qstart r) (buf r) @ take (qend r) (buf r))"

definition resize :: "'e \<Rightarrow> int \<Rightarrow> 'e queue \<Rightarrow> 'e queue option" where
  "resize z n r = do {
     b \<leftarrow> make z n;
     (if qend r < qstart r then do {
        b1 \<leftarrow> copy_from 0 b (drop (qstart r) (buf r));
        let count = min (length b) (length (buf r) - qstart r);
        b2 \<leftarrow> copy_from count b1 (take (qend r) (buf r));
        Some \<lparr>buf = b2, qstart = 0, qend = count + min (length b1 - count) (qend r)\<rparr>
      }
      else do {
        b1 \<leftarrow> copy_from 0 b (take (qend r - qstart r) (drop (qstart r) (buf r)));
        Some \<lparr>buf = b1, qstart = 0, qend = min (length b) (qend r - qstart r)\<rparr>
      })
   }"

definition Reserve :: "'e \<Rightarrow> nat \<Rightarrow> 'e queue \<Rightarrow> 'e queue option" where
  "Reserve z n r =
     (if queue_Len r + n \<le> queue_Cap r then Some r
      else resize z (bufLen (int (queue_Len r + n) + 1)) r)"

text \<open>\<open>i & (len(r.buf) - 1)\<close>\<close>

definition wrap_index :: "'e queue \<Rightarrow> int \<Rightarrow> nat" where
  "wrap_index r i = nat (i AND (int (length (buf r)) - 1))"

definition Front :: "'e queue \<Rightarrow> 'e option" where
  "Front r = (if qstart r = qend r then None else Some (buf r ! qstart r))"

definition Back :: "'e queue \<Rightarrow> 'e option" where
  "Back r = (if qstart r = qend r then None else Some (buf r ! wrap_index r (int (qend r) - 1)))"

definition PushFront :: "'e \<Rightarrow> 'e list \<Rightarrow> 'e queue \<Rightarrow> 'e queue option" where
  "PushFront z v r = do {
     r \<leftarrow> Reserve z (length v) r;
     let fin = qstart r;
     let start = int fin - int (length v);
     let s = wrap_index r start;
     b \<leftarrow> (if start < int s then do {
             b1 \<leftarrow> copy_from s (buf r) v;
             copy_from 0 b1 (drop (min (length (buf r) - s) (length v)) v)
           }
           else copy_range s fin (buf r) v);
     Some (r\<lparr>buf := b, qstart := s\<rparr>)
   }"

definition PushBack :: "'e \<Rightarrow> 'e list \<Rightarrow> 'e queue \<Rightarrow> 'e queue option" where
  "PushBack z v r = do {
     r \<leftarrow> Reserve z (length v) r;
     let start = qend r;
     let fin = start + length v;
     let e = wrap_index r (int fin);
     b \<leftarrow> (if e < fin then do {
             b1 \<leftarrow> copy_from start (buf r) v;
             copy_from 0 b1 (drop (min (length (buf r) - start) (length v)) v)
           }
           else copy_range start e (buf r) v);
     Some (r\<lparr>buf := b, qend := e\<rparr>)
   }"

text \<open>\<open>Take\<close> replaces the element by the zero value; out of range it returns the zero value and \<open>false\<close>.
  A pair of a value and \<open>true\<close> that an operation of the queue returns is \<open>Some\<close>.\<close>

definition Take :: "'e \<Rightarrow> 'e list \<Rightarrow> nat \<Rightarrow> ('e \<times> bool) \<times> 'e list" where
  "Take z b i = (if i < length b then ((b ! i, True), b[i := z]) else ((z, False), b))"

definition PopFront :: "'e \<Rightarrow> 'e queue \<Rightarrow> 'e option \<times> 'e queue" where
  "PopFront z r =
     (if qstart r = qend r then (None, r)
      else let ((v, _), b) = Take z (buf r) (qstart r);
               r = r\<lparr>buf := b\<rparr>
           in (Some v, r\<lparr>qstart := wrap_index r (int (qstart r) + 1)\<rparr>))"

definition PopBack :: "'e \<Rightarrow> 'e queue \<Rightarrow> 'e option \<times> 'e queue" where
  "PopBack z r =
     (if qstart r = qend r then (None, r)
      else let e = wrap_index r (int (qend r) - 1);
               ((v, ok), b) = Take z (buf r) e
           in (if ok then Some v else None, r\<lparr>buf := b, qend := e\<rparr>))"

definition Clear :: "'e queue \<Rightarrow> 'e queue" where
  "Clear r = \<lparr>buf = [], qstart = 0, qend = 0\<rparr>"

section \<open>Invariant\<close>

definition queue_inv :: "'e queue \<Rightarrow> bool" where
  "queue_inv r \<longleftrightarrow>
     (if buf r = [] then qstart r = 0 \<and> qend r = 0
      else (\<exists>k. length (buf r) = 2 ^ k) \<and> qstart r < length (buf r) \<and> qend r < length (buf r))"

lemma length_Values: "queue_inv r \<Longrightarrow> length (Values r) = queue_Len r"
  by (auto simp: queue_inv_def Values_def queue_Len_def split: if_splits)

lemma Len_le_Cap: "queue_inv r \<Longrightarrow> queue_Len r \<le> queue_Cap r"
  by (auto simp: queue_inv_def queue_Len_def queue_Cap_def split: if_splits)

text \<open>The lengths the ring asks for: the least power of two that is large enough.\<close>

lemma unat_exp64: "k < 64 \<Longrightarrow> unat (2 ^ k :: go_uint) = 2 ^ k"
proof -
  assume k: "k < 64"
  have "(2 :: nat) ^ k < 2 ^ 64" using k by (intro power_strict_increasing) auto
  moreover have "(2 ^ k :: go_uint) = word_of_nat (2 ^ k)" by simp
  ultimately show ?thesis using uint_of_nat_less [of "2 ^ k", where ?'a = 64] by simp
qed

lemma sint_small64:
  assumes "unat (x :: go_uint) < 2 ^ 63"
  shows "sint x = int (unat x)"
proof -
  have "int (unat x) < int (2 ^ 63)" using assms by (simp only: of_nat_less_iff)
  then have "(uint x + 2 ^ 63) mod 2 ^ 64 = uint x + 2 ^ 63"
    by (intro mod_pos_pos_trivial) simp_all
  then show ?thesis using sint_word_of_int64 [of "uint x"] by simp
qed

lemma bufLen_bound:
  assumes "0 < n" "n \<le> 2 ^ 61"
  shows "\<exists>k. bufLen n = 2 ^ k \<and> n \<le> 2 ^ k"
proof -
  let ?w = "word_of_int n :: go_uint"
  have u: "unat ?w = nat n" using assms by (simp add: unat_eq_nat_uint unsigned_of_int take_bit_int_eq_self)
  then have pos: "0 < unat ?w" and small: "unat ?w \<le> 2 ^ 61" using assms by (simp_all add: nat_le_iff)
  have "\<exists>k. unat (MakePowerOfTwo ?w) = 2 ^ k \<and> unat ?w \<le> 2 ^ k \<and> k \<le> 62"
  proof (cases "IsPowerOfTwo ?w")
    case True
    then obtain k where k: "k < 64" "?w = 2 ^ k" by (auto simp: IsPowerOfTwo_iff)
    have e: "unat ?w = 2 ^ k" using unat_exp64 [OF k(1)] k(2) by simp
    then have "k \<le> 61" using small power_increasing_iff [of "2 :: nat" k 61] by simp
    then show ?thesis using True e by (intro exI [of _ k]) (simp add: MakePowerOfTwo_def)
  next
    case False
    obtain k where k: "2 ^ k \<le> unat ?w" "unat ?w < 2 ^ Suc k" using ex_power_ivl1 [of 2 "unat ?w"] pos by auto
    have "(2 :: nat) ^ k \<le> 2 ^ 61" using k(1) small by linarith
    then have k61: "k \<le> 61" using power_increasing_iff [of "2 :: nat" k 61] by simp
    then have "(2 :: nat) ^ Suc k < 2 ^ 64" by (intro power_strict_increasing) auto
    then have "unat (NextPowerOfTwo ?w) = 2 ^ Suc k" using unat_NextPowerOfTwo [OF k] by simp
    then show ?thesis using False k k61 by (intro exI [of _ "Suc k"]) (simp add: MakePowerOfTwo_def)
  qed
  then obtain k where k: "unat (MakePowerOfTwo ?w) = 2 ^ k" "unat ?w \<le> 2 ^ k" "k \<le> 62" by blast
  have "(2 :: nat) ^ k < 2 ^ 63" using k(3) by (intro power_strict_increasing) auto
  then have "bufLen n = 2 ^ k" unfolding bufLen_def using sint_small64 [of "MakePowerOfTwo ?w"] k(1) by simp
  moreover have "n \<le> 2 ^ k" using k(2) u assms(1) by (simp add: nat_le_iff)
  ultimately show ?thesis by blast
qed

lemma mask_and: "(i :: int) AND (2 ^ k - 1) = i mod 2 ^ k"
  using take_bit_eq_mask [of k i] by (simp add: take_bit_eq_mod mask_eq_exp_minus_1)

lemma wrap_index_mod:
  assumes "queue_inv r" "buf r \<noteq> []"
  shows "int (wrap_index r i) = i mod int (length (buf r))"
proof -
  obtain k where k: "length (buf r) = 2 ^ k" using assms by (auto simp: queue_inv_def)
  then have "int (length (buf r)) = 2 ^ k" by simp
  then show ?thesis using mask_and [of i k] by (simp add: wrap_index_def)
qed

section \<open>Growing\<close>

lemma resize_spec:
  assumes "queue_inv r" "n = 2 ^ k" "int (queue_Len r) < n"
  shows "\<exists>r'. resize z n r = Some r' \<and> queue_inv r' \<and> Values r' = Values r \<and> length (buf r') = 2 ^ k"
proof -
  have len: "queue_Len r < 2 ^ k" using assms(2,3) by (metis of_nat_less_numeral_power_cancel_iff)
  let ?b = "replicate (2 ^ k) z"
  have m: "make z n = Some ?b" using assms(2) by (simp add: make_def nat_power_eq)
  show ?thesis
  proof (cases "qend r < qstart r")
    case True
    then have q: "length (buf r) - qstart r + qend r < 2 ^ k" "qstart r < length (buf r)"
      using len assms(1) by (auto simp: queue_Len_def queue_inv_def split: if_splits)
    show ?thesis using True m q by (simp add: resize_def copy_from_def queue_inv_def Values_def)
  next
    case False
    then have q: "qend r - qstart r < 2 ^ k" "qend r \<le> length (buf r)"
      using len assms(1) by (auto simp: queue_Len_def queue_inv_def split: if_splits)
    have "\<not> 2 ^ k + qstart r \<le> qend r" using q(1) by arith
    then show ?thesis using False m q by (simp add: resize_def copy_from_def queue_inv_def Values_def)
  qed
qed

text \<open>\<open>Reserve\<close> makes room and changes nothing else; the bound keeps the buffer's length an \<open>int\<close>.\<close>

lemma Reserve_spec:
  assumes "queue_inv r" "queue_Len r + n < 2 ^ 61"
  shows "\<exists>r'. Reserve z n r = Some r' \<and> queue_inv r' \<and> Values r' = Values r \<and> queue_Len r + n \<le> queue_Cap r'"
proof (cases "queue_Len r + n \<le> queue_Cap r")
  case True
  then show ?thesis using assms by (simp add: Reserve_def)
next
  case False
  let ?m = "int (queue_Len r + n) + 1"
  have "int (queue_Len r + n + 1) \<le> int (2 ^ 61)" using assms(2) by (simp only: of_nat_le_iff)
  then have "?m \<le> 2 ^ 61" by simp
  then obtain k where k: "bufLen ?m = 2 ^ k" "?m \<le> 2 ^ k" using bufLen_bound [of ?m] by auto
  then have "int (queue_Len r) < bufLen ?m" by linarith
  from resize_spec [OF assms(1) k(1) this] obtain r' where
    r': "resize z (bufLen ?m) r = Some r'" "queue_inv r'" "Values r' = Values r" "length (buf r') = 2 ^ k" by blast
  have "queue_Len r + n < 2 ^ k" using k(2) by (metis add.commute of_nat_Suc of_nat_le_numeral_power_cancel_iff plus_1_eq_Suc Suc_le_eq)
  then show ?thesis using r' False by (auto simp: Reserve_def queue_Cap_def)
qed

section \<open>Pushing and popping\<close>

lemma mod_once: "n \<le> a \<Longrightarrow> a < 2 * n \<Longrightarrow> a mod n = a - (n :: nat)"
  by (simp add: mod_if)

lemma wrap_index_nat:
  assumes "queue_inv r" "buf r \<noteq> []"
  shows "wrap_index r (int a) = a mod length (buf r)"
  using wrap_index_mod [OF assms, of "int a"] by (simp flip: of_nat_mod)

lemma wrap_index_neg:
  assumes "queue_inv r" "buf r \<noteq> []" "a \<le> length (buf r)" "a \<noteq> 0"
  shows "wrap_index r (- int a) = length (buf r) - a"
proof -
  have "- int a mod int (length (buf r)) = (int (length (buf r)) - int a) mod int (length (buf r))" by simp
  also have "\<dots> = int (length (buf r)) - int a" by (rule mod_pos_pos_trivial) (use assms in auto)
  also have "\<dots> = int (length (buf r) - a)" using assms by (simp add: of_nat_diff)
  finally show ?thesis using wrap_index_mod [OF assms(1,2), of "- int a"] by simp
qed

text \<open>The two copies of a push that wraps around.\<close>

lemma copy_around:
  assumes "i < length b" "length b \<le> i + length v" "length v \<le> length b"
  shows "Option.bind (copy_from i b v) (\<lambda>b1. copy_from 0 b1 (drop (min (length b - i) (length v)) v)) =
      Some (drop (length b - i) v @ drop (i + length v - length b) (take i b) @ take (length b - i) v)"
proof -
  have b1: "copy_from i b v = Some (take i b @ take (length b - i) v)" using assms by (simp add: copy_from_def)
  have m: "min (length b - i) (length v) = length b - i" using assms by simp
  have "length v - (length b - i) = i + length v - length b" using assms by simp
  then show ?thesis using assms unfolding b1 m by (simp add: copy_from_def)
qed

lemma PushBack_room:
  assumes inv: "queue_inv r" and room: "queue_Len r + length v \<le> queue_Cap r" and R: "Reserve z (length v) r0 = Some r"
  shows "\<exists>r'. PushBack z v r0 = Some r' \<and> queue_inv r' \<and> Values r' = Values r @ v"
proof (cases "buf r = []")
  case True
  then have "v = []" "qstart r = 0" "qend r = 0" using inv room by (auto simp: queue_inv_def queue_Cap_def)
  then show ?thesis using True R inv by (simp add: PushBack_def copy_range_def wrap_index_def Let_def Values_def queue_inv_def)
next
  case False
  let ?n = "length (buf r)" and ?e = "qend r" and ?s = "qstart r"
  have p: "\<exists>k. ?n = 2 ^ k" "?s < ?n" "?e < ?n" using inv False by (auto simp: queue_inv_def)
  have cap: "queue_Len r + length v < ?n" using room False p by (simp add: queue_Cap_def)
  note W = wrap_index_nat [OF inv False, of "?e + length v"]
  show ?thesis
  proof (cases "?e + length v < ?n")
    case True
    then have w: "wrap_index r (int (?e + length v)) = ?e + length v" using W by simp
    let ?r = "r\<lparr>buf := take ?e (buf r) @ v @ drop (?e + length v) (buf r), qend := ?e + length v\<rparr>"
    have "PushBack z v r0 = Some ?r" using R w True by (simp add: PushBack_def copy_range_def Let_def)
    moreover have "queue_inv ?r" using p True by (auto simp: queue_inv_def)
    moreover have "Values ?r = Values r @ v"
      using True p cap by (cases "?s \<le> ?e") (auto simp: Values_def queue_Len_def drop_take)
    ultimately show ?thesis by blast
  next
    case wraps: False
    have v: "length v \<le> ?n" using cap by simp
    have w: "wrap_index r (int (?e + length v)) = ?e + length v - ?n" using W wraps cap p by (simp add: mod_once)
    have se: "?s \<le> ?e" "?e + length v - ?n < ?s" using wraps cap p by (auto simp: queue_Len_def split: if_splits)
    let ?b = "drop (?n - ?e) v @ drop (?e + length v - ?n) (take ?e (buf r)) @ take (?n - ?e) v"
    let ?r = "r\<lparr>buf := ?b, qend := ?e + length v - ?n\<rparr>"
    have c: "Option.bind (copy_from ?e (buf r) v) (\<lambda>b1. copy_from 0 b1 (drop (min (?n - ?e) (length v)) v)) = Some ?b"
      by (rule copy_around) (use p wraps v in auto)
    have lt: "?e + length v - ?n < ?e + length v" using wraps p by linarith
    have "PushBack z v r0 = Some ?r" unfolding PushBack_def R Let_def Option.bind.bind_lunit w if_P [OF lt] c ..
    moreover have l: "length ?b = ?n" using p wraps v by simp
    then have "queue_inv ?r" using p se by (auto simp: queue_inv_def)
    moreover have "Values ?r = Values r @ v"
    proof -
      have "Values ?r = drop ?s ?b @ take (?e + length v - ?n) ?b" using se by (simp add: Values_def)
      also have "drop ?s ?b = take (?e - ?s) (drop ?s (buf r)) @ take (?n - ?e) v"
        using se p wraps v by (simp add: drop_take)
      also have "take (?e + length v - ?n) ?b = drop (?n - ?e) v" using se p wraps v by simp
      finally show ?thesis using se by (simp add: Values_def)
    qed
    ultimately show ?thesis by blast
  qed
qed


lemma PushFront_room:
  assumes inv: "queue_inv r" and room: "queue_Len r + length v \<le> queue_Cap r" and R: "Reserve z (length v) r0 = Some r"
  shows "\<exists>r'. PushFront z v r0 = Some r' \<and> queue_inv r' \<and> Values r' = v @ Values r"
proof (cases "buf r = []")
  case True
  then have "v = []" "qstart r = 0" "qend r = 0" using inv room by (auto simp: queue_inv_def queue_Cap_def)
  then show ?thesis using True R inv by (simp add: PushFront_def copy_range_def wrap_index_def Let_def Values_def queue_inv_def)
next
  case False
  let ?n = "length (buf r)" and ?e = "qend r" and ?s = "qstart r"
  have p: "\<exists>k. ?n = 2 ^ k" "?s < ?n" "?e < ?n" using inv False by (auto simp: queue_inv_def)
  have cap: "queue_Len r + length v < ?n" using room False p by (simp add: queue_Cap_def)
  show ?thesis
  proof (cases "length v \<le> ?s")
    case True
    then have i: "int ?s - int (length v) = int (?s - length v)" by (simp add: of_nat_diff)
    have w: "wrap_index r (int ?s - int (length v)) = ?s - length v"
      unfolding i using wrap_index_nat [OF inv False, of "?s - length v"] p by simp
    let ?b = "take (?s - length v) (buf r) @ v @ drop ?s (buf r)"
    let ?r = "r\<lparr>buf := ?b, qstart := ?s - length v\<rparr>"
    have c: "copy_range (?s - length v) ?s (buf r) v = Some ?b" using True p by (simp add: copy_range_def)
    have ni: "\<not> int ?s - int (length v) < int (?s - length v)" unfolding i by (rule less_irrefl)
    have "PushFront z v r0 = Some ?r" unfolding PushFront_def R Let_def Option.bind.bind_lunit w if_not_P [OF ni] c ..
    moreover have "queue_inv ?r" using p True by (auto simp: queue_inv_def)
    moreover have "Values ?r = v @ Values r"
    proof (cases "?s \<le> ?e")
      case le: True
      have "?e - (?s - length v) = length v + (?e - ?s)" "?s - length v \<le> ?e" using le True by linarith+
      then show ?thesis using le True p by (simp add: Values_def)
    next
      case gt: False
      then have "?e < ?s - length v" using cap p by (simp add: queue_Len_def)
      then show ?thesis using gt True p by (simp add: Values_def)
    qed
    ultimately show ?thesis by blast
  next
    case wraps: False
    let ?t = "length v - ?s"
    have i: "int ?s - int (length v) = - int ?t" using wraps by (simp add: of_nat_diff)
    have t: "?t \<noteq> 0" "?t \<le> ?n" "length v \<le> ?n" using wraps cap by auto
    have w: "wrap_index r (int ?s - int (length v)) = ?n - ?t" unfolding i by (rule wrap_index_neg [OF inv False t(2,1)])
    have se: "?s \<le> ?e" "?e < ?n - ?t" using wraps cap p by (auto simp: queue_Len_def split: if_splits)
    let ?b = "drop ?t v @ drop ?s (take (?n - ?t) (buf r)) @ take ?t v"
    let ?r = "r\<lparr>buf := ?b, qstart := ?n - ?t\<rparr>"
    have nt: "?n - (?n - ?t) = ?t" "?n - ?t + length v - ?n = ?s" using t wraps by auto
    have c: "Option.bind (copy_from (?n - ?t) (buf r) v) (\<lambda>b1. copy_from 0 b1 (drop (min (?n - (?n - ?t)) (length v)) v)) = Some ?b"
      using copy_around [of "?n - ?t" "buf r" v] t p wraps nt by simp
    have lt: "int ?s - int (length v) < int (?n - ?t)" using wraps p t by linarith
    have "PushFront z v r0 = Some ?r" unfolding PushFront_def R Let_def Option.bind.bind_lunit w if_P [OF lt] c ..
    moreover have l: "length ?b = ?n" using p wraps t by simp
    then have "queue_inv ?r" using p t by (auto simp: queue_inv_def)
    moreover have "Values ?r = v @ Values r"
    proof -
      have "Values ?r = drop (?n - ?t) ?b @ take ?e ?b" using se by (simp add: Values_def)
      also have "drop (?n - ?t) ?b = take ?t v" using l wraps t p by simp
      also have "take ?e ?b = drop ?t v @ take (?e - ?s) (drop ?s (buf r))"
      proof -
        have l1: "length (drop ?t v) = ?s" using wraps by simp
        have l2: "length (take (?n - ?t - ?s) (drop ?s (buf r))) = ?n - ?t - ?s" using t se by simp
        have m: "min (?e - ?s) (?n - ?t - ?s) = ?e - ?s" "?e - ?s - (?n - ?t - ?s) = 0" using se by linarith+
        show ?thesis unfolding take_append drop_take l1 l2 take_take m using se l1 by simp
      qed
      finally show ?thesis using se by (simp add: Values_def)
    qed
    ultimately show ?thesis by blast
  qed
qed

lemma Values_empty: "queue_inv r \<Longrightarrow> Values r = [] \<longleftrightarrow> qstart r = qend r"
  by (auto simp: Values_def queue_inv_def split: if_splits)

lemma PopFront_spec:
  assumes inv: "queue_inv r" and P: "PopFront z r = (x, r')"
  shows "queue_inv r' \<and> Values r' = tl (Values r) \<and> x = (if Values r = [] then None else Some (hd (Values r)))"
proof (cases "qstart r = qend r")
  case True
  then show ?thesis using inv P Values_empty [OF inv] by (simp add: PopFront_def)
next
  case False
  let ?n = "length (buf r)" and ?s = "qstart r" and ?e = "qend r"
  have ne: "buf r \<noteq> []" and p: "\<exists>k. ?n = 2 ^ k" "?s < ?n" "?e < ?n" using inv False by (auto simp: queue_inv_def split: if_splits)
  let ?r = "r\<lparr>buf := (buf r)[?s := z]\<rparr>"
  have i: "queue_inv ?r" "buf ?r \<noteq> []" using inv ne by (auto simp: queue_inv_def)
  have w: "wrap_index ?r (int ?s + 1) = (?s + 1) mod ?n" using wrap_index_nat [OF i, of "?s + 1"] by (simp add: add.commute)
  have P': "x = Some (buf r ! ?s)" "r' = ?r\<lparr>qstart := (?s + 1) mod ?n\<rparr>"
    using P False p w by (auto simp: PopFront_def Take_def)
  have "queue_inv r'" unfolding P'(2) using p ne by (auto simp: queue_inv_def)
  moreover have V: "Values r = buf r ! ?s # Values r'"
  proof (cases "?s < ?e")
    case True
    have d: "drop ?s (buf r) = buf r ! ?s # drop (Suc ?s) (buf r)" using p(2) by (simp add: Cons_nth_drop_Suc)
    have "?e - ?s = Suc (?e - Suc ?s)" using True by simp
    then have "Values r = buf r ! ?s # take (?e - Suc ?s) (drop (Suc ?s) (buf r))" using True unfolding Values_def d by simp
    then show ?thesis using P'(2) True p by (simp add: Values_def drop_update_cancel)
  next
    case gt: False
    then have "?e < ?s" using False by simp
    show ?thesis
    proof (cases "?s + 1 = ?n")
      case True
      then have "drop ?s (buf r) = [buf r ! ?s]" using p by (metis Cons_nth_drop_Suc drop_all order_refl Suc_eq_plus1)
      then show ?thesis using P'(2) True \<open>?e < ?s\<close> by (simp add: Values_def)
    next
      case False
      then have "(?s + 1) mod ?n = ?s + 1" using p by simp
      then show ?thesis using P'(2) False \<open>?e < ?s\<close> p
        by (simp add: Values_def Cons_nth_drop_Suc [symmetric] drop_update_cancel)
    qed
  qed
  ultimately show ?thesis using P'(1) by simp
qed

lemma PopBack_spec:
  assumes inv: "queue_inv r" and P: "PopBack z r = (x, r')"
  shows "queue_inv r' \<and> Values r' = butlast (Values r) \<and> x = (if Values r = [] then None else Some (last (Values r)))"
proof (cases "qstart r = qend r")
  case True
  then show ?thesis using inv P Values_empty [OF inv] by (simp add: PopBack_def)
next
  case False
  let ?n = "length (buf r)" and ?s = "qstart r" and ?e = "qend r"
  have ne: "buf r \<noteq> []" and p: "\<exists>k. ?n = 2 ^ k" "?s < ?n" "?e < ?n" using inv False by (auto simp: queue_inv_def split: if_splits)
  define e1 where "e1 = (if ?e = 0 then ?n - 1 else ?e - 1)"
  have w: "wrap_index r (int ?e - 1) = e1"
  proof (cases "?e = 0")
    case True
    then show ?thesis using wrap_index_neg [OF inv ne, of 1] p by (simp add: e1_def)
  next
    case False
    then have "int ?e - 1 = int (?e - 1)" by simp
    then show ?thesis using wrap_index_nat [OF inv ne, of "?e - 1"] p False by (simp add: e1_def)
  qed
  have lt: "e1 < ?n" unfolding e1_def using p(2,3) by auto
  have P': "x = Some (buf r ! e1)" "r' = r\<lparr>buf := (buf r)[e1 := z], qend := e1\<rparr>"
    using P False lt w by (auto simp: PopBack_def Take_def)
  have "queue_inv r'" unfolding P'(2) using p ne lt by (auto simp: queue_inv_def)
  moreover have "Values r = Values r' @ [buf r ! e1]"
  proof (cases "?e = 0")
    case True
    then have "?s \<le> e1" "e1 = ?n - 1" using p by (simp_all add: e1_def)
    moreover have "drop ?s (buf r) = take (?n - 1 - ?s) (drop ?s (buf r)) @ [buf r ! (?n - 1)]"
    proof -
      have l: "length (drop ?s (buf r)) = Suc (?n - 1 - ?s)" using p by simp
      then have "drop ?s (buf r) = take (?n - 1 - ?s) (drop ?s (buf r)) @ [drop ?s (buf r) ! (?n - 1 - ?s)]"
        by (metis order_refl take_Suc_conv_app_nth take_all lessI)
      then show ?thesis using p by simp
    qed
    ultimately show ?thesis using P'(2) True False by (simp add: Values_def take_update_swap take_drop list_update_beyond)
  next
    case nz: False
    then have e1: "e1 = ?e - 1" "Suc e1 = ?e" by (simp_all add: e1_def)
    show ?thesis
    proof (cases "?s < ?e")
      case True
      have "take (?e - ?s) (drop ?s (buf r)) = take (e1 - ?s) (drop ?s (buf r)) @ [buf r ! e1]"
      proof -
        have "?e - ?s = Suc (e1 - ?s)" using True e1 by simp
        then show ?thesis using take_Suc_conv_app_nth [of "e1 - ?s" "drop ?s (buf r)"] True e1 p by simp
      qed
      moreover have "?s \<le> e1" using True e1 by simp
      ultimately show ?thesis using P'(2) True by (simp add: Values_def take_drop)
    next
      case gt: False
      then have "e1 < ?s" "?e < ?s" using False e1 by auto
      moreover have "take ?e (buf r) = take e1 (buf r) @ [buf r ! e1]"
        using take_Suc_conv_app_nth [OF lt] e1(2) by simp
      ultimately show ?thesis using P'(2) by (simp add: Values_def)
    qed
  qed
  ultimately show ?thesis using P'(1) by simp
qed

section \<open>The interface of a double-ended queue\<close>

datatype 'e dq_op = Push_Front "'e list" | Push_Back "'e list" | Pop_Front | Pop_Back | Reserve_Room nat | Clear_All

text \<open>What the operations do to a list: the specification.\<close>

fun list_op :: "'e dq_op \<Rightarrow> 'e list \<Rightarrow> 'e option \<times> 'e list" where
  "list_op (Push_Front v) xs = (None, v @ xs)"
| "list_op (Push_Back v) xs = (None, xs @ v)"
| "list_op Pop_Front xs = (if xs = [] then None else Some (hd xs), tl xs)"
| "list_op Pop_Back xs = (if xs = [] then None else Some (last xs), butlast xs)"
| "list_op (Reserve_Room n) xs = (None, xs)"
| "list_op Clear_All xs = (None, [])"

fun list_run :: "'e dq_op list \<Rightarrow> 'e list \<Rightarrow> 'e option list \<times> 'e list" where
  "list_run [] xs = ([], xs)"
| "list_run (o1 # os) xs = (let (x, ys) = list_op o1 xs; (out, zs) = list_run os ys in (x # out, zs))"

text \<open>How much room an operation asks for.\<close>

fun demand :: "'e dq_op \<Rightarrow> nat" where
  "demand (Push_Front v) = length v"
| "demand (Push_Back v) = length v"
| "demand (Reserve_Room n) = n"
| "demand _ = 0"

locale deque =
  fixes inv :: "'q \<Rightarrow> bool" and elems :: "'q \<Rightarrow> 'e list" and limit :: nat
    and apply_op :: "'e dq_op \<Rightarrow> 'q \<Rightarrow> ('e option \<times> 'q) option"
  assumes apply_ok: "inv q \<Longrightarrow> length (elems q) + demand o1 < limit \<Longrightarrow>
    succeeds (apply_op o1 q) (\<lambda>(x, q1). inv q1 \<and> (x, elems q1) = list_op o1 (elems q))"
begin

fun run_ops :: "'e dq_op list \<Rightarrow> 'q \<Rightarrow> ('e option list \<times> 'q) option" where
  "run_ops [] q = Some ([], q)"
| "run_ops (o1 # os) q = do { (x, q1) \<leftarrow> apply_op o1 q; (out, q2) \<leftarrow> run_ops os q1; Some (x # out, q2) }"

lemma list_op_length: "list_op o1 xs = (x, ys) \<Longrightarrow> length ys \<le> length xs + demand o1"
  by (cases o1) auto

text \<open>Every run within the limit succeeds and returns what the list returns.\<close>

lemma run_ops_simulates:
  "inv q \<Longrightarrow> length (elems q) + sum_list (map demand os) < limit \<Longrightarrow>
   succeeds (run_ops os q) (\<lambda>(out, q1). inv q1 \<and> (out, elems q1) = list_run os (elems q))"
proof (induction os arbitrary: q)
  case Nil
  then show ?case by simp
next
  case (Cons o1 os)
  obtain x q1 where 1: "apply_op o1 q = Some (x, q1)" "inv q1" "(x, elems q1) = list_op o1 (elems q)"
    using apply_ok [of q o1] Cons.prems by (auto simp: succeeds_def)
  have "length (elems q1) + sum_list (map demand os) < limit"
    using list_op_length [OF 1(3) [symmetric]] Cons.prems by simp
  from Cons.IH [OF 1(2) this] obtain out q2 where 2: "run_ops os q1 = Some (out, q2)" "inv q2"
      "(out, elems q2) = list_run os (elems q1)" by (auto simp: succeeds_def)
  have "list_run (o1 # os) (elems q) = (x # out, elems q2)"
    using 1(3) [symmetric] 2(3) [symmetric] by simp
  then show ?case using 1(1) 2(1,2) by simp
qed

end

text \<open>The ring buffer as an implementation.\<close>

fun queue_op :: "'e \<Rightarrow> 'e dq_op \<Rightarrow> 'e queue \<Rightarrow> ('e option \<times> 'e queue) option" where
  "queue_op z (Push_Front v) r = map_option (\<lambda>r1. (None, r1)) (PushFront z v r)"
| "queue_op z (Push_Back v) r = map_option (\<lambda>r1. (None, r1)) (PushBack z v r)"
| "queue_op z Pop_Front r = Some (PopFront z r)"
| "queue_op z Pop_Back r = Some (PopBack z r)"
| "queue_op z (Reserve_Room n) r = map_option (\<lambda>r1. (None, r1)) (Reserve z n r)"
| "queue_op z Clear_All r = Some (None, Clear r)"

lemma queue_op_ok:
  assumes "queue_inv r" "length (Values r) + demand o1 < 2 ^ 61"
  shows "succeeds (queue_op z o1 r) (\<lambda>(x, r1). queue_inv r1 \<and> (x, Values r1) = list_op o1 (Values r))"
proof (cases o1)
  case (Push_Front v)
  obtain r1 where r1: "Reserve z (length v) r = Some r1" "queue_inv r1" "Values r1 = Values r" "queue_Len r + length v \<le> queue_Cap r1"
    using Reserve_spec [OF assms(1), of "length v" z] assms(2) length_Values [OF assms(1)] Push_Front by auto
  have "queue_Len r1 + length v \<le> queue_Cap r1" using r1 length_Values [OF assms(1)] length_Values [OF r1(2)] by simp
  from PushFront_room [OF r1(2) this r1(1)] show ?thesis using Push_Front r1(3) by auto
next
  case (Push_Back v)
  obtain r1 where r1: "Reserve z (length v) r = Some r1" "queue_inv r1" "Values r1 = Values r" "queue_Len r + length v \<le> queue_Cap r1"
    using Reserve_spec [OF assms(1), of "length v" z] assms(2) length_Values [OF assms(1)] Push_Back by auto
  have "queue_Len r1 + length v \<le> queue_Cap r1" using r1 length_Values [OF assms(1)] length_Values [OF r1(2)] by simp
  from PushBack_room [OF r1(2) this r1(1)] show ?thesis using Push_Back r1(3) by auto
next
  case Pop_Front
  then show ?thesis using PopFront_spec [OF assms(1)] by (cases "PopFront z r") simp
next
  case Pop_Back
  then show ?thesis using PopBack_spec [OF assms(1)] by (cases "PopBack z r") simp
next
  case (Reserve_Room n)
  then show ?thesis using Reserve_spec [OF assms(1), of n z] assms(2) length_Values [OF assms(1)] by auto
next
  case Clear_All
  then show ?thesis by (simp add: Clear_def queue_inv_def Values_def)
qed

interpretation ring: deque queue_inv Values "2 ^ 61" "queue_op z" for z
  by unfold_locales (rule queue_op_ok)

section \<open>Properties\<close>

fun queue_run :: "'e \<Rightarrow> 'e dq_op list \<Rightarrow> 'e queue \<Rightarrow> ('e option list \<times> 'e queue) option" where
  "queue_run z [] r = Some ([], r)"
| "queue_run z (o1 # os) r = do { (x, r1) \<leftarrow> queue_op z o1 r; (out, r2) \<leftarrow> queue_run z os r1; Some (x # out, r2) }"

lemma queue_run_ring: "queue_run z os r = ring.run_ops z os r"
  by (induction os arbitrary: r) (simp_all add: Option.bind_def split: option.split)

text \<open>C13: the ring buffer implements a double-ended queue. Any sequence of operations on a new queue, as
  long as the room it asks for is less than \<open>2^61\<close> elements, runs without a panic, returns what the same
  operations on a list return, and leaves the elements of that list.\<close>

theorem queue_simulates_list:
  assumes "sum_list (map demand os) < 2 ^ 61"
  shows "\<exists>r0 r out. NewQueue z 0 = Some r0 \<and> queue_run z os r0 = Some (out, r) \<and> (out, Values r) = list_run os [] \<and>
    queue_Len r = length (Values r) \<and> queue_Len r \<le> queue_Cap r"
proof -
  let ?r0 = "\<lparr>buf = [], qstart = 0, qend = 0\<rparr> :: 'a queue"
  have new: "NewQueue z 0 = Some ?r0" "queue_inv ?r0" "Values ?r0 = []" by (simp_all add: NewQueue_def queue_inv_def Values_def)
  from ring.run_ops_simulates [OF new(2), of os z] assms obtain out r where
    "queue_run z os ?r0 = Some (out, r)" "queue_inv r" "(out, Values r) = list_run os []"
    by (auto simp: succeeds_def queue_run_ring new(3))
  then show ?thesis using new(1) length_Values Len_le_Cap by fastforce
qed

theorem queue_simulates_list_witness:
  "\<exists>r0 r out. NewQueue (0 :: nat) 0 = Some r0 \<and>
     queue_run 0 [Push_Back [1, 2], Push_Front [3, 4, 5], Pop_Front, Pop_Back, Push_Back [6, 7, 8], Clear_All, Pop_Front] r0 = Some (out, r) \<and>
     out = [None, None, Some 3, Some 2, None, None, None] \<and> Values r = []"
proof -
  let ?os = "[Push_Back [1, 2], Push_Front [3, 4, 5], Pop_Front, Pop_Back, Push_Back [6, 7, 8], Clear_All, Pop_Front] :: nat dq_op list"
  have d: "sum_list (map demand ?os) < 2 ^ 61" by simp
  have l: "list_run ?os [] = ([None, None, Some 3, Some 2, None, None, None], [])" by simp
  from queue_simulates_list [OF d, of 0] obtain r0 r out where
    "NewQueue (0 :: nat) 0 = Some r0" "queue_run 0 ?os r0 = Some (out, r)" "(out, Values r) = list_run ?os []" by blast
  then show ?thesis unfolding l prod.inject by blast
qed

text \<open>The two ends, read without removing.\<close>

lemma Front_spec: "queue_inv r \<Longrightarrow> Front r = (if Values r = [] then None else Some (hd (Values r)))"
  by (auto simp: Front_def Values_def queue_inv_def hd_drop_conv_nth split: if_splits)

lemma Back_spec:
  assumes "queue_inv r"
  shows "Back r = (if Values r = [] then None else Some (last (Values r)))"
proof (cases "PopBack undefined r")
  case (Pair x r')
  have "wrap_index r (int (qend r) - 1) < length (buf r)" if "qstart r \<noteq> qend r"
  proof -
    have "buf r \<noteq> []" using assms that by (auto simp: queue_inv_def)
    then show ?thesis using wrap_index_mod [OF assms, of "int (qend r) - 1"]
      by (metis length_greater_0_conv of_nat_0_less_iff of_nat_less_iff pos_mod_bound)
  qed
  then have "Back r = x" using Pair by (auto simp: Back_def PopBack_def Take_def Let_def split: if_splits)
  then show ?thesis using PopBack_spec [OF assms Pair] by simp
qed

end
