(* ===== verification/Trie.thy ===== *)
theory Trie
  imports Prelude "HOL-Library.Monad_Syntax"
begin

text \<open>
  The radix trie of \<open>internal/trie\<close> (\<open>nybbles.go\<close>, \<open>trie.go\<close>): a map from byte strings whose lookup
  returns the values of every prefix of a key.

  A node has an entry for each high nybble of the next byte, which leads to a row with an entry for each low
  nybble, which leads to a node. Entries are unsigned integers of \<open>width\<close> 8, 16, 32 or 64 bits, kept here as
  \<^typ>\<open>int\<close> with Go's conversions written out; all ones means that there is no entry. When the indices of one
  width are used up the trie is converted to the next. Indexing out of range panics, which is \<open>None\<close>.
  An iterator is the list of what it yields: a consumer that stops early sees a prefix of that list.
\<close>

record nybbles =
  width :: nat
  hi :: "int list list"
  lo :: "int list list"
  hasValue :: "go_uint list"

text \<open>The conversions \<open>int(x)\<close> and \<open>N(i)\<close>, and \<open>^N(0)\<close>.\<close>

definition to_int :: "nat \<Rightarrow> int \<Rightarrow> int" where
  "to_int w x = (if w = 64 \<and> 2 ^ 63 \<le> x then x - 2 ^ 64 else x)"

definition to_N :: "nat \<Rightarrow> int \<Rightarrow> int" where
  "to_N w i = i mod 2 ^ w"

definition all_ones :: "nat \<Rightarrow> int" where
  "all_ones w = 2 ^ w - 1"

definition lo_nybble :: "byte \<Rightarrow> nat" where
  "lo_nybble b = unat (b AND 15)"

definition hi_nybble :: "byte \<Rightarrow> nat" where
  "hi_nybble b = unat (drop_bit 4 b)"

text \<open>\<open>rows[n][k]\<close>, read and written.\<close>

definition slot :: "int list list \<Rightarrow> int \<Rightarrow> nat \<Rightarrow> int option" where
  "slot rows n k =
     (if 0 \<le> n \<and> n < int (length rows) \<and> k < length (rows ! nat n) then Some (rows ! nat n ! k) else None)"

definition put_slot :: "int list list \<Rightarrow> int \<Rightarrow> nat \<Rightarrow> int \<Rightarrow> int list list" where
  "put_slot rows n k x = rows[nat n := (rows ! nat n)[k := x]]"

definition appendAllOnes :: "nat \<Rightarrow> int list list \<Rightarrow> int list list" where
  "appendAllOnes w rows = rows @ [replicate 16 (all_ones w)]"

text \<open>A negative \<open>n\<close> gives a negative shift or index.\<close>

definition has :: "nybbles \<Rightarrow> int \<Rightarrow> bool option" where
  "has t n =
     (if n < 0 then (if - 64 < n \<and> hasValue t = [] then Some False else None)
      else let i = nat n div 64; j = nat n mod 64
           in Some (i < length (hasValue t) \<and> hasValue t ! i AND push_bit j 1 \<noteq> 0))"

definition set_has :: "nybbles \<Rightarrow> int \<Rightarrow> nybbles option" where
  "set_has t n =
     (if n < 0 then None
      else let i = nat n div 64; j = nat n mod 64;
               h = hasValue t @ replicate (i + 1 - length (hasValue t)) 0
           in Some (t\<lparr>hasValue := h[i := h ! i OR push_bit j 1]\<rparr>))"

section \<open>Searching\<close>

function search_loop :: "nybbles \<Rightarrow> bytes \<Rightarrow> nat \<Rightarrow> int \<Rightarrow> (bytes \<times> int) list option" where
  "search_loop t key i n =
     (if length key \<le> i then Some []
      else if int (length (hi t)) \<le> n then Some []
      else do {
        m \<leftarrow> slot (hi t) n (hi_nybble (key ! i));
        if int (length (lo t)) \<le> to_int (width t) m then Some []
        else do {
          x \<leftarrow> slot (lo t) (to_int (width t) m) (lo_nybble (key ! i));
          h \<leftarrow> has t (to_int (width t) x);
          ys \<leftarrow> search_loop t key (i + 1) (to_int (width t) x);
          Some (if h then (take (i + 1) key, to_int (width t) x) # ys else ys)
        }
      })"
  by pat_completeness auto
termination by (relation "measure (\<lambda>(t, key, i, n). length key - i)") auto

definition search :: "nybbles \<Rightarrow> bytes \<Rightarrow> (bytes \<times> int) list option" where
  "search t key = do {
     h \<leftarrow> has t 0;
     ys \<leftarrow> search_loop t key 0 0;
     Some (if h then ([], 0) # ys else ys)
   }"

record searcher =
  s_i :: nat
  s_n :: int

function step_loop :: "nybbles \<Rightarrow> bytes \<Rightarrow> searcher \<Rightarrow> searcher option" where
  "step_loop t key s =
     (if length key < s_i s then Some (s\<lparr>s_n := -1\<rparr>)
      else if int (length (hi t)) \<le> s_n s then Some (s\<lparr>s_n := -1\<rparr>)
      else do {
        m \<leftarrow> slot (hi t) (s_n s) (hi_nybble (key ! (s_i s - 1)));
        if int (length (lo t)) \<le> to_int (width t) m then Some (s\<lparr>s_n := -1\<rparr>)
        else do {
          x \<leftarrow> slot (lo t) (to_int (width t) m) (lo_nybble (key ! (s_i s - 1)));
          h \<leftarrow> has t (to_int (width t) x);
          if h then Some \<lparr>s_i = s_i s + 1, s_n = to_int (width t) x\<rparr>
          else step_loop t key \<lparr>s_i = s_i s + 1, s_n = to_int (width t) x\<rparr>
        }
      })"
  by pat_completeness auto
termination by (relation "measure (\<lambda>(t, key, s). Suc (length key) - s_i s)") auto

declare search_loop.simps [simp del] step_loop.simps [simp del]

definition step :: "nybbles \<Rightarrow> bytes \<Rightarrow> searcher \<Rightarrow> searcher option" where
  "step t key s =
     (if s_i s = 0 then do {
        h \<leftarrow> has t 0;
        if h then Some (s\<lparr>s_i := 1\<rparr>) else step_loop t key (s\<lparr>s_i := 1\<rparr>)
      }
      else step_loop t key s)"

section \<open>Inserting\<close>

text \<open>The loop of \<open>insert\<close> over the bytes of the key; \<open>- 1\<close> means that the indices are used up.\<close>

fun insert_loop :: "bytes \<Rightarrow> int \<Rightarrow> nybbles \<Rightarrow> (int \<times> nybbles) option" where
  "insert_loop [] n t = map_option (\<lambda>t. (n, t)) (set_has t n)"
| "insert_loop (b # bs) n t = do {
     let w = width t;
     x \<leftarrow> slot (hi t) n (hi_nybble b);
     let t = (if int (length (lo t)) \<le> to_int w x
              then t\<lparr>hi := put_slot (hi t) n (hi_nybble b) (to_N w (int (length (lo t)))), lo := appendAllOnes w (lo t)\<rparr>
              else t);
     m1 \<leftarrow> slot (hi t) n (hi_nybble b);
     m2 \<leftarrow> slot (lo t) (m1 mod 2 ^ 32) (lo_nybble b);
     if int (length (hi t)) \<le> to_int w m2 then
       if int (length (hi t)) = to_int w (all_ones w) then Some (-1, t)
       else insert_loop bs (to_int w (to_N w (int (length (hi t)))))
              (t\<lparr>lo := put_slot (lo t) (m1 mod 2 ^ 32) (lo_nybble b) (to_N w (int (length (hi t)))),
                 hi := appendAllOnes w (hi t)\<rparr>)
     else insert_loop bs (to_int w m2) t
   }"

definition insert_key :: "bytes \<Rightarrow> nybbles \<Rightarrow> (int \<times> nybbles) option" where
  "insert_key key t = insert_loop key 0 (if hi t = [] then t\<lparr>hi := appendAllOnes (width t) (hi t)\<rparr> else t)"

definition grow_rows :: "nat \<Rightarrow> nat \<Rightarrow> int list list \<Rightarrow> int list list" where
  "grow_rows from_w to_w = map (map (\<lambda>x. if x = all_ones from_w then all_ones to_w else to_N to_w x))"

definition grow :: "nat \<Rightarrow> nybbles \<Rightarrow> nybbles" where
  "grow to_w t = \<lparr>width = to_w, hi = grow_rows (width t) to_w (hi t), lo = grow_rows (width t) to_w (lo t), hasValue = hasValue t\<rparr>"

lemma set_has_width: "set_has t n = Some t' \<Longrightarrow> width t' = width t"
  by (auto simp: set_has_def Let_def split: if_splits)

lemma insert_loop_width: "insert_loop bs n t = Some (r, t') \<Longrightarrow> width t' = width t"
proof (induction bs arbitrary: n t)
  case (Cons b bs)
  from Cons.prems show ?case
    by (auto simp: Let_def dest!: Cons.IH elim!: bind_SomeE split: if_split_asm)
qed (auto dest: set_has_width)

lemma insert_key_width: "insert_key key t = Some (r, t') \<Longrightarrow> width t' = width t"
  by (auto simp: insert_key_def dest: insert_loop_width split: if_splits)

section \<open>The trie\<close>

record 'v trie =
  impl :: "nybbles option"
  tvalues :: "'v list"

definition empty_trie :: "'v trie" where
  "empty_trie = \<lparr>impl = None, tvalues = []\<rparr>"

text \<open>The loop \<open>again\<close> of \<open>Insert\<close>: insert, and convert to the next width while there is no room.\<close>

function insert_again :: "bytes \<Rightarrow> nybbles \<Rightarrow> (int \<times> nybbles) option" where
  "insert_again key t =
     (case insert_key key t of
        None \<Rightarrow> None
      | Some (n, t1) \<Rightarrow>
          if n = -1 then
            (if width t1 = 8 then insert_again key (grow 16 t1)
             else if width t1 = 16 then insert_again key (grow 32 t1)
             else if width t1 = 32 then insert_again key (grow 64 t1)
             else None)
          else Some (n, t1))"
  by pat_completeness auto
termination
  by (relation "measure (\<lambda>(key, t). 64 - width t)") (auto simp: grow_def dest!: insert_key_width)

declare insert_again.simps [simp del]

text \<open>\<open>z\<close> is the zero value of the trie's values.\<close>

definition Insert :: "'v \<Rightarrow> bytes \<Rightarrow> 'v \<Rightarrow> 'v trie \<Rightarrow> 'v trie option" where
  "Insert z key value t = do {
     (n, impl1) \<leftarrow> insert_again key (case impl t of Some i \<Rightarrow> i | None \<Rightarrow> \<lparr>width = 8, hi = [], lo = [], hasValue = []\<rparr>);
     let vs = tvalues t @ replicate (nat (n + 1 - int (length (tvalues t)))) z;
     if n < 0 then None else Some \<lparr>impl = Some impl1, tvalues = vs[nat n := value]\<rparr>
   }"

lemma step_loop_progress:
  "step_loop t key s = Some s1 \<Longrightarrow> s_n s1 \<noteq> -1 \<Longrightarrow> s_i s < s_i s1 \<and> s_i s1 \<le> Suc (length key)"
proof (induction t key s rule: step_loop.induct)
  case (1 t key s)
  note run = "1.prems"(1) [unfolded step_loop.simps [of t key s]]
  show ?case
  proof (cases "length key < s_i s \<or> int (length (hi t)) \<le> s_n s")
    case True
    with run "1.prems"(2) show ?thesis by (auto split: if_split_asm)
  next
    case False
    then obtain m where m: "slot (hi t) (s_n s) (hi_nybble (key ! (s_i s - 1))) = Some m"
      and run1: "(if int (length (lo t)) \<le> to_int (width t) m then Some (s\<lparr>s_n := -1\<rparr>)
        else do {
          x \<leftarrow> slot (lo t) (to_int (width t) m) (lo_nybble (key ! (s_i s - 1)));
          h \<leftarrow> has t (to_int (width t) x);
          if h then Some \<lparr>s_i = s_i s + 1, s_n = to_int (width t) x\<rparr>
          else step_loop t key \<lparr>s_i = s_i s + 1, s_n = to_int (width t) x\<rparr>
        }) = Some s1" using run by (auto elim: bind_SomeE)
    have lt: "\<not> int (length (lo t)) \<le> to_int (width t) m" using run1 "1.prems"(2) by (auto split: if_split_asm)
    then obtain x h where x: "slot (lo t) (to_int (width t) m) (lo_nybble (key ! (s_i s - 1))) = Some x"
      "has t (to_int (width t) x) = Some h" and run2: "(if h then Some \<lparr>s_i = s_i s + 1, s_n = to_int (width t) x\<rparr>
          else step_loop t key \<lparr>s_i = s_i s + 1, s_n = to_int (width t) x\<rparr>) = Some s1"
      using run1 by (auto elim!: bind_SomeE)
    show ?thesis
    proof (cases h)
      case True
      then show ?thesis using run2 False by auto
    next
      case h: False
      then show ?thesis using "1.IH" [OF _ _ m lt x] False run2 "1.prems"(2) by auto
    qed
  qed
qed

lemma step_progress: "step t key s = Some s1 \<Longrightarrow> s_n s1 \<noteq> -1 \<Longrightarrow> s_i s < s_i s1 \<and> s_i s1 \<le> Suc (length key)"
  by (cases "s_i s = 0") (auto simp: step_def dest!: step_loop_progress elim!: bind_SomeE split: if_split_asm)

function prefixes_loop :: "'v list \<Rightarrow> nybbles \<Rightarrow> bytes \<Rightarrow> searcher \<Rightarrow> (bytes \<times> 'v) list option" where
  "prefixes_loop vs t key s =
     (case step t key s of
        None \<Rightarrow> None
      | Some s1 \<Rightarrow>
          if s_n s1 = -1 then Some []
          else if s_n s1 < 0 \<or> int (length vs) \<le> s_n s1 then None
          else map_option (\<lambda>ys. (take (s_i s1 - 1) key, vs ! nat (s_n s1)) # ys) (prefixes_loop vs t key s1))"
  by pat_completeness auto
termination
  by (relation "measure (\<lambda>(vs, t, key, s). Suc (length key) - s_i s)") (auto dest: step_progress)

declare prefixes_loop.simps [simp del]

definition Prefixes :: "'v trie \<Rightarrow> bytes \<Rightarrow> (bytes \<times> 'v) list option" where
  "Prefixes t key = (case impl t of None \<Rightarrow> Some [] | Some i \<Rightarrow> prefixes_loop (tvalues t) i key \<lparr>s_i = 0, s_n = 0\<rparr>)"

definition Get :: "'v \<Rightarrow> 'v trie \<Rightarrow> bytes \<Rightarrow> (bytes \<times> 'v) option" where
  "Get z t key = map_option (\<lambda>ps. if ps = [] then ([], z) else last ps) (Prefixes t key)"

section \<open>Nybbles and bits\<close>

lemma lo_nybble_mod: "lo_nybble b = unat b mod 16"
proof -
  have "b AND 15 = take_bit 4 b" by (simp add: take_bit_eq_mask mask_eq_exp_minus_1)
  then have "lo_nybble b = take_bit 4 (unat b)" by (simp only: lo_nybble_def unsigned_take_bit_eq)
  then show ?thesis by (simp add: take_bit_eq_mod)
qed

lemma hi_nybble_div: "hi_nybble b = unat b div 16"
proof -
  have "unat (drop_bit 4 b) = drop_bit 4 (unat b)"
  proof -
    have "take_bit (LENGTH(8) - 4) (drop_bit 4 (unat b)) = drop_bit 4 (unat b)"
      using unsigned_less [of b, where ?'a = nat] by (simp add: take_bit_nat_eq_self drop_bit_eq_div)
    then show ?thesis by (simp only: unsigned_drop_bit_eq drop_bit_take_bit)
  qed
  then show ?thesis by (simp add: hi_nybble_def drop_bit_eq_div)
qed

lemma nybble_bounds [simp]: "lo_nybble b < 16" "hi_nybble b < 16"
  using unsigned_less [of b, where ?'a = nat] by (simp_all add: lo_nybble_mod hi_nybble_div)

lemma nybbles_inj: "hi_nybble b = hi_nybble c \<Longrightarrow> lo_nybble b = lo_nybble c \<Longrightarrow> b = c"
proof -
  assume "hi_nybble b = hi_nybble c" "lo_nybble b = lo_nybble c"
  then have "unat b = unat c" unfolding lo_nybble_mod hi_nybble_div by (metis div_mult_mod_eq)
  then show "b = c" by (rule unsigned_word_eqI)
qed

text \<open>The nodes that have a value.\<close>

definition marked :: "nybbles \<Rightarrow> nat \<Rightarrow> bool" where
  "marked t n \<longleftrightarrow> n div 64 < length (hasValue t) \<and> bit (hasValue t ! (n div 64)) (n mod 64)"

lemma test_bit_and: "(x :: go_uint) AND push_bit j 1 \<noteq> 0 \<longleftrightarrow> bit x j"
  by (simp add: push_bit_of_1 and_exp_eq_0_iff_not_bit)

lemma has_marked: "0 \<le> n \<Longrightarrow> has t n = Some (marked t (nat n))"
  by (simp add: has_def marked_def Let_def test_bit_and del: push_bit_of_1)

lemma nth_pad: "length h \<le> q \<Longrightarrow> q < length (h @ replicate k z) \<Longrightarrow> (h @ replicate k z) ! q = z"
  by (auto simp: nth_append)

lemma set_has_marked:
  assumes "0 \<le> n"
  shows "\<exists>t'. set_has t n = Some t' \<and> hi t' = hi t \<and> lo t' = lo t \<and> width t' = width t \<and>
    (\<forall>m. marked t' m \<longleftrightarrow> m = nat n \<or> marked t m)"
proof -
  let ?i = "nat n div 64" and ?j = "nat n mod 64"
  let ?h = "hasValue t @ replicate (?i + 1 - length (hasValue t)) 0"
  let ?t = "t\<lparr>hasValue := ?h[?i := ?h ! ?i OR push_bit ?j 1]\<rparr>"
  have len: "?i < length ?h" by auto
  have m: "marked t m \<longleftrightarrow> m div 64 < length ?h \<and> bit (?h ! (m div 64)) (m mod 64)" for m
  proof (cases "m div 64 < length (hasValue t)")
    case False
    have "\<not> bit (?h ! (m div 64)) (m mod 64)" if "m div 64 < length ?h"
      using nth_pad [of "hasValue t" "m div 64", OF _ that] False by simp
    then show ?thesis using False by (auto simp: marked_def)
  qed (auto simp: marked_def nth_append)
  have "marked ?t m \<longleftrightarrow> m = nat n \<or> marked t m" for m
  proof (cases "m div 64 = ?i")
    case True
    then have "marked ?t m \<longleftrightarrow> bit (?h ! ?i OR push_bit ?j 1) (m mod 64)" using len by (simp add: marked_def)
    also have "\<dots> \<longleftrightarrow> bit (?h ! ?i) (m mod 64) \<or> m mod 64 = ?j" by (auto simp: bit_simps)
    also have "m mod 64 = ?j \<longleftrightarrow> m = nat n" using True by (metis div_mult_mod_eq)
    finally show ?thesis using True len m [of m] by auto
  next
    case False
    then show ?thesis using m [of m] by (auto simp: marked_def nth_list_update_if)
  qed
  then show ?thesis using assms by (simp add: set_has_def Let_def)
qed

section \<open>Rows as partial maps\<close>

definition entries :: "int list list \<Rightarrow> nat \<Rightarrow> nat \<times> nat \<Rightarrow> nat option" where
  "entries rows lim = (\<lambda>(n, k).
     if n < length rows \<and> k < 16 \<and> rows ! n ! k < int lim then Some (nat (rows ! n ! k)) else None)"

definition rows_ok :: "nat \<Rightarrow> int list list \<Rightarrow> nat \<Rightarrow> bool" where
  "rows_ok w rows lim \<longleftrightarrow> int lim \<le> all_ones w \<and>
     (\<forall>row \<in> set rows. length row = 16 \<and> (\<forall>x \<in> set row. x = all_ones w \<or> 0 \<le> x \<and> x < int lim))"

lemma rows_okD:
  assumes "rows_ok w rows lim" "n < length rows" "k < 16"
  shows "length (rows ! n) = 16" "rows ! n ! k = all_ones w \<or> 0 \<le> rows ! n ! k \<and> rows ! n ! k < int lim"
proof -
  have "rows ! n \<in> set rows" using assms(2) by simp
  with assms(1) show l: "length (rows ! n) = 16" by (simp add: rows_ok_def)
  then have "rows ! n ! k \<in> set (rows ! n)" using assms(3) by simp
  with assms(1) \<open>rows ! n \<in> set rows\<close>
  show "rows ! n ! k = all_ones w \<or> 0 \<le> rows ! n ! k \<and> rows ! n ! k < int lim" by (auto simp: rows_ok_def)
qed

lemma slot_entries:
  assumes "rows_ok w rows lim" "n < length rows" "k < 16"
  shows "slot rows (int n) k = Some (case entries rows lim (n, k) of Some m \<Rightarrow> int m | None \<Rightarrow> all_ones w)"
  using rows_okD [OF assms] assms by (auto simp: slot_def entries_def rows_ok_def)

lemma entries_Some_lt: "entries rows lim p = Some m \<Longrightarrow> fst p < length rows \<and> snd p < 16"
  by (cases p) (auto simp: entries_def split: if_splits)

lemma entries_range: "rows_ok w rows lim \<Longrightarrow> entries rows lim p = Some m \<Longrightarrow> m < lim"
  by (cases p) (use rows_okD(2) [of w rows lim "fst p" "snd p"] in \<open>fastforce simp: entries_def rows_ok_def split: if_splits\<close>)

lemma entries_put:
  assumes ok: "rows_ok w rows lim" and n: "n < length rows" "k < 16" and room: "int lim < all_ones w"
  shows "rows_ok w (put_slot rows (int n) k (int lim)) (Suc lim)"
    and "entries (put_slot rows (int n) k (int lim)) (Suc lim) = (entries rows lim)((n, k) \<mapsto> lim)"
proof -
  show "rows_ok w (put_slot rows (int n) k (int lim)) (Suc lim)"
    unfolding rows_ok_def
  proof (intro conjI ballI)
    show "int (Suc lim) \<le> all_ones w" using room by simp
    fix row assume "row \<in> set (put_slot rows (int n) k (int lim))"
    then have "row \<in> set rows \<or> row = (rows ! n)[k := int lim]"
      by (auto simp: put_slot_def dest: set_update_subset_insert [THEN subsetD])
    then show "length row = 16" "\<And>x. x \<in> set row \<Longrightarrow> x = all_ones w \<or> 0 \<le> x \<and> x < int (Suc lim)"
      using ok n by (fastforce simp: rows_ok_def dest: set_update_subset_insert [THEN subsetD])+
  qed
  have v: "rows ! a ! b < int (Suc lim) \<longleftrightarrow> rows ! a ! b < int lim" if "a < length rows" "b < 16" for a b
    using rows_okD(2) [OF ok that] room by auto
  show "entries (put_slot rows (int n) k (int lim)) (Suc lim) = (entries rows lim)((n, k) \<mapsto> lim)"
  proof
    fix p :: "nat \<times> nat"
    obtain a b where p: "p = (a, b)" by (cases p)
    show "entries (put_slot rows (int n) k (int lim)) (Suc lim) p = ((entries rows lim)((n, k) \<mapsto> lim)) p"
      using rows_okD(1) [OF ok n] n v [of a b] unfolding p by (auto simp: entries_def put_slot_def nth_list_update_if)
  qed
qed

lemma entries_append:
  assumes ok: "rows_ok w rows lim"
  shows "rows_ok w (appendAllOnes w rows) lim" "entries (appendAllOnes w rows) lim = entries rows lim"
  using ok by (auto simp: rows_ok_def appendAllOnes_def entries_def nth_append fun_eq_iff)

lemma entries_grow:
  assumes ok: "rows_ok w rows lim" and w: "w < w1"
  shows "rows_ok w1 (grow_rows w w1 rows) lim" "entries (grow_rows w w1 rows) lim = entries rows lim"
proof -
  have ones: "all_ones w < all_ones w1" using w by (simp add: all_ones_def)
  have conv: "(if x = all_ones w then all_ones w1 else to_N w1 x) = (if x = all_ones w then all_ones w1 else x)"
    if "x = all_ones w \<or> 0 \<le> x \<and> x < int lim" for x
  proof (cases "x = all_ones w")
    case False
    then have "0 \<le> x" "x < all_ones w1" using that ok ones by (auto simp: rows_ok_def)
    then have "0 \<le> x" "x < 2 ^ w1" by (simp_all add: all_ones_def)
    then show ?thesis by (simp add: to_N_def)
  qed simp
  show "rows_ok w1 (grow_rows w w1 rows) lim"
    using ok ones conv by (fastforce simp: rows_ok_def grow_rows_def)
  show "entries (grow_rows w w1 rows) lim = entries rows lim"
  proof
    fix p :: "nat \<times> nat"
    obtain a b where p: "p = (a, b)" by (cases p)
    show "entries (grow_rows w w1 rows) lim p = entries rows lim p"
      using ok ones rows_okD [OF ok, of a b] conv [of "rows ! a ! b"] unfolding p
      by (auto simp: entries_def grow_rows_def rows_ok_def)
  qed
qed

section \<open>The tree that the rows encode\<close>

definition hmap :: "nybbles \<Rightarrow> nat \<times> nat \<Rightarrow> nat option" where
  "hmap t = entries (hi t) (length (lo t))"

definition lmap :: "nybbles \<Rightarrow> nat \<times> nat \<Rightarrow> nat option" where
  "lmap t = entries (lo t) (length (hi t))"

definition pinj :: "('a \<Rightarrow> 'b option) \<Rightarrow> bool" where
  "pinj f \<longleftrightarrow> (\<forall>p q m. f p = Some m \<longrightarrow> f q = Some m \<longrightarrow> p = q)"

lemma pinj_upd: "pinj f \<Longrightarrow> (\<And>p. f p \<noteq> Some m) \<Longrightarrow> pinj (f(p \<mapsto> m))"
  by (auto simp: pinj_def)

definition nyb_ok :: "nybbles \<Rightarrow> bool" where
  "nyb_ok t \<longleftrightarrow> width t \<in> {8, 16, 32} \<and> hi t \<noteq> [] \<and>
     rows_ok (width t) (hi t) (length (lo t)) \<and> rows_ok (width t) (lo t) (length (hi t)) \<and>
     pinj (hmap t) \<and> pinj (lmap t) \<and> (\<forall>p. lmap t p \<noteq> Some 0) \<and> (\<forall>m. marked t m \<longrightarrow> m < length (hi t))"

lemma nyb_okD:
  assumes "nyb_ok t"
  shows "width t \<in> {8, 16, 32}" "hi t \<noteq> []" "rows_ok (width t) (hi t) (length (lo t))" "rows_ok (width t) (lo t) (length (hi t))"
    "pinj (hmap t)" "pinj (lmap t)" "lmap t p \<noteq> Some 0" "marked t m \<Longrightarrow> m < length (hi t)"
    "int (length (hi t)) \<le> all_ones (width t)" "int (length (lo t)) \<le> all_ones (width t)"
  using assms unfolding nyb_ok_def rows_ok_def by blast+

lemma map_ranges:
  assumes "nyb_ok t"
  shows "hmap t p = Some m \<Longrightarrow> m < length (lo t)" "lmap t p = Some m \<Longrightarrow> m < length (hi t)"
    "hmap t p = Some m \<Longrightarrow> fst p < length (hi t)" "lmap t p = Some m \<Longrightarrow> fst p < length (lo t)"
  using entries_range [OF nyb_okD(3) [OF assms]] entries_range [OF nyb_okD(4) [OF assms]] entries_Some_lt
  unfolding hmap_def lmap_def by blast+

text \<open>The two updates of \<open>insert\<close>: a new row, and a new node.\<close>

definition add_row :: "nat \<Rightarrow> nat \<Rightarrow> nybbles \<Rightarrow> nybbles" where
  "add_row n k t = t\<lparr>hi := put_slot (hi t) (int n) k (int (length (lo t))), lo := appendAllOnes (width t) (lo t)\<rparr>"

definition add_node :: "nat \<Rightarrow> nat \<Rightarrow> nybbles \<Rightarrow> nybbles" where
  "add_node m k t = t\<lparr>lo := put_slot (lo t) (int m) k (int (length (hi t))), hi := appendAllOnes (width t) (hi t)\<rparr>"

lemma length_put_slot [simp]: "length (put_slot rows n k x) = length rows"
  by (simp add: put_slot_def)

lemma length_appendAllOnes [simp]: "length (appendAllOnes w rows) = Suc (length rows)"
  by (simp add: appendAllOnes_def)

lemma add_row_ok:
  assumes "nyb_ok t" "n < length (hi t)" "k < 16" "int (length (lo t)) < all_ones (width t)"
  shows "nyb_ok (add_row n k t)" "hmap (add_row n k t) = (hmap t)((n, k) \<mapsto> length (lo t))" "lmap (add_row n k t) = lmap t"
    "length (hi (add_row n k t)) = length (hi t)" "length (lo (add_row n k t)) = Suc (length (lo t))"
    "width (add_row n k t) = width t" "marked (add_row n k t) = marked t"
proof -
  note d = nyb_okD [OF assms(1)]
  note e = entries_put [OF d(3) assms(2,3,4)] entries_append [OF d(4)]
  show h: "hmap (add_row n k t) = (hmap t)((n, k) \<mapsto> length (lo t))" and l: "lmap (add_row n k t) = lmap t"
    using e(2,4) by (simp_all add: add_row_def hmap_def lmap_def)
  show s: "length (hi (add_row n k t)) = length (hi t)" "length (lo (add_row n k t)) = Suc (length (lo t))"
    "width (add_row n k t) = width t" and m: "marked (add_row n k t) = marked t"
    by (simp_all add: add_row_def marked_def fun_eq_iff)
  have "pinj (hmap (add_row n k t))" unfolding h using map_ranges(1) [OF assms(1)] by (intro pinj_upd d(5)) fastforce
  moreover have "rows_ok (width t) (hi (add_row n k t)) (length (lo (add_row n k t)))"
    "rows_ok (width t) (lo (add_row n k t)) (length (hi (add_row n k t)))" using e(1,3) by (simp_all add: add_row_def)
  moreover have "hi (add_row n k t) \<noteq> []" using d(2) s(1) by (metis length_0_conv)
  ultimately show "nyb_ok (add_row n k t)" unfolding nyb_ok_def l m s using d(1,6,7,8) by (metis s)
qed

lemma add_node_ok:
  assumes "nyb_ok t" "m < length (lo t)" "k < 16" "int (length (hi t)) < all_ones (width t)"
  shows "nyb_ok (add_node m k t)" "lmap (add_node m k t) = (lmap t)((m, k) \<mapsto> length (hi t))" "hmap (add_node m k t) = hmap t"
    "length (lo (add_node m k t)) = length (lo t)" "length (hi (add_node m k t)) = Suc (length (hi t))"
    "width (add_node m k t) = width t" "marked (add_node m k t) = marked t"
proof -
  note d = nyb_okD [OF assms(1)]
  note e = entries_put [OF d(4) assms(2,3,4)] entries_append [OF d(3)]
  show l: "lmap (add_node m k t) = (lmap t)((m, k) \<mapsto> length (hi t))" and h: "hmap (add_node m k t) = hmap t"
    using e(2,4) by (simp_all add: add_node_def hmap_def lmap_def)
  show s: "length (lo (add_node m k t)) = length (lo t)" "length (hi (add_node m k t)) = Suc (length (hi t))"
    "width (add_node m k t) = width t" and m: "marked (add_node m k t) = marked t"
    by (simp_all add: add_node_def marked_def fun_eq_iff)
  have "pinj (lmap (add_node m k t))" unfolding l using map_ranges(2) [OF assms(1)] by (intro pinj_upd d(6)) fastforce
  moreover have "rows_ok (width t) (hi (add_node m k t)) (length (lo (add_node m k t)))"
    "rows_ok (width t) (lo (add_node m k t)) (length (hi (add_node m k t)))" using e(1,3) by (simp_all add: add_node_def)
  moreover have "hi (add_node m k t) \<noteq> []" using s(2) by (metis length_0_conv nat.distinct(1))
  moreover have "lmap (add_node m k t) p \<noteq> Some 0" for p using d(2,7) unfolding l by simp
  ultimately show "nyb_ok (add_node m k t)" unfolding nyb_ok_def h m s using d(1,5,8) by (metis s less_SucI)
qed

text \<open>The edges, and the node that a string leads to.\<close>

definition edge :: "nybbles \<Rightarrow> nat \<Rightarrow> byte \<Rightarrow> nat option" where
  "edge t n b = Option.bind (hmap t (n, hi_nybble b)) (\<lambda>m. lmap t (m, lo_nybble b))"

fun walk :: "nybbles \<Rightarrow> nat \<Rightarrow> bytes \<Rightarrow> nat option" where
  "walk t n [] = Some n"
| "walk t n (b # bs) = Option.bind (edge t n b) (\<lambda>m. walk t m bs)"

lemma walk_append: "walk t n (xs @ ys) = Option.bind (walk t n xs) (\<lambda>m. walk t m ys)"
  by (induction xs arbitrary: n) (auto split: Option.bind_splits)

lemma edge_range: "nyb_ok t \<Longrightarrow> edge t n b = Some m \<Longrightarrow> n < length (hi t) \<and> 0 < m \<and> m < length (hi t)"
  unfolding edge_def by (elim bind_SomeE) (metis map_ranges(2,3) fst_conv gr0I nyb_okD(7))

lemma edge_inj: "nyb_ok t \<Longrightarrow> edge t n b = Some m \<Longrightarrow> edge t n' b' = Some m \<Longrightarrow> n = n' \<and> b = b'"
proof -
  assume ok: "nyb_ok t" and e: "edge t n b = Some m" "edge t n' b' = Some m"
  obtain r r' where r: "hmap t (n, hi_nybble b) = Some r" "lmap t (r, lo_nybble b) = Some m"
    "hmap t (n', hi_nybble b') = Some r'" "lmap t (r', lo_nybble b') = Some m"
    using e unfolding edge_def by (elim bind_SomeE)
  have "(r, lo_nybble b) = (r', lo_nybble b')" using nyb_okD(6) [OF ok] r(2,4) unfolding pinj_def by blast
  moreover then have "(n, hi_nybble b) = (n', hi_nybble b')" using nyb_okD(5) [OF ok] r(1,3) unfolding pinj_def by blast
  ultimately show ?thesis using nybbles_inj [of b b'] by simp
qed

lemma walk_range: "nyb_ok t \<Longrightarrow> n < length (hi t) \<Longrightarrow> walk t n bs = Some m \<Longrightarrow> m < length (hi t)"
  by (induction bs arbitrary: n) (auto elim!: bind_SomeE dest: edge_range)

lemma walk_inj: "nyb_ok t \<Longrightarrow> walk t 0 xs = Some m \<Longrightarrow> walk t 0 ys = Some m \<Longrightarrow> xs = ys"
proof (induction xs arbitrary: m ys rule: rev_induct)
  case Nil
  then show ?case by (cases ys rule: rev_cases) (auto simp: walk_append elim!: bind_SomeE dest: edge_range)
next
  case (snoc b xs)
  obtain p where p: "walk t 0 xs = Some p" "edge t p b = Some m" using snoc.prems(2) by (auto simp: walk_append elim!: bind_SomeE)
  show ?case
  proof (cases ys rule: rev_cases)
    case Nil
    then show ?thesis using snoc.prems(3) edge_range [OF snoc.prems(1) p(2)] by simp
  next
    case (snoc zs c)
    then obtain q where q: "walk t 0 zs = Some q" "edge t q c = Some m" using snoc.prems(3) by (auto simp: walk_append elim!: bind_SomeE)
    then have "p = q" "b = c" using edge_inj [OF snoc.prems(1) p(2)] by auto
    then show ?thesis using snoc.IH [OF snoc.prems(1) p(1), of zs] q(1) \<open>ys = zs @ [c]\<close> by simp
  qed
qed

section \<open>What insertion does to the tree\<close>

definition extends :: "nybbles \<Rightarrow> nybbles \<Rightarrow> bool" where
  "extends t t' \<longleftrightarrow> hmap t \<subseteq>\<^sub>m hmap t' \<and> lmap t \<subseteq>\<^sub>m lmap t' \<and> length (hi t) \<le> length (hi t') \<and> width t' = width t \<and>
     (\<forall>n b m. edge t' n b = Some m \<longrightarrow> m < length (hi t) \<longrightarrow> edge t n b = Some m)"

lemma map_leD: "f \<subseteq>\<^sub>m g \<Longrightarrow> f x = Some y \<Longrightarrow> g x = Some y"
  by (metis domI map_le_def)

lemma extends_maps:
  assumes "extends t t'"
  shows "hmap t p = Some m \<Longrightarrow> hmap t' p = Some m" "lmap t p = Some m \<Longrightarrow> lmap t' p = Some m"
    "edge t n b = Some m \<Longrightarrow> edge t' n b = Some m" "length (hi t) \<le> length (hi t')" "width t' = width t"
proof -
  show h: "hmap t p = Some m \<Longrightarrow> hmap t' p = Some m" and l: "lmap t p = Some m \<Longrightarrow> lmap t' p = Some m" for p m
    using assms by (auto simp: extends_def dest: map_leD)
  show "edge t n b = Some m \<Longrightarrow> edge t' n b = Some m" unfolding edge_def by (elim bind_SomeE) (simp add: h l)
qed (use assms in \<open>simp_all add: extends_def\<close>)

lemma extends_refl [simp]: "extends t t"
  by (simp add: extends_def)

lemma extends_trans: "extends t t1 \<Longrightarrow> extends t1 t2 \<Longrightarrow> extends t t2"
  unfolding extends_def by (auto intro: map_le_trans)

lemma extends_add_row:
  assumes "nyb_ok t" "n < length (hi t)" "k < 16" "int (length (lo t)) < all_ones (width t)" "hmap t (n, k) = None"
  shows "extends t (add_row n k t)"
proof -
  note a = add_row_ok [OF assms(1-4)]
  have "lmap t (length (lo t), j) = None" for j
    using map_ranges(4) [OF assms(1), of "(length (lo t), j)"] by (cases "lmap t (length (lo t), j)") auto
  then have "edge (add_row n k t) = edge t" by (auto simp: edge_def a(2,3) assms(5) fun_eq_iff split: Option.bind_split)
  then show ?thesis using a assms(5) by (auto simp: extends_def map_le_def)
qed

lemma extends_add_node:
  assumes "nyb_ok t" "m < length (lo t)" "k < 16" "int (length (hi t)) < all_ones (width t)" "lmap t (m, k) = None"
  shows "extends t (add_node m k t)"
proof -
  note a = add_node_ok [OF assms(1-4)]
  have "edge t n b = Some x" if "edge (add_node m k t) n b = Some x" "x < length (hi t)" for n b x
    using that by (auto simp: edge_def a(2,3) elim!: bind_SomeE split: if_split_asm)
  then show ?thesis using a assms(5) by (auto simp: extends_def map_le_def)
qed

lemma walk_extends: "extends t t' \<Longrightarrow> walk t n bs = Some m \<Longrightarrow> walk t' n bs = Some m"
  by (induction bs arbitrary: n) (auto elim!: bind_SomeE dest: extends_maps(3))

lemma walk_extends_old:
  assumes "extends t t'" "nyb_ok t" "walk t' 0 bs = Some m" "m < length (hi t)"
  shows "walk t 0 bs = Some m"
  using assms(3,4)
proof (induction bs arbitrary: m rule: rev_induct)
  case (snoc b bs)
  then obtain p where p: "walk t' 0 bs = Some p" "edge t' p b = Some m" by (auto simp: walk_append elim!: bind_SomeE)
  have "edge t p b = Some m" using assms(1) p(2) snoc.prems(2) by (simp add: extends_def)
  then show ?case using snoc.IH [OF p(1)] edge_range [OF assms(2)] by (simp add: walk_append)
qed simp

text \<open>Rows are fewer than nodes, except that an insertion that runs out of indices may leave a row without
  nodes; then the key leads to that row.\<close>

definition tidy :: "nybbles \<Rightarrow> bool" where
  "tidy t \<longleftrightarrow> length (lo t) < length (hi t)"

fun stuck :: "nybbles \<Rightarrow> nat \<Rightarrow> bytes \<Rightarrow> bool" where
  "stuck t n [] \<longleftrightarrow> False"
| "stuck t n (b # bs) \<longleftrightarrow>
     (case hmap t (n, hi_nybble b) of
        None \<Rightarrow> False
      | Some m \<Rightarrow> (case lmap t (m, lo_nybble b) of None \<Rightarrow> True | Some y \<Rightarrow> stuck t y bs))"

definition ready :: "nybbles \<Rightarrow> nat \<Rightarrow> bytes \<Rightarrow> bool" where
  "ready t n bs \<longleftrightarrow> nyb_ok t \<and> n < length (hi t) \<and> (tidy t \<or> length (lo t) \<le> length (hi t) \<and> stuck t n bs)"

lemma insert_conversions:
  assumes "nyb_ok t"
  shows "to_int (width t) x = x" "int m \<le> all_ones (width t) \<Longrightarrow> to_N (width t) (int m) = int m"
    "int m < all_ones (width t) \<Longrightarrow> int m mod 2 ^ 32 = int m"
proof -
  show "to_int (width t) x = x" using nyb_okD(1) [OF assms] by (auto simp: to_int_def)
  show "int m \<le> all_ones (width t) \<Longrightarrow> to_N (width t) (int m) = int m" by (simp add: all_ones_def to_N_def)
  assume m: "int m < all_ones (width t)"
  have "all_ones (width t) \<le> 2 ^ 32" using nyb_okD(1) [OF assms] by (auto simp: all_ones_def)
  then show "int m mod 2 ^ 32 = int m" using m by simp
qed

text \<open>One byte of the key, in terms of the maps.\<close>

lemma insert_loop_old_row:
  assumes ok: "nyb_ok t" and n: "n < length (hi t)" and m: "hmap t (n, hi_nybble b) = Some m"
  shows "insert_loop (b # bs) (int n) t =
    (case lmap t (m, lo_nybble b) of
       Some y \<Rightarrow> insert_loop bs (int y) t
     | None \<Rightarrow>
         if int (length (hi t)) = all_ones (width t) then Some (-1, t)
         else insert_loop bs (int (length (hi t))) (add_node m (lo_nybble b) t))"
proof -
  note c = insert_conversions [OF ok] and d = nyb_okD [OF ok]
  have lt: "m < length (lo t)" "int m < all_ones (width t)" using map_ranges(1) [OF ok m] d(10) by auto
  have s1: "slot (hi t) (int n) (hi_nybble b) = Some (int m)"
    using slot_entries [OF d(3) n nybble_bounds(2)] m by (simp add: hmap_def)
  have s2: "slot (lo t) (int m) (lo_nybble b) = Some (case lmap t (m, lo_nybble b) of Some y \<Rightarrow> int y | None \<Rightarrow> all_ones (width t))"
    using slot_entries [OF d(4) lt(1) nybble_bounds(1)] by (simp add: lmap_def)
  show ?thesis
  proof (cases "lmap t (m, lo_nybble b)")
    case None
    then show ?thesis using d(9) lt c by (simp add: s1 s2 c(3) [OF lt(2)] Let_def add_node_def)
  next
    case (Some y)
    then show ?thesis using map_ranges(2) [OF ok Some] lt c by (simp add: s1 s2 c(3) [OF lt(2)] Let_def)
  qed
qed

lemma insert_loop_new_row:
  assumes ok: "nyb_ok t" and n: "n < length (hi t)" and m: "hmap t (n, hi_nybble b) = None"
    and room: "int (length (lo t)) < all_ones (width t)"
  shows "insert_loop (b # bs) (int n) t = insert_loop (b # bs) (int n) (add_row n (hi_nybble b) t)"
proof -
  note a = add_row_ok [OF ok n nybble_bounds(2) [of b] room] and c = insert_conversions [OF ok] and d = nyb_okD [OF ok]
  note c1 = insert_conversions [OF a(1), unfolded a(6)] and d1 = nyb_okD [OF a(1)]
  have s0: "slot (hi t) (int n) (hi_nybble b) = Some (all_ones (width t))"
    using slot_entries [OF d(3) n nybble_bounds(2)] m by (simp add: hmap_def)
  have "slot (hi (add_row n (hi_nybble b) t)) (int n) (hi_nybble b) = Some (int (length (lo t)))"
    using slot_entries [OF d1(3), of n "hi_nybble b"] n a(2,4) by (simp add: hmap_def)
  moreover have "to_N (width t) (int (length (lo t))) = int (length (lo t))" using c(2) room by simp
  ultimately show ?thesis using room by (simp add: s0 c(1) Let_def add_row_def cong: if_cong)
qed

text \<open>How many nodes a key lacks.\<close>

fun missing :: "nybbles \<Rightarrow> nat \<Rightarrow> bytes \<Rightarrow> nat" where
  "missing t n [] = 0"
| "missing t n (b # bs) = (case edge t n b of None \<Rightarrow> Suc (length bs) | Some y \<Rightarrow> missing t y bs)"

lemma missing_le: "missing t n bs \<le> length bs"
  by (induction bs arbitrary: n) (auto split: option.split intro: le_SucI)

lemma missing_zero: "missing t n bs = 0 \<longleftrightarrow> walk t n bs \<noteq> None"
  by (induction bs arbitrary: n) (auto split: option.split)

lemma missing_fresh: "nyb_ok t \<Longrightarrow> (\<And>b. edge t n b = None) \<Longrightarrow> missing t n bs = length bs"
  by (cases bs) auto

text \<open>What a run of the loop from node \<open>n\<close> achieves.\<close>

definition inserted :: "nybbles \<Rightarrow> nat \<Rightarrow> bytes \<Rightarrow> int \<times> nybbles \<Rightarrow> bool" where
  "inserted t n bs = (\<lambda>(r, t'). nyb_ok t' \<and> extends t t' \<and>
     (if r = -1 then int (length (hi t')) = all_ones (width t) \<and> ready t' n bs \<and> marked t' = marked t \<and> walk t' n bs = None
      else 0 \<le> r \<and> tidy t' \<and> walk t' n bs = Some (nat r) \<and> (\<forall>m. marked t' m \<longleftrightarrow> m = nat r \<or> marked t m)) \<and>
     length (hi t') + missing t' n bs = length (hi t) + missing t n bs)"

lemma inserted_step:
  assumes "extends t t1" "marked t1 = marked t" "hmap t1 (n, hi_nybble b) = Some m" "lmap t1 (m, lo_nybble b) = Some y"
    and "length (hi t1) + missing t1 y bs = length (hi t) + missing t n (b # bs)" "inserted t1 y bs res" "n < length (hi t)"
  shows "inserted t n (b # bs) res"
proof -
  obtain r t' where res: "res = (r, t')" by (cases res)
  have i: "nyb_ok t'" "extends t1 t'" using assms(6) by (auto simp: inserted_def res)
  note x = extends_maps [OF i(2)]
  have e: "edge t' n b = Some y" using x(1,2) assms(3,4) by (simp add: edge_def)
  have s: "ready t' y bs \<Longrightarrow> ready t' n (b # bs)"
    using x(1) [OF assms(3)] x(2) [OF assms(4)] assms(7) extends_maps(4) [OF assms(1)] x(4) by (auto simp: ready_def)
  show ?thesis using assms(2,5,6) i extends_trans [OF assms(1) i(2)] e s extends_maps(5) [OF assms(1)]
    by (auto simp: inserted_def res split: if_split_asm)
qed

lemma insert_loop_spec: "ready t n bs \<Longrightarrow> succeeds (insert_loop bs (int n) t) (inserted t n bs)"
proof (induction bs arbitrary: n t)
  case Nil
  then have t: "nyb_ok t" "n < length (hi t)" "tidy t" by (auto simp: ready_def)
  obtain t' where t': "set_has t (int n) = Some t'" "hi t' = hi t" "lo t' = lo t" "width t' = width t"
    "\<forall>m. marked t' m \<longleftrightarrow> m = nat (int n) \<or> marked t m" using set_has_marked [of "int n" t] by auto
  have same: "hmap t' = hmap t" "lmap t' = lmap t" "edge t' = edge t" using t'(2,3) by (simp_all add: hmap_def lmap_def edge_def fun_eq_iff)
  have "nyb_ok t'" using t(1,2) t'(2-5) same unfolding nyb_ok_def by auto
  then show ?case using t t' same by (simp add: inserted_def extends_def tidy_def)
next
  case (Cons b bs)
  have t: "nyb_ok t" "n < length (hi t)" using Cons.prems by (auto simp: ready_def)
  define t1 where "t1 = (if hmap t (n, hi_nybble b) = None then add_row n (hi_nybble b) t else t)"
  have full: "int (length (hi t)) \<le> all_ones (width t)" using nyb_okD(9) [OF t(1)] .
  have room: "int (length (lo t)) < all_ones (width t)" if "hmap t (n, hi_nybble b) = None"
    using Cons.prems that full by (auto simp: ready_def tidy_def)
  note row = add_row_ok [OF t nybble_bounds(2) [of b] room] extends_add_row [OF t nybble_bounds(2) [of b] room]
  have 1: "nyb_ok t1" "extends t t1" "length (hi t1) = length (hi t)" "width t1 = width t" "marked t1 = marked t"
    "insert_loop (b # bs) (int n) t = insert_loop (b # bs) (int n) t1"
    using t(1) row insert_loop_new_row [OF t _ room] by (auto simp: t1_def)
  obtain m where m: "hmap t1 (n, hi_nybble b) = Some m" using row(2) by (cases "hmap t (n, hi_nybble b)") (auto simp: t1_def)
  have small: "lmap t1 (m, lo_nybble b) = None \<Longrightarrow> length (lo t1) \<le> length (hi t1)"
    using Cons.prems row(4,5) by (auto simp: t1_def ready_def tidy_def split: option.splits)
  have old: "t1 = t" if y: "lmap t1 (m, lo_nybble b) = Some y" for y
  proof (rule ccontr)
    assume "t1 \<noteq> t"
    then have none: "hmap t (n, hi_nybble b) = None" unfolding t1_def by (meson if_not_P)
    then have "m = length (lo t)" "lmap t (m, lo_nybble b) = Some y" using m y row(2,3) by (auto simp: t1_def)
    then show False using map_ranges(4) [OF t(1)] by fastforce
  qed
  note step = insert_loop_old_row [OF 1(1) _ m, of bs, unfolded 1(3)]
  show ?case
  proof (cases "lmap t1 (m, lo_nybble b)")
    case (Some y)
    note eq = old [OF Some]
    have e: "edge t n b = Some y" using m Some unfolding eq by (simp add: edge_def)
    have "ready t1 y bs" using Cons.prems m Some t edge_range [OF t(1) e] unfolding eq by (auto simp: ready_def)
    from Cons.IH [OF this] show ?thesis unfolding 1(6) step [OF t(2)] Some option.case
      by (rule succeeds_mono) (rule inserted_step [OF 1(2,5) m Some], use eq e t(2) in auto)
  next
    case None
    have "edge t n b = None" using extends_maps(3) [OF 1(2), of n b] m None by (cases "edge t n b") (auto simp: edge_def)
    have e1: "edge t1 n b = None" using m None by (simp add: edge_def)
    show ?thesis
    proof (cases "int (length (hi t)) = all_ones (width t)")
      case True
      have "ready t1 n (b # bs)" using 1(1,3) t(2) small [OF None] m None by (auto simp: ready_def)
      then show ?thesis using True 1 e1 \<open>edge t n b = None\<close> unfolding 1(6) step [OF t(2)] None by (simp add: inserted_def)
    next
      case False
      have m': "m < length (lo t1)" "int (length (hi t1)) < all_ones (width t1)"
        using map_ranges(1) [OF 1(1) m] False full 1(3,4) by auto
      note node = add_node_ok [OF 1(1) m'(1) nybble_bounds(1) [of b] m'(2)]
      have x: "extends t (add_node m (lo_nybble b) t1)"
        using extends_trans [OF 1(2) extends_add_node [OF 1(1) m'(1) nybble_bounds(1) m'(2) None]] .
      have td: "tidy (add_node m (lo_nybble b) t1)" using small [OF None] node(4,5) by (simp add: tidy_def)
      have rd: "ready (add_node m (lo_nybble b) t1) (length (hi t)) bs"
        using node(1,5) td 1(3) by (simp add: ready_def)
      have "missing (add_node m (lo_nybble b) t1) (length (hi t)) bs = length bs"
      proof (rule missing_fresh [OF node(1)])
        have "hmap t1 (length (hi t), k) = None" for k
          using map_ranges(3) [OF 1(1), of "(length (hi t), k)"] 1(3) by (cases "hmap t1 (length (hi t), k)") auto
        then show "edge (add_node m (lo_nybble b) t1) (length (hi t)) c = None" for c by (simp add: edge_def node(3))
      qed
      then have len: "length (hi (add_node m (lo_nybble b) t1)) + missing (add_node m (lo_nybble b) t1) (length (hi t)) bs =
          length (hi t) + missing t n (b # bs)" using node(5) 1(3) \<open>edge t n b = None\<close> by simp
      have mk: "marked (add_node m (lo_nybble b) t1) = marked t" using node(7) 1(5) by simp
      have new: "hmap (add_node m (lo_nybble b) t1) (n, hi_nybble b) = Some m"
        "lmap (add_node m (lo_nybble b) t1) (m, lo_nybble b) = Some (length (hi t))" using m node(2,3) 1(3) by simp_all
      from Cons.IH [OF rd] show ?thesis
        unfolding 1(6) step [OF t(2)] None option.case 1(4) if_not_P [OF False]
        by (rule succeeds_mono) (rule inserted_step [OF x mk new len _ t(2)])
    qed
  qed
qed

section \<open>Growing and inserting into the trie\<close>

lemma grow_ok:
  assumes "nyb_ok t" "width t < w" "w \<in> {8, 16, 32}"
  shows "nyb_ok (grow w t)" "hmap (grow w t) = hmap t" "lmap (grow w t) = lmap t" "edge (grow w t) = edge t" "marked (grow w t) = marked t"
    "length (hi (grow w t)) = length (hi t)" "length (lo (grow w t)) = length (lo t)" "width (grow w t) = w"
proof -
  note d = nyb_okD [OF assms(1)]
  note g = entries_grow [OF d(3) assms(2)] entries_grow [OF d(4) assms(2)]
  show len: "length (hi (grow w t)) = length (hi t)" "length (lo (grow w t)) = length (lo t)" and w: "width (grow w t) = w"
    by (simp_all add: grow_def grow_rows_def)
  show m: "hmap (grow w t) = hmap t" "lmap (grow w t) = lmap t" "marked (grow w t) = marked t"
    unfolding hmap_def lmap_def len using g(2,4) by (simp_all add: grow_def marked_def fun_eq_iff)
  then show "edge (grow w t) = edge t" by (simp add: edge_def fun_eq_iff)
  have "hi (grow w t) \<noteq> []" using d(2) len(1) by (metis length_0_conv)
  then show "nyb_ok (grow w t)"
    unfolding nyb_ok_def m len w using assms(3) d(5-8) g(1,3) by (simp add: grow_def)
qed

lemma walk_cong: "edge t' = edge t \<Longrightarrow> walk t' n bs = walk t n bs"
  by (induction bs arbitrary: n) simp_all

lemma missing_cong: "edge t' = edge t \<Longrightarrow> missing t' n bs = missing t n bs"
  by (induction bs arbitrary: n) (auto split: option.split)

lemma stuck_cong: "hmap t' = hmap t \<Longrightarrow> lmap t' = lmap t \<Longrightarrow> stuck t' n bs = stuck t n bs"
  by (induction bs arbitrary: n) (auto split: option.split)

lemma grow_ready: "ready t n bs \<Longrightarrow> width t < w \<Longrightarrow> w \<in> {8, 16, 32} \<Longrightarrow> ready (grow w t) n bs"
proof -
  assume r: "ready t n bs" and w: "width t < w" "w \<in> {8, 16, 32}"
  note g = grow_ok [OF _ w]
  show "ready (grow w t) n bs" using r unfolding ready_def tidy_def
    by (elim conjE) (simp only: g stuck_cong [OF g(2,3)] simp_thms)
qed

definition tree_ext :: "nybbles \<Rightarrow> nybbles \<Rightarrow> bool" where
  "tree_ext t t' \<longleftrightarrow> length (hi t) \<le> length (hi t') \<and> (\<forall>bs m. walk t 0 bs = Some m \<longrightarrow> walk t' 0 bs = Some m) \<and>
     (\<forall>bs m. walk t' 0 bs = Some m \<longrightarrow> m < length (hi t) \<longrightarrow> walk t 0 bs = Some m)"

lemma tree_ext_trans: "tree_ext t t1 \<Longrightarrow> tree_ext t1 t2 \<Longrightarrow> tree_ext t t2"
  unfolding tree_ext_def by (meson dual_order.strict_trans1 dual_order.trans)

lemma extends_tree: "extends t t' \<Longrightarrow> nyb_ok t \<Longrightarrow> tree_ext t t'"
  unfolding tree_ext_def using walk_extends walk_extends_old extends_maps(4) by blast

lemma grow_tree: "nyb_ok t \<Longrightarrow> width t < w \<Longrightarrow> w \<in> {8, 16, 32} \<Longrightarrow> tree_ext t (grow w t)"
  using walk_cong [OF grow_ok(4)] grow_ok(6) unfolding tree_ext_def by simp

definition key_added :: "nybbles \<Rightarrow> bytes \<Rightarrow> int \<times> nybbles \<Rightarrow> bool" where
  "key_added t key = (\<lambda>(r, t'). 0 \<le> r \<and> nyb_ok t' \<and> tidy t' \<and> tree_ext t t' \<and> walk t' 0 key = Some (nat r) \<and>
     (\<forall>m. marked t' m \<longleftrightarrow> m = nat r \<or> marked t m) \<and> length (hi t') \<le> length (hi t) + missing t 0 key)"

lemma insert_again_spec:
  "ready t 0 key \<Longrightarrow> int (length (hi t) + missing t 0 key) \<le> all_ones 32 \<Longrightarrow> succeeds (insert_again key t) (key_added t key)"
proof (induction key t rule: insert_again.induct)
  case (1 key t)
  have t: "nyb_ok t" "hi t \<noteq> []" using "1.prems"(1) nyb_okD(2) by (auto simp: ready_def)
  obtain r t1 where run: "insert_key key t = Some (r, t1)" and i: "inserted t 0 key (r, t1)"
    using insert_loop_spec [OF "1.prems"(1)] t(2) by (auto simp: insert_key_def succeeds_def)
  have x: "nyb_ok t1" "extends t t1" "length (hi t1) + missing t1 0 key = length (hi t) + missing t 0 key"
    "width t1 = width t" "tree_ext t t1" using i extends_maps(5) extends_tree [OF _ t(1)] by (auto simp: inserted_def)
  show ?case
  proof (cases "r = -1")
    case False
    then show ?thesis using i x by (auto simp: insert_again.simps [of key t] run inserted_def key_added_def)
  next
    case True
    have f: "int (length (hi t1)) = all_ones (width t1)" "ready t1 0 key" "marked t1 = marked t" "missing t1 0 key > 0"
      using i True x(4) missing_zero [of t1 0 key] by (auto simp: inserted_def)
    have again: "succeeds (insert_again key (grow w t1)) (key_added t key)"
      if w: "width t1 < w" "w \<in> {8, 16, 32}" and IH: "ready (grow w t1) 0 key \<Longrightarrow>
        int (length (hi (grow w t1)) + missing (grow w t1) 0 key) \<le> all_ones 32 \<Longrightarrow>
        succeeds (insert_again key (grow w t1)) (key_added (grow w t1) key)" for w
    proof -
      note g = grow_ok [OF x(1) w]
      have "length (hi (grow w t1)) + missing (grow w t1) 0 key = length (hi t) + missing t 0 key"
        using g(6) x(3) missing_cong [OF g(4)] by simp
      with IH [OF grow_ready [OF f(2) w]] "1.prems"(2)
      have "succeeds (insert_again key (grow w t1)) (key_added (grow w t1) key)" by simp
      moreover have "tree_ext t (grow w t1)" using tree_ext_trans [OF x(5) grow_tree [OF x(1) w]] .
      ultimately show ?thesis using g(5,6) f(3) x(3) missing_cong [OF g(4), of 0 key] tree_ext_trans [of t "grow w t1"]
        by (elim succeeds_mono) (auto simp: key_added_def)
    qed
    have "width t1 \<noteq> 32"
    proof
      assume "width t1 = 32"
      then have "int (length (hi t1) + missing t1 0 key) \<le> int (length (hi t1))" using "1.prems"(2) x(3) f(1) by simp
      then show False using f(4) by simp
    qed
    then consider "width t1 = 8" | "width t1 = 16" using nyb_okD(1) [OF x(1)] by auto
    then show ?thesis
    proof cases
      case 1
      then show ?thesis using again [of 16] "1.IH"(1) [OF run] True by (simp add: insert_again.simps [of key t] run)
    next
      case 2
      then show ?thesis using again [of 32] "1.IH"(2) [OF run] True by (simp add: insert_again.simps [of key t] run)
    qed
  qed
qed

section \<open>The map that a trie represents\<close>

definition value_at :: "'v list \<Rightarrow> nybbles \<Rightarrow> bytes \<Rightarrow> 'v option" where
  "value_at vs i k = (case walk i 0 k of None \<Rightarrow> None | Some n \<Rightarrow> if marked i n then Some (vs ! n) else None)"

lemma value_at_Some: "value_at vs i k = Some x \<longleftrightarrow> (\<exists>m. walk i 0 k = Some m \<and> marked i m \<and> x = vs ! m)"
  by (auto simp: value_at_def split: option.split)

definition trie_map :: "'v trie \<Rightarrow> bytes \<Rightarrow> 'v option" where
  "trie_map t k = (case impl t of None \<Rightarrow> None | Some i \<Rightarrow> value_at (tvalues t) i k)"

definition trie_ok :: "'v trie \<Rightarrow> bool" where
  "trie_ok t \<longleftrightarrow> (case impl t of None \<Rightarrow> tvalues t = [] | Some i \<Rightarrow> nyb_ok i \<and> tidy i \<and> (\<forall>m. marked i m \<longrightarrow> m < length (tvalues t)))"

definition trie_nodes :: "'v trie \<Rightarrow> nat" where
  "trie_nodes t = (case impl t of None \<Rightarrow> 1 | Some i \<Rightarrow> length (hi i))"

text \<open>The first key finds only a root.\<close>

definition root_only :: nybbles where
  "root_only = \<lparr>width = 8, hi = appendAllOnes 8 [], lo = [], hasValue = []\<rparr>"

lemma root_only_ok: "nyb_ok root_only" "tidy root_only" "\<not> marked root_only m" "length (hi root_only) = 1"
proof -
  have e: "entries [replicate 16 255] 0 p = None" for p
    by (cases p) (auto simp: entries_def)
  have l: "entries [] k p = None" for k p by (cases p) (simp add: entries_def)
  show "nyb_ok root_only" "tidy root_only" "\<not> marked root_only m" "length (hi root_only) = 1"
    by (auto simp: nyb_ok_def root_only_def rows_ok_def hmap_def lmap_def pinj_def tidy_def marked_def appendAllOnes_def
        e l all_ones_def simp del: split_paired_All)
qed

definition base :: "'v trie \<Rightarrow> nybbles" where
  "base t = (case impl t of None \<Rightarrow> root_only | Some i \<Rightarrow> i)"

lemma base_ok:
  assumes "trie_ok t"
  shows "nyb_ok (base t)" "tidy (base t)" "marked (base t) m \<Longrightarrow> m < length (tvalues t)" "length (hi (base t)) = trie_nodes t"
    "trie_map t k = value_at (tvalues t) (base t) k"
  using assms root_only_ok by (auto simp: base_def trie_ok_def trie_nodes_def trie_map_def value_at_def split: option.splits)

lemma insert_base:
  "insert_again key (case impl t of Some i \<Rightarrow> i | None \<Rightarrow> \<lparr>width = 8, hi = [], lo = [], hasValue = []\<rparr>) = insert_again key (base t)"
proof -
  have "insert_key key \<lparr>width = 8, hi = [], lo = [], hasValue = []\<rparr> = insert_key key root_only"
    by (simp add: insert_key_def root_only_def appendAllOnes_def)
  then have "insert_again key \<lparr>width = 8, hi = [], lo = [], hasValue = []\<rparr> = insert_again key root_only"
    by (simp only: insert_again.simps [of key "\<lparr>width = 8, hi = [], lo = [], hasValue = []\<rparr>"] insert_again.simps [of key root_only])
  then show ?thesis by (simp add: base_def split: option.split)
qed

text \<open>Insertion updates the map.\<close>

lemma Insert_spec:
  assumes ok: "trie_ok t" and room: "int (trie_nodes t + length key) \<le> all_ones 32"
  shows "succeeds (Insert z key v t) (\<lambda>t'. trie_ok t' \<and> trie_map t' = (trie_map t)(key \<mapsto> v) \<and>
    trie_nodes t' \<le> trie_nodes t + length key)"
proof -
  let ?i = "base t"
  note b = base_ok [OF ok]
  have "ready ?i 0 key" using b(1,2) nyb_okD(2) [OF b(1)] by (simp add: ready_def)
  moreover have "int (length (hi ?i) + missing ?i 0 key) \<le> all_ones 32" using room b(4) missing_le [of ?i 0 key] by simp
  ultimately obtain r i' where run: "insert_again key ?i = Some (r, i')" and a: "key_added ?i key (r, i')"
    using insert_again_spec [of ?i key] by (auto simp: succeeds_def)
  have i': "0 \<le> r" "nyb_ok i'" "tidy i'" "tree_ext ?i i'" "walk i' 0 key = Some (nat r)"
    and mk: "marked i' m \<longleftrightarrow> m = nat r \<or> marked ?i m" and len: "length (hi i') \<le> length (hi ?i) + missing ?i 0 key" for m
    using a by (auto simp: key_added_def)
  let ?vs = "tvalues t @ replicate (nat (r + 1 - int (length (tvalues t)))) z"
  let ?t' = "\<lparr>impl = Some i', tvalues = ?vs[nat r := v]\<rparr>"
  have rl: "nat r < length ?vs" "length (tvalues t) \<le> length ?vs" using i'(1) by auto
  have I: "Insert z key v t = Some ?t'" using i'(1) run by (simp add: Insert_def insert_base)
  have map: "value_at (?vs[nat r := v]) i' k = ((value_at (tvalues t) ?i)(key \<mapsto> v)) k" for k
  proof (cases "k = key")
    case True
    then show ?thesis using i'(5) mk rl(1) by (simp add: value_at_def)
  next
    case False
    then have ne: "walk i' 0 k \<noteq> Some (nat r)" using walk_inj [OF i'(2) _ i'(5)] by blast
    have w: "walk i' 0 k = Some m \<and> marked i' m \<longleftrightarrow> walk ?i 0 k = Some m \<and> marked ?i m" for m
    proof -
      have "walk ?i 0 k = Some m \<Longrightarrow> walk i' 0 k = Some m" "walk i' 0 k = Some m \<Longrightarrow> m < length (hi ?i) \<Longrightarrow> walk ?i 0 k = Some m"
        using i'(4) unfolding tree_ext_def by blast+
      then show ?thesis using ne mk [of m] nyb_okD(8) [OF b(1), of m] by auto
    qed
    have same: "?vs[nat r := v] ! m = tvalues t ! m" if "walk i' 0 k = Some m" "marked ?i m" for m
      using b(3) [OF that(2)] that(1) ne by (cases "nat r = m") (auto simp: nth_append)
    have "value_at (?vs[nat r := v]) i' k = Some x \<longleftrightarrow> value_at (tvalues t) ?i k = Some x" for x
      unfolding value_at_Some
    proof (rule iff_exI)
      fix m
      show "(walk i' 0 k = Some m \<and> marked i' m \<and> x = ?vs[nat r := v] ! m) = (walk ?i 0 k = Some m \<and> marked ?i m \<and> x = tvalues t ! m)"
        using w [of m] same [of m] by metis
    qed
    then show ?thesis using False by (metis fun_upd_other not_Some_eq)
  qed
  have "trie_map ?t' = (trie_map t)(key \<mapsto> v)" using map b(5) by (auto simp: trie_map_def fun_eq_iff)
  moreover have "trie_ok ?t'" using i'(2,3) mk b(3) rl by (auto simp: trie_ok_def intro: trans_less_add1)
  moreover have "trie_nodes ?t' \<le> trie_nodes t + length key" using len b(4) missing_le [of ?i 0 key] by (simp add: trie_nodes_def)
  ultimately show ?thesis unfolding I by simp
qed

section \<open>What searching finds\<close>

text \<open>\<open>n\<close> is the node of the first \<open>i\<close> bytes of the key, or no node when they lead nowhere.\<close>

definition at :: "nybbles \<Rightarrow> bytes \<Rightarrow> nat \<Rightarrow> int \<Rightarrow> bool" where
  "at t key i n \<longleftrightarrow> (case walk t 0 (take i key) of Some m \<Rightarrow> n = int m | None \<Rightarrow> n = all_ones (width t))"

definition hit :: "nybbles \<Rightarrow> bytes \<Rightarrow> nat \<Rightarrow> nat option" where
  "hit t key j = (case walk t 0 (take j key) of Some m \<Rightarrow> if marked t m then Some m else None | None \<Rightarrow> None)"

definition hits :: "nybbles \<Rightarrow> bytes \<Rightarrow> nat \<Rightarrow> (nat \<times> nat) list" where
  "hits t key i = concat (map (\<lambda>j. case hit t key j of Some m \<Rightarrow> [(j, m)] | None \<Rightarrow> []) [i..<Suc (length key)])"

lemma hits_rec:
  "hits t key i = (if length key < i then [] else case hit t key i of Some m \<Rightarrow> (i, m) # hits t key (Suc i) | None \<Rightarrow> hits t key (Suc i))"
  by (auto simp: hits_def upt_conv_Cons simp del: upt_Suc split: option.split)

lemma walk_take_None: "walk t 0 (take i key) = None \<Longrightarrow> i \<le> j \<Longrightarrow> walk t 0 (take j key) = None"
  using walk_append [of t 0 "take i key" "take (j - i) (drop i key)"] by (simp flip: take_add)

lemma hits_None: "walk t 0 (take i key) = None \<Longrightarrow> hits t key i = []"
  using walk_take_None [of t i key] by (auto simp: hits_def hit_def simp del: upt_Suc)

lemma at_hit: "nyb_ok t \<Longrightarrow> at t key i n \<Longrightarrow> has t n = Some (hit t key i \<noteq> None)"
proof -
  assume ok: "nyb_ok t" and a: "at t key i n"
  have "\<not> marked t (nat (all_ones (width t)))" using nyb_okD(8,9) [OF ok] by fastforce
  moreover have "0 \<le> all_ones (width t)" by (simp add: all_ones_def)
  ultimately show ?thesis using a by (auto simp: at_def hit_def has_marked split: option.splits)
qed

text \<open>One step of the walk, which both loops take.\<close>

lemma look:
  assumes ok: "nyb_ok t" and a: "at t key i n" and i: "i < length key"
  obtains (off) "int (length (hi t)) \<le> n" "walk t 0 (take (Suc i) key) = None"
  | (no_row) m where "\<not> int (length (hi t)) \<le> n" "slot (hi t) n (hi_nybble (key ! i)) = Some m"
      "int (length (lo t)) \<le> to_int (width t) m" "walk t 0 (take (Suc i) key) = None"
  | (row) m x where "\<not> int (length (hi t)) \<le> n" "slot (hi t) n (hi_nybble (key ! i)) = Some m"
      "\<not> int (length (lo t)) \<le> to_int (width t) m" "slot (lo t) (to_int (width t) m) (lo_nybble (key ! i)) = Some x"
      "at t key (Suc i) (to_int (width t) x)"
proof (cases "walk t 0 (take i key)")
  case None
  then have "int (length (hi t)) \<le> n" using a nyb_okD(9) [OF ok] by (simp add: at_def)
  then show ?thesis using off walk_take_None [OF None, of "Suc i"] by simp
next
  case (Some p)
  have n: "n = int p" "p < length (hi t)" using Some a walk_range [OF ok _ Some] nyb_okD(2) [OF ok] by (auto simp: at_def)
  have w: "walk t 0 (take (Suc i) key) = edge t p (key ! i)"
    using Some by (simp add: take_Suc_conv_app_nth [OF i] walk_append)
  note d = nyb_okD [OF ok] and c = insert_conversions(1) [OF ok]
  have s1: "slot (hi t) n (hi_nybble (key ! i)) = Some (case hmap t (p, hi_nybble (key ! i)) of Some m \<Rightarrow> int m | None \<Rightarrow> all_ones (width t))"
    using slot_entries [OF d(3) n(2) nybble_bounds(2)] n(1) by (simp add: hmap_def)
  show ?thesis
  proof (cases "hmap t (p, hi_nybble (key ! i))")
    case None
    then show ?thesis using no_row s1 n w d(10) c by (simp add: edge_def)
  next
    case (Some m)
    have m: "m < length (lo t)" using map_ranges(1) [OF ok Some] .
    have "slot (lo t) (int m) (lo_nybble (key ! i)) = Some (case lmap t (m, lo_nybble (key ! i)) of Some y \<Rightarrow> int y | None \<Rightarrow> all_ones (width t))"
      using slot_entries [OF d(4) m nybble_bounds(1)] by (simp add: lmap_def)
    moreover have "edge t p (key ! i) = lmap t (m, lo_nybble (key ! i))" using Some by (simp add: edge_def)
    ultimately show ?thesis using row [of "int m"] s1 Some m n w c
      by (simp add: at_def split: option.splits)
  qed
qed

lemma search_loop_spec:
  "nyb_ok t \<Longrightarrow> at t key i n \<Longrightarrow> search_loop t key i n = Some (map (\<lambda>(j, m). (take j key, int m)) (hits t key (Suc i)))"
proof (induction t key i n rule: search_loop.induct)
  case (1 t key i n)
  show ?case
  proof (cases "length key \<le> i")
    case True
    then show ?thesis by (simp add: search_loop.simps [of t key i n] hits_rec [of t key "Suc i"])
  next
    case False
    then have i: "i < length key" by simp
    from "1.prems" i show ?thesis
    proof (cases rule: look)
      case off
      then show ?thesis using i by (simp add: search_loop.simps [of t key i n] hits_None)
    next
      case (no_row m)
      then show ?thesis using i by (simp add: search_loop.simps [of t key i n] hits_None)
    next
      case (row m x)
      note h = at_hit [OF "1.prems"(1) row(5)]
      note IH = "1.IH" [OF False row(1,2,3,4) h "1.prems"(1)]
      have "hit t key (Suc i) = Some y \<Longrightarrow> to_int (width t) x = int y" for y
        using row(5) by (auto simp: hit_def at_def split: option.splits if_splits)
      then show ?thesis using row i h IH hits_rec [of t key "Suc i"]
        by (auto simp: search_loop.simps [of t key i n] split: option.splits)
    qed
  qed
qed

lemma step_loop_spec:
  "nyb_ok t \<Longrightarrow> 0 < s_i s \<Longrightarrow> at t key (s_i s - 1) (s_n s) \<Longrightarrow>
   succeeds (step_loop t key s) (\<lambda>s1. case hits t key (s_i s) of [] \<Rightarrow> s_n s1 = -1 | (j, m) # _ \<Rightarrow> s1 = \<lparr>s_i = Suc j, s_n = int m\<rparr>)"
proof (induction t key s rule: step_loop.induct)
  case (1 t key s)
  show ?case
  proof (cases "length key < s_i s")
    case True
    then show ?thesis by (simp add: step_loop.simps [of t key s] hits_rec [of t key "s_i s"])
  next
    case False
    then have i: "s_i s - 1 < length key" and suc: "Suc (s_i s - 1) = s_i s" using "1.prems"(2) by auto
    from "1.prems"(1,3) i show ?thesis
    proof (cases rule: look)
      case off
      then show ?thesis using False suc by (simp add: step_loop.simps [of t key s] hits_None)
    next
      case (no_row m)
      then show ?thesis using False suc by (simp add: step_loop.simps [of t key s] hits_None)
    next
      case (row m x)
      note h = at_hit [OF "1.prems"(1) row(5), unfolded suc]
      have v: "hit t key (s_i s) = Some y \<Longrightarrow> to_int (width t) x = int y" for y
        using row(5) suc by (auto simp: hit_def at_def split: option.splits if_splits)
      show ?thesis
      proof (cases "hit t key (s_i s)")
        case None
        with h have f: "\<not> (hit t key (s_i s) \<noteq> None)" by simp
        note IH = "1.IH" [OF False row(1,2,3,4) h f "1.prems"(1)]
        show ?thesis using IH row suc False h None hits_rec [of t key "s_i s"] by (simp add: step_loop.simps [of t key s])
      next
        case (Some y)
        then show ?thesis using row False h v hits_rec [of t key "s_i s"] by (simp add: step_loop.simps [of t key s])
      qed
    qed
  qed
qed

lemma hits_tl: "hits t key i = (j, m) # hs \<Longrightarrow> i \<le> j \<and> j \<le> length key \<and> hs = hits t key (Suc j) \<and> hit t key j = Some m"
proof (induction "Suc (length key) - i" arbitrary: i)
  case 0
  then show ?case by (simp add: hits_rec [of t key i])
next
  case (Suc n)
  show ?case
  proof (cases "hit t key i")
    case None
    then have "hits t key (Suc i) = (j, m) # hs" using Suc by (simp add: hits_rec [of t key i] split: if_splits)
    moreover have "n = Suc (length key) - Suc i" using Suc.hyps(2) by simp
    ultimately have "Suc i \<le> j \<and> j \<le> length key \<and> hs = hits t key (Suc j) \<and> hit t key j = Some m" using Suc.hyps(1) by blast
    then show ?thesis by simp
  next
    case (Some y)
    then show ?thesis using Suc by (auto simp: hits_rec [of t key i] split: if_splits)
  qed
qed

definition searching :: "nybbles \<Rightarrow> bytes \<Rightarrow> searcher \<Rightarrow> bool" where
  "searching t key s \<longleftrightarrow> (if s_i s = 0 then s_n s = 0 else at t key (s_i s - 1) (s_n s))"

lemma at_root: "at t key 0 0"
  by (simp add: at_def)

lemma step_spec:
  assumes "nyb_ok t" "searching t key s"
  shows "succeeds (step t key s) (\<lambda>s1. case hits t key (s_i s) of [] \<Rightarrow> s_n s1 = -1 | (j, m) # _ \<Rightarrow> s1 = \<lparr>s_i = Suc j, s_n = int m\<rparr>)"
proof (cases "s_i s = 0")
  case True
  then have n: "s_n s = 0" using assms(2) by (simp add: searching_def)
  have h: "has t 0 = Some (hit t key 0 \<noteq> None)" by (rule at_hit [OF assms(1) at_root])
  show ?thesis
  proof (cases "hit t key 0")
    case None
    have "at t key (s_i (s\<lparr>s_i := 1\<rparr>) - 1) (s_n (s\<lparr>s_i := 1\<rparr>))" using n by (simp add: at_root)
    from step_loop_spec [OF assms(1) _ this] show ?thesis using None True h hits_rec [of t key 0] by (simp add: step_def)
  next
    case (Some m)
    then have "m = 0" by (simp add: hit_def split: if_splits)
    then show ?thesis using Some True h n hits_rec [of t key 0] by (simp add: step_def)
  qed
next
  case False
  then show ?thesis using step_loop_spec [OF assms(1), of s key] assms(2) by (simp add: step_def searching_def)
qed

lemma prefixes_loop_spec:
  "nyb_ok t \<Longrightarrow> (\<And>m. marked t m \<Longrightarrow> m < length vs) \<Longrightarrow> searching t key s \<Longrightarrow>
   prefixes_loop vs t key s = Some (map (\<lambda>(j, m). (take j key, vs ! m)) (hits t key (s_i s)))"
proof (induction vs t key s rule: prefixes_loop.induct)
  case (1 vs t key s)
  obtain s1 where s1: "step t key s = Some s1"
    "case hits t key (s_i s) of [] \<Rightarrow> s_n s1 = -1 | (j, m) # _ \<Rightarrow> s1 = \<lparr>s_i = Suc j, s_n = int m\<rparr>"
    using step_spec [OF "1.prems"(1,3)] by (auto simp: succeeds_def)
  show ?case
  proof (cases "hits t key (s_i s)")
    case Nil
    then show ?thesis using s1 by (simp add: prefixes_loop.simps [of vs t key s])
  next
    case (Cons h hs)
    obtain j m where h: "h = (j, m)" by (cases h)
    note c = hits_tl [OF Cons [unfolded h]]
    have e: "s1 = \<lparr>s_i = Suc j, s_n = int m\<rparr>" using s1(2) Cons h by simp
    have w: "walk t 0 (take j key) = Some m" "marked t m" using c by (auto simp: hit_def split: option.splits if_splits)
    have "searching t key s1" using w by (simp add: searching_def e at_def)
    moreover have "m < length vs" using "1.prems"(2) w(2) .
    ultimately show ?thesis using "1.IH" [OF s1(1)] "1.prems"(1,2) Cons c h
      by (simp add: prefixes_loop.simps [of vs t key s] s1(1) e)
  qed
qed

section \<open>The interface of a prefix map\<close>

text \<open>The values of the prefixes of a key, shortest first.\<close>

definition prefix_values :: "(bytes \<Rightarrow> 'v option) \<Rightarrow> bytes \<Rightarrow> (bytes \<times> 'v) list" where
  "prefix_values f key = concat (map (\<lambda>j. case f (take j key) of Some v \<Rightarrow> [(take j key, v)] | None \<Rightarrow> []) [0..<Suc (length key)])"

lemma Prefixes_spec:
  assumes "trie_ok t"
  shows "Prefixes t key = Some (prefix_values (trie_map t) key)"
proof (cases "impl t")
  case None
  then show ?thesis by (simp add: Prefixes_def prefix_values_def trie_map_def del: upt_Suc)
next
  case (Some i)
  have i: "nyb_ok i" "marked i m \<Longrightarrow> m < length (tvalues t)" for m using assms Some by (auto simp: trie_ok_def)
  have "map (\<lambda>(j, m). (take j key, tvalues t ! m)) (hits i key 0) = prefix_values (trie_map t) key"
    unfolding hits_def prefix_values_def map_concat map_map comp_def
    by (intro arg_cong [where f = concat] map_cong refl)
       (auto simp: hit_def trie_map_def value_at_def Some split: option.split)
  then show ?thesis using prefixes_loop_spec [OF i, of key "\<lparr>s_i = 0, s_n = 0\<rparr>"] Some
    by (simp add: Prefixes_def searching_def)
qed

locale prefix_map =
  fixes inv :: "'t \<Rightarrow> bool" and lookup :: "'t \<Rightarrow> bytes \<Rightarrow> 'v option" and nodes :: "'t \<Rightarrow> nat" and limit :: int
    and ins :: "bytes \<Rightarrow> 'v \<Rightarrow> 't \<Rightarrow> 't option" and prefs :: "'t \<Rightarrow> bytes \<Rightarrow> (bytes \<times> 'v) list option"
  assumes ins_ok: "inv t \<Longrightarrow> int (nodes t + length k) \<le> limit \<Longrightarrow>
      succeeds (ins k v t) (\<lambda>t'. inv t' \<and> lookup t' = (lookup t)(k \<mapsto> v) \<and> nodes t' \<le> nodes t + length k)"
    and prefs_ok: "inv t \<Longrightarrow> prefs t k = Some (prefix_values (lookup t) k)"
begin

fun ins_all :: "(bytes \<times> 'v) list \<Rightarrow> 't \<Rightarrow> 't option" where
  "ins_all [] t = Some t"
| "ins_all ((k, v) # kvs) t = Option.bind (ins k v t) (ins_all kvs)"

lemma ins_all_ok:
  "inv t \<Longrightarrow> int (nodes t + sum_list (map (length \<circ> fst) kvs)) \<le> limit \<Longrightarrow>
   succeeds (ins_all kvs t) (\<lambda>t'. inv t' \<and> lookup t' = lookup t ++ map_of (rev kvs))"
proof (induction kvs arbitrary: t)
  case (Cons kv kvs)
  obtain k v where kv: "kv = (k, v)" by (cases kv)
  obtain t1 where 1: "ins k v t = Some t1" "inv t1" "lookup t1 = (lookup t)(k \<mapsto> v)" "nodes t1 \<le> nodes t + length k"
    using ins_ok [OF Cons.prems(1), of k v] Cons.prems(2) kv by (auto simp: succeeds_def)
  have upd: "(lookup t)(k \<mapsto> v) ++ map_of (rev kvs) = lookup t ++ map_of (rev (kv # kvs))"
    by (auto simp: kv map_add_def fun_eq_iff split: option.split)
  have "int (nodes t1 + sum_list (map (length \<circ> fst) kvs)) \<le> limit" using 1(4) Cons.prems(2) kv by (simp add: comp_def)
  from Cons.IH [OF 1(2) this] show ?case by (simp only: kv ins_all.simps 1(1,3) Option.bind.bind_lunit upd [unfolded kv])
qed simp

text \<open>After any insertions the prefixes found are those of the last value of each key.\<close>

lemma prefixes_of_inserted:
  assumes "inv t" "\<And>k. lookup t k = None" "int (nodes t + sum_list (map (length \<circ> fst) kvs)) \<le> limit"
  shows "\<exists>t'. ins_all kvs t = Some t' \<and> inv t' \<and> prefs t' key = Some (prefix_values (map_of (rev kvs)) key)"
proof -
  have "lookup t = Map.empty" using assms(2) by auto
  then show ?thesis using ins_all_ok [OF assms(1,3)] prefs_ok by (auto simp: succeeds_def)
qed

end

interpretation radix: prefix_map trie_ok trie_map trie_nodes "all_ones 32" "Insert z" Prefixes for z
  by unfold_locales (rule Insert_spec Prefixes_spec; assumption)+

section \<open>Properties\<close>

fun Insert_all :: "'v \<Rightarrow> (bytes \<times> 'v) list \<Rightarrow> 'v trie \<Rightarrow> 'v trie option" where
  "Insert_all z [] t = Some t"
| "Insert_all z ((k, v) # kvs) t = do { t1 \<leftarrow> Insert z k v t; Insert_all z kvs t1 }"

lemma Insert_all_radix: "Insert_all z kvs t = radix.ins_all z kvs t"
  by (induction z kvs t rule: Insert_all.induct) (auto split: Option.bind_split)

lemma empty_trie_ok: "trie_ok empty_trie" "trie_map empty_trie k = None" "trie_nodes empty_trie = 1"
  by (simp_all add: empty_trie_def trie_ok_def trie_map_def trie_nodes_def)

text \<open>C16: the trie is a map from strings with prefix lookup. Any insertions whose keys have together fewer than
  \<open>2^32 - 1\<close> bytes run without a panic, through every change of index width; afterwards \<open>Prefixes\<close> yields
  exactly the prefixes of a key that were inserted, shortest first, each with the value inserted last, and \<open>Get\<close>
  returns the longest, or the zero values when there is none.\<close>

theorem trie_finds_inserted_prefixes:
  assumes "int (sum_list (map (length \<circ> fst) kvs)) < 2 ^ 32 - 1"
  shows "\<exists>t. Insert_all z kvs empty_trie = Some t \<and> Prefixes t key = Some (prefix_values (map_of (rev kvs)) key) \<and>
    Get z t key = Some (if prefix_values (map_of (rev kvs)) key = [] then ([], z) else last (prefix_values (map_of (rev kvs)) key))"
proof -
  have room: "int (trie_nodes (empty_trie :: 'a trie) + sum_list (map (length \<circ> fst) kvs)) \<le> all_ones 32"
    using assms by (simp add: empty_trie_ok(3) all_ones_def)
  from radix.prefixes_of_inserted [OF empty_trie_ok(1,2) room, of z key] show ?thesis
    by (auto simp: Insert_all_radix Get_def)
qed

text \<open>The search with a callback and the search step by step find the same: \<open>search\<close> yields the nodes whose
  values \<open>Prefixes\<close> yields, with the same prefixes.\<close>

theorem search_agrees_with_Prefixes:
  assumes "int (sum_list (map (length \<circ> fst) kvs)) < 2 ^ 32 - 1" "Insert_all z kvs empty_trie = Some t" "impl t = Some i"
  shows "\<exists>ps. search i key = Some ps \<and> Prefixes t key = Some (map (\<lambda>(p, n). (p, tvalues t ! nat n)) ps)"
proof -
  have room: "int (trie_nodes (empty_trie :: 'a trie) + sum_list (map (length \<circ> fst) kvs)) \<le> all_ones 32"
    using assms(1) by (simp add: empty_trie_ok(3) all_ones_def)
  have ok: "trie_ok t" using radix.prefixes_of_inserted [OF empty_trie_ok(1,2) room, of z key] assms(2)
    by (simp add: Insert_all_radix)
  have i: "nyb_ok i" "marked i m \<Longrightarrow> m < length (tvalues t)" for m using ok assms(3) by (auto simp: trie_ok_def)
  have "hit i key 0 = Some m \<Longrightarrow> m = 0" for m by (simp add: hit_def split: if_splits)
  then have "search i key = Some (map (\<lambda>(j, m). (take j key, int m)) (hits i key 0))"
    using at_hit [OF i(1) at_root, of key] search_loop_spec [OF i(1) at_root, of key] hits_rec [of i key 0]
    by (auto simp: search_def split: option.splits)
  moreover have "Prefixes t key = Some (map (\<lambda>(j, m). (take j key, tvalues t ! m)) (hits i key 0))"
    using prefixes_loop_spec [OF i, of key "\<lparr>s_i = 0, s_n = 0\<rparr>"] assms(3) by (simp add: Prefixes_def searching_def)
  ultimately show ?thesis by (auto simp: comp_def case_prod_unfold)
qed

definition demo_keys :: "(bytes \<times> nat) list" where
  "demo_keys = [([97], 1), ([97, 98, 99], 2), ([], 3), ([97], 4)]"

lemma demo_prefixes: "prefix_values (map_of (rev demo_keys)) [97, 98, 99, 100] = [([], 3), ([97], 4), ([97, 98, 99], 2)]"
  by code_simp

theorem trie_finds_inserted_prefixes_witness:
  "\<exists>t. Insert_all 0 demo_keys empty_trie = Some t \<and> Get 0 t [97, 98, 99, 100] = Some ([97, 98, 99], 2)"
proof -
  have "int (sum_list (map (length \<circ> fst) demo_keys)) < 2 ^ 32 - 1" by (simp add: demo_keys_def)
  from trie_finds_inserted_prefixes [OF this, of 0 "[97, 98, 99, 100]"] show ?thesis unfolding demo_prefixes by auto
qed

theorem search_agrees_with_Prefixes_witness:
  "\<exists>t i ps. Insert_all 0 demo_keys empty_trie = Some t \<and> impl t = Some i \<and> search i [97, 98] = Some ps \<and>
     Prefixes t [97, 98] = Some (map (\<lambda>(p, n). (p, tvalues t ! nat n)) ps)"
proof -
  have len: "int (sum_list (map (length \<circ> fst) demo_keys)) < 2 ^ 32 - 1" by (simp add: demo_keys_def)
  have run: "(case Insert_all 0 demo_keys empty_trie of Some t \<Rightarrow> impl t \<noteq> None | None \<Rightarrow> False)" by code_simp
  then obtain t i where "Insert_all 0 demo_keys empty_trie = Some t" "impl t = Some i" by (auto split: option.splits)
  then show ?thesis using search_agrees_with_Prefixes [OF len, of 0 t i "[97, 98]"] by blast
qed

text \<open>At 64 bits the missing entry, all ones, converts to the index \<open>- 1\<close>, which the tests for a missing entry do
  not recognise: an insertion that needs a new row panics. The trie gets there with \<open>2^32 - 1\<close> nodes.\<close>

lemma insert_at_64_bits_panics:
  assumes "width t = 64" "slot (hi t) n (hi_nybble b) = Some (all_ones 64)" "int (length (lo t)) < 2 ^ 32"
  shows "insert_loop (b # bs) n t = None"
  using assms by (simp add: to_int_def all_ones_def slot_def)
end
