(* ===== verification/Driver.thy ===== *)
theory Driver
  imports Prelude
begin

text \<open>
  The compiler driver: \<open>compiler.go\<close> and the resolvers of \<open>resolver.go\<close>.

  \<open>Compile\<close> starts a task, a goroutine, for every file, which starts tasks for the files it imports and waits
  for them; a semaphore bounds how many run. Everything that a task does between two accesses to shared state is
  one step of \<open>task_step\<close>; a run interleaves the steps of the tasks, of \<open>Compile\<close> and of the caller, who may
  cancel the context. What is decided outside (the choice of a \<open>select\<close>, an error or a panic of the code that
  resolves, parses and links) is the argument \<^emph>\<open>choice\<close> of a step.

  The resolver, parser and linker are parameters. An import cycle is reported to the handler, whose
  \<open>Error\<close> is then not nil (\<open>Reporter\<close>); the error that is returned is \<open>HandlerErr\<close>.
\<close>

type_synonym path = string

datatype derr =
    FindErr string
  | FailedToResolve path string
  | Mismatch path path
  | ExtErr string
  | HandlerErr
  | CtxErr
  | PanicErr path
  | ImportErr path derr

section \<open>Search results\<close>

record ast_file =
  ast_name :: path
  ast_deps :: "path list"

record parse_result =
  pr_name :: path
  pr_deps :: "path list"
  is_link :: bool

record search_result =
  Source :: "string option"
  AST :: "ast_file option"
  Proto :: "parse_result option"
  ParseResult :: "parse_result option"
  Desc :: "(path \<times> nat) option"

definition no_result :: search_result where
  "no_result = \<lparr>Source = None, AST = None, Proto = None, ParseResult = None, Desc = None\<rparr>"

type_synonym resolver = "path \<Rightarrow> string + search_result"

definition protoregistry_NotFound :: string where
  "protoregistry_NotFound = ''not found''"

fun composite_loop :: "resolver list \<Rightarrow> path \<Rightarrow> string option \<Rightarrow> string + search_result" where
  "composite_loop [] path firstErr = (case firstErr of Some e \<Rightarrow> Inl e | None \<Rightarrow> Inr no_result)"
| "composite_loop (res # f) path firstErr =
     (case res path of
        Inr r \<Rightarrow> Inr r
      | Inl err \<Rightarrow> composite_loop f path (case firstErr of None \<Rightarrow> Some err | Some e \<Rightarrow> Some e))"

definition CompositeResolver :: "resolver list \<Rightarrow> resolver" where
  "CompositeResolver f path = (if f = [] then Inl protoregistry_NotFound else composite_loop f path None)"

text \<open>An accessor answers with the contents or with an error and whether it is \<open>fs.ErrNotExist\<close>. When no import
  path has the file the last such error is returned.\<close>

type_synonym accessor = "path \<Rightarrow> (string \<times> bool) + string"

fun source_loop :: "(path \<Rightarrow> path \<Rightarrow> path) \<Rightarrow> accessor \<Rightarrow> path list \<Rightarrow> path \<Rightarrow> string option \<Rightarrow> string + search_result" where
  "source_loop join acc [] path e = (case e of Some e \<Rightarrow> Inl e | None \<Rightarrow> Inr no_result)"
| "source_loop join acc (importPath # ps) path e =
     (case acc (join importPath path) of
        Inl (err, notExist) \<Rightarrow> if notExist then source_loop join acc ps path (Some err) else Inl err
      | Inr reader \<Rightarrow> Inr (no_result\<lparr>Source := Some reader\<rparr>))"

definition SourceResolver :: "(path \<Rightarrow> path \<Rightarrow> path) \<Rightarrow> accessor \<Rightarrow> path list \<Rightarrow> resolver" where
  "SourceResolver join acc importPaths path =
     (if importPaths = [] then
        (case acc path of Inl (err, _) \<Rightarrow> Inl err | Inr reader \<Rightarrow> Inr (no_result\<lparr>Source := Some reader\<rparr>))
      else source_loop join acc importPaths path None)"

definition SourceAccessorFromMap :: "(path \<Rightarrow> string option) \<Rightarrow> accessor" where
  "SourceAccessorFromMap srcs path =
     (case srcs path of None \<Rightarrow> Inl (''file does not exist'', True) | Some src \<Rightarrow> Inr src)"

definition WithStandardImports :: "(path \<Rightarrow> nat option) \<Rightarrow> resolver \<Rightarrow> resolver" where
  "WithStandardImports standardImports r name =
     (case r name of
        Inl err \<Rightarrow> (case standardImports name of Some d \<Rightarrow> Inr (no_result\<lparr>Desc := Some (name, d)\<rparr>) | None \<Rightarrow> Inl err)
      | Inr res \<Rightarrow> Inr res)"

section \<open>Loading a file\<close>

record config =
  Resolver :: resolver
  NewFileRecursive :: "path \<times> nat \<Rightarrow> derr option"
  Clone :: "parse_result \<Rightarrow> parse_result"
  Parse :: "path \<Rightarrow> string option \<Rightarrow> derr + ast_file"
  ResultFromAST :: "ast_file \<Rightarrow> derr + parse_result"
  standardDescriptor :: nat

definition descriptorProtoPath :: path where
  "descriptorProtoPath = ''google/protobuf/descriptor.proto''"

definition hasOverrideDescriptorProto :: "config \<Rightarrow> bool" where
  "hasOverrideDescriptorProto c =
     (case Resolver c descriptorProtoPath of
        Inl _ \<Rightarrow> False
      | Inr res \<Rightarrow> Desc res \<noteq> Some (descriptorProtoPath, standardDescriptor c))"

definition asAST :: "config \<Rightarrow> path \<Rightarrow> search_result \<Rightarrow> derr + ast_file" where
  "asAST c name r =
     (case AST r of
        Some a \<Rightarrow> if ast_name a \<noteq> name then Inl (Mismatch name (ast_name a)) else Inr a
      | None \<Rightarrow> Parse c name (Source r))"

definition asParseResult :: "config \<Rightarrow> path \<Rightarrow> search_result \<Rightarrow> derr + parse_result" where
  "asParseResult c name r =
     (case ParseResult r of
        Some p \<Rightarrow> if pr_name p \<noteq> name then Inl (Mismatch name (pr_name p)) else Inr (Clone c p)
      | None \<Rightarrow>
          (case Proto r of
             Some p \<Rightarrow> if pr_name p \<noteq> name then Inl (Mismatch name (pr_name p)) else Inr (p\<lparr>is_link := False\<rparr>)
           | None \<Rightarrow> (case asAST c name r of Inl e \<Rightarrow> Inl e | Inr file \<Rightarrow> ResultFromAST c file)))"

text \<open>The first half of \<open>asFile\<close>: a file that needs no more work, or the imports of one that has to be linked.\<close>

datatype loaded = Complete | Unlinked "path list"

definition load :: "config \<Rightarrow> path \<Rightarrow> derr + loaded" where
  "load c name =
     (case Resolver c name of
        Inl e \<Rightarrow> Inl (FailedToResolve name e)
      | Inr r \<Rightarrow>
          (case Desc r of
             Some (p, d) \<Rightarrow>
               if p \<noteq> name then Inl (Mismatch name p)
               else (case NewFileRecursive c (p, d) of Some e \<Rightarrow> Inl e | None \<Rightarrow> Inr Complete)
           | None \<Rightarrow>
               (case asParseResult c name r of
                  Inl e \<Rightarrow> Inl e
                | Inr p \<Rightarrow> Inr (if is_link p then Complete else Unlinked (pr_deps p)))))"

text \<open>An overridden \<open>descriptor.proto\<close> is an implicit import of every file that does not import it.\<close>

definition wantsDescriptorProto :: "config \<Rightarrow> path \<Rightarrow> path list \<Rightarrow> bool" where
  "wantsDescriptorProto c name deps \<longleftrightarrow>
     hasOverrideDescriptorProto c \<and> name \<noteq> descriptorProtoPath \<and> descriptorProtoPath \<notin> set deps"

definition all_imports :: "config \<Rightarrow> path \<Rightarrow> path list \<Rightarrow> path list" where
  "all_imports c name deps = (if wantsDescriptorProto c name deps then deps @ [descriptorProtoPath] else deps)"

section \<open>Tasks\<close>

record result =
  explicitFile :: bool
  ready :: "(derr + path) option"
  blockedOn :: "path list"

text \<open>Where a task is. \<open>Importing ds todo ck\<close> is the loop over the imports with the map \<open>checked\<close>;
  \<open>Checking ds todo ck call stack\<close> runs \<open>checkForDependencyCycle\<close> for one of them: a pending call with its
  sequence, and for each active call the sequence and the dependencies that its loop has still to look at.
  In \<open>Closing\<close> and \<open>Panicking\<close> the flag says whether the task holds a permit.\<close>

datatype pc =
    Spawned
  | Resolving
  | Parsed "path list"
  | Importing "path list" "path list" "path list"
  | Checking "path list" "path list" "path list" "(path \<times> path list) option" "(path list \<times> path list) list"
  | Wanting "path list"
  | Releasing "path list"
  | Waiting "path list" "path list"
  | WaitingDesc "path list"
  | Unblocking "path list"
  | Reacquiring "path list"
  | Linking "path list"
  | Closing bool
  | Panicking bool
  | Recovering
  | Finished

datatype main_pc = MainWait nat "derr option" | MainReturned "derr option"

record cstate =
  results :: "path \<Rightarrow> result option"
  tasks :: "path \<Rightarrow> pc option"
  permits :: nat
  cancelled :: bool
  reports :: "(path list \<times> path) list"
  main :: main_pc

definition compileLocked :: "path \<Rightarrow> bool \<Rightarrow> cstate \<Rightarrow> cstate" where
  "compileLocked f explicit s =
     (if results s f \<noteq> None then s
      else s\<lparr>results := (results s)(f \<mapsto> \<lparr>explicitFile = explicit, ready = None, blockedOn = []\<rparr>),
             tasks := (tasks s)(f \<mapsto> Spawned)\<rparr>)"

definition compile :: "path \<Rightarrow> cstate \<Rightarrow> cstate" where
  "compile f = compileLocked f False"

definition goto :: "path \<Rightarrow> pc \<Rightarrow> cstate \<Rightarrow> cstate" where
  "goto f p s = s\<lparr>tasks := (tasks s)(f \<mapsto> p)\<rparr>"

definition upd_result :: "path \<Rightarrow> (result \<Rightarrow> result) \<Rightarrow> cstate \<Rightarrow> cstate" where
  "upd_result f g s = s\<lparr>results := (results s)(f := map_option g (results s f))\<rparr>"

definition setBlockedOn :: "path \<Rightarrow> path list \<Rightarrow> cstate \<Rightarrow> cstate" where
  "setBlockedOn f deps = upd_result f (\<lambda>r. r\<lparr>blockedOn := deps\<rparr>)"

definition getBlockedOn :: "path \<Rightarrow> cstate \<Rightarrow> path list" where
  "getBlockedOn f s = (case results s f of Some r \<Rightarrow> blockedOn r | None \<Rightarrow> [])"

text \<open>\<open>fail\<close> and \<open>complete\<close>, which close the channel \<open>ready\<close>.\<close>

definition publish :: "path \<Rightarrow> derr + path \<Rightarrow> cstate \<Rightarrow> cstate" where
  "publish f v = upd_result f (\<lambda>r. r\<lparr>ready := Some v\<rparr>)"

definition fail_with :: "path \<Rightarrow> derr \<Rightarrow> bool \<Rightarrow> cstate \<Rightarrow> cstate" where
  "fail_with f e held s = goto f (Closing held) (publish f (Inl e) s)"

definition handleImportCycle :: "path list \<Rightarrow> path \<Rightarrow> cstate \<Rightarrow> cstate" where
  "handleImportCycle sequence dep s = s\<lparr>reports := reports s @ [(sequence, dep)]\<rparr>"

definition result_of :: "path \<Rightarrow> cstate \<Rightarrow> (derr + path) option" where
  "result_of f s = (case results s f of Some r \<Rightarrow> ready r | None \<Rightarrow> None)"

text \<open>An import that the resolver does not find is reported at the import statement.\<close>

definition import_error :: "path \<Rightarrow> derr \<Rightarrow> derr" where
  "import_error dep e = (case e of FailedToResolve _ _ \<Rightarrow> ImportErr dep e | _ \<Rightarrow> e)"

datatype choice = Go_on | Ctx_done | Ext_error string | Ext_panic

text \<open>\<open>doCompile\<close>: wait for a permit, then find the file and load it.\<close>

definition doCompile_acquire :: "choice \<Rightarrow> path \<Rightarrow> cstate \<Rightarrow> cstate option" where
  "doCompile_acquire ch f s =
     (case ch of
        Go_on \<Rightarrow> if 0 < permits s then Some (goto f Resolving (s\<lparr>permits := permits s - 1\<rparr>)) else None
      | Ctx_done \<Rightarrow> if cancelled s then Some (fail_with f CtxErr False s) else None
      | _ \<Rightarrow> None)"

definition doCompile_load :: "config \<Rightarrow> choice \<Rightarrow> path \<Rightarrow> cstate \<Rightarrow> cstate option" where
  "doCompile_load c ch f s =
     (case ch of
        Go_on \<Rightarrow>
          (case load c f of
             Inl e \<Rightarrow> Some (fail_with f e True s)
           | Inr Complete \<Rightarrow> Some (goto f (Closing True) (publish f (Inr f) s))
           | Inr (Unlinked deps) \<Rightarrow> Some (goto f (Parsed deps) s))
      | Ext_panic \<Rightarrow> Some (goto f (Panicking True) s)
      | _ \<Rightarrow> None)"

text \<open>One step of \<open>checkForDependencyCycle\<close>: the start of a call, its return, or one round of its loop.\<close>

definition checkForDependencyCycle ::
  "path \<Rightarrow> path list \<Rightarrow> path list \<Rightarrow> path list \<Rightarrow> (path \<times> path list) option \<Rightarrow> (path list \<times> path list) list \<Rightarrow> cstate \<Rightarrow> cstate" where
  "checkForDependencyCycle f deps rest checked call stack s =
     (case call of
        Some (x, sequence) \<Rightarrow>
          if x \<in> set checked then goto f (Checking deps rest checked None stack) s
          else goto f (Checking deps rest (x # checked) None ((sequence, getBlockedOn x s) # stack)) s
      | None \<Rightarrow>
          (case stack of
             [] \<Rightarrow> goto f (Importing deps rest checked) s
           | (sequence, []) # stack \<Rightarrow> goto f (Checking deps rest checked None stack) s
           | (sequence, dep # ds) # stack \<Rightarrow>
               if dep \<in> set sequence then fail_with f HandlerErr True (handleImportCycle sequence dep s)
               else if results s dep = None then goto f (Checking deps rest checked None ((sequence, ds) # stack)) s
               else goto f (Checking deps rest checked (Some (dep, sequence @ [dep])) ((sequence, ds) # stack)) s))"

text \<open>A step of the goroutine of a file. From \<open>Parsed\<close> to \<open>Linking\<close> it runs \<open>asFile\<close>.\<close>

definition task_step :: "config \<Rightarrow> choice \<Rightarrow> path \<Rightarrow> cstate \<Rightarrow> cstate option" where
  "task_step c ch f s =
     (case tasks s f of
        Some Spawned \<Rightarrow> doCompile_acquire ch f s
      | Some Resolving \<Rightarrow> doCompile_load c ch f s
      | Some (Parsed deps) \<Rightarrow>
          if all_imports c f deps = [] then Some (goto f (Linking deps) s)
          else Some (goto f (Importing deps deps []) (setBlockedOn f (all_imports c f deps) s))
      | Some (Importing deps [] checked) \<Rightarrow> Some (goto f (Wanting deps) s)
      | Some (Importing deps (dep # rest) checked) \<Rightarrow>
          if f = dep then Some (fail_with f HandlerErr True (handleImportCycle [f] dep s))
          else Some (goto f (Checking deps rest checked (Some (dep, [f, dep])) []) (compile dep s))
      | Some (Checking deps rest checked call stack) \<Rightarrow>
          Some (checkForDependencyCycle f deps rest checked call stack s)
      | Some (Wanting deps) \<Rightarrow>
          Some (goto f (Releasing deps) (if wantsDescriptorProto c f deps then compile descriptorProtoPath s else s))
      | Some (Releasing deps) \<Rightarrow> Some (goto f (Waiting deps deps) (s\<lparr>permits := permits s + 1\<rparr>))
      | Some (Waiting deps (dep # rest)) \<Rightarrow>
          (case ch of
             Go_on \<Rightarrow>
               (case result_of dep s of
                  None \<Rightarrow> None
                | Some (Inl e) \<Rightarrow> Some (fail_with f (import_error dep e) False s)
                | Some (Inr _) \<Rightarrow> Some (goto f (Waiting deps rest) s))
           | Ctx_done \<Rightarrow> if cancelled s then Some (fail_with f CtxErr False s) else None
           | _ \<Rightarrow> None)
      | Some (Waiting deps []) \<Rightarrow>
          Some (goto f (if wantsDescriptorProto c f deps then WaitingDesc deps else Unblocking deps) s)
      | Some (WaitingDesc deps) \<Rightarrow>
          (case ch of
             Go_on \<Rightarrow> if result_of descriptorProtoPath s = None then None else Some (goto f (Unblocking deps) s)
           | Ctx_done \<Rightarrow> if cancelled s then Some (fail_with f CtxErr False s) else None
           | _ \<Rightarrow> None)
      | Some (Unblocking deps) \<Rightarrow> Some (goto f (Reacquiring deps) (setBlockedOn f [] s))
      | Some (Reacquiring deps) \<Rightarrow>
          (case ch of
             Go_on \<Rightarrow> if 0 < permits s then Some (goto f (Linking deps) (s\<lparr>permits := permits s - 1\<rparr>)) else None
           | Ctx_done \<Rightarrow> if cancelled s then Some (fail_with f CtxErr False s) else None
           | _ \<Rightarrow> None)
      | Some (Linking deps) \<Rightarrow>
          (case ch of
             Go_on \<Rightarrow> Some (goto f (Closing True) (publish f (Inr f) s))
           | Ext_error e \<Rightarrow> Some (fail_with f (ExtErr e) True s)
           | Ext_panic \<Rightarrow> Some (goto f (Panicking True) s)
           | Ctx_done \<Rightarrow> None)
      | Some (Closing held) \<Rightarrow> Some (goto f Finished (s\<lparr>permits := permits s + of_bool held\<rparr>))
      | Some (Panicking held) \<Rightarrow> Some (goto f Recovering (s\<lparr>permits := permits s + of_bool held\<rparr>))
      | Some Recovering \<Rightarrow> Some (goto f Finished (publish f (Inl (PanicErr f)) s))
      | Some Finished \<Rightarrow> None
      | None \<Rightarrow> None)"

text \<open>\<open>Compile\<close> itself: it waits for the requested files in order. When it returns, the deferred \<open>cancel\<close> runs.
  The handler may hold an error that the parser or the linker reported, and holds one after a cycle.\<close>

definition main_step :: "path list \<Rightarrow> choice \<Rightarrow> cstate \<Rightarrow> cstate option" where
  "main_step files ch s =
     (case main s of
        MainReturned _ \<Rightarrow> None
      | MainWait i firstError \<Rightarrow>
          if i < length files then
            (case ch of
               Go_on \<Rightarrow>
                 (case result_of (files ! i) s of
                    None \<Rightarrow> None
                  | Some (Inl e) \<Rightarrow> Some (s\<lparr>main := MainWait (i + 1) (if firstError = None then Some e else firstError)\<rparr>)
                  | Some (Inr _) \<Rightarrow> Some (s\<lparr>main := MainWait (i + 1) firstError\<rparr>))
             | Ctx_done \<Rightarrow> if cancelled s then Some (s\<lparr>main := MainReturned (Some CtxErr)\<rparr>) else None
             | _ \<Rightarrow> None)
          else
            (case ch of
               Go_on \<Rightarrow> Some (s\<lparr>main := MainReturned (if reports s = [] then firstError else Some HandlerErr), cancelled := True\<rparr>)
             | Ext_error _ \<Rightarrow> Some (s\<lparr>main := MainReturned (Some HandlerErr), cancelled := True\<rparr>)
             | _ \<Rightarrow> None))"

definition start :: "nat \<Rightarrow> path list \<Rightarrow> cstate" where
  "start par files =
     fold (\<lambda>f. compileLocked f True) files
       \<lparr>results = (\<lambda>_. None), tasks = (\<lambda>_. None), permits = par, cancelled = False, reports = [], main = MainWait 0 None\<rparr>"

inductive cstep :: "config \<Rightarrow> path list \<Rightarrow> cstate \<Rightarrow> cstate \<Rightarrow> bool" for c files where
  task: "task_step c ch f s = Some s' \<Longrightarrow> cstep c files s s'"
| compile: "main_step files ch s = Some s' \<Longrightarrow> cstep c files s s'"
| cancel: "\<not> cancelled s \<Longrightarrow> cstep c files s (s\<lparr>cancelled := True\<rparr>)"

inductive creachable :: "config \<Rightarrow> nat \<Rightarrow> path list \<Rightarrow> cstate \<Rightarrow> bool" for c par files where
  init: "creachable c par files (start par files)"
| step: "creachable c par files s \<Longrightarrow> cstep c files s s' \<Longrightarrow> creachable c par files s'"

section \<open>Resolvers\<close>

text \<open>A composite resolver answers as the first of its resolvers that finds the file, and fails as the very first.\<close>

lemma composite_loop_spec:
  "composite_loop fs p e = (case List.find (\<lambda>r. \<exists>x. r p = Inr x) fs of
     Some r \<Rightarrow> r p | None \<Rightarrow> (case e of Some e \<Rightarrow> Inl e | None \<Rightarrow> if fs = [] then Inr no_result else hd fs p))"
  by (induction fs arbitrary: e) (auto split: sum.split option.split)

lemma CompositeResolver_spec:
  "fs \<noteq> [] \<Longrightarrow> CompositeResolver fs p = (case List.find (\<lambda>r. \<exists>x. r p = Inr x) fs of Some r \<Rightarrow> r p | None \<Rightarrow> hd fs p)"
  by (simp add: CompositeResolver_def composite_loop_spec split: option.split)

text \<open>With import paths the first path decides that has the file or fails for another reason than that it does not exist.\<close>

lemma source_loop_spec:
  "source_loop join acc ps p e = (case List.find (\<lambda>i. \<forall>err. acc (join i p) \<noteq> Inl (err, True)) ps of
     Some i \<Rightarrow> (case acc (join i p) of Inl (err, _) \<Rightarrow> Inl err | Inr src \<Rightarrow> Inr (no_result\<lparr>Source := Some src\<rparr>))
   | None \<Rightarrow> (if ps = [] then (case e of Some e \<Rightarrow> Inl e | None \<Rightarrow> Inr no_result)
              else (case acc (join (last ps) p) of Inl (err, _) \<Rightarrow> Inl err | Inr _ \<Rightarrow> Inr no_result)))"
  by (induction ps arbitrary: e) (auto split: sum.split option.split prod.split)
end
