(* ===== verification/DriverSafe.thy ===== *)
theory DriverSafe
  imports Driver
begin

text \<open>
  The invariants of the compiler driver: permits and results, the order in which tasks declare what they are
  blocked on, the sequences of reported cycles, the order of completion, and a bound on the length of runs. From
  them it follows that a compilation neither deadlocks nor runs forever.
\<close>

section \<open>The steps of a task as a relation\<close>

inductive move :: "config \<Rightarrow> path \<Rightarrow> cstate \<Rightarrow> cstate \<Rightarrow> bool" for c f s where
  acquire: "tasks s f = Some Spawned \<Longrightarrow> 0 < permits s \<Longrightarrow> move c f s (goto f Resolving (s\<lparr>permits := permits s - 1\<rparr>))"
| give_up: "tasks s f = Some p \<Longrightarrow> p = Spawned \<or> (\<exists>ds td. p = Waiting ds td) \<or> (\<exists>ds. p = WaitingDesc ds \<or> p = Reacquiring ds) \<Longrightarrow>
    cancelled s \<Longrightarrow> move c f s (fail_with f CtxErr False s)"
| load_fails: "tasks s f = Some Resolving \<Longrightarrow> load c f = Inl e \<Longrightarrow> move c f s (fail_with f e True s)"
| load_done: "tasks s f = Some Resolving \<Longrightarrow> load c f = Inr Complete \<Longrightarrow> move c f s (goto f (Closing True) (publish f (Inr f) s))"
| load_parsed: "tasks s f = Some Resolving \<Longrightarrow> load c f = Inr (Unlinked ds) \<Longrightarrow> move c f s (goto f (Parsed ds) s)"
| panics: "tasks s f = Some p \<Longrightarrow> p = Resolving \<or> p = Linking ds \<Longrightarrow> move c f s (goto f (Panicking True) s)"
| no_imports: "tasks s f = Some (Parsed ds) \<Longrightarrow> all_imports c f ds = [] \<Longrightarrow> move c f s (goto f (Linking ds) s)"
| block: "tasks s f = Some (Parsed ds) \<Longrightarrow> all_imports c f ds \<noteq> [] \<Longrightarrow>
    move c f s (goto f (Importing ds ds []) (setBlockedOn f (all_imports c f ds) s))"
| imports_done: "tasks s f = Some (Importing ds [] ck) \<Longrightarrow> move c f s (goto f (Wanting ds) s)"
| self_import: "tasks s f = Some (Importing ds (f # td) ck) \<Longrightarrow>
    move c f s (fail_with f HandlerErr True (handleImportCycle [f] f s))"
| next_import: "tasks s f = Some (Importing ds (d # td) ck) \<Longrightarrow> f \<noteq> d \<Longrightarrow>
    move c f s (goto f (Checking ds td ck (Some (d, [f, d])) []) (compile d s))"
| checked: "tasks s f = Some (Checking ds td ck (Some (x, sq)) st) \<Longrightarrow> x \<in> set ck \<Longrightarrow>
    move c f s (goto f (Checking ds td ck None st) s)"
| visit: "tasks s f = Some (Checking ds td ck (Some (x, sq)) st) \<Longrightarrow> x \<notin> set ck \<Longrightarrow>
    move c f s (goto f (Checking ds td (x # ck) None ((sq, getBlockedOn x s) # st)) s)"
| check_done: "tasks s f = Some (Checking ds td ck None []) \<Longrightarrow> move c f s (goto f (Importing ds td ck) s)"
| check_return: "tasks s f = Some (Checking ds td ck None ((sq, []) # st)) \<Longrightarrow>
    move c f s (goto f (Checking ds td ck None st) s)"
| cycle: "tasks s f = Some (Checking ds td ck None ((sq, d # pd) # st)) \<Longrightarrow> d \<in> set sq \<Longrightarrow>
    move c f s (fail_with f HandlerErr True (handleImportCycle sq d s))"
| not_started: "tasks s f = Some (Checking ds td ck None ((sq, d # pd) # st)) \<Longrightarrow> d \<notin> set sq \<Longrightarrow> results s d = None \<Longrightarrow>
    move c f s (goto f (Checking ds td ck None ((sq, pd) # st)) s)"
| check_call: "tasks s f = Some (Checking ds td ck None ((sq, d # pd) # st)) \<Longrightarrow> d \<notin> set sq \<Longrightarrow> results s d \<noteq> None \<Longrightarrow>
    move c f s (goto f (Checking ds td ck (Some (d, sq @ [d])) ((sq, pd) # st)) s)"
| want: "tasks s f = Some (Wanting ds) \<Longrightarrow>
    move c f s (goto f (Releasing ds) (if wantsDescriptorProto c f ds then compile descriptorProtoPath s else s))"
| release: "tasks s f = Some (Releasing ds) \<Longrightarrow> move c f s (goto f (Waiting ds ds) (s\<lparr>permits := permits s + 1\<rparr>))"
| import_failed: "tasks s f = Some (Waiting ds (d # td)) \<Longrightarrow> result_of d s = Some (Inl e) \<Longrightarrow>
    move c f s (fail_with f (import_error d e) False s)"
| import_ready: "tasks s f = Some (Waiting ds (d # td)) \<Longrightarrow> result_of d s = Some (Inr x) \<Longrightarrow>
    move c f s (goto f (Waiting ds td) s)"
| all_ready: "tasks s f = Some (Waiting ds []) \<Longrightarrow>
    move c f s (goto f (if wantsDescriptorProto c f ds then WaitingDesc ds else Unblocking ds) s)"
| desc_ready: "tasks s f = Some (WaitingDesc ds) \<Longrightarrow> result_of descriptorProtoPath s \<noteq> None \<Longrightarrow>
    move c f s (goto f (Unblocking ds) s)"
| unblock: "tasks s f = Some (Unblocking ds) \<Longrightarrow> move c f s (goto f (Reacquiring ds) (setBlockedOn f [] s))"
| reacquire: "tasks s f = Some (Reacquiring ds) \<Longrightarrow> 0 < permits s \<Longrightarrow>
    move c f s (goto f (Linking ds) (s\<lparr>permits := permits s - 1\<rparr>))"
| linked: "tasks s f = Some (Linking ds) \<Longrightarrow> move c f s (goto f (Closing True) (publish f (Inr f) s))"
| link_fails: "tasks s f = Some (Linking ds) \<Longrightarrow> move c f s (fail_with f (ExtErr e) True s)"
| close: "tasks s f = Some (Closing held) \<Longrightarrow> move c f s (goto f Finished (s\<lparr>permits := permits s + of_bool held\<rparr>))"
| panic_release: "tasks s f = Some (Panicking held) \<Longrightarrow> move c f s (goto f Recovering (s\<lparr>permits := permits s + of_bool held\<rparr>))"
| recovered: "tasks s f = Some Recovering \<Longrightarrow> move c f s (goto f Finished (publish f (Inl (PanicErr f)) s))"

lemmas task_step_defs = task_step_def doCompile_acquire_def doCompile_load_def checkForDependencyCycle_def

lemma task_step_move:
  assumes "task_step c ch f s = Some s'"
  shows "move c f s s'"
proof -
  obtain p where p: "tasks s f = Some p" using assms by (cases "tasks s f") (simp_all add: task_step_def)
  show ?thesis
  proof (cases p)
    case (Importing ds td ck)
    then show ?thesis using assms p by (cases td) (auto simp: task_step_defs split: if_splits intro: move.intros)
  next
    case (Checking ds td ck call st)
    show ?thesis
    proof (cases call)
      case (Some xs)
      then show ?thesis using assms p Checking by (cases xs) (auto simp: task_step_defs split: if_splits intro: move.intros)
    next
      case None
      show ?thesis
      proof (cases st)
        case Nil
        then show ?thesis using assms p Checking None by (auto simp: task_step_defs intro: move.intros)
      next
        case (Cons fr st')
        obtain sq pd where fr: "fr = (sq, pd)" by (cases fr)
        show ?thesis using assms p Checking None Cons fr
          by (cases pd) (auto simp: task_step_defs split: if_splits intro: move.intros)
      qed
    qed
  next
    case (Waiting ds td)
    show ?thesis
    proof (cases td)
      case Nil
      then show ?thesis using assms p Waiting move.all_ready [of s f ds c] by (simp add: task_step_defs)
    next
      case (Cons d td')
      then show ?thesis using assms p Waiting
        by (auto simp: task_step_defs split: choice.splits option.splits sum.splits if_splits intro: move.intros)
    qed
  next
    case (Wanting ds)
    then show ?thesis using assms p move.want [of s f ds c] by (simp add: task_step_defs)
  qed (use assms p in \<open>auto simp: task_step_defs simp del: One_nat_def split: choice.splits sum.splits loaded.splits if_splits intro: move.intros\<close>)
qed

section \<open>What the updates change\<close>

lemma upd_views [simp]:
  "tasks (goto f p s) = (tasks s)(f \<mapsto> p)" "results (goto f p s) = results s" "permits (goto f p s) = permits s"
  "cancelled (goto f p s) = cancelled s" "reports (goto f p s) = reports s" "main (goto f p s) = main s"
  "getBlockedOn g (goto f p s) = getBlockedOn g s" "result_of g (goto f p s) = result_of g s"
  "tasks (publish f v s) = tasks s" "permits (publish f v s) = permits s" "cancelled (publish f v s) = cancelled s"
  "reports (publish f v s) = reports s" "main (publish f v s) = main s" "getBlockedOn g (publish f v s) = getBlockedOn g s"
  "result_of g (publish f v s) = (if g = f \<and> results s f \<noteq> None then Some v else result_of g s)"
  "results (publish f v s) g = None \<longleftrightarrow> results s g = None"
  "tasks (setBlockedOn f ds s) = tasks s" "permits (setBlockedOn f ds s) = permits s" "cancelled (setBlockedOn f ds s) = cancelled s"
  "reports (setBlockedOn f ds s) = reports s" "main (setBlockedOn f ds s) = main s"
  "getBlockedOn g (setBlockedOn f ds s) = (if g = f \<and> results s f \<noteq> None then ds else getBlockedOn g s)"
  "result_of g (setBlockedOn f ds s) = result_of g s" "results (setBlockedOn f ds s) g = None \<longleftrightarrow> results s g = None"
  by (auto simp: goto_def publish_def setBlockedOn_def upd_result_def getBlockedOn_def result_of_def split: option.split)

declare compile_def [simp]

lemma compile_views [simp]:
  "tasks (compileLocked d e s) = (if results s d = None then (tasks s)(d \<mapsto> Spawned) else tasks s)"
  "permits (compileLocked d e s) = permits s" "cancelled (compileLocked d e s) = cancelled s" "reports (compileLocked d e s) = reports s"
  "main (compileLocked d e s) = main s" "getBlockedOn g (compileLocked d e s) = getBlockedOn g s" "result_of g (compileLocked d e s) = result_of g s"
  "results (compileLocked d e s) g = None \<longleftrightarrow> results s g = None \<and> g \<noteq> d"
  by (auto simp: compileLocked_def getBlockedOn_def result_of_def split: option.split)

lemma report_views [simp]:
  "tasks (handleImportCycle sq d s) = tasks s" "results (handleImportCycle sq d s) = results s"
  "permits (handleImportCycle sq d s) = permits s" "reports (handleImportCycle sq d s) = reports s @ [(sq, d)]"
  "getBlockedOn g (handleImportCycle sq d s) = getBlockedOn g s" "result_of g (handleImportCycle sq d s) = result_of g s"
  by (simp_all add: handleImportCycle_def getBlockedOn_def result_of_def)

lemma permits_views [simp]:
  "getBlockedOn g (s\<lparr>permits := n\<rparr>) = getBlockedOn g s" "result_of g (s\<lparr>permits := n\<rparr>) = result_of g s"
  "getBlockedOn g (s\<lparr>cancelled := b\<rparr>) = getBlockedOn g s" "result_of g (s\<lparr>cancelled := b\<rparr>) = result_of g s"
  "getBlockedOn g (s\<lparr>main := m\<rparr>) = getBlockedOn g s" "result_of g (s\<lparr>main := m\<rparr>) = result_of g s"
  by (simp_all add: getBlockedOn_def result_of_def)

lemma fail_views [simp]:
  "tasks (fail_with f e b s) = (tasks s)(f \<mapsto> Closing b)" "permits (fail_with f e b s) = permits s" "reports (fail_with f e b s) = reports s"
  "getBlockedOn g (fail_with f e b s) = getBlockedOn g s"
  "result_of g (fail_with f e b s) = (if g = f \<and> results s f \<noteq> None then Some (Inl e) else result_of g s)"
  "results (fail_with f e b s) g = None \<longleftrightarrow> results s g = None"
  by (simp_all add: fail_with_def)

section \<open>The invariant of a single task\<close>

fun published :: "pc \<Rightarrow> bool" where
  "published (Closing _) = True"
| "published Finished = True"
| "published _ = False"

fun holds :: "pc \<Rightarrow> bool" where
  "holds (Closing held) = held"
| "holds (Panicking held) = held"
| "holds p = (case p of Resolving \<Rightarrow> True | Parsed _ \<Rightarrow> True | Importing _ _ _ \<Rightarrow> True | Checking _ _ _ _ _ \<Rightarrow> True |
     Wanting _ \<Rightarrow> True | Releasing _ \<Rightarrow> True | Linking _ \<Rightarrow> True | _ \<Rightarrow> False)"

definition started :: "cstate \<Rightarrow> path \<Rightarrow> bool" where
  "started s d \<longleftrightarrow> tasks s d \<noteq> None"

definition succeeded :: "cstate \<Rightarrow> path \<Rightarrow> bool" where
  "succeeded s d \<longleftrightarrow> (\<exists>x. result_of d s = Some (Inr x))"

definition unlinked :: "config \<Rightarrow> path \<Rightarrow> path list \<Rightarrow> bool" where
  "unlinked c f ds \<longleftrightarrow> load c f = Inr (Unlinked ds)"

text \<open>Blocked on all of its imports.\<close>

definition blocks :: "config \<Rightarrow> cstate \<Rightarrow> path \<Rightarrow> path list \<Rightarrow> bool" where
  "blocks c s f ds \<longleftrightarrow> unlinked c f ds \<and> getBlockedOn f s = all_imports c f ds \<and> all_imports c f ds \<noteq> []"

fun task_ok :: "config \<Rightarrow> cstate \<Rightarrow> path \<Rightarrow> pc \<Rightarrow> bool" where
  "task_ok c s f (Parsed ds) \<longleftrightarrow> unlinked c f ds \<and> getBlockedOn f s = []"
| "task_ok c s f (Importing ds td ck) \<longleftrightarrow> blocks c s f ds \<and> (\<exists>dn. ds = dn @ td \<and> (\<forall>d \<in> set dn. started s d))"
| "task_ok c s f (Checking ds td ck call st) \<longleftrightarrow> blocks c s f ds \<and> (\<exists>dn. ds = dn @ td \<and> (\<forall>d \<in> set dn. started s d)) \<and>
     (\<forall>(x, sq) \<in> set_option call. started s x)"
| "task_ok c s f (Wanting ds) \<longleftrightarrow> blocks c s f ds \<and> (\<forall>d \<in> set ds. started s d)"
| "task_ok c s f (Releasing ds) \<longleftrightarrow> blocks c s f ds \<and> (\<forall>d \<in> set (all_imports c f ds). started s d)"
| "task_ok c s f (Waiting ds td) \<longleftrightarrow> blocks c s f ds \<and> (\<forall>d \<in> set (all_imports c f ds). started s d) \<and>
     (\<exists>dn. ds = dn @ td \<and> (\<forall>d \<in> set dn. succeeded s d))"
| "task_ok c s f (WaitingDesc ds) \<longleftrightarrow> blocks c s f ds \<and> (\<forall>d \<in> set (all_imports c f ds). started s d) \<and>
     (\<forall>d \<in> set ds. succeeded s d) \<and> wantsDescriptorProto c f ds"
| "task_ok c s f (Unblocking ds) \<longleftrightarrow> blocks c s f ds \<and> (\<forall>d \<in> set ds. succeeded s d)"
| "task_ok c s f (Reacquiring ds) \<longleftrightarrow> unlinked c f ds \<and> getBlockedOn f s = [] \<and> (\<forall>d \<in> set ds. succeeded s d)"
| "task_ok c s f (Linking ds) \<longleftrightarrow> unlinked c f ds \<and> getBlockedOn f s = [] \<and> (\<forall>d \<in> set ds. succeeded s d)"
| "task_ok c s f (Closing _) \<longleftrightarrow> getBlockedOn f s = [] \<or> (\<exists>ds. blocks c s f ds)"
| "task_ok c s f Finished \<longleftrightarrow> getBlockedOn f s = [] \<or> (\<exists>ds. blocks c s f ds)"
| "task_ok c s f _ \<longleftrightarrow> getBlockedOn f s = []"

lemma task_ok_mono:
  assumes "task_ok c s f p" "getBlockedOn f s' = getBlockedOn f s"
    "\<And>d. started s d \<Longrightarrow> started s' d" "\<And>d. succeeded s d \<Longrightarrow> succeeded s' d"
  shows "task_ok c s' f p"
  using assms by (cases p) (auto simp: blocks_def)

definition driver_inv :: "config \<Rightarrow> nat \<Rightarrow> cstate \<Rightarrow> bool" where
  "driver_inv c par s \<longleftrightarrow>
     (\<forall>f. results s f = None \<longleftrightarrow> tasks s f = None) \<and> finite (dom (tasks s)) \<and>
     (\<forall>f. tasks s f = None \<longrightarrow> getBlockedOn f s = [] \<and> result_of f s = None) \<and>
     (\<forall>f p. tasks s f = Some p \<longrightarrow> task_ok c s f p \<and> (result_of f s \<noteq> None \<longleftrightarrow> published p)) \<and>
     permits s + card {f. \<exists>p. tasks s f = Some p \<and> holds p} = par"

lemma driver_invD:
  assumes "driver_inv c par s"
  shows "results s f = None \<longleftrightarrow> tasks s f = None" "finite (dom (tasks s))"
    "tasks s f = None \<Longrightarrow> getBlockedOn f s = []" "tasks s f = None \<Longrightarrow> result_of f s = None"
    "tasks s f = Some p \<Longrightarrow> task_ok c s f p" "tasks s f = Some p \<Longrightarrow> result_of f s \<noteq> None \<longleftrightarrow> published p"
    "permits s + card {f. \<exists>p. tasks s f = Some p \<and> holds p} = par"
  using assms unfolding driver_inv_def by blast+

lemma inv_compile:
  assumes inv: "driver_inv c par s"
  shows "driver_inv c par (compileLocked d e s)"
proof (cases "results s d")
  case None
  note I = driver_invD [OF inv]
  have nd: "tasks s d = None" using I(1) None by simp
  have t: "tasks (compileLocked d e s) = (tasks s)(d \<mapsto> Spawned)" using None by simp
  have h: "{f. \<exists>p. tasks (compileLocked d e s) f = Some p \<and> holds p} = {f. \<exists>p. tasks s f = Some p \<and> holds p}"
    unfolding t using nd by (auto split: if_splits)
  have st: "started (compileLocked d e s) x \<longleftrightarrow> started s x \<or> x = d" and su: "succeeded (compileLocked d e s) x = succeeded s x" for x
    using None by (auto simp: started_def succeeded_def)
  show ?thesis unfolding driver_inv_def
  proof (intro conjI allI impI)
    fix f p assume "tasks (compileLocked d e s) f = Some p"
    then consider "f = d" "p = Spawned" | "f \<noteq> d" "tasks s f = Some p" unfolding t by (auto split: if_splits)
    then show "task_ok c (compileLocked d e s) f p" "result_of f (compileLocked d e s) \<noteq> None \<longleftrightarrow> published p"
      using I(3,4) [OF nd] I(5,6) [of f p] st su by (cases; auto intro: task_ok_mono)+
  next
    show "permits (compileLocked d e s) + card {f. \<exists>p. tasks (compileLocked d e s) f = Some p \<and> holds p} = par" unfolding h using I(7) by simp
  qed (use I(1-4) nd None in \<open>auto split: if_splits\<close>)
next
  case (Some r)
  then show ?thesis using inv by (simp add: compileLocked_def)
qed

text \<open>A step that changes the task's own entries only.\<close>

lemma inv_local:
  assumes inv: "driver_inv c par s" and p: "tasks s f = Some p" and t: "tasks s' = (tasks s)(f \<mapsto> p')"
    and r: "\<And>g. results s' g = None \<longleftrightarrow> results s g = None"
    and b: "\<And>g. g \<noteq> f \<Longrightarrow> getBlockedOn g s' = getBlockedOn g s" and v: "\<And>g. g \<noteq> f \<Longrightarrow> result_of g s' = result_of g s"
    and m: "result_of f s = None \<or> result_of f s' = result_of f s"
    and ok: "task_ok c s' f p'" "result_of f s' \<noteq> None \<longleftrightarrow> published p'"
    and n: "permits s' + of_bool (holds p') = permits s + of_bool (holds p)"
  shows "driver_inv c par s'"
proof -
  note I = driver_invD [OF inv]
  have st: "started s' x = started s x" for x using p t by (auto simp: started_def)
  have su: "succeeded s x \<Longrightarrow> succeeded s' x" for x using v [of x] m by (cases "x = f") (auto simp: succeeded_def)
  let ?H = "\<lambda>s. {g. \<exists>p. tasks s g = Some p \<and> holds p}"
  have fin: "finite (?H s)" using I(2) by (rule rev_finite_subset) auto
  have H: "?H s' = (if holds p' then insert f (?H s - {f}) else ?H s - {f})" unfolding t by (auto split: if_splits)
  have "card (?H s) = card (?H s - {f}) + of_bool (holds p)"
    using fin p card.remove [OF fin, of f] by (cases "holds p") auto
  moreover have "card (?H s') = card (?H s - {f}) + of_bool (holds p')" unfolding H using card.insert_remove [OF fin, of f] by simp
  ultimately have card: "permits s' + card (?H s') = par" using n I(7) by simp
  show ?thesis unfolding driver_inv_def
  proof (intro conjI allI impI)
    fix g q assume "tasks s' g = Some q"
    then consider "g = f" "q = p'" | "g \<noteq> f" "tasks s g = Some q" unfolding t by (auto split: if_splits)
    then show "task_ok c s' g q" "result_of g s' \<noteq> None \<longleftrightarrow> published q"
      using ok I(5,6) [of g q] st su b [of g] v [of g] by (cases; auto intro: task_ok_mono)+
  next
    fix g assume g: "tasks s' g = None"
    then have "g \<noteq> f" "tasks s g = None" unfolding t by (auto split: if_splits)
    then show "getBlockedOn g s' = []" "result_of g s' = None" using I(3,4) b v by auto
  next
    show "finite (dom (tasks s'))" unfolding t using I(2) by simp
    show "results s' g = None \<longleftrightarrow> tasks s' g = None" for g using r [of g] I(1) [of g] p unfolding t by simp
  qed (rule card)
qed

lemmas inv_step = inv_local [where p = "the (tasks s f)" and p' = "the (tasks s' f)" and s = s and s' = s' and f = f for s s' f]

lemma move_inv:
  assumes "move c f s s'" "driver_inv c par s"
  shows "driver_inv c par s'"
proof -
  note local_simps = blocks_def succeeded_def started_def unlinked_def and I = driver_invD(1,5,6) [OF assms(2), of f]
  from assms(1) show ?thesis
  proof (cases rule: move.cases)
    case (next_import ds d td ck)
    let ?s = "compileLocked d False s"
    have i: "driver_inv c par ?s" using inv_compile [OF assms(2)] .
    have t: "tasks ?s f = Some (Importing ds (d # td) ck)" using next_import by simp
    obtain dn where "blocks c ?s f ds" "ds = dn @ d # td" "\<forall>x \<in> set dn. started ?s x" using driver_invD(5) [OF i t] by auto
    moreover have "started ?s d" using driver_invD(1) [OF i, of d] by (auto simp: started_def)
    ultimately show ?thesis unfolding next_import compile_def using driver_invD(6) [OF i t]
      by (intro inv_local [OF i t, of _ "Checking ds td ck (Some (d, [f, d])) []"])
         (auto simp: blocks_def started_def intro!: exI [of _ "dn @ [d]"])
  next
    case (want ds)
    define s1 where "s1 = (if wantsDescriptorProto c f ds then compile descriptorProtoPath s else s)"
    have i: "driver_inv c par s1" using inv_compile [OF assms(2)] assms(2) by (simp add: s1_def)
    have t: "tasks s1 f = Some (Wanting ds)" using want driver_invD(1) [OF assms(2), of f] by (auto simp: s1_def)
    have "blocks c s1 f ds" "\<forall>x \<in> set ds. started s1 x" using driver_invD(5) [OF i t] by auto
    moreover have "started s1 descriptorProtoPath" if "wantsDescriptorProto c f ds"
      using driver_invD(1) [OF i, of descriptorProtoPath] that by (auto simp: started_def s1_def)
    ultimately show ?thesis unfolding want(1) s1_def [symmetric] using driver_invD(6) [OF i t]
      by (intro inv_local [OF i t, of _ "Releasing ds"]) (auto simp: blocks_def started_def all_imports_def)
  next
    case (block ds)
    have r: "results s f \<noteq> None" "result_of f s = None" "unlinked c f ds"
      using driver_invD(1,5,6) [OF assms(2), of f] block by auto
    show ?thesis unfolding block
      by (rule inv_local [OF assms(2) block(2), of _ "Importing ds ds []"]) (use r block in \<open>auto simp: blocks_def\<close>)
  next
    case (unblock ds)
    have r: "results s f \<noteq> None" "result_of f s = None" "unlinked c f ds" "\<forall>d \<in> set ds. succeeded s d"
      using driver_invD(1,5,6) [OF assms(2), of f] unblock by (auto simp: blocks_def)
    show ?thesis unfolding unblock
      by (rule inv_local [OF assms(2) unblock(2), of _ "Reacquiring ds"]) (use r in \<open>auto simp: succeeded_def\<close>)
  next
    case (check_call ds td ck sq d pd st)
    have "started s d" using driver_invD(1) [OF assms(2), of d] check_call by (simp add: started_def)
    then show ?thesis unfolding check_call(1)
      by (intro inv_local [OF assms(2) check_call(2), where p' = "Checking ds td ck (Some (d, sq @ [d])) ((sq, pd) # st)"])
         (use I check_call in \<open>auto simp: local_simps\<close>)
  qed (rule inv_step [OF assms(2), where f = f]; insert I; auto simp: local_simps all_imports_def split: if_splits)+
qed

lemma inv_views:
  "results s' = results s \<Longrightarrow> tasks s' = tasks s \<Longrightarrow> permits s' = permits s \<Longrightarrow> driver_inv c par s \<Longrightarrow> driver_inv c par s'"
proof -
  assume eq: "results s' = results s" "tasks s' = tasks s" "permits s' = permits s" and inv: "driver_inv c par s"
  have "getBlockedOn f s' = getBlockedOn f s" "result_of f s' = result_of f s" for f
    by (simp_all add: getBlockedOn_def result_of_def eq)
  moreover have "task_ok c s f p \<Longrightarrow> task_ok c s' f p" for f p
    by (rule task_ok_mono) (simp_all add: calculation started_def succeeded_def eq)
  ultimately show "driver_inv c par s'" using inv by (simp add: driver_inv_def eq)
qed

lemma main_step_views:
  assumes "main_step files ch s = Some s'"
  shows "results s' = results s" "tasks s' = tasks s" "permits s' = permits s" "reports s' = reports s"
  using assms by (auto simp: main_step_def split: main_pc.splits if_splits choice.splits option.splits sum.splits)

lemma start_inv: "driver_inv c par (start par files)"
proof -
  let ?s0 = "\<lparr>results = (\<lambda>_. None), tasks = (\<lambda>_. None), permits = par, cancelled = False, reports = [], main = MainWait 0 None\<rparr>"
  have "driver_inv c par ?s0" by (simp add: driver_inv_def getBlockedOn_def result_of_def)
  moreover have "driver_inv c par s \<Longrightarrow> driver_inv c par (fold (\<lambda>f. compileLocked f True) files s)" for s
    by (induction files arbitrary: s) (simp_all add: inv_compile)
  ultimately show ?thesis by (simp add: start_def)
qed

text \<open>Every invariant that the tasks keep and that only depends on what they change holds in all reachable states.\<close>

lemma creachable_induct_moves:
  assumes "creachable c par files s" "P (start par files)"
    and "\<And>f s s'. driver_inv c par s \<Longrightarrow> P s \<Longrightarrow> move c f s s' \<Longrightarrow> P s'"
    and "\<And>s s'. P s \<Longrightarrow> results s' = results s \<Longrightarrow> tasks s' = tasks s \<Longrightarrow> permits s' = permits s \<Longrightarrow> reports s' = reports s \<Longrightarrow> P s'"
  shows "driver_inv c par s \<and> P s"
  using assms(1)
proof (induction rule: creachable.induct)
  case init
  then show ?case using start_inv assms(2) by simp
next
  case (step s s')
  from step.hyps(2) show ?case
  proof (cases rule: cstep.cases)
    case (task ch f)
    then show ?thesis using task_step_move move_inv assms(3) step.IH by blast
  next
    case (compile ch)
    note v = main_step_views [OF compile]
    show ?thesis using inv_views [OF v(1-3)] assms(4) [OF _ v] step.IH by blast
  next
    case cancel
    have "results s' = results s" "tasks s' = tasks s" "permits s' = permits s" "reports s' = reports s" by (simp_all add: cancel)
    then show ?thesis using inv_views assms(4) step.IH by blast
  qed
qed

section \<open>The order of blocking\<close>

text \<open>A task declares what it is blocked on before it checks for cycles. Whichever task of a cycle declares last
  sees the declarations of all others. \<open>ord\<close> is the order in which the tasks declared.\<close>

abbreviation blk :: "cstate \<Rightarrow> path \<Rightarrow> path set" where
  "blk s x \<equiv> set (getBlockedOn x s)"

definition before :: "(path \<Rightarrow> nat) \<Rightarrow> cstate \<Rightarrow> path \<Rightarrow> (path \<times> path) set" where
  "before ord s f = {(x, y). y \<in> blk s x \<and> (x = f \<or> ord x < ord f)}"

definition explored :: "(path \<Rightarrow> nat) \<Rightarrow> cstate \<Rightarrow> path \<Rightarrow> path set \<Rightarrow> path set \<Rightarrow> bool" where
  "explored ord s f ck pend \<longleftrightarrow>
     (\<forall>x \<in> ck. ord x < ord f \<longrightarrow> (\<forall>y \<in> blk s x. y \<in> pend \<or> y \<noteq> f \<and> (blk s y \<noteq> {} \<and> ord y < ord f \<longrightarrow> y \<in> ck)))"

definition pending :: "(path \<times> path list) option \<Rightarrow> (path list \<times> path list) list \<Rightarrow> path set" where
  "pending call st = fst ` set_option call \<union> (\<Union>(sq, pd) \<in> set st. set pd)"

fun order_ok :: "(path \<Rightarrow> nat) \<Rightarrow> cstate \<Rightarrow> path \<Rightarrow> pc \<Rightarrow> bool" where
  "order_ok ord s f (Importing ds td ck) \<longleftrightarrow>
     explored ord s f (set ck) {} \<and> (\<exists>dn. ds = dn @ td \<and> set dn \<subseteq> set ck \<and> f \<notin> set dn)"
| "order_ok ord s f (Checking ds td ck call st) \<longleftrightarrow>
     explored ord s f (set ck) (pending call st) \<and>
     (\<exists>dn. ds = dn @ td \<and> set dn \<subseteq> set ck \<union> fst ` set_option call \<and> f \<notin> set dn) \<and>
     (\<forall>(x, sq) \<in> set_option call. f \<in> set sq \<and> x \<noteq> f) \<and> (\<forall>(sq, pd) \<in> set st. f \<in> set sq)"
| "order_ok ord s f (Wanting ds) \<longleftrightarrow> (f, f) \<notin> (before ord s f)\<^sup>+"
| "order_ok ord s f (Releasing ds) \<longleftrightarrow> (f, f) \<notin> (before ord s f)\<^sup>+"
| "order_ok ord s f (Waiting ds td) \<longleftrightarrow> (f, f) \<notin> (before ord s f)\<^sup>+"
| "order_ok ord s f (WaitingDesc ds) \<longleftrightarrow> (f, f) \<notin> (before ord s f)\<^sup>+"
| "order_ok ord s f (Unblocking ds) \<longleftrightarrow> (f, f) \<notin> (before ord s f)\<^sup>+"
| "order_ok ord s f _ \<longleftrightarrow> True"

definition order_inv :: "cstate \<Rightarrow> bool" where
  "order_inv s \<longleftrightarrow> (\<exists>ord. inj_on ord {x. blk s x \<noteq> {}} \<and> (\<forall>f p. tasks s f = Some p \<longrightarrow> order_ok ord s f p))"

lemma explored_shrink:
  assumes "explored ord s f ck pend" and sub: "\<And>x. blk s' x \<subseteq> blk s x"
  shows "explored ord s' f ck pend"
  unfolding explored_def
proof (intro ballI impI)
  fix x y assume x: "x \<in> ck" "ord x < ord f" and y: "y \<in> blk s' x"
  have "y \<in> pend \<or> y \<noteq> f \<and> (blk s y \<noteq> {} \<and> ord y < ord f \<longrightarrow> y \<in> ck)"
    using assms(1) x subsetD [OF sub y] unfolding explored_def by blast
  then show "y \<in> pend \<or> y \<noteq> f \<and> (blk s' y \<noteq> {} \<and> ord y < ord f \<longrightarrow> y \<in> ck)" using sub [of y] by auto
qed

lemma before_shrink: "(\<And>x. blk s' x \<subseteq> blk s x) \<Longrightarrow> (f, f) \<notin> (before ord s f)\<^sup>+ \<Longrightarrow> (f, f) \<notin> (before ord s' f)\<^sup>+"
proof -
  assume "\<And>x. blk s' x \<subseteq> blk s x" "(f, f) \<notin> (before ord s f)\<^sup>+"
  moreover then have "before ord s' f \<subseteq> before ord s f" by (auto simp: before_def)
  ultimately show ?thesis using trancl_mono by blast
qed

lemma order_ok_shrink:
  assumes "order_ok ord s f p" and sub: "\<And>x. blk s' x \<subseteq> blk s x"
  shows "order_ok ord s' f p"
proof -
  note e = explored_shrink [OF _ sub] and b = before_shrink [OF sub]
  show ?thesis
  proof (cases p)
    case (Importing ds td ck)
    then show ?thesis using assms(1) e by auto
  next
    case (Checking ds td ck call st)
    then show ?thesis using assms(1) e by auto
  qed (use assms(1) b in simp_all)
qed

text \<open>A task that declares now comes after all others.\<close>

lemma order_ok_later:
  assumes "order_ok ord s g p" "g \<noteq> f" "ord g < n" "blk s f = {}"
    and "\<And>x. x \<noteq> f \<Longrightarrow> blk s' x = blk s x"
  shows "order_ok (ord(f := n)) s' g p"
proof -
  have b: "before (ord(f := n)) s' g = before ord s g"
  proof -
    have "(x, y) \<in> before (ord(f := n)) s' g \<longleftrightarrow> (x, y) \<in> before ord s g" for x y
      using assms(2-4) assms(5) [of x] by (cases "x = f") (auto simp: before_def)
    then show ?thesis by auto
  qed
  have e: "explored ord s g ck pend \<Longrightarrow> explored (ord(f := n)) s' g ck pend" for ck pend
    unfolding explored_def
  proof (intro ballI impI)
    fix x y assume all: "\<forall>x \<in> ck. ord x < ord g \<longrightarrow> (\<forall>y \<in> blk s x. y \<in> pend \<or> y \<noteq> g \<and> (blk s y \<noteq> {} \<and> ord y < ord g \<longrightarrow> y \<in> ck))"
      and x: "x \<in> ck" "(ord(f := n)) x < (ord(f := n)) g" and y: "y \<in> blk s' x"
    have "x \<noteq> f" "ord x < ord g" using x(2) assms(2,3) by (auto split: if_splits)
    then have "y \<in> pend \<or> y \<noteq> g \<and> (blk s y \<noteq> {} \<and> ord y < ord g \<longrightarrow> y \<in> ck)" using all x(1) y assms(5) by blast
    then show "y \<in> pend \<or> y \<noteq> g \<and> (blk s' y \<noteq> {} \<and> (ord(f := n)) y < (ord(f := n)) g \<longrightarrow> y \<in> ck)"
      using assms(2,3) assms(5) [of y] by (cases "y = f") auto
  qed
  show ?thesis using assms(1) by (cases p) (auto simp: b e)
qed

text \<open>An overriding \<open>descriptor.proto\<close> has no imports.\<close>

definition descriptor_imports_nothing :: "config \<Rightarrow> bool" where
  "descriptor_imports_nothing c \<longleftrightarrow>
     (hasOverrideDescriptorProto c \<longrightarrow> (\<forall>ds. load c descriptorProtoPath = Inr (Unlinked ds) \<longrightarrow> ds = []))"

lemma blocked_by_imports:
  assumes "driver_inv c par s" "blk s f \<noteq> {}"
  shows "\<exists>ds. blocks c s f ds"
proof (cases "tasks s f")
  case (Some p)
  then show ?thesis using driver_invD(5) [OF assms(1) Some] assms(2) by (cases p) auto
qed (use driver_invD(3) [OF assms(1)] assms(2) in simp)

lemma all_imports_descriptor: "all_imports c descriptorProtoPath ds = ds"
  by (simp add: all_imports_def wantsDescriptorProto_def)

lemma descriptor_not_blocked:
  assumes "driver_inv c par s" "descriptor_imports_nothing c" "hasOverrideDescriptorProto c"
  shows "blk s descriptorProtoPath = {}"
proof (rule ccontr)
  assume "blk s descriptorProtoPath \<noteq> {}"
  then obtain ds where "blocks c s descriptorProtoPath ds" using blocked_by_imports [OF assms(1)] by blast
  then show False using assms(2,3) by (auto simp: blocks_def unlinked_def all_imports_descriptor descriptor_imports_nothing_def)
qed

text \<open>When all imports have been explored there is no way back to the file.\<close>

lemma explored_no_cycle:
  assumes "explored ord s f (set ck) {}" "set ds \<subseteq> set ck" "f \<notin> set ds" "driver_inv c par s" "blocks c s f ds"
    "descriptor_imports_nothing c"
  shows "(f, f) \<notin> (before ord s f)\<^sup>+"
proof -
  have "y \<noteq> f \<and> (blk s y \<noteq> {} \<and> ord y < ord f \<longrightarrow> y \<in> set ck)" if "(f, y) \<in> (before ord s f)\<^sup>+" for y
    using that
  proof (induction rule: trancl_induct)
    case (base y)
    then have y: "y \<in> set (all_imports c f ds)" using assms(5) by (simp add: before_def blocks_def)
    show ?case
    proof (cases "y \<in> set ds")
      case True
      then show ?thesis using assms(2,3) by auto
    next
      case False
      then have "wantsDescriptorProto c f ds" "y = descriptorProtoPath" using y by (auto simp: all_imports_def split: if_splits)
      then show ?thesis using descriptor_not_blocked [OF assms(4,6)] by (auto simp: wantsDescriptorProto_def)
    qed
  next
    case (step y z)
    then have "z \<in> blk s y" "ord y < ord f" "y \<in> set ck" by (auto simp: before_def)
    then show ?case using assms(1) unfolding explored_def by blast
  qed
  then show ?thesis by blast
qed

text \<open>Steps that do not declare anything.\<close>

lemma order_quiet:
  assumes inv: "order_inv s" and t: "tasks s f = Some p"
    and sub: "\<And>x. blk s' x \<subseteq> blk s x"
    and new: "\<And>g q. tasks s' g = Some q \<Longrightarrow> (g = f \<and> q = p') \<or> (g \<noteq> f \<and> tasks s g = Some q) \<or> q = Spawned"
    and ok: "\<And>ord. order_ok ord s f p \<Longrightarrow> order_ok ord s' f p'"
  shows "order_inv s'"
proof -
  obtain ord where o: "inj_on ord {x. blk s x \<noteq> {}}" "\<And>g q. tasks s g = Some q \<Longrightarrow> order_ok ord s g q"
    using inv by (auto simp: order_inv_def)
  have "blk s' x \<noteq> {} \<Longrightarrow> blk s x \<noteq> {}" for x using sub [of x] by auto
  then have "inj_on ord {x. blk s' x \<noteq> {}}" by (intro inj_on_subset [OF o(1)] Collect_mono impI)
  moreover have "order_ok ord s' g q" if "tasks s' g = Some q" for g q
    using new [OF that] ok [OF o(2) [OF t]] order_ok_shrink [OF o(2) sub] by auto
  ultimately show ?thesis by (auto simp: order_inv_def)
qed

lemma order_block:
  assumes inv: "order_inv s" and d: "driver_inv c par s" and t: "tasks s f = Some (Parsed ds)"
    and s': "s' = goto f (Importing ds ds []) (setBlockedOn f (all_imports c f ds) s)"
  shows "order_inv s'"
proof -
  obtain ord where o: "inj_on ord {x. blk s x \<noteq> {}}" "\<And>g q. tasks s g = Some q \<Longrightarrow> order_ok ord s g q"
    using inv by (auto simp: order_inv_def)
  have free: "blk s f = {}" using driver_invD(5) [OF d t] by simp
  let ?n = "Suc (Max (insert 0 (ord ` dom (tasks s))))"
  have lt: "ord g < ?n" if "tasks s g \<noteq> None" for g
    using that driver_invD(2) [OF d] by (auto intro!: le_imp_less_Suc Max_ge)
  have b: "x \<noteq> f \<Longrightarrow> getBlockedOn x s' = getBlockedOn x s" for x by (simp add: s')
  have "inj_on (ord(f := ?n)) {x. blk s' x \<noteq> {}}"
  proof (rule inj_onI)
    have started: "blk s x \<noteq> {} \<Longrightarrow> tasks s x \<noteq> None" for x using driver_invD(3) [OF d, of x] by auto
    fix x y assume "x \<in> {x. blk s' x \<noteq> {}}" "y \<in> {x. blk s' x \<noteq> {}}" "(ord(f := ?n)) x = (ord(f := ?n)) y"
    then show "x = y" using b [of x] b [of y] lt [of x] lt [of y] started [of x] started [of y] inj_onD [OF o(1), of x y]
      by (cases "x = f"; cases "y = f") auto
  qed
  moreover have "order_ok (ord(f := ?n)) s' g q" if "tasks s' g = Some q" for g q
  proof (cases "g = f")
    case True
    then have "q = Importing ds ds []" using that by (simp add: s')
    then show ?thesis using True by (simp add: explored_def)
  next
    case False
    then have "tasks s g = Some q" using that by (simp add: s')
    then show ?thesis using o(2) [of g q] lt [of g] free b False by (intro order_ok_later) auto
  qed
  ultimately show ?thesis unfolding order_inv_def by blast
qed

lemma order_views [simp]:
  "before ord (goto f p s) g = before ord s g" "before ord (compileLocked d e s) g = before ord s g" "before ord (s\<lparr>permits := n\<rparr>) g = before ord s g"
  "explored ord (goto f p s) g ck pd = explored ord s g ck pd" "explored ord (compileLocked d e s) g ck pd = explored ord s g ck pd"
  "explored ord (s\<lparr>permits := n\<rparr>) g ck pd = explored ord s g ck pd"
  by (simp_all add: before_def explored_def)

lemmas order_step = order_quiet [where p = "the (tasks s f)" and p' = "the (tasks s' f)" and s = s and s' = s' and f = f for s s' f]

lemma move_order:
  assumes m: "move c f s s'" and d: "driver_inv c par s" and inv: "order_inv s" and desc: "descriptor_imports_nothing c"
  shows "order_inv s'"
  using m
proof (cases rule: move.cases)
  case (block ds)
  then show ?thesis using order_block [OF inv d] by simp
next
  case (imports_done ds ck)
  have "blocks c s f ds" using driver_invD(5) [OF d imports_done(2)] by simp
  then show ?thesis unfolding imports_done
    by (intro order_quiet [OF inv imports_done(2), where p' = "Wanting ds"])
       (auto split: if_splits dest: explored_no_cycle [OF _ _ _ d _ desc])
next
  case (next_import ds d td ck)
  have "order_ok ord s f (Checking ds td ck (Some (d, [f, d])) [])" if o: "order_ok ord s f (Importing ds (d # td) ck)" for ord
  proof -
    obtain dn where "ds = (dn @ [d]) @ td" "set dn \<subseteq> set ck" "f \<notin> set dn" using o by auto
    then have "\<exists>dn. ds = dn @ td \<and> set dn \<subseteq> set ck \<union> fst ` set_option (Some (d, [f, d])) \<and> f \<notin> set dn"
      using next_import(3) by (intro exI [of _ "dn @ [d]"]) auto
    moreover have "explored ord s f (set ck) (pending (Some (d, [f, d])) [])" using o by (auto simp: explored_def)
    ultimately show ?thesis using next_import(3) by simp
  qed
  then show ?thesis unfolding next_import
    by (intro order_quiet [OF inv next_import(2), where p' = "Checking ds td ck (Some (d, [f, d])) []"])
       (auto split: if_splits)
next
  case (checked ds td ck x sq st)
  show ?thesis unfolding checked(1)
    by (intro order_quiet [OF inv checked(2), where p' = "Checking ds td ck None st"])
       (use checked in \<open>auto split: if_splits simp: explored_def pending_def\<close>)
next
  case (visit ds td ck x sq st)
  show ?thesis unfolding visit(1)
    by (intro order_quiet [OF inv visit(2), where p' = "Checking ds td (x # ck) None ((sq, getBlockedOn x s) # st)"])
       (use visit in \<open>auto split: if_splits simp: explored_def pending_def\<close>)
next
  case (not_started ds td ck sq d pd st)
  have "getBlockedOn d s = []" using driver_invD(1,3) [OF d] not_started by auto
  then show ?thesis unfolding not_started(1)
    by (intro order_quiet [OF inv not_started(2), where p' = "Checking ds td ck None ((sq, pd) # st)"])
       (use not_started in \<open>auto split: if_splits simp: explored_def pending_def\<close>)
next
  case (check_call ds td ck sq d pd st)
  show ?thesis unfolding check_call(1)
    by (intro order_quiet [OF inv check_call(2), where p' = "Checking ds td ck (Some (d, sq @ [d])) ((sq, pd) # st)"])
       (use check_call in \<open>auto split: if_splits simp: explored_def pending_def\<close>)
qed (rule order_step [OF inv, where f = f]; force split: if_splits simp: pending_def)+

section \<open>No deadlock\<close>

lemma start_tasks: "tasks (start par files) f = Some p \<Longrightarrow> p = Spawned" and start_blk: "getBlockedOn f (start par files) = []"
  and start_result: "result_of f (start par files) = None" and start_reports: "reports (start par files) = []"
  and start_started: "tasks (start par files) f \<noteq> None \<longleftrightarrow> f \<in> set files"
proof -
  let ?s0 = "\<lparr>results = (\<lambda>_. None), tasks = (\<lambda>_. None), permits = par, cancelled = False, reports = [], main = MainWait 0 None\<rparr>"
  have "(\<forall>f p. tasks (fold (\<lambda>f. compileLocked f True) files s) f = Some p \<longrightarrow> p = Spawned) \<and>
      getBlockedOn f (fold (\<lambda>f. compileLocked f True) files s) = getBlockedOn f s \<and>
      result_of f (fold (\<lambda>f. compileLocked f True) files s) = result_of f s \<and>
      reports (fold (\<lambda>f. compileLocked f True) files s) = reports s \<and>
      (tasks (fold (\<lambda>f. compileLocked f True) files s) f \<noteq> None \<longleftrightarrow> f \<in> set files \<or> tasks s f \<noteq> None)"
    if "\<forall>f p. tasks s f = Some p \<longrightarrow> p = Spawned" "\<forall>f. results s f = None \<longleftrightarrow> tasks s f = None" for s
    using that
  proof (induction files arbitrary: s)
    case (Cons a files)
    have "\<forall>f p. tasks (compileLocked a True s) f = Some p \<longrightarrow> p = Spawned"
      "\<forall>f. results (compileLocked a True s) f = None \<longleftrightarrow> tasks (compileLocked a True s) f = None" using Cons.prems by auto
    from Cons.IH [OF this] show ?case using Cons.prems(2) [rule_format, of a] by (cases "results s a") auto
  qed simp
  from this [of ?s0] show "tasks (start par files) f = Some p \<Longrightarrow> p = Spawned" "getBlockedOn f (start par files) = []"
    "result_of f (start par files) = None" "reports (start par files) = []" "tasks (start par files) f \<noteq> None \<longleftrightarrow> f \<in> set files"
    by (simp_all add: start_def getBlockedOn_def result_of_def)
qed

lemma creachable_order:
  assumes "creachable c par files s" "descriptor_imports_nothing c"
  shows "driver_inv c par s" "order_inv s"
proof -
  have "driver_inv c par s \<and> order_inv s"
    using assms(1)
  proof (rule creachable_induct_moves)
    have "order_ok ord (start par files) f p" if "tasks (start par files) f = Some p" for ord f p
      using start_tasks [OF that] by simp
    then show "order_inv (start par files)" by (auto simp: order_inv_def start_blk)
  next
    fix s s' :: cstate
    assume o: "order_inv s" and eq: "results s' = results s" "tasks s' = tasks s"
    have "getBlockedOn x s' = getBlockedOn x s" for x by (simp add: getBlockedOn_def eq)
    then have b: "blk s' x = blk s x" for x by simp
    have "order_ok ord s' f p" if "order_ok ord s f p" for ord f p by (rule order_ok_shrink [OF that]) (simp only: b subset_refl)
    then show "order_inv s'" using o unfolding order_inv_def eq b by blast
  qed (rule move_order [OF _ _ _ assms(2)])
  then show "driver_inv c par s" "order_inv s" by auto
qed

lemma holder_moves:
  assumes "tasks s f = Some p" "holds p"
  shows "\<exists>ch s'. task_step c ch f s = Some s'"
proof (cases p)
  case Resolving
  then show ?thesis using assms by (auto simp: task_step_defs split: sum.split loaded.split intro!: exI [of _ Ext_panic])
next
  case (Importing ds td ck)
  then show ?thesis using assms by (cases td) (auto simp: task_step_defs)
next
  case (Checking ds td ck call st)
  have "\<exists>s'. task_step c ch f s = Some s'" for ch
  proof (cases call)
    case None
    show ?thesis
    proof (cases st)
      case (Cons fr st')
      then show ?thesis using assms Checking None by (cases fr; cases "snd fr") (auto simp: task_step_defs)
    qed (use assms Checking None in \<open>auto simp: task_step_defs\<close>)
  qed (use assms Checking in \<open>auto simp: task_step_defs\<close>)
  then show ?thesis by blast
next
  case (Linking ds)
  then show ?thesis using assms by (auto simp: task_step_defs intro!: exI [of _ Go_on])
qed (use assms in \<open>auto simp: task_step_defs\<close>)

text \<open>A finite set in which everything waits for something has a cycle whose latest member waits for earlier ones.\<close>

lemma latest_of_cycle:
  assumes fin: "finite W" and ne: "x0 \<in> W" and w: "\<And>x. x \<in> W \<Longrightarrow> w x \<in> W" and inj: "inj_on ord W"
  shows "\<exists>A n. A \<in> W \<and> (w ^^ Suc n) A = A \<and> (\<forall>i. (w ^^ i) A = A \<or> ord ((w ^^ i) A) < (ord A :: nat))"
proof -
  have inW: "x \<in> W \<Longrightarrow> (w ^^ i) x \<in> W" for x i by (induction i) (auto intro: w)
  have "\<not> inj (\<lambda>i. (w ^^ i) x0)" using finite_subset [OF _ fin] inW [OF ne] finite_imageD [of "\<lambda>i. (w ^^ i) x0" UNIV]
    by (metis image_subsetI infinite_UNIV_nat)
  then obtain i j where ij: "i < j" "(w ^^ i) x0 = (w ^^ j) x0" unfolding inj_def by (metis nat_neq_iff)
  define x where "x = (w ^^ i) x0"
  obtain n where n: "j = Suc n + i" using ij(1) by (metis less_imp_Suc_add add.commute add_Suc_right)
  have x: "x \<in> W" "(w ^^ Suc n) x = x" using inW [OF ne] ij(2) unfolding x_def n by (simp_all add: funpow_add)
  let ?C = "range (\<lambda>k. (w ^^ k) x)"
  have "?C \<subseteq> W" using inW [OF x(1)] by auto
  then have finC: "finite ?C" using fin by (rule finite_subset)
  have "Max (ord ` ?C) \<in> ord ` ?C" using finC by (intro Max_in) auto
  then obtain A where A: "A \<in> ?C" "ord A = Max (ord ` ?C)" by (metis imageE)
  have top: "ord y \<le> ord A" if "y \<in> ?C" for y unfolding A(2) using finC that by (intro Max_ge) auto
  obtain k where k: "A = (w ^^ k) x" using A(1) by blast
  have "(w ^^ Suc n) A = (w ^^ k) ((w ^^ Suc n) x)" unfolding k by (metis add.commute comp_apply funpow_add)
  then have cyc: "(w ^^ Suc n) A = A" using x(2) k by simp
  have "(w ^^ i) A = A \<or> ord ((w ^^ i) A) < ord A" for i
  proof -
    have "(w ^^ i) A = (w ^^ (i + k)) x" unfolding k by (simp add: funpow_add)
    then have c: "(w ^^ i) A \<in> ?C" by blast
    have "(w ^^ i) A \<in> W" "A \<in> W" using inW [OF x(1)] c A(1) by auto
    then show ?thesis using top [OF c] inj_onD [OF inj, of "(w ^^ i) A" A] by force
  qed
  moreover have "A \<in> W" using inW [OF x(1)] k by simp
  ultimately show ?thesis using cyc by blast
qed

text \<open>What a task can be doing when no task can take a step.\<close>

lemma blocked_task:
  assumes no: "\<And>ch s'. task_step c ch f s \<noteq> Some s'" and p: "tasks s f = Some p" and permit: "0 < permits s"
  obtains (fin) "p = Finished"
  | (import_wait) ds d td where "p = Waiting ds (d # td)" "result_of d s = None"
  | (desc_wait) ds where "p = WaitingDesc ds" "result_of descriptorProtoPath s = None"
proof (cases "holds p")
  case True
  then show ?thesis using holder_moves [OF p True, of c] no by auto
next
  case False
  note go = no [of Go_on]
  show ?thesis
  proof (cases p)
    case (Waiting ds td)
    show ?thesis
    proof (cases td)
      case (Cons d td')
      have "result_of d s = None" using go p Waiting Cons
        by (cases "result_of d s"; cases "the (result_of d s)") (auto simp: task_step_defs)
      then show ?thesis using import_wait Waiting Cons by blast
    qed (use go p Waiting in \<open>auto simp: task_step_defs\<close>)
  next
    case (WaitingDesc ds)
    then have "result_of descriptorProtoPath s = None" using go p
      by (cases "result_of descriptorProtoPath s") (auto simp: task_step_defs)
    then show ?thesis using desc_wait WaitingDesc by blast
  qed (use False go p permit fin in \<open>auto simp: task_step_defs\<close>)
qed

lemma all_finished_if_stuck:
  assumes d: "driver_inv c par s" and o: "order_inv s" and par: "0 < par" and desc: "descriptor_imports_nothing c"
    and no: "\<And>ch f s'. task_step c ch f s \<noteq> Some s'" and t: "tasks s f0 = Some p0"
  shows "p0 = Finished"
proof (rule ccontr)
  assume unfinished: "p0 \<noteq> Finished"
  have "\<not> holds p" if "tasks s f = Some p" for f p using holder_moves [OF that, of c] no by auto
  then have "{f. \<exists>p. tasks s f = Some p \<and> holds p} = {}" by blast
  then have permit: "0 < permits s" using driver_invD(7) [OF d] par by (simp only: card.empty add_0_right)
  define W where "W = {f. \<exists>ds d td. tasks s f = Some (Waiting ds (d # td)) \<and> result_of d s = None}"
  have undone: "f \<in> W" if "tasks s f = Some p" "p \<noteq> Finished" for f p
    using no that(1) permit
  proof (cases rule: blocked_task)
    case (desc_wait ds)
    have w: "wantsDescriptorProto c f ds" "started s descriptorProtoPath"
      using driver_invD(5) [OF d that(1)] desc_wait by (auto simp: all_imports_def)
    obtain q where q: "tasks s descriptorProtoPath = Some q" using w(2) by (auto simp: started_def)
    have free: "blk s descriptorProtoPath = {}" using descriptor_not_blocked [OF d desc] w(1) by (simp add: wantsDescriptorProto_def)
    have "q \<noteq> Finished" using driver_invD(6) [OF d q] desc_wait(2) by auto
    from no q permit show ?thesis
      by (cases rule: blocked_task) (use driver_invD(5) [OF d q] \<open>q \<noteq> Finished\<close> free in \<open>auto simp: blocks_def\<close>)
  qed (use that in \<open>auto simp: W_def\<close>)
  have "\<exists>d \<in> W. d \<in> blk s f" if f: "f \<in> W" for f
  proof -
    obtain ds d td where w: "tasks s f = Some (Waiting ds (d # td))" "result_of d s = None" using f by (auto simp: W_def)
    have "blocks c s f ds" "started s d" "d \<in> set ds" using driver_invD(5) [OF d w(1)] by (auto simp: all_imports_def)
    moreover then obtain q where q: "tasks s d = Some q" by (auto simp: started_def)
    moreover have "q \<noteq> Finished" using driver_invD(6) [OF d q] w(2) by auto
    ultimately show ?thesis using undone [OF q] by (auto simp: blocks_def all_imports_def intro!: bexI [of _ d])
  qed
  then obtain w where w: "\<And>f. f \<in> W \<Longrightarrow> w f \<in> W" "\<And>f. f \<in> W \<Longrightarrow> w f \<in> blk s f" by metis
  obtain ord where ord: "inj_on ord {x. blk s x \<noteq> {}}" "\<And>g q. tasks s g = Some q \<Longrightarrow> order_ok ord s g q"
    using o by (auto simp: order_inv_def)
  have "blk s x \<noteq> {}" if "x \<in> W" for x using w(2) [OF that] by auto
  then have "W \<subseteq> {x. blk s x \<noteq> {}}" by blast
  moreover have "finite W" using driver_invD(2) [OF d] by (rule rev_finite_subset) (auto simp: W_def)
  ultimately obtain A n where A: "A \<in> W" "(w ^^ Suc n) A = A" "\<And>i. (w ^^ i) A = A \<or> ord ((w ^^ i) A) < ord A"
    using latest_of_cycle [of W f0 w ord] undone [OF t unfinished] w(1) inj_on_subset [OF ord(1)] by metis
  have inW: "(w ^^ i) A \<in> W" for i by (induction i) (simp_all add: A(1) w(1))
  have "(A, (w ^^ Suc i) A) \<in> (before ord s A)\<^sup>+" for i
  proof (induction i)
    case 0
    then show ?case using w(2) [OF A(1)] by (auto simp: before_def)
  next
    case (Suc i)
    have "((w ^^ Suc i) A, (w ^^ Suc (Suc i)) A) \<in> before ord s A"
      using w(2) [OF inW [of "Suc i"]] A(3) [of "Suc i"] by (auto simp: before_def)
    with Suc show ?case by (rule trancl_into_trancl)
  qed
  then have "(A, A) \<in> (before ord s A)\<^sup>+" using A(2) by metis
  moreover obtain ds d td where "tasks s A = Some (Waiting ds (d # td))" using A(1) by (auto simp: W_def)
  ultimately show False using ord(2) by fastforce
qed

lemma main_views [simp]:
  "main (fail_with f e b s) = main s" "cancelled (fail_with f e b s) = cancelled s"
  "main (handleImportCycle sq d s) = main s" "cancelled (handleImportCycle sq d s) = cancelled s"
  by (simp_all add: fail_with_def handleImportCycle_def)

section \<open>Reported cycles\<close>

definition imports_rel :: "config \<Rightarrow> (path \<times> path) set" where
  "imports_rel c = {(x, y). \<exists>ds. unlinked c x ds \<and> y \<in> set (all_imports c x ds)}"

abbreviation import_chain :: "config \<Rightarrow> path list \<Rightarrow> bool" where
  "import_chain c \<equiv> successively (\<lambda>x y. (x, y) \<in> imports_rel c)"

definition frame_ok :: "config \<Rightarrow> path list \<times> path list \<Rightarrow> bool" where
  "frame_ok c = (\<lambda>(sq, pd). sq \<noteq> [] \<and> import_chain c sq \<and> (\<forall>y \<in> set pd. (last sq, y) \<in> imports_rel c))"

fun chain_ok :: "config \<Rightarrow> path \<Rightarrow> pc \<Rightarrow> bool" where
  "chain_ok c f (Checking ds td ck call st) \<longleftrightarrow>
     (\<forall>(x, sq) \<in> set_option call. sq \<noteq> [] \<and> last sq = x \<and> import_chain c sq \<and> (\<exists>y. (y, x) \<in> imports_rel c)) \<and> (\<forall>fr \<in> set st. frame_ok c fr)"
| "chain_ok c f _ \<longleftrightarrow> True"

definition chain_inv :: "config \<Rightarrow> cstate \<Rightarrow> bool" where
  "chain_inv c s \<longleftrightarrow> (\<forall>f p. tasks s f = Some p \<longrightarrow> chain_ok c f p) \<and>
     (\<forall>(sq, d) \<in> set (reports s). d \<in> set sq \<and> import_chain c (sq @ [d]))"

lemma successively_snoc: "successively P (xs @ [x]) \<longleftrightarrow> successively P xs \<and> (xs = [] \<or> P (last xs) x)"
  by (simp add: successively_append_iff)

lemma blk_imports: "driver_inv c par s \<Longrightarrow> y \<in> blk s x \<Longrightarrow> (x, y) \<in> imports_rel c"
proof -
  assume inv: "driver_inv c par s" and y: "y \<in> blk s x"
  have "blk s x \<noteq> {}" using y by auto
  then obtain ds where "blocks c s x ds" using blocked_by_imports [OF inv] by blast
  then show "(x, y) \<in> imports_rel c" using y by (auto simp: imports_rel_def blocks_def)
qed

lemma chain_local:
  assumes "chain_inv c s" "chain_ok c f p'" "reports s' = reports s"
    and "\<And>g q. tasks s' g = Some q \<Longrightarrow> (g = f \<and> q = p') \<or> (g \<noteq> f \<and> tasks s g = Some q) \<or> q = Spawned"
  shows "chain_inv c s'"
  using assms by (fastforce simp: chain_inv_def)

lemmas chain_step = chain_local [where p' = "the (tasks s' f)" and s = s and s' = s' and f = f for s s' f]

lemma chain_report:
  assumes "chain_inv c s" "d \<in> set sq" "import_chain c (sq @ [d])"
  shows "chain_inv c (fail_with f e b (handleImportCycle sq d s))"
  using assms by (auto simp: chain_inv_def split: if_splits)

lemma move_chain:
  assumes m: "move c f s s'" and d: "driver_inv c par s" and inv: "chain_inv c s"
  shows "chain_inv c s'"
proof -
  have ok: "tasks s f = Some p \<Longrightarrow> chain_ok c f p" for p using inv by (auto simp: chain_inv_def)
  from m show ?thesis
  proof (cases rule: move.cases)
    case (self_import ds td ck)
    have "f \<in> blk s f" using driver_invD(5) [OF d self_import(2)] by (auto simp: blocks_def all_imports_def)
    then show ?thesis unfolding self_import(1) using blk_imports [OF d] by (intro chain_report [OF inv]) auto
  next
    case (next_import ds d1 td ck)
    have "d1 \<in> blk s f" using driver_invD(5) [OF d next_import(2)] by (auto simp: blocks_def all_imports_def)
    then have "(f, d1) \<in> imports_rel c" by (rule blk_imports [OF d])
    then show ?thesis unfolding next_import(1)
      by (intro chain_local [OF inv, where f = f and p' = "Checking ds td ck (Some (d1, [f, d1])) []"])
         (auto split: if_splits)
  next
    case (visit ds td ck x sq st)
    have "frame_ok c (sq, getBlockedOn x s)" using ok [OF visit(2)] blk_imports [OF d] by (auto simp: frame_ok_def)
    then show ?thesis unfolding visit(1) using ok [OF visit(2)]
      by (intro chain_local [OF inv, where f = f and p' = "Checking ds td (x # ck) None ((sq, getBlockedOn x s) # st)"])
         (auto split: if_splits)
  next
    case (cycle ds td ck sq d1 pd st)
    then show ?thesis unfolding cycle(1) using ok [OF cycle(2)]
      by (intro chain_report [OF inv]) (auto simp: frame_ok_def successively_snoc)
  next
    case (check_call ds td ck sq d1 pd st)
    show ?thesis unfolding check_call(1) using ok [OF check_call(2)]
      by (intro chain_local [OF inv, where f = f and p' = "Checking ds td ck (Some (d1, sq @ [d1])) ((sq, pd) # st)"])
         (auto simp: frame_ok_def successively_snoc split: if_splits)
  qed (rule chain_step [OF inv, where f = f]; insert ok; force split: if_splits simp: frame_ok_def)+
qed

lemma creachable_chain: "creachable c par files s \<Longrightarrow> driver_inv c par s \<and> chain_inv c s"
proof -
  assume r: "creachable c par files s"
  have "chain_ok c f p" if "tasks (start par files) f = Some p" for f p using start_tasks [OF that] by simp
  then have "chain_inv c (start par files)" by (auto simp: chain_inv_def start_reports)
  from r this show ?thesis by (rule creachable_induct_moves) (auto intro: move_chain, simp add: chain_inv_def)
qed

section \<open>The order of completion\<close>

definition rank_inv :: "config \<Rightarrow> cstate \<Rightarrow> bool" where
  "rank_inv c s \<longleftrightarrow> (\<exists>rank :: path \<Rightarrow> nat. \<forall>f ds. succeeded s f \<longrightarrow> unlinked c f ds \<longrightarrow> (\<forall>d \<in> set ds. succeeded s d \<and> rank d < rank f))"

lemma rank_same: "rank_inv c s \<Longrightarrow> (\<And>f. succeeded s' f = succeeded s f) \<Longrightarrow> rank_inv c s'"
  by (simp add: rank_inv_def)

lemma rank_linked:
  assumes inv: "rank_inv c s" and new: "\<not> succeeded s f" and s': "\<And>g. succeeded s' g \<longleftrightarrow> g = f \<or> succeeded s g"
    and ds: "\<And>ds. unlinked c f ds \<Longrightarrow> \<forall>d \<in> set ds. succeeded s d"
  shows "rank_inv c s'"
proof -
  obtain rank :: "path \<Rightarrow> nat" where r: "\<And>g ds d. succeeded s g \<Longrightarrow> unlinked c g ds \<Longrightarrow> d \<in> set ds \<Longrightarrow> succeeded s d \<and> rank d < rank g"
    using inv unfolding rank_inv_def by blast
  define n where "n = (case load c f of Inr (Unlinked ds) \<Rightarrow> Suc (sum_list (map rank ds)) | _ \<Rightarrow> 0)"
  have "succeeded s' d \<and> (rank(f := n)) d < (rank(f := n)) g" if "succeeded s' g" "unlinked c g ds1" "d \<in> set ds1" for g ds1 d
  proof (cases "g = f")
    case True
    then have d: "succeeded s d" "d \<noteq> f" using ds that new by blast+
    moreover have "rank d < n" using that(2,3) True member_le_sum_list [of "rank d" "map rank ds1"] by (auto simp: n_def unlinked_def)
    ultimately show ?thesis using True s' by simp
  next
    case False
    then have "succeeded s d \<and> rank d < rank g" using r that s' by blast
    then show ?thesis using False new s' by auto
  qed
  then show ?thesis unfolding rank_inv_def by blast
qed

lemma move_rank:
  assumes m: "move c f s s'" and d: "driver_inv c par s" and inv: "rank_inv c s"
  shows "rank_inv c s'"
proof -
  have new: "\<not> succeeded s f" if "tasks s f = Some p" "\<not> published p" for p
    using driver_invD(6) [OF d that(1)] that(2) by (simp add: succeeded_def)
  have r: "results s f \<noteq> None" if "tasks s f = Some p" for p using driver_invD(1) [OF d, of f] that by simp
  from m show ?thesis
  proof (cases rule: move.cases)
    case load_done
    show ?thesis unfolding load_done(1)
      by (rule rank_linked [OF inv new [OF load_done(2)]]) (use load_done r in \<open>auto simp: succeeded_def unlinked_def\<close>)
  next
    case (linked ds)
    have "unlinked c f ds" "\<forall>x \<in> set ds. succeeded s x" using driver_invD(5) [OF d linked(2)] by auto
    then show ?thesis unfolding linked(1) 
      by (intro rank_linked [OF inv new [OF linked(2)]]) (use linked r in \<open>auto simp: succeeded_def unlinked_def\<close>)
  qed (rule rank_same [OF inv]; insert new r; auto simp: succeeded_def)+
qed

lemma creachable_rank: "creachable c par files s \<Longrightarrow> rank_inv c s"
proof -
  assume r: "creachable c par files s"
  have "driver_inv c par s \<and> rank_inv c s" using r
  proof (rule creachable_induct_moves)
    show "rank_inv c (start par files)" by (simp add: rank_inv_def succeeded_def start_result)
  next
    fix s s' :: cstate
    assume inv: "rank_inv c s" and eq: "results s' = results s"
    show "rank_inv c s'" by (rule rank_same [OF inv]) (simp add: succeeded_def result_of_def eq)
  qed (rule move_rank)
  then show ?thesis ..
qed

text \<open>What \<open>Compile\<close> has seen.\<close>

definition main_inv :: "path list \<Rightarrow> cstate \<Rightarrow> bool" where
  "main_inv files s \<longleftrightarrow>
     (case main s of
        MainWait i e \<Rightarrow> e = None \<longrightarrow> (\<forall>k < i. k < length files \<longrightarrow> succeeded s (files ! k))
      | MainReturned e \<Rightarrow> e = None \<longrightarrow> (\<forall>f \<in> set files. succeeded s f))"

lemma move_main: "move c f s s' \<Longrightarrow> main s' = main s \<and> cancelled s' = cancelled s"
  by (cases rule: move.cases) (auto split: if_splits)

lemma move_succeeded: "move c f s s' \<Longrightarrow> driver_inv c par s \<Longrightarrow> succeeded s g \<Longrightarrow> succeeded s' g"
proof -
  assume m: "move c f s s'" and d: "driver_inv c par s" and g: "succeeded s g"
  have "\<not> succeeded s f" if "tasks s f = Some p" "\<not> published p" for p
    using driver_invD(6) [OF d that(1)] that(2) by (simp add: succeeded_def)
  with m g show ?thesis
    by (cases rule: move.cases) (auto simp: succeeded_def)
qed

lemma creachable_main: "creachable c par files s \<Longrightarrow> main_inv files s"
proof (induction rule: creachable.induct)
  case init
  have "main (fold (\<lambda>f. compileLocked f True) fs s) = main s" for fs s by (induction fs arbitrary: s) simp_all
  then show ?case by (simp add: main_inv_def start_def)
next
  case (step s s')
  have d: "driver_inv c par s" using creachable_chain [OF step.hyps(1)] by blast
  from step.hyps(2) show ?case
  proof (cases rule: cstep.cases)
    case (task ch f)
    have m: "main s' = main s" "\<And>g. succeeded s g \<Longrightarrow> succeeded s' g"
      using move_succeeded [OF task_step_move [OF task] d] move_main [OF task_step_move [OF task]] by blast+
    show ?thesis using step.IH unfolding main_inv_def m(1) by (auto split: main_pc.split intro: m(2))
  next
    case (compile ch)
    have su: "succeeded s' f = succeeded s f" for f
      using main_step_views(1) [OF compile] by (simp add: succeeded_def result_of_def)
    show ?thesis using compile step.IH unfolding main_inv_def su
      by (auto simp: main_step_def in_set_conv_nth less_Suc_eq succeeded_def
          split: main_pc.splits if_splits choice.splits option.splits sum.splits)
  next
    case cancel
    have su: "succeeded s' = succeeded s" and m: "main s' = main s" by (simp_all add: cancel succeeded_def fun_eq_iff)
    show ?thesis using step.IH unfolding main_inv_def su m .
  qed
qed

section \<open>Runs are finite\<close>

text \<open>The files that a compilation can meet.\<close>

definition universe :: "config \<Rightarrow> path list \<Rightarrow> path set \<Rightarrow> bool" where
  "universe c files U \<longleftrightarrow> finite U \<and> set files \<subseteq> U \<and> (\<forall>x \<in> U. \<forall>ds. unlinked c x ds \<longrightarrow> set (all_imports c x ds) \<subseteq> U)"

definition import_count :: "config \<Rightarrow> path \<Rightarrow> nat" where
  "import_count c x = (case load c x of Inr (Unlinked ds) \<Rightarrow> length (all_imports c x ds) | _ \<Rightarrow> 0)"

definition max_imports :: "config \<Rightarrow> path set \<Rightarrow> nat" where
  "max_imports c U = Max (insert 0 (import_count c ` U))"

lemma import_count_le: "finite U \<Longrightarrow> x \<in> U \<Longrightarrow> unlinked c x ds \<Longrightarrow> length (all_imports c x ds) \<le> max_imports c U"
proof -
  assume fin: "finite U" and x: "x \<in> U" and ds: "unlinked c x ds"
  have "import_count c x \<le> max_imports c U" unfolding max_imports_def using fin x by (intro Max_ge) auto
  then show ?thesis using ds by (simp add: import_count_def unlinked_def)
qed

lemma deps_le: "length ds \<le> length (all_imports c x ds)"
  by (simp add: all_imports_def)

text \<open>How many steps a task can still take. \<open>card (U - set ck)\<close> results are still to be looked at, each with at most
  \<open>M\<close> dependencies.\<close>

fun cost :: "path set \<Rightarrow> nat \<Rightarrow> pc \<Rightarrow> nat" where
  "cost U M Finished = 0"
| "cost U M (Closing _) = 1"
| "cost U M Recovering = 1"
| "cost U M (Panicking _) = 2"
| "cost U M (Linking _) = 3"
| "cost U M (Reacquiring _) = 4"
| "cost U M (Unblocking _) = 5"
| "cost U M (WaitingDesc _) = 6"
| "cost U M (Waiting ds td) = 7 + length td"
| "cost U M (Releasing ds) = 8 + length ds"
| "cost U M (Wanting ds) = 9 + length ds"
| "cost U M (Importing ds td ck) = 10 + length ds + 3 * length td + card (U - set ck) * (2 * M + 2)"
| "cost U M (Checking ds td ck call st) = 11 + length ds + 3 * length td + card (U - set ck) * (2 * M + 2) +
     of_bool (call \<noteq> None) + sum_list (map (\<lambda>(sq, pd). 1 + 2 * length pd) st)"
| "cost U M (Parsed ds) = 11 + 4 * length ds + card U * (2 * M + 2)"
| "cost U M Resolving = 12 + 4 * M + card U * (2 * M + 2)"
| "cost U M Spawned = 13 + 4 * M + card U * (2 * M + 2)"

definition task_cost :: "path set \<Rightarrow> nat \<Rightarrow> cstate \<Rightarrow> path \<Rightarrow> nat" where
  "task_cost U M s f = (case tasks s f of None \<Rightarrow> cost U M Spawned | Some p \<Rightarrow> cost U M p)"

lemma visit_cost:
  assumes "finite U" "x \<in> U" "x \<notin> set ck" "length ys \<le> M"
  shows "cost U M (Checking ds td (x # ck) None ((sq, ys) # st)) < cost U M (Checking ds td ck (Some (x, sq)) st)"
proof -
  have "U - set ck = insert x (U - set (x # ck))" using assms(2,3) by auto
  then have "card (U - set ck) = Suc (card (U - set (x # ck)))" using assms(1) by (metis Diff_iff card_insert_disjoint finite_Diff list.set_intros(1))
  then show ?thesis using assms(4) by simp
qed

lemma move_cost:
  assumes m: "move c f s s'" and d: "driver_inv c par s" and U: "universe c files U" and f: "f \<in> U"
    and sub: "\<And>g. started s g \<Longrightarrow> g \<in> U"
  shows "task_cost U (max_imports c U) s' f < task_cost U (max_imports c U) s f"
    and "g \<noteq> f \<Longrightarrow> task_cost U (max_imports c U) s' g \<le> task_cost U (max_imports c U) s g"
    and "started s' g \<Longrightarrow> g \<in> U"
proof -
  have fin: "finite U" and closed: "\<And>ds. unlinked c f ds \<Longrightarrow> set (all_imports c f ds) \<subseteq> U" using U f by (auto simp: universe_def)
  have len: "length ds \<le> max_imports c U" if "unlinked c f ds" for ds
    using import_count_le [OF fin f that] deps_le [of ds c f] by simp
  from m show "task_cost U (max_imports c U) s' f < task_cost U (max_imports c U) s f"
  proof (cases rule: move.cases)
    case (visit ds td ck x sq st)
    have x: "x \<in> U" using driver_invD(5) [OF d visit(2)] sub by auto
    have "length (getBlockedOn x s) \<le> max_imports c U"
    proof (cases "blk s x = {}")
      case False
      then obtain ds where "blocks c s x ds" using blocked_by_imports [OF d] by blast
      then show ?thesis using import_count_le [OF fin x] by (simp add: blocks_def)
    qed simp
    then show ?thesis using visit_cost [OF fin x visit(3)] visit by (simp add: task_cost_def)
  next
    case (load_parsed ds)
    then show ?thesis using len [of ds] by (simp add: task_cost_def unlinked_def)
  next
    case (next_import ds dd td ck)
    then show ?thesis by (auto simp: task_cost_def)
  next
    case (want ds)
    then show ?thesis by (auto simp: task_cost_def split: if_splits)
  qed (auto simp: task_cost_def split: if_splits)
  show "g \<noteq> f \<Longrightarrow> task_cost U (max_imports c U) s' g \<le> task_cost U (max_imports c U) s g"
    using m driver_invD(1) [OF d, of g] by (cases rule: move.cases) (auto simp: task_cost_def split: if_splits)
  show "started s' g \<Longrightarrow> g \<in> U"
  proof -
    assume g: "started s' g"
    have old: "started s g \<or> g = f \<Longrightarrow> g \<in> U" using sub f by auto
    from m show ?thesis
    proof (cases rule: move.cases)
      case (next_import ds dd td ck)
      have "unlinked c f ds" "dd \<in> set ds" using driver_invD(5) [OF d next_import(2)] by (auto simp: blocks_def)
      then have "dd \<in> U" using closed [of ds] by (auto simp: all_imports_def split: if_splits)
      then show ?thesis using g old next_import by (auto simp: started_def split: if_splits)
    next
      case (want ds)
      have "wantsDescriptorProto c f ds \<Longrightarrow> descriptorProtoPath \<in> U"
        using driver_invD(5) [OF d want(2)] closed [of ds] by (auto simp: blocks_def all_imports_def)
      then show ?thesis using g old want by (auto simp: started_def split: if_splits)
    qed (use g old in \<open>auto simp: started_def split: if_splits\<close>)
  qed
qed

definition total_cost :: "config \<Rightarrow> path list \<Rightarrow> path set \<Rightarrow> cstate \<Rightarrow> nat" where
  "total_cost c files U s = (\<Sum>f \<in> U. task_cost U (max_imports c U) s f) +
     (case main s of MainWait i _ \<Rightarrow> length files - i + 1 | MainReturned _ \<Rightarrow> 0) + of_bool (\<not> cancelled s)"

lemma task_cost_views: "tasks s' = tasks s \<Longrightarrow> task_cost U M s' = task_cost U M s"
  by (simp add: task_cost_def fun_eq_iff)

lemma main_step_main:
  assumes "main_step files ch s = Some s'"
  shows "(case main s' of MainWait i _ \<Rightarrow> length files - i + 1 | MainReturned _ \<Rightarrow> 0) <
    (case main s of MainWait i _ \<Rightarrow> length files - i + 1 | MainReturned _ \<Rightarrow> (0 :: nat))" "cancelled s \<Longrightarrow> cancelled s'"
  using assms by (auto simp: main_step_def split: main_pc.splits if_splits choice.splits option.splits sum.splits)

lemma cstep_cost:
  assumes "cstep c files s s'" "driver_inv c par s" "universe c files U" "\<And>g. started s g \<Longrightarrow> g \<in> U"
  shows "total_cost c files U s' < total_cost c files U s" "started s' g \<Longrightarrow> g \<in> U"
proof -
  have fin: "finite U" using assms(3) by (simp add: universe_def)
  have "total_cost c files U s' < total_cost c files U s \<and> (\<forall>g. started s' g \<longrightarrow> g \<in> U)"
    using assms(1)
  proof (cases rule: cstep.cases)
    case (task ch f)
    note m = task_step_move [OF task]
    have f: "f \<in> U" using task assms(4) [of f] by (cases "tasks s f") (auto simp: task_step_defs started_def)
    note c = move_cost [OF m assms(2,3) f assms(4)]
    have "(\<Sum>g \<in> U. task_cost U (max_imports c U) s' g) < (\<Sum>g \<in> U. task_cost U (max_imports c U) s g)"
    proof (rule sum_strict_mono_ex1 [OF fin])
      show "\<forall>g \<in> U. task_cost U (max_imports c U) s' g \<le> task_cost U (max_imports c U) s g"
        using c(1,2) less_imp_le by metis
      show "\<exists>g \<in> U. task_cost U (max_imports c U) s' g < task_cost U (max_imports c U) s g" using f c(1) by blast
    qed
    then show ?thesis using move_main [OF m] c(3) by (simp add: total_cost_def)
  next
    case (compile ch)
    note v = main_step_views [OF compile]
    show ?thesis using main_step_main [OF compile] task_cost_views [OF v(2)] assms(4) v(2)
      by (auto simp: total_cost_def started_def)
  next
    case cancel
    then show ?thesis using assms(4) task_cost_views [of s' s] by (simp add: total_cost_def started_def)
  qed
  then show "total_cost c files U s' < total_cost c files U s" "started s' g \<Longrightarrow> g \<in> U" by blast+
qed

lemma creachable_universe: "creachable c par files s \<Longrightarrow> universe c files U \<Longrightarrow> started s g \<Longrightarrow> g \<in> U"
proof (induction arbitrary: g rule: creachable.induct)
  case init
  then show ?case using start_started by (auto simp: universe_def started_def)
next
  case (step s s')
  then show ?case using cstep_cost(2) creachable_chain by blast
qed

lemma move_started: "move c f s s' \<Longrightarrow> started s g \<Longrightarrow> started s' g"
  by (cases rule: move.cases) (auto simp: started_def split: if_splits)

lemma creachable_started: "creachable c par files s \<Longrightarrow> g \<in> set files \<Longrightarrow> started s g"
proof (induction rule: creachable.induct)
  case init
  then show ?case using start_started by (simp add: started_def)
next
  case (step s s')
  from step.hyps(2) show ?case
  proof (cases rule: cstep.cases)
    case (task ch f)
    then show ?thesis using move_started task_step_move step by blast
  next
    case (compile ch)
    then show ?thesis using main_step_views(2) [OF compile] step by (simp add: started_def)
  qed (use step in \<open>simp add: started_def\<close>)
qed

lemma run_length:
  assumes "universe c files U"
  shows "creachable c par files (r 0) \<Longrightarrow> (\<And>i. i < n \<Longrightarrow> cstep c files (r i) (r (Suc i))) \<Longrightarrow>
    creachable c par files (r n) \<and> n + total_cost c files U (r n) \<le> total_cost c files U (r 0)"
proof (induction n)
  case (Suc n)
  have st: "cstep c files (r n) (r (Suc n))" and IH: "creachable c par files (r n)" "n + total_cost c files U (r n) \<le> total_cost c files U (r 0)"
    using Suc by auto
  have "total_cost c files U (r (Suc n)) < total_cost c files U (r n)"
    using cstep_cost(1) [OF st] creachable_chain [OF IH(1)] creachable_universe [OF IH(1) assms] assms by blast
  then show ?case using IH creachable.step [OF IH(1) st] by simp
qed simp

section \<open>Properties\<close>

text \<open>C4: a compilation does not deadlock, provided that \<open>descriptor.proto\<close> imports nothing. In every state that
  the interleaved tasks can reach, as long as a task is unfinished or \<open>Compile\<close> has not returned, some task or
  \<open>Compile\<close> can take a step without waiting for the caller to cancel, for every graph of imports with or without
  cycles among the other files and every positive number of permits. Without the condition, which an override of
  \<open>descriptor.proto\<close> can break, a deadlock is reachable: see below.\<close>

theorem Compile_deadlock_free:
  assumes "creachable c par files s" "0 < par" "descriptor_imports_nothing c"
  shows "(\<exists>ch f s'. task_step c ch f s = Some s') \<or> (\<exists>s'. main_step files Go_on s = Some s') \<or>
    ((\<forall>f p. tasks s f = Some p \<longrightarrow> p = Finished) \<and> (\<exists>e. main s = MainReturned e))"
proof (cases "\<exists>ch f s'. task_step c ch f s = Some s'")
  case False
  then have no: "task_step c ch f s \<noteq> Some s'" for ch f s' by blast
  note inv = creachable_order [OF assms(1,3)]
  have fin: "p = Finished" if "tasks s f = Some p" for f p
    using all_finished_if_stuck [OF inv assms(2,3) no that] .
  have "\<exists>s'. main_step files Go_on s = Some s'" if m: "main s = MainWait i e" for i e
  proof (cases "i < length files")
    case True
    have "files ! i \<in> set files" using True by simp
    then have "started s (files ! i)" using creachable_started [OF assms(1)] by blast
    then obtain p where p: "tasks s (files ! i) = Some p" by (auto simp: started_def)
    then obtain v where "result_of (files ! i) s = Some v" using driver_invD(6) [OF inv(1) p] fin [OF p] by auto
    then show ?thesis using m True by (cases v) (auto simp: main_step_def)
  qed (use m in \<open>auto simp: main_step_def\<close>)
  then show ?thesis using fin by (cases "main s") blast+
qed blast

text \<open>C17: a compilation ends. When the requested files lead to finitely many files, the number of steps of a
  run is bounded, whatever the tasks, the scheduler and the caller do.\<close>

theorem Compile_terminates:
  assumes "universe c files U"
  shows "\<exists>bound. \<forall>r n. r 0 = start par files \<longrightarrow> (\<forall>i < n. cstep c files (r i) (r (Suc i))) \<longrightarrow> n \<le> bound"
proof (intro exI allI impI)
  fix r n assume "r 0 = start par files" "\<forall>i < n. cstep c files (r i) (r (Suc i))"
  then show "n \<le> total_cost c files U (start par files)"
    using run_length [OF assms, of par r n] creachable.init [of c par files] by simp
qed

text \<open>C35: a cycle that is reported exists: the reported sequence follows imports, one file to the next, and ends with a
  file that it already contains.\<close>

theorem reported_cycles_exist:
  assumes "creachable c par files s" "(sq, d) \<in> set (reports s)"
  shows "d \<in> set sq \<and> import_chain c (sq @ [d])"
  using creachable_chain [OF assms(1)] assms(2) by (auto simp: chain_inv_def)

text \<open>C18: when \<open>Compile\<close> returns no error, everything is compiled: the requested files and all that they import,
  directly or not, have results, and their imports have no cycle.\<close>

theorem Compile_success:
  assumes "creachable c par files s" "main s = MainReturned None" "f \<in> set files"
    and "(f, g) \<in> {(x, y). \<exists>ds. unlinked c x ds \<and> y \<in> set ds}\<^sup>*"
  shows "succeeded s g \<and> (g, g) \<notin> {(x, y). \<exists>ds. unlinked c x ds \<and> y \<in> set ds}\<^sup>+"
proof -
  let ?R = "{(x, y). \<exists>ds. unlinked c x ds \<and> y \<in> set ds}"
  obtain rank :: "path \<Rightarrow> nat" where rank: "\<And>x ds y. succeeded s x \<Longrightarrow> unlinked c x ds \<Longrightarrow> y \<in> set ds \<Longrightarrow> succeeded s y \<and> rank y < rank x"
    using creachable_rank [OF assms(1)] unfolding rank_inv_def by blast
  have g: "succeeded s g" using assms(4)
  proof (induction rule: rtrancl_induct)
    case base
    then show ?case using creachable_main [OF assms(1)] assms(2,3) by (simp add: main_inv_def)
  qed (use rank in blast)
  have "succeeded s y \<and> rank y < rank g" if "(g, y) \<in> ?R\<^sup>+" for y
    using that
  proof (induction rule: trancl_induct)
    case (step y z)
    then show ?case using rank [of y _ z] by fastforce
  qed (use rank [OF g] in blast)
  then show ?thesis using g by blast
qed

section \<open>Runs\<close>

text \<open>A schedule says who takes the next step, a task or (\<open>None\<close>) \<open>Compile\<close>, with which choice.\<close>

fun run_sched :: "config \<Rightarrow> path list \<Rightarrow> (path option \<times> choice) list \<Rightarrow> cstate \<Rightarrow> cstate option" where
  "run_sched c files [] s = Some s"
| "run_sched c files ((who, ch) # xs) s =
     (case (case who of Some f \<Rightarrow> task_step c ch f s | None \<Rightarrow> main_step files ch s) of
        None \<Rightarrow> None
      | Some s' \<Rightarrow> run_sched c files xs s')"

lemma run_sched_reachable: "creachable c par files s \<Longrightarrow> run_sched c files xs s = Some s' \<Longrightarrow> creachable c par files s'"
proof (induction c files xs s rule: run_sched.induct)
  case (2 c files who ch xs s)
  then show ?case
    by (auto split: option.splits intro: creachable.step [OF _ cstep.task] creachable.step [OF _ cstep.compile])
qed simp

definition proto_file :: "path \<Rightarrow> path list \<Rightarrow> search_result" where
  "proto_file name deps = no_result\<lparr>Proto := Some \<lparr>pr_name = name, pr_deps = deps, is_link = False\<rparr>\<rparr>"

definition demo_config :: "(path \<times> path list) list \<Rightarrow> config" where
  "demo_config fs =
     \<lparr>Resolver = (\<lambda>p. case map_of fs p of None \<Rightarrow> Inl ''not found'' | Some deps \<Rightarrow> Inr (proto_file p deps)),
      NewFileRecursive = (\<lambda>_. None), Clone = (\<lambda>p. p), Parse = (\<lambda>_ _. Inl (ExtErr ''syntax error'')),
      ResultFromAST = (\<lambda>_. Inl (ExtErr ''invalid'')), standardDescriptor = 0\<rparr>"

lemma demo_unlinked: "unlinked (demo_config fs) x ds \<longleftrightarrow> map_of fs x = Some ds"
  by (auto simp: unlinked_def load_def demo_config_def proto_file_def no_result_def asParseResult_def split: option.split)

lemma demo_override: "hasOverrideDescriptorProto (demo_config fs) \<longleftrightarrow> map_of fs descriptorProtoPath \<noteq> None"
  by (auto simp: hasOverrideDescriptorProto_def demo_config_def proto_file_def no_result_def split: option.split)

definition chain_files :: "(path \<times> path list) list" where
  "chain_files = [(''a'', [''b'']), (''b'', [])]"

definition loop_files :: "(path \<times> path list) list" where
  "loop_files = [(''a'', [''b'']), (''b'', [''a''])]"

lemma demo_no_override: "descriptor_imports_nothing (demo_config chain_files)" "all_imports (demo_config chain_files) x ds = ds"
  by (simp_all add: descriptor_imports_nothing_def all_imports_def wantsDescriptorProto_def demo_override chain_files_def descriptorProtoPath_def)

theorem Compile_deadlock_free_witness:
  "(\<exists>ch f s'. task_step (demo_config chain_files) ch f (start 1 [''a'']) = Some s') \<or>
   (\<exists>s'. main_step [''a''] Go_on (start 1 [''a'']) = Some s') \<or>
   ((\<forall>f p. tasks (start 1 [''a'']) f = Some p \<longrightarrow> p = Finished) \<and> (\<exists>e. main (start 1 [''a'']) = MainReturned e))"
  by (rule Compile_deadlock_free [OF creachable.init _ demo_no_override(1)]) simp

theorem Compile_terminates_witness:
  "\<exists>bound. \<forall>r n. r 0 = start 1 [''a''] \<longrightarrow> (\<forall>i < n. cstep (demo_config chain_files) [''a''] (r i) (r (Suc i))) \<longrightarrow> n \<le> bound"
proof (rule Compile_terminates)
  show "universe (demo_config chain_files) [''a''] {''a'', ''b''}"
    by (auto simp: universe_def demo_unlinked demo_no_override(2)) (auto simp: chain_files_def split: if_splits)
qed

definition loop_run :: "(path option \<times> choice) list" where
  "loop_run = replicate 10 (Some ''a'', Go_on) @ replicate 6 (Some ''b'', Go_on)"

lemma loop_reports: "(case run_sched (demo_config loop_files) [''a''] loop_run (start 1 [''a'']) of Some s \<Rightarrow> reports s = [([''b'', ''a''], ''b'')] | None \<Rightarrow> False)"
  by code_simp

theorem reported_cycles_exist_witness:
  "\<exists>s. creachable (demo_config loop_files) 1 [''a''] s \<and> reports s = [([''b'', ''a''], ''b'')] \<and>
     ''b'' \<in> set [''b'', ''a''] \<and> import_chain (demo_config loop_files) ([''b'', ''a''] @ [''b''])"
proof -
  obtain s where s: "run_sched (demo_config loop_files) [''a''] loop_run (start 1 [''a'']) = Some s" "reports s = [([''b'', ''a''], ''b'')]"
    using loop_reports by (auto split: option.splits)
  have r: "creachable (demo_config loop_files) 1 [''a''] s" by (rule run_sched_reachable [OF creachable.init s(1)])
  have "([''b'', ''a''], ''b'') \<in> set (reports s)" by (simp add: s(2))
  from reported_cycles_exist [OF r this] r s(2) show ?thesis by blast
qed

definition chain_run :: "(path option \<times> choice) list" where
  "chain_run = replicate 10 (Some ''a'', Go_on) @ replicate 5 (Some ''b'', Go_on) @ replicate 6 (Some ''a'', Go_on) @ replicate 2 (None, Go_on)"

lemma chain_returns: "(case run_sched (demo_config chain_files) [''a''] chain_run (start 1 [''a'']) of Some s \<Rightarrow> main s = MainReturned None | None \<Rightarrow> False)"
  by code_simp

theorem Compile_success_witness:
  "\<exists>s. creachable (demo_config chain_files) 1 [''a''] s \<and> main s = MainReturned None \<and> succeeded s ''b''"
proof -
  obtain s where s: "run_sched (demo_config chain_files) [''a''] chain_run (start 1 [''a'']) = Some s" "main s = MainReturned None"
    using chain_returns by (auto split: option.splits)
  have r: "creachable (demo_config chain_files) 1 [''a''] s" by (rule run_sched_reachable [OF creachable.init s(1)])
  have ab: "(''a'', ''b'') \<in> {(x, y). \<exists>ds. unlinked (demo_config chain_files) x ds \<and> y \<in> set ds}\<^sup>*"
    by (rule r_into_rtrancl) (auto simp: demo_unlinked chain_files_def)
  show ?thesis using r s(2) Compile_success [OF r s(2) _ ab] by auto
qed

definition override_files :: "(path \<times> path list) list" where
  "override_files = [(descriptorProtoPath, [''b'']), (''b'', [])]"

definition override_run :: "(path option \<times> choice) list" where
  "override_run = replicate 10 (Some descriptorProtoPath, Go_on) @ replicate 7 (Some ''b'', Go_on)"

lemma override_blocks: "(case run_sched (demo_config override_files) [descriptorProtoPath] override_run (start 1 [descriptorProtoPath]) of
    Some s \<Rightarrow> tasks s descriptorProtoPath = Some (Waiting [''b''] [''b'']) \<and> tasks s ''b'' = Some (WaitingDesc []) \<and>
      result_of descriptorProtoPath s = None \<and> result_of ''b'' s = None \<and> \<not> cancelled s \<and> main s = MainWait 0 None \<and> reports s = []
  | None \<Rightarrow> False)"
  by code_simp

text \<open>C36: an overriding \<open>descriptor.proto\<close> that imports a file can deadlock the compilation. The imported file depends
  on \<open>descriptor.proto\<close> implicitly, the implicit import is not checked for cycles, and when the imported file
  starts after the check of \<open>descriptor.proto\<close> both wait for each other; nothing is reported and only the caller's
  context can end it.\<close>

theorem override_deadlocks:
  "\<exists>s. creachable (demo_config override_files) 1 [descriptorProtoPath] s \<and> main s = MainWait 0 None \<and> reports s = [] \<and>
     (\<forall>ch f s'. task_step (demo_config override_files) ch f s \<noteq> Some s') \<and> (\<forall>ch s'. main_step [descriptorProtoPath] ch s \<noteq> Some s')"
proof -
  obtain s where run: "run_sched (demo_config override_files) [descriptorProtoPath] override_run (start 1 [descriptorProtoPath]) = Some s"
    and s: "tasks s descriptorProtoPath = Some (Waiting [''b''] [''b''])" "tasks s ''b'' = Some (WaitingDesc [])"
      "result_of descriptorProtoPath s = None" "result_of ''b'' s = None" "\<not> cancelled s" "main s = MainWait 0 None" "reports s = []"
    using override_blocks by (auto split: option.splits)
  have r: "creachable (demo_config override_files) 1 [descriptorProtoPath] s" by (rule run_sched_reachable [OF creachable.init run])
  have U: "universe (demo_config override_files) [descriptorProtoPath] {descriptorProtoPath, ''b''}"
    by (auto simp: universe_def demo_unlinked all_imports_def override_files_def split: if_splits)
  have t: "task_step (demo_config override_files) ch f s \<noteq> Some s'" for ch f s'
  proof (cases "tasks s f")
    case (Some p)
    then have "f = descriptorProtoPath \<or> f = ''b''" using creachable_universe [OF r U, of f] by (auto simp: started_def)
    then show ?thesis using s by (auto simp: task_step_defs split: choice.split)
  qed (simp add: task_step_defs)
  have "main_step [descriptorProtoPath] ch s \<noteq> Some s'" for ch s' using s by (auto simp: main_step_def split: choice.split)
  then show ?thesis using r s(6,7) t by blast
qed
end
