(* ===== verification/Resolve.thy ===== *)
theory Resolve
  imports Symbols Util
begin

text \<open>
  Name resolution in the linker: \<open>linker/files.go\<close> and the resolution half of \<open>linker/resolve.go\<close>.

  A \<open>File\<close> is immutable once it exists and refers to files that existed before it, so files are
  finite trees: \<open>lf_imports\<close> holds the paths of the import statements and whether each is public,
  \<open>lf_deps\<close> the \<open>deps\<close> that \<open>FindImportByPath\<close> searches. A descriptor is an element of a file's
  hierarchy (\<open>Walk.elem\<close> with full names) together with the path and package of its \<open>ParentFile\<close> and
  the full name of its parent (empty at the top level), or a \<open>sentinelDescriptor\<close>.

  The imports that were used are the state of the search: the set of a file's \<open>usedImports\<close>, by the
  path of the file. A nil \<open>File\<close> for an import is dereferenced by the code: the result of a search is
  \<open>None\<close> when it panics.
\<close>

section \<open>Descriptors\<close>

record namepart =
  np_id :: nat
  np_name :: string
  np_ext :: bool
  np_span :: source_span

record mfield =
  mf_id :: nat
  mf_name :: string
  mf_ext :: bool
  mf_span :: source_span

datatype optval = OScalar | OList "optval list" | OMessage "(mfield \<times> optval) list"

record uopt =
  uo_name :: "namepart list"
  uo_value :: optval

record ext_range =
  er_start :: int
  er_end :: int
  er_options :: "uopt list"

datatype ftype = TYPE_MESSAGE | TYPE_GROUP | TYPE_ENUM | TYPE_SCALAR string

datatype flabel = LABEL_OPTIONAL | LABEL_REQUIRED | LABEL_REPEATED

datatype field_node = MapFieldNode | NoSourceNode | OtherFieldNode

text \<open>What linking reads of a descriptor proto beside its name and nested elements: the uninterpreted
  options of every element; \<open>map_entry\<close> and the extension ranges of a message; the number, label, type,
  type name, extendee and oneof of a field, its parent and index and its kind of syntax tree node; the
  types of a method; and the spans of the nodes that errors are reported at.\<close>

record linfo =
  options :: "uopt list"
  map_entry :: bool
  extensionRange :: "ext_range list"
  fnumber :: int
  flabel :: "flabel option"
  ftype :: "ftype option"
  ftypeName :: string
  fextendee :: string
  oneofIndex :: "nat option"
  fparent :: full_name
  findex :: nat
  fnode :: field_node
  inputType :: string
  outputType :: string
  extendee_node :: nat
  extendee_span :: source_span
  tag_span :: source_span
  type_span :: source_span
  output_span :: source_span

datatype descriptor = Desc (d_file: string) (d_pkg: full_name) (d_parent: full_name) (d_elem: "linfo elem")
  | Sentinel full_name

fun dFullName :: "descriptor \<Rightarrow> full_name" where
  "dFullName (Desc _ _ _ e) = FullName e"
| "dFullName (Sentinel n) = n"

definition isSentinelDescriptor :: "descriptor \<Rightarrow> bool" where
  "isSentinelDescriptor d = (case d of Sentinel _ \<Rightarrow> True | _ \<Rightarrow> False)"

definition IsExtension :: "linfo leaf \<Rightarrow> bool" where
  "IsExtension l \<longleftrightarrow> fextendee (leaf_data l) \<noteq> []"

definition isType :: "descriptor \<Rightarrow> bool" where
  "isType d = (case d of Desc _ _ _ (EMessage _) \<Rightarrow> True | Desc _ _ _ (EEnum _) \<Rightarrow> True | _ \<Rightarrow> False)"

definition isAggregateDescriptor :: "descriptor \<Rightarrow> bool" where
  "isAggregateDescriptor d =
     (isSentinelDescriptor d \<or>
      (case d of
         Desc _ _ _ (EMessage _) \<Rightarrow> True | Desc _ _ _ (EEnum _) \<Rightarrow> True | Desc _ _ _ (EService _) \<Rightarrow> True
       | _ \<Rightarrow> False))"

text \<open>\<open>descriptorTypeWithArticle\<close>; its callers have handled sentinels before.\<close>

definition descriptorTypeWithArticle :: "descriptor \<Rightarrow> string" where
  "descriptorTypeWithArticle d =
     (case d of
        Desc _ _ _ (EMessage _) \<Rightarrow> ''a message''
      | Desc _ _ _ (EField l) \<Rightarrow> if IsExtension l then ''an extension'' else ''a field''
      | Desc _ _ _ (EExtension l) \<Rightarrow> if IsExtension l then ''an extension'' else ''a field''
      | Desc _ _ _ (EOneof _) \<Rightarrow> ''a oneof''
      | Desc _ _ _ (EEnum _) \<Rightarrow> ''an enum''
      | Desc _ _ _ (EValue _) \<Rightarrow> ''an enum value''
      | Desc _ _ _ (EService _) \<Rightarrow> ''a service''
      | Desc _ _ _ (EMethod _) \<Rightarrow> ''a method''
      | Sentinel _ \<Rightarrow> ''a *linker.sentinelDescriptor'')"

section \<open>Files\<close>

datatype lfile = LFile (lf_path: string) (lf_package: full_name) (lf_result: bool)
  (lf_file: "linfo filep") (lf_descs: "full_name \<rightharpoonup> descriptor") (lf_imports: "(string \<times> bool) list")
  (lf_deps: "lfile list")

definition FindFileByPath :: "lfile list \<Rightarrow> string \<Rightarrow> lfile option" where
  "FindFileByPath fs path = find (\<lambda>f. lf_path f = path) fs"

definition FindImportByPath :: "lfile \<Rightarrow> string \<Rightarrow> lfile option" where
  "FindImportByPath f path = FindFileByPath (lf_deps f) path"

text \<open>The file of a \<open>result\<close> is looked up without the leading dot of the name.\<close>

definition trim_dot :: "full_name \<Rightarrow> full_name" where
  "trim_dot n = (case n of c # cs \<Rightarrow> if c = CHR ''.'' then cs else n | [] \<Rightarrow> [])"

definition FindDescriptorByName :: "lfile \<Rightarrow> full_name \<Rightarrow> descriptor option" where
  "FindDescriptorByName f name = lf_descs f (if lf_result f then trim_dot name else name)"

lemma FindImportByPath_in: "FindImportByPath f p = Some g \<Longrightarrow> g \<in> set (lf_deps f) \<and> lf_path g = p"
  by (auto simp: FindImportByPath_def FindFileByPath_def find_Some_iff)

lemma size_dep: "g \<in> set (lf_deps f) \<Longrightarrow> size g < size f"
  by (cases f) (auto dest!: size_list_estimation' [of g _ _ size, OF _ order_refl])

lemma FindImportByPath_size [simp]: "FindImportByPath f p = Some g \<Longrightarrow> size g < size f"
  using FindImportByPath_in size_dep by blast

section \<open>Searching a file and what it imports\<close>

datatype rerr = NotFound | OtherError string

type_synonym usedImports = "string \<Rightarrow> string set"

definition markUsed :: "string \<Rightarrow> string \<Rightarrow> usedImports \<Rightarrow> usedImports" where
  "markUsed file importPath used = used(file := insert importPath (used file))"

function resolveInFile ::
  "lfile \<Rightarrow> bool \<Rightarrow> string list \<Rightarrow> (lfile \<Rightarrow> rerr + 'a) \<Rightarrow> usedImports \<Rightarrow> ((rerr + 'a) \<times> usedImports) option"
and resolve_imports ::
  "lfile \<Rightarrow> (string \<times> bool) list \<Rightarrow> bool \<Rightarrow> string list \<Rightarrow> (lfile \<Rightarrow> rerr + 'a) \<Rightarrow> usedImports \<Rightarrow>
   ((rerr + 'a) \<times> usedImports) option" where
  "resolveInFile f publicImportsOnly checked fn used =
     (if lf_path f \<in> set checked then Some (Inl NotFound, used)
      else case fn f of
             Inr res \<Rightarrow> Some (Inr res, used)
           | Inl (OtherError m) \<Rightarrow> Some (Inl (OtherError m), used)
           | Inl NotFound \<Rightarrow>
               resolve_imports f (lf_imports f) publicImportsOnly (checked @ [lf_path f]) fn used)"
| "resolve_imports f [] publicImportsOnly checked fn used = Some (Inl NotFound, used)"
| "resolve_imports f (imp # imps) publicImportsOnly checked fn used =
     (if publicImportsOnly \<and> \<not> snd imp then resolve_imports f imps publicImportsOnly checked fn used
      else case FindImportByPath f (fst imp) of
             None \<Rightarrow> None
           | Some g \<Rightarrow>
               case resolveInFile g True checked fn used of
                 None \<Rightarrow> None
               | Some (Inl NotFound, used) \<Rightarrow> resolve_imports f imps publicImportsOnly checked fn used
               | Some (Inl (OtherError m), used) \<Rightarrow> Some (Inl (OtherError m), used)
               | Some (Inr res, used) \<Rightarrow>
                   Some (Inr res, if \<not> snd imp \<and> lf_result f then markUsed (lf_path f) (fst imp) used else used))"
  by pat_completeness auto
termination
  by (relation "inv_image (less_than <*lex*> less_than)
       (case_sum (\<lambda>(f, _). (size f, Suc (length (lf_imports f)))) (\<lambda>(f, imps, _). (size f, length imps)))")
     auto

declare resolveInFile.simps [simp del] resolve_imports.simps [simp del]

text \<open>The queries of \<open>fileResolver\<close> (\<open>ResolverFromFile\<close>) and of \<open>filesResolver\<close> (\<open>Files.AsResolver\<close>).
  A \<open>MessageType\<close> or \<open>ExtensionType\<close> made by \<open>dynamicpb\<close> is represented by its descriptor.\<close>

definition fileResolver_FindFileByPath :: "lfile \<Rightarrow> string \<Rightarrow> usedImports \<Rightarrow> ((rerr + lfile) \<times> usedImports) option" where
  "fileResolver_FindFileByPath r path =
     resolveInFile r False [] (\<lambda>f. if lf_path f = path then Inr f else Inl NotFound)"

definition fileResolver_FindDescriptorByName ::
  "lfile \<Rightarrow> full_name \<Rightarrow> usedImports \<Rightarrow> ((rerr + descriptor) \<times> usedImports) option" where
  "fileResolver_FindDescriptorByName r name =
     resolveInFile r False [] (\<lambda>f. case FindDescriptorByName f name of Some d \<Rightarrow> Inr d | None \<Rightarrow> Inl NotFound)"

definition fileResolver_FindMessageByName ::
  "lfile \<Rightarrow> full_name \<Rightarrow> usedImports \<Rightarrow> ((rerr + descriptor) \<times> usedImports) option" where
  "fileResolver_FindMessageByName r message =
     resolveInFile r False [] (\<lambda>f.
       case FindDescriptorByName f message of
         Some d \<Rightarrow> (case d of
             Desc _ _ _ (EMessage _) \<Rightarrow> Inr d
           | _ \<Rightarrow> Inl (OtherError (quoted message @ '' is '' @ descriptorTypeWithArticle d @ '', not a message'')))
       | None \<Rightarrow> Inl NotFound)"

definition messageNameFromURL :: "string \<Rightarrow> string" where
  "messageNameFromURL url = rev (takeWhile (\<lambda>c. c \<noteq> CHR ''/'') (rev url))"

definition fileResolver_FindMessageByURL ::
  "lfile \<Rightarrow> string \<Rightarrow> usedImports \<Rightarrow> ((rerr + descriptor) \<times> usedImports) option" where
  "fileResolver_FindMessageByURL r url = fileResolver_FindMessageByName r (messageNameFromURL url)"

definition as_extension :: "descriptor \<Rightarrow> bool" where
  "as_extension d = (case d of Desc _ _ _ (EField l) \<Rightarrow> IsExtension l | Desc _ _ _ (EExtension l) \<Rightarrow> IsExtension l | _ \<Rightarrow> False)"

definition fileResolver_FindExtensionByName ::
  "lfile \<Rightarrow> full_name \<Rightarrow> usedImports \<Rightarrow> ((rerr + descriptor) \<times> usedImports) option" where
  "fileResolver_FindExtensionByName r field =
     resolveInFile r False [] (\<lambda>f.
       case FindDescriptorByName f field of
         Some d \<Rightarrow> if as_extension d then Inr d
             else Inl (OtherError (quoted field @ '' is '' @ descriptorTypeWithArticle d @ '', not an extension''))
       | None \<Rightarrow> Inl NotFound)"

text \<open>\<open>findExtension\<close>: the extensions of the container, then those nested in its messages. The
  containing message of an extension is given by \<open>containing\<close>, as linking resolved it.\<close>

definition isExtensionMatch :: "(full_name \<Rightarrow> full_name) \<Rightarrow> full_name \<Rightarrow> int \<Rightarrow> linfo leaf \<Rightarrow> bool" where
  "isExtensionMatch containing message field l \<longleftrightarrow>
     fnumber (leaf_data l) = field \<and> containing (leaf_name l) = message"

fun findExtension_msg :: "(full_name \<Rightarrow> full_name) \<Rightarrow> full_name \<Rightarrow> int \<Rightarrow> linfo msgp \<Rightarrow> linfo leaf option"
and findExtension_msgs :: "(full_name \<Rightarrow> full_name) \<Rightarrow> full_name \<Rightarrow> int \<Rightarrow> linfo msgp list \<Rightarrow> linfo leaf option" where
  "findExtension_msg containing message field (MsgP n d flds oneofs nested enums extns) =
     (case find (isExtensionMatch containing message field) extns of
        Some l \<Rightarrow> Some l
      | None \<Rightarrow> findExtension_msgs containing message field nested)"
| "findExtension_msgs containing message field [] = None"
| "findExtension_msgs containing message field (m # ms) =
     (case findExtension_msg containing message field m of
        Some l \<Rightarrow> Some l
      | None \<Rightarrow> findExtension_msgs containing message field ms)"

definition findExtension :: "(full_name \<Rightarrow> full_name) \<Rightarrow> lfile \<Rightarrow> full_name \<Rightarrow> int \<Rightarrow> linfo leaf option" where
  "findExtension containing f message field =
     (case find (isExtensionMatch containing message field) (fexts (lf_file f)) of
        Some l \<Rightarrow> Some l
      | None \<Rightarrow> findExtension_msgs containing message field (fmessages (lf_file f)))"

definition fileResolver_FindExtensionByNumber ::
  "(full_name \<Rightarrow> full_name) \<Rightarrow> lfile \<Rightarrow> full_name \<Rightarrow> int \<Rightarrow> usedImports \<Rightarrow> ((rerr + linfo leaf) \<times> usedImports) option" where
  "fileResolver_FindExtensionByNumber containing r message field =
     resolveInFile r False [] (\<lambda>f. case findExtension containing f message field of Some x \<Rightarrow> Inr x | None \<Rightarrow> Inl NotFound)"

primrec filesResolver_FindDescriptorByName :: "lfile list \<Rightarrow> full_name \<Rightarrow> rerr + descriptor" where
  "filesResolver_FindDescriptorByName [] name = Inl NotFound"
| "filesResolver_FindDescriptorByName (f # fs) name =
     (case FindDescriptorByName f name of Some d \<Rightarrow> Inr d | None \<Rightarrow> filesResolver_FindDescriptorByName fs name)"

definition filesResolver_FindFileByPath :: "lfile list \<Rightarrow> string \<Rightarrow> rerr + lfile" where
  "filesResolver_FindFileByPath fs path = (case FindFileByPath fs path of Some f \<Rightarrow> Inr f | None \<Rightarrow> Inl NotFound)"

primrec filesResolver_FindMessageByName :: "lfile list \<Rightarrow> full_name \<Rightarrow> rerr + descriptor" where
  "filesResolver_FindMessageByName [] message = Inl NotFound"
| "filesResolver_FindMessageByName (f # fs) message =
     (case FindDescriptorByName f message of
        Some d \<Rightarrow> (case d of Desc _ _ _ (EMessage _) \<Rightarrow> Inr d | _ \<Rightarrow> Inl NotFound)
      | None \<Rightarrow> filesResolver_FindMessageByName fs message)"

definition filesResolver_FindMessageByURL :: "lfile list \<Rightarrow> string \<Rightarrow> rerr + descriptor" where
  "filesResolver_FindMessageByURL fs url = filesResolver_FindMessageByName fs (messageNameFromURL url)"

primrec filesResolver_FindExtensionByName :: "lfile list \<Rightarrow> full_name \<Rightarrow> rerr + descriptor" where
  "filesResolver_FindExtensionByName [] field = Inl NotFound"
| "filesResolver_FindExtensionByName (f # fs) field =
     (case FindDescriptorByName f field of
        Some d \<Rightarrow> (case d of
            Desc _ _ _ (EExtension _) \<Rightarrow> Inr d
          | Desc _ _ _ (EField l) \<Rightarrow> if IsExtension l then Inr d else Inl NotFound
          | _ \<Rightarrow> Inl NotFound)
      | None \<Rightarrow> filesResolver_FindExtensionByName fs field)"

primrec filesResolver_FindExtensionByNumber ::
  "(full_name \<Rightarrow> full_name) \<Rightarrow> lfile list \<Rightarrow> full_name \<Rightarrow> int \<Rightarrow> rerr + linfo leaf" where
  "filesResolver_FindExtensionByNumber containing [] message field = Inl NotFound"
| "filesResolver_FindExtensionByNumber containing (f # fs) message field =
     (case findExtension containing f message field of
        Some x \<Rightarrow> Inr x
      | None \<Rightarrow> filesResolver_FindExtensionByNumber containing fs message field)"

section \<open>Elements and namespaces\<close>

definition matchesPkgNamespace :: "full_name \<Rightarrow> full_name \<Rightarrow> bool" where
  "matchesPkgNamespace fqn pkg =
     (if pkg = [] then False
      else if fqn = pkg then True
      else length fqn < length pkg \<and> HasPrefix pkg fqn \<and> pkg ! length fqn = CHR ''.'')"

definition resolveElementInFile :: "full_name \<Rightarrow> lfile \<Rightarrow> descriptor option" where
  "resolveElementInFile name f =
     (case FindDescriptorByName f name of
        Some d \<Rightarrow> Some d
      | None \<Rightarrow> if matchesPkgNamespace name (lf_package f) then Some (Sentinel name) else None)"

type_synonym query = "usedImports \<Rightarrow> (descriptor option \<times> usedImports) option"

definition resolveElement :: "lfile \<Rightarrow> full_name \<Rightarrow> query" where
  "resolveElement r name used =
     (case resolveInFile r False []
         (\<lambda>f. case resolveElementInFile (trim_dot name) f of Some d \<Rightarrow> Inr d | None \<Rightarrow> Inl NotFound) used of
        None \<Rightarrow> None
      | Some (Inr d, used) \<Rightarrow> Some (Some d, used)
      | Some (Inl _, used) \<Rightarrow> Some (None, used))"

definition resolveElementRelative :: "full_name \<Rightarrow> full_name \<Rightarrow> (full_name \<Rightarrow> query) \<Rightarrow> query" where
  "resolveElementRelative firstName fullName query used =
     (case query firstName used of
        None \<Rightarrow> None
      | Some (None, used) \<Rightarrow> Some (None, used)
      | Some (Some d, used) \<Rightarrow>
          if firstName = fullName then Some (Some d, used)
          else if \<not> isAggregateDescriptor d then Some (None, used)
          else case query fullName used of
                 None \<Rightarrow> None
               | Some (None, used) \<Rightarrow> Some (Some (Sentinel fullName), used)
               | Some (Some d, used) \<Rightarrow> Some (Some d, used))"

section \<open>Scopes\<close>

text \<open>A scope is the closure made by \<open>fileScope\<close> or by \<open>messageScope\<close> (also for services).\<close>

datatype scope = FileScope | MessageScope full_name

primrec file_scope_loop :: "lfile \<Rightarrow> string \<Rightarrow> string \<Rightarrow> string list \<Rightarrow> query" where
  "file_scope_loop r firstName fullName [] used = Some (None, used)"
| "file_scope_loop r firstName fullName (prefix # prefixes) used =
     (let (n1, n) = (if prefix = [] then (fullName, fullName)
                     else (prefix @ ''.'' @ firstName, prefix @ ''.'' @ fullName))
      in case resolveElementRelative n1 n (resolveElement r) used of
           None \<Rightarrow> None
         | Some (Some d, used) \<Rightarrow> Some (Some d, used)
         | Some (None, used) \<Rightarrow> file_scope_loop r firstName fullName prefixes used)"

definition fileScope :: "lfile \<Rightarrow> string \<Rightarrow> string \<Rightarrow> query" where
  "fileScope r firstName fullName = file_scope_loop r firstName fullName (CreatePrefixList (lf_package r))"

definition messageScope :: "lfile \<Rightarrow> full_name \<Rightarrow> string \<Rightarrow> string \<Rightarrow> query" where
  "messageScope r messageName firstName fullName =
     resolveElementRelative (messageName @ ''.'' @ firstName) (messageName @ ''.'' @ fullName)
       (\<lambda>n used. Some (resolveElementInFile n r, used))"

fun apply_scope :: "lfile \<Rightarrow> scope \<Rightarrow> string \<Rightarrow> string \<Rightarrow> query" where
  "apply_scope r FileScope = fileScope r"
| "apply_scope r (MessageScope m) = messageScope r m"

text \<open>The loop of \<open>resolve\<close>, over the scopes from the innermost outwards.\<close>

primrec resolve_loop :: "lfile \<Rightarrow> string \<Rightarrow> string \<Rightarrow> bool \<Rightarrow> scope list \<Rightarrow> descriptor option \<Rightarrow> query" where
  "resolve_loop r firstName name onlyTypes [] bestGuess used = Some (bestGuess, used)"
| "resolve_loop r firstName name onlyTypes (sc # scs) bestGuess used =
     (case apply_scope r sc firstName name used of
        None \<Rightarrow> None
      | Some (None, used) \<Rightarrow> resolve_loop r firstName name onlyTypes scs bestGuess used
      | Some (Some d, used) \<Rightarrow>
          if \<not> onlyTypes \<or> isType d \<or> firstName \<noteq> name then Some (Some d, used)
          else resolve_loop r firstName name onlyTypes scs
                 (case bestGuess of None \<Rightarrow> Some d | Some g \<Rightarrow> Some g) used)"

definition first_name :: "string \<Rightarrow> string" where
  "first_name name = (let pos = IndexByte name (CHR ''.'') in if pos > 0 then take (nat pos) name else name)"

definition resolve :: "lfile \<Rightarrow> string \<Rightarrow> bool \<Rightarrow> scope list \<Rightarrow> query" where
  "resolve r name onlyTypes scopes =
     (if HasPrefix name ''.'' then resolveElement r (drop 1 name)
      else resolve_loop r (first_name name) name onlyTypes (rev scopes) None)"

section \<open>Specification of the search\<close>

text \<open>The files that a search visits, in order: the file itself and, for each of its imports (only the
  public ones when it was imported itself), the files that the import makes visible.\<close>

function search_order :: "bool \<Rightarrow> lfile \<Rightarrow> lfile list" where
  "search_order publicOnly f =
     f # concat (map (\<lambda>imp. if publicOnly \<and> \<not> snd imp then []
                            else case FindImportByPath f (fst imp) of None \<Rightarrow> [] | Some g \<Rightarrow> search_order True g)
                  (lf_imports f))"
  by pat_completeness auto
termination
  by (relation "measure (\<lambda>(_, f). size f)") auto

declare search_order.simps [simp del]

abbreviation visible_files :: "lfile \<Rightarrow> lfile list" where
  "visible_files \<equiv> search_order False"

primrec first_hit :: "(lfile \<Rightarrow> rerr + 'a) \<Rightarrow> lfile list \<Rightarrow> rerr + 'a" where
  "first_hit fn [] = Inl NotFound"
| "first_hit fn (f # fs) = (case fn f of Inl NotFound \<Rightarrow> first_hit fn fs | res \<Rightarrow> res)"

lemma first_hit_append:
  "first_hit fn (fs @ gs) = (case first_hit fn fs of Inl NotFound \<Rightarrow> first_hit fn gs | res \<Rightarrow> res)"
  by (induction fs) (auto split: sum.splits rerr.splits)

lemma first_hit_NotFound: "first_hit fn fs = Inl NotFound \<longleftrightarrow> (\<forall>f \<in> set fs. fn f = Inl NotFound)"
  by (induction fs) (auto split: sum.splits rerr.splits)

lemma first_hit_Inr: "first_hit fn fs = Inr x \<Longrightarrow> \<exists>f \<in> set fs. fn f = Inr x"
  by (induction fs) (auto split: sum.splits rerr.splits)

text \<open>A file and all files it was built from; its imports are all found there, and a path names one
  file only.\<close>

primrec lf_tree :: "lfile \<Rightarrow> lfile set" where
  "lf_tree (LFile path pkg res hier descs imps deps) =
     insert (LFile path pkg res hier descs imps deps) (\<Union> (set (map lf_tree deps)))"

lemma lf_tree_self: "f \<in> lf_tree f"
  by (cases f) simp

lemma lf_tree_dep: "g \<in> set (lf_deps f) \<Longrightarrow> lf_tree g \<subseteq> lf_tree f"
  by (cases f) auto

lemma lf_tree_size: "g \<in> lf_tree f \<Longrightarrow> g = f \<or> size g < size f"
proof (induction f)
  case (LFile path pkg res hier descs imps deps)
  let ?f = "LFile path pkg res hier descs imps deps"
  show ?case
  proof (cases "g = ?f")
    case False
    with LFile.prems obtain d where d: "d \<in> set deps" "g \<in> lf_tree d" by auto
    with size_dep [of d ?f] LFile.IH [OF d] show ?thesis by auto
  qed simp
qed

definition imports_found :: "lfile \<Rightarrow> bool" where
  "imports_found f \<longleftrightarrow> (\<forall>g \<in> lf_tree f. \<forall>imp \<in> set (lf_imports g). FindImportByPath g (fst imp) \<noteq> None)"

definition paths_unique :: "lfile \<Rightarrow> bool" where
  "paths_unique f \<longleftrightarrow> inj_on lf_path (lf_tree f)"

lemma imports_found_dep: "imports_found f \<Longrightarrow> g \<in> set (lf_deps f) \<Longrightarrow> imports_found g"
  using lf_tree_dep unfolding imports_found_def by blast

lemma paths_unique_dep: "paths_unique f \<Longrightarrow> g \<in> set (lf_deps f) \<Longrightarrow> paths_unique g"
  using lf_tree_dep unfolding paths_unique_def by (blast intro: inj_on_subset)

lemma path_below:
  assumes "paths_unique f" "g \<in> set (lf_deps f)" "k \<in> lf_tree g"
  shows "lf_path k \<noteq> lf_path f"
proof
  assume eq: "lf_path k = lf_path f"
  have "k \<in> lf_tree f" using assms(2,3) lf_tree_dep by blast
  with eq assms(1) have "k = f" unfolding paths_unique_def by (auto dest: inj_onD intro: lf_tree_self)
  with lf_tree_size [OF assms(3)] size_dep [OF assms(2)] show False by auto
qed

abbreviation imports_order :: "bool \<Rightarrow> lfile \<Rightarrow> (string \<times> bool) list \<Rightarrow> lfile list" where
  "imports_order publicOnly f imps \<equiv>
     concat (map (\<lambda>imp. if publicOnly \<and> \<not> snd imp then []
                        else case FindImportByPath f (fst imp) of None \<Rightarrow> [] | Some g \<Rightarrow> search_order True g) imps)"

text \<open>Which import a hit came through is recorded when the import is not public and the file is a
  \<open>result\<close>.\<close>

primrec used_after :: "(lfile \<Rightarrow> rerr + 'a) \<Rightarrow> lfile \<Rightarrow> bool \<Rightarrow> (string \<times> bool) list \<Rightarrow> usedImports \<Rightarrow> usedImports" where
  "used_after fn f publicOnly [] used = used"
| "used_after fn f publicOnly (imp # imps) used =
     (case first_hit fn (imports_order publicOnly f [imp]) of
        Inl NotFound \<Rightarrow> used_after fn f publicOnly imps used
      | Inl (OtherError m) \<Rightarrow> used
      | Inr _ \<Rightarrow> if \<not> snd imp \<and> lf_result f then markUsed (lf_path f) (fst imp) used else used)"

lemma used_after_public: "used_after fn f True imps used = used"
  by (induction imps) (auto simp: split: sum.splits rerr.splits)

definition search_used :: "(lfile \<Rightarrow> rerr + 'a) \<Rightarrow> lfile \<Rightarrow> bool \<Rightarrow> usedImports \<Rightarrow> usedImports" where
  "search_used fn f publicOnly used =
     (case fn f of Inl NotFound \<Rightarrow> used_after fn f publicOnly (lf_imports f) used | _ \<Rightarrow> used)"

lemma search_used_public [simp]: "search_used fn f True used = used"
  by (auto simp: search_used_def used_after_public split: sum.splits rerr.splits)

lemma first_hit_search_order:
  "first_hit fn (search_order pub f) =
     (case fn f of Inl NotFound \<Rightarrow> first_hit fn (imports_order pub f (lf_imports f)) | res \<Rightarrow> res)"
  by (subst search_order.simps) simp

lemma search_correct:
  shows "imports_found f \<Longrightarrow> paths_unique f \<Longrightarrow> lf_path ` lf_tree f \<inter> set checked = {} \<Longrightarrow>
      resolveInFile f pub checked fn used = Some (first_hit fn (search_order pub f), search_used fn f pub used)"
    and "imports_found f \<Longrightarrow> paths_unique f \<Longrightarrow> set imps \<subseteq> set (lf_imports f) \<Longrightarrow>
      (\<forall>g \<in> set (lf_deps f). lf_path ` lf_tree g \<inter> set checked = {}) \<Longrightarrow>
      resolve_imports f imps pub checked fn used =
        Some (first_hit fn (imports_order pub f imps), used_after fn f pub imps used)"
proof (induction f pub checked fn used and f imps pub checked fn used rule: resolveInFile_resolve_imports.induct)
  case (1 f pub checked fn used)
  have nc: "lf_path f \<notin> set checked" using 1(4) lf_tree_self [of f] by blast
  have below: "\<forall>g \<in> set (lf_deps f). lf_path ` lf_tree g \<inter> set (checked @ [lf_path f]) = {}"
    using path_below [OF 1(3)] lf_tree_dep 1(4) by fastforce
  show ?case
  proof (cases "fn f = Inl NotFound")
    case True
    then show ?thesis
      using 1(1) [OF nc True refl 1(2,3) _ below] nc
      by (subst resolveInFile.simps) (simp add: first_hit_search_order search_used_def)
  next
    case False
    then show ?thesis using nc
      by (subst resolveInFile.simps)
         (auto simp: first_hit_search_order search_used_def split: sum.splits rerr.splits)
  qed
next
  case (3 f imp imps pub checked fn used)
  show ?case
  proof (cases "pub \<and> \<not> snd imp")
    case True
    with 3(1) [OF True 3(4,5) _ 3(7)] 3(6) show ?thesis by (subst resolve_imports.simps) simp
  next
    case False
    obtain g where g: "FindImportByPath f (fst imp) = Some g"
      using 3(4,6) lf_tree_self [of f] by (fastforce simp: imports_found_def)
    note dep = FindImportByPath_in [OF g, THEN conjunct1]
    have sub: "resolveInFile g True checked fn used = Some (first_hit fn (search_order True g), used)"
      using 3(2) [OF False g imports_found_dep [OF 3(4) dep] paths_unique_dep [OF 3(5) dep]] 3(7) dep by simp
    have rest: "resolve_imports f imps pub checked fn used =
        Some (first_hit fn (imports_order pub f imps), used_after fn f pub imps used)"
      if "first_hit fn (search_order True g) = Inl NotFound"
      using 3(3) [OF False g sub [unfolded that] refl refl refl] 3(4,5,6,7) that by simp
    show ?thesis
    proof (cases "first_hit fn (search_order True g)")
      case (Inl e)
      then show ?thesis using False g sub rest
        by (cases e; subst resolve_imports.simps) (auto simp: first_hit_append)
    next
      case (Inr x)
      then show ?thesis using False g sub
        by (subst resolve_imports.simps) (auto simp: first_hit_append)
    qed
  qed
qed (simp add: resolve_imports.simps)

section \<open>Availability\<close>

text \<open>The doc comment of \<open>linker.Result\<close>: an element is available to a file when it is defined in
  it, in a file it imports, or is available to such a file through public imports.\<close>

inductive exports :: "lfile \<Rightarrow> lfile \<Rightarrow> bool" where
  exports_self: "exports f f"
| exports_public: "(p, True) \<in> set (lf_imports f) \<Longrightarrow> FindImportByPath f p = Some g \<Longrightarrow> exports g k \<Longrightarrow> exports f k"

inductive available :: "lfile \<Rightarrow> lfile \<Rightarrow> bool" where
  available_self: "available f f"
| available_import: "(p, b) \<in> set (lf_imports f) \<Longrightarrow> FindImportByPath f p = Some g \<Longrightarrow> exports g k \<Longrightarrow> available f k"

lemma exports_search: "k \<in> set (search_order True f) \<longleftrightarrow> exports f k"
proof
  show "k \<in> set (search_order True f) \<Longrightarrow> exports f k"
  proof (induction f rule: measure_induct_rule [of size])
    case (less f)
    from less.prems show ?case
    proof (subst (asm) search_order.simps, simp only: set_simps, elim insertE)
      assume "k \<in> set (imports_order True f (lf_imports f))"
      then obtain p g where g: "(p, True) \<in> set (lf_imports f)" "FindImportByPath f p = Some g" "k \<in> set (search_order True g)"
        by (force split: option.splits if_splits)
      with less.IH [of g] show ?thesis by (auto intro: exports_public)
    qed (simp add: exports_self)
  qed
next
  assume "exports f k"
  then show "k \<in> set (search_order True f)"
  proof induction
    case (exports_public p f g k)
    then show ?case by (subst search_order.simps) (force split: option.splits)
  qed (subst search_order.simps, simp)
qed

lemma available_search: "k \<in> set (visible_files f) \<longleftrightarrow> available f k"
proof -
  have "k \<in> set (visible_files f) \<longleftrightarrow>
      k = f \<or> (\<exists>p b g. (p, b) \<in> set (lf_imports f) \<and> FindImportByPath f p = Some g \<and> k \<in> set (search_order True g))"
    by (subst search_order.simps) (force split: option.splits)
  then show ?thesis unfolding exports_search available.simps [of f k] by blast
qed

lemma resolve_visible:
  "imports_found f \<Longrightarrow> paths_unique f \<Longrightarrow>
   resolveInFile f False [] fn used = Some (first_hit fn (visible_files f), search_used fn f False used)"
  by (rule search_correct(1)) simp_all

section \<open>Resolution without the bookkeeping\<close>

text \<open>What a query answers, whatever imports were used before.\<close>

definition answers :: "query \<Rightarrow> descriptor option \<Rightarrow> bool" where
  "answers q x \<longleftrightarrow> (\<forall>used. \<exists>used'. q used = Some (x, used'))"

primrec first_some :: "('a \<Rightarrow> 'b option) \<Rightarrow> 'a list \<Rightarrow> 'b option" where
  "first_some f [] = None"
| "first_some f (x # xs) = (case f x of Some y \<Rightarrow> Some y | None \<Rightarrow> first_some f xs)"

lemma first_some_append: "first_some f (xs @ ys) = (case first_some f xs of Some y \<Rightarrow> Some y | None \<Rightarrow> first_some f ys)"
  by (induction xs) (auto split: option.splits)

lemma first_some_None: "first_some f xs = None \<longleftrightarrow> (\<forall>x \<in> set xs. f x = None)"
  by (induction xs) (auto split: option.splits)

lemma first_some_Some: "first_some f xs = Some y \<Longrightarrow> \<exists>x \<in> set xs. f x = Some y"
  by (induction xs) (auto split: option.splits)

lemma first_some_cong: "(\<And>x. x \<in> set xs \<Longrightarrow> f x = g x) \<Longrightarrow> first_some f xs = first_some g xs"
  by (induction xs) (auto split: option.splits)

definition lookup_visible :: "lfile \<Rightarrow> full_name \<Rightarrow> descriptor option" where
  "lookup_visible r n = first_some (resolveElementInFile (trim_dot n)) (visible_files r)"

lemma first_hit_some:
  "first_hit (\<lambda>f. case g f of Some d \<Rightarrow> Inr d | None \<Rightarrow> Inl NotFound) fs =
     (case first_some g fs of Some d \<Rightarrow> Inr d | None \<Rightarrow> Inl NotFound)"
  by (induction fs) (auto split: option.splits)

lemma resolveElement_answers:
  "imports_found r \<Longrightarrow> paths_unique r \<Longrightarrow> answers (resolveElement r n) (lookup_visible r n)"
  by (simp add: answers_def resolveElement_def resolve_visible first_hit_some lookup_visible_def split: option.split)

definition relative :: "full_name \<Rightarrow> full_name \<Rightarrow> (full_name \<Rightarrow> descriptor option) \<Rightarrow> descriptor option" where
  "relative n1 n L =
     (case L n1 of
        None \<Rightarrow> None
      | Some d \<Rightarrow>
          if n1 = n then Some d
          else if \<not> isAggregateDescriptor d then None
          else case L n of None \<Rightarrow> Some (Sentinel n) | Some d \<Rightarrow> Some d)"

lemma answersE:
  assumes "answers q x"
  obtains used' where "q used = Some (x, used')"
  using assms by (auto simp: answers_def)

lemma relative_answers:
  assumes "answers (q n1) (L n1)" "answers (q n) (L n)"
  shows "answers (resolveElementRelative n1 n q) (relative n1 n L)"
  unfolding answers_def
proof
  fix used
  obtain u1 where 1: "q n1 used = Some (L n1, u1)" by (rule answersE [OF assms(1)])
  obtain u2 where 2: "q n u1 = Some (L n, u2)" by (rule answersE [OF assms(2)])
  from 1 2 show "\<exists>used'. resolveElementRelative n1 n q used = Some (relative n1 n L, used')"
    by (auto simp: resolveElementRelative_def relative_def split: option.splits)
qed

text \<open>A name below a scope, which is a package or a message; the outermost scope is the empty name.\<close>

definition below_scope :: "full_name \<Rightarrow> string \<Rightarrow> full_name" where
  "below_scope p x = (if p = [] then x else p @ ''.'' @ x)"

definition in_scope :: "(full_name \<Rightarrow> descriptor option) \<Rightarrow> string \<Rightarrow> full_name \<Rightarrow> descriptor option" where
  "in_scope L name p =
     relative (if p = [] then name else below_scope p (first_name name)) (below_scope p name) L"

lemma fileScope_answers:
  assumes "imports_found r" "paths_unique r"
  shows "answers (fileScope r (first_name name) name)
    (first_some (in_scope (lookup_visible r) name) (CreatePrefixList (lf_package r)))"
proof -
  have "answers (file_scope_loop r (first_name name) name ps) (first_some (in_scope (lookup_visible r) name) ps)" for ps
  proof (induction ps)
    case (Cons p ps)
    show ?case
      unfolding answers_def
    proof
      fix used
      let ?n1 = "if p = [] then name else below_scope p (first_name name)" and ?n = "below_scope p name"
      have "answers (resolveElementRelative ?n1 ?n (resolveElement r)) (in_scope (lookup_visible r) name p)"
        unfolding in_scope_def by (intro relative_answers resolveElement_answers assms)
      then obtain u1 where 1: "resolveElementRelative ?n1 ?n (resolveElement r) used = Some (in_scope (lookup_visible r) name p, u1)"
        by (rule answersE)
      obtain u2 where 2: "file_scope_loop r (first_name name) name ps u1 =
          Some (first_some (in_scope (lookup_visible r) name) ps, u2)"
        by (rule answersE [OF Cons])
      from 1 2 show "\<exists>used'. file_scope_loop r (first_name name) name (p # ps) used =
          Some (first_some (in_scope (lookup_visible r) name) (p # ps), used')"
        by (auto simp: below_scope_def split: option.split if_splits)
    qed
  qed (simp add: answers_def)
  then show ?thesis by (simp add: fileScope_def)
qed

fun scope_answer :: "lfile \<Rightarrow> string \<Rightarrow> scope \<Rightarrow> descriptor option" where
  "scope_answer r name FileScope = first_some (in_scope (lookup_visible r) name) (CreatePrefixList (lf_package r))"
| "scope_answer r name (MessageScope m) =
     relative (m @ ''.'' @ first_name name) (m @ ''.'' @ name) (\<lambda>n. resolveElementInFile n r)"

lemma scope_answers:
  "imports_found r \<Longrightarrow> paths_unique r \<Longrightarrow> answers (apply_scope r sc (first_name name) name) (scope_answer r name sc)"
  by (cases sc) (auto simp: fileScope_answers messageScope_def answers_def [where q = "\<lambda>used. Some (_, used)"]
      intro!: relative_answers)

text \<open>\<open>accept\<close>: the match ends the search; otherwise it is only kept for the error message.\<close>

definition accept :: "bool \<Rightarrow> string \<Rightarrow> descriptor \<Rightarrow> bool" where
  "accept onlyTypes name d \<longleftrightarrow> \<not> onlyTypes \<or> isType d \<or> first_name name \<noteq> name"

definition resolution :: "lfile \<Rightarrow> string \<Rightarrow> bool \<Rightarrow> scope list \<Rightarrow> descriptor option" where
  "resolution r name onlyTypes scopes =
     (if HasPrefix name ''.'' then lookup_visible r (drop 1 name)
      else let ds = List.map_filter (scope_answer r name) (rev scopes)
           in case find (accept onlyTypes name) ds of
                Some d \<Rightarrow> Some d
              | None \<Rightarrow> (case ds of d # _ \<Rightarrow> Some d | [] \<Rightarrow> None))"

lemma resolve_loop_answers:
  assumes "imports_found r" "paths_unique r"
  shows "answers (resolve_loop r (first_name name) name onlyTypes scs guess)
    (let ds = List.map_filter (scope_answer r name) scs
     in case find (accept onlyTypes name) ds of
          Some d \<Rightarrow> Some d
        | None \<Rightarrow> (case guess of Some g \<Rightarrow> Some g | None \<Rightarrow> (case ds of d # _ \<Rightarrow> Some d | [] \<Rightarrow> None)))"
proof (induction scs arbitrary: guess)
  case Nil
  then show ?case by (simp add: answers_def List.map_filter_def split: option.splits)
next
  case (Cons sc scs)
  show ?case
    unfolding answers_def
  proof
    fix used
    obtain u1 where 1: "apply_scope r sc (first_name name) name used = Some (scope_answer r name sc, u1)"
      by (rule answersE [OF scope_answers [OF assms]])
    show "\<exists>used'. resolve_loop r (first_name name) name onlyTypes (sc # scs) guess used =
        Some (let ds = List.map_filter (scope_answer r name) (sc # scs)
              in case find (accept onlyTypes name) ds of
                   Some d \<Rightarrow> Some d
                 | None \<Rightarrow> (case guess of Some g \<Rightarrow> Some g | None \<Rightarrow> (case ds of d # _ \<Rightarrow> Some d | [] \<Rightarrow> None)), used')"
    proof (cases "scope_answer r name sc")
      case None
      obtain u2 where "resolve_loop r (first_name name) name onlyTypes scs guess u1 = Some (let ds = List.map_filter (scope_answer r name) scs
     in case find (accept onlyTypes name) ds of
          Some d \<Rightarrow> Some d
        | None \<Rightarrow> (case guess of Some g \<Rightarrow> Some g | None \<Rightarrow> (case ds of d # _ \<Rightarrow> Some d | [] \<Rightarrow> None)), u2)"
        by (rule answersE [OF Cons])
      with 1 None show ?thesis by (simp add: List.map_filter_def)
    next
      case (Some d)
      let ?g = "case guess of None \<Rightarrow> Some d | Some g \<Rightarrow> Some g"
      obtain u2 where "resolve_loop r (first_name name) name onlyTypes scs ?g u1 = Some (let ds = List.map_filter (scope_answer r name) scs
     in case find (accept onlyTypes name) ds of
          Some d \<Rightarrow> Some d
        | None \<Rightarrow> (case ?g of Some g \<Rightarrow> Some g | None \<Rightarrow> (case ds of d # _ \<Rightarrow> Some d | [] \<Rightarrow> None)), u2)"
        by (rule answersE [OF Cons])
      with 1 Some show ?thesis
        by (auto simp: List.map_filter_def accept_def Let_def split: option.splits list.splits)
    qed
  qed
qed

lemma resolve_answers:
  "imports_found r \<Longrightarrow> paths_unique r \<Longrightarrow>
   answers (resolve r name onlyTypes scopes) (resolution r name onlyTypes scopes)"
  using resolve_loop_answers [of r name onlyTypes "rev scopes" None]
  by (simp add: resolve_def resolution_def resolveElement_answers Let_def cong: option.case_cong)

section \<open>Dotted names\<close>

definition absolute :: "full_name \<Rightarrow> bool" where
  "absolute n \<longleftrightarrow> HasPrefix n ''.''"

lemma absolute_Cons: "absolute (c # cs) \<longleftrightarrow> c = CHR ''.''" and not_absolute_Nil: "\<not> absolute []"
  by (auto simp: absolute_def HasPrefix_def)

lemma trim_dot_id: "\<not> absolute n \<Longrightarrow> trim_dot n = n"
  by (cases n) (auto simp: trim_dot_def absolute_Cons)

lemma absolute_append: "m \<noteq> [] \<Longrightarrow> absolute (m @ x) \<longleftrightarrow> absolute m"
  by (cases m) (auto simp: absolute_Cons)

lemma trim_dot_prefix [simp]: "m \<noteq> [] \<Longrightarrow> \<not> absolute m \<Longrightarrow> trim_dot (m @ x) = m @ x"
  by (simp add: trim_dot_id absolute_append)

lemma dots_snoc:
  assumes "CHR ''.'' \<notin> set s"
  shows "dots (p @ ''.'' @ s) = dots p @ [length p]"
proof -
  have "filter (\<lambda>i. (p @ ''.'' @ s) ! i = CHR ''.'') [length p..<length p + Suc (length s)] = [length p]"
  proof -
    have "filter (\<lambda>i. (p @ ''.'' @ s) ! i = CHR ''.'') [Suc (length p)..<Suc (length p + length s)] = []"
      using assms by (auto simp: filter_empty_conv nth_append nth_Cons in_set_conv_nth split: nat.splits)
    moreover have "[length p..<length p + Suc (length s)] = length p # [Suc (length p)..<Suc (length p + length s)]"
      by (subst upt_conv_Cons) simp_all
    ultimately show ?thesis by (simp add: nth_append del: upt_Suc)
  qed
  moreover have "filter (\<lambda>i. (p @ ''.'' @ s) ! i = CHR ''.'') [0..<length p] = dots p"
    by (auto simp: dots_def nth_append intro!: filter_cong)
  moreover have "[0..<length (p @ ''.'' @ s)] = [0..<length p] @ [length p..<length p + Suc (length s)]"
    using upt_add_eq_append [of 0 "length p" "Suc (length s)"] by simp
  ultimately show ?thesis by (simp only: dots_def [of "p @ ''.'' @ s"] filter_append)
qed

lemma CreatePrefixList_below:
  assumes "CHR ''.'' \<notin> set s" "s \<noteq> []"
  shows "CreatePrefixList (below_scope p s) = below_scope p s # CreatePrefixList p"
proof (cases "p = []")
  case True
  have "dots s = []" using assms(1) by (auto simp: dots_def filter_empty_conv in_set_conv_nth)
  with True assms(2) show ?thesis by (simp add: below_scope_def CreatePrefixList_eq) (simp add: CreatePrefixList_def)
next
  case False
  have "map (\<lambda>i. take i (p @ ''.'' @ s)) (dots p) = map (\<lambda>i. take i p) (dots p)"
    by (auto simp: dots_def)
  then show ?thesis using False by (simp add: below_scope_def CreatePrefixList_eq dots_snoc [OF assms(1), simplified])
qed

text \<open>The full names of the messages that enclose an element, outermost first, from the package and
  the simple names.\<close>

primrec nested_names :: "full_name \<Rightarrow> string list \<Rightarrow> full_name list" where
  "nested_names p [] = []"
| "nested_names p (s # ss) = below_scope p s # nested_names (below_scope p s) ss"

definition enclosing :: "full_name \<Rightarrow> string list \<Rightarrow> full_name" where
  "enclosing p ss = foldl below_scope p ss"

definition simple_name :: "string \<Rightarrow> bool" where
  "simple_name s \<longleftrightarrow> s \<noteq> [] \<and> CHR ''.'' \<notin> set s"

lemma CreatePrefixList_enclosing:
  "list_all simple_name ss \<Longrightarrow>
   CreatePrefixList (enclosing p ss) = rev (nested_names p ss) @ CreatePrefixList p"
  by (induction ss arbitrary: p) (simp_all add: enclosing_def simple_name_def CreatePrefixList_below)

lemma nested_names_relative:
  "list_all simple_name ss \<Longrightarrow> \<not> absolute p \<Longrightarrow> m \<in> set (nested_names p ss) \<Longrightarrow> m \<noteq> [] \<and> \<not> absolute m"
proof (induction ss arbitrary: p)
  case (Cons s ss)
  then have s: "s \<noteq> []" "CHR ''.'' \<notin> set s" by (auto simp: simple_name_def)
  then have "\<not> absolute s" by (cases s) (auto simp: absolute_Cons)
  with Cons.prems s have b: "below_scope p s \<noteq> []" "\<not> absolute (below_scope p s)"
    by (auto simp: below_scope_def absolute_append)
  from Cons.prems(3) consider "m = below_scope p s" | "m \<in> set (nested_names (below_scope p s) ss)" by auto
  then show ?case using b Cons.IH [OF _ b(2)] Cons.prems(1) by cases auto
qed simp

section \<open>Scoping\<close>

text \<open>The scoping rule of the language, that of C++, stated over full names. The scopes around the scope
  \<open>sc\<close> are the prefixes of its name that end before a dot, itself and the empty name, the global scope; a
  longer name is a scope further inside.\<close>

definition encloses :: "full_name \<Rightarrow> full_name \<Rightarrow> bool" where
  "encloses p sc \<longleftrightarrow> p = [] \<or> p = sc \<or> (\<exists>x. sc = p @ ''.'' @ x)"

text \<open>A scope knows the first part of a relative name: it declares an element of that name which, if
  more parts follow, can contain others (a package, message, enum or service). The global scope knows
  only the names that are declared in full.\<close>

definition part_known :: "(full_name \<Rightarrow> descriptor option) \<Rightarrow> string \<Rightarrow> full_name \<Rightarrow> bool" where
  "part_known L name p \<longleftrightarrow>
     (if p = [] then L name \<noteq> None
      else \<exists>d. L (p @ ''.'' @ first_name name) = Some d \<and> (first_name name = name \<or> isAggregateDescriptor d))"

text \<open>What the whole name stands for in a scope: the element of that name, or nothing, which is the
  sentinel for a name that cannot be resolved any more.\<close>

definition named_in :: "(full_name \<Rightarrow> descriptor option) \<Rightarrow> string \<Rightarrow> full_name \<Rightarrow> descriptor" where
  "named_in L name p =
     (case L (below_scope p name) of Some d \<Rightarrow> d | None \<Rightarrow> Sentinel (below_scope p name))"

definition innermost :: "(full_name \<Rightarrow> bool) \<Rightarrow> full_name \<Rightarrow> bool" where
  "innermost A p \<longleftrightarrow> A p \<and> (\<forall>q. A q \<longrightarrow> length q \<le> length p)"

definition type_scope :: "(full_name \<Rightarrow> descriptor option) \<Rightarrow> full_name \<Rightarrow> string \<Rightarrow> full_name \<Rightarrow> bool" where
  "type_scope L sc name p \<longleftrightarrow> encloses p sc \<and> part_known L name p \<and> isType (named_in L name p)"

text \<open>A relative name stands for what it means in the innermost scope that knows its first part, even
  if that is nothing, and stays unresolved if no scope does. A reference to a type that has a single part
  skips what is not a type, unless there is no type at all (the caller then reports the wrong kind).\<close>

definition scoping_rule ::
  "(full_name \<Rightarrow> descriptor option) \<Rightarrow> full_name \<Rightarrow> string \<Rightarrow> bool \<Rightarrow> descriptor option \<Rightarrow> bool" where
  "scoping_rule L sc name onlyTypes res \<longleftrightarrow>
     (if onlyTypes \<and> first_name name = name \<and> (\<exists>p. type_scope L sc name p)
      then \<exists>p. innermost (type_scope L sc name) p \<and> res = Some (named_in L name p)
      else if \<exists>p. encloses p sc \<and> part_known L name p
      then \<exists>p. innermost (\<lambda>q. encloses q sc \<and> part_known L name q) p \<and> res = Some (named_in L name p)
      else res = None)"

text \<open>Where the code departs from the rule: the package and its parents are searched as one scope. The type
  that the name should denote is declared in a parent package, and is hidden by something else of that name
  further inside.\<close>

definition package_scope :: "(full_name \<Rightarrow> descriptor option) \<Rightarrow> full_name \<Rightarrow> string \<Rightarrow> full_name \<Rightarrow> bool" where
  "package_scope L pkg name = innermost (\<lambda>q. encloses q pkg \<and> part_known L name q)"

definition type_hidden :: "(full_name \<Rightarrow> descriptor option) \<Rightarrow> full_name \<Rightarrow> full_name \<Rightarrow> string \<Rightarrow> bool" where
  "type_hidden L pkg sc name \<longleftrightarrow>
     (\<exists>p. type_scope L pkg name p) \<and> (\<forall>p. type_scope L sc name p \<longrightarrow> encloses p pkg) \<and>
     (\<forall>p. package_scope L pkg name p \<longrightarrow> \<not> isType (named_in L name p))"

text \<open>What the search looks at: messages, and one of the packages.\<close>

definition searched_type :: "(full_name \<Rightarrow> descriptor option) \<Rightarrow> full_name \<Rightarrow> full_name \<Rightarrow> string \<Rightarrow> full_name \<Rightarrow> bool" where
  "searched_type L pkg sc name p \<longleftrightarrow> type_scope L sc name p \<and> (encloses p pkg \<longrightarrow> package_scope L pkg name p)"

text \<open>No other available file puts anything below the messages of this one. The symbol table enforces
  it: a name below a message conflicts with the message, or is in its file.\<close>

definition owns_messages :: "lfile \<Rightarrow> full_name list \<Rightarrow> bool" where
  "owns_messages r ms \<longleftrightarrow>
     (\<forall>m \<in> set ms. \<forall>f. available r f \<and> f \<noteq> r \<longrightarrow>
       (\<forall>x. resolveElementInFile (m @ ''.'' @ x) f = None))"

lemma visible_files_Cons: "\<exists>fs. visible_files r = r # fs"
  by (subst search_order.simps) blast

lemma lookup_owned:
  assumes "owns_messages r ms" "m \<in> set ms" "m \<noteq> []" "\<not> absolute m"
  shows "lookup_visible r (m @ ''.'' @ x) = resolveElementInFile (m @ ''.'' @ x) r"
proof (cases "resolveElementInFile (m @ ''.'' @ x) r")
  case None
  have "resolveElementInFile (m @ ''.'' @ x) f = None" if f: "f \<in> set (visible_files r)" for f
    using None assms(1,2) f unfolding owns_messages_def available_search by (cases "f = r") blast+
  with None assms(3,4) show ?thesis by (simp add: lookup_visible_def first_some_None)
next
  case (Some d)
  with assms(3,4) visible_files_Cons [of r] show ?thesis by (auto simp: lookup_visible_def)
qed

lemma message_scope_answer:
  assumes "owns_messages r ms" "m \<in> set ms" "m \<noteq> []" "\<not> absolute m"
  shows "scope_answer r name (MessageScope m) = in_scope (lookup_visible r) name m"
proof -
  note L = lookup_owned [OF assms]
  show ?thesis using assms(3) by (simp add: in_scope_def relative_def below_scope_def L [simplified] cong: option.case_cong if_cong)
qed

lemma map_filter_hd:
  "(case List.map_filter f xs of d # _ \<Rightarrow> Some d | [] \<Rightarrow> None) = first_some f xs"
  by (induction xs) (auto simp: List.map_filter_def split: option.splits list.splits)

lemma first_some_map: "first_some f (map g xs) = first_some (\<lambda>x. f (g x)) xs"
  by (induction xs) (auto split: option.splits)

lemma in_scope_known: "in_scope L name p = (if part_known L name p then Some (named_in L name p) else None)"
  by (auto simp: in_scope_def part_known_def relative_def named_in_def below_scope_def split: option.splits)

abbreviation inwards :: "full_name list \<Rightarrow> bool" where
  "inwards \<equiv> sorted_wrt (\<lambda>p q. length q < length p)"

lemma CreatePrefixList_set: "set (CreatePrefixList n) = {p. encloses p n}"
proof (cases "n = []")
  case True
  then show ?thesis by (auto simp: CreatePrefixList_def encloses_def)
next
  case False
  have "(\<exists>x. n = p @ ''.'' @ x) \<longleftrightarrow> (\<exists>i \<in> set (dots n). p = take i n)" for p
  proof
    assume "\<exists>x. n = p @ ''.'' @ x"
    then show "\<exists>i \<in> set (dots n). p = take i n"
      by (intro bexI [of _ "length p"]) (auto simp: dots_def nth_append)
  next
    assume "\<exists>i \<in> set (dots n). p = take i n"
    then obtain i where i: "i < length n" "n ! i = CHR ''.''" "p = take i n" by (auto simp: dots_def)
    then have "n = p @ ''.'' @ drop (Suc i) n" using id_take_nth_drop [OF i(1)] by simp
    then show "\<exists>x. n = p @ ''.'' @ x" by blast
  qed
  with False show ?thesis by (auto simp: CreatePrefixList_eq encloses_def)
qed

lemma CreatePrefixList_inwards:
  assumes "\<not> absolute n"
  shows "inwards (CreatePrefixList n)"
proof (cases "n = []")
  case True
  then show ?thesis by (simp add: CreatePrefixList_def)
next
  case False
  with assms have "n ! 0 \<noteq> CHR ''.''" by (cases n) (auto simp: absolute_Cons)
  then have d: "0 < i \<and> i < length n" if "i \<in> set (dots n)" for i using that by (auto simp: dots_def intro: gr0I)
  have "sorted_wrt (<) (dots n)" by (simp add: dots_def sorted_wrt_filter)
  then have "inwards (rev (map (\<lambda>i. take i n) (dots n)))"
    by (simp add: sorted_wrt_rev sorted_wrt_map) (erule sorted_wrt_mono_rel [rotated], auto dest: d)
  with d False show ?thesis by (auto simp: CreatePrefixList_eq sorted_wrt_append)
qed

lemma innermostD: "innermost A p \<Longrightarrow> A p"
  by (simp add: innermost_def)

lemma find_innermost:
  "inwards ps \<Longrightarrow> find A ps = Some p \<Longrightarrow> innermost (\<lambda>q. q \<in> set ps \<and> A q) p"
  by (induction ps) (auto simp: innermost_def less_imp_le split: if_splits)

lemma innermost_find:
  assumes "inwards ps" "innermost (\<lambda>q. q \<in> set ps \<and> A q) p"
  shows "find A ps = Some p"
  using assms by (induction ps) (auto simp: innermost_def dest: leD)

lemma first_some_known:
  "first_some (in_scope L name) ps = map_option (named_in L name) (find (part_known L name) ps)"
  by (induction ps) (simp_all add: in_scope_known)

lemma filter_innermost:
  assumes "inwards ps"
  shows "filter (\<lambda>p. innermost (\<lambda>q. q \<in> set ps \<and> A q) p) ps = (case find A ps of Some p \<Rightarrow> [p] | None \<Rightarrow> [])"
proof (cases "find A ps")
  case None
  then have "\<not> innermost (\<lambda>q. q \<in> set ps \<and> A q) p" for p by (auto simp: find_None_iff innermost_def)
  with None show ?thesis by simp
next
  case (Some p)
  have "distinct ps" using assms by (induction ps) auto
  have "innermost (\<lambda>q. q \<in> set ps \<and> A q) q \<longleftrightarrow> q = p" for q
    using find_innermost [OF assms Some] innermost_find [OF assms, of A q] Some by auto
  moreover have "p \<in> set ps" using Some by (auto simp: find_Some_iff)
  moreover have "filter (\<lambda>q. q = p) ps = [p]" if "p \<in> set ps" "distinct ps" for ps :: "full_name list"
    using that by (induction ps) (auto simp: filter_empty_conv)
  ultimately show ?thesis using Some \<open>distinct ps\<close> by simp
qed

lemma find_map: "find A (map f xs) = map_option f (find (\<lambda>x. A (f x)) xs)"
  by (induction xs) auto

lemma find_filter: "find A (filter B xs) = find (\<lambda>x. B x \<and> A x) xs"
  by (induction xs) auto


lemma enclosing_relative: "list_all simple_name ss \<Longrightarrow> \<not> absolute p \<Longrightarrow> \<not> absolute (enclosing p ss)"
proof (induction ss arbitrary: p)
  case (Cons s ss)
  then have "\<not> absolute (below_scope p s)"
    by (cases s) (auto simp: below_scope_def simple_name_def absolute_Cons absolute_append)
  with Cons show ?case by (simp add: enclosing_def)
qed (simp add: enclosing_def)

text \<open>The matches of the scopes, innermost first: every message that knows the first part is one, and the
  package with its parents contributes the innermost only.\<close>

definition scope_match :: "(full_name \<Rightarrow> descriptor option) \<Rightarrow> full_name \<Rightarrow> string \<Rightarrow> full_name \<Rightarrow> bool" where
  "scope_match L pkg name p \<longleftrightarrow>
     part_known L name p \<and> (encloses p pkg \<longrightarrow> innermost (\<lambda>q. encloses q pkg \<and> part_known L name q) p)"

lemma map_filter_map_cong:
  "(\<And>x. x \<in> set xs \<Longrightarrow> f (g x) = h x) \<Longrightarrow> List.map_filter f (map g xs) = List.map_filter h xs"
  by (induction xs) (simp_all add: List.map_filter_def)

lemma map_filter_append: "List.map_filter f (xs @ ys) = List.map_filter f xs @ List.map_filter f ys"
  by (simp add: List.map_filter_def)

lemma map_filter_known:
  "List.map_filter (in_scope L name) ps = map (named_in L name) (filter (part_known L name) ps)"
  by (induction ps) (simp_all add: List.map_filter_def in_scope_known)

lemma scope_matches:
  assumes "owns_messages r (nested_names (lf_package r) ss)" "list_all simple_name ss" "\<not> absolute (lf_package r)"
  shows "List.map_filter (scope_answer r name) (rev (FileScope # map MessageScope (nested_names (lf_package r) ss))) =
    map (named_in (lookup_visible r) name)
      (filter (scope_match (lookup_visible r) (lf_package r) name) (CreatePrefixList (enclosing (lf_package r) ss)))"
proof -
  let ?L = "lookup_visible r" and ?ms = "rev (nested_names (lf_package r) ss)" and ?ps = "CreatePrefixList (lf_package r)"
  let ?M = "scope_match ?L (lf_package r) name"
  have sorted: "inwards (?ms @ ?ps)"
    using CreatePrefixList_inwards [OF enclosing_relative [OF assms(2,3)]] CreatePrefixList_enclosing [OF assms(2)] by simp
  have "List.map_filter (scope_answer r name) (map MessageScope ?ms) = List.map_filter (in_scope ?L name) ?ms"
    using nested_names_relative [OF assms(2,3)] message_scope_answer [OF assms(1)]
    by (intro map_filter_map_cong) (simp del: scope_answer.simps)
  moreover have "filter (part_known ?L name) ?ms = filter ?M ?ms"
  proof (rule filter_cong [OF refl])
    fix p assume "p \<in> set ?ms"
    then have "p \<notin> set ?ps" using sorted by (auto simp: sorted_wrt_append)
    then show "part_known ?L name p = ?M p" by (simp add: CreatePrefixList_set scope_match_def)
  qed
  moreover have "List.map_filter (scope_answer r name) [FileScope] = map (named_in ?L name) (filter ?M ?ps)"
  proof -
    have ps: "inwards ?ps" by (rule CreatePrefixList_inwards [OF assms(3)])
    have "filter ?M ?ps = filter (\<lambda>p. innermost (\<lambda>q. q \<in> set ?ps \<and> part_known ?L name q) p) ?ps"
      by (auto simp: scope_match_def CreatePrefixList_set innermost_def intro!: filter_cong)
    also have "\<dots> = (case find (part_known ?L name) ?ps of Some p \<Rightarrow> [p] | None \<Rightarrow> [])"
      by (rule filter_innermost [OF ps])
    finally show ?thesis
      by (simp add: List.map_filter_def first_some_known split: option.splits)
  qed
  ultimately show ?thesis
    by (simp add: CreatePrefixList_enclosing [OF assms(2)] map_filter_known rev_map map_filter_append
        del: scope_answer.simps)
qed

lemma first_match:
  assumes "owns_messages r (nested_names (lf_package r) ss)" "list_all simple_name ss" "\<not> absolute (lf_package r)"
  shows "first_some (scope_answer r name) (rev (FileScope # map MessageScope (nested_names (lf_package r) ss))) =
    first_some (in_scope (lookup_visible r) name) (CreatePrefixList (enclosing (lf_package r) ss))"
proof -
  let ?ms = "nested_names (lf_package r) ss"
  have "first_some (\<lambda>m. scope_answer r name (MessageScope m)) (rev ?ms) = first_some (in_scope (lookup_visible r) name) (rev ?ms)"
    using nested_names_relative [OF assms(2,3)] message_scope_answer [OF assms(1)] by (auto intro!: first_some_cong)
  then show ?thesis
    by (simp add: CreatePrefixList_enclosing [OF assms(2)] first_some_append rev_map first_some_map
        del: scope_answer.simps(2) split: option.split)
qed

lemma find_known:
  assumes "inwards (CreatePrefixList sc)"
  shows "case find A (CreatePrefixList sc) of
      Some p \<Rightarrow> innermost (\<lambda>q. encloses q sc \<and> A q) p
    | None \<Rightarrow> \<not> (\<exists>p. encloses p sc \<and> A p)"
  using find_innermost [OF assms, of A] by (auto simp: CreatePrefixList_set find_None_iff split: option.split)

lemma resolution_searches:
  assumes "owns_messages r (nested_names (lf_package r) ss)" "list_all simple_name ss" "\<not> absolute (lf_package r)"
    "\<not> absolute name"
  shows "if onlyTypes \<and> first_name name = name \<and> (\<exists>p. searched_type (lookup_visible r) (lf_package r) (enclosing (lf_package r) ss) name p)
    then \<exists>p. innermost (searched_type (lookup_visible r) (lf_package r) (enclosing (lf_package r) ss) name) p \<and>
      resolution r name onlyTypes (FileScope # map MessageScope (nested_names (lf_package r) ss)) = Some (named_in (lookup_visible r) name p)
    else scoping_rule (lookup_visible r) (enclosing (lf_package r) ss) name False
      (resolution r name onlyTypes (FileScope # map MessageScope (nested_names (lf_package r) ss)))"
proof -
  let ?L = "lookup_visible r" and ?sc = "enclosing (lf_package r) ss"
  let ?S = "CreatePrefixList ?sc" and ?f = "named_in (lookup_visible r) name"
  let ?ds = "map ?f (filter (scope_match ?L (lf_package r) name) ?S)"
  let ?any = "map_option ?f (find (part_known ?L name) ?S)"
  let ?typed = "\<lambda>p. scope_match ?L (lf_package r) name p \<and> isType (?f p)"
  have S: "inwards ?S" by (simp add: CreatePrefixList_inwards enclosing_relative assms)
  note known = find_known [OF S, of "part_known ?L name"] and typed = find_known [OF S, of ?typed]
  have first: "(case ?ds of d # _ \<Rightarrow> Some d | [] \<Rightarrow> None) = ?any"
    unfolding scope_matches [OF assms(1-3), symmetric] map_filter_hd first_match [OF assms(1-3)] by (rule first_some_known)
  have res: "resolution r name onlyTypes (FileScope # map MessageScope (nested_names (lf_package r) ss)) =
      (case find (accept onlyTypes name) ?ds of Some d \<Rightarrow> Some d | None \<Rightarrow> ?any)"
    using assms(4) unfolding resolution_def scope_matches [OF assms(1-3)] Let_def first by (simp add: absolute_def)
  have ts: "searched_type ?L (lf_package r) ?sc name = (\<lambda>p. encloses p ?sc \<and> ?typed p)"
    by (auto simp: fun_eq_iff searched_type_def type_scope_def package_scope_def scope_match_def)
  show ?thesis
  proof (cases "onlyTypes \<and> first_name name = name")
    case True
    then have "accept onlyTypes name = isType" by (auto simp: accept_def fun_eq_iff)
    then have hit: "find (accept onlyTypes name) ?ds = map_option ?f (find ?typed ?S)"
      by (simp add: find_map find_filter)
    show ?thesis
    proof (cases "find ?typed ?S")
      case None
      with typed have "\<not> (\<exists>p. encloses p ?sc \<and> ?typed p)" by simp
      with None True known show ?thesis unfolding res hit scoping_rule_def ts
        by (cases "find (part_known ?L name) ?S") (auto dest: innermostD)
    next
      case (Some p)
      with typed have p: "innermost (\<lambda>q. encloses q ?sc \<and> ?typed q) p" by simp
      with innermostD [OF p] Some True show ?thesis unfolding res hit scoping_rule_def ts by auto
    qed
  next
    case False
    then have "accept onlyTypes name = (\<lambda>_. True)" by (auto simp: accept_def fun_eq_iff)
    then have "find (accept onlyTypes name) ?ds = (case ?ds of d # _ \<Rightarrow> Some d | [] \<Rightarrow> None)"
      by (simp split: list.split)
    then show ?thesis
      using False known unfolding res scoping_rule_def first
      by (cases "find (part_known ?L name) ?S") (auto dest: innermostD)
  qed
qed

lemma encloses_outer:
  assumes "encloses p sc" "encloses pkg sc" "\<not> encloses p pkg"
  shows "length pkg < length p"
proof (rule ccontr)
  assume "\<not> length pkg < length p"
  then have le: "length p \<le> length pkg" by simp
  have p: "p \<noteq> []" "p \<noteq> pkg" and no: "pkg \<noteq> p @ ''.'' @ x" for x using assms(3) by (auto simp: encloses_def)
  then have "pkg \<noteq> []" using le by auto
  show False
  proof (cases "p = sc \<or> pkg = sc")
    case True
    then show False using assms(1,2) p no le \<open>pkg \<noteq> []\<close> by (auto simp: encloses_def)
  next
    case False
    then obtain x where x: "sc = p @ ''.'' @ x" using assms(1) p(1) unfolding encloses_def by blast
    obtain y where y: "sc = pkg @ ''.'' @ y" using False assms(2) \<open>pkg \<noteq> []\<close> unfolding encloses_def by blast
    have "p @ ''.'' @ x = pkg @ ''.'' @ y" using x y by simp
    then obtain us where us: "pkg = p @ us" "us @ ''.'' @ y = ''.'' @ x"
      using le by (auto simp: append_eq_append_conv2 dest: arg_cong [of _ _ length])
    then show False using p(2) no by (cases us) auto
  qed
qed

text \<open>Types outside of the packages are further inside than those of packages, and of the packages the innermost one
  that knows the name comes first: unless a type is hidden, the search finds the innermost one.\<close>

lemma searched_innermost:
  assumes "encloses pkg sc" "innermost (searched_type L pkg sc name) p"
  shows "innermost (type_scope L sc name) p"
  unfolding innermost_def
proof (intro conjI allI impI)
  have p: "searched_type L pkg sc name p" using innermostD [OF assms(2)] .
  then show "type_scope L sc name p" by (simp add: searched_type_def)
  fix q assume q: "type_scope L sc name q"
  show "length q \<le> length p"
  proof (cases "searched_type L pkg sc name q")
    case True
    then show ?thesis using assms(2) by (simp add: innermost_def)
  next
    case False
    then have "encloses q pkg" using q by (simp add: searched_type_def)
    show ?thesis
    proof (cases "encloses p pkg")
      case True
      then show ?thesis using p q \<open>encloses q pkg\<close> by (simp add: searched_type_def package_scope_def innermost_def type_scope_def)
    next
      case False
      have "length pkg < length p" using encloses_outer [OF _ assms(1) False] p by (simp add: searched_type_def type_scope_def)
      moreover have "length q \<le> length pkg" using \<open>encloses q pkg\<close> by (auto simp: encloses_def)
      ultimately show ?thesis by simp
    qed
  qed
qed

lemma hidden_or_searched:
  assumes "\<not> (\<exists>p. searched_type L pkg sc name p)" "type_scope L sc name p" "encloses pkg sc"
  shows "type_hidden L pkg sc name"
  unfolding type_hidden_def
proof (intro conjI allI impI)
  have outer: "encloses q pkg" if "type_scope L sc name q" for q using assms(1) that by (auto simp: searched_type_def)
  then have "type_scope L pkg name p" using assms(2) by (simp add: type_scope_def)
  then show "\<exists>p. type_scope L pkg name p" by blast
  show "encloses q pkg" if "type_scope L sc name q" for q by (rule outer [OF that])
  show "\<not> isType (named_in L name q)" if q: "package_scope L pkg name q" for q
  proof
    assume "isType (named_in L name q)"
    moreover have "encloses q sc" "part_known L name q"
    proof -
      have "encloses q pkg" "part_known L name q" using innermostD [OF q [unfolded package_scope_def]] by simp_all
      moreover have "encloses q sc" if "encloses q pkg"
        using that assms(3) by (auto simp: encloses_def)
      ultimately show "encloses q sc" "part_known L name q" by simp_all
    qed
    ultimately have "searched_type L pkg sc name q" using q by (simp add: searched_type_def type_scope_def)
    then show False using assms(1) by blast
  qed
qed

lemma hidden_not_searched: "type_hidden L pkg sc name \<Longrightarrow> \<not> searched_type L pkg sc name p"
  by (auto simp: type_hidden_def searched_type_def type_scope_def)

lemma encloses_enclosing: "list_all simple_name ss \<Longrightarrow> encloses p (enclosing p ss)"
proof -
  assume "list_all simple_name ss"
  then have "set (CreatePrefixList p) \<subseteq> set (CreatePrefixList (enclosing p ss))" by (simp add: CreatePrefixList_enclosing)
  then show ?thesis unfolding CreatePrefixList_set by (auto simp: encloses_def)
qed

lemma resolution_scoping_rule:
  assumes "owns_messages r (nested_names (lf_package r) ss)" "list_all simple_name ss" "\<not> absolute (lf_package r)"
    "\<not> absolute name"
  shows "scoping_rule (lookup_visible r) (enclosing (lf_package r) ss) name
    (onlyTypes \<and> \<not> type_hidden (lookup_visible r) (lf_package r) (enclosing (lf_package r) ss) name)
    (resolution r name onlyTypes (FileScope # map MessageScope (nested_names (lf_package r) ss)))"
proof -
  let ?L = "lookup_visible r" and ?pkg = "lf_package r" and ?sc = "enclosing (lf_package r) ss"
  note run = resolution_searches [OF assms, of onlyTypes]
  note out = encloses_enclosing [OF assms(2), of ?pkg]
  show ?thesis
  proof (cases "onlyTypes \<and> first_name name = name \<and> (\<exists>p. searched_type ?L ?pkg ?sc name p)")
    case True
    then obtain p where p: "innermost (searched_type ?L ?pkg ?sc name) p"
      "resolution r name onlyTypes (FileScope # map MessageScope (nested_names ?pkg ss)) = Some (named_in ?L name p)"
      using run by auto
    have "\<not> type_hidden ?L ?pkg ?sc name" using True hidden_not_searched by blast
    moreover have "innermost (type_scope ?L ?sc name) p" by (rule searched_innermost [OF out p(1)])
    ultimately show ?thesis using True p(2) innermostD by (auto simp: scoping_rule_def)
  next
    case False
    then have "scoping_rule ?L ?sc name False (resolution r name onlyTypes (FileScope # map MessageScope (nested_names ?pkg ss)))"
      using run by (simp only: if_False)
    moreover have "\<not> (onlyTypes \<and> \<not> type_hidden ?L ?pkg ?sc name \<and> first_name name = name \<and> (\<exists>p. type_scope ?L ?sc name p))"
      using False hidden_or_searched [OF _ _ out] by blast
    ultimately show ?thesis by (auto simp: scoping_rule_def)
  qed
qed

section \<open>Qualified names\<close>

text \<open>Every file registers its descriptors under their full names, which do not start with a dot.\<close>

definition keyed :: "lfile \<Rightarrow> bool" where
  "keyed r \<longleftrightarrow> (\<forall>f n d. available r f \<longrightarrow> lf_descs f n = Some d \<longrightarrow> dFullName d = n \<and> \<not> absolute n)"

lemma resolveElementInFile_name:
  assumes "keyed r" "available r f" "resolveElementInFile n f = Some d" "\<not> absolute n" "\<not> isSentinelDescriptor d"
  shows "dFullName d = n"
proof -
  have "FindDescriptorByName f n = Some d"
    using assms(3,5) by (auto simp: resolveElementInFile_def isSentinelDescriptor_def split: option.splits if_splits)
  then have "lf_descs f n = Some d"
    using assms(4) by (cases "lf_result f") (simp_all add: FindDescriptorByName_def trim_dot_id)
  with assms(1,2) show ?thesis unfolding keyed_def by blast
qed

lemma lookup_visible_name:
  assumes "keyed r" "lookup_visible r n = Some d" "\<not> absolute n" "\<not> isSentinelDescriptor d"
  shows "dFullName d = n"
proof -
  obtain f where "available r f" "resolveElementInFile n f = Some d"
    using first_some_Some [OF assms(2) [unfolded lookup_visible_def trim_dot_id [OF assms(3)]]]
    by (auto simp: available_search)
  with assms show ?thesis by (blast intro: resolveElementInFile_name)
qed

lemma relative_Some: "relative n1 n L = Some d \<Longrightarrow> \<not> isSentinelDescriptor d \<Longrightarrow> L n = Some d"
  by (auto simp: relative_def isSentinelDescriptor_def split: option.splits if_splits)

lemma CreatePrefixList_relative: "p \<in> set (CreatePrefixList pkg) \<Longrightarrow> \<not> absolute pkg \<Longrightarrow> \<not> absolute p"
proof (cases "pkg = []")
  case False
  assume p: "p \<in> set (CreatePrefixList pkg)" and pkg: "\<not> absolute pkg"
  have "\<not> absolute (take i pkg)" for i
    using pkg by (cases pkg; cases i) (auto simp: absolute_Cons not_absolute_Nil)
  then show ?thesis using p pkg False by (auto simp: CreatePrefixList_eq not_absolute_Nil)
qed (simp add: CreatePrefixList_def not_absolute_Nil)

text \<open>The scopes that \<open>resolveReferences\<close> pushes: relative, non-empty names.\<close>

definition scope_ok :: "scope \<Rightarrow> bool" where
  "scope_ok sc = (case sc of FileScope \<Rightarrow> True | MessageScope m \<Rightarrow> m \<noteq> [] \<and> \<not> absolute m)"

lemma scope_answer_name:
  assumes "keyed r" "\<not> absolute (lf_package r)" "scope_ok sc" "\<not> absolute name"
    "scope_answer r name sc = Some d" "\<not> isSentinelDescriptor d"
  shows "lookup_visible r (dFullName d) = Some d"
proof (cases sc)
  case FileScope
  with assms(5) obtain p where p: "p \<in> set (CreatePrefixList (lf_package r))" "in_scope (lookup_visible r) name p = Some d"
    using first_some_Some by force
  have "lookup_visible r (below_scope p name) = Some d"
    using p(2) relative_Some [OF _ assms(6)] by (simp add: in_scope_def)
  moreover have "\<not> absolute (below_scope p name)"
    using CreatePrefixList_relative [OF p(1) assms(2)] assms(4) by (auto simp: below_scope_def absolute_append)
  ultimately show ?thesis using lookup_visible_name [OF assms(1) _ _ assms(6)] by simp
next
  case (MessageScope m)
  let ?n = "m @ ''.'' @ name"
  have m: "m \<noteq> []" "\<not> absolute m" using assms(3) MessageScope by (simp_all add: scope_ok_def)
  have "resolveElementInFile ?n r = Some d"
    using relative_Some [OF _ assms(6)] assms(5) MessageScope by auto
  then have "lookup_visible r ?n = Some d"
    using visible_files_Cons [of r] m by (auto simp: lookup_visible_def)
  with lookup_visible_name [OF assms(1) this _ assms(6)] m show ?thesis by (simp add: absolute_append)
qed

lemma resolution_name:
  assumes "keyed r" "\<not> absolute (lf_package r)" "list_all scope_ok scopes" "\<not> HasPrefix name ''..''"
    "resolution r name onlyTypes scopes = Some d" "\<not> isSentinelDescriptor d"
  shows "lookup_visible r (dFullName d) = Some d"
proof (cases "absolute name")
  case True
  then obtain n where n: "name = CHR ''.'' # n" "\<not> absolute n"
    using assms(4) by (cases name) (auto simp: absolute_def HasPrefix_def take_Suc_conv_app_nth split: list.splits)
  with assms(5) True have "lookup_visible r n = Some d" by (simp add: resolution_def absolute_def)
  with lookup_visible_name [OF assms(1) this n(2) assms(6)] show ?thesis by simp
next
  case False
  let ?ds = "List.map_filter (scope_answer r name) (rev scopes)"
  have "d \<in> set ?ds"
    using assms(5) False
    by (auto simp: resolution_def absolute_def Let_def find_Some_iff split: option.splits list.splits intro: nth_mem)
  then obtain sc where "sc \<in> set scopes" "scope_answer r name sc = Some d"
    by (auto simp: List.map_filter_def)
  with scope_answer_name [OF assms(1,2) _ False _ assms(6)] assms(3) show ?thesis by (auto simp: list_all_iff)
qed

section \<open>Properties\<close>

text \<open>C19: a query for an element through \<open>ResolverFromFile\<close> never panics and finds an element of that
  name if and only if one is available: defined in the file, in a file it imports, or in a file that such a
  file imports publicly, directly or through further public imports. Otherwise it fails with
  \<open>NotFound\<close>.\<close>

theorem available_elements:
  assumes "imports_found r" "paths_unique r"
  shows "\<exists>res used'. fileResolver_FindDescriptorByName r name used = Some (res, used') \<and>
    (case res of
       Inr d \<Rightarrow> \<exists>f. available r f \<and> FindDescriptorByName f name = Some d
     | Inl e \<Rightarrow> e = NotFound \<and> (\<forall>f. available r f \<longrightarrow> FindDescriptorByName f name = None))"
proof -
  let ?L = "first_some (\<lambda>f. FindDescriptorByName f name) (visible_files r)"
  have "fileResolver_FindDescriptorByName r name used =
      Some (case ?L of Some d \<Rightarrow> Inr d | None \<Rightarrow> Inl NotFound,
            search_used (\<lambda>f. case FindDescriptorByName f name of Some d \<Rightarrow> Inr d | None \<Rightarrow> Inl NotFound) r False used)"
    by (simp add: fileResolver_FindDescriptorByName_def resolve_visible [OF assms] first_hit_some)
  then show ?thesis
    using first_some_Some [of "\<lambda>f. FindDescriptorByName f name" "visible_files r"]
      first_some_None [of "\<lambda>f. FindDescriptorByName f name" "visible_files r"]
    by (auto simp: available_search split: option.splits)
qed

text \<open>C8: a relative reference resolves by the scoping rule of the language, with one exception. The reference stands
  inside the messages \<open>ss\<close> of a file whose package is not written with a leading dot, all imports are known, and no
  other file declares anything below these messages. The search never panics, and its result is what the name means in
  the innermost enclosing scope (message, package, parent package or the global scope) that knows its first part, where
  an element that cannot contain others only counts if no part follows; it is unresolved if there is no such scope. A
  single-part reference to a type takes the innermost type instead, if there is one. The exception: a type in a parent
  package is overlooked if no message around the reference has a type of that name and something else of that name
  is in a package further inside; then the result is the innermost match, whatever it is.\<close>

theorem resolve_cpp_scoping:
  assumes "imports_found r" "paths_unique r" "owns_messages r (nested_names (lf_package r) ss)"
    "list_all simple_name ss" "\<not> absolute (lf_package r)" "\<not> absolute name"
  shows "\<exists>res used'. resolve r name onlyTypes (FileScope # map MessageScope (nested_names (lf_package r) ss)) used =
      Some (res, used') \<and>
    scoping_rule (lookup_visible r) (enclosing (lf_package r) ss) name
      (onlyTypes \<and> \<not> type_hidden (lookup_visible r) (lf_package r) (enclosing (lf_package r) ss) name) res"
  using resolve_answers [OF assms(1,2)] resolution_scoping_rule [OF assms(3-6)]
  unfolding answers_def by metis

text \<open>C20: when a reference resolves to an element, replacing it by the element's full name with a
  leading dot, as linking does, refers to the same element in every scope.\<close>

theorem qualified_name_stable:
  assumes "imports_found r" "paths_unique r" "keyed r" "\<not> absolute (lf_package r)"
    "list_all scope_ok scopes" "\<not> HasPrefix name ''..''"
    "resolve r name onlyTypes scopes used = Some (Some d, used1)" "\<not> isSentinelDescriptor d"
  shows "\<exists>used'. resolve r (''.'' @ dFullName d) onlyTypes' scopes' used2 = Some (Some d, used')"
proof -
  have "resolution r name onlyTypes scopes = Some d"
    by (rule answersE [OF resolve_answers [OF assms(1,2)], of name onlyTypes scopes used]) (simp add: assms(7))
  from resolution_name [OF assms(3-6) this assms(8)]
  have "resolution r (''.'' @ dFullName d) onlyTypes' scopes' = Some d" by (simp add: resolution_def HasPrefix_def)
  then show ?thesis using resolve_answers [OF assms(1,2)] unfolding answers_def by metis
qed

section \<open>An example\<close>

text \<open>\<open>common.proto\<close> defines the message \<open>a.X\<close>; \<open>main.proto\<close> of package \<open>a.b\<close> imports it and defines the
  message \<open>a.b.M\<close> and an enum whose value \<open>X\<close> has the full name \<open>a.b.X\<close>.\<close>

definition no_span :: source_span where
  "no_span = UnknownSpan ''main.proto''"

definition no_info :: linfo where
  "no_info = \<lparr>options = [], map_entry = False, extensionRange = [], fnumber = 0, flabel = None, ftype = None,
     ftypeName = [], fextendee = [], oneofIndex = None, fparent = [], findex = 0, fnode = OtherFieldNode,
     inputType = [], outputType = [], extendee_node = 0, extendee_span = no_span, tag_span = no_span,
     type_span = no_span, output_span = no_span\<rparr>"

definition msg_X :: "linfo msgp" where
  "msg_X = MsgP ''a.X'' no_info [] [] [] [] []"

definition common_file :: lfile where
  "common_file = LFile ''common.proto'' ''a'' True
     \<lparr>fpackage = ''a'', fmessages = [msg_X], fenums = [], fexts = [], fservices = []\<rparr>
     [''a.X'' \<mapsto> Desc ''common.proto'' ''a'' '''' (EMessage msg_X)] [] []"

definition msg_M :: "linfo msgp" where
  "msg_M = MsgP ''a.b.M'' no_info [] [] [] [] []"

definition enum_E :: "linfo enump" where
  "enum_E = EnumP ''a.b.E'' no_info [Leaf ''a.b.X'' no_info]"

definition main_file :: lfile where
  "main_file = LFile ''main.proto'' ''a.b'' True
     \<lparr>fpackage = ''a.b'', fmessages = [msg_M], fenums = [enum_E], fexts = [], fservices = []\<rparr>
     [''a.b.M'' \<mapsto> Desc ''main.proto'' ''a.b'' '''' (EMessage msg_M),
      ''a.b.E'' \<mapsto> Desc ''main.proto'' ''a.b'' '''' (EEnum enum_E),
      ''a.b.X'' \<mapsto> Desc ''main.proto'' ''a.b'' ''a.b.E'' (EValue (Leaf ''a.b.X'' no_info))]
     [(''common.proto'', False)] [common_file]"

lemma example_files: "imports_found main_file" "paths_unique main_file"
  by (simp_all add: main_file_def common_file_def imports_found_def paths_unique_def FindImportByPath_def
      FindFileByPath_def)

lemma example_available: "available main_file f \<longleftrightarrow> f = main_file \<or> f = common_file"
proof -
  have "search_order True common_file = [common_file]"
    by (subst search_order.simps) (simp add: common_file_def)
  then have "visible_files main_file = [main_file, common_file]"
    by (subst search_order.simps) (simp add: main_file_def FindImportByPath_def FindFileByPath_def,
        simp add: common_file_def)
  then show ?thesis unfolding available_search [symmetric] by simp
qed

theorem available_elements_witness:
  "imports_found main_file \<and> paths_unique main_file \<and> available main_file common_file \<and>
   (\<exists>d used'. fileResolver_FindDescriptorByName main_file ''a.X'' (\<lambda>_. {}) = Some (Inr d, used'))"
proof -
  obtain res used' where run: "fileResolver_FindDescriptorByName main_file ''a.X'' (\<lambda>_. {}) = Some (res, used')"
    and res: "case res of Inr d \<Rightarrow> \<exists>f. available main_file f \<and> FindDescriptorByName f ''a.X'' = Some d
      | Inl e \<Rightarrow> e = NotFound \<and> (\<forall>f. available main_file f \<longrightarrow> FindDescriptorByName f ''a.X'' = None)"
    using available_elements [OF example_files, of "''a.X''" "\<lambda>_. {}"] by blast
  have "FindDescriptorByName common_file ''a.X'' \<noteq> None"
    by (simp add: FindDescriptorByName_def common_file_def trim_dot_def)
  with res have "\<exists>d. res = Inr d" by (auto simp: example_available split: sum.splits)
  with run example_files example_available show ?thesis by blast
qed

lemma example_owns: "owns_messages main_file [''a.b.M'']"
  by (auto simp: owns_messages_def example_available resolveElementInFile_def FindDescriptorByName_def
      common_file_def trim_dot_def matchesPkgNamespace_def)

theorem resolve_cpp_scoping_witness:
  "owns_messages main_file (nested_names ''a.b'' [''M'']) \<and>
   (\<exists>res used'. resolve main_file ''X'' True [FileScope, MessageScope ''a.b.M''] (\<lambda>_. {}) = Some (res, used') \<and>
     scoping_rule (lookup_visible main_file) ''a.b.M'' ''X''
       (\<not> type_hidden (lookup_visible main_file) ''a.b'' ''a.b.M'' ''X'') res)"
proof -
  have pkg: "lf_package main_file = ''a.b''" by (simp add: main_file_def)
  have nn: "nested_names (lf_package main_file) [''M''] = [''a.b.M'']" "enclosing (lf_package main_file) [''M''] = ''a.b.M''"
    by (simp_all add: pkg below_scope_def enclosing_def)
  have "owns_messages main_file (nested_names (lf_package main_file) [''M''])"
    "list_all simple_name [''M'']" "\<not> absolute (lf_package main_file)" "\<not> absolute ''X''"
    unfolding nn by (simp_all add: example_owns pkg simple_name_def absolute_Cons)
  from resolve_cpp_scoping [OF example_files this, of True "\<lambda>_. {}"] example_owns
  show ?thesis unfolding nn by (simp add: below_scope_def pkg)
qed

lemma example_keyed: "keyed main_file"
  unfolding keyed_def example_available
  by (auto simp: main_file_def common_file_def msg_X_def msg_M_def enum_E_def absolute_Cons split: if_splits)

lemma example_resolves:
  "map_option fst (resolve main_file ''X'' False [FileScope] (\<lambda>_. {})) =
     Some (Some (Desc ''main.proto'' ''a.b'' ''a.b.E'' (EValue (Leaf ''a.b.X'' no_info))))"
  by code_simp

theorem qualified_name_stable_witness:
  "\<exists>d used1 used'. resolve main_file ''X'' False [FileScope] (\<lambda>_. {}) = Some (Some d, used1) \<and>
     resolve main_file (''.'' @ dFullName d) False [FileScope] used1 = Some (Some d, used') \<and> dFullName d = ''a.b.X''"
proof -
  let ?d = "Desc ''main.proto'' ''a.b'' ''a.b.E'' (EValue (Leaf ''a.b.X'' no_info))"
  obtain used1 where run: "resolve main_file ''X'' False [FileScope] (\<lambda>_. {}) = Some (Some ?d, used1)"
    using example_resolves by auto
  have "\<not> absolute (lf_package main_file)" "list_all scope_ok [FileScope]" "\<not> HasPrefix ''X'' ''..''" "\<not> isSentinelDescriptor ?d"
    by (simp_all add: main_file_def absolute_Cons scope_ok_def HasPrefix_def isSentinelDescriptor_def)
  from qualified_name_stable [OF example_files example_keyed this(1,2,3) run this(4), of False "[FileScope]" used1] run
  show ?thesis by auto
qed

text \<open>A reference to a type that has a match of another kind in the file's own package is not looked up in the
  parent packages: \<open>fileScope\<close> stops at the first package that has the name, and \<open>resolve\<close> only moves on
  from scope to scope. In the example, the type reference \<open>X\<close> resolves to the enum value \<open>a.b.X\<close> (and is
  reported as an error), although the message \<open>a.X\<close> is visible in the parent package; without the enum
  value it would be found.\<close>

lemma types_not_searched_in_parent_packages:
  "map_option (map_option dFullName \<circ> fst) (resolve main_file ''X'' True [FileScope] (\<lambda>_. {})) = Some (Some ''a.b.X'') \<and>
   map_option (map_option isType \<circ> fst) (resolve main_file ''X'' True [FileScope] (\<lambda>_. {})) = Some (Some False) \<and>
   map_option (map_option isType \<circ> fst) (resolve main_file ''a.X'' True [FileScope] (\<lambda>_. {})) = Some (Some True) \<and>
   map_option isType (in_scope (lookup_visible main_file) ''X'' ''a'') = Some True"
  by code_simp

section \<open>Unused imports\<close>

definition drop_import :: "string \<Rightarrow> lfile \<Rightarrow> lfile" where
  "drop_import p r = LFile (lf_path r) (lf_package r) (lf_result r) (lf_file r) (lf_descs r)
     (filter (\<lambda>imp. fst imp \<noteq> p) (lf_imports r)) (lf_deps r)"

lemma drop_import_simps [simp]:
  "lf_path (drop_import p r) = lf_path r" "lf_package (drop_import p r) = lf_package r"
  "lf_result (drop_import p r) = lf_result r" "lf_descs (drop_import p r) = lf_descs r"
  "FindImportByPath (drop_import p r) = FindImportByPath r" "resolveElementInFile n (drop_import p r) = resolveElementInFile n r"
  "lf_imports (drop_import p r) = filter (\<lambda>imp. fst imp \<noteq> p) (lf_imports r)"
  by (simp_all add: drop_import_def FindImportByPath_def resolveElementInFile_def FindDescriptorByName_def fun_eq_iff)

text \<open>Below an import nothing is marked as used, so linking a file only ever marks its own imports.\<close>

lemma public_search_marks_nothing:
  shows "resolveInFile f pub checked fn used = Some (res, used') \<Longrightarrow> pub \<Longrightarrow> used' = used"
    and "resolve_imports f imps pub checked fn used = Some (res, used') \<Longrightarrow> pub \<Longrightarrow> used' = used"
proof (induction f pub checked fn used and f imps pub checked fn used
    arbitrary: res used' and res used' rule: resolveInFile_resolve_imports.induct)
  case (1 f pub checked fn used)
  from 1(2,3) show ?case
    by (subst (asm) resolveInFile.simps) (auto split: if_splits sum.splits rerr.splits dest: 1(1))
next
  case (3 f imp imps pub checked fn used)
  show ?case
  proof (cases "pub \<and> \<not> snd imp")
    case True
    with 3(4,5) 3(1) [OF True] show ?thesis by (subst (asm) resolve_imports.simps) auto
  next
    case False
    with 3(4) obtain g res1 used1 where g: "FindImportByPath f (fst imp) = Some g"
      and sub: "resolveInFile g True checked fn used = Some (res1, used1)"
      by (subst (asm) resolve_imports.simps) (auto split: option.splits)
    have u1: "used1 = used" using 3(2) [OF False g sub] by simp
    show ?thesis
    proof (cases "res1 = Inl NotFound")
      case True
      with 3(4) False g sub have "resolve_imports f imps pub checked fn used1 = Some (res, used')"
        by (subst (asm) resolve_imports.simps) simp
      from 3(3) [OF False g sub refl _ _ this 3(5)] True u1 show ?thesis by simp
    next
      case res1: False
      with 3(4,5) False g sub u1 show ?thesis
        by (subst (asm) resolve_imports.simps) (auto split: sum.splits rerr.splits)
    qed
  qed
qed (simp add: resolve_imports.simps)

text \<open>A search without errors other than \<open>NotFound\<close> that leaves an import unmarked does not depend on it.\<close>

definition plain :: "(lfile \<Rightarrow> rerr + 'a) \<Rightarrow> bool" where
  "plain fn \<longleftrightarrow> (\<forall>f m. fn f \<noteq> Inl (OtherError m))"

lemma plain_search:
  shows "plain fn \<Longrightarrow> resolveInFile f pub checked fn used \<noteq> Some (Inl (OtherError m), used')"
    and "plain fn \<Longrightarrow> resolve_imports f imps pub checked fn used \<noteq> Some (Inl (OtherError m), used')"
proof (induction f pub checked fn used and f imps pub checked fn used
    arbitrary: used' and used' rule: resolveInFile_resolve_imports.induct)
  case (1 f pub checked fn used)
  then show ?case by (subst resolveInFile.simps) (auto simp: plain_def split: sum.split rerr.split)
next
  case (3 f imp imps pub checked fn used)
  show ?case
  proof (cases "pub \<and> \<not> snd imp")
    case True
    with 3(1) [OF True 3(4)] show ?thesis by (subst resolve_imports.simps) simp
  next
    case False
    show ?thesis
    proof
      assume run: "resolve_imports f (imp # imps) pub checked fn used = Some (Inl (OtherError m), used')"
      with False obtain g res1 used1 where g: "FindImportByPath f (fst imp) = Some g"
        and sub: "resolveInFile g True checked fn used = Some (res1, used1)"
        by (subst (asm) resolve_imports.simps) (auto split: option.splits)
      show False
        using run False g sub 3(2) [OF False g 3(4)] 3(3) [OF False g sub refl _ _ 3(4)]
        by (subst (asm) resolve_imports.simps) (auto split: sum.splits rerr.splits)
    qed
  qed
qed (simp add: resolve_imports.simps)

lemma imports_without:
  assumes "resolve_imports r imps False checked fn used = Some (res, used')" "p \<notin> used' (lf_path r)"
    "plain fn" "lf_result r" "(p, True) \<notin> set imps"
  shows "resolve_imports (drop_import p r) (filter (\<lambda>imp. fst imp \<noteq> p) imps) False checked fn used = Some (res, used')"
  using assms(1,2,5)
proof (induction imps)
  case Nil
  then show ?case by (simp add: resolve_imports.simps)
next
  case (Cons imp imps)
  obtain g res1 where g: "FindImportByPath r (fst imp) = Some g"
    and sub: "resolveInFile g True checked fn used = Some (res1, used)"
    using Cons.prems(1) public_search_marks_nothing(1) [of _ True]
    by (subst (asm) resolve_imports.simps) (force split: option.splits)
  have no_err: "res1 \<noteq> Inl (OtherError m)" for m using plain_search(1) [OF assms(3)] sub by blast
  show ?case
  proof (cases "res1 = Inl NotFound")
    case True
    with Cons.prems(1) g sub have "resolve_imports r imps False checked fn used = Some (res, used')"
      by (subst (asm) resolve_imports.simps) simp
    from Cons.IH [OF this] Cons.prems(2,3) True g sub show ?thesis
      by (cases "fst imp = p") (simp_all add: resolve_imports.simps(2))
  next
    case False
    then obtain x where x: "res1 = Inr x" using no_err by (cases res1) (metis rerr.exhaust)+
    with Cons.prems(1) g sub have out: "res = Inr x"
      "used' = (if \<not> snd imp \<and> lf_result r then markUsed (lf_path r) (fst imp) used else used)"
      by (subst (asm) resolve_imports.simps, simp)+
    have "fst imp \<noteq> p"
      using Cons.prems(2,3) out(2) assms(4) by (cases imp) (auto simp: markUsed_def split: if_splits)
    with out x g sub show ?thesis by (simp add: resolve_imports.simps(2))
  qed
qed

lemma element_without:
  assumes "resolveElement r n used = Some (d, used')" "p \<notin> used' (lf_path r)" "lf_result r" "(p, True) \<notin> set (lf_imports r)"
  shows "resolveElement (drop_import p r) n used = Some (d, used')"
proof -
  let ?fn = "\<lambda>f. case resolveElementInFile (trim_dot n) f of Some d \<Rightarrow> Inr d | None \<Rightarrow> Inl NotFound"
  obtain res where run: "resolveInFile r False [] ?fn used = Some (res, used')"
    and d: "d = (case res of Inr d \<Rightarrow> Some d | Inl _ \<Rightarrow> None)"
    using assms(1) by (auto simp: resolveElement_def split: option.splits sum.splits)
  have "resolveInFile (drop_import p r) False [] ?fn used = Some (res, used')"
  proof (cases "resolveElementInFile (trim_dot n) r")
    case None
    with run have "resolve_imports r (lf_imports r) False [lf_path r] ?fn used = Some (res, used')"
      by (simp add: resolveInFile.simps)
    from imports_without [OF this assms(2) _ assms(3,4)] None show ?thesis
      by (subst resolveInFile.simps) (simp add: plain_def split: option.split)
  next
    case (Some x)
    with run show ?thesis by (auto simp: resolveInFile.simps)
  qed
  with d show ?thesis by (simp add: resolveElement_def split: sum.split)
qed

lemma imports_used_grow:
  "resolve_imports r imps False checked fn used = Some (res, used') \<Longrightarrow> used (lf_path r) \<subseteq> used' (lf_path r)"
proof (induction imps)
  case (Cons imp imps)
  obtain g res1 where g: "FindImportByPath r (fst imp) = Some g"
    and sub: "resolveInFile g True checked fn used = Some (res1, used)"
    using Cons.prems public_search_marks_nothing(1) [of _ True]
    by (subst (asm) resolve_imports.simps) (force split: option.splits)
  with Cons show ?case
    by (auto simp: resolve_imports.simps(2) markUsed_def split: sum.splits rerr.splits if_splits)
qed (simp add: resolve_imports.simps(1))

lemma element_used_grows:
  "resolveElement r n used = Some (d, used') \<Longrightarrow> used (lf_path r) \<subseteq> used' (lf_path r)"
  by (auto simp: resolveElement_def resolveInFile.simps split: option.splits sum.splits dest!: imports_used_grow)

text \<open>The query \<open>q'\<close> answers like \<open>q\<close> whenever \<open>q\<close> leaves the import \<open>p\<close> of the file unmarked.\<close>

definition independent :: "string \<Rightarrow> string \<Rightarrow> query \<Rightarrow> query \<Rightarrow> bool" where
  "independent file p q q' \<longleftrightarrow> (\<forall>used d used'. q used = Some (d, used') \<longrightarrow>
     used file \<subseteq> used' file \<and> (p \<notin> used' file \<longrightarrow> q' used = Some (d, used')))"

lemma independent_answer: "independent fl p (\<lambda>used. Some (d, used)) (\<lambda>used. Some (d, used))"
  by (simp add: independent_def)

lemma independentD:
  "independent fl p q q' \<Longrightarrow> q used = Some (d, used') \<Longrightarrow> used fl \<subseteq> used' fl"
  "independent fl p q q' \<Longrightarrow> q used = Some (d, used') \<Longrightarrow> p \<notin> used' fl \<Longrightarrow> q' used = Some (d, used')"
  by (auto simp: independent_def)

text \<open>Queries in sequence, where the second one depends on the answer of the first.\<close>

lemma independent_bind:
  assumes "independent fl p q q'" "\<And>d. independent fl p (k d) (k' d)"
  shows "independent fl p (\<lambda>used. case q used of None \<Rightarrow> None | Some (d, used) \<Rightarrow> k d used)
    (\<lambda>used. case q' used of None \<Rightarrow> None | Some (d, used) \<Rightarrow> k' d used)"
  unfolding independent_def
proof (intro allI impI)
  fix used d used'
  assume "(case q used of None \<Rightarrow> None | Some (d, used) \<Rightarrow> k d used) = Some (d, used')"
  then obtain d1 used1 where 1: "q used = Some (d1, used1)" and 2: "k d1 used1 = Some (d, used')"
    by (auto split: option.splits)
  note grow = independentD(1) [OF assms(1) 1] independentD(1) [OF assms(2) 2]
  then have "p \<notin> used' fl \<Longrightarrow> p \<notin> used1 fl" by blast
  with grow independentD(2) [OF assms(1) 1] independentD(2) [OF assms(2) 2]
  show "used fl \<subseteq> used' fl \<and> (p \<notin> used' fl \<longrightarrow> (case q' used of None \<Rightarrow> None | Some (d, used) \<Rightarrow> k' d used) = Some (d, used'))"
    by auto
qed

lemma independent_relative:
  assumes "\<And>n. independent fl p (q n) (q' n)"
  shows "independent fl p (resolveElementRelative n1 n q) (resolveElementRelative n1 n q')"
proof -
  define k where "k q = (\<lambda>d. case d of None \<Rightarrow> (\<lambda>used. Some (None, used)) | Some d \<Rightarrow>
      if n1 = n then (\<lambda>used. Some (Some d, used))
      else if \<not> isAggregateDescriptor d then (\<lambda>used. Some (None, used))
      else (\<lambda>used. case q n used of None \<Rightarrow> None
          | Some (d, used) \<Rightarrow> Some (Some (case d of None \<Rightarrow> Sentinel n | Some d \<Rightarrow> d), used)))" for q :: "full_name \<Rightarrow> query"
  have eq: "resolveElementRelative n1 n q = (\<lambda>used. case q n1 used of None \<Rightarrow> None | Some (d, used) \<Rightarrow> k q d used)" for q
    by (auto simp: resolveElementRelative_def k_def fun_eq_iff split: option.split)
  have "independent fl p (k q d) (k q' d)" for d
    by (cases d) (auto simp: k_def independent_answer intro!: independent_bind [OF assms] independent_answer)
  then show ?thesis unfolding eq by (intro independent_bind assms)
qed

lemma independent_element:
  assumes "lf_result r" "(p, True) \<notin> set (lf_imports r)"
  shows "independent (lf_path r) p (resolveElement r n) (resolveElement (drop_import p r) n)"
  unfolding independent_def using element_without [OF _ _ assms] element_used_grows by blast

lemma independent_scope:
  assumes "lf_result r" "(p, True) \<notin> set (lf_imports r)"
  shows "independent (lf_path r) p (apply_scope r sc f n) (apply_scope (drop_import p r) sc f n)"
proof (cases sc)
  case FileScope
  have "independent (lf_path r) p (file_scope_loop r f n ps) (file_scope_loop (drop_import p r) f n ps)" for ps
  proof (induction ps)
    case Nil
    show ?case by (simp add: independent_answer [unfolded fun_eq_iff] independent_def)
  next
    case (Cons pre ps)
    let ?n1 = "if pre = [] then n else pre @ ''.'' @ f" and ?n = "if pre = [] then n else pre @ ''.'' @ n"
    have step: "file_scope_loop x f n (pre # ps) = (\<lambda>used. case resolveElementRelative ?n1 ?n (resolveElement x) used of
        None \<Rightarrow> None | Some (d, used) \<Rightarrow> (case d of Some d \<Rightarrow> (\<lambda>used. Some (Some d, used)) | None \<Rightarrow> file_scope_loop x f n ps) used)" for x
      by (auto simp: fun_eq_iff split: option.split)
    show ?case unfolding step
      by (intro independent_bind independent_relative independent_element assms)
         (auto split: option.split intro: Cons independent_answer)
  qed
  then show ?thesis using FileScope by (simp add: fileScope_def)
next
  case (MessageScope m)
  have "messageScope (drop_import p r) m f n = messageScope r m f n" by (simp add: messageScope_def)
  then show ?thesis using MessageScope
    by (simp add: messageScope_def) (intro independent_relative independent_answer)
qed

lemma independent_loop:
  assumes "lf_result r" "(p, True) \<notin> set (lf_imports r)"
  shows "independent (lf_path r) p (resolve_loop r f n onlyTypes scs g) (resolve_loop (drop_import p r) f n onlyTypes scs g)"
proof (induction scs arbitrary: g)
  case Nil
  show ?case by (simp add: independent_def)
next
  case (Cons sc scs)
  have step: "resolve_loop x f n onlyTypes (sc # scs) g = (\<lambda>used. case apply_scope x sc f n used of
      None \<Rightarrow> None | Some (d, used) \<Rightarrow>
        (case d of None \<Rightarrow> resolve_loop x f n onlyTypes scs g
         | Some d \<Rightarrow> if \<not> onlyTypes \<or> isType d \<or> f \<noteq> n then (\<lambda>used. Some (Some d, used))
             else resolve_loop x f n onlyTypes scs (case g of None \<Rightarrow> Some d | Some g \<Rightarrow> Some g)) used)" for x
    by (auto simp: fun_eq_iff split: option.split)
  show ?case unfolding step
  proof (intro independent_bind independent_scope assms)
    fix d
    show "independent (lf_path r) p
      (case d of None \<Rightarrow> resolve_loop r f n onlyTypes scs g
         | Some d \<Rightarrow> if \<not> onlyTypes \<or> isType d \<or> f \<noteq> n then (\<lambda>used. Some (Some d, used))
             else resolve_loop r f n onlyTypes scs (case g of None \<Rightarrow> Some d | Some g \<Rightarrow> Some g))
      (case d of None \<Rightarrow> resolve_loop (drop_import p r) f n onlyTypes scs g
         | Some d \<Rightarrow> if \<not> onlyTypes \<or> isType d \<or> f \<noteq> n then (\<lambda>used. Some (Some d, used))
             else resolve_loop (drop_import p r) f n onlyTypes scs (case g of None \<Rightarrow> Some d | Some g \<Rightarrow> Some g))"
      using Cons independent_answer
      by (cases d; cases "\<not> onlyTypes \<or> isType (the d) \<or> f \<noteq> n") (simp_all only: option.case option.sel if_True if_False)
  qed
qed

text \<open>C21: a non-public import of the linked file that was not marked as used is not needed: every reference that
  was resolved without marking it resolves in the same way, to the same element and marking the same imports, when
  the import is removed from the file. (Public imports are never marked.)\<close>

theorem unused_import_irrelevant:
  assumes "lf_result r" "(p, True) \<notin> set (lf_imports r)"
    "resolve r name onlyTypes scopes used = Some (d, used')" "p \<notin> used' (lf_path r)"
  shows "resolve (drop_import p r) name onlyTypes scopes used = Some (d, used')"
  using independentD(2) [OF independent_element [OF assms(1,2)], of "drop 1 name"]
    independentD(2) [OF independent_loop [OF assms(1,2)]] assms(3,4)
  by (auto simp: resolve_def split: if_splits)

text \<open>In the example, the message \<open>a.b.M\<close> is found in the file itself, and the import of \<open>common.proto\<close> stays
  unmarked.\<close>

lemma example_leaves_import:
  "(case resolve main_file ''M'' True [FileScope] (\<lambda>_. {}) of
      Some (Some d, used) \<Rightarrow> dFullName d = ''a.b.M'' \<and> ''common.proto'' \<notin> used ''main.proto'' | _ \<Rightarrow> False) \<and>
   lf_imports (drop_import ''common.proto'' main_file) = []"
  by code_simp

theorem unused_import_irrelevant_witness:
  "\<exists>d used'. resolve main_file ''M'' True [FileScope] (\<lambda>_. {}) = Some (Some d, used') \<and> dFullName d = ''a.b.M'' \<and>
     resolve (drop_import ''common.proto'' main_file) ''M'' True [FileScope] (\<lambda>_. {}) = Some (Some d, used') \<and>
     lf_imports (drop_import ''common.proto'' main_file) = []"
proof -
  obtain d used' where run: "resolve main_file ''M'' True [FileScope] (\<lambda>_. {}) = Some (Some d, used')"
    and "dFullName d = ''a.b.M''" "''common.proto'' \<notin> used' ''main.proto''"
    using example_leaves_import by (auto split: option.splits)
  moreover from this(3) have "''common.proto'' \<notin> used' (lf_path main_file)" by (simp add: main_file_def)
  moreover have "lf_result main_file" "(''common.proto'', True) \<notin> set (lf_imports main_file)"
    by (simp_all add: main_file_def)
  ultimately show ?thesis
    using unused_import_irrelevant [of main_file "''common.proto''", OF _ _ run] example_leaves_import by blast
qed

end
