(* ===== verification/Create.thy ===== *)
theory Create
  imports Resolve
begin

text \<open>
  Creating the descriptors of a result: \<open>linker/pool.go\<close>, \<open>createDescendants\<close> of \<open>linker/resolve.go\<close> and
  the \<open>create*\<close> methods of \<open>linker/descriptors.go\<close>.

  The descriptors of each kind are allocated as one slice per file, which the \<open>get*\<close> methods of the pool
  cut from the front; only the lengths of the remaining slices matter here, and cutting more than is left
  panics (\<open>None\<close>). Creating a descriptor registers it under its full name, last one first served; the
  descriptor is a pointer, so it is registered with the nested elements it has in the end.
\<close>

section \<open>The allocation pool\<close>

record allocPool =
  numMessages :: nat
  numFields :: nat
  numOneofs :: nat
  numEnums :: nat
  numEnumValues :: nat
  numExtensions :: nat
  numServices :: nat
  numMethods :: nat

definition no_elements :: allocPool where
  "no_elements = \<lparr>numMessages = 0, numFields = 0, numOneofs = 0, numEnums = 0, numEnumValues = 0,
     numExtensions = 0, numServices = 0, numMethods = 0\<rparr>"

primrec count_enum_values :: "'a enump list \<Rightarrow> allocPool \<Rightarrow> allocPool" where
  "count_enum_values [] p = p"
| "count_enum_values (en # ens) p =
     count_enum_values ens (p\<lparr>numEnumValues := numEnumValues p + length (en_values en)\<rparr>)"

definition countElementsInEnums :: "'a enump list \<Rightarrow> allocPool \<Rightarrow> allocPool" where
  "countElementsInEnums ens p = count_enum_values ens (p\<lparr>numEnums := numEnums p + length ens\<rparr>)"

fun count_message :: "'a msgp \<Rightarrow> allocPool \<Rightarrow> allocPool"
and count_messages :: "'a msgp list \<Rightarrow> allocPool \<Rightarrow> allocPool" where
  "count_message (MsgP n d flds oneofs nested enums extns) p =
     (let p = p\<lparr>numFields := numFields p + length flds\<rparr>;
          p = p\<lparr>numOneofs := numOneofs p + length oneofs\<rparr>;
          p = count_messages nested (p\<lparr>numMessages := numMessages p + length nested\<rparr>);
          p = countElementsInEnums enums p
      in p\<lparr>numExtensions := numExtensions p + length extns\<rparr>)"
| "count_messages [] p = p"
| "count_messages (m # ms) p = count_messages ms (count_message m p)"

definition countElementsInMessages :: "'a msgp list \<Rightarrow> allocPool \<Rightarrow> allocPool" where
  "countElementsInMessages ms p = count_messages ms (p\<lparr>numMessages := numMessages p + length ms\<rparr>)"

definition countElements :: "'a filep \<Rightarrow> allocPool \<Rightarrow> allocPool" where
  "countElements file p =
     (let p = countElementsInMessages (fmessages file) p;
          p = countElementsInEnums (fenums file) p
      in p\<lparr>numExtensions := numExtensions p + length (fexts file), numServices := numServices p + length (fservices file),
            numMethods := numMethods p + sum_list (map (\<lambda>svc. length (svc_methods svc)) (fservices file))\<rparr>)"

definition newAllocPool :: "'a filep \<Rightarrow> allocPool" where
  "newAllocPool file = countElements file no_elements"

text \<open>\<open>allocated := s[:count]; s = s[count:]\<close> on a slice of length \<open>n\<close>.\<close>

definition cut :: "nat \<Rightarrow> nat \<Rightarrow> nat option" where
  "cut count n = (if count \<le> n then Some (n - count) else None)"

definition getMessages :: "nat \<Rightarrow> allocPool \<Rightarrow> allocPool option" where
  "getMessages count p = map_option (\<lambda>n. p\<lparr>numMessages := n\<rparr>) (cut count (numMessages p))"
definition getFields :: "nat \<Rightarrow> allocPool \<Rightarrow> allocPool option" where
  "getFields count p = map_option (\<lambda>n. p\<lparr>numFields := n\<rparr>) (cut count (numFields p))"
definition getOneofs :: "nat \<Rightarrow> allocPool \<Rightarrow> allocPool option" where
  "getOneofs count p = map_option (\<lambda>n. p\<lparr>numOneofs := n\<rparr>) (cut count (numOneofs p))"
definition getEnums :: "nat \<Rightarrow> allocPool \<Rightarrow> allocPool option" where
  "getEnums count p = map_option (\<lambda>n. p\<lparr>numEnums := n\<rparr>) (cut count (numEnums p))"
definition getEnumValues :: "nat \<Rightarrow> allocPool \<Rightarrow> allocPool option" where
  "getEnumValues count p = map_option (\<lambda>n. p\<lparr>numEnumValues := n\<rparr>) (cut count (numEnumValues p))"
definition getExtensions :: "nat \<Rightarrow> allocPool \<Rightarrow> allocPool option" where
  "getExtensions count p = map_option (\<lambda>n. p\<lparr>numExtensions := n\<rparr>) (cut count (numExtensions p))"
definition getServices :: "nat \<Rightarrow> allocPool \<Rightarrow> allocPool option" where
  "getServices count p = map_option (\<lambda>n. p\<lparr>numServices := n\<rparr>) (cut count (numServices p))"
definition getMethods :: "nat \<Rightarrow> allocPool \<Rightarrow> allocPool option" where
  "getMethods count p = map_option (\<lambda>n. p\<lparr>numMethods := n\<rparr>) (cut count (numMethods p))"

section \<open>Descriptors with full names\<close>

text \<open>What a descriptor proto becomes: the \<open>fqn\<close>, \<open>parent\<close> and \<open>index\<close> of each descriptor.\<close>

definition linked_leaves :: "string \<Rightarrow> full_name \<Rightarrow> linfo leaf list \<Rightarrow> linfo leaf list" where
  "linked_leaves prefix par ls =
     map (\<lambda>(i, l). Leaf (prefix @ leaf_name l) ((leaf_data l)\<lparr>fparent := par, findex := i\<rparr>)) (enumerate 0 ls)"

definition TrimSuffix :: "string \<Rightarrow> string \<Rightarrow> string" where
  "TrimSuffix s suffix = (if drop (length s - length suffix) s = suffix then take (length s - length suffix) s else s)"

definition linked_enum :: "string \<Rightarrow> linfo enump \<Rightarrow> linfo enump" where
  "linked_enum prefix en =
     (let fqn = prefix @ en_name en
      in EnumP fqn (en_data en) (linked_leaves (TrimSuffix fqn (en_name en)) fqn (en_values en)))"

fun linked_msg :: "string \<Rightarrow> full_name \<Rightarrow> linfo msgp \<Rightarrow> linfo msgp"
and linked_msgs :: "string \<Rightarrow> full_name \<Rightarrow> linfo msgp list \<Rightarrow> linfo msgp list" where
  "linked_msg prefix par (MsgP n d flds oneofs nested enums extns) =
     (let fqn = prefix @ n; prefix = fqn @ ''.''
      in MsgP fqn d (linked_leaves prefix fqn flds) (linked_leaves prefix fqn oneofs)
           (linked_msgs prefix fqn nested) (map (linked_enum prefix) enums) (linked_leaves prefix fqn extns))"
| "linked_msgs prefix par [] = []"
| "linked_msgs prefix par (m # ms) = linked_msg prefix par m # linked_msgs prefix par ms"

definition linked_svc :: "string \<Rightarrow> linfo svcp \<Rightarrow> linfo svcp" where
  "linked_svc prefix svc =
     (let fqn = prefix @ svc_name svc in SvcP fqn (svc_data svc) (linked_leaves (fqn @ ''.'') fqn (svc_methods svc)))"

definition linked_file :: "linfo filep \<Rightarrow> linfo filep" where
  "linked_file file =
     (let prefix = filep_prefix file
      in \<lparr>fpackage = fpackage file, fmessages = linked_msgs prefix [] (fmessages file),
          fenums = map (linked_enum prefix) (fenums file), fexts = linked_leaves prefix [] (fexts file),
          fservices = map (linked_svc prefix) (fservices file)\<rparr>)"

section \<open>Creation\<close>

record cstate =
  cpool :: allocPool
  cdescs :: "full_name \<rightharpoonup> descriptor"

type_synonym creator = "cstate \<Rightarrow> cstate option"

definition allocate :: "(allocPool \<Rightarrow> allocPool option) \<Rightarrow> creator" where
  "allocate get st = map_option (\<lambda>p. st\<lparr>cpool := p\<rparr>) (get (cpool st))"

text \<open>\<open>r.descriptors[fqn] = ret\<close>; \<open>mk\<close> makes the descriptor from its parent and element.\<close>

definition register :: "(full_name \<Rightarrow> linfo elem \<Rightarrow> descriptor) \<Rightarrow> full_name \<Rightarrow> linfo elem \<Rightarrow> creator" where
  "register mk par e st = Some (st\<lparr>cdescs := (cdescs st)(FullName e \<mapsto> mk par e)\<rparr>)"

definition seqc :: "creator \<Rightarrow> creator \<Rightarrow> creator" where
  "seqc a b st = Option.bind (a st) b"

primrec allc :: "creator list \<Rightarrow> creator" where
  "allc [] = Some"
| "allc (a # as) = seqc a (allc as)"

abbreviation create_leaves where
  "create_leaves mk get con prefix par ls \<equiv>
     seqc (allocate (get (length ls))) (allc (map (\<lambda>l. register mk par (con l)) (linked_leaves prefix par ls)))"

definition createFields where "createFields mk prefix par ls = create_leaves mk getFields EField prefix par ls"
definition createOneofs where "createOneofs mk prefix par ls = create_leaves mk getOneofs EOneof prefix par ls"
definition createEnumValues where "createEnumValues mk prefix par ls = create_leaves mk getEnumValues EValue prefix par ls"
definition createExtensions where "createExtensions mk prefix par ls = create_leaves mk getExtensions EExtension prefix par ls"
definition createMethods where "createMethods mk prefix par ls = create_leaves mk getMethods EMethod prefix par ls"

definition createEnumDescriptor where
  "createEnumDescriptor mk prefix par en =
     (let fqn = prefix @ en_name en
      in seqc (register mk par (EEnum (linked_enum prefix en)))
           (createEnumValues mk (TrimSuffix fqn (en_name en)) fqn (en_values en)))"

definition createEnums where
  "createEnums mk prefix par ens =
     seqc (allocate (getEnums (length ens))) (allc (map (createEnumDescriptor mk prefix par) ens))"

fun createMessageDescriptor :: "(full_name \<Rightarrow> linfo elem \<Rightarrow> descriptor) \<Rightarrow> string \<Rightarrow> full_name \<Rightarrow> linfo msgp \<Rightarrow> creator"
and create_messages :: "(full_name \<Rightarrow> linfo elem \<Rightarrow> descriptor) \<Rightarrow> string \<Rightarrow> full_name \<Rightarrow> linfo msgp list \<Rightarrow> creator" where
  "createMessageDescriptor mk prefix par (MsgP n d flds oneofs nested enums extns) =
     (let fqn = prefix @ n; m = linked_msg prefix par (MsgP n d flds oneofs nested enums extns);
          prefix = fqn @ ''.''
      in seqc (register mk par (EMessage m))
           (seqc (createFields mk prefix fqn flds)
             (seqc (createOneofs mk prefix fqn oneofs)
               (seqc (seqc (allocate (getMessages (length nested))) (create_messages mk prefix fqn nested))
                 (seqc (createEnums mk prefix fqn enums) (createExtensions mk prefix fqn extns))))))"
| "create_messages mk prefix par [] = Some"
| "create_messages mk prefix par (m # ms) =
     seqc (createMessageDescriptor mk prefix par m) (create_messages mk prefix par ms)"

definition createMessages where
  "createMessages mk prefix par ms = seqc (allocate (getMessages (length ms))) (create_messages mk prefix par ms)"

definition createServiceDescriptor where
  "createServiceDescriptor mk prefix svc =
     (let fqn = prefix @ svc_name svc
      in seqc (register mk [] (EService (linked_svc prefix svc))) (createMethods mk (fqn @ ''.'') fqn (svc_methods svc)))"

definition createServices where
  "createServices mk prefix svcs =
     seqc (allocate (getServices (length svcs))) (allc (map (createServiceDescriptor mk prefix) svcs))"

definition createDescendants :: "string \<Rightarrow> linfo filep \<Rightarrow> cstate option" where
  "createDescendants path file =
     (let prefix = (if fpackage file \<noteq> [] then fpackage file @ ''.'' else []);
          mk = Desc path (fpackage file)
      in seqc (createMessages mk prefix [] (fmessages file))
           (seqc (createEnums mk prefix [] (fenums file))
             (seqc (createExtensions mk prefix [] (fexts file)) (createServices mk prefix (fservices file))))
           \<lparr>cpool = newAllocPool file, cdescs = Map.empty\<rparr>)"

section \<open>What is declared\<close>

text \<open>The elements of a file with the full names of their parents, in the order of a traversal.\<close>

definition decls_enum :: "full_name \<Rightarrow> 'a enump \<Rightarrow> (full_name \<times> 'a elem) list" where
  "decls_enum par en = (par, EEnum en) # map (\<lambda>l. (en_name en, EValue l)) (en_values en)"

fun decls_msg :: "full_name \<Rightarrow> 'a msgp \<Rightarrow> (full_name \<times> 'a elem) list"
and decls_msgs :: "full_name \<Rightarrow> 'a msgp list \<Rightarrow> (full_name \<times> 'a elem) list" where
  "decls_msg par (MsgP n d flds oneofs nested enums extns) =
     (par, EMessage (MsgP n d flds oneofs nested enums extns)) #
       map (\<lambda>l. (n, EField l)) flds @ map (\<lambda>l. (n, EOneof l)) oneofs @ decls_msgs n nested @
       concat (map (decls_enum n) enums) @ map (\<lambda>l. (n, EExtension l)) extns"
| "decls_msgs par [] = []"
| "decls_msgs par (m # ms) = decls_msg par m @ decls_msgs par ms"

definition decls_svc :: "'a svcp \<Rightarrow> (full_name \<times> 'a elem) list" where
  "decls_svc svc = ([], EService svc) # map (\<lambda>l. (svc_name svc, EMethod l)) (svc_methods svc)"

definition decls :: "'a filep \<Rightarrow> (full_name \<times> 'a elem) list" where
  "decls f = decls_msgs [] (fmessages f) @ concat (map (decls_enum []) (fenums f)) @
     map (\<lambda>l. ([], EExtension l)) (fexts f) @ concat (map decls_svc (fservices f))"

lemma elems_leaves [simp]:
  "concat (map entered_elem (ev_leaves prefix path tag con ls)) = map con ls"
proof -
  have "concat (map entered_elem (concat (map (\<lambda>(i, l). let v = (prefix @ leaf_name l, path @ [tag, int i], con l)
      in [Enter v, Exit v]) (enumerate n ls)))) = map con ls" for n
    by (induction ls arbitrary: n) (simp_all add: Let_def)
  then show ?thesis by (simp add: ev_leaves_def)
qed

lemma elems_bracket [simp]:
  "concat (map entered_elem (bracket (n, path, e) es)) = e # concat (map entered_elem es)"
  by (simp add: bracket_def)

lemma elems_enums [simp]:
  "concat (map entered_elem (ev_enums prefix path tag ens)) = map snd (concat (map (decls_enum par) ens))"
proof -
  have "concat (map entered_elem (concat (map (\<lambda>(i, en). ev_enum prefix (path @ [tag, int i]) en) (enumerate n ens)))) =
      map snd (concat (map (decls_enum par) ens))" for n
    by (induction ens arbitrary: n) (simp_all add: ev_enum_def decls_enum_def comp_def)
  then show ?thesis by (simp add: ev_enums_def)
qed

lemma elems_msgs:
  fixes m :: "'a msgp" and ms :: "'a msgp list"
  shows "\<And>par. concat (map entered_elem (ev_message prefix path m)) = map snd (decls_msg par m)"
    and "\<And>par. concat (map entered_elem (ev_messages prefix path tag i ms)) = map snd (decls_msgs par ms)"
proof (induction prefix path m and prefix path tag i ms rule: ev_message_ev_messages.induct)
  case (1 prefix path n d flds oneofs nested enums extns)
  from 1 [OF refl refl, of n] show ?case
    using elems_enums [of "prefix @ n @ ''.''" path Message_EnumType enums n] by (simp add: Let_def comp_def)
qed simp_all

lemma file_elems_decls: "file_elems f = map snd (decls f)"
proof -
  have svcs: "concat (map entered_elem (concat (map (\<lambda>(i, svc). ev_service prefix [File_Service, int i] svc) (enumerate n svcs)))) =
      map snd (concat (map decls_svc svcs))" for prefix n and svcs :: "'a svcp list"
    by (induction svcs arbitrary: n) (simp_all add: ev_service_def decls_svc_def Let_def comp_def)
  show ?thesis
    using elems_enums [of "filep_prefix f" "[]" File_EnumType "fenums f" "[]"]
    by (simp add: file_elems_def ev_file_def decls_def Let_def elems_msgs(2) [of _ _ _ _ _ "[]"] svcs comp_def)
qed

text \<open>The names under which the descriptor protos are traversed are the full names of the descriptors.\<close>

fun entered_name :: "'a visit event \<Rightarrow> full_name list" where
  "entered_name (Enter (n, path, e)) = [n]"
| "entered_name (Exit v) = []"

abbreviation names_of :: "(full_name \<times> 'a elem) list \<Rightarrow> full_name list" where
  "names_of ds \<equiv> map (\<lambda>d. FullName (snd d)) ds"

lemma linked_leaves_names [simp]: "map leaf_name (linked_leaves prefix par ls) = map (\<lambda>l. prefix @ leaf_name l) ls"
  using map_enumerate_snd [of "\<lambda>l. prefix @ leaf_name l" 0 ls] by (simp add: linked_leaves_def comp_def case_prod_beta')

lemma entered_name_leaves [simp]:
  "concat (map entered_name (ev_leaves prefix path tag con ls)) = map (\<lambda>l. prefix @ leaf_name l) ls"
proof -
  have "concat (map entered_name (concat (map (\<lambda>(i, l). let v = (prefix @ leaf_name l, path @ [tag, int i], con l)
      in [Enter v, Exit v]) (enumerate n ls)))) = map (\<lambda>l. prefix @ leaf_name l) ls" for n
    by (induction ls arbitrary: n) (simp_all add: Let_def)
  then show ?thesis by (simp add: ev_leaves_def)
qed

lemma entered_name_bracket [simp]:
  "concat (map entered_name (bracket (n, path, e) es)) = n # concat (map entered_name es)"
  by (simp add: bracket_def)

lemma TrimSuffix_append [simp]: "TrimSuffix (prefix @ s) s = prefix"
  by (simp add: TrimSuffix_def)

lemma linked_leaves_FullNames:
  assumes "\<And>l. FullName (con l) = leaf_name l"
  shows "map (\<lambda>l. FullName (con l)) (linked_leaves prefix par ls) = map (\<lambda>l. prefix @ leaf_name l) ls"
  using linked_leaves_names [of prefix par ls] by (simp add: assms)

lemma names_enums:
  "names_of (concat (map (\<lambda>en. decls_enum par (linked_enum prefix en)) ens)) =
     concat (map entered_name (ev_enums prefix path tag ens))"
proof -
  have "names_of (concat (map (\<lambda>en. decls_enum par (linked_enum prefix en)) ens)) =
      concat (map entered_name (concat (map (\<lambda>(i, en). ev_enum prefix (path @ [tag, int i]) en) (enumerate n ens))))" for n
    by (induction ens arbitrary: n)
       (simp_all add: ev_enum_def decls_enum_def linked_enum_def Let_def comp_def linked_leaves_FullNames)
  then show ?thesis by (simp add: ev_enums_def)
qed

lemma names_msgs:
  shows "\<And>par par'. names_of (decls_msg par (linked_msg prefix par' m)) = concat (map entered_name (ev_message prefix path m))"
    and "\<And>par par'. names_of (decls_msgs par (linked_msgs prefix par' ms)) = concat (map entered_name (ev_messages prefix path tag i ms))"
proof (induction prefix path m and prefix path tag i ms rule: ev_message_ev_messages.induct)
  case (1 prefix path n d flds oneofs nested enums extns)
  from 1 [OF refl refl] show ?case
    by (simp add: Let_def comp_def linked_leaves_FullNames names_enums [of _ "prefix @ n @ ''.''" enums path Message_EnumType])
qed simp_all

lemma linked_names: "map FullName (file_elems (linked_file f)) = concat (map entered_name (ev_file f))"
proof -
  have svcs: "concat (map entered_name (concat (map (\<lambda>(i, svc). ev_service prefix [File_Service, int i] svc) (enumerate n svcs)))) =
      names_of (concat (map decls_svc (map (linked_svc prefix) svcs)))" for prefix n svcs
    by (induction svcs arbitrary: n) (simp_all add: ev_service_def decls_svc_def linked_svc_def Let_def comp_def linked_leaves_FullNames)
  show ?thesis
    unfolding file_elems_decls
    by (simp add: ev_file_def decls_def linked_file_def Let_def comp_def linked_leaves_FullNames
        names_msgs(2) [of _ _ _ _ "[]" File_MessageType 0] names_enums [of _ _ _ "[]" File_EnumType] svcs [simplified comp_def])
qed

section \<open>The pool is exactly consumed\<close>

definition padd :: "allocPool \<Rightarrow> allocPool \<Rightarrow> allocPool" where
  "padd p q = \<lparr>numMessages = numMessages p + numMessages q, numFields = numFields p + numFields q,
     numOneofs = numOneofs p + numOneofs q, numEnums = numEnums p + numEnums q,
     numEnumValues = numEnumValues p + numEnumValues q, numExtensions = numExtensions p + numExtensions q,
     numServices = numServices p + numServices q, numMethods = numMethods p + numMethods q\<rparr>"

lemma padd_assoc: "padd (padd p q) r = padd p (padd q r)"
  and padd_commute: "padd p q = padd q p"
  and padd_left_commute: "padd p (padd q r) = padd q (padd p r)"
  and padd_none [simp]: "padd p no_elements = p" "padd no_elements p = p"
  by (simp_all add: padd_def no_elements_def)

lemmas padd_ac = padd_assoc padd_commute padd_left_commute

text \<open>How many descriptors of each kind the elements need.\<close>

definition only :: "((nat \<Rightarrow> nat) \<Rightarrow> allocPool \<Rightarrow> allocPool) \<Rightarrow> nat \<Rightarrow> allocPool" where
  "only upd n = upd (\<lambda>_. n) no_elements"

definition enum_need :: "'a enump \<Rightarrow> allocPool" where
  "enum_need en = only numEnumValues_update (length (en_values en))"

fun padds :: "allocPool list \<Rightarrow> allocPool" where
  "padds [] = no_elements"
| "padds (p # ps) = padd p (padds ps)"

definition enums_need :: "'a enump list \<Rightarrow> allocPool" where
  "enums_need ens = padd (only numEnums_update (length ens)) (padds (map enum_need ens))"

fun msg_need :: "'a msgp \<Rightarrow> allocPool"
and msgs_need :: "'a msgp list \<Rightarrow> allocPool" where
  "msg_need (MsgP n d flds oneofs nested enums extns) =
     padds [only numFields_update (length flds), only numOneofs_update (length oneofs),
       padd (only numMessages_update (length nested)) (msgs_need nested), enums_need enums,
       only numExtensions_update (length extns)]"
| "msgs_need [] = no_elements"
| "msgs_need (m # ms) = padd (msg_need m) (msgs_need ms)"

definition file_need :: "'a filep \<Rightarrow> allocPool" where
  "file_need f = padds [padd (only numMessages_update (length (fmessages f))) (msgs_need (fmessages f)),
     enums_need (fenums f), only numExtensions_update (length (fexts f)),
     padd (only numServices_update (length (fservices f)))
       (padds (map (\<lambda>svc. only numMethods_update (length (svc_methods svc))) (fservices f)))]"

lemma padd_only:
  "padd p (only numMessages_update k) = p\<lparr>numMessages := numMessages p + k\<rparr>"
  "padd p (only numFields_update k) = p\<lparr>numFields := numFields p + k\<rparr>"
  "padd p (only numOneofs_update k) = p\<lparr>numOneofs := numOneofs p + k\<rparr>"
  "padd p (only numEnums_update k) = p\<lparr>numEnums := numEnums p + k\<rparr>"
  "padd p (only numEnumValues_update k) = p\<lparr>numEnumValues := numEnumValues p + k\<rparr>"
  "padd p (only numExtensions_update k) = p\<lparr>numExtensions := numExtensions p + k\<rparr>"
  "padd p (only numServices_update k) = p\<lparr>numServices := numServices p + k\<rparr>"
  "padd p (only numMethods_update k) = p\<lparr>numMethods := numMethods p + k\<rparr>"
  by (simp_all add: padd_def only_def no_elements_def)

lemma count_enum_values_need: "count_enum_values ens p = padd p (padds (map enum_need ens))"
  by (induction ens arbitrary: p) (simp_all add: enum_need_def padd_only [symmetric] padd_assoc)

lemma countElementsInEnums_need: "countElementsInEnums ens p = padd p (enums_need ens)"
  by (simp add: countElementsInEnums_def enums_need_def count_enum_values_need padd_only [symmetric] padd_assoc)

lemma count_messages_need:
  fixes m :: "'a msgp" and ms :: "'a msgp list"
  shows "\<And>p. count_message m p = padd p (msg_need m)"
    and "\<And>p. count_messages ms p = padd p (msgs_need ms)"
  by (induction m and ms rule: msg_need_msgs_need.induct)
     (simp_all add: Let_def countElementsInEnums_need padd_only [symmetric] padd_assoc)

lemma methods_need:
  "padds (map (\<lambda>svc. only numMethods_update (length (svc_methods svc))) svcs) =
     only numMethods_update (sum_list (map (\<lambda>svc. length (svc_methods svc)) svcs))"
  by (induction svcs) (simp_all add: only_def no_elements_def padd_def)

lemma newAllocPool_need: "newAllocPool f = file_need f"
proof -
  have "newAllocPool f = padd (padd (padd (padd (padd (padd no_elements (only numMessages_update (length (fmessages f)))) (msgs_need (fmessages f)))
      (enums_need (fenums f))) (only numExtensions_update (length (fexts f)))) (only numServices_update (length (fservices f))))
      (only numMethods_update (sum_list (map (\<lambda>svc. length (svc_methods svc)) (fservices f))))"
    by (simp add: newAllocPool_def countElements_def countElementsInMessages_def count_messages_need
        countElementsInEnums_need padd_only Let_def)
  then show ?thesis by (simp add: file_need_def methods_need padd_assoc)
qed

section \<open>Creation registers what is declared\<close>

text \<open>A creator that takes exactly \<open>q\<close> from the pool and registers \<open>regs\<close>, later ones over earlier
  ones.\<close>

definition creates :: "creator \<Rightarrow> allocPool \<Rightarrow> (full_name \<times> descriptor) list \<Rightarrow> bool" where
  "creates c q regs \<longleftrightarrow> (\<forall>p D. c \<lparr>cpool = padd p q, cdescs = D\<rparr> = Some \<lparr>cpool = p, cdescs = D ++ map_of (rev regs)\<rparr>)"

lemma creates_seqc: "creates a q r \<Longrightarrow> creates b q' r' \<Longrightarrow> creates (seqc a b) (padd q q') (r @ r')"
proof -
  assume "creates a q r" "creates b q' r'"
  moreover have "padd p (padd q q') = padd (padd p q') q" for p by (simp add: padd_ac)
  ultimately show ?thesis by (simp add: creates_def seqc_def)
qed

lemma creates_seqc_alloc: "creates a q [] \<Longrightarrow> creates b q' r' \<Longrightarrow> creates (seqc a b) (padd q q') r'"
  using creates_seqc [of a q "[]" b q' r'] by simp

lemma creates_register: "creates (register mk par e) no_elements [(FullName e, mk par e)]"
  by (simp add: creates_def register_def)

lemma creates_seqc_register:
  "creates b q r \<Longrightarrow> creates (seqc (register mk par e) b) q ((FullName e, mk par e) # r)"
  using creates_seqc [OF creates_register, of b q r mk par e] by simp

lemma creates_Some: "creates Some no_elements []"
  by (simp add: creates_def)

lemma creates_allc:
  "(\<And>x. x \<in> set xs \<Longrightarrow> creates (c x) (q x) (r x)) \<Longrightarrow>
   creates (allc (map c xs)) (padds (map q xs)) (concat (map r xs))"
  by (induction xs) (simp_all add: creates_Some creates_seqc)

lemma creates_registers: "creates (allc (map (\<lambda>l. register mk par (con l)) ls)) no_elements (map (\<lambda>l. (FullName (con l), mk par (con l))) ls)"
  by (induction ls) (simp_all add: creates_Some creates_seqc_register)

lemma creates_allocate:
  "creates (allocate (getMessages n)) (only numMessages_update n) []"
  "creates (allocate (getFields n)) (only numFields_update n) []"
  "creates (allocate (getOneofs n)) (only numOneofs_update n) []"
  "creates (allocate (getEnums n)) (only numEnums_update n) []"
  "creates (allocate (getEnumValues n)) (only numEnumValues_update n) []"
  "creates (allocate (getExtensions n)) (only numExtensions_update n) []"
  "creates (allocate (getServices n)) (only numServices_update n) []"
  "creates (allocate (getMethods n)) (only numMethods_update n) []"
  by (simp_all add: creates_def allocate_def cut_def padd_only getMessages_def getFields_def getOneofs_def
      getEnums_def getEnumValues_def getExtensions_def getServices_def getMethods_def)

abbreviation regs :: "(full_name \<Rightarrow> linfo elem \<Rightarrow> descriptor) \<Rightarrow> (full_name \<times> linfo elem) list \<Rightarrow> (full_name \<times> descriptor) list" where
  "regs mk ds \<equiv> map (\<lambda>(par, e). (FullName e, mk par e)) ds"

lemma creates_leaves:
  assumes "creates (allocate (get (length ls))) q []"
  shows "creates (create_leaves mk get con prefix par ls) q
    (regs mk (map (\<lambda>l. (par, con l)) (linked_leaves prefix par ls)))"
  using creates_seqc_alloc [OF assms creates_registers [of mk par con "linked_leaves prefix par ls"]] by (simp add: comp_def)

lemmas creates_kinds =
  creates_leaves [where get = getFields and con = EField, OF creates_allocate(2), folded createFields_def]
  creates_leaves [where get = getOneofs and con = EOneof, OF creates_allocate(3), folded createOneofs_def]
  creates_leaves [where get = getEnumValues and con = EValue, OF creates_allocate(5), folded createEnumValues_def]
  creates_leaves [where get = getExtensions and con = EExtension, OF creates_allocate(6), folded createExtensions_def]
  creates_leaves [where get = getMethods and con = EMethod, OF creates_allocate(8), folded createMethods_def]

lemma creates_enum:
  "creates (createEnumDescriptor mk prefix par en) (enum_need en) (regs mk (decls_enum par (linked_enum prefix en)))"
  using creates_seqc_register [OF creates_kinds(3) [of mk prefix "prefix @ en_name en" "en_values en"], of mk par "EEnum (linked_enum prefix en)"]
  by (simp add: createEnumDescriptor_def enum_need_def decls_enum_def linked_enum_def Let_def)

lemma creates_enums:
  "creates (createEnums mk prefix par ens) (enums_need ens) (regs mk (concat (map (decls_enum par) (map (linked_enum prefix) ens))))"
  using creates_seqc_alloc [OF creates_allocate(4) creates_allc [of ens "createEnumDescriptor mk prefix par" enum_need, OF creates_enum], of "length ens"]
  by (simp add: createEnums_def enums_need_def map_concat comp_def)

lemma creates_msgs:
  fixes m :: "linfo msgp" and ms :: "linfo msgp list"
  shows "creates (createMessageDescriptor mk prefix par m) (msg_need m) (regs mk (decls_msg par (linked_msg prefix par m)))"
    and "creates (create_messages mk prefix par ms) (msgs_need ms) (regs mk (decls_msgs par (linked_msgs prefix par ms)))"
proof (induction mk prefix par m and mk prefix par ms rule: createMessageDescriptor_create_messages.induct)
  case (1 mk prefix par n d flds oneofs nested enums extns)
  let ?m = "linked_msg prefix par (MsgP n d flds oneofs nested enums extns)"
  let ?fqn = "prefix @ n" and ?p = "prefix @ n @ ''.''"
  have nested: "creates (create_messages mk ?p ?fqn nested) (msgs_need nested) (regs mk (decls_msgs ?fqn (linked_msgs ?p ?fqn nested)))"
    using 1 [OF refl refl refl] by simp
  note parts = creates_seqc [OF creates_kinds(1) [of mk ?p ?fqn flds]
    creates_seqc [OF creates_kinds(2) [of mk ?p ?fqn oneofs]
      creates_seqc [OF creates_seqc_alloc [OF creates_allocate(1) [of "length nested"] nested]
        creates_seqc [OF creates_enums [of mk ?p ?fqn enums] creates_kinds(4) [of mk ?p ?fqn extns]]]]]
  from creates_seqc_register [OF parts, of mk par "EMessage ?m"]
  show ?case by (simp add: Let_def)
qed (simp_all add: creates_Some creates_seqc)

lemma creates_service:
  "creates (createServiceDescriptor mk prefix svc) (only numMethods_update (length (svc_methods svc)))
     (regs mk (decls_svc (linked_svc prefix svc)))"
  using creates_seqc_register [OF creates_kinds(5) [of mk "prefix @ svc_name svc @ ''.''" "prefix @ svc_name svc" "svc_methods svc"], of mk "[]" "EService (linked_svc prefix svc)"]
  by (simp add: createServiceDescriptor_def decls_svc_def linked_svc_def Let_def)

lemma creates_services:
  "creates (createServices mk prefix svcs)
     (padd (only numServices_update (length svcs)) (padds (map (\<lambda>svc. only numMethods_update (length (svc_methods svc))) svcs)))
     (regs mk (concat (map decls_svc (map (linked_svc prefix) svcs))))"
  using creates_seqc_alloc [OF creates_allocate(7) creates_allc [of svcs "createServiceDescriptor mk prefix", OF creates_service], of "length svcs"]
  by (simp add: createServices_def map_concat comp_def)

lemma createDescendants_eq:
  "createDescendants path f =
     Some \<lparr>cpool = no_elements,
           cdescs = map_of (rev (map (\<lambda>(par, e). (FullName e, Desc path (fpackage f) par e)) (decls (linked_file f))))\<rparr>"
proof -
  let ?mk = "Desc path (fpackage f)" and ?p = "filep_prefix f"
  have msgs: "creates (createMessages ?mk ?p [] (fmessages f))
      (padd (only numMessages_update (length (fmessages f))) (msgs_need (fmessages f)))
      (regs ?mk (decls_msgs [] (linked_msgs ?p [] (fmessages f))))"
    unfolding createMessages_def by (rule creates_seqc_alloc [OF creates_allocate(1) creates_msgs(2)])
  note parts = creates_seqc [OF msgs creates_seqc [OF creates_enums [of ?mk ?p "[]" "fenums f"]
    creates_seqc [OF creates_kinds(4) [of ?mk ?p "[]" "fexts f"] creates_services [of ?mk ?p "fservices f"]]]]
  then show ?thesis
    unfolding creates_def createDescendants_def newAllocPool_need filep_prefix_def [symmetric] Let_def
    by (auto simp: file_need_def decls_def linked_file_def Let_def dest!: spec [of _ no_elements] spec [of _ Map.empty])
qed

section \<open>Properties\<close>

text \<open>C14: creating the descriptors of a file never asks the pool for more than it has and leaves it empty;
  the full names of the descriptors are the names under which the traversal of the descriptor protos visits
  them, and \<open>descriptors\<close> maps each of these names to the last descriptor that has it.\<close>

theorem createDescendants_exact:
  "createDescendants path f =
     Some \<lparr>cpool = no_elements,
           cdescs = map_of (rev (map (\<lambda>(par, e). (FullName e, Desc path (fpackage f) par e)) (decls (linked_file f))))\<rparr> \<and>
   map snd (decls (linked_file f)) = file_elems (linked_file f) \<and>
   map FullName (file_elems (linked_file f)) = concat (map entered_name (ev_file f))"
  by (simp add: createDescendants_eq file_elems_decls [symmetric] linked_names)

end
