(* ===== verification/Link.thy ===== *)
theory Link
  imports Create Cases
begin

text \<open>
  Linking a file: \<open>Link\<close> of \<open>linker/linker.go\<close>, the resolution of references in \<open>linker/resolve.go\<close>, and
  the message contexts of \<open>internal/message_context.go\<close>.

  The descriptor protos are mutable and linking rewrites them: what it writes to a field, a method or a
  part of an option name is a map in the state, by the full name of the element or the number of the name
  part; an absent entry stands for what the parser left there. Full names are unique when references are
  resolved, because the file was added to the symbol table before.

  An operation ends with nil, with an error that the handler returned, or with a panic.
\<close>

section \<open>State\<close>

record field_link =
  fl_typeName :: string
  fl_type :: "ftype option"
  fl_extendee :: string
  fl_extendeeDesc :: "descriptor option"
  fl_msgType :: "descriptor option"
  fl_enumType :: "descriptor option"
  fl_oneof :: "linfo leaf option"

record method_link =
  ml_inputName :: string
  ml_outputName :: string
  ml_inputType :: "descriptor option"
  ml_outputType :: "descriptor option"

record 'r lstate =
  sst :: "'r sstate"
  used :: usedImports
  flinks :: "full_name \<rightharpoonup> field_link"
  mlinks :: "full_name \<rightharpoonup> method_link"
  name_parts :: "nat \<rightharpoonup> string"
  optionQualifiedNames :: "nat \<rightharpoonup> string"
  scopes :: "scope list"
  extendeeNodes :: "nat set option"

datatype lfail = Failed go_error | Panicked

type_synonym 'r lact = "('r lstate, lfail) act"

definition field_of :: "linfo leaf \<Rightarrow> 'r lstate \<Rightarrow> field_link" where
  "field_of l st =
     (case flinks st (leaf_name l) of
        Some k \<Rightarrow> k
      | None \<Rightarrow> let d = leaf_data l
                in \<lparr>fl_typeName = ftypeName d, fl_type = ftype d, fl_extendee = fextendee d, fl_extendeeDesc = None,
                    fl_msgType = None, fl_enumType = None, fl_oneof = None\<rparr>)"

definition method_of :: "linfo leaf \<Rightarrow> 'r lstate \<Rightarrow> method_link" where
  "method_of l st =
     (case mlinks st (leaf_name l) of
        Some k \<Rightarrow> k
      | None \<Rightarrow> let d = leaf_data l
                in \<lparr>ml_inputName = inputType d, ml_outputName = outputType d, ml_inputType = None, ml_outputType = None\<rparr>)"

definition put_field :: "linfo leaf \<Rightarrow> field_link \<Rightarrow> 'r lstate \<Rightarrow> 'r lstate" where
  "put_field l k st = st\<lparr>flinks := (flinks st)(leaf_name l \<mapsto> k)\<rparr>"

definition put_method :: "linfo leaf \<Rightarrow> method_link \<Rightarrow> 'r lstate \<Rightarrow> 'r lstate" where
  "put_method l k st = st\<lparr>mlinks := (mlinks st)(leaf_name l \<mapsto> k)\<rparr>"

text \<open>Actions on the symbol table and the handler, reports and searches.\<close>

definition on_symbols :: "('r sstate, go_error) act \<Rightarrow> 'r lact" where
  "on_symbols a st = (let (res, ss) = a (sst st) in (map_option Failed res, st\<lparr>sst := ss\<rparr>))"

definition complain :: "'r reporter \<Rightarrow> nat \<Rightarrow> source_span \<Rightarrow> string \<Rightarrow> 'r lact" where
  "complain rep h sp msg = on_symbols (report rep h sp msg)"

definition with_resolved ::
  "lfile \<Rightarrow> string \<Rightarrow> bool \<Rightarrow> ('r lstate \<Rightarrow> scope list) \<Rightarrow> (descriptor option \<Rightarrow> 'r lact) \<Rightarrow> 'r lact" where
  "with_resolved r name onlyTypes scs k st =
     (case resolve r name onlyTypes (scs st) (used st) of
        None \<Rightarrow> (Some Panicked, st)
      | Some (d, u) \<Rightarrow> k d (st\<lparr>used := u\<rparr>))"

section \<open>Message contexts\<close>

record message_context =
  ElementType :: string
  ElementName :: string
  mc_option :: "(string \<times> bool) list option"
  OptAggPath :: string
  mc_hasAST :: bool

primrec writeOptionName :: "bool \<Rightarrow> (string \<times> bool) list \<Rightarrow> string option" where
  "writeOptionName first [] = Some []"
| "writeOptionName first (p # ps) =
     (case fst p of
        [] \<Rightarrow> None
      | c # cs \<Rightarrow>
          let nm = (if c = CHR ''.'' then cs else c # cs)
          in map_option (\<lambda>rest. (if first then [] else ''.'') @ (if snd p then ''('' @ nm @ '')'' else nm) @ rest)
               (writeOptionName False ps))"

definition mc_String :: "message_context \<Rightarrow> string option" where
  "mc_String c =
     (let elem = (if ElementType c \<noteq> ''file'' then ElementType c @ '' '' @ ElementName c @ '': '' else [])
      in case mc_option c of
           None \<Rightarrow> Some elem
         | Some name \<Rightarrow>
             if name = [] then Some elem
             else map_option (\<lambda>nm. elem @ ''option '' @ nm @
                      (if \<not> mc_hasAST c \<and> OptAggPath c \<noteq> [] then '' at '' @ OptAggPath c else []) @ '': '')
                    (writeOptionName True name))"

definition complain_mc :: "'r reporter \<Rightarrow> nat \<Rightarrow> source_span \<Rightarrow> message_context \<Rightarrow> string \<Rightarrow> 'r lact" where
  "complain_mc rep h sp mc err =
     (case mc_String mc of None \<Rightarrow> (\<lambda>st. (Some Panicked, st)) | Some ctx \<Rightarrow> complain rep h sp (ctx @ err))"

section \<open>Extension names in options\<close>

text \<open>\<open>resolveExtensionName\<close>, applied to the descriptor that the name resolved to.\<close>

definition extension_name :: "string \<Rightarrow> descriptor option \<Rightarrow> string + string" where
  "extension_name name dsc =
     (case dsc of
        None \<Rightarrow> Inl (''unknown extension '' @ name)
      | Some d \<Rightarrow>
          if isSentinelDescriptor d then
            Inl (''unknown extension '' @ name @ ''; resolved to '' @ dFullName d @
              '' which is not defined; consider using a leading dot'')
          else (case d of
              Desc _ _ _ (EField l) \<Rightarrow>
                if IsExtension l then Inr (''.'' @ dFullName d)
                else Inl (''invalid extension: '' @ name @ '' is a field but not an extension'')
            | Desc _ _ _ (EExtension l) \<Rightarrow>
                if IsExtension l then Inr (''.'' @ dFullName d)
                else Inl (''invalid extension: '' @ name @ '' is a field but not an extension'')
            | _ \<Rightarrow> Inl (''invalid extension: '' @ name @ '' is '' @ descriptorTypeWithArticle d @ '', not an extension'')))"

definition resolveExtensionName ::
  "lfile \<Rightarrow> string \<Rightarrow> ('r lstate \<Rightarrow> scope list) \<Rightarrow> (string + string \<Rightarrow> 'r lact) \<Rightarrow> 'r lact" where
  "resolveExtensionName r name scs k = with_resolved r name False scs (\<lambda>dsc. k (extension_name name dsc))"

definition mfield_path :: "string \<Rightarrow> mfield \<Rightarrow> string" where
  "mfield_path origPath fld =
     (let p = (if origPath \<noteq> [] then origPath @ ''.'' else origPath)
      in if mf_ext fld then p @ ''['' @ mf_name fld @ '']'' else p @ mf_name fld)"

text \<open>Inside a message literal, \<open>OptAggPath\<close> is still that of the previous field when the name of the
  next one is resolved.\<close>

fun resolveOptionValue :: "'r reporter \<Rightarrow> nat \<Rightarrow> lfile \<Rightarrow> message_context \<Rightarrow> optval \<Rightarrow> 'r lact"
and resolve_values :: "'r reporter \<Rightarrow> nat \<Rightarrow> lfile \<Rightarrow> message_context \<Rightarrow> nat \<Rightarrow> optval list \<Rightarrow> 'r lact"
and resolve_mfields :: "'r reporter \<Rightarrow> nat \<Rightarrow> lfile \<Rightarrow> message_context \<Rightarrow> string \<Rightarrow> (mfield \<times> optval) list \<Rightarrow> 'r lact" where
  "resolveOptionValue rep h r mc OScalar = skip"
| "resolveOptionValue rep h r mc (OList vs) = resolve_values rep h r mc 0 vs"
| "resolveOptionValue rep h r mc (OMessage flds) = resolve_mfields rep h r mc (OptAggPath mc) flds"
| "resolve_values rep h r mc i [] = skip"
| "resolve_values rep h r mc i (v # vs) =
     andThen (resolveOptionValue rep h r (mc\<lparr>OptAggPath := OptAggPath mc @ ''['' @ show_nat i @ '']''\<rparr>) v)
       (resolve_values rep h r mc (Suc i) vs)"
| "resolve_mfields rep h r mc origPath [] = skip"
| "resolve_mfields rep h r mc origPath ((fld, v) # flds) =
     andThen
       (if mf_ext fld then
          resolveExtensionName r (mf_name fld) (\<lambda>st. take 1 (scopes st)) (\<lambda>res.
            case res of
              Inl err \<Rightarrow> complain_mc rep h (mf_span fld) mc err
            | Inr fqn \<Rightarrow> (\<lambda>st. (None, st\<lparr>optionQualifiedNames := (optionQualifiedNames st)(mf_id fld \<mapsto> fqn)\<rparr>)))
        else skip)
       (andThen (resolveOptionValue rep h r (mc\<lparr>OptAggPath := mfield_path origPath fld\<rparr>) v)
         (resolve_mfields rep h r (mc\<lparr>OptAggPath := mfield_path origPath fld\<rparr>) origPath flds))"

definition part_name :: "namepart \<Rightarrow> 'r lstate \<Rightarrow> string" where
  "part_name p st = (case name_parts st (np_id p) of Some s \<Rightarrow> s | None \<Rightarrow> np_name p)"

text \<open>The parts of one option's name; \<open>ok\<close> runs when all are resolved and \<open>bad\<close> (\<open>continue opts\<close>) when
  one is not and the handler lets the operation go on.\<close>

primrec resolve_name_parts ::
  "'r reporter \<Rightarrow> nat \<Rightarrow> lfile \<Rightarrow> message_context \<Rightarrow> 'r lact \<Rightarrow> 'r lact \<Rightarrow> namepart list \<Rightarrow> 'r lact" where
  "resolve_name_parts rep h r mc ok bad [] = ok"
| "resolve_name_parts rep h r mc ok bad (nm # nms) =
     (if np_ext nm then
        (\<lambda>st. resolveExtensionName r (part_name nm st) scopes (\<lambda>res.
           case res of
             Inl err \<Rightarrow> andThen (complain_mc rep h (np_span nm) mc err) bad
           | Inr fqn \<Rightarrow> (\<lambda>st. resolve_name_parts rep h r mc ok bad nms
                                (st\<lparr>name_parts := (name_parts st)(np_id nm \<mapsto> fqn)\<rparr>))) st)
      else resolve_name_parts rep h r mc ok bad nms)"

primrec resolve_opts :: "'r reporter \<Rightarrow> nat \<Rightarrow> lfile \<Rightarrow> message_context \<Rightarrow> uopt list \<Rightarrow> 'r lact" where
  "resolve_opts rep h r mc [] = skip"
| "resolve_opts rep h r mc (opt # opts) =
     resolve_name_parts rep h r mc
       (andThen
         (\<lambda>st. resolveOptionValue rep h r
            (mc\<lparr>mc_option := Some (map (\<lambda>p. (part_name p st, np_ext p)) (uo_name opt))\<rparr>) (uo_value opt) st)
         (resolve_opts rep h r mc opts))
       (resolve_opts rep h r mc opts)
       (uo_name opt)"

definition resolveOptions :: "'r reporter \<Rightarrow> nat \<Rightarrow> lfile \<Rightarrow> bool \<Rightarrow> string \<Rightarrow> full_name \<Rightarrow> uopt list \<Rightarrow> 'r lact" where
  "resolveOptions rep h r hasAST elemType elemName opts =
     resolve_opts rep h r
       \<lparr>ElementType = elemType, ElementName = elemName, mc_option = None, OptAggPath = [], mc_hasAST = hasAST\<rparr> opts"

section \<open>Types of fields\<close>

definition show_ftype :: "ftype \<Rightarrow> string" where
  "show_ftype t =
     (case t of TYPE_MESSAGE \<Rightarrow> ''TYPE_MESSAGE'' | TYPE_GROUP \<Rightarrow> ''TYPE_GROUP'' | TYPE_ENUM \<Rightarrow> ''TYPE_ENUM'' | TYPE_SCALAR s \<Rightarrow> s)"

text \<open>The last component of a full name, which is the simple name of the element.\<close>

definition Name :: "full_name \<Rightarrow> string" where
  "Name n = rev (takeWhile (\<lambda>c. c \<noteq> CHR ''.'') (rev n))"

definition isValidMap :: "unicode \<Rightarrow> lfile \<Rightarrow> linfo leaf \<Rightarrow> descriptor \<Rightarrow> bool" where
  "isValidMap U r mapField mapEntry \<longleftrightarrow>
     \<not> IsExtension mapField \<and>
     (case mapEntry of Desc path _ par _ \<Rightarrow> path = lf_path r \<and> par = fparent (leaf_data mapField) | Sentinel _ \<Rightarrow> False) \<and>
     flabel (leaf_data mapField) = Some LABEL_REPEATED \<and>
     map of_char (Name (dFullName mapEntry)) = MapEntry U (map of_char (Name (leaf_name mapField)))"

text \<open>Whether the reference to a map entry is the one of its own map field; \<open>None\<close> when the parent of the
  field is not a message.\<close>

definition map_reference_ok :: "unicode \<Rightarrow> lfile \<Rightarrow> linfo leaf \<Rightarrow> descriptor \<Rightarrow> bool option" where
  "map_reference_ok U r l dsc =
     (case fnode (leaf_data l) of
        MapFieldNode \<Rightarrow> Some True
      | OtherFieldNode \<Rightarrow> Some False
      | NoSourceNode \<Rightarrow>
          if isValidMap U r l dsc \<and> findex (leaf_data l) > 0 then
            (case lf_descs r (fparent (leaf_data l)) of
               Some (Desc _ _ _ (EMessage m)) \<Rightarrow>
                 Some (\<not> list_ex (\<lambda>f. isValidMap U r f dsc) (take (findex (leaf_data l)) (msg_fields m)))
             | _ \<Rightarrow> None)
          else Some (isValidMap U r l dsc))"

definition field_kind :: "linfo leaf \<Rightarrow> string" where
  "field_kind l = (if IsExtension l then ''extension'' else ''field'')"

definition not_defined :: "string \<Rightarrow> descriptor \<Rightarrow> string" where
  "not_defined name dsc =
     name @ ''; resolved to '' @ dFullName dsc @ '' which is not defined; consider using a leading dot''"

definition resolve_field_type :: "'r reporter \<Rightarrow> nat \<Rightarrow> unicode \<Rightarrow> lfile \<Rightarrow> linfo leaf \<Rightarrow> 'r lact" where
  "resolve_field_type rep h U r l st =
     (let name = fl_typeName (field_of l st);
          ctx = field_kind l @ '' '' @ leaf_name l @ '': '';
          sp = type_span (leaf_data l)
      in if name = [] then (None, st)
         else with_resolved r name True scopes (\<lambda>res.
           case res of
             None \<Rightarrow> complain rep h sp (ctx @ ''unknown type '' @ name)
           | Some dsc \<Rightarrow>
             if isSentinelDescriptor dsc then complain rep h sp (ctx @ ''unknown type '' @ not_defined name dsc)
             else (case dsc of
               Desc _ _ _ (EMessage m) \<Rightarrow>
                 (case (if map_entry (msg_data m) then map_reference_ok U r l dsc else Some True) of
                    None \<Rightarrow> (\<lambda>st. (Some Panicked, st))
                  | Some False \<Rightarrow> complain rep h sp (ctx @ dFullName dsc @ '' is a synthetic map entry and may not be referenced explicitly'')
                  | Some True \<Rightarrow> (\<lambda>st.
                      let k = (field_of l st)\<lparr>fl_typeName := ''.'' @ dFullName dsc\<rparr>
                      in case fl_type k of
                           None \<Rightarrow> (None, put_field l (k\<lparr>fl_type := Some TYPE_MESSAGE, fl_msgType := Some dsc\<rparr>) st)
                         | Some t \<Rightarrow>
                             if t \<noteq> TYPE_MESSAGE \<and> t \<noteq> TYPE_GROUP then
                               complain rep h sp (ctx @ ''descriptor proto indicates type '' @ show_ftype t @
                                 '' but should be '' @ show_ftype TYPE_MESSAGE) (put_field l k st)
                             else (None, put_field l (k\<lparr>fl_msgType := Some dsc\<rparr>) st)))
             | Desc _ _ _ (EEnum _) \<Rightarrow> (\<lambda>st.
                 let k = (field_of l st)\<lparr>fl_typeName := ''.'' @ dFullName dsc\<rparr>
                 in case fl_type k of
                      None \<Rightarrow> (None, put_field l (k\<lparr>fl_type := Some TYPE_ENUM, fl_enumType := Some dsc\<rparr>) st)
                    | Some t \<Rightarrow>
                        if t \<noteq> TYPE_ENUM then
                          complain rep h sp (ctx @ ''descriptor proto indicates type '' @ show_ftype t @
                            '' but should be '' @ show_ftype TYPE_ENUM) (put_field l k st)
                        else (None, put_field l (k\<lparr>fl_enumType := Some dsc\<rparr>) st))
             | _ \<Rightarrow> complain rep h sp (ctx @ ''invalid type: '' @ dFullName dsc @ '' is '' @
                      descriptorTypeWithArticle dsc @ '', not a message or enum''))) st)"

section \<open>Extendees\<close>

definition in_ranges :: "int \<Rightarrow> ext_range list \<Rightarrow> bool" where
  "in_ranges tag rs = list_ex (\<lambda>rng. er_start rng \<le> tag \<and> tag < er_end rng) rs"

text \<open>The extension half of \<open>resolveFieldTypes\<close>: \<open>cont\<close> goes on with the type of the field. With a syntax
  tree, errors about one extendee node are reported once; \<open>tracked\<close> says that \<open>extendees\<close> is not nil.\<close>

definition extendee_prefix :: "bool \<Rightarrow> linfo leaf \<Rightarrow> string" where
  "extendee_prefix tracked l = (if tracked then [] else field_kind l @ '' '' @ leaf_name l @ '': '')"

definition resolve_extendee :: "'r reporter \<Rightarrow> nat \<Rightarrow> lfile \<Rightarrow> bool \<Rightarrow> linfo leaf \<Rightarrow> 'r lact \<Rightarrow> 'r lact" where
  "resolve_extendee rep h r tracked l cont st =
     (let name = fl_extendee (field_of l st);
          nodes = (case extendeeNodes st of Some ns \<Rightarrow> ns | None \<Rightarrow> {});
          alreadyReported = (tracked \<and> extendee_node (leaf_data l) \<in> nodes);
          st = (if tracked then st\<lparr>extendeeNodes := Some (insert (extendee_node (leaf_data l)) nodes)\<rparr> else st);
          sp = extendee_span (leaf_data l);
          tag = fnumber (leaf_data l);
          refuse = (\<lambda>msg. if alreadyReported then skip else complain rep h sp (extendee_prefix tracked l @ msg))
      in with_resolved r name False scopes (\<lambda>res.
           case res of
             None \<Rightarrow> refuse (''unknown extendee type '' @ name)
           | Some dsc \<Rightarrow>
             if isSentinelDescriptor dsc then refuse (''unknown extendee type '' @ not_defined name dsc)
             else (case dsc of
               Desc _ pkg _ (EMessage m) \<Rightarrow>
                 andThen (\<lambda>st. (None, put_field l ((field_of l st)\<lparr>fl_extendeeDesc := Some dsc, fl_extendee := ''.'' @ dFullName dsc\<rparr>) st))
                   (andThen
                     (if \<not> in_ranges tag (extensionRange (msg_data m)) then
                        complain rep h (tag_span (leaf_data l))
                          (field_kind l @ '' '' @ leaf_name l @ '': tag '' @ show_int tag @
                           '' is not in valid range for extended type '' @ dFullName dsc)
                      else on_symbols (AddExtension rep h pkg (dFullName dsc) tag (tag_span (leaf_data l))))
                     cont)
             | _ \<Rightarrow> refuse (''extendee is invalid: '' @ dFullName dsc @ '' is '' @ descriptorTypeWithArticle dsc @ '', not a message''))) st)"

definition set_oneof :: "lfile \<Rightarrow> linfo leaf \<Rightarrow> 'r lact" where
  "set_oneof r l st =
     (case oneofIndex (leaf_data l) of
        None \<Rightarrow> (None, st)
      | Some i \<Rightarrow>
          (case lf_descs r (fparent (leaf_data l)) of
             Some (Desc _ _ _ (EMessage m)) \<Rightarrow>
               if i < length (msg_oneofs m)
               then (None, put_field l ((field_of l st)\<lparr>fl_oneof := Some (msg_oneofs m ! i)\<rparr>) st)
               else (Some Panicked, st)
           | _ \<Rightarrow> (Some Panicked, st)))"

definition resolveFieldTypes :: "'r reporter \<Rightarrow> nat \<Rightarrow> unicode \<Rightarrow> lfile \<Rightarrow> bool \<Rightarrow> linfo leaf \<Rightarrow> 'r lact" where
  "resolveFieldTypes rep h U r tracked l =
     (if IsExtension l then resolve_extendee rep h r tracked l (resolve_field_type rep h U r l)
      else andThen (set_oneof r l) (resolve_field_type rep h U r l))"

section \<open>Types of methods\<close>

definition resolve_method_type ::
  "'r reporter \<Rightarrow> nat \<Rightarrow> lfile \<Rightarrow> linfo leaf \<Rightarrow> string \<Rightarrow> source_span \<Rightarrow> (method_link \<Rightarrow> string) \<Rightarrow>
   (descriptor \<Rightarrow> method_link \<Rightarrow> method_link) \<Rightarrow> 'r lact" where
  "resolve_method_type rep h r l what sp get put st =
     (let name = get (method_of l st); ctx = ''method '' @ leaf_name l @ '': ''
      in with_resolved r name False scopes (\<lambda>res.
           case res of
             None \<Rightarrow> complain rep h sp (ctx @ ''unknown '' @ what @ '' type '' @ name)
           | Some dsc \<Rightarrow>
             if isSentinelDescriptor dsc then complain rep h sp (ctx @ ''unknown '' @ what @ '' type '' @ not_defined name dsc)
             else (case dsc of
               Desc _ _ _ (EMessage m) \<Rightarrow> (\<lambda>st. (None, put_method l (put dsc (method_of l st)) st))
             | _ \<Rightarrow> complain rep h sp (ctx @ ''invalid '' @ what @ '' type: '' @ dFullName dsc @ '' is '' @
                      descriptorTypeWithArticle dsc @ '', not a message''))) st)"

definition resolveMethodTypes :: "'r reporter \<Rightarrow> nat \<Rightarrow> lfile \<Rightarrow> linfo leaf \<Rightarrow> 'r lact" where
  "resolveMethodTypes rep h r l =
     andThen
       (resolve_method_type rep h r l ''request'' (type_span (leaf_data l)) ml_inputName
         (\<lambda>dsc k. k\<lparr>ml_inputName := ''.'' @ dFullName dsc, ml_inputType := Some dsc\<rparr>))
       (resolve_method_type rep h r l ''response'' (output_span (leaf_data l)) ml_outputName
         (\<lambda>dsc k. k\<lparr>ml_outputName := ''.'' @ dFullName dsc, ml_outputType := Some dsc\<rparr>))"

section \<open>References of a file\<close>

text \<open>What the parser hands over: the file descriptor proto (name, syntax, options, dependencies with the
  indices of the public and weak ones, and the hierarchy with simple names), the spans of the import
  statements, and the file as the symbol table sees it.\<close>

record parsed =
  p_name :: string
  p_syntax :: string
  p_options :: "uopt list"
  p_dependency :: "string list"
  p_public :: "int list"
  p_weak :: "int list"
  p_file :: "linfo filep"
  p_imports :: "(string \<times> source_span) list"
  p_symbols :: fdesc

abbreviation hasAST :: "parsed \<Rightarrow> bool" where
  "hasAST p \<equiv> fd_hasSource (p_symbols p)"

definition allowedProto3Extendee :: "string \<Rightarrow> bool" where
  "allowedProto3Extendee n \<longleftrightarrow> n = [] \<or> n \<in> set
     [''.google.protobuf.FileOptions'', ''.google.protobuf.MessageOptions'', ''.google.protobuf.FieldOptions'',
      ''.google.protobuf.OneofOptions'', ''.google.protobuf.ExtensionRangeOptions'', ''.google.protobuf.EnumOptions'',
      ''.google.protobuf.EnumValueOptions'', ''.google.protobuf.ServiceOptions'', ''.google.protobuf.MethodOptions'']"

definition push_scope :: "full_name \<Rightarrow> 'r lact" where
  "push_scope n st = (None, st\<lparr>scopes := scopes st @ [MessageScope n]\<rparr>)"

definition pop_scope :: "'r lact" where
  "pop_scope st = (None, st\<lparr>scopes := butlast (scopes st)\<rparr>)"

definition range_options :: "'r reporter \<Rightarrow> nat \<Rightarrow> lfile \<Rightarrow> parsed \<Rightarrow> full_name \<Rightarrow> ext_range \<Rightarrow> 'r lact" where
  "range_options rep h r p fqn er =
     resolveOptions rep h r (hasAST p) ''extension range''
       (fqn @ '':'' @ show_int (er_start er) @ ''-'' @ show_int (er_end er - 1)) (er_options er)"

definition proto3_extendee :: "'r reporter \<Rightarrow> nat \<Rightarrow> parsed \<Rightarrow> linfo leaf \<Rightarrow> 'r lact" where
  "proto3_extendee rep h p l st =
     (if p_syntax p = ''proto3'' \<and> \<not> allowedProto3Extendee (fl_extendee (field_of l st))
      then complain rep h (extendee_span (leaf_data l)) ''extend blocks in proto3 can only be used to define custom options'' st
      else (None, st))"

fun enter_elem :: "'r reporter \<Rightarrow> nat \<Rightarrow> unicode \<Rightarrow> lfile \<Rightarrow> parsed \<Rightarrow> linfo elem \<Rightarrow> 'r lact" where
  "enter_elem rep h U r p (EMessage m) =
     andThen (resolveOptions rep h r (hasAST p) ''message'' (msg_name m) (options (msg_data m)))
       (andThen (push_scope (msg_name m))
         (run_all (map (range_options rep h r p (msg_name m)) (extensionRange (msg_data m)))))"
| "enter_elem rep h U r p (EExtension l) =
     andThen (resolveOptions rep h r (hasAST p) ''extension'' (leaf_name l) (options (leaf_data l)))
       (andThen (resolveFieldTypes rep h U r (hasAST p) l) (proto3_extendee rep h p l))"
| "enter_elem rep h U r p (EField l) =
     andThen (resolveOptions rep h r (hasAST p) ''field'' (leaf_name l) (options (leaf_data l)))
       (resolveFieldTypes rep h U r False l)"
| "enter_elem rep h U r p (EOneof l) = resolveOptions rep h r (hasAST p) ''oneof'' (leaf_name l) (options (leaf_data l))"
| "enter_elem rep h U r p (EEnum en) = resolveOptions rep h r (hasAST p) ''enum'' (en_name en) (options (en_data en))"
| "enter_elem rep h U r p (EValue l) = resolveOptions rep h r (hasAST p) ''enum value'' (leaf_name l) (options (leaf_data l))"
| "enter_elem rep h U r p (EService svc) =
     andThen (resolveOptions rep h r (hasAST p) ''service'' (svc_name svc) (options (svc_data svc))) (push_scope (svc_name svc))"
| "enter_elem rep h U r p (EMethod l) =
     andThen (resolveOptions rep h r (hasAST p) ''method'' (leaf_name l) (options (leaf_data l))) (resolveMethodTypes rep h r l)"

fun exit_elem :: "linfo elem \<Rightarrow> 'r lact" where
  "exit_elem (EMessage _) = pop_scope"
| "exit_elem (EService _) = pop_scope"
| "exit_elem _ = skip"

definition resolveReferences :: "'r reporter \<Rightarrow> nat \<Rightarrow> unicode \<Rightarrow> lfile \<Rightarrow> parsed \<Rightarrow> 'r lact" where
  "resolveReferences rep h U r p st =
     andThen (resolveOptions rep h r (hasAST p) ''file'' (p_name p) (p_options p))
       (DescriptorsEnterAndExit (lf_file r) (enter_elem rep h U r p) (Some exit_elem))
       (st\<lparr>scopes := [FileScope], extendeeNodes := None\<rparr>)"

section \<open>Linking\<close>

definition valid_index :: "'a list \<Rightarrow> int \<Rightarrow> bool" where
  "valid_index xs i \<longleftrightarrow> 0 \<le> i \<and> nat i < length xs"

definition createImports :: "parsed \<Rightarrow> (string \<times> bool) list option" where
  "createImports p =
     (if list_all (valid_index (p_dependency p)) (p_public p @ p_weak p)
      then Some (map (\<lambda>(i, dep). (dep, int i \<in> set (p_public p))) (enumerate 0 (p_dependency p)))
      else None)"

primrec import_deps :: "'r reporter \<Rightarrow> nat \<Rightarrow> (lfile \<Rightarrow> fdesc) \<Rightarrow> lfile list \<Rightarrow> string list \<Rightarrow> 'r lact" where
  "import_deps rep h view deps [] = skip"
| "import_deps rep h view deps (imp # imps) =
     (case FindFileByPath deps imp of
        None \<Rightarrow> (\<lambda>st. (Some (Failed (Msg (''dependencies is missing import '' @ quoted imp))), st))
      | Some dep \<Rightarrow> andThen (on_symbols (Import rep h (view dep))) (import_deps rep h view deps imps))"

text \<open>The result before its references are resolved; \<open>None\<close> when creating it panics.\<close>

definition new_result :: "parsed \<Rightarrow> lfile list \<Rightarrow> lfile option" where
  "new_result p deps =
     Option.bind (createImports p) (\<lambda>imps.
       Option.bind (createDescendants (p_name p) (p_file p)) (\<lambda>c.
         Some (LFile (p_name p) (fpackage (p_file p)) True (linked_file (p_file p)) (cdescs c) imps deps)))"

text \<open>\<open>Link\<close>; \<open>view\<close> gives the symbol table's view of a dependency.\<close>

definition fresh_links :: "string \<Rightarrow> 'r lstate \<Rightarrow> 'r lstate" where
  "fresh_links path st = st\<lparr>used := (used st)(path := {}), flinks := Map.empty, mlinks := Map.empty,
     name_parts := Map.empty, optionQualifiedNames := Map.empty\<rparr>"

definition Link :: "'r reporter \<Rightarrow> nat \<Rightarrow> unicode \<Rightarrow> (lfile \<Rightarrow> fdesc) \<Rightarrow> parsed \<Rightarrow> lfile list \<Rightarrow> 'r lstate \<Rightarrow>
    (lfile option \<times> lfail option) \<times> 'r lstate" where
  "Link rep h U view p deps st =
     (case import_deps rep h view deps (p_dependency p) st of
        (Some e, st) \<Rightarrow> ((None, Some e), st)
      | (None, st) \<Rightarrow>
          case new_result p deps of
            None \<Rightarrow> ((None, Some Panicked), st)
          | Some r \<Rightarrow>
              case andThen (on_symbols (importResult rep h (p_symbols p))) (resolveReferences rep h U r p) (fresh_links (p_name p) st) of
                (Some e, st) \<Rightarrow> ((None, Some e), st)
              | (None, st) \<Rightarrow> ((Some r, map_option Failed (Handler_Error h (shst (sst st)))), st))"

section \<open>Unused imports\<close>

definition import_span :: "parsed \<Rightarrow> string \<Rightarrow> source_span" where
  "import_span p dep =
     (if hasAST p then case filter (\<lambda>i. fst i = dep) (p_imports p) of [] \<Rightarrow> UnknownSpan (p_name p) | is \<Rightarrow> snd (last is)
      else UnknownSpan (p_name p))"

definition CheckForUnusedImports ::
  "(go_error \<Rightarrow> 'r \<Rightarrow> 'r) \<Rightarrow> nat \<Rightarrow> parsed \<Rightarrow> 'r lstate \<Rightarrow> 'r lstate" where
  "CheckForUnusedImports warn h p st =
     fold (\<lambda>(i, dep) st.
       if dep \<in> used st (p_name p) \<or> int i \<in> set (p_public p) then st
       else st\<lparr>sst := (sst st)\<lparr>shst := HandleWarning warn h (Error (import_span p dep)
              (Msg (''import '' @ quoted dep @ '' not used''))) (shst (sst st))\<rparr>\<rparr>)
       (enumerate 0 (p_dependency p)) st"

end
