(* ===== verification/LinkSafe.thy ===== *)
theory LinkSafe
  imports Link
begin

text \<open>
  What linking establishes. Every operation of \<open>Link\<close> is described by the relation between its states that
  holds when it returns nil and the handler has no error in the end (\<open>does\<close>); an operation that reports an
  error cannot end that way, so the error branches need no further care.
\<close>

section \<open>Operations that end without an error\<close>

definition fine :: "nat \<Rightarrow> 'r lstate \<Rightarrow> bool" where
  "fine h st \<longleftrightarrow> Handler_Error h (shst (sst st)) = None"

definition lgood :: "nat \<Rightarrow> 'r lstate \<Rightarrow> bool" where
  "lgood h st \<longleftrightarrow> good h (sst st)"

definition does :: "nat \<Rightarrow> 'r lact \<Rightarrow> ('r lstate \<Rightarrow> 'r lstate \<Rightarrow> bool) \<Rightarrow> bool" where
  "does h a R \<longleftrightarrow> (\<forall>st res st'. lgood h st \<longrightarrow> a st = (res, st') \<longrightarrow>
     lgood h st' \<and> (fine h st' \<longrightarrow> fine h st \<and> (res = None \<longrightarrow> R st st')))"

lemma doesI:
  "(\<And>st res st'. lgood h st \<Longrightarrow> a st = (res, st') \<Longrightarrow>
     lgood h st' \<and> (fine h st' \<longrightarrow> fine h st \<and> (res = None \<longrightarrow> R st st'))) \<Longrightarrow> does h a R"
  by (auto simp: does_def)

lemma doesD:
  assumes "does h a R" "lgood h st" "a st = (None, st')" "fine h st'"
  shows "lgood h st'" "fine h st" "R st st'"
  using assms by (auto simp: does_def)

lemma does_mono: "does h a R \<Longrightarrow> (\<And>st st'. R st st' \<Longrightarrow> S st st') \<Longrightarrow> does h a S"
  by (force simp: does_def)

lemma does_skip: "does h skip (=)"
  by (auto simp: does_def skip_def)

lemma does_panic: "does h (\<lambda>st. (Some Panicked, st)) R"
  by (auto simp: does_def)

lemma does_update: "(\<And>st. sst (f st) = sst st) \<Longrightarrow> does h (\<lambda>st. (None, f st)) (\<lambda>st st'. st' = f st)"
  by (auto simp: does_def lgood_def fine_def)

lemma does_andThen:
  assumes "does h a R" "does h b S"
  shows "does h (andThen a b) (\<lambda>st st''. \<exists>st'. R st st' \<and> S st' st'')"
proof (rule doesI)
  fix st res st''
  assume g: "lgood h st" and run: "andThen a b st = (res, st'')"
  obtain r1 st1 where 1: "a st = (r1, st1)" by fastforce
  note A = assms(1) [unfolded does_def, rule_format, OF g 1]
  show "lgood h st'' \<and> (fine h st'' \<longrightarrow> fine h st \<and> (res = None \<longrightarrow> (\<exists>st'. R st st' \<and> S st' st'')))"
  proof (cases r1)
    case None
    with run 1 have "b st1 = (res, st'')" by (simp add: andThen_def)
    from assms(2) [unfolded does_def, rule_format, OF conjunct1 [OF A] this] A None show ?thesis by blast
  next
    case (Some e)
    with run 1 A show ?thesis by (auto simp: andThen_def)
  qed
qed

lemma does_run_all:
  assumes "\<And>a. a \<in> set as \<Longrightarrow> does h a R" "\<And>st. R st st" "\<And>s t u. R s t \<Longrightarrow> R t u \<Longrightarrow> R s u"
  shows "does h (run_all as) R"
  using assms(1)
proof (induction as)
  case Nil
  show ?case using does_mono [OF does_skip] assms(2) by auto
next
  case (Cons a as)
  have "does h a R" "does h (run_all as) R" using Cons by simp_all
  from does_mono [OF does_andThen [OF this], of R] assms(3) show ?case by auto
qed

text \<open>The same for a single start state, where the operation may depend on that state.\<close>

definition outcome :: "nat \<Rightarrow> 'r lstate \<Rightarrow> lfail option \<times> 'r lstate \<Rightarrow> ('r lstate \<Rightarrow> bool) \<Rightarrow> bool" where
  "outcome h st p Q \<longleftrightarrow> (lgood h st \<longrightarrow>
     (case p of (res, st') \<Rightarrow> lgood h st' \<and> (fine h st' \<longrightarrow> fine h st \<and> (res = None \<longrightarrow> Q st'))))"

lemma does_outcome: "does h a R \<longleftrightarrow> (\<forall>st. outcome h st (a st) (R st))"
  by (auto simp: does_def outcome_def split: prod.splits)

lemma outcome_cong:
  "sst st1 = sst st \<Longrightarrow> outcome h st1 p Q' \<Longrightarrow> (\<And>st'. Q' st' \<Longrightarrow> Q st') \<Longrightarrow> outcome h st p Q"
  by (auto simp: outcome_def lgood_def fine_def split: prod.splits)

lemma outcome_does:
  "does h a R \<Longrightarrow> sst st1 = sst st \<Longrightarrow> (\<And>st'. R st1 st' \<Longrightarrow> Q st') \<Longrightarrow> outcome h st (a st1) Q"
  using outcome_cong [of st1 st h "a st1" "R st1" Q] by (auto simp: does_outcome)

lemma outcome_return: "sst st' = sst st \<Longrightarrow> Q st' \<Longrightarrow> outcome h st (None, st') Q"
  by (auto simp: outcome_def lgood_def fine_def)

lemma outcome_panic: "sst st' = sst st \<Longrightarrow> outcome h st (Some Panicked, st') Q"
  by (auto simp: outcome_def lgood_def fine_def)

lemma outcome_resolved:
  "(\<And>d u. resolve r name onlyTypes (scs st1) (used st1) = Some (d, u) \<Longrightarrow> outcome h st (k d (st1\<lparr>used := u\<rparr>)) Q) \<Longrightarrow>
   sst st1 = sst st \<Longrightarrow> outcome h st (with_resolved r name onlyTypes scs k st1) Q"
  by (auto simp: with_resolved_def outcome_panic split: option.split)

lemma does_on_symbols:
  assumes "safe_act D h a"
  shows "does h (on_symbols a) (\<lambda>st st'. \<exists>ss. st' = st\<lparr>sst := ss\<rparr>)"
proof (rule doesI)
  fix st res st'
  assume g: "lgood h st" and run: "on_symbols a st = (res, st')"
  obtain r ss where 1: "a (sst st) = (r, ss)" by fastforce
  with run have st': "st' = st\<lparr>sst := ss\<rparr>" by (simp add: on_symbols_def)
  have s: "safe D h (sst st) ss" using safe_actD [OF assms _ 1] g by (simp add: lgood_def)
  then have "good h ss" using safe_good [OF _ s] g by (auto simp: lgood_def)
  with s st' show "lgood h st' \<and> (fine h st' \<longrightarrow> fine h st \<and> (res = None \<longrightarrow> (\<exists>ss. st' = st\<lparr>sst := ss\<rparr>)))"
    by (auto simp: lgood_def fine_def safe_def)
qed

lemma does_complain: "does h (complain rep h sp msg) R"
proof (rule doesI)
  fix st res st'
  assume g: "lgood h st" and run: "complain rep h sp msg st = (res, st')"
  obtain r ss where 1: "report rep h sp msg (sst st) = (r, ss)" by fastforce
  with run have st': "st' = st\<lparr>sst := ss\<rparr>" by (simp add: complain_def on_symbols_def)
  have "sst_ok h (sst st)" using g by (simp add: lgood_def good_def)
  from report_effect [OF this 1] g st' show "lgood h st' \<and> (fine h st' \<longrightarrow> fine h st \<and> (res = None \<longrightarrow> R st st'))"
    by (auto simp: lgood_def good_def fine_def)
qed

lemma does_complain_mc: "does h (complain_mc rep h sp mc msg) R"
  by (simp add: complain_mc_def does_complain does_panic split: option.split)

lemma does_with_resolved:
  assumes "\<And>d. does h (k d) (R d)"
  shows "does h (with_resolved r name onlyTypes scs k)
    (\<lambda>st st'. \<exists>d u. resolve r name onlyTypes (scs st) (used st) = Some (d, u) \<and> R d (st\<lparr>used := u\<rparr>) st')"
proof (rule doesI)
  fix st res st'
  assume g: "lgood h st" and run: "with_resolved r name onlyTypes scs k st = (res, st')"
  show "lgood h st' \<and> (fine h st' \<longrightarrow> fine h st \<and> (res = None \<longrightarrow>
      (\<exists>d u. resolve r name onlyTypes (scs st) (used st) = Some (d, u) \<and> R d (st\<lparr>used := u\<rparr>) st')))"
  proof (cases "resolve r name onlyTypes (scs st) (used st)")
    case None
    with run g show ?thesis by (auto simp: with_resolved_def)
  next
    case (Some x)
    obtain d u where x: "x = (d, u)" by fastforce
    with run Some have "k d (st\<lparr>used := u\<rparr>) = (res, st')" by (simp add: with_resolved_def)
    from assms [unfolded does_def, rule_format, OF _ this] g Some x show ?thesis by (auto simp: lgood_def fine_def)
  qed
qed

lemma outcome_complain: "sst st1 = sst st \<Longrightarrow> outcome h st (complain rep h sp msg st1) Q"
  by (rule outcome_does [OF does_complain [where R = "\<lambda>_ _. False"]]) auto

lemma does_frame_state: "(\<And>s. does h (f s) R) \<Longrightarrow> does h (\<lambda>st. f st st) R"
  by (simp add: does_outcome)

section \<open>Options\<close>

text \<open>Resolving the names in options leaves the types of fields and methods and the scopes alone.\<close>

definition frame :: "'r lstate \<Rightarrow> 'r lstate \<Rightarrow> bool" where
  "frame st st' \<longleftrightarrow> flinks st' = flinks st \<and> mlinks st' = mlinks st \<and> scopes st' = scopes st \<and>
     extendeeNodes st' = extendeeNodes st"

lemma frame_refl [simp]: "frame st st"
  and frame_trans: "frame st st' \<Longrightarrow> frame st' st'' \<Longrightarrow> frame st st''"
  and frame_used [simp]: "frame st (st\<lparr>used := u\<rparr>)" "frame st (st\<lparr>sst := ss\<rparr>)" "frame (st\<lparr>used := u\<rparr>) st' = frame st st'"
  by (auto simp: frame_def)

lemma does_frame_then: "does h a frame \<Longrightarrow> does h b frame \<Longrightarrow> does h (andThen a b) frame"
  by (rule does_mono [OF does_andThen]) (auto intro: frame_trans)

lemma does_frame_skip: "does h skip frame"
  by (rule does_mono [OF does_skip]) simp

lemma does_frame_resolved: "(\<And>d. does h (k d) frame) \<Longrightarrow> does h (with_resolved r name onlyTypes scs k) frame"
  by (rule does_mono [OF does_with_resolved [where R = "\<lambda>_. frame"]]) auto

lemma does_frame_update:
  "(\<And>st. sst (f st) = sst st \<and> frame st (f st)) \<Longrightarrow> does h (\<lambda>st. (None, f st)) frame"
  by (rule does_mono [OF does_update]) auto

lemmas does_frame = does_frame_then does_frame_skip does_frame_resolved does_complain does_complain_mc

lemma does_option_value:
  shows "does h (resolveOptionValue rep h r mc v) frame"
    and "does h (resolve_values rep h r mc i vs) frame"
    and "does h (resolve_mfields rep h r mc path flds) frame"
proof (induction rep h r mc v and rep h r mc i vs and rep h r mc path flds
    rule: resolveOptionValue_resolve_values_resolve_mfields.induct)
  case (7 rep h r mc path fld v flds)
  have "does h (if mf_ext fld then
      resolveExtensionName r (mf_name fld) (\<lambda>st. take 1 (scopes st)) (\<lambda>res.
        case res of Inl err \<Rightarrow> complain_mc rep h (mf_span fld) mc err
        | Inr fqn \<Rightarrow> (\<lambda>st. (None, st\<lparr>optionQualifiedNames := (optionQualifiedNames st)(mf_id fld \<mapsto> fqn)\<rparr>)))
      else skip) frame"
    unfolding resolveExtensionName_def
    by (auto intro!: does_frame does_frame_update split: sum.split simp: frame_def)
  with 7 show ?case by (simp add: does_frame)
qed (simp_all add: does_frame)

lemma does_name_parts:
  "does h ok frame \<Longrightarrow> does h bad frame \<Longrightarrow> does h (resolve_name_parts rep h r mc ok bad nms) frame"
proof (induction nms)
  case (Cons nm nms)
  have "does h (\<lambda>st. resolveExtensionName r (part_name nm st) scopes (\<lambda>res.
      case res of Inl err \<Rightarrow> andThen (complain_mc rep h (np_span nm) mc err) bad
      | Inr fqn \<Rightarrow> (\<lambda>st. resolve_name_parts rep h r mc ok bad nms (st\<lparr>name_parts := (name_parts st)(np_id nm \<mapsto> fqn)\<rparr>))) st) frame"
    unfolding resolveExtensionName_def does_outcome
    by (intro allI outcome_resolved)
       (auto simp: frame_def intro!: outcome_does [OF Cons.IH [OF Cons.prems]] outcome_does [OF does_frame_then [OF does_complain_mc Cons.prems(2)]] split: sum.split)
  with Cons show ?case by simp
qed simp

lemma does_opts: "does h (resolve_opts rep h r mc opts) frame"
proof (induction opts)
  case (Cons opt opts)
  have "does h (\<lambda>st. resolveOptionValue rep h r (mc\<lparr>mc_option := Some (map (\<lambda>p. (part_name p st, np_ext p)) (uo_name opt))\<rparr>) (uo_value opt) st) frame"
    by (rule does_frame_state) (rule does_option_value)
  then show ?case using Cons by (auto intro!: does_name_parts does_frame)
qed (simp add: does_frame)

lemma does_resolveOptions: "does h (resolveOptions rep h r ast ty nm opts) frame"
  unfolding resolveOptions_def by (rule does_opts)

section \<open>References\<close>

definition linkable :: "lfile \<Rightarrow> bool" where
  "linkable r \<longleftrightarrow> imports_found r \<and> paths_unique r \<and> keyed r \<and> \<not> absolute (lf_package r)"

text \<open>The descriptor is what its full name refers to, seen from the file.\<close>

definition refers :: "lfile \<Rightarrow> descriptor \<Rightarrow> bool" where
  "refers r d \<longleftrightarrow> lookup_visible r (dFullName d) = Some d"

definition is_message :: "descriptor \<Rightarrow> bool" where
  "is_message d = (case d of Desc _ _ _ (EMessage _) \<Rightarrow> True | _ \<Rightarrow> False)"

definition is_enum :: "descriptor \<Rightarrow> bool" where
  "is_enum d = (case d of Desc _ _ _ (EEnum _) \<Rightarrow> True | _ \<Rightarrow> False)"

lemma resolve_resolution:
  assumes "linkable r" "resolve r name onlyTypes scs u = Some (x, u')"
  shows "resolution r name onlyTypes scs = x"
proof -
  have "answers (resolve r name onlyTypes scs) (resolution r name onlyTypes scs)"
    using assms(1) resolve_answers by (auto simp: linkable_def)
  then show ?thesis by (rule answersE [where used = u]) (simp add: assms(2))
qed

lemma resolution_refers:
  assumes "linkable r" "list_all scope_ok scs" "\<not> HasPrefix name ''..''"
    "resolution r name onlyTypes scs = Some d" "\<not> isSentinelDescriptor d"
  shows "refers r d"
  using assms resolution_name unfolding linkable_def refers_def by blast

section \<open>Fields\<close>

lemma field_of_put [simp]: "field_of l (put_field l k st) = k"
  by (simp add: field_of_def put_field_def)

lemma put_field_simps [simp]:
  "sst (put_field l k st) = sst st" "mlinks (put_field l k st) = mlinks st" "scopes (put_field l k st) = scopes st"
  "extendeeNodes (put_field l k st) = extendeeNodes st" "flinks (put_field l k st) = (flinks st)(leaf_name l \<mapsto> k)"
  by (simp_all add: put_field_def)

lemma field_of_cong: "flinks st' = flinks st \<Longrightarrow> field_of l st' = field_of l st"
  by (simp add: field_of_def)

lemma field_of_used [simp]: "field_of l (st\<lparr>used := u\<rparr>) = field_of l st" "field_of l (st\<lparr>sst := ss\<rparr>) = field_of l st"
  "field_of l (st\<lparr>extendeeNodes := ns\<rparr>) = field_of l st"
  by (simp_all add: field_of_def)

definition typed_as :: "descriptor \<Rightarrow> field_link \<Rightarrow> field_link \<Rightarrow> bool" where
  "typed_as d k k' \<longleftrightarrow>
     is_message d \<and> fl_type k \<in> {None, Some TYPE_MESSAGE, Some TYPE_GROUP} \<and>
       k' = k\<lparr>fl_typeName := ''.'' @ dFullName d, fl_type := (if fl_type k = None then Some TYPE_MESSAGE else fl_type k), fl_msgType := Some d\<rparr> \<or>
     is_enum d \<and> fl_type k \<in> {None, Some TYPE_ENUM} \<and>
       k' = k\<lparr>fl_typeName := ''.'' @ dFullName d, fl_type := Some TYPE_ENUM, fl_enumType := Some d\<rparr>"

definition field_typed :: "lfile \<Rightarrow> linfo leaf \<Rightarrow> 'r lstate \<Rightarrow> 'r lstate \<Rightarrow> bool" where
  "field_typed r l st st' \<longleftrightarrow>
     (let name = fl_typeName (field_of l st)
      in if name = [] then st' = st
         else \<exists>d u k'. resolve r name True (scopes st) (used st) = Some (Some d, u) \<and> \<not> isSentinelDescriptor d \<and>
                typed_as d (field_of l st) k' \<and> st' = put_field l k' (st\<lparr>used := u\<rparr>))"

lemma does_field_type: "does h (resolve_field_type rep h U r l) (field_typed r l)"
  unfolding does_outcome
proof
  fix st :: "'a lstate"
  show "outcome h st (resolve_field_type rep h U r l st) (field_typed r l st)"
  proof (cases "fl_typeName (field_of l st) = []")
    case True
    then show ?thesis by (simp add: resolve_field_type_def field_typed_def outcome_return)
  next
    case False
    show ?thesis
      unfolding resolve_field_type_def Let_def if_not_P [OF False]
    proof (rule outcome_resolved, goal_cases)
      case (1 x u)
      have typed: "field_typed r l st (put_field l k' (st\<lparr>used := u\<rparr>))"
        if "x = Some d" "\<not> isSentinelDescriptor d" "typed_as d (field_of l st) k'" for d k'
        using that 1 False by (auto simp: field_typed_def)
      show ?case
        by (auto intro!: outcome_complain outcome_return outcome_panic typed
            simp: typed_as_def is_message_def is_enum_def split: option.split descriptor.split elem.split bool.split)
    qed simp
  qed
qed

subsection \<open>Extendees\<close>

definition nodes_of :: "'r lstate \<Rightarrow> nat set" where
  "nodes_of st = (case extendeeNodes st of Some ns \<Rightarrow> ns | None \<Rightarrow> {})"

definition note_node :: "bool \<Rightarrow> linfo leaf \<Rightarrow> 'r lstate \<Rightarrow> 'r lstate" where
  "note_node tracked l st = (if tracked then st\<lparr>extendeeNodes := Some (insert (extendee_node (leaf_data l)) (nodes_of st))\<rparr> else st)"

definition extended :: "lfile \<Rightarrow> linfo leaf \<Rightarrow> descriptor \<Rightarrow> bool" where
  "extended r l d \<longleftrightarrow> is_message d \<and>
     (case d of Desc _ _ _ (EMessage m) \<Rightarrow> in_ranges (fnumber (leaf_data l)) (extensionRange (msg_data m)) | _ \<Rightarrow> False)"

text \<open>The extendee is a message and the extension is registered, and \<open>S\<close> goes on from there; or the
  extendee is not a message, but its node was seen before and nothing more is done.\<close>

definition extendee_linked ::
  "lfile \<Rightarrow> bool \<Rightarrow> linfo leaf \<Rightarrow> ('r lstate \<Rightarrow> 'r lstate \<Rightarrow> bool) \<Rightarrow> 'r lstate \<Rightarrow> 'r lstate \<Rightarrow> bool" where
  "extendee_linked r tracked l S st st' \<longleftrightarrow>
     (\<exists>x u. resolve r (fl_extendee (field_of l st)) False (scopes st) (used st) = Some (x, u) \<and>
        ((\<exists>d ss. x = Some d \<and> extended r l d \<and>
            S (put_field l ((field_of l st)\<lparr>fl_extendeeDesc := Some d, fl_extendee := ''.'' @ dFullName d\<rparr>)
                 ((note_node tracked l st)\<lparr>used := u, sst := ss\<rparr>)) st') \<or>
         tracked \<and> extendee_node (leaf_data l) \<in> nodes_of st \<and> (\<nexists>d. x = Some d \<and> is_message d)))"

lemma note_node_simps [simp]:
  "sst (note_node t l st) = sst st" "flinks (note_node t l st) = flinks st" "mlinks (note_node t l st) = mlinks st"
  "scopes (note_node t l st) = scopes st" "used (note_node t l st) = used st" "field_of k (note_node t l st) = field_of k st"
  "nodes_of (note_node t l st) = (if t then insert (extendee_node (leaf_data l)) (nodes_of st) else nodes_of st)"
  by (simp_all add: note_node_def nodes_of_def)

lemma outcome_then:
  assumes "outcome h st p Q'" "does h b S" "\<And>st1 st2. Q' st1 \<Longrightarrow> S st1 st2 \<Longrightarrow> Q st2"
  shows "outcome h st (case p of (None, st1) \<Rightarrow> b st1 | (Some e, st1) \<Rightarrow> (Some e, st1)) Q"
proof (cases p)
  case (Pair res st1)
  have "outcome h st1 (b st1) (S st1)" using assms(2) by (simp add: does_outcome)
  with assms(1,3) Pair show ?thesis
    by (cases res; cases "b st1") (auto simp: outcome_def)
qed

lemma andThen_update: "andThen (\<lambda>st. (None, f st)) a st = a (f st)"
  by (simp add: andThen_def)

lemma is_messageE:
  assumes "is_message d"
  obtains path pkg par m where "d = Desc path pkg par (EMessage m)"
proof (cases d)
  case (Desc path pkg par e)
  with assms that show ?thesis by (cases e) (auto simp: is_message_def)
qed (use assms in \<open>simp add: is_message_def\<close>)

lemma does_extendee:
  assumes "does h cont S"
  shows "does h (resolve_extendee rep h r tracked l cont) (extendee_linked r tracked l S)"
  unfolding does_outcome
proof
  fix st :: "'a lstate"
  let ?name = "fl_extendee (field_of l st)" and ?st = "note_node tracked l st"
  show "outcome h st (resolve_extendee rep h r tracked l cont st) (extendee_linked r tracked l S st)"
    unfolding resolve_extendee_def Let_def nodes_of_def [symmetric] note_node_def [symmetric]
  proof (rule outcome_resolved, goal_cases)
    case (1 x u)
    let ?already = "tracked \<and> extendee_node (leaf_data l) \<in> nodes_of st"
    have res: "resolve r ?name False (scopes st) (used st) = Some (x, u)" using 1 by simp
    have refuse: "outcome h st ((if ?already then skip else complain rep h sp msg) (?st\<lparr>used := u\<rparr>)) (extendee_linked r tracked l S st)"
      if "\<nexists>d. x = Some d \<and> is_message d" for sp msg
      using that res by (auto simp: skip_def extendee_linked_def intro!: outcome_complain outcome_return)
    show ?case
    proof (cases "\<exists>d. x = Some d \<and> is_message d")
      case True
      then obtain path pkg par m where x: "x = Some (Desc path pkg par (EMessage m))"
        by (auto elim: is_messageE)
      let ?d = "Desc path pkg par (EMessage m)"
      let ?put = "\<lambda>st :: 'a lstate. put_field l ((field_of l st)\<lparr>fl_extendeeDesc := Some ?d, fl_extendee := ''.'' @ dFullName ?d\<rparr>) st"
      have d: "\<not> isSentinelDescriptor ?d" "is_message ?d" by (simp_all add: isSentinelDescriptor_def is_message_def)
      let ?range = "in_ranges (fnumber (leaf_data l)) (extensionRange (msg_data m))"
      let ?check = "if \<not> ?range then complain rep h (tag_span (leaf_data l)) (field_kind l @ '' '' @ leaf_name l @ '': tag '' @ show_int (fnumber (leaf_data l)) @
              '' is not in valid range for extended type '' @ dFullName ?d)
          else on_symbols (AddExtension rep h pkg (dFullName ?d) (fnumber (leaf_data l)) (tag_span (leaf_data l)))"
      have "does h ?check (\<lambda>st st'. ?range \<and> (\<exists>ss. st' = st\<lparr>sst := ss\<rparr>))"
        using does_complain [of h rep] does_on_symbols [OF safe_AddExtension [of "{}"]] by (auto elim: does_mono)
      from does_andThen [OF this assms]
      have "outcome h st (andThen ?check cont (?put (?st\<lparr>used := u\<rparr>))) (extendee_linked r tracked l S st)"
      proof (rule outcome_does)
        fix st' assume "\<exists>st1. (?range \<and> (\<exists>ss. st1 = (?put (?st\<lparr>used := u\<rparr>))\<lparr>sst := ss\<rparr>)) \<and> S st1 st'"
        then obtain ss where "?range" "S ((?put (?st\<lparr>used := u\<rparr>))\<lparr>sst := ss\<rparr>) st'" by blast
        moreover have "(?put (?st\<lparr>used := u\<rparr>))\<lparr>sst := ss\<rparr> =
            put_field l ((field_of l st)\<lparr>fl_extendeeDesc := Some ?d, fl_extendee := ''.'' @ dFullName ?d\<rparr>) (?st\<lparr>used := u, sst := ss\<rparr>)"
          by (simp add: put_field_def)
        ultimately show "extendee_linked r tracked l S st st'"
          using res x d unfolding extendee_linked_def extended_def by fastforce
      qed simp
      then show ?thesis using x d by (simp add: andThen_update)
    next
      case False
      then show ?thesis using refuse by (auto simp: is_message_def split: option.split descriptor.split elem.split)
    qed
  qed simp
qed

subsection \<open>Linked fields\<close>

definition extendee_ok :: "lfile \<Rightarrow> linfo leaf \<Rightarrow> field_link \<Rightarrow> bool" where
  "extendee_ok r l k \<longleftrightarrow> (\<exists>d. refers r d \<and> extended r l d \<and> fl_extendeeDesc k = Some d \<and> fl_extendee k = ''.'' @ dFullName d)"

definition type_ok :: "lfile \<Rightarrow> linfo leaf \<Rightarrow> field_link \<Rightarrow> bool" where
  "type_ok r l k \<longleftrightarrow>
     (if ftypeName (leaf_data l) = [] then fl_type k = ftype (leaf_data l) \<and> fl_msgType k = None \<and> fl_enumType k = None
      else \<exists>d. refers r d \<and> fl_typeName k = ''.'' @ dFullName d \<and>
             (is_message d \<and> fl_msgType k = Some d \<and> fl_enumType k = None \<and> fl_type k \<in> {Some TYPE_MESSAGE, Some TYPE_GROUP} \<or>
              is_enum d \<and> fl_enumType k = Some d \<and> fl_msgType k = None \<and> fl_type k = Some TYPE_ENUM))"

definition field_ok :: "lfile \<Rightarrow> linfo leaf \<Rightarrow> field_link \<Rightarrow> bool" where
  "field_ok r l k \<longleftrightarrow> type_ok r l k \<and> (IsExtension l \<longrightarrow> extendee_ok r l k)"

definition only_field :: "linfo leaf \<Rightarrow> 'r lstate \<Rightarrow> 'r lstate \<Rightarrow> bool" where
  "only_field l st st' \<longleftrightarrow> (\<forall>n. n \<noteq> leaf_name l \<longrightarrow> flinks st' n = flinks st n) \<and> mlinks st' = mlinks st \<and> scopes st' = scopes st"

text \<open>A field whose type is still as the parser left it.\<close>

definition untyped :: "linfo leaf \<Rightarrow> field_link \<Rightarrow> bool" where
  "untyped l k \<longleftrightarrow> fl_typeName k = ftypeName (leaf_data l) \<and> fl_type k = ftype (leaf_data l) \<and>
     fl_msgType k = None \<and> fl_enumType k = None"

lemma isSentinel_not: "is_message d \<Longrightarrow> \<not> isSentinelDescriptor d" "is_enum d \<Longrightarrow> \<not> isSentinelDescriptor d"
  by (auto simp: is_message_def is_enum_def isSentinelDescriptor_def split: descriptor.splits)

lemma field_typed_ok:
  assumes "linkable r" "field_typed r l st st'" "untyped l (field_of l st)" "list_all scope_ok (scopes st)"
    "\<not> HasPrefix (ftypeName (leaf_data l)) ''..''"
  shows "type_ok r l (field_of l st') \<and> only_field l st st' \<and> nodes_of st' = nodes_of st \<and>
    fl_extendeeDesc (field_of l st') = fl_extendeeDesc (field_of l st) \<and> fl_extendee (field_of l st') = fl_extendee (field_of l st)"
proof (cases "ftypeName (leaf_data l) = []")
  case True
  with assms(2,3) have "st' = st" by (simp add: field_typed_def untyped_def)
  with True assms(3) show ?thesis by (simp add: type_ok_def only_field_def untyped_def)
next
  case False
  with assms(2,3) obtain d u k' where res: "resolve r (ftypeName (leaf_data l)) True (scopes st) (used st) = Some (Some d, u)"
    and d: "\<not> isSentinelDescriptor d" "typed_as d (field_of l st) k'" and st': "st' = put_field l k' (st\<lparr>used := u\<rparr>)"
    by (auto simp: field_typed_def untyped_def)
  have "refers r d"
    using resolution_refers [OF assms(1,4,5) resolve_resolution [OF assms(1) res] d(1)] .
  with False d assms(3) st' show ?thesis
    by (auto simp: type_ok_def typed_as_def only_field_def untyped_def nodes_of_def)
qed

definition oneof_set :: "linfo leaf \<Rightarrow> 'r lstate \<Rightarrow> 'r lstate \<Rightarrow> bool" where
  "oneof_set l st st' \<longleftrightarrow> st' = st \<or> (\<exists>x. st' = put_field l ((field_of l st)\<lparr>fl_oneof := x\<rparr>) st)"

lemma does_set_oneof: "does h (set_oneof r l) (oneof_set l)"
  unfolding does_outcome set_oneof_def
  by (auto intro!: outcome_return outcome_panic simp: oneof_set_def split: option.split descriptor.split elem.split)

definition field_linked :: "lfile \<Rightarrow> bool \<Rightarrow> linfo leaf \<Rightarrow> 'r lstate \<Rightarrow> 'r lstate \<Rightarrow> bool" where
  "field_linked r tracked l st st' \<longleftrightarrow>
     (if IsExtension l then extendee_linked r tracked l (field_typed r l) st st'
      else \<exists>st1. oneof_set l st st1 \<and> field_typed r l st1 st')"

lemma does_resolveFieldTypes: "does h (resolveFieldTypes rep h U r tracked l) (field_linked r tracked l)"
proof (cases "IsExtension l")
  case True
  then show ?thesis unfolding resolveFieldTypes_def if_P [OF True]
    by (intro does_mono [OF does_extendee [OF does_field_type]]) (simp add: field_linked_def)
next
  case False
  then show ?thesis unfolding resolveFieldTypes_def if_not_P [OF False]
    by (intro does_mono [OF does_andThen [OF does_set_oneof does_field_type]]) (simp add: field_linked_def)
qed

definition resolvable :: "lfile \<Rightarrow> linfo leaf \<Rightarrow> scope list \<Rightarrow> bool" where
  "resolvable r l scs \<longleftrightarrow> (\<exists>d. resolution r (fextendee (leaf_data l)) False scs = Some d \<and> is_message d)"

lemma untyped_fresh: "flinks st (leaf_name l) = None \<Longrightarrow> untyped l (field_of l st)"
  "flinks st (leaf_name l) = None \<Longrightarrow> fl_extendee (field_of l st) = fextendee (leaf_data l)"
  by (simp_all add: untyped_def field_of_def Let_def)

definition references_ok :: "linfo leaf \<Rightarrow> bool" where
  "references_ok l \<longleftrightarrow> \<not> HasPrefix (ftypeName (leaf_data l)) ''..'' \<and> \<not> HasPrefix (fextendee (leaf_data l)) ''..'' \<and>
     \<not> HasPrefix (inputType (leaf_data l)) ''..'' \<and> \<not> HasPrefix (outputType (leaf_data l)) ''..''"

lemma nodes_of_frame [simp]: "nodes_of (put_field l k st) = nodes_of st" "nodes_of (st\<lparr>used := u\<rparr>) = nodes_of st"
  "nodes_of (st\<lparr>sst := ss\<rparr>) = nodes_of st"
  by (simp_all add: nodes_of_def)

lemma extension_linked_ok:
  assumes "linkable r" "extendee_linked r tracked l (field_typed r l) st st'" "flinks st (leaf_name l) = None"
    "list_all scope_ok (scopes st)" "references_ok l"
    "tracked \<Longrightarrow> extendee_node (leaf_data l) \<in> nodes_of st \<Longrightarrow> resolvable r l (scopes st)"
  shows "type_ok r l (field_of l st') \<and> extendee_ok r l (field_of l st') \<and> only_field l st st' \<and> resolvable r l (scopes st) \<and>
    nodes_of st' = (if tracked then insert (extendee_node (leaf_data l)) (nodes_of st) else nodes_of st)"
proof -
  obtain x u where res: "resolve r (fextendee (leaf_data l)) False (scopes st) (used st) = Some (x, u)"
    and alt: "(\<exists>d ss. x = Some d \<and> extended r l d \<and>
        field_typed r l (put_field l ((field_of l st)\<lparr>fl_extendeeDesc := Some d, fl_extendee := ''.'' @ dFullName d\<rparr>)
                 ((note_node tracked l st)\<lparr>used := u, sst := ss\<rparr>)) st') \<or>
      tracked \<and> extendee_node (leaf_data l) \<in> nodes_of st \<and> (\<nexists>d. x = Some d \<and> is_message d)"
    using assms(2) untyped_fresh(2) [OF assms(3)] unfolding extendee_linked_def by auto
  note rx = resolve_resolution [OF assms(1) res]
  from alt assms(6) rx obtain d ss where x: "x = Some d" "extended r l d"
    and typed: "field_typed r l (put_field l ((field_of l st)\<lparr>fl_extendeeDesc := Some d, fl_extendee := ''.'' @ dFullName d\<rparr>)
                 ((note_node tracked l st)\<lparr>used := u, sst := ss\<rparr>)) st'"
    by (auto simp: resolvable_def)
  have msg: "is_message d" using x(2) by (simp add: extended_def)
  have "refers r d"
    using resolution_refers [OF assms(1,4) _ rx [unfolded x(1)] isSentinel_not(1) [OF msg]] assms(5) by (simp add: references_ok_def)
  moreover have "resolvable r l (scopes st)" using rx x msg by (auto simp: resolvable_def)
  moreover note field_typed_ok [OF assms(1) typed]
  ultimately show ?thesis
    using x untyped_fresh(1) [OF assms(3)] assms(4,5)
    by (auto simp: extendee_ok_def only_field_def untyped_def references_ok_def split: if_splits)
qed

lemma field_linked_ok:
  assumes "linkable r" "field_linked r tracked l st st'" "flinks st (leaf_name l) = None"
    "list_all scope_ok (scopes st)" "references_ok l"
    "tracked \<Longrightarrow> IsExtension l \<Longrightarrow> extendee_node (leaf_data l) \<in> nodes_of st \<Longrightarrow> resolvable r l (scopes st)"
  shows "field_ok r l (field_of l st') \<and> only_field l st st' \<and> (IsExtension l \<longrightarrow> resolvable r l (scopes st)) \<and>
    nodes_of st' = (if tracked \<and> IsExtension l then insert (extendee_node (leaf_data l)) (nodes_of st) else nodes_of st)"
proof (cases "IsExtension l")
  case True
  with assms(2) have "extendee_linked r tracked l (field_typed r l) st st'" by (simp add: field_linked_def)
  from extension_linked_ok [OF assms(1) this assms(3,4,5)] assms(6) True show ?thesis by (auto simp: field_ok_def)
next
  case False
  with assms(2) obtain st1 where st1: "oneof_set l st st1" "field_typed r l st1 st'" by (auto simp: field_linked_def)
  have eqs: "untyped l (field_of l st1)" "scopes st1 = scopes st" "only_field l st st1" "nodes_of st1 = nodes_of st"
    using st1(1) untyped_fresh(1) [OF assms(3)] by (auto simp: oneof_set_def untyped_def only_field_def)
  from field_typed_ok [OF assms(1) st1(2) eqs(1)] assms(4,5) eqs False show ?thesis
    by (auto simp: field_ok_def only_field_def references_ok_def)
qed

section \<open>Methods\<close>

definition method_ok :: "lfile \<Rightarrow> method_link \<Rightarrow> bool" where
  "method_ok r k \<longleftrightarrow> (\<exists>i out. refers r i \<and> is_message i \<and> refers r out \<and> is_message out \<and>
     ml_inputName k = ''.'' @ dFullName i \<and> ml_inputType k = Some i \<and>
     ml_outputName k = ''.'' @ dFullName out \<and> ml_outputType k = Some out)"

lemma method_of_put [simp]: "method_of l (put_method l k st) = k"
  by (simp add: method_of_def put_method_def)

lemma put_method_simps [simp]:
  "sst (put_method l k st) = sst st" "flinks (put_method l k st) = flinks st" "scopes (put_method l k st) = scopes st"
  "nodes_of (put_method l k st) = nodes_of st" "mlinks (put_method l k st) = (mlinks st)(leaf_name l \<mapsto> k)"
  by (simp_all add: put_method_def nodes_of_def)

definition method_typed ::
  "lfile \<Rightarrow> linfo leaf \<Rightarrow> (method_link \<Rightarrow> string) \<Rightarrow> (descriptor \<Rightarrow> method_link \<Rightarrow> method_link) \<Rightarrow> 'r lstate \<Rightarrow> 'r lstate \<Rightarrow> bool" where
  "method_typed r l get put st st' \<longleftrightarrow>
     (\<exists>d u. resolve r (get (method_of l st)) False (scopes st) (used st) = Some (Some d, u) \<and> is_message d \<and>
        st' = put_method l (put d (method_of l st)) (st\<lparr>used := u\<rparr>))"

lemma does_method_type: "does h (resolve_method_type rep h r l what sp get put) (method_typed r l get put)"
  unfolding does_outcome
proof
  fix st :: "'a lstate"
  show "outcome h st (resolve_method_type rep h r l what sp get put st) (method_typed r l get put st)"
    unfolding resolve_method_type_def Let_def
  proof (rule outcome_resolved, goal_cases)
    case (1 x u)
    have m: "method_of l (st\<lparr>used := u\<rparr>) = method_of l st" by (simp add: method_of_def)
    show ?case using 1
      by (auto intro!: outcome_complain outcome_return
          simp: method_typed_def is_message_def m split: option.split descriptor.split elem.split)
  qed simp
qed

lemma method_linked_ok:
  assumes "linkable r" "list_all scope_ok (scopes st)" "references_ok l" "mlinks st (leaf_name l) = None"
    "method_typed r l ml_inputName (\<lambda>dsc k. k\<lparr>ml_inputName := ''.'' @ dFullName dsc, ml_inputType := Some dsc\<rparr>) st st1"
    "method_typed r l ml_outputName (\<lambda>dsc k. k\<lparr>ml_outputName := ''.'' @ dFullName dsc, ml_outputType := Some dsc\<rparr>) st1 st'"
  shows "method_ok r (method_of l st') \<and> flinks st' = flinks st \<and> scopes st' = scopes st \<and> nodes_of st' = nodes_of st \<and>
    (\<forall>n. n \<noteq> leaf_name l \<longrightarrow> mlinks st' n = mlinks st n)"
proof -
  have init: "ml_inputName (method_of l st) = inputType (leaf_data l)" "ml_outputName (method_of l st) = outputType (leaf_data l)"
    using assms(4) by (simp_all add: method_of_def Let_def)
  obtain i u where i: "resolve r (inputType (leaf_data l)) False (scopes st) (used st) = Some (Some i, u)" "is_message i"
    and st1: "st1 = put_method l ((method_of l st)\<lparr>ml_inputName := ''.'' @ dFullName i, ml_inputType := Some i\<rparr>) (st\<lparr>used := u\<rparr>)"
    using assms(5) init(1) by (auto simp: method_typed_def)
  obtain out u' where out: "resolve r (outputType (leaf_data l)) False (scopes st) (used st1) = Some (Some out, u')" "is_message out"
    and st': "st' = put_method l ((method_of l st1)\<lparr>ml_outputName := ''.'' @ dFullName out, ml_outputType := Some out\<rparr>) (st1\<lparr>used := u'\<rparr>)"
    using assms(6) init(2) st1 by (auto simp: method_typed_def)
  have "refers r i" "refers r out"
    using resolution_refers [OF assms(1,2)] resolve_resolution [OF assms(1) i(1)] resolve_resolution [OF assms(1) out(1)]
      isSentinel_not(1) i(2) out(2) assms(3) unfolding references_ok_def by blast+
  with i(2) out(2) show ?thesis by (auto simp: st' st1 method_ok_def)
qed

section \<open>Elements\<close>

definition opens :: "'a elem \<Rightarrow> bool" where
  "opens e = (case e of EMessage _ \<Rightarrow> True | EService _ \<Rightarrow> True | _ \<Rightarrow> False)"

definition elem_ok :: "lfile \<Rightarrow> linfo elem \<Rightarrow> 'r lstate \<Rightarrow> bool" where
  "elem_ok r e st =
     (case e of
        EField l \<Rightarrow> field_ok r l (field_of l st)
      | EExtension l \<Rightarrow> field_ok r l (field_of l st)
      | EMethod l \<Rightarrow> method_ok r (method_of l st)
      | _ \<Rightarrow> True)"

definition elem_references :: "linfo elem \<Rightarrow> bool" where
  "elem_references e = (case e of EField l \<Rightarrow> references_ok l | EExtension l \<Rightarrow> references_ok l | EMethod l \<Rightarrow> references_ok l | _ \<Rightarrow> True)"

text \<open>The node of an extendee that is tracked, and what later extensions with the same node rely on.\<close>

definition tracked_node :: "parsed \<Rightarrow> linfo elem \<Rightarrow> nat option" where
  "tracked_node p e = (case e of EExtension l \<Rightarrow> if hasAST p \<and> IsExtension l then Some (extendee_node (leaf_data l)) else None | _ \<Rightarrow> None)"

definition node_resolvable :: "lfile \<Rightarrow> linfo elem \<Rightarrow> scope list \<Rightarrow> bool" where
  "node_resolvable r e scs = (case e of EExtension l \<Rightarrow> resolvable r l scs | _ \<Rightarrow> True)"

definition ready :: "lfile \<Rightarrow> parsed \<Rightarrow> linfo elem \<Rightarrow> 'r lstate \<Rightarrow> bool" where
  "ready r p e st \<longleftrightarrow> list_all scope_ok (scopes st) \<and> flinks st (FullName e) = None \<and> mlinks st (FullName e) = None \<and>
     elem_references e \<and> (\<forall>n. tracked_node p e = Some n \<and> n \<in> nodes_of st \<longrightarrow> node_resolvable r e (scopes st))"

definition step_ok :: "lfile \<Rightarrow> parsed \<Rightarrow> linfo elem \<Rightarrow> 'r lstate \<Rightarrow> 'r lstate \<Rightarrow> bool" where
  "step_ok r p e st st' \<longleftrightarrow> elem_ok r e st' \<and>
     (\<forall>n. n \<noteq> FullName e \<longrightarrow> flinks st' n = flinks st n \<and> mlinks st' n = mlinks st n) \<and>
     scopes st' = (if opens e then scopes st @ [MessageScope (FullName e)] else scopes st) \<and>
     nodes_of st' = (case tracked_node p e of Some n \<Rightarrow> insert n (nodes_of st) | None \<Rightarrow> nodes_of st) \<and>
     (tracked_node p e \<noteq> None \<longrightarrow> node_resolvable r e (scopes st))"

lemma frame_nodes: "frame st st' \<Longrightarrow> nodes_of st' = nodes_of st"
  by (simp add: frame_def nodes_of_def)

lemma frame_ready: "frame st st1 \<Longrightarrow> ready r p e st \<Longrightarrow> ready r p e st1"
  using frame_nodes [of st st1] by (simp add: frame_def ready_def)

lemma frame_step: "frame st st1 \<Longrightarrow> step_ok r p e st1 st' \<Longrightarrow> step_ok r p e st st'"
  using frame_nodes [of st st1] by (auto simp: frame_def step_ok_def split: option.splits)

lemma step_frame: "step_ok r p e st st1 \<Longrightarrow> frame st1 st' \<Longrightarrow> step_ok r p e st st'"
  using frame_nodes [of st1 st']
  by (auto simp: frame_def step_ok_def elem_ok_def field_of_def method_of_def split: elem.splits)

lemma does_options_then:
  assumes "does h a (\<lambda>st st'. ready r p e st \<longrightarrow> step_ok r p e st st')"
  shows "does h (andThen (resolveOptions rep h r ast ty nm opts) a) (\<lambda>st st'. ready r p e st \<longrightarrow> step_ok r p e st st')"
  by (rule does_mono [OF does_andThen [OF does_resolveOptions assms]]) (blast intro: frame_ready frame_step)

lemma does_options_only:
  assumes "tracked_node p e = None" "\<not> opens e" "\<And>st :: 'r lstate. elem_ok r e st"
  shows "does h (resolveOptions rep h r ast ty nm opts :: 'r lact) (\<lambda>st st'. ready r p e st \<longrightarrow> step_ok r p e st st')"
  by (rule does_mono [OF does_resolveOptions]) (use assms in \<open>auto simp: step_ok_def frame_def nodes_of_def\<close>)

lemma does_push: "does h (push_scope n) (\<lambda>st st'. st' = st\<lparr>scopes := scopes st @ [MessageScope n]\<rparr>)"
  unfolding push_scope_def by (rule does_update) simp

lemma does_push_step:
  "opens e \<Longrightarrow> does h (push_scope (FullName e)) (\<lambda>st st'. ready r p e st \<longrightarrow> step_ok r p e st st')"
  by (rule does_mono [OF does_push])
     (auto simp: step_ok_def opens_def elem_ok_def tracked_node_def nodes_of_def split: elem.splits)

lemma does_field_step:
  assumes "linkable r"
  shows "does h (resolveFieldTypes rep h U r False l) (\<lambda>st st'. ready r p (EField l) st \<longrightarrow> step_ok r p (EField l) st st')"
proof (rule does_mono [OF does_resolveFieldTypes], rule impI)
  fix st st' assume "field_linked r False l st st'" and rd: "ready r p (EField l) st"
  from field_linked_ok [OF assms this(1)] rd show "step_ok r p (EField l) st st'"
    by (auto simp: ready_def step_ok_def elem_ok_def opens_def tracked_node_def elem_references_def only_field_def)
qed

lemma does_extension_step:
  assumes "linkable r"
  shows "does h (resolveFieldTypes rep h U r (hasAST p) l) (\<lambda>st st'. ready r p (EExtension l) st \<longrightarrow> step_ok r p (EExtension l) st st')"
proof (rule does_mono [OF does_resolveFieldTypes], rule impI)
  fix st st' assume "field_linked r (hasAST p) l st st'" and rd: "ready r p (EExtension l) st"
  from field_linked_ok [OF assms this(1)] rd show "step_ok r p (EExtension l) st st'"
    by (auto simp: ready_def step_ok_def elem_ok_def opens_def tracked_node_def elem_references_def only_field_def
        node_resolvable_def split: if_splits)
qed

lemma does_method_step:
  assumes "linkable r"
  shows "does h (resolveMethodTypes rep h r l) (\<lambda>st st'. ready r p (EMethod l) st \<longrightarrow> step_ok r p (EMethod l) st st')"
  unfolding resolveMethodTypes_def
proof (rule does_mono [OF does_andThen [OF does_method_type does_method_type]], rule impI, elim exE conjE)
  fix st st1 st'
  assume "method_typed r l ml_inputName (\<lambda>dsc k. k\<lparr>ml_inputName := ''.'' @ dFullName dsc, ml_inputType := Some dsc\<rparr>) st st1"
    "method_typed r l ml_outputName (\<lambda>dsc k. k\<lparr>ml_outputName := ''.'' @ dFullName dsc, ml_outputType := Some dsc\<rparr>) st1 st'"
    and rd: "ready r p (EMethod l) st"
  from method_linked_ok [OF assms _ _ _ this(1,2)] rd show "step_ok r p (EMethod l) st st'"
    by (auto simp: ready_def step_ok_def elem_ok_def opens_def tracked_node_def elem_references_def)
qed

lemma does_then_frame:
  "does h a (\<lambda>st st'. ready r p e st \<longrightarrow> step_ok r p e st st') \<Longrightarrow> does h b frame \<Longrightarrow>
   does h (andThen a b) (\<lambda>st st'. ready r p e st \<longrightarrow> step_ok r p e st st')"
  by (rule does_mono [OF does_andThen]) (blast intro: step_frame)+

lemma does_proto3: "does h (proto3_extendee rep h p l) frame"
  unfolding does_outcome proto3_extendee_def by (auto intro: outcome_complain outcome_return)

lemma does_enter:
  fixes rep :: "'r reporter"
  assumes "linkable r"
  shows "does h (enter_elem rep h U r p e) (\<lambda>st st'. ready r p e st \<longrightarrow> step_ok r p e st st')"
proof (cases e)
  case (EMessage m)
  have "does h (run_all (map (range_options rep h r p (msg_name m)) (extensionRange (msg_data m)))) frame"
    by (rule does_run_all) (auto simp: range_options_def intro: does_resolveOptions frame_trans)
  moreover have "does h (push_scope (FullName e) :: 'r lact) (\<lambda>st st'. ready r p e st \<longrightarrow> step_ok r p e st st')"
    by (rule does_push_step) (simp add: opens_def EMessage)
  ultimately show ?thesis unfolding EMessage by (auto intro!: does_options_then does_then_frame)
next
  case (EService svc)
  have "does h (push_scope (FullName e) :: 'r lact) (\<lambda>st st'. ready r p e st \<longrightarrow> step_ok r p e st st')"
    by (rule does_push_step) (simp add: opens_def EService)
  then show ?thesis unfolding EService by (auto intro!: does_options_then)
qed (auto simp: opens_def elem_ok_def tracked_node_def
    intro!: does_options_then does_options_only does_field_step does_extension_step does_method_step does_then_frame does_proto3 assms)

section \<open>A file\<close>

text \<open>The elements that a traversal enters, each with the scopes that are open then.\<close>

fun trace :: "scope list \<Rightarrow> 'a elem event list \<Rightarrow> (scope list \<times> 'a elem) list" where
  "trace sc [] = []"
| "trace sc (Enter e # es) = (sc, e) # trace (if opens e then sc @ [MessageScope (FullName e)] else sc) es"
| "trace sc (Exit e # es) = trace (if opens e then butlast sc else sc) es"

definition file_trace :: "'a filep \<Rightarrow> (scope list \<times> 'a elem) list" where
  "file_trace f = trace [FileScope] (map elem_of (ev_file f))"

lemma trace_elems: "map snd (trace sc (map elem_of es)) = concat (map entered_elem es)"
proof (induction es arbitrary: sc)
  case (Cons ev es)
  then show ?case by (cases ev) auto
qed simp

text \<open>The extensions of one \<open>extend\<close> block, which share the node of their extendee, name the same extendee
  and are in the same scope.\<close>

definition agree_on_block :: "parsed \<Rightarrow> scope list \<times> linfo elem \<Rightarrow> scope list \<times> linfo elem \<Rightarrow> bool" where
  "agree_on_block p x y \<longleftrightarrow>
     (tracked_node p (snd x) \<noteq> None \<and> tracked_node p (snd y) = tracked_node p (snd x) \<longrightarrow>
        fst y = fst x \<and> fextendee (elem_data (snd y)) = fextendee (elem_data (snd x)))"

definition extend_blocks_ok :: "parsed \<Rightarrow> (scope list \<times> linfo elem) list \<Rightarrow> bool" where
  "extend_blocks_ok p tr \<longleftrightarrow> (\<forall>x \<in> set tr. \<forall>y \<in> set tr. agree_on_block p x y)"

definition name_ok :: "full_name \<Rightarrow> bool" where
  "name_ok n \<longleftrightarrow> n \<noteq> [] \<and> \<not> absolute n"

lemma does_exit: "does h (exit_elem e) (\<lambda>st st'. st' = st\<lparr>scopes := if opens e then butlast (scopes st) else scopes st\<rparr>)"
proof -
  have "does h pop_scope (\<lambda>st st'. st' = st\<lparr>scopes := butlast (scopes st)\<rparr>)"
    unfolding pop_scope_def by (rule does_update) simp
  then show ?thesis by (cases e) (auto simp: opens_def intro: does_mono [OF does_skip])
qed

lemma node_resolvable_block:
  assumes "extend_blocks_ok p tr" "(sc, e) \<in> set tr" "(sc', e') \<in> set tr" "tracked_node p e = Some n" "tracked_node p e' = Some n"
    "node_resolvable r e sc"
  shows "node_resolvable r e' sc'"
proof -
  obtain l l' where e: "e = EExtension l" "e' = EExtension l'"
    using assms(4,5) by (auto simp: tracked_node_def split: elem.splits)
  have "sc' = sc" "fextendee (leaf_data l') = fextendee (leaf_data l)"
    using assms(1-5) e by (force simp: extend_blocks_ok_def agree_on_block_def)+
  with assms(6) e show ?thesis by (simp add: node_resolvable_def resolvable_def)
qed

lemma elem_ok_later:
  assumes "elem_ok r e st" "flinks st' (FullName e) = flinks st (FullName e)" "mlinks st' (FullName e) = mlinks st (FullName e)"
  shows "elem_ok r e st'"
  using assms by (cases e) (simp_all add: elem_ok_def field_of_def method_of_def)

abbreviation visit_elem :: "'r reporter \<Rightarrow> nat \<Rightarrow> unicode \<Rightarrow> lfile \<Rightarrow> parsed \<Rightarrow> linfo elem event \<Rightarrow> 'r lact" where
  "visit_elem rep h U r p \<equiv> callback (enter_elem rep h U r p) (Some exit_elem)"

lemma does_visits:
  assumes "linkable r"
  shows "does h (run_all (map (visit_elem rep h U r p) es)) (\<lambda>_ _. True)"
proof (rule does_run_all)
  fix a assume "a \<in> set (map (visit_elem rep h U r p) es)"
  then obtain ev where ev: "a = visit_elem rep h U r p ev" by auto
  show "does h a (\<lambda>_ _. True)"
    unfolding ev by (cases ev) (auto simp: call_exit_def intro: does_mono [OF does_exit] does_mono [OF does_enter [OF assms]])
qed simp_all

text \<open>What the elements still to be visited rely on.\<close>

definition pending :: "lfile \<Rightarrow> parsed \<Rightarrow> (scope list \<times> linfo elem) list \<Rightarrow> 'r lstate \<Rightarrow> bool" where
  "pending r p tr st \<longleftrightarrow> list_all scope_ok (scopes st) \<and> distinct (map (\<lambda>x. FullName (snd x)) tr) \<and> extend_blocks_ok p tr \<and>
     (\<forall>(sc, e) \<in> set tr. name_ok (FullName e) \<and> elem_references e \<and>
        flinks st (FullName e) = None \<and> mlinks st (FullName e) = None \<and>
        (\<forall>n. tracked_node p e = Some n \<and> n \<in> nodes_of st \<longrightarrow> node_resolvable r e sc))"

lemma pending_ready: "pending r p ((scopes st, e) # tr) st \<Longrightarrow> ready r p e st"
  by (simp add: pending_def ready_def)

lemma pending_cong:
  "pending r p tr st \<Longrightarrow> flinks st1 = flinks st \<Longrightarrow> mlinks st1 = mlinks st \<Longrightarrow> nodes_of st1 = nodes_of st \<Longrightarrow>
   list_all scope_ok (scopes st1) \<Longrightarrow> pending r p tr st1"
  by (simp add: pending_def)

lemma extend_blocks_tl: "extend_blocks_ok p (x # tr) \<Longrightarrow> extend_blocks_ok p tr"
  by (simp add: extend_blocks_ok_def)

lemma pending_enter:
  assumes "pending r p ((scopes st, e) # tr) st" "step_ok r p e st st1"
  shows "pending r p tr st1"
proof -
  have e_name: "name_ok (FullName e)" "FullName e \<notin> (\<lambda>x. FullName (snd x)) ` set tr"
    using assms(1) by (auto simp: pending_def)
  have "list_all scope_ok (scopes st1)"
    using assms e_name(1) by (auto simp: pending_def step_ok_def list_all_iff scope_ok_def name_ok_def)
  moreover have "name_ok (FullName e') \<and> elem_references e' \<and> flinks st1 (FullName e') = None \<and> mlinks st1 (FullName e') = None \<and>
      (\<forall>n. tracked_node p e' = Some n \<and> n \<in> nodes_of st1 \<longrightarrow> node_resolvable r e' sc')"
    if x: "(sc', e') \<in> set tr" for sc' e'
  proof -
    have "FullName e' \<noteq> FullName e" using x e_name(2) by force
    moreover have "node_resolvable r e' sc'" if n: "tracked_node p e' = Some n" "n \<in> nodes_of st1" for n
    proof (cases "n \<in> nodes_of st")
      case True
      with n(1) x assms(1) show ?thesis by (auto simp: pending_def)
    next
      case False
      with n(2) assms(2) have "tracked_node p e = Some n" "node_resolvable r e (scopes st)"
        by (auto simp: step_ok_def split: option.splits)
      from node_resolvable_block [OF _ _ _ this(1) n(1) this(2)] assms(1) x show ?thesis
        unfolding pending_def by (meson list.set_intros)
    qed
    ultimately show ?thesis using assms x by (auto simp: pending_def step_ok_def)
  qed
  ultimately show ?thesis using assms(1) by (auto simp: pending_def dest: extend_blocks_tl)
qed

abbreviation trace_names :: "(scope list \<times> linfo elem) list \<Rightarrow> full_name set" where
  "trace_names tr \<equiv> (\<lambda>x. FullName (snd x)) ` set tr"

lemma run_references:
  assumes "linkable r"
    and "run_all (map (visit_elem rep h U r p) es) st = (None, st')" "fine h st'" "lgood h st"
    and "pending r p (trace (scopes st) es) st"
  shows "(\<forall>(sc, e) \<in> set (trace (scopes st) es). elem_ok r e st') \<and>
    (\<forall>n. n \<notin> trace_names (trace (scopes st) es) \<longrightarrow> flinks st' n = flinks st n \<and> mlinks st' n = mlinks st n)"
  using assms(2-)
proof (induction es arbitrary: st)
  case Nil
  then show ?case by (simp add: skip_def)
next
  case (Cons ev es)
  obtain st1 where first: "visit_elem rep h U r p ev st = (None, st1)"
    and rest: "run_all (map (visit_elem rep h U r p) es) st1 = (None, st')"
    using Cons.prems(1) by (auto simp: andThen_def split: prod.splits option.splits)
  have v: "does h (run_all (map (visit_elem rep h U r p) es)) (\<lambda>_ _. True)" by (rule does_visits [OF assms(1)])
  show ?case
  proof (cases ev)
    case (Exit e)
    have ex: "does h (visit_elem rep h U r p ev) (\<lambda>st st'. st' = st\<lparr>scopes := if opens e then butlast (scopes st) else scopes st\<rparr>)"
      unfolding Exit by (simp add: call_exit_def does_exit)
    have g1: "lgood h st1" using ex [unfolded does_def, rule_format, OF Cons.prems(3) first] by blast
    have st1: "st1 = st\<lparr>scopes := if opens e then butlast (scopes st) else scopes st\<rparr>"
      using doesD(3) [OF ex Cons.prems(3) first doesD(2) [OF v g1 rest Cons.prems(2)]] .
    have tr: "trace (scopes st1) es = trace (scopes st) (ev # es)" by (simp add: st1 Exit)
    have "list_all scope_ok (scopes st1)"
      using Cons.prems(4) by (auto simp: pending_def st1 list_all_iff dest: in_set_butlastD)
    then have "pending r p (trace (scopes st1) es) st1"
      unfolding tr by (intro pending_cong [OF Cons.prems(4)]) (simp_all add: st1 nodes_of_def)
    from Cons.IH [OF rest Cons.prems(2) g1 this] show ?thesis unfolding tr by (simp add: st1)
  next
    case (Enter e)
    let ?tr = "trace (scopes st1) es"
    have en: "does h (visit_elem rep h U r p ev) (\<lambda>st st'. ready r p e st \<longrightarrow> step_ok r p e st st')"
      unfolding Enter by (simp add: does_enter [OF assms(1)])
    have g1: "lgood h st1" using en [unfolded does_def, rule_format, OF Cons.prems(3) first] by blast
    have pend: "pending r p ((scopes st, e) # trace (if opens e then scopes st @ [MessageScope (FullName e)] else scopes st) es) st"
      using Cons.prems(4) by (simp add: Enter)
    then have S: "step_ok r p e st st1"
      using doesD(3) [OF en Cons.prems(3) first doesD(2) [OF v g1 rest Cons.prems(2)]] pending_ready by blast
    then have tr: "trace (scopes st) (ev # es) = (scopes st, e) # ?tr" by (simp add: step_ok_def Enter)
    have pend1: "pending r p ?tr st1" using pending_enter [of r p st e ?tr st1] Cons.prems(4) S unfolding tr by blast
    note IH = Cons.IH [OF rest Cons.prems(2) g1 pend1]
    have "FullName e \<notin> trace_names ?tr" using Cons.prems(4) unfolding tr by (auto simp: pending_def)
    then have "elem_ok r e st'" using elem_ok_later [of r e st1 st'] S IH by (simp add: step_ok_def)
    with IH S show ?thesis unfolding tr step_ok_def by auto
  qed
qed

section \<open>Linking\<close>

lemma safe_importResult: "safe_act UNIV h (importResult rep h fd)"
  unfolding safe_act_def
proof (intro allI impI)
  fix st res and st' :: "'a sstate"
  assume g: "good h st" and run: "importResult rep h fd st = (res, st')"
  obtain pkg err st1 where 1: "importPackages rep h (packageNameSpan fd) (fpackage (fd_file fd)) st = ((pkg, err), st1)"
    by (metis surj_pair)
  note P = importPackages_spec [OF g 1, of UNIV]
  then have g1: "good h st1" using safe_good [OF g] by blast
  show "safe UNIV h st st'"
  proof (cases pkg)
    case None
    with run 1 P show ?thesis by (simp add: importResult_def)
  next
    case (Some n)
    with P have n: "err = None" "n < length (nodes (stab st1))" by auto
    obtain ok e where 2: "package_importResult rep h n fd st1 = ((ok, e), st')"
      using run 1 Some n(1) by (auto simp: importResult_def split: prod.splits)
    then have "safe UNIV h st1 st'" using safe_import_file [OF g1 n(2), of fd UNIV rep ok e st'] by simp
    with P show ?thesis by (blast intro: safe_trans)
  qed
qed

lemma does_import_deps: "does h (import_deps rep h view deps imps) (\<lambda>_ _. True)"
proof (induction imps)
  case (Cons imp imps)
  show ?case
  proof (cases "FindFileByPath deps imp")
    case (Some dep)
    have "does h (on_symbols (Import rep h (view dep))) (\<lambda>st st'. \<exists>ss. st' = st\<lparr>sst := ss\<rparr>)"
      by (rule does_on_symbols [OF safe_Import [OF subset_UNIV]])
    from does_mono [OF does_andThen [OF this Cons]] Some show ?thesis by auto
  qed (auto simp: does_def)
qed (auto intro: does_mono [OF does_skip])

lemma import_deps_found:
  "import_deps rep h view deps imps st = (None, st') \<Longrightarrow> \<forall>imp \<in> set imps. FindFileByPath deps imp \<noteq> None"
proof (induction imps arbitrary: st)
  case (Cons imp imps)
  then show ?case by (auto simp: andThen_def split: option.splits prod.splits)
qed simp

text \<open>Files that were linked before: all their imports are there and they know their descriptors by full
  name.\<close>

definition linked_dep :: "lfile \<Rightarrow> bool" where
  "linked_dep d \<longleftrightarrow> imports_found d \<and> (\<forall>f \<in> lf_tree d. \<forall>n x. lf_descs f n = Some x \<longrightarrow> dFullName x = n \<and> \<not> absolute n)"

lemma exports_tree: "exports f k \<Longrightarrow> k \<in> lf_tree f"
proof (induction rule: exports.induct)
  case (exports_public p f g k)
  then show ?case using lf_tree_dep FindImportByPath_in by blast
qed (rule lf_tree_self)

lemma available_tree: "available f k \<Longrightarrow> k = f \<or> (\<exists>d \<in> set (lf_deps f). k \<in> lf_tree d)"
  by (cases rule: available.cases) (use exports_tree FindImportByPath_in in blast)+

lemma new_result_parts:
  assumes "new_result p deps = Some r"
  shows "lf_path r = p_name p" "lf_package r = fpackage (p_file p)" "lf_file r = linked_file (p_file p)" "lf_deps r = deps"
    "map fst (lf_imports r) = p_dependency p"
    "lf_descs r = map_of (rev (map (\<lambda>(par, e). (FullName e, Desc (p_name p) (fpackage (p_file p)) par e)) (decls (lf_file r))))"
  using assms
  by (auto simp: new_result_def createDescendants_eq createImports_def comp_def case_prod_beta'
      split: Option.bind_splits if_splits)

lemma lf_tree_unfold: "lf_tree f = insert f (\<Union> (lf_tree ` set (lf_deps f)))"
  by (cases f) simp

lemma new_result_linkable:
  assumes "new_result p deps = Some r" "\<forall>d \<in> set deps. linked_dep d" "\<forall>imp \<in> set (p_dependency p). FindFileByPath deps imp \<noteq> None"
    "paths_unique r" "\<not> absolute (fpackage (p_file p))" "\<forall>e \<in> set (file_elems (linked_file (p_file p))). name_ok (FullName e)"
  shows "linkable r"
proof -
  note parts = new_result_parts [OF assms(1)]
  have "imports_found r"
  proof -
    have "FindImportByPath r (fst imp) \<noteq> None" if "imp \<in> set (lf_imports r)" for imp
    proof -
      have "fst imp \<in> set (p_dependency p)" using that by (simp flip: parts(5))
      with assms(3) show ?thesis by (simp add: FindImportByPath_def parts(4))
    qed
    with assms(2) show ?thesis unfolding imports_found_def lf_tree_unfold [of r] parts(4)
      by (auto simp: linked_dep_def imports_found_def)
  qed
  moreover have "keyed r"
    unfolding keyed_def
  proof (intro allI impI)
    fix f n d
    assume f: "available r f" and d: "lf_descs f n = Some d"
    show "dFullName d = n \<and> \<not> absolute n"
    proof (cases "f = r")
      case True
      with d obtain par e where e: "(par, e) \<in> set (decls (lf_file r))" "FullName e = n" "dFullName d = n"
        by (auto simp: parts(6) dest!: map_of_SomeD)
      then have "e \<in> set (file_elems (lf_file r))" by (force simp: file_elems_decls)
      with e assms(6) show ?thesis by (auto simp: parts(3) name_ok_def)
    next
      case False
      with available_tree [OF f] obtain g where "g \<in> set deps" "f \<in> lf_tree g" by (auto simp: parts(4))
      with assms(2) d show ?thesis by (auto simp: linked_dep_def)
    qed
  qed
  ultimately show ?thesis using assms(4,5) parts(2) by (simp add: linkable_def)
qed

lemma resolveReferences_ok:
  assumes "linkable r" "resolveReferences rep h U r p st = (None, st')" "lgood h st" "fine h st'"
    "flinks st = Map.empty" "mlinks st = Map.empty"
    "distinct (map FullName (file_elems (lf_file r)))"
    "\<forall>e \<in> set (file_elems (lf_file r)). name_ok (FullName e) \<and> elem_references e"
    "extend_blocks_ok p (file_trace (lf_file r))"
    "e \<in> set (file_elems (lf_file r))"
  shows "elem_ok r e st'"
proof -
  let ?st = "st\<lparr>scopes := [FileScope], extendeeNodes := None\<rparr>"
  let ?es = "map elem_of (ev_file (lf_file r))"
  have g: "lgood h ?st" using assms(3) by (simp add: lgood_def)
  obtain st1 where opts: "resolveOptions rep h r (hasAST p) ''file'' (p_name p) (p_options p) ?st = (None, st1)"
    and run: "run_all (map (visit_elem rep h U r p) ?es) st1 = (None, st')"
    using assms(2) unfolding resolveReferences_def DescriptorsEnterAndExit_events
    by (auto simp: andThen_def split: prod.splits option.splits)
  have g1: "lgood h st1"
    using does_resolveOptions [unfolded does_def, rule_format, OF g opts] by blast
  have "frame ?st st1"
    using doesD(3) [OF does_resolveOptions g opts doesD(2) [OF does_visits [OF assms(1)] g1 run assms(4)]] .
  then have st1: "scopes st1 = [FileScope]" "flinks st1 = Map.empty" "mlinks st1 = Map.empty" "nodes_of st1 = {}"
    using assms(5,6) by (simp_all add: frame_def nodes_of_def)
  have elems: "map snd (file_trace (lf_file r)) = file_elems (lf_file r)"
    by (simp add: file_trace_def trace_elems file_elems_def)
  have "map (\<lambda>x. FullName (snd x)) (file_trace (lf_file r)) = map FullName (file_elems (lf_file r))"
    by (simp flip: elems)
  then have "pending r p (trace (scopes st1) ?es) st1"
    using assms(7,8,9) st1 unfolding pending_def st1(1) file_trace_def [symmetric]
    by (auto simp: scope_ok_def comp_def simp flip: elems)
  from run_references [OF assms(1) run assms(4) g1 this]
  have "\<forall>x \<in> set (file_trace (lf_file r)). elem_ok r (snd x) st'"
    unfolding st1(1) file_trace_def [symmetric] by auto
  moreover have "e \<in> snd ` set (file_trace (lf_file r))" using assms(10) unfolding elems [symmetric] by simp
  ultimately show ?thesis by auto
qed

lemma Link_parts:
  assumes "Link rep h U view p deps st = ((Some r, None), st')"
  obtains st1 st2 where "import_deps rep h view deps (p_dependency p) st = (None, st1)" "new_result p deps = Some r"
    "on_symbols (importResult rep h (p_symbols p)) (fresh_links (p_name p) st1) = (None, st2)"
    "resolveReferences rep h U r p st2 = (None, st')" "fine h st'"
  using assms unfolding Link_def
  by (auto simp: andThen_def fine_def split: prod.splits option.splits)

section \<open>Properties\<close>

text \<open>C2: when \<open>Link\<close> returns a result and no error, every reference of the file is resolved and
  well typed. Each field with a type name refers, by a fully qualified name, to a message or an enum that is
  visible from the file, and its type says which of the two it is; each extension extends a visible message that
  reserves its tag for extensions; the request and response types of each method are visible messages.\<close>

theorem Link_well_typed:
  assumes "good h (sst st)" "Link rep h U view p deps st = ((Some r, None), st')"
    and "\<forall>d \<in> set deps. linked_dep d" "paths_unique r" "\<not> absolute (fpackage (p_file p))"
    and "distinct (map FullName (file_elems (linked_file (p_file p))))"
    and "\<forall>e \<in> set (file_elems (linked_file (p_file p))). name_ok (FullName e) \<and> elem_references e"
    and "extend_blocks_ok p (file_trace (linked_file (p_file p)))"
  shows "\<forall>e \<in> set (file_elems (lf_file r)). elem_ok r e st'"
proof
  fix e assume e: "e \<in> set (file_elems (lf_file r))"
  obtain st1 st2 where imp: "import_deps rep h view deps (p_dependency p) st = (None, st1)" and new: "new_result p deps = Some r"
    and reg: "on_symbols (importResult rep h (p_symbols p)) (fresh_links (p_name p) st1) = (None, st2)"
    and refs: "resolveReferences rep h U r p st2 = (None, st')" and f: "fine h st'"
    using Link_parts [OF assms(2)] by metis
  note hier = new_result_parts(3) [OF new]
  have g: "lgood h st" using assms(1) by (simp add: lgood_def)
  have g1: "lgood h (fresh_links (p_name p) st1)"
    using does_import_deps [unfolded does_def, rule_format, OF g imp] by (simp add: lgood_def fresh_links_def)
  note D = does_on_symbols [OF safe_importResult [of h rep "p_symbols p"]]
  have g2: "lgood h st2" using D [unfolded does_def, rule_format, OF g1 reg] by blast
  have st2: "flinks st2 = Map.empty" "mlinks st2 = Map.empty"
    using reg by (auto simp: on_symbols_def fresh_links_def split: prod.splits)
  have "linkable r"
    by (rule new_result_linkable [OF new assms(3) import_deps_found [OF imp] assms(4,5)]) (use assms(7) in blast)
  then show "elem_ok r e st'"
    by (rule resolveReferences_ok [OF _ refs g2 f st2 _ _ _ e]) (use assms(6-8) hier in simp_all)
qed

section \<open>An example\<close>

text \<open>The file \<open>a.proto\<close> of the symbol table's example as the parser hands it over: the message \<open>M\<close> of
  package \<open>p\<close> has a field of its own type and reserves the tags 5 to 9 for extensions, and \<open>x\<close> extends it
  with tag 7.\<close>

definition demo_parsed :: parsed where
  "demo_parsed = \<lparr>p_name = ''a.proto'', p_syntax = ''proto2'', p_options = [], p_dependency = [], p_public = [], p_weak = [],
     p_file = \<lparr>fpackage = ''p'',
       fmessages = [MsgP ''M'' (no_info\<lparr>extensionRange := [\<lparr>er_start = 5, er_end = 10, er_options = []\<rparr>]\<rparr>)
          [Leaf ''f'' (no_info\<lparr>ftypeName := ''M'', fnumber := 1\<rparr>)] [] [] [] []],
       fenums = [], fexts = [Leaf ''x'' (no_info\<lparr>fextendee := ''M'', fnumber := 7, ftype := Some (TYPE_SCALAR ''TYPE_INT32'')\<rparr>)],
       fservices = []\<rparr>,
     p_imports = [], p_symbols = demo_a\<rparr>"

definition demo_lstate :: "go_error list lstate" where
  "demo_lstate = \<lparr>sst = demo_state, used = (\<lambda>_. {}), flinks = Map.empty, mlinks = Map.empty, name_parts = Map.empty,
     optionQualifiedNames = Map.empty, scopes = [], extendeeNodes = None\<rparr>"

lemma demo_Link:
  "map_option lf_path (fst (fst (Link collect 0 ascii (\<lambda>_. demo_a) demo_parsed [] demo_lstate))) = Some ''a.proto'' \<and>
   snd (fst (Link collect 0 ascii (\<lambda>_. demo_a) demo_parsed [] demo_lstate)) = None"
  by code_simp

lemma demo_elements: "file_elems (linked_file (p_file demo_parsed)) =
    [EMessage (linked_msg ''p.'' [] (hd (fmessages (p_file demo_parsed)))),
     EField (Leaf ''p.M.f'' (no_info\<lparr>ftypeName := ''M'', fnumber := 1, fparent := ''p.M''\<rparr>)),
     EExtension (Leaf ''p.x'' (no_info\<lparr>fextendee := ''M'', fnumber := 7, ftype := Some (TYPE_SCALAR ''TYPE_INT32'')\<rparr>))]"
  by code_simp

lemma demo_blocks: "extend_blocks_ok demo_parsed (file_trace (linked_file (p_file demo_parsed)))"
  unfolding extend_blocks_ok_def by code_simp

lemma demo_names: "distinct (map FullName (file_elems (linked_file (p_file demo_parsed))))"
  "list_all (\<lambda>e. name_ok (FullName e) \<and> elem_references e) (file_elems (linked_file (p_file demo_parsed)))"
  by code_simp+

theorem Link_well_typed_witness:
  "\<exists>r st'. Link collect 0 ascii (\<lambda>_. demo_a) demo_parsed [] demo_lstate = ((Some r, None), st') \<and>
     (\<forall>e \<in> set (file_elems (lf_file r)). elem_ok r e st') \<and> length (file_elems (lf_file r)) = 3"
proof -
  have "fst (fst (Link collect 0 ascii (\<lambda>_. demo_a) demo_parsed [] demo_lstate)) \<noteq> None"
    "snd (fst (Link collect 0 ascii (\<lambda>_. demo_a) demo_parsed [] demo_lstate)) = None"
    using demo_Link by auto
  then obtain r st' where run: "Link collect 0 ascii (\<lambda>_. demo_a) demo_parsed [] demo_lstate = ((Some r, None), st')"
    by (metis option.exhaust prod.collapse)
  have new: "new_result demo_parsed [] = Some r" using Link_parts [OF run] by metis
  have good: "good 0 (sst demo_lstate)" using demo_ok by (simp add: good_def sst_ok_def demo_lstate_def)
  have unique: "paths_unique r" unfolding paths_unique_def lf_tree_unfold [of r] new_result_parts(4) [OF new] by simp
  have pkg: "\<not> absolute (fpackage (p_file demo_parsed))" by (simp add: demo_parsed_def absolute_Cons)
  have "\<forall>e \<in> set (file_elems (linked_file (p_file demo_parsed))). name_ok (FullName e) \<and> elem_references e"
    using demo_names(2) by (simp add: list_all_iff)
  from Link_well_typed [OF good run _ unique pkg demo_names(1) this demo_blocks] run
  show ?thesis by (auto simp: new_result_parts(3) [OF new] demo_elements)
qed

end
