(* ===== verification/Ast.thy ===== *)
theory Ast
  imports Symbols
begin

text \<open>
  The syntax tree that the parser hands over (package \<open>ast\<close>), and the descriptor protos that are built from it.

  A node is modelled by what the later stages read: its values, and the span (\<open>NodeInfo\<close>) of each node that an
  error can be reported at. One type \<open>decl\<close> holds the declarations of files, messages, oneofs and extend blocks; as
  in the code, a declaration that cannot stand in a place is ignored there. A descriptor proto is the hierarchy of
  \<open>Walk\<close> with the payload \<open>vinfo\<close>, which also has the spans of the syntax tree node that the descriptor stems from
  (the map \<open>nodes\<close> of a parse result).
\<close>

section \<open>Values and options\<close>

text \<open>An uninterpreted node, as the text of its tokens.\<close>

datatype anode = Terminal string | Composite "anode list"

datatype option_val = ValBool bool | ValInt64 int | ValUint64 int | ValFloat64 "64 word" | ValString string
  | ValIdentifier string | ValMessage "(anode \<times> string option) list" | ValOther

record option_node =
  on_parts :: "(string \<times> bool) list"
  on_val :: option_val
  on_span :: source_span
  on_name_span :: source_span
  on_val_span :: source_span

section \<open>Declarations\<close>

datatype range_end = NoEnd | EndMax | EndVal int source_span

record range_ast =
  ra_start :: int
  ra_end :: range_end
  ra_span :: source_span
  ra_start_span :: source_span

record reserved_ast =
  rs_ranges :: "range_ast list"
  rs_names :: "(string \<times> source_span) list"
  rs_idents :: "(string \<times> source_span) list"

datatype vlabel = LabelOptional | LabelRequired | LabelRepeated

text \<open>Fields, map fields and groups; for a map field the type is that of the value and \<open>fa_key\<close> that of the key, and
  for a group \<open>fa_name\<close> is the name of the group.\<close>

record field_ast =
  fa_name :: string
  fa_type :: string
  fa_key :: string
  fa_tag :: "int option"
  fa_label :: "vlabel option"
  fa_opts :: "option_node list"
  fa_span :: source_span
  fa_name_span :: source_span
  fa_tag_span :: source_span
  fa_label_span :: source_span
  fa_group_span :: source_span
  fa_key_span :: source_span
  fa_type_span :: source_span

record value_ast =
  ev_name :: string
  ev_number :: int
  ev_opts :: "option_node list"
  ev_span :: source_span
  ev_name_span :: source_span
  ev_number_span :: source_span

datatype enum_decl = EnumOption option_node | EnumValue value_ast | EnumReserved reserved_ast | EnumEmpty

record enum_ast =
  ea_name :: string
  ea_visibility :: "(string \<times> source_span) option"
  ea_decls :: "enum_decl list"
  ea_span :: source_span

record rpc_ast =
  rpc_name :: string
  rpc_input :: string
  rpc_output :: string
  rpc_in_stream :: bool
  rpc_out_stream :: bool
  rpc_opts :: "option_node list"
  rpc_span :: source_span

datatype service_decl = ServiceOption option_node | ServiceRPC rpc_ast | ServiceEmpty

record service_ast =
  sa_name :: string
  sa_decls :: "service_decl list"
  sa_span :: source_span

datatype decl =
    ImportDecl string "(string \<times> source_span) option" source_span
  | PackageDecl string source_span source_span
  | OptionDecl option_node
  | MessageDecl string "(string \<times> source_span) option" source_span "decl list"
  | EnumDecl enum_ast
  | ServiceDecl service_ast
  | ExtendDecl string source_span "decl list"
  | FieldDecl field_ast
  | MapFieldDecl field_ast
  | GroupDecl field_ast "decl list"
  | OneofDecl string source_span "decl list"
  | ExtensionRangeDecl "range_ast list" "option_node list"
  | ReservedDecl reserved_ast
  | EmptyDecl

record file_ast =
  file_name :: string
  file_syntax :: "(string \<times> source_span) option"
  file_edition :: "(string \<times> source_span) option"
  file_decls :: "decl list"
  file_span :: source_span

section \<open>Descriptor protos\<close>

datatype syntaxKind = Proto2 | Proto3 | Editions | UnknownSyntax

datatype ovalue = IdentifierValue string | NegativeIntValue int | PositiveIntValue int | DoubleValue "64 word"
  | StringValue string | AggregateValue string | NoValue

record vopt =
  o_name :: "(string \<times> bool) list"
  o_value :: ovalue
  o_span :: source_span
  o_name_span :: source_span
  o_value_span :: source_span

definition o_ident :: "vopt \<Rightarrow> string option" where
  "o_ident opt = (case o_value opt of IdentifierValue s \<Rightarrow> Some s | _ \<Rightarrow> None)"

record tagRange =
  tr_start :: int
  tr_end :: int
  tr_node :: source_span

datatype vtype = TypeGroup | TypeScalar string

text \<open>The payload of all kinds of elements: fields that an element does not have keep their default.\<close>

record vinfo =
  v_opts :: "vopt list"
  v_node :: source_span
  v_reservedRange :: "tagRange list"
  v_extensionRange :: "(tagRange \<times> vopt list) list"
  v_reservedName :: "string list"
  v_reservedNodes :: "(string \<times> source_span) list list"
  v_mapEntry :: bool
  v_number :: "int option"
  v_label :: "vlabel option"
  v_type :: "vtype option"
  v_typeName :: "string option"
  v_jsonName :: string
  v_extendee :: "string option"
  v_oneofIndex :: "nat option"
  v_proto3Optional :: bool
  v_inputType :: string
  v_outputType :: string
  v_clientStreaming :: bool
  v_serverStreaming :: bool
  v_name_span :: source_span
  v_tag_span :: source_span
  v_label_span :: source_span
  v_group_span :: source_span

definition blank_info :: "source_span \<Rightarrow> vinfo" where
  "blank_info sp = \<lparr>v_opts = [], v_node = sp, v_reservedRange = [], v_extensionRange = [], v_reservedName = [],
     v_reservedNodes = [], v_mapEntry = False, v_number = None, v_label = None, v_type = None, v_typeName = None,
     v_jsonName = [], v_extendee = None, v_oneofIndex = None, v_proto3Optional = False, v_inputType = [], v_outputType = [],
     v_clientStreaming = False, v_serverStreaming = False, v_name_span = sp, v_tag_span = sp, v_label_span = sp,
     v_group_span = sp\<rparr>"

abbreviation v_group :: "vinfo \<Rightarrow> bool" where
  "v_group d \<equiv> v_type d = Some TypeGroup"

abbreviation v_in_oneof :: "vinfo \<Rightarrow> bool" where
  "v_in_oneof d \<equiv> v_oneofIndex d \<noteq> None"

text \<open>A parse result: the parts of the file node and of the file descriptor proto that validation reads.\<close>

record source_file =
  sf_edition :: "string option"
  sf_decls :: "decl list"
  sf_syntax :: string
  sf_opts :: "vopt list"
  sf_proto :: "vinfo filep"

end
