(* ===== verification/Validate.thy ===== *)
theory Validate
  imports Ast
begin

text \<open>
  The validation of a parsed file: \<open>parser/validate.go\<close>, and the search for options of
  \<open>internal/options.go\<close>.

  Tags are of type \<open>int32\<close>. An operation ends with nil, with an error that the handler returned, or with a panic (an uninterpreted option without a name).

  Of the environment, the reporter, the sorting routine \<open>sort.Sort\<close>, which may put equal ranges in any
  order, and the functions that render a quoted string and the name of a syntax are parameters.
\<close>

section \<open>Reporting\<close>

record 'r env =
  e_reporter :: "'r reporter"
  e_sort :: "tagRange list \<Rightarrow> tagRange list"
  e_quote :: "string \<Rightarrow> string"
  e_syntax :: "syntaxKind \<Rightarrow> string"

datatype vfail = VFailed go_error | VPanicked

type_synonym 'r vact = "('r hstore, vfail) act"

definition herrorf :: "'r env \<Rightarrow> nat \<Rightarrow> source_span \<Rightarrow> string \<Rightarrow> 'r vact" where
  "herrorf env h sp msg st =
     (let (res, st) = HandleErrorf (e_reporter env) h sp msg st in (map_option VFailed res, st))"

abbreviation herror_if :: "bool \<Rightarrow> 'r env \<Rightarrow> nat \<Rightarrow> source_span \<Rightarrow> string \<Rightarrow> 'r vact" where
  "herror_if b env h sp msg \<equiv> (if b then herrorf env h sp msg else skip)"

section \<open>Options\<close>

datatype option_hit = Index int | Duplicate vopt | NoName

fun find_option_loop :: "bool \<Rightarrow> bool \<Rightarrow> string \<Rightarrow> int \<Rightarrow> int \<Rightarrow> vopt list \<Rightarrow> option_hit" where
  "find_option_loop exact first name hit i [] = Index hit"
| "find_option_loop exact first name hit i (opt # opts) =
     (if exact \<and> length (o_name opt) \<noteq> 1 then find_option_loop exact first name hit (i + 1) opts
      else case o_name opt of
        [] \<Rightarrow> NoName
      | (part, is_ext) # _ \<Rightarrow>
          if is_ext \<or> part \<noteq> name then find_option_loop exact first name hit (i + 1) opts
          else if first then Index i
          else if hit \<ge> 0 then Duplicate opt
          else find_option_loop exact first name i (i + 1) opts)"

text \<open>\<open>findOption\<close>, followed by what its caller does with the index.\<close>

definition findOption ::
  "'r env \<Rightarrow> nat \<Rightarrow> string \<Rightarrow> vopt list \<Rightarrow> string \<Rightarrow> bool \<Rightarrow> bool \<Rightarrow> (int \<Rightarrow> 'r vact) \<Rightarrow> 'r vact" where
  "findOption env h scope opts name exact first k =
     (case find_option_loop exact first name (-1) 0 opts of
        NoName \<Rightarrow> (\<lambda>st. (Some VPanicked, st))
      | Duplicate opt \<Rightarrow>
          andThen (herrorf env h (o_name_span opt) (scope @ '': option '' @ name @ '' cannot be defined more than once'')) (k (-1))
      | Index i \<Rightarrow> k i)"

definition FindFirstOption :: "'r env \<Rightarrow> nat \<Rightarrow> string \<Rightarrow> vopt list \<Rightarrow> string \<Rightarrow> (int \<Rightarrow> 'r vact) \<Rightarrow> 'r vact" where
  "FindFirstOption env h scope opts name k = findOption env h scope opts name False True k"

definition FindOption :: "'r env \<Rightarrow> nat \<Rightarrow> string \<Rightarrow> vopt list \<Rightarrow> string \<Rightarrow> (int \<Rightarrow> 'r vact) \<Rightarrow> 'r vact" where
  "FindOption env h scope opts name k = findOption env h scope opts name True False k"

text \<open>\<open>RemoveOption\<close>; an index out of range panics.\<close>

definition RemoveOption :: "vopt list \<Rightarrow> nat \<Rightarrow> vopt list option" where
  "RemoveOption uo i = (if i < length uo then Some (take i uo @ drop (Suc i) uo) else None)"

definition validateNoFeatures :: "'r env \<Rightarrow> nat \<Rightarrow> syntaxKind \<Rightarrow> string \<Rightarrow> vopt list \<Rightarrow> 'r vact" where
  "validateNoFeatures env h syn scope opts =
     (if syn = Editions then skip
      else FindFirstOption env h scope opts ''features'' (\<lambda>index.
        herror_if (index \<ge> 0) env h (o_name_span (opts ! nat index))
          (scope @ '': option 'features' may only be used with editions but file uses '' @ e_syntax env syn @ '' syntax'')))"

section \<open>Imports and visibility\<close>

primrec import_loop :: "'r env \<Rightarrow> nat \<Rightarrow> bool \<Rightarrow> (string \<rightharpoonup> source_pos) \<Rightarrow> decl list \<Rightarrow> 'r vact" where
  "import_loop env h supported imports [] = skip"
| "import_loop env h supported imports (d # ds) =
     (case d of
        ImportDecl name modifier info \<Rightarrow>
          (case modifier of
             Some (val, msp) \<Rightarrow>
               if val = ''option'' \<and> \<not> supported
               then herrorf env h msp ''import option syntax is only allowed in edition 2024''
               else (case imports name of
                       Some prev \<Rightarrow> herrorf env h info (e_quote env name @ '' was already imported at '' @ show_pos prev)
                     | None \<Rightarrow> import_loop env h supported (imports(name \<mapsto> Start info)) ds)
           | None \<Rightarrow>
               (case imports name of
                  Some prev \<Rightarrow> herrorf env h info (e_quote env name @ '' was already imported at '' @ show_pos prev)
                | None \<Rightarrow> import_loop env h supported (imports(name \<mapsto> Start info)) ds))
      | _ \<Rightarrow> import_loop env h supported imports ds)"

definition validateImports :: "'r env \<Rightarrow> nat \<Rightarrow> source_file \<Rightarrow> 'r vact" where
  "validateImports env h p = import_loop env h (sf_edition p = Some ''2024'') Map.empty (sf_decls p)"

definition visibility_error :: "'r env \<Rightarrow> nat \<Rightarrow> string \<times> source_span \<Rightarrow> 'r vact" where
  "visibility_error env h vis = herrorf env h (snd vis) (fst vis @ '' keyword is only allowed in edition 2024'')"

fun validateExportLocalNode :: "'r env \<Rightarrow> nat \<Rightarrow> decl \<Rightarrow> 'r vact"
and validateExportLocalInMessageBody :: "'r env \<Rightarrow> nat \<Rightarrow> decl list \<Rightarrow> 'r vact" where
  "validateExportLocalNode env h d =
     (case d of
        MessageDecl _ (Some vis) _ _ \<Rightarrow> visibility_error env h vis
      | MessageDecl _ None _ body \<Rightarrow> validateExportLocalInMessageBody env h body
      | EnumDecl en \<Rightarrow> (case ea_visibility en of Some vis \<Rightarrow> visibility_error env h vis | None \<Rightarrow> skip)
      | _ \<Rightarrow> skip)"
| "validateExportLocalInMessageBody env h [] = skip"
| "validateExportLocalInMessageBody env h (d # ds) =
     andThen (validateExportLocalNode env h d) (validateExportLocalInMessageBody env h ds)"

definition validateExportLocal :: "'r env \<Rightarrow> nat \<Rightarrow> source_file \<Rightarrow> 'r vact" where
  "validateExportLocal env h p =
     (if sf_edition p = Some ''2024'' then skip
      else run_all (map (validateExportLocalNode env h) (sf_decls p)))"

section \<open>Ranges\<close>

text \<open>\<open>tagRanges.Less\<close>, and \<open>sort.Search\<close>: the binary search of Go's library on the indices below \<open>n\<close>.\<close>

definition Less :: "tagRange \<Rightarrow> tagRange \<Rightarrow> bool" where
  "Less a b \<longleftrightarrow> tr_start a < tr_start b \<or> (tr_start a = tr_start b \<and> tr_end a < tr_end b)"

function search_loop :: "(nat \<Rightarrow> bool) \<Rightarrow> nat \<Rightarrow> nat \<Rightarrow> nat" where
  "search_loop f i j =
     (if i < j then let h = (i + j) div 2 in if \<not> f h then search_loop f (h + 1) j else search_loop f i h else i)"
  by pat_completeness auto
termination
  by (relation "measure (\<lambda>(f, i, j). j - i)") auto

declare search_loop.simps [simp del]

definition Search :: "nat \<Rightarrow> (nat \<Rightarrow> bool) \<Rightarrow> nat" where
  "Search n f = search_loop f 0 n"

text \<open>\<open>end-1\<close> at the width of \<open>int32\<close>.\<close>

definition pred32 :: "int \<Rightarrow> int" where
  "pred32 n = (n - 1 + 2 ^ 31) mod 2 ^ 32 - 2 ^ 31"

definition show_range :: "bool \<Rightarrow> tagRange \<Rightarrow> string" where
  "show_range inclusive r =
     show_int (tr_start r) @ '' to '' @ show_int (if inclusive then tr_end r else pred32 (tr_end r))"

text \<open>Neighbours in the sorted list must not overlap; the ranges of an enum include their end.\<close>

definition touches :: "bool \<Rightarrow> tagRange \<Rightarrow> tagRange \<Rightarrow> bool" where
  "touches inclusive a b = (if inclusive then tr_start b \<le> tr_end a else tr_start b < tr_end a)"

fun check_neighbours :: "'r env \<Rightarrow> nat \<Rightarrow> bool \<Rightarrow> string \<Rightarrow> tagRange list \<Rightarrow> 'r vact" where
  "check_neighbours env h inclusive prefix (a # b # rs) =
     andThen (herror_if (touches inclusive a b) env h (tr_node b)
         (prefix @ '' ranges overlap: '' @ show_range inclusive a @ '' and '' @ show_range inclusive b))
       (check_neighbours env h inclusive prefix (b # rs))"
| "check_neighbours env h inclusive prefix _ = skip"

fun check_reserved_extensions :: "'r env \<Rightarrow> nat \<Rightarrow> string \<Rightarrow> tagRange list \<Rightarrow> tagRange list \<Rightarrow> 'r vact" where
  "check_reserved_extensions env h scope (r # rs) (e # es) =
     (let r_in_e = (tr_start r \<ge> tr_start e \<and> tr_start r < tr_end e);
          e_in_r = (tr_start e \<ge> tr_start r \<and> tr_start e < tr_end r)
      in andThen (herror_if (r_in_e \<or> e_in_r) env h (if r_in_e then tr_node r else tr_node e)
             (scope @ '': extension range '' @ show_range False e @ '' overlaps reserved range '' @ show_range False r))
           (if tr_start r < tr_start e then check_reserved_extensions env h scope rs (e # es)
            else check_reserved_extensions env h scope (r # rs) es))"
| "check_reserved_extensions env h scope [] es = skip"
| "check_reserved_extensions env h scope rs [] = skip"

text \<open>The range that holds a tag, as found by \<open>sort.Search\<close>.\<close>

definition range_of :: "bool \<Rightarrow> tagRange list \<Rightarrow> int \<Rightarrow> tagRange option" where
  "range_of inclusive rs tag =
     (let i = Search (length rs) (\<lambda>index. if inclusive then tr_end (rs ! index) \<ge> tag else tr_end (rs ! index) > tag)
      in if i < length rs \<and> tr_start (rs ! i) \<le> tag then Some (rs ! i) else None)"

section \<open>Reserved names\<close>

abbreviation char_in :: "nat \<Rightarrow> nat \<Rightarrow> char \<Rightarrow> bool" where
  "char_in lo hi c \<equiv> lo \<le> of_char c \<and> of_char c \<le> hi"

definition ident_char :: "char \<Rightarrow> bool" where
  "ident_char c \<longleftrightarrow> char_in 0x30 0x39 c \<or> char_in 0x61 0x7A c \<or> char_in 0x41 0x5A c \<or> c = CHR ''_''"

definition isIdentifier :: "string \<Rightarrow> bool" where
  "isIdentifier s = (case s of [] \<Rightarrow> False | c # _ \<Rightarrow> \<not> char_in 0x30 0x39 c \<and> list_all ident_char s)"

fun findReservedNameNode :: "source_span \<Rightarrow> (string \<times> source_span) list list \<Rightarrow> string \<Rightarrow> source_span" where
  "findReservedNameNode par [] name = par"
| "findReservedNameNode par (names # decls) name =
     (case find (\<lambda>n. fst n = name) names of
        Some n \<Rightarrow> snd n
      | None \<Rightarrow> findReservedNameNode par decls name)"

definition check_reserved_names :: "'r env \<Rightarrow> nat \<Rightarrow> string \<Rightarrow> vinfo \<Rightarrow> 'r vact" where
  "check_reserved_names env h scope d =
     run_all (map (\<lambda>n. herror_if (\<not> isIdentifier n) env h (findReservedNameNode (v_node d) (v_reservedNodes d) n)
         (scope @ '': reserved name '' @ e_quote env n @ '' is not a valid identifier''))
       (v_reservedName d))"

section \<open>Messages\<close>

text \<open>\<open>fld.GetNumber()\<close> and \<open>ev.GetNumber()\<close>.\<close>

definition GetNumber :: "vinfo leaf \<Rightarrow> int" where
  "GetNumber l = (case v_number (leaf_data l) of Some n \<Rightarrow> n | None \<Rightarrow> 0)"

definition check_tag :: "'r env \<Rightarrow> nat \<Rightarrow> string \<Rightarrow> string \<Rightarrow> tagRange list \<Rightarrow> vinfo leaf \<Rightarrow> 'r vact" where
  "check_tag env h scope kind rs fld =
     (case range_of False rs (GetNumber fld) of
        None \<Rightarrow> skip
      | Some r \<Rightarrow> herrorf env h (v_tag_span (leaf_data fld))
          (scope @ '': field '' @ leaf_name fld @ '' is using tag '' @ show_int (GetNumber fld) @
           '' which is in '' @ kind @ '' range '' @ show_range False r))"

primrec check_fields ::
  "'r env \<Rightarrow> nat \<Rightarrow> string \<Rightarrow> string list \<Rightarrow> tagRange list \<Rightarrow> tagRange list \<Rightarrow> (int \<rightharpoonup> string) \<Rightarrow> vinfo leaf list \<Rightarrow> 'r vact" where
  "check_fields env h scope rsvdNames rsvd extRanges fieldTags [] = skip"
| "check_fields env h scope rsvdNames rsvd extRanges fieldTags (fld # flds) =
     (let tag = GetNumber fld; existing = (case fieldTags tag of Some n \<Rightarrow> n | None \<Rightarrow> [])
      in andThen (herror_if (leaf_name fld \<in> set rsvdNames) env h (v_name_span (leaf_data fld))
             (scope @ '': field '' @ leaf_name fld @ '' is using a reserved name''))
           (andThen (herror_if (existing \<noteq> []) env h (v_tag_span (leaf_data fld))
               (scope @ '': fields '' @ existing @ '' and '' @ leaf_name fld @ '' both have the same tag '' @ show_int tag))
             (andThen (check_tag env h scope ''reserved'' rsvd fld)
               (andThen (check_tag env h scope ''extension'' extRanges fld)
                 (check_fields env h scope rsvdNames rsvd extRanges (fieldTags(tag \<mapsto> leaf_name fld)) flds)))))"

definition validateMessage :: "'r env \<Rightarrow> nat \<Rightarrow> syntaxKind \<Rightarrow> full_name \<Rightarrow> vinfo msgp \<Rightarrow> 'r vact" where
  "validateMessage env h syn name md =
     (let d = msg_data md; scope = ''message '' @ name; opts = v_opts d;
          rsvd = e_sort env (v_reservedRange d);
          extRanges = e_sort env (map fst (v_extensionRange d))
      in run_all
        [herror_if (syn = Proto3 \<and> v_extensionRange d \<noteq> []) env h (tr_node (fst (hd (v_extensionRange d))))
           (scope @ '': extension ranges are not allowed in proto3''),
         FindOption env h scope opts ''map_entry'' (\<lambda>index.
           herror_if (index \<ge> 0) env h (o_name_span (opts ! nat index))
             (scope @ '': map_entry option should not be set explicitly; use map type instead'')),
         validateNoFeatures env h syn scope opts,
         check_neighbours env h False (scope @ '': reserved'') rsvd,
         run_all (map (\<lambda>r. validateNoFeatures env h syn scope (snd r)) (v_extensionRange d)),
         check_neighbours env h False (scope @ '': extension'') extRanges,
         check_reserved_extensions env h scope rsvd extRanges,
         check_reserved_names env h scope d,
         check_fields env h scope (v_reservedName d) rsvd extRanges Map.empty (msg_fields md)])"

section \<open>Enums\<close>

primrec check_aliases ::
  "'r env \<Rightarrow> nat \<Rightarrow> string \<Rightarrow> bool \<Rightarrow> (int \<rightharpoonup> string) \<Rightarrow> bool \<Rightarrow> (bool \<Rightarrow> 'r vact) \<Rightarrow> vinfo leaf list \<Rightarrow> 'r vact" where
  "check_aliases env h scope allowAlias vals hasAlias k [] = k hasAlias"
| "check_aliases env h scope allowAlias vals hasAlias k (evd # evds) =
     (let num = GetNumber evd; existing = (case vals num of Some n \<Rightarrow> n | None \<Rightarrow> [])
      in andThen (herror_if (existing \<noteq> [] \<and> \<not> allowAlias) env h (v_tag_span (leaf_data evd))
             (scope @ '': values '' @ existing @ '' and '' @ leaf_name evd @ '' both have the same numeric value '' @
              show_int num @ ''; use allow_alias option if intentional''))
           (check_aliases env h scope allowAlias (vals(num \<mapsto> leaf_name evd))
             (hasAlias \<or> existing \<noteq> [] \<and> allowAlias) k evds))"

definition check_value :: "'r env \<Rightarrow> nat \<Rightarrow> string \<Rightarrow> string list \<Rightarrow> tagRange list \<Rightarrow> vinfo leaf \<Rightarrow> 'r vact" where
  "check_value env h scope rsvdNames rsvd ev =
     andThen (herror_if (leaf_name ev \<in> set rsvdNames) env h (v_name_span (leaf_data ev))
         (scope @ '': value '' @ leaf_name ev @ '' is using a reserved name''))
       (case range_of True rsvd (GetNumber ev) of
          None \<Rightarrow> skip
        | Some r \<Rightarrow> herrorf env h (v_tag_span (leaf_data ev))
            (scope @ '': value '' @ leaf_name ev @ '' is using number '' @ show_int (GetNumber ev) @
             '' which is in reserved range '' @ show_range True r))"

text \<open>The checks of \<open>validateEnum\<close> that follow the option \<open>allow_alias\<close>; \<open>opt_value\<close> is the span of its value.\<close>

definition validate_values ::
  "'r env \<Rightarrow> nat \<Rightarrow> syntaxKind \<Rightarrow> string \<Rightarrow> vinfo \<Rightarrow> vinfo leaf list \<Rightarrow> bool \<Rightarrow> source_span \<Rightarrow> 'r vact" where
  "validate_values env h syn scope d vals allowAlias opt_value =
     (let rsvd = e_sort env (v_reservedRange d)
      in run_all
        [herror_if (syn = Proto3 \<and> vals \<noteq> [] \<and> GetNumber (hd vals) \<noteq> 0) env h (v_tag_span (leaf_data (hd vals)))
           (scope @ '': proto3 requires that first value of enum have numeric value zero''),
         check_aliases env h scope allowAlias Map.empty False (\<lambda>hasAlias.
           herror_if (allowAlias \<and> \<not> hasAlias) env h opt_value
             (scope @ '': allow_alias is true but no values are aliases'')) vals,
         check_neighbours env h True (scope @ '': reserved'') rsvd,
         check_reserved_names env h scope d,
         run_all (map (check_value env h scope (v_reservedName d) rsvd) vals)])"

definition validateEnum :: "'r env \<Rightarrow> nat \<Rightarrow> syntaxKind \<Rightarrow> full_name \<Rightarrow> vinfo enump \<Rightarrow> 'r vact" where
  "validateEnum env h syn name ed =
     (let d = en_data ed; scope = ''enum '' @ name; opts = v_opts d; vals = en_values ed
      in andThen (herror_if (vals = []) env h (v_node d) (scope @ '': enums must define at least one value''))
           (andThen (validateNoFeatures env h syn scope opts)
             (FindOption env h scope opts ''allow_alias'' (\<lambda>index.
               if index \<ge> 0 then
                 let opt = opts ! nat index
                 in andThen (herror_if (o_ident opt \<noteq> Some ''true'' \<and> o_ident opt \<noteq> Some ''false'') env h (o_value_span opt)
                        (scope @ '': expecting bool value for allow_alias option''))
                      (validate_values env h syn scope d vals (o_ident opt = Some ''true'') (o_value_span opt))
               else validate_values env h syn scope d vals False (v_node d)))))"

section \<open>Fields\<close>

definition validateField :: "'r env \<Rightarrow> nat \<Rightarrow> syntaxKind \<Rightarrow> full_name \<Rightarrow> vinfo leaf \<Rightarrow> 'r vact" where
  "validateField env h syn name fld =
     (let d = leaf_data fld; opts = v_opts d;
          scope = (if v_extendee d \<noteq> None then ''extension '' @ name else ''field '' @ name)
      in andThen (herror_if (v_number d = None) env h (v_node d) (scope @ '': missing field tag number''))
        (andThen
          (if syn \<noteq> Proto2 then
             andThen
               (if v_group d then herrorf env h (v_group_span d) (scope @ '': groups are not allowed in proto3 or editions'')
                else herror_if (v_label d = Some LabelRequired) env h (v_label_span d)
                  (scope @ '': label 'required' is not allowed in proto3 or editions''))
               (if syn = Editions then
                  andThen (herror_if (v_label d = Some LabelOptional) env h (v_label_span d)
                      (scope @ '': label 'optional' is not allowed in editions; use option features.field_presence instead''))
                    (FindOption env h scope opts ''packed'' (\<lambda>index.
                      herror_if (index \<ge> 0) env h (o_name_span (opts ! nat index))
                        (scope @ '': packed option is not allowed in editions; use option features.repeated_field_encoding instead'')))
                else if syn = Proto3 then
                  FindOption env h scope opts ''default'' (\<lambda>index.
                    herror_if (index \<ge> 0) env h (o_name_span (opts ! nat index))
                      (scope @ '': default values are not allowed in proto3''))
                else skip)
           else
             andThen (herror_if (v_label d = None \<and> \<not> v_in_oneof d) env h (v_name_span d)
                 (scope @ '': field has no label; proto2 requires explicit 'optional' label''))
               (herror_if ((case v_extendee d of Some e \<Rightarrow> e \<noteq> [] | None \<Rightarrow> False) \<and> v_label d = Some LabelRequired) env h (v_label_span d)
                 (scope @ '': extension fields cannot be 'required'' @ [CHR 0x27])))
          (validateNoFeatures env h syn scope opts)))"

section \<open>Files\<close>

fun validate_element :: "'r env \<Rightarrow> nat \<Rightarrow> syntaxKind \<Rightarrow> full_name \<times> vinfo elem \<Rightarrow> 'r vact" where
  "validate_element env h syn (name, EMessage md) = validateMessage env h syn name md"
| "validate_element env h syn (name, EField fld) = validateField env h syn name fld"
| "validate_element env h syn (name, EExtension fld) = validateField env h syn name fld"
| "validate_element env h syn (name, EOneof l) = validateNoFeatures env h syn (''oneof '' @ name) (v_opts (leaf_data l))"
| "validate_element env h syn (name, EEnum ed) = validateEnum env h syn name ed"
| "validate_element env h syn (name, EValue l) = validateNoFeatures env h syn (''enum value '' @ name) (v_opts (leaf_data l))"
| "validate_element env h syn (name, EService svc) = validateNoFeatures env h syn (''service '' @ name) (v_opts (svc_data svc))"
| "validate_element env h syn (name, EMethod l) = validateNoFeatures env h syn (''method '' @ name) (v_opts (leaf_data l))"

definition syntax_of :: "string \<Rightarrow> syntaxKind" where
  "syntax_of s =
     (if s = '''' \<or> s = ''proto2'' then Proto2 else if s = ''proto3'' then Proto3
      else if s = ''editions'' then Editions else UnknownSyntax)"

text \<open>\<open>validateBasic\<close>; its caller only looks at the handler afterwards.\<close>

definition validateBasic :: "'r env \<Rightarrow> nat \<Rightarrow> source_file \<Rightarrow> 'r vact" where
  "validateBasic env h p =
     (let syn = syntax_of (sf_syntax p)
      in andThen (validateImports env h p)
           (andThen (validateExportLocal env h p)
             (andThen (validateNoFeatures env h syn ''file options'' (sf_opts p))
               (DescriptorProtos (sf_proto p) (validate_element env h syn)))))"

section \<open>Missing labels\<close>

definition fillInMissingLabel :: "vinfo leaf \<Rightarrow> vinfo leaf" where
  "fillInMissingLabel fld =
     (if v_label (leaf_data fld) = None
      then Leaf (leaf_name fld) ((leaf_data fld)\<lparr>v_label := Some LabelOptional\<rparr>) else fld)"

fun fillInMissingLabelsInMsg :: "vinfo msgp \<Rightarrow> vinfo msgp" where
  "fillInMissingLabelsInMsg (MsgP n d flds oneofs nested enums extns) =
     MsgP n d (map fillInMissingLabel flds) oneofs (map fillInMissingLabelsInMsg nested) enums (map fillInMissingLabel extns)"

definition fillInMissingLabels :: "vinfo filep \<Rightarrow> vinfo filep" where
  "fillInMissingLabels fd =
     fd\<lparr>fmessages := map fillInMissingLabelsInMsg (fmessages fd), fexts := map fillInMissingLabel (fexts fd)\<rparr>"

end
