(* ===== verification/Build.thy ===== *)
theory Build
  imports Validate Cases
begin

text \<open>
  Building descriptor protos from the syntax tree: \<open>parser/result.go\<close>.

  The code fills mutable descriptor protos while it goes over the declarations; here they are accumulated in a
  record. Most errors are only reported (\<open>_ = handler.HandleErrorf(...)\<close>), so an operation returns its value and
  the handlers; \<open>None\<close> is a panic (an empty name of a group or an option without a name).

  Parameters are those of validation, Go's character tables, the warnings of the reporter, and the tables of editions,
  which are computed from the protobuf-go library.
\<close>

section \<open>Operations\<close>

record 'r benv =
  b_env :: "'r env"
  b_unicode :: unicode
  b_warn :: "go_error \<Rightarrow> 'r \<Rightarrow> 'r"
  b_supported :: "string \<rightharpoonup> int"
  b_supported_names :: "string list"
  b_known :: "string list"
  b_latest :: string

type_synonym ('a, 'r) bact = "'r hstore \<Rightarrow> ('a \<times> 'r hstore) option"

definition give :: "'a \<Rightarrow> ('a, 'r) bact" where
  "give x st = Some (x, st)"

definition bnd :: "('a, 'r) bact \<Rightarrow> ('a \<Rightarrow> ('b, 'r) bact) \<Rightarrow> ('b, 'r) bact" where
  "bnd m f st = (case m st of None \<Rightarrow> None | Some (x, st) \<Rightarrow> f x st)"

definition bpanic :: "('a, 'r) bact" where
  "bpanic st = None"

text \<open>\<open>handler.HandleError\<close>; the value is what the handler returns.\<close>

definition raise_error :: "'r benv \<Rightarrow> nat \<Rightarrow> go_error \<Rightarrow> (go_error option, 'r) bact" where
  "raise_error b h err st = Some (HandleError (e_reporter (b_env b)) h err st)"

definition raise_if :: "bool \<Rightarrow> 'r benv \<Rightarrow> nat \<Rightarrow> source_span \<Rightarrow> string \<Rightarrow> (go_error option, 'r) bact" where
  "raise_if c b h sp msg = (if c then raise_error b h (Errorf sp msg) else give None)"

primrec bmap :: "('a \<Rightarrow> ('b, 'r) bact) \<Rightarrow> 'a list \<Rightarrow> ('b list, 'r) bact" where
  "bmap f [] = give []"
| "bmap f (x # xs) = bnd (f x) (\<lambda>y. bnd (bmap f xs) (\<lambda>ys. give (y # ys)))"

section \<open>Numbers\<close>

definition to_int32 :: "int \<Rightarrow> int" where
  "to_int32 v = (v + 2 ^ 31) mod 2 ^ 32 - 2 ^ 31"

definition FieldMax :: int where "FieldMax = 2 ^ 29 - 1"
definition FirstReserved :: int where "FirstReserved = 19000"
definition LastReserved :: int where "LastReserved = 19999"
definition MessageSetMax :: int where "MessageSetMax = 2 ^ 31 - 2"

text \<open>\<open>AsInt32\<close> of an integer literal, whose value is below \<open>2^64\<close>: 0 and false if it is out of range.\<close>

definition AsInt32 :: "int \<Rightarrow> int \<Rightarrow> int \<Rightarrow> int \<times> bool" where
  "AsInt32 i minVal maxVal =
     (if i > 2 ^ 63 - 1 then (0, False) else if i < minVal \<or> i > maxVal then (0, False) else (i, True))"

definition StartValueAsInt32 :: "range_ast \<Rightarrow> int \<Rightarrow> int \<Rightarrow> int \<times> bool" where
  "StartValueAsInt32 n minVal maxVal = AsInt32 (ra_start n) minVal maxVal"

definition EndValueAsInt32 :: "range_ast \<Rightarrow> int \<Rightarrow> int \<Rightarrow> int \<times> bool" where
  "EndValueAsInt32 n minVal maxVal =
     (case ra_end n of
        EndMax \<Rightarrow> (maxVal, True)
      | NoEnd \<Rightarrow> StartValueAsInt32 n minVal maxVal
      | EndVal v _ \<Rightarrow> AsInt32 v minVal maxVal)"

definition getRangeBounds :: "'r benv \<Rightarrow> nat \<Rightarrow> range_ast \<Rightarrow> int \<Rightarrow> int \<Rightarrow> (int \<times> int, 'r) bact" where
  "getRangeBounds b h rng minVal maxVal =
     (let (start, ok1) = StartValueAsInt32 rng minVal maxVal;
          (end', ok2) = EndValueAsInt32 rng minVal maxVal;
          bounds = '': should be between '' @ show_int minVal @ '' and '' @ show_int maxVal
      in bnd (raise_if (\<not> ok1) b h (ra_start_span rng) (''range start '' @ show_int (ra_start rng) @ '' is out of range'' @ bounds))
           (\<lambda>_. bnd (case ra_end rng of
                       EndVal v sp \<Rightarrow> raise_if (\<not> ok2) b h sp (''range end '' @ show_int v @ '' is out of range'' @ bounds)
                     | _ \<Rightarrow> give None)
           (\<lambda>_. bnd (raise_if (ok1 \<and> ok2 \<and> start > end') b h (ra_start_span rng)
                       (''range, '' @ show_int start @ '' to '' @ show_int end' @ '', is invalid: start must be <= end''))
           (\<lambda>_. give (start, end')))))"

definition checkTag :: "source_span \<Rightarrow> int \<Rightarrow> int \<Rightarrow> go_error option" where
  "checkTag sp v maxTag =
     (if v < 1 then Some (Errorf sp (''tag number '' @ show_int v @ '' must be greater than zero''))
      else if v > maxTag then
        Some (Errorf sp (''tag number '' @ show_int v @ '' is higher than max allowed tag number ('' @ show_int maxTag @ '')''))
      else if FirstReserved \<le> v \<and> v \<le> LastReserved then
        Some (Errorf sp (''tag number '' @ show_int v @ '' is in disallowed reserved range '' @
          show_int FirstReserved @ ''-'' @ show_int LastReserved))
      else None)"

text \<open>The tag of a field, map field or group: checked, and converted to \<open>int32\<close>.\<close>

definition as_tag :: "'r benv \<Rightarrow> nat \<Rightarrow> int \<Rightarrow> field_ast \<Rightarrow> (int option, 'r) bact" where
  "as_tag b h maxTag nd =
     (case fa_tag nd of
        None \<Rightarrow> give None
      | Some v \<Rightarrow>
          bnd (case checkTag (fa_tag_span nd) v maxTag of None \<Rightarrow> give None | Some err \<Rightarrow> raise_error b h err)
            (\<lambda>_. give (Some (to_int32 v))))"

section \<open>Options\<close>

fun flattenNode :: "anode \<Rightarrow> string \<Rightarrow> string" where
  "flattenNode (Terminal s) buf = (if buf \<noteq> [] then buf @ '' '' else buf) @ s"
| "flattenNode (Composite ns) buf = fold flattenNode ns buf"

definition aggregate :: "(anode \<times> string option) list \<Rightarrow> string" where
  "aggregate els =
     fold (\<lambda>(el, sep) buf. let buf = flattenNode el buf in case sep of None \<Rightarrow> buf | Some c \<Rightarrow> buf @ '' '' @ c) els []"

definition asUninterpretedOption :: "option_node \<Rightarrow> vopt" where
  "asUninterpretedOption nd =
     \<lparr>o_name = on_parts nd,
      o_value = (case on_val nd of
          ValBool val \<Rightarrow> IdentifierValue (if val then ''true'' else ''false'')
        | ValInt64 val \<Rightarrow> NegativeIntValue val
        | ValUint64 val \<Rightarrow> PositiveIntValue val
        | ValFloat64 val \<Rightarrow> DoubleValue val
        | ValString val \<Rightarrow> StringValue val
        | ValIdentifier val \<Rightarrow> IdentifierValue val
        | ValMessage els \<Rightarrow> AggregateValue (aggregate els)
        | ValOther \<Rightarrow> NoValue),
      o_span = on_span nd, o_name_span = on_name_span nd, o_value_span = on_val_span nd\<rparr>"

definition asUninterpretedOptions :: "option_node list \<Rightarrow> vopt list" where
  "asUninterpretedOptions nds = map asUninterpretedOption nds"

text \<open>The option that makes a message use the message-set wire format, and whether the handler wants to stop.\<close>

definition isMessageSetWireFormat :: "'r benv \<Rightarrow> nat \<Rightarrow> string \<Rightarrow> vopt list \<Rightarrow> (vopt option \<times> bool, 'r) bact" where
  "isMessageSetWireFormat b h scope uo =
     (case find_option_loop True False ''message_set_wire_format'' (-1) 0 uo of
        NoName \<Rightarrow> bpanic
      | Duplicate opt \<Rightarrow>
          bnd (raise_error b h (Errorf (o_name_span opt) (scope @ '': option message_set_wire_format cannot be defined more than once'')))
            (\<lambda>res. give (None, res \<noteq> None))
      | Index index \<Rightarrow>
          if index < 0 then give (None, False)
          else
            let opt = uo ! nat index
            in if o_ident opt = Some ''true'' then give (Some opt, False)
               else if o_ident opt = Some ''false'' then give (None, False)
               else bnd (raise_error b h (Errorf (o_value_span opt) (scope @ '': expecting bool value for message_set_wire_format option'')))
                      (\<lambda>res. give (None, res \<noteq> None)))"

section \<open>Fields\<close>

definition fieldTypes :: "string list" where
  "fieldTypes = [''double'', ''float'', ''int32'', ''int64'', ''uint32'', ''uint64'', ''sint32'', ''sint64'', ''fixed32'',
     ''fixed64'', ''sfixed32'', ''sfixed64'', ''bool'', ''string'', ''bytes'']"

text \<open>Identifiers are ASCII, so their runes are their bytes.\<close>

definition on_runes :: "(rune list \<Rightarrow> rune list) \<Rightarrow> string \<Rightarrow> string" where
  "on_runes f s = map char_of (f (map of_char s))"

definition newFieldDescriptor :: "unicode \<Rightarrow> string \<Rightarrow> string \<Rightarrow> int option \<Rightarrow> vlabel option \<Rightarrow> source_span \<Rightarrow> vinfo leaf" where
  "newFieldDescriptor U name fieldType tag lbl sp =
     Leaf name ((blank_info sp)\<lparr>v_jsonName := on_runes (JSONName U) name, v_number := tag, v_label := lbl,
       v_type := (if fieldType \<in> set fieldTypes then Some (TypeScalar fieldType) else None),
       v_typeName := (if fieldType \<in> set fieldTypes then None else Some fieldType)\<rparr>)"

text \<open>\<open>putFieldNode\<close>, and the options of a field.\<close>

definition put_field_node :: "field_ast \<Rightarrow> vinfo \<Rightarrow> vinfo" where
  "put_field_node nd d = d\<lparr>v_opts := asUninterpretedOptions (fa_opts nd), v_node := fa_span nd, v_name_span := fa_name_span nd,
     v_tag_span := fa_tag_span nd, v_label_span := fa_label_span nd, v_group_span := fa_group_span nd\<rparr>"

definition asFieldDescriptor :: "'r benv \<Rightarrow> nat \<Rightarrow> syntaxKind \<Rightarrow> int \<Rightarrow> field_ast \<Rightarrow> (vinfo leaf, 'r) bact" where
  "asFieldDescriptor b h syn maxTag nd =
     bnd (as_tag b h maxTag nd) (\<lambda>tag.
       give (map_leaf (\<lambda>d. (put_field_node nd d)\<lparr>v_proto3Optional := (syn = Proto3 \<and> fa_label nd = Some LabelOptional)\<rparr>)
         (newFieldDescriptor (b_unicode b) (fa_name nd) (fa_type nd) tag (fa_label nd) (fa_span nd))))"

definition checkDepth :: "'r benv \<Rightarrow> nat \<Rightarrow> nat \<Rightarrow> source_span \<Rightarrow> (bool, 'r) bact" where
  "checkDepth b h depth sp =
     bnd (raise_if (\<not> depth < 32) b h sp ''message nesting depth must be less than 32'') (\<lambda>_. give (depth < 32))"

definition asMapDescriptors ::
  "'r benv \<Rightarrow> nat \<Rightarrow> syntaxKind \<Rightarrow> int \<Rightarrow> nat \<Rightarrow> field_ast \<Rightarrow> (vinfo leaf \<times> vinfo msgp, 'r) bact" where
  "asMapDescriptors b h syn maxTag depth nd =
     bnd (as_tag b h maxTag nd) (\<lambda>tag.
     bnd (checkDepth b h depth (fa_span nd)) (\<lambda>_.
       let U = b_unicode b;
           lbl = (if syn = Proto2 then Some LabelOptional else None);
           keyFd = newFieldDescriptor U ''key'' (fa_key nd) (Some 1) lbl (fa_key_span nd);
           valFd = newFieldDescriptor U ''value'' (fa_type nd) (Some 2) lbl (fa_type_span nd);
           entryName = on_runes (MapEntry U) (fa_name nd);
           fd = map_leaf (put_field_node nd)
                  (newFieldDescriptor U (fa_name nd) entryName tag (Some LabelRepeated) (fa_span nd));
           md = MsgP entryName ((blank_info (fa_span nd))\<lparr>v_mapEntry := True\<rparr>) [keyFd, valFd] [] [] [] []
       in give (fd, md)))"

text \<open>The field of a group.\<close>

definition group_field :: "'r benv \<Rightarrow> nat \<Rightarrow> int \<Rightarrow> field_ast \<Rightarrow> (vinfo leaf, 'r) bact" where
  "group_field b h maxTag grp =
     bnd (as_tag b h maxTag grp) (\<lambda>tag.
     bnd (case fa_name grp of
            [] \<Rightarrow> bpanic
          | c # _ \<Rightarrow> raise_if (\<not> IsUpper (b_unicode b) (of_char c)) b h (fa_name_span grp)
              (''group '' @ fa_name grp @ '' should have a name that starts with a capital letter''))
       (\<lambda>_.
       let fieldName = on_runes (map (ToLower (b_unicode b))) (fa_name grp)
       in give (Leaf fieldName (put_field_node grp ((blank_info (fa_span grp))\<lparr>v_jsonName := on_runes (JSONName (b_unicode b)) fieldName,
            v_number := tag, v_label := fa_label grp, v_type := Some TypeGroup, v_typeName := Some (fa_name grp)\<rparr>)))))"

section \<open>Enums\<close>

definition asEnumValue :: "'r benv \<Rightarrow> nat \<Rightarrow> value_ast \<Rightarrow> (vinfo leaf, 'r) bact" where
  "asEnumValue b h ev =
     (let (num, ok) = AsInt32 (ev_number ev) (- (2 ^ 31)) (2 ^ 31 - 1)
      in bnd (raise_if (\<not> ok) b h (ev_number_span ev) (''value '' @ show_int (ev_number ev) @
             '' is out of range: should be between -2147483648 and 2147483647''))
           (\<lambda>_. give (Leaf (ev_name ev) ((blank_info (ev_span ev))\<lparr>v_number := Some num, v_opts := asUninterpretedOptions (ev_opts ev),
              v_name_span := ev_name_span ev, v_tag_span := ev_number_span ev\<rparr>))))"

definition asEnumReservedRange :: "'r benv \<Rightarrow> nat \<Rightarrow> range_ast \<Rightarrow> (tagRange, 'r) bact" where
  "asEnumReservedRange b h rng =
     bnd (getRangeBounds b h rng (- (2 ^ 31)) (2 ^ 31 - 1)) (\<lambda>(start, end').
       give \<lparr>tr_start = start, tr_end = end', tr_node = ra_span rng\<rparr>)"

text \<open>Reserved names, with the positions of those that were reserved before.\<close>

primrec add_names ::
  "'r benv \<Rightarrow> nat \<Rightarrow> (string \<times> source_span) list \<Rightarrow> string list \<times> (string \<rightharpoonup> source_pos) \<Rightarrow>
   (string list \<times> (string \<rightharpoonup> source_pos), 'r) bact" where
  "add_names b h [] acc = give acc"
| "add_names b h (n # ns) acc =
     (case snd acc (fst n) of
        Some existing \<Rightarrow>
          bnd (raise_error b h (Errorf (snd n) (''name '' @ e_quote (b_env b) (fst n) @ '' is already reserved at '' @ show_pos existing)))
            (\<lambda>_. add_names b h ns acc)
      | None \<Rightarrow> add_names b h ns (fst acc @ [fst n], (snd acc)(fst n \<mapsto> Start (snd n))))"

definition addReservedNames ::
  "'r benv \<Rightarrow> nat \<Rightarrow> syntaxKind \<Rightarrow> reserved_ast \<Rightarrow> string list \<times> (string \<rightharpoonup> source_pos) \<Rightarrow>
   (string list \<times> (string \<rightharpoonup> source_pos), 'r) bact" where
  "addReservedNames b h syn nd acc =
     (if syn = Editions then
        bnd (raise_if (rs_names nd \<noteq> []) b h (snd (hd (rs_names nd)))
               ''must use identifiers, not string literals, to reserved names with editions'')
          (\<lambda>_. add_names b h (rs_idents nd) acc)
      else
        bnd (raise_if (rs_idents nd \<noteq> []) b h (snd (hd (rs_idents nd)))
               ''must use string literals, not identifiers, to reserved names with proto2 and proto3'')
          (\<lambda>_. add_names b h (rs_names nd) acc))"

record ebuild =
  eb_opts :: "vopt list"
  eb_values :: "vinfo leaf list"
  eb_reserved :: "string list \<times> (string \<rightharpoonup> source_pos)"
  eb_ranges :: "tagRange list"

primrec add_enum_decls :: "'r benv \<Rightarrow> nat \<Rightarrow> syntaxKind \<Rightarrow> enum_decl list \<Rightarrow> ebuild \<Rightarrow> (ebuild, 'r) bact" where
  "add_enum_decls b h syn [] eb = give eb"
| "add_enum_decls b h syn (d # ds) eb =
     bnd (case d of
            EnumOption opt \<Rightarrow> give (eb\<lparr>eb_opts := eb_opts eb @ [asUninterpretedOption opt]\<rparr>)
          | EnumValue ev \<Rightarrow> bnd (asEnumValue b h ev) (\<lambda>v. give (eb\<lparr>eb_values := eb_values eb @ [v]\<rparr>))
          | EnumReserved r \<Rightarrow>
              bnd (addReservedNames b h syn r (eb_reserved eb)) (\<lambda>names.
              bnd (bmap (asEnumReservedRange b h) (rs_ranges r)) (\<lambda>rs.
                give (eb\<lparr>eb_reserved := names, eb_ranges := eb_ranges eb @ rs\<rparr>)))
          | EnumEmpty \<Rightarrow> give eb)
       (add_enum_decls b h syn ds)"

definition asEnumDescriptor :: "'r benv \<Rightarrow> nat \<Rightarrow> syntaxKind \<Rightarrow> enum_ast \<Rightarrow> (vinfo enump, 'r) bact" where
  "asEnumDescriptor b h syn en =
     bnd (add_enum_decls b h syn (ea_decls en) \<lparr>eb_opts = [], eb_values = [], eb_reserved = ([], Map.empty), eb_ranges = []\<rparr>)
       (\<lambda>eb. give (EnumP (ea_name en) ((blank_info (ea_span en))\<lparr>v_opts := eb_opts eb, v_reservedRange := eb_ranges eb,
          v_reservedName := fst (eb_reserved eb),
          v_reservedNodes := List.map_filter (\<lambda>d. case d of EnumReserved r \<Rightarrow> Some (rs_names r) | _ \<Rightarrow> None) (ea_decls en)\<rparr>)
          (eb_values eb)))"

section \<open>Messages\<close>

record mbuild =
  mb_opts :: "vopt list"
  mb_fields :: "vinfo leaf list"
  mb_oneofs :: "vinfo leaf list"
  mb_nested :: "vinfo msgp list"
  mb_enums :: "vinfo enump list"
  mb_exts :: "vinfo leaf list"
  mb_extRanges :: "(tagRange \<times> vopt list) list"
  mb_ranges :: "tagRange list"
  mb_reserved :: "string list \<times> (string \<rightharpoonup> source_pos)"

definition no_body :: mbuild where
  "no_body = \<lparr>mb_opts = [], mb_fields = [], mb_oneofs = [], mb_nested = [], mb_enums = [], mb_exts = [], mb_extRanges = [],
     mb_ranges = [], mb_reserved = ([], Map.empty)\<rparr>"

definition finish_message :: "string \<Rightarrow> source_span \<Rightarrow> decl list \<Rightarrow> mbuild \<Rightarrow> vinfo msgp" where
  "finish_message name sp body mb =
     MsgP name ((blank_info sp)\<lparr>v_opts := mb_opts mb, v_extensionRange := mb_extRanges mb, v_reservedRange := mb_ranges mb,
         v_reservedName := fst (mb_reserved mb),
         v_reservedNodes := List.map_filter (\<lambda>d. case d of ReservedDecl r \<Rightarrow> Some (rs_names r) | _ \<Rightarrow> None) body\<rparr>)
       (mb_fields mb) (mb_oneofs mb) (mb_nested mb) (mb_enums mb) (mb_exts mb)"

text \<open>Ranges of messages are half-open in the descriptor proto.\<close>

definition asMessageReservedRange :: "'r benv \<Rightarrow> nat \<Rightarrow> int \<Rightarrow> range_ast \<Rightarrow> (tagRange, 'r) bact" where
  "asMessageReservedRange b h maxTag rng =
     bnd (getRangeBounds b h rng 1 maxTag) (\<lambda>(start, end').
       give \<lparr>tr_start = start, tr_end = to_int32 (end' + 1), tr_node = ra_span rng\<rparr>)"

definition asExtensionRanges ::
  "'r benv \<Rightarrow> nat \<Rightarrow> int \<Rightarrow> range_ast list \<Rightarrow> option_node list \<Rightarrow> ((tagRange \<times> vopt list) list, 'r) bact" where
  "asExtensionRanges b h maxTag rngs opts =
     bmap (\<lambda>rng. bnd (asMessageReservedRange b h maxTag rng) (\<lambda>r. give (r, asUninterpretedOptions opts))) rngs"

text \<open>The name of a synthetic oneof: prefixed with \<open>X\<close> until it is new.\<close>

function unique_name :: "string list \<Rightarrow> string \<Rightarrow> string" where
  "unique_name allNames ooName = (if ooName \<in> set allNames then unique_name allNames (''X'' @ ooName) else ooName)"
  by pat_completeness auto
termination
proof (relation "measure (\<lambda>(allNames, ooName). card {n \<in> set allNames. length ooName \<le> length n})")
  fix allNames :: "string list" and ooName
  assume "ooName \<in> set allNames"
  then have "{n \<in> set allNames. length (''X'' @ ooName) \<le> length n} \<subset> {n \<in> set allNames. length ooName \<le> length n}"
    by (intro psubsetI) (auto simp: set_eq_iff intro!: exI [of _ ooName])
  then show "((allNames, ''X'' @ ooName), allNames, ooName) \<in> measure (\<lambda>(allNames, ooName). card {n \<in> set allNames. length ooName \<le> length n})"
    by (simp add: psubset_card_mono)
qed simp

declare unique_name.simps [simp del]

definition oneof_name :: "string list \<Rightarrow> string \<Rightarrow> string" where
  "oneof_name allNames name = unique_name allNames (if HasPrefix name ''_'' then name else ''_'' @ name)"

primrec proto3_loop :: "string list \<Rightarrow> vinfo leaf list \<Rightarrow> vinfo leaf list \<Rightarrow> vinfo leaf list \<times> vinfo leaf list" where
  "proto3_loop allNames oneofs [] = ([], oneofs)"
| "proto3_loop allNames oneofs (fd # fds) =
     (if v_proto3Optional (leaf_data fd) then
        (let ooName = oneof_name allNames (leaf_name fd);
             fd = map_leaf (\<lambda>d. d\<lparr>v_oneofIndex := Some (length oneofs)\<rparr>) fd;
             (fds, oneofs) = proto3_loop (ooName # allNames) (oneofs @ [Leaf ooName (blank_info (v_node (leaf_data fd)))]) fds
         in (fd # fds, oneofs))
      else let (fds, oneofs) = proto3_loop allNames oneofs fds in (fd # fds, oneofs))"

definition all_names :: "mbuild \<Rightarrow> string list" where
  "all_names mb =
     map leaf_name (mb_fields mb) @ map leaf_name (mb_oneofs mb) @ map leaf_name (mb_exts mb) @
     concat (map (\<lambda>ed. en_name ed # map leaf_name (en_values ed)) (mb_enums mb)) @ map msg_name (mb_nested mb)"

definition processProto3OptionalFields :: "mbuild \<Rightarrow> mbuild" where
  "processProto3OptionalFields mb =
     (let (flds, oneofs) = proto3_loop (all_names mb) (mb_oneofs mb) (mb_fields mb)
      in mb\<lparr>mb_fields := flds, mb_oneofs := oneofs\<rparr>)"

text \<open>\<open>addMessageBody\<close>; \<open>rest\<close> processes the declarations, once the highest tag is known.\<close>

definition addMessageBody ::
  "'r benv \<Rightarrow> nat \<Rightarrow> syntaxKind \<Rightarrow> string \<Rightarrow> source_span \<Rightarrow> decl list \<Rightarrow> (int \<Rightarrow> mbuild \<Rightarrow> (mbuild, 'r) bact) \<Rightarrow> (vinfo msgp, 'r) bact" where
  "addMessageBody b h syn name sp body rest =
     (let opts = List.map_filter (\<lambda>d. case d of OptionDecl opt \<Rightarrow> Some (asUninterpretedOption opt) | _ \<Rightarrow> None) body;
          mb = no_body\<lparr>mb_opts := opts\<rparr>
      in bnd (isMessageSetWireFormat b h (''message '' @ name) opts) (\<lambda>(messageSetOpt, failed).
           if failed then give (finish_message name sp body mb)
           else
             bnd (case messageSetOpt of
                    None \<Rightarrow> give None
                  | Some opt \<Rightarrow> raise_if (syn = Proto3) b h (o_span opt)
                      ''messages with message-set wire format are not allowed with proto3 syntax'')
             (\<lambda>_. bnd (rest (if messageSetOpt = None then FieldMax else MessageSetMax) mb)
             (\<lambda>mb. bnd (case messageSetOpt of
                    None \<Rightarrow> give None
                  | Some opt \<Rightarrow>
                      bnd (raise_if (mb_fields mb \<noteq> []) b h (v_node (leaf_data (hd (mb_fields mb))))
                             ''messages with message-set wire format cannot contain non-extension fields'')
                        (\<lambda>_. raise_if (mb_extRanges mb = []) b h (o_span opt)
                           ''messages with message-set wire format must contain at least one extension range''))
             (\<lambda>_. give (finish_message name sp body (if syn = Proto3 then processProto3OptionalFields mb else mb)))))))"

text \<open>The message of a message declaration or a group: its body is not processed if it is nested too deeply;
  \<open>sp'\<close> is where that is reported.\<close>

definition asMessageDescriptor ::
  "'r benv \<Rightarrow> nat \<Rightarrow> syntaxKind \<Rightarrow> nat \<Rightarrow> string \<Rightarrow> source_span \<Rightarrow> source_span \<Rightarrow> decl list \<Rightarrow>
   (int \<Rightarrow> mbuild \<Rightarrow> (mbuild, 'r) bact) \<Rightarrow> (vinfo msgp, 'r) bact" where
  "asMessageDescriptor b h syn depth name sp sp' body rest =
     bnd (checkDepth b h depth sp') (\<lambda>ok.
       if ok then addMessageBody b h syn name sp body rest else give (finish_message name sp body no_body))"

text \<open>The loop over the declarations of a message body, of a oneof and of an extend block. \<open>add_extension_decls\<close> has
  the fields and messages so far and the number of extensions in this block.\<close>

fun add_decls :: "'r benv \<Rightarrow> nat \<Rightarrow> syntaxKind \<Rightarrow> nat \<Rightarrow> int \<Rightarrow> decl list \<Rightarrow> mbuild \<Rightarrow> (mbuild, 'r) bact"
and add_oneof_decls ::
  "'r benv \<Rightarrow> nat \<Rightarrow> syntaxKind \<Rightarrow> nat \<Rightarrow> int \<Rightarrow> nat \<Rightarrow> decl list \<Rightarrow> vopt list \<times> nat \<times> mbuild \<Rightarrow> (vopt list \<times> nat \<times> mbuild, 'r) bact"
and add_extension_decls ::
  "'r benv \<Rightarrow> nat \<Rightarrow> syntaxKind \<Rightarrow> nat \<Rightarrow> string \<Rightarrow> decl list \<Rightarrow> vinfo leaf list \<times> vinfo msgp list \<times> nat \<Rightarrow>
   (vinfo leaf list \<times> vinfo msgp list \<times> nat, 'r) bact" where
  "add_decls b h syn depth maxTag [] mb = give mb"
| "add_decls b h syn depth maxTag (d # ds) mb =
     bnd (case d of
            EnumDecl en \<Rightarrow> bnd (asEnumDescriptor b h syn en) (\<lambda>ed. give (mb\<lparr>mb_enums := mb_enums mb @ [ed]\<rparr>))
          | ExtendDecl extendee sp decls \<Rightarrow>
              bnd (add_extension_decls b h syn depth extendee decls (mb_exts mb, mb_nested mb, 0)) (\<lambda>(flds, msgs, count).
              bnd (raise_if (count = 0) b h sp ''extend sections must define at least one extension'') (\<lambda>_.
                give (mb\<lparr>mb_exts := flds, mb_nested := msgs\<rparr>)))
          | ExtensionRangeDecl rngs opts \<Rightarrow>
              bnd (asExtensionRanges b h maxTag rngs opts) (\<lambda>rs. give (mb\<lparr>mb_extRanges := mb_extRanges mb @ rs\<rparr>))
          | FieldDecl f \<Rightarrow> bnd (asFieldDescriptor b h syn maxTag f) (\<lambda>fd. give (mb\<lparr>mb_fields := mb_fields mb @ [fd]\<rparr>))
          | MapFieldDecl f \<Rightarrow>
              bnd (asMapDescriptors b h syn maxTag (Suc depth) f) (\<lambda>(fd, md).
                give (mb\<lparr>mb_fields := mb_fields mb @ [fd], mb_nested := mb_nested mb @ [md]\<rparr>))
          | GroupDecl f body \<Rightarrow>
              bnd (group_field b h maxTag f) (\<lambda>fd.
              bnd (asMessageDescriptor b h syn (Suc depth) (fa_name f) (fa_span f) (fa_group_span f) body
                    (\<lambda>mt mb. add_decls b h syn (Suc depth) mt body mb)) (\<lambda>md.
                give (mb\<lparr>mb_fields := mb_fields mb @ [fd], mb_nested := mb_nested mb @ [md]\<rparr>)))
          | OneofDecl name sp decls \<Rightarrow>
              bnd (add_oneof_decls b h syn depth maxTag (length (mb_oneofs mb)) decls ([], 0, mb)) (\<lambda>(opts, ooFields, mb).
              bnd (raise_if (ooFields = 0) b h sp ''oneof must contain at least one field'') (\<lambda>_.
                give (mb\<lparr>mb_oneofs := mb_oneofs mb @ [Leaf name ((blank_info sp)\<lparr>v_opts := opts\<rparr>)]\<rparr>)))
          | MessageDecl name vis sp body \<Rightarrow>
              bnd (asMessageDescriptor b h syn (Suc depth) name sp sp body (\<lambda>mt mb. add_decls b h syn (Suc depth) mt body mb)) (\<lambda>md.
                give (mb\<lparr>mb_nested := mb_nested mb @ [md]\<rparr>))
          | ReservedDecl r \<Rightarrow>
              bnd (addReservedNames b h syn r (mb_reserved mb)) (\<lambda>names.
              bnd (bmap (asMessageReservedRange b h maxTag) (rs_ranges r)) (\<lambda>rs.
                give (mb\<lparr>mb_reserved := names, mb_ranges := mb_ranges mb @ rs\<rparr>)))
          | _ \<Rightarrow> give mb)
       (\<lambda>mb. add_decls b h syn depth maxTag ds mb)"
| "add_oneof_decls b h syn depth maxTag index [] acc = give acc"
| "add_oneof_decls b h syn depth maxTag index (d # ds) acc =
     (case acc of (opts, ooFields, mb) \<Rightarrow>
        bnd (case d of
               OptionDecl opt \<Rightarrow> give (opts @ [asUninterpretedOption opt], ooFields, mb)
             | FieldDecl f \<Rightarrow>
                 bnd (asFieldDescriptor b h syn maxTag f) (\<lambda>fd.
                   give (opts, Suc ooFields, mb\<lparr>mb_fields := mb_fields mb @ [map_leaf (\<lambda>d. d\<lparr>v_oneofIndex := Some index\<rparr>) fd]\<rparr>))
             | GroupDecl f body \<Rightarrow>
                 bnd (group_field b h maxTag f) (\<lambda>fd.
                 bnd (asMessageDescriptor b h syn (Suc depth) (fa_name f) (fa_span f) (fa_group_span f) body
                       (\<lambda>mt mb. add_decls b h syn (Suc depth) mt body mb)) (\<lambda>md.
                   give (opts, Suc ooFields, mb\<lparr>mb_fields := mb_fields mb @ [map_leaf (\<lambda>d. d\<lparr>v_oneofIndex := Some index\<rparr>) fd],
                     mb_nested := mb_nested mb @ [md]\<rparr>)))
             | _ \<Rightarrow> give acc)
          (\<lambda>acc. add_oneof_decls b h syn depth maxTag index ds acc))"
| "add_extension_decls b h syn depth extendee [] acc = give acc"
| "add_extension_decls b h syn depth extendee (d # ds) acc =
     (case acc of (flds, msgs, count) \<Rightarrow>
        bnd (case d of
               FieldDecl f \<Rightarrow>
                 bnd (asFieldDescriptor b h syn MessageSetMax f) (\<lambda>fd.
                   give (flds @ [map_leaf (\<lambda>d. d\<lparr>v_extendee := Some extendee\<rparr>) fd], msgs, Suc count))
             | GroupDecl f body \<Rightarrow>
                 bnd (group_field b h MessageSetMax f) (\<lambda>fd.
                 bnd (asMessageDescriptor b h syn (Suc depth) (fa_name f) (fa_span f) (fa_group_span f) body
                       (\<lambda>mt mb. add_decls b h syn (Suc depth) mt body mb)) (\<lambda>md.
                   give (flds @ [map_leaf (\<lambda>d. d\<lparr>v_extendee := Some extendee\<rparr>) fd], msgs @ [md], Suc count)))
             | _ \<Rightarrow> give acc)
          (\<lambda>acc. add_extension_decls b h syn depth extendee ds acc))"

section \<open>Services\<close>

definition asMethodDescriptor :: "rpc_ast \<Rightarrow> vinfo leaf" where
  "asMethodDescriptor nd =
     Leaf (rpc_name nd) ((blank_info (rpc_span nd))\<lparr>v_inputType := rpc_input nd, v_outputType := rpc_output nd,
       v_clientStreaming := rpc_in_stream nd, v_serverStreaming := rpc_out_stream nd, v_opts := asUninterpretedOptions (rpc_opts nd)\<rparr>)"

definition asServiceDescriptor :: "service_ast \<Rightarrow> vinfo svcp" where
  "asServiceDescriptor svc =
     SvcP (sa_name svc)
       ((blank_info (sa_span svc))\<lparr>v_opts :=
          List.map_filter (\<lambda>d. case d of ServiceOption opt \<Rightarrow> Some (asUninterpretedOption opt) | _ \<Rightarrow> None) (sa_decls svc)\<rparr>)
       (List.map_filter (\<lambda>d. case d of ServiceRPC rpc \<Rightarrow> Some (asMethodDescriptor rpc) | _ \<Rightarrow> None) (sa_decls svc))"

section \<open>Files\<close>

record fbuild =
  fb_syntax :: string
  fb_edition :: "int option"
  fb_package :: "string option"
  fb_dependency :: "string list"
  fb_public :: "int list"
  fb_weak :: "int list"
  fb_opts :: "vopt list"
  fb_messages :: "vinfo msgp list"
  fb_enums :: "vinfo enump list"
  fb_exts :: "vinfo leaf list"
  fb_services :: "vinfo svcp list"

definition no_file :: fbuild where
  "no_file = \<lparr>fb_syntax = [], fb_edition = None, fb_package = None, fb_dependency = [], fb_public = [], fb_weak = [], fb_opts = [],
     fb_messages = [], fb_enums = [], fb_exts = [], fb_services = []\<rparr>"

definition warn_at :: "'r benv \<Rightarrow> nat \<Rightarrow> source_span \<Rightarrow> go_error \<Rightarrow> (unit, 'r) bact" where
  "warn_at b h sp err st = Some ((), HandleWarning (b_warn b) h (Error sp err) st)"

text \<open>The syntax or edition of the file, \<open>None\<close> when the handler wants to stop, and the descriptor so far.\<close>

definition file_syntax_of :: "'r benv \<Rightarrow> nat \<Rightarrow> file_ast \<Rightarrow> (syntaxKind option \<times> fbuild, 'r) bact" where
  "file_syntax_of b h file =
     (case file_syntax file of
        Some (s, sp) \<Rightarrow>
          let syn = (if s = ''proto3'' then Proto3 else if s = ''proto2'' then Proto2 else UnknownSyntax)
          in bnd (raise_if (syn = UnknownSyntax) b h sp
                   (''syntax value must be '' @ quoted ''proto2'' @ '' or '' @ quoted ''proto3''))
               (\<lambda>res. give (if res \<noteq> None then (None, no_file)
                             else (Some syn, if syn \<noteq> Proto2 then no_file\<lparr>fb_syntax := s\<rparr> else no_file)))
      | None \<Rightarrow>
          (case file_edition file of
             Some (edition, sp) \<Rightarrow>
               bnd (raise_if (b_supported b edition = None) b h sp
                      (if edition \<in> set (b_known b)
                       then ''edition '' @ e_quote (b_env b) edition @ '' not yet fully supported; latest supported edition '' @
                         e_quote (b_env b) (b_latest b)
                       else ''edition value '' @ e_quote (b_env b) edition @ '' not recognized; should be one of ['' @
                         drop 1 (concat (map (\<lambda>s. '','' @ e_quote (b_env b) s) (b_supported_names b))) @ '']''))
                 (\<lambda>res. give (if res \<noteq> None then (None, no_file\<lparr>fb_syntax := ''editions''\<rparr>)
                    else (Some Editions, no_file\<lparr>fb_syntax := ''editions'',
                      fb_edition := Some (case b_supported b edition of Some e \<Rightarrow> e | None \<Rightarrow> 0)\<rparr>)))
           | None \<Rightarrow>
               bnd (warn_at b h (file_span file) (Msg ''no syntax specified; defaulting to proto2 syntax''))
                 (\<lambda>_. give (Some Proto2, no_file))))"

text \<open>The checks of a package declaration; true if the handler wants to stop.\<close>

definition package_checks :: "'r benv \<Rightarrow> nat \<Rightarrow> bool \<Rightarrow> string \<Rightarrow> source_span \<Rightarrow> source_span \<Rightarrow> (bool, 'r) bact" where
  "package_checks b h again name sp name_sp =
     bnd (raise_if again b h sp ''files should have only one package declaration'') (\<lambda>res.
       if res \<noteq> None then give True
       else bnd (raise_if (length name \<ge> 512) b h name_sp
                   ''package name (with whitespace removed) must be less than 512 characters long'') (\<lambda>res.
         if res \<noteq> None then give True
         else bnd (raise_if (count_list name (CHR ''.'') > 100) b h name_sp
                     ''package name may not contain more than 100 periods'') (\<lambda>res. give (res \<noteq> None))))"

text \<open>One declaration of the file: the descriptor and whether to stop.\<close>

definition file_decl :: "'r benv \<Rightarrow> nat \<Rightarrow> syntaxKind \<Rightarrow> decl \<Rightarrow> fbuild \<Rightarrow> (bool \<times> fbuild, 'r) bact" where
  "file_decl b h syn d fb =
     (case d of
        EnumDecl en \<Rightarrow> bnd (asEnumDescriptor b h syn en) (\<lambda>ed. give (False, fb\<lparr>fb_enums := fb_enums fb @ [ed]\<rparr>))
      | ExtendDecl extendee sp decls \<Rightarrow>
          bnd (add_extension_decls b h syn 0 extendee decls (fb_exts fb, fb_messages fb, 0)) (\<lambda>(flds, msgs, count).
          bnd (raise_if (count = 0) b h sp ''extend sections must define at least one extension'') (\<lambda>_.
            give (False, fb\<lparr>fb_exts := flds, fb_messages := msgs\<rparr>)))
      | ImportDecl name modifier info \<Rightarrow>
          let index = int (length (fb_dependency fb)); fb = fb\<lparr>fb_dependency := fb_dependency fb @ [name]\<rparr>
          in give (False,
               if map_option fst modifier = Some ''public'' then fb\<lparr>fb_public := fb_public fb @ [index]\<rparr>
               else if map_option fst modifier = Some ''weak'' then fb\<lparr>fb_weak := fb_weak fb @ [index]\<rparr>
               else fb)
      | MessageDecl name vis sp body \<Rightarrow>
          bnd (asMessageDescriptor b h syn 1 name sp sp body (\<lambda>mt mb. add_decls b h syn 1 mt body mb)) (\<lambda>md.
            give (False, fb\<lparr>fb_messages := fb_messages fb @ [md]\<rparr>))
      | OptionDecl opt \<Rightarrow> give (False, fb\<lparr>fb_opts := fb_opts fb @ [asUninterpretedOption opt]\<rparr>)
      | ServiceDecl svc \<Rightarrow> give (False, fb\<lparr>fb_services := fb_services fb @ [asServiceDescriptor svc]\<rparr>)
      | PackageDecl name sp name_sp \<Rightarrow>
          bnd (package_checks b h (fb_package fb \<noteq> None) name sp name_sp) (\<lambda>stop.
            give (if stop then (True, fb) else (False, fb\<lparr>fb_package := Some name\<rparr>)))
      | _ \<Rightarrow> give (False, fb))"

primrec file_loop :: "'r benv \<Rightarrow> nat \<Rightarrow> syntaxKind \<Rightarrow> decl list \<Rightarrow> fbuild \<Rightarrow> (fbuild, 'r) bact" where
  "file_loop b h syn [] fb = give fb"
| "file_loop b h syn (d # ds) fb =
     (\<lambda>st. if ReporterError h st \<noteq> None then Some (fb, st)
           else bnd (file_decl b h syn d fb) (\<lambda>(stop, fb). if stop then give fb else file_loop b h syn ds fb) st)"

definition createFileDescriptor :: "'r benv \<Rightarrow> nat \<Rightarrow> file_ast \<Rightarrow> (fbuild, 'r) bact" where
  "createFileDescriptor b h file =
     bnd (file_syntax_of b h file) (\<lambda>(syn, fb).
       case syn of None \<Rightarrow> give fb | Some syn \<Rightarrow> file_loop b h syn (file_decls file) fb)"

definition source_of :: "file_ast \<Rightarrow> fbuild \<Rightarrow> source_file" where
  "source_of file fb =
     \<lparr>sf_edition = map_option fst (file_edition file), sf_decls = file_decls file, sf_syntax = fb_syntax fb, sf_opts = fb_opts fb,
      sf_proto = \<lparr>fpackage = (case fb_package fb of Some p \<Rightarrow> p | None \<Rightarrow> []), fmessages = fb_messages fb, fenums = fb_enums fb,
        fexts = fb_exts fb, fservices = fb_services fb\<rparr>\<rparr>"

text \<open>\<open>ResultFromAST\<close>: the descriptor protos and the verdict of the handler.\<close>

definition ResultFromAST ::
  "'r benv \<Rightarrow> nat \<Rightarrow> bool \<Rightarrow> file_ast \<Rightarrow> ((fbuild \<times> vinfo filep) \<times> go_error option, 'r) bact" where
  "ResultFromAST b h validate file =
     bnd (createFileDescriptor b h file) (\<lambda>fb st.
       let p = source_of file fb;
           (res, st) = (if validate then validateBasic (b_env b) h p st else (None, st))
       in if res = Some VPanicked then None
          else Some (((fb, fillInMissingLabels (sf_proto p)), Handler_Error h st), st))"

end
