(* ===== verification/ValidateSafe.thy ===== *)
theory ValidateSafe
  imports Validate "HOL-Library.Multiset"
begin

text \<open>
  What the validation of a parsed file accepts. Every operation of \<open>Validate\<close> is described by the condition under
  which it reports nothing (\<open>checks\<close>); conditions of operations in sequence are conjoined, so the condition of the whole
  validation follows the structure of the code, and is then shown to be the one that the language asks for.
\<close>

section \<open>Checks\<close>

text \<open>What the operations of this theory have in common: \<open>checks h a P\<close> says that the operation \<open>a\<close> does
  nothing if \<open>P\<close> holds, and otherwise leaves the handler with an error, whatever the reporter answers. It
  never panics.\<close>

definition hok :: "nat \<Rightarrow> 'r hstore \<Rightarrow> bool" where
  "hok h st \<longleftrightarrow> hstore_ok st \<and> h < length (handlers st)"

definition checks :: "nat \<Rightarrow> 'r vact \<Rightarrow> bool \<Rightarrow> bool" where
  "checks h a P \<longleftrightarrow> (\<forall>st. hok h st \<longrightarrow>
     (if P then a st = (None, st)
      else hok h (snd (a st)) \<and> fst (a st) \<noteq> Some VPanicked \<and> Handler_Error h (snd (a st)) \<noteq> None))"

lemma checks_skip: "checks h skip True"
  by (simp add: checks_def skip_def)

lemma HandleError_hok:
  assumes "hok h st"
  shows "hok h (snd (HandleError rep h err st))"
proof -
  obtain res st' where run: "HandleError rep h err st = (res, st')" by fastforce
  have "length (handlers st') = length (handlers st)" "\<And>k. parent (hget st' k) = parent (hget st k)"
    using HandleError_frame [OF _ _ run] assms by (auto simp: hok_def)
  then show ?thesis using assms by (simp add: run hok_def hstore_ok_def)
qed

lemma checks_herrorf: "checks h (herrorf env h sp msg) False"
  unfolding checks_def if_False
proof (intro allI impI)
  fix st :: "'a hstore"
  assume st: "hok h st"
  obtain res st' where run: "HandleError (e_reporter env) h (Errorf sp msg) st = (res, st')" by fastforce
  have "herrorf env h sp msg st = (map_option VFailed res, st')"
    by (simp add: herrorf_def HandleErrorf_def run)
  moreover have "hok h st'" "Handler_Error h st' \<noteq> None"
    using HandleError_hok [OF st, of "e_reporter env" "Errorf sp msg"] run Handler_Error_after [OF _ _ run] st
    by (simp_all add: hok_def)
  ultimately show "hok h (snd (herrorf env h sp msg st)) \<and> fst (herrorf env h sp msg st) \<noteq> Some VPanicked \<and>
    Handler_Error h (snd (herrorf env h sp msg st)) \<noteq> None" by (cases res) simp_all
qed

lemma checks_cong: "checks h a P \<Longrightarrow> P = Q \<Longrightarrow> checks h a Q"
  by simp

lemma checks_andThen:
  assumes "checks h a P" "checks h b Q"
  shows "checks h (andThen a b) (P \<and> Q)"
  unfolding checks_def
proof (intro allI impI)
  fix st :: "'a hstore"
  assume st: "hok h st"
  note A = assms(1) [unfolded checks_def, rule_format, OF st]
  obtain res st1 where 1: "a st = (res, st1)" by fastforce
  then have "hok h st1" using A st by (auto split: if_splits)
  note B = assms(2) [unfolded checks_def, rule_format, OF this]
  show "if P \<and> Q then andThen a b st = (None, st)
    else hok h (snd (andThen a b st)) \<and> fst (andThen a b st) \<noteq> Some VPanicked \<and> Handler_Error h (snd (andThen a b st)) \<noteq> None"
    using A B 1 by (cases res; cases P; cases Q) (auto simp: andThen_def)
qed

lemma checks_if:
  "(b \<Longrightarrow> checks h a P) \<Longrightarrow> (\<not> b \<Longrightarrow> checks h a' Q) \<Longrightarrow> checks h (if b then a else a') (if b then P else Q)"
  by simp

lemma checks_error_if: "checks h (herror_if b env h sp msg) (\<not> b)"
  using checks_skip checks_herrorf by (cases b) simp_all

lemma checks_run_all:
  "(\<And>x. x \<in> set xs \<Longrightarrow> checks h (f x) (P x)) \<Longrightarrow> checks h (run_all (map f xs)) (\<forall>x \<in> set xs. P x)"
proof (induction xs)
  case (Cons x xs)
  then have "checks h (andThen (f x) (run_all (map f xs))) (P x \<and> (\<forall>x \<in> set xs. P x))"
    by (intro checks_andThen) auto
  then show ?case by simp
qed (use checks_skip in simp)

lemma checks_option:
  "checks h n P \<Longrightarrow> (\<And>x. checks h (s x) (Q x)) \<Longrightarrow>
     checks h (case m of None \<Rightarrow> n | Some x \<Rightarrow> s x) (case m of None \<Rightarrow> P | Some x \<Rightarrow> Q x)"
  by (cases m) simp_all

section \<open>Options\<close>

abbreviation is_option :: "string \<Rightarrow> vopt \<Rightarrow> bool" where
  "is_option name opt \<equiv> o_name opt = [(name, False)]"

definition wf_opts :: "vopt list \<Rightarrow> bool" where
  "wf_opts opts \<longleftrightarrow> (\<forall>opt \<in> set opts. o_name opt \<noteq> [])"

lemma find_first:
  assumes "wf_opts opts" "0 \<le> i"
  shows "\<exists>j. find_option_loop False True name hit i opts = Index j \<and>
    (if \<exists>opt \<in> set opts. hd (o_name opt) = (name, False) then 0 \<le> j else j = hit)"
  using assms
proof (induction opts arbitrary: i)
  case (Cons opt opts)
  then obtain part is_ext ps where "o_name opt = (part, is_ext) # ps"
    by (cases "o_name opt") (auto simp: wf_opts_def)
  moreover have "wf_opts opts" using Cons.prems by (simp add: wf_opts_def)
  ultimately show ?case using Cons.IH [of "i + 1"] Cons.prems(2) by (auto simp: wf_opts_def)
qed simp

lemma find_exact:
  assumes "0 \<le> i"
  shows "find_option_loop True False name hit i opts =
    (case filter (is_option name) opts of
       [] \<Rightarrow> Index hit
     | opt # rest \<Rightarrow>
         if 0 \<le> hit then Duplicate opt
         else case rest of [] \<Rightarrow> Index (i + int (length (takeWhile (\<lambda>opt. \<not> is_option name opt) opts)))
              | opt' # _ \<Rightarrow> Duplicate opt')"
  using assms
proof (induction opts arbitrary: hit i)
  case (Cons opt opts)
  show ?case
  proof (cases "is_option name opt")
    case True
    with Cons show ?thesis by (auto split: list.splits)
  next
    case False
    then have "find_option_loop True False name hit i (opt # opts) = find_option_loop True False name hit (i + 1) opts"
      by (auto split: list.splits)
    with False Cons show ?thesis by (simp split: list.splits)
  qed
qed simp

definition no_features :: "syntaxKind \<Rightarrow> vopt list \<Rightarrow> bool" where
  "no_features syn opts \<longleftrightarrow> syn = Editions \<or> (\<forall>opt \<in> set opts. hd (o_name opt) \<noteq> (''features'', False))"

lemma checks_validateNoFeatures:
  assumes "wf_opts opts"
  shows "checks h (validateNoFeatures env h syn scope opts) (no_features syn opts)"
proof (cases "syn = Editions")
  case True
  then show ?thesis using checks_skip by (simp add: validateNoFeatures_def no_features_def)
next
  case False
  obtain j where "find_option_loop False True ''features'' (-1) 0 opts = Index j"
    "0 \<le> j \<longleftrightarrow> (\<exists>opt \<in> set opts. hd (o_name opt) = (''features'', False))"
    using find_first [OF assms order.refl, of "''features''" "-1"] by (auto split: if_splits)
  with False show ?thesis
    unfolding validateNoFeatures_def FindFirstOption_def findOption_def no_features_def
    by (simp only: if_False option_hit.case) (rule checks_cong [OF checks_error_if], blast)
qed

lemma filter_first:
  "filter P xs = y # ys \<Longrightarrow> length (takeWhile (\<lambda>x. \<not> P x) xs) < length xs \<and> xs ! length (takeWhile (\<lambda>x. \<not> P x) xs) = y \<and> P y"
  by (induction xs) (auto split: if_splits)

lemma checks_FindOption:
  assumes "checks h (k (-1)) P"
    and "\<And>j. j < length opts \<Longrightarrow> is_option name (opts ! j) \<Longrightarrow> checks h (k (int j)) (Q (opts ! j))"
  shows "checks h (FindOption env h scope opts name k)
    (case filter (is_option name) opts of [] \<Rightarrow> P | [opt] \<Rightarrow> Q opt | _ \<Rightarrow> False)"
proof (cases "filter (is_option name) opts")
  case Nil
  then show ?thesis using assms(1) by (simp add: FindOption_def findOption_def find_exact)
next
  case (Cons opt rest)
  let ?j = "length (takeWhile (\<lambda>opt. \<not> is_option name opt) opts)"
  note first = filter_first [OF Cons]
  show ?thesis
  proof (cases rest)
    case Nil
    then show ?thesis using Cons assms(2) [of ?j] first by (simp add: FindOption_def findOption_def find_exact)
  next
    case (Cons opt' rest')
    with \<open>filter (is_option name) opts = opt # rest\<close> checks_andThen [OF checks_herrorf assms(1)]
    show ?thesis by (simp add: FindOption_def findOption_def find_exact)
  qed
qed

section \<open>Ranges\<close>

text \<open>The numbers of a range, and lists of ranges of which no two have a number in common.\<close>

definition upto_of :: "bool \<Rightarrow> tagRange \<Rightarrow> int" where
  "upto_of inclusive r = (if inclusive then tr_end r else tr_end r - 1)"

definition numbers :: "bool \<Rightarrow> tagRange \<Rightarrow> int set" where
  "numbers inclusive r = {tr_start r .. upto_of inclusive r}"

definition disjoint_ranges :: "bool \<Rightarrow> tagRange list \<Rightarrow> bool" where
  "disjoint_ranges inclusive rs \<longleftrightarrow> sorted_wrt (\<lambda>a b. numbers inclusive a \<inter> numbers inclusive b = {}) rs"

definition sorts :: "(tagRange list \<Rightarrow> tagRange list) \<Rightarrow> bool" where
  "sorts srt \<longleftrightarrow> (\<forall>rs. mset (srt rs) = mset rs \<and> sorted_wrt (\<lambda>a b. \<not> Less b a) (srt rs))"

abbreviation proper :: "bool \<Rightarrow> tagRange list \<Rightarrow> bool" where
  "proper inclusive rs \<equiv> \<forall>r \<in> set rs. tr_start r \<le> upto_of inclusive r"

abbreviation by_start :: "tagRange list \<Rightarrow> bool" where
  "by_start rs \<equiv> sorted_wrt (\<lambda>a b. tr_start a \<le> tr_start b) rs"

lemma sorted_wrt_mset:
  assumes "symp R"
  shows "sorted_wrt R xs \<longleftrightarrow> (\<forall>x y. {#x, y#} \<subseteq># mset xs \<longrightarrow> R x y)"
proof (induction xs)
  case (Cons a xs)
  have "{#x, y#} \<subseteq># add_mset a (mset xs) \<longleftrightarrow>
      {#x, y#} \<subseteq># mset xs \<or> x = a \<and> y \<in> set xs \<or> y = a \<and> x \<in> set xs" for x y
    by (cases "x = a") (auto simp: insert_subset_eq_iff diff_union_swap [symmetric] dest: in_diffD)
  with Cons assms show ?case by (auto dest: sympD)
qed auto

lemma sorted_facts:
  assumes "sorts srt"
  shows "set (srt rs) = set rs" "by_start (srt rs)" "disjoint_ranges inclusive (srt rs) = disjoint_ranges inclusive rs"
proof -
  have m: "mset (srt rs) = mset rs" and s: "sorted_wrt (\<lambda>a b. \<not> Less b a) (srt rs)"
    using assms by (simp_all add: sorts_def)
  show "set (srt rs) = set rs" using m by (metis set_mset_mset)
  show "by_start (srt rs)" by (rule sorted_wrt_mono_rel [OF _ s]) (auto simp: Less_def)
  have "symp (\<lambda>a b. numbers inclusive a \<inter> numbers inclusive b = {})" by (auto intro: sympI)
  from sorted_wrt_mset [OF this] m show "disjoint_ranges inclusive (srt rs) = disjoint_ranges inclusive rs"
    by (simp add: disjoint_ranges_def)
qed

lemma touches_overlap:
  "tr_start a \<le> tr_start b \<Longrightarrow> tr_start a \<le> upto_of inc a \<Longrightarrow> tr_start b \<le> upto_of inc b \<Longrightarrow>
     touches inc a b \<longleftrightarrow> numbers inc a \<inter> numbers inc b \<noteq> {}"
  by (auto simp: touches_def numbers_def upto_of_def)

lemma apart_trans:
  "\<not> touches inc a b \<Longrightarrow> \<not> touches inc b c \<Longrightarrow> tr_start b \<le> upto_of inc b \<Longrightarrow> \<not> touches inc a c"
  by (auto simp: touches_def upto_of_def split: if_splits)

definition apart :: "bool \<Rightarrow> tagRange list \<Rightarrow> bool" where
  "apart inc rs \<longleftrightarrow> sorted_wrt (\<lambda>a b. \<not> touches inc a b) rs"

lemma apart_disjoint:
  assumes "by_start rs" "proper inc rs"
  shows "apart inc rs \<longleftrightarrow> disjoint_ranges inc rs"
  using assms by (induction rs) (auto simp: apart_def disjoint_ranges_def touches_overlap)

lemma checks_neighbours:
  "proper inc rs \<Longrightarrow> checks h (check_neighbours env h inc prefix rs) (apart inc rs)"
proof (induction env h inc prefix rs rule: check_neighbours.induct)
  case (1 env h inc prefix a b rs)
  have "checks h (check_neighbours env h inc prefix (a # b # rs)) (\<not> touches inc a b \<and> apart inc (b # rs))"
    unfolding check_neighbours.simps using 1 by (intro checks_andThen checks_error_if) auto
  moreover have "\<not> touches inc a b \<and> apart inc (b # rs) \<longleftrightarrow> apart inc (a # b # rs)"
    using 1(2) apart_trans [of inc a b] by (auto simp: apart_def)
  ultimately show ?case by simp
qed (use checks_skip in \<open>auto simp: apart_def\<close>)

text \<open>The merge finds an overlap between the two lists if there is one: of two heads that do not overlap, the
  one that starts first ends before everything else in the other list starts.\<close>

lemma checks_reserved_extensions:
  assumes "by_start rs" "by_start es" "proper False rs" "proper False es"
  shows "checks h (check_reserved_extensions env h scope rs es)
    (\<forall>r \<in> set rs. \<forall>e \<in> set es. numbers False r \<inter> numbers False e = {})"
  using assms
proof (induction env h scope rs es rule: check_reserved_extensions.induct)
  case (1 env h scope r rs e es)
  let ?over = "tr_start e \<le> tr_start r \<and> tr_start r < tr_end e \<or> tr_start r \<le> tr_start e \<and> tr_start e < tr_end r"
  define D where "D r e \<longleftrightarrow> numbers False r \<inter> numbers False e = {}" for r e
  have over: "?over \<longleftrightarrow> numbers False r \<inter> numbers False e \<noteq> {}"
    using 1(5,6) by (auto simp: numbers_def upto_of_def)
  then have over: "?over \<longleftrightarrow> \<not> D r e" by (simp add: D_def)
  show ?case
  proof (cases "tr_start r < tr_start e")
    case True
    have "D r e'" if "\<not> ?over" "e' \<in> set es" for e'
      using that True 1(4) by (force simp: D_def numbers_def upto_of_def)
    then have "(\<not> ?over \<and> (\<forall>r \<in> set rs. \<forall>e' \<in> set (e # es). D r e')) \<longleftrightarrow>
        (\<forall>r \<in> set (r # rs). \<forall>e' \<in> set (e # es). D r e')"
      using over by auto
    moreover have "checks h (check_reserved_extensions env h scope (r # rs) (e # es))
      (\<not> ?over \<and> (\<forall>r \<in> set rs. \<forall>e' \<in> set (e # es). D r e'))"
      using 1(1) [OF refl refl True, folded D_def] 1(3-6) True
      unfolding check_reserved_extensions.simps Let_def by (intro checks_andThen checks_error_if) auto
    ultimately show ?thesis by (simp only: D_def)
  next
    case False
    have "D r' e" if "\<not> ?over" "r' \<in> set rs" for r'
      using that False 1(3) by (force simp: D_def numbers_def upto_of_def)
    then have "(\<not> ?over \<and> (\<forall>r \<in> set (r # rs). \<forall>e' \<in> set es. D r e')) \<longleftrightarrow>
        (\<forall>r \<in> set (r # rs). \<forall>e' \<in> set (e # es). D r e')"
      using over by auto
    moreover have "checks h (check_reserved_extensions env h scope (r # rs) (e # es))
      (\<not> ?over \<and> (\<forall>r \<in> set (r # rs). \<forall>e' \<in> set es. D r e'))"
      using 1(2) [OF refl refl False, folded D_def] 1(3-6) False
      unfolding check_reserved_extensions.simps Let_def by (intro checks_andThen checks_error_if) auto
    ultimately show ?thesis by (simp only: D_def)
  qed
qed (use checks_skip in simp_all)

text \<open>Binary search finds the first index, if from there on the predicate holds.\<close>

lemma search_loop_first:
  assumes "\<And>i j. i \<le> j \<Longrightarrow> j < n \<Longrightarrow> f i \<Longrightarrow> f j" "i \<le> j" "j \<le> n" "\<forall>k < i. \<not> f k" "j < n \<Longrightarrow> f j"
  shows "search_loop f i j \<le> n \<and> (\<forall>k < search_loop f i j. \<not> f k) \<and> (search_loop f i j < n \<longrightarrow> f (search_loop f i j))"
  using assms
proof (induction f i j rule: search_loop.induct)
  case (1 f i j)
  show ?case
  proof (cases "i < j")
    case True
    let ?h = "(i + j) div 2"
    have h: "i \<le> ?h" "?h < j" using True by simp_all
    show ?thesis
    proof (cases "f ?h")
      case yes: True
      with 1(2) [OF True refl] 1(3-7) h show ?thesis
        by (subst (1 2 3 4) search_loop.simps) (simp add: True yes Let_def)
    next
      case no: False
      then have "\<forall>k < ?h + 1. \<not> f k" using 1(3) [of _ ?h] h 1(5) by fastforce
      with 1(1) [OF True refl no] 1(3-7) h show ?thesis
        by (subst (1 2 3 4) search_loop.simps) (simp add: True no Let_def)
    qed
  next
    case False
    with 1(3-7) show ?thesis by (simp add: search_loop.simps)
  qed
qed

lemma range_of_None:
  assumes "apart inc rs" "proper inc rs" "by_start rs"
  shows "range_of inc rs tag = None \<longleftrightarrow> (\<forall>r \<in> set rs. tag \<notin> numbers inc r)"
proof -
  let ?f = "\<lambda>i. tag \<le> upto_of inc (rs ! i)"
  let ?i = "Search (length rs) ?f"
  have mono: "?f j" if "i \<le> j" "j < length rs" "?f i" for i j
  proof (cases "i = j")
    case False
    with that have "\<not> touches inc (rs ! i) (rs ! j)" using assms(1) by (simp add: apart_def sorted_wrt_iff_nth_less)
    moreover have "tr_start (rs ! j) \<le> upto_of inc (rs ! j)" using assms(2) that(2) by simp
    ultimately show ?thesis using that(3) by (auto simp: touches_def upto_of_def split: if_splits)
  qed (use that in simp)
  have first: "\<forall>k < ?i. \<not> ?f k" "?i < length rs \<longrightarrow> ?f ?i"
    using search_loop_first [of "length rs" ?f 0 "length rs"] mono by (simp_all add: Search_def)
  have eq: "range_of inc rs tag = (if ?i < length rs \<and> tr_start (rs ! ?i) \<le> tag then Some (rs ! ?i) else None)"
    by (cases inc) (simp_all add: range_of_def upto_of_def Let_def)
  show ?thesis
  proof
    assume none: "range_of inc rs tag = None"
    show "\<forall>r \<in> set rs. tag \<notin> numbers inc r"
    proof (intro ballI notI)
      fix r
      assume "r \<in> set rs" "tag \<in> numbers inc r"
      then obtain j where j: "j < length rs" "tr_start (rs ! j) \<le> tag" "?f j"
        by (auto simp: numbers_def in_set_conv_nth)
      then have "?i \<le> j" using first(1) by (meson not_le)
      moreover from this j assms(3) have "tr_start (rs ! ?i) \<le> tr_start (rs ! j)"
        by (cases "?i = j") (auto simp: sorted_wrt_iff_nth_less)
      ultimately show False using none eq j by (auto split: if_splits)
    qed
  next
    assume out: "\<forall>r \<in> set rs. tag \<notin> numbers inc r"
    have "\<not> (?i < length rs \<and> tr_start (rs ! ?i) \<le> tag)"
    proof
      assume "?i < length rs \<and> tr_start (rs ! ?i) \<le> tag"
      with first(2) have "rs ! ?i \<in> set rs" "tag \<in> numbers inc (rs ! ?i)" by (simp_all add: numbers_def)
      with out show False by blast
    qed
    with eq show "range_of inc rs tag = None" by simp
  qed
qed

section \<open>Messages\<close>

lemma checks_tag: "checks h (check_tag env h scope kind rs fld) (range_of False rs (GetNumber fld) = None)"
  using checks_skip checks_herrorf by (cases "range_of False rs (GetNumber fld)") (simp_all add: check_tag_def)

definition field_fits :: "string list \<Rightarrow> tagRange list \<Rightarrow> tagRange list \<Rightarrow> vinfo leaf \<Rightarrow> bool" where
  "field_fits names rsvd extRanges fld \<longleftrightarrow> leaf_name fld \<notin> set names \<and>
     range_of False rsvd (GetNumber fld) = None \<and> range_of False extRanges (GetNumber fld) = None"

lemma checks_fields:
  assumes "\<forall>fld \<in> set flds. leaf_name fld \<noteq> []" "[] \<notin> ran tags"
  shows "checks h (check_fields env h scope names rsvd extRanges tags flds)
    ((\<forall>fld \<in> set flds. field_fits names rsvd extRanges fld) \<and> distinct (map GetNumber flds) \<and>
     GetNumber ` set flds \<inter> dom tags = {})"
  using assms
proof (induction flds arbitrary: tags)
  case Nil
  then show ?case using checks_skip by simp
next
  case (Cons fld flds)
  let ?tag = "GetNumber fld" and ?tags = "tags(GetNumber fld \<mapsto> leaf_name fld)"
  have ran: "[] \<notin> ran ?tags" using Cons.prems by (auto simp: ran_def split: if_splits)
  have dup: "(case tags ?tag of Some n \<Rightarrow> n | None \<Rightarrow> []) \<noteq> [] \<longleftrightarrow> ?tag \<in> dom tags"
    using Cons.prems(2) by (auto simp: ran_def split: option.splits)
  have "checks h (check_fields env h scope names rsvd extRanges tags (fld # flds))
    (leaf_name fld \<notin> set names \<and> \<not> ?tag \<in> dom tags \<and> range_of False rsvd ?tag = None \<and> range_of False extRanges ?tag = None \<and>
     (\<forall>fld \<in> set flds. field_fits names rsvd extRanges fld) \<and> distinct (map GetNumber flds) \<and> GetNumber ` set flds \<inter> dom ?tags = {})"
    unfolding check_fields.simps Let_def dup
    by (intro checks_andThen checks_error_if checks_tag Cons.IH ran) (use Cons.prems in simp)
  then show ?case by (rule checks_cong) (auto simp: field_fits_def)
qed

definition message_valid :: "syntaxKind \<Rightarrow> vinfo msgp \<Rightarrow> bool" where
  "message_valid syn md \<longleftrightarrow>
     (let d = msg_data md; rsvd = v_reservedRange d; extRanges = map fst (v_extensionRange d); flds = msg_fields md
      in (syn = Proto3 \<longrightarrow> extRanges = []) \<and>
         (\<forall>opt \<in> set (v_opts d). \<not> is_option ''map_entry'' opt) \<and>
         no_features syn (v_opts d) \<and> (\<forall>er \<in> set (v_extensionRange d). no_features syn (snd er)) \<and>
         disjoint_ranges False rsvd \<and> disjoint_ranges False extRanges \<and>
         (\<forall>r \<in> set rsvd. \<forall>e \<in> set extRanges. numbers False r \<inter> numbers False e = {}) \<and>
         (\<forall>n \<in> set (v_reservedName d). isIdentifier n) \<and>
         distinct (map GetNumber flds) \<and>
         (\<forall>fld \<in> set flds. leaf_name fld \<notin> set (v_reservedName d) \<and>
            (\<forall>r \<in> set (rsvd @ extRanges). GetNumber fld \<notin> numbers False r)))"

definition message_wf :: "vinfo msgp \<Rightarrow> bool" where
  "message_wf md \<longleftrightarrow>
     (let d = msg_data md
      in wf_opts (v_opts d) \<and> (\<forall>er \<in> set (v_extensionRange d). wf_opts (snd er)) \<and>
         proper False (v_reservedRange d) \<and> proper False (map fst (v_extensionRange d)) \<and>
         (\<forall>fld \<in> set (msg_fields md). leaf_name fld \<noteq> []))"

lemma checks_no_option:
  "checks h (FindOption env h scope opts name (\<lambda>index. herror_if (index \<ge> 0) env h (sp index) msg))
    (\<forall>opt \<in> set opts. \<not> is_option name opt)"
proof -
  have "checks h (FindOption env h scope opts name (\<lambda>index. herror_if (index \<ge> 0) env h (sp index) msg))
      (case filter (is_option name) opts of [] \<Rightarrow> True | [opt] \<Rightarrow> False | _ \<Rightarrow> False)"
    by (rule checks_FindOption) (use checks_skip checks_herrorf in simp_all)
  moreover have "(case filter (is_option name) opts of [] \<Rightarrow> True | [opt] \<Rightarrow> False | _ \<Rightarrow> False) \<longleftrightarrow>
      filter (is_option name) opts = []"
    by (auto split: list.splits)
  ultimately show ?thesis by (simp only: filter_empty_conv)
qed

lemma checks_reserved_names:
  "checks h (check_reserved_names env h scope d) (\<forall>n \<in> set (v_reservedName d). isIdentifier n)"
  unfolding check_reserved_names_def by (intro checks_run_all) (rule checks_cong [OF checks_error_if], simp)

text \<open>What the search of the sorted ranges finds is what the ranges contain, once they are known not to overlap.\<close>

lemma sorted_search:
  assumes "sorts srt" "proper inc rs"
  shows "apart inc (srt rs) \<longleftrightarrow> disjoint_ranges inc rs"
    and "disjoint_ranges inc rs \<Longrightarrow> range_of inc (srt rs) tag = None \<longleftrightarrow> (\<forall>r \<in> set rs. tag \<notin> numbers inc r)"
proof -
  note F = sorted_facts [OF assms(1)]
  have pr: "proper inc (srt rs)" using F(1) assms(2) by simp
  show eq: "apart inc (srt rs) \<longleftrightarrow> disjoint_ranges inc rs" using apart_disjoint [OF F(2) pr] F(3) by simp
  then show "disjoint_ranges inc rs \<Longrightarrow> range_of inc (srt rs) tag = None \<longleftrightarrow> (\<forall>r \<in> set rs. tag \<notin> numbers inc r)"
    using range_of_None [OF _ pr F(2)] F(1) by simp
qed

lemma checks_message:
  assumes "sorts (e_sort env)" "message_wf md"
  shows "checks h (validateMessage env h syn name md) (message_valid syn md)"
proof -
  let ?d = "msg_data md"
  let ?rs = "v_reservedRange ?d" and ?es = "map fst (v_extensionRange ?d)"
  let ?srs = "e_sort env ?rs" and ?ses = "e_sort env ?es"
  have wf: "wf_opts (v_opts ?d)" "\<forall>er \<in> set (v_extensionRange ?d). wf_opts (snd er)" "proper False ?rs" "proper False ?es"
    "\<forall>fld \<in> set (msg_fields md). leaf_name fld \<noteq> []"
    using assms(2) by (simp_all add: message_wf_def Let_def)
  note F = sorted_facts [OF assms(1)]
  have pr: "proper False ?srs" "proper False ?ses" using F(1) wf(3,4) by simp_all
  have checked: "checks h (validateMessage env h syn name md)
    (\<not> (syn = Proto3 \<and> v_extensionRange ?d \<noteq> []) \<and> (\<forall>opt \<in> set (v_opts ?d). \<not> is_option ''map_entry'' opt) \<and>
     no_features syn (v_opts ?d) \<and> apart False ?srs \<and> (\<forall>er \<in> set (v_extensionRange ?d). no_features syn (snd er)) \<and>
     apart False ?ses \<and> (\<forall>r \<in> set ?srs. \<forall>e \<in> set ?ses. numbers False r \<inter> numbers False e = {}) \<and>
     (\<forall>n \<in> set (v_reservedName ?d). isIdentifier n) \<and>
     ((\<forall>fld \<in> set (msg_fields md). field_fits (v_reservedName ?d) ?srs ?ses fld) \<and> distinct (map GetNumber (msg_fields md)) \<and>
      GetNumber ` set (msg_fields md) \<inter> dom (Map.empty :: int \<rightharpoonup> string) = {}) \<and> True)"
    unfolding validateMessage_def Let_def run_all.simps
    by (intro checks_andThen checks_error_if checks_no_option checks_validateNoFeatures checks_neighbours checks_run_all
        checks_reserved_extensions checks_reserved_names checks_fields checks_skip)
       (use wf pr F in simp_all)
  have search: "(apart False ?srs \<and> apart False ?ses \<and> (\<forall>fld \<in> set (msg_fields md). field_fits (v_reservedName ?d) ?srs ?ses fld)) \<longleftrightarrow>
    (disjoint_ranges False ?rs \<and> disjoint_ranges False ?es \<and>
     (\<forall>fld \<in> set (msg_fields md). leaf_name fld \<notin> set (v_reservedName ?d) \<and>
        (\<forall>r \<in> set (?rs @ ?es). GetNumber fld \<notin> numbers False r)))"
    using sorted_search [OF assms(1) wf(3)] sorted_search [OF assms(1) wf(4)]
    by (auto simp: field_fits_def ball_Un simp del: map_map set_map)
  show ?thesis
    by (rule checks_cong [OF checked], simp only: message_valid_def Let_def F(1) dom_empty Int_empty_right simp_thms map_is_Nil_conv)
       (use search in blast)
qed

section \<open>Enums\<close>

lemma checks_aliases:
  assumes "\<forall>v \<in> set vs. leaf_name v \<noteq> []" "[] \<notin> ran vals" "\<And>b. checks h (k b) (P b)"
  shows "checks h (check_aliases env h scope allow vals als k vs)
    (let fresh = (distinct (map GetNumber vs) \<and> GetNumber ` set vs \<inter> dom vals = {})
     in (allow \<or> fresh) \<and> P (als \<or> allow \<and> \<not> fresh))"
  using assms(1,2)
proof (induction vs arbitrary: vals als)
  case Nil
  then show ?case using assms(3) by simp
next
  case (Cons v vs)
  let ?num = "GetNumber v"
  let ?vals = "vals(?num \<mapsto> leaf_name v)"
  have ran: "[] \<notin> ran ?vals" using Cons.prems by (auto simp: ran_def split: if_splits)
  have dup: "(case vals ?num of Some n \<Rightarrow> n | None \<Rightarrow> []) \<noteq> [] \<longleftrightarrow> ?num \<in> dom vals"
    using Cons.prems(2) by (auto simp: ran_def split: option.splits)
  let ?fresh = "distinct (map GetNumber vs) \<and> GetNumber ` set vs \<inter> dom ?vals = {}"
  let ?aliased = "als \<or> ?num \<in> dom vals \<and> allow"
  have "checks h (check_aliases env h scope allow vals als k (v # vs))
    (\<not> (?num \<in> dom vals \<and> \<not> allow) \<and> (let fresh = ?fresh in (allow \<or> fresh) \<and> P (?aliased \<or> allow \<and> \<not> fresh)))"
    unfolding check_aliases.simps Let_def dup
    by (intro checks_andThen checks_error_if Cons.IH [unfolded Let_def] ran) (use Cons.prems in simp)
  moreover have "(distinct (map GetNumber (v # vs)) \<and> GetNumber ` set (v # vs) \<inter> dom vals = {}) \<longleftrightarrow> ?num \<notin> dom vals \<and> ?fresh"
    by auto
  ultimately show ?case unfolding Let_def by (cases allow) (auto elim!: checks_cong)
qed

definition value_fits :: "string list \<Rightarrow> tagRange list \<Rightarrow> vinfo leaf \<Rightarrow> bool" where
  "value_fits names rsvd v \<longleftrightarrow> leaf_name v \<notin> set names \<and> range_of True rsvd (GetNumber v) = None"

lemma checks_value: "checks h (check_value env h scope names rsvd v) (value_fits names rsvd v)"
proof -
  have "checks h (case range_of True rsvd (GetNumber v) of None \<Rightarrow> skip | Some r \<Rightarrow> herrorf env h sp (msg r))
      (range_of True rsvd (GetNumber v) = None)" for sp msg
    using checks_skip checks_herrorf by (cases "range_of True rsvd (GetNumber v)") simp_all
  then show ?thesis unfolding check_value_def value_fits_def by (intro checks_andThen checks_error_if)
qed

text \<open>The value of \<open>allow_alias\<close>: absent, a boolean, or \<open>None\<close> if it is set twice or is not a boolean.\<close>

definition alias_option :: "vopt list \<Rightarrow> bool option" where
  "alias_option opts =
     (case filter (is_option ''allow_alias'') opts of
        [] \<Rightarrow> Some False
      | [opt] \<Rightarrow> (if o_ident opt = Some ''true'' then Some True else if o_ident opt = Some ''false'' then Some False else None)
      | _ \<Rightarrow> None)"

definition enum_valid :: "syntaxKind \<Rightarrow> vinfo enump \<Rightarrow> bool" where
  "enum_valid syn ed \<longleftrightarrow>
     (let d = en_data ed; vals = en_values ed; rsvd = v_reservedRange d
      in vals \<noteq> [] \<and> no_features syn (v_opts d) \<and>
         (syn = Proto3 \<longrightarrow> GetNumber (hd vals) = 0) \<and>
         alias_option (v_opts d) = Some (\<not> distinct (map GetNumber vals)) \<and>
         disjoint_ranges True rsvd \<and>
         (\<forall>n \<in> set (v_reservedName d). isIdentifier n) \<and>
         (\<forall>v \<in> set vals. leaf_name v \<notin> set (v_reservedName d) \<and> (\<forall>r \<in> set rsvd. GetNumber v \<notin> numbers True r)))"

definition enum_wf :: "vinfo enump \<Rightarrow> bool" where
  "enum_wf ed \<longleftrightarrow>
     wf_opts (v_opts (en_data ed)) \<and> proper True (v_reservedRange (en_data ed)) \<and>
     (\<forall>v \<in> set (en_values ed). leaf_name v \<noteq> [])"

lemma checks_enum:
  assumes "sorts (e_sort env)" "enum_wf ed"
  shows "checks h (validateEnum env h syn name ed) (enum_valid syn ed)"
proof -
  let ?d = "en_data ed" and ?vs = "en_values ed"
  let ?rs = "v_reservedRange ?d"
  let ?srs = "e_sort env ?rs"
  have wf: "wf_opts (v_opts ?d)" "proper True ?rs" "\<forall>v \<in> set ?vs. leaf_name v \<noteq> []"
    using assms(2) by (simp_all add: enum_wf_def)
  note F = sorted_facts [OF assms(1)]
  have pr: "proper True ?srs" using F(1) wf(2) by simp
  let ?fresh = "distinct (map GetNumber ?vs) \<and> GetNumber ` set ?vs \<inter> dom (Map.empty :: int \<rightharpoonup> string) = {}"
  let ?rest = "\<lambda>allow. \<not> (syn = Proto3 \<and> ?vs \<noteq> [] \<and> GetNumber (hd ?vs) \<noteq> 0) \<and>
    ((allow \<or> ?fresh) \<and> \<not> (allow \<and> \<not> (False \<or> allow \<and> \<not> ?fresh))) \<and> apart True ?srs \<and>
    (\<forall>n \<in> set (v_reservedName ?d). isIdentifier n) \<and> (\<forall>v \<in> set ?vs. value_fits (v_reservedName ?d) ?srs v) \<and> True"
  have rest: "checks h (validate_values env h syn scope ?d ?vs allow sp) (?rest allow)" for scope allow sp
    unfolding validate_values_def Let_def run_all.simps
    by (intro checks_andThen checks_error_if checks_aliases [unfolded Let_def] checks_neighbours
        checks_run_all checks_reserved_names checks_value checks_skip) (use wf pr in simp_all)
  let ?opt = "\<lambda>opt. \<not> (o_ident opt \<noteq> Some ''true'' \<and> o_ident opt \<noteq> Some ''false'') \<and> ?rest (o_ident opt = Some ''true'')"
  have checked: "checks h (validateEnum env h syn name ed)
    (?vs \<noteq> [] \<and> no_features syn (v_opts ?d) \<and>
     (case filter (is_option ''allow_alias'') (v_opts ?d) of [] \<Rightarrow> ?rest False | [opt] \<Rightarrow> ?opt opt | _ \<Rightarrow> False))"
    unfolding validateEnum_def Let_def
    by (intro checks_andThen checks_error_if checks_validateNoFeatures checks_FindOption wf(1))
       (simp_all only: of_nat_0_le_iff if_True if_False nat_int checks_andThen [OF checks_error_if rest] rest
          neg_0_le_iff_le not_one_le_zero)
  have search: "apart True ?srs \<and> (\<forall>v \<in> set ?vs. value_fits (v_reservedName ?d) ?srs v) \<longleftrightarrow>
    disjoint_ranges True ?rs \<and>
    (\<forall>v \<in> set ?vs. leaf_name v \<notin> set (v_reservedName ?d) \<and> (\<forall>r \<in> set ?rs. GetNumber v \<notin> numbers True r))"
    using sorted_search [OF assms(1) wf(2)] by (auto simp: value_fits_def)
  show ?thesis
  proof (rule checks_cong [OF checked])
    show "(?vs \<noteq> [] \<and> no_features syn (v_opts ?d) \<and>
     (case filter (is_option ''allow_alias'') (v_opts ?d) of [] \<Rightarrow> ?rest False | [opt] \<Rightarrow> ?opt opt | _ \<Rightarrow> False)) = enum_valid syn ed"
      unfolding enum_valid_def Let_def alias_option_def
      using search by (auto split: list.split)
  qed
qed

section \<open>Fields\<close>

definition field_valid :: "syntaxKind \<Rightarrow> vinfo leaf \<Rightarrow> bool" where
  "field_valid syn fld \<longleftrightarrow>
     (let d = leaf_data fld
      in v_number d \<noteq> None \<and> no_features syn (v_opts d) \<and>
         (if syn = Proto2 then
            (v_label d \<noteq> None \<or> v_in_oneof d) \<and>
            (v_label d = Some LabelRequired \<longrightarrow> v_extendee d = None \<or> v_extendee d = Some [])
          else
            \<not> v_group d \<and> v_label d \<noteq> Some LabelRequired \<and>
            (syn = Editions \<longrightarrow> v_label d \<noteq> Some LabelOptional \<and> (\<forall>opt \<in> set (v_opts d). \<not> is_option ''packed'' opt)) \<and>
            (syn = Proto3 \<longrightarrow> (\<forall>opt \<in> set (v_opts d). \<not> is_option ''default'' opt))))"

lemma checks_field:
  assumes "wf_opts (v_opts (leaf_data fld))"
  shows "checks h (validateField env h syn name fld) (field_valid syn fld)"
proof -
  let ?d = "leaf_data fld"
  have "checks h (validateField env h syn name fld)
    (\<not> v_number ?d = None \<and>
     (if syn \<noteq> Proto2 then
        (if v_group ?d then False else \<not> v_label ?d = Some LabelRequired) \<and>
        (if syn = Editions then \<not> v_label ?d = Some LabelOptional \<and> (\<forall>opt \<in> set (v_opts ?d). \<not> is_option ''packed'' opt)
         else if syn = Proto3 then \<forall>opt \<in> set (v_opts ?d). \<not> is_option ''default'' opt else True)
      else
        \<not> (v_label ?d = None \<and> \<not> v_in_oneof ?d) \<and>
        \<not> ((case v_extendee ?d of Some e \<Rightarrow> e \<noteq> [] | None \<Rightarrow> False) \<and> v_label ?d = Some LabelRequired)) \<and>
     no_features syn (v_opts ?d))"
    unfolding validateField_def Let_def
    by (intro checks_andThen checks_error_if checks_if checks_herrorf checks_no_option checks_validateNoFeatures checks_skip assms)
  then show ?thesis
    by (rule checks_cong) (cases "v_extendee ?d"; auto simp: field_valid_def Let_def)
qed

section \<open>Elements of a file\<close>

fun elem_valid :: "syntaxKind \<Rightarrow> vinfo elem \<Rightarrow> bool" where
  "elem_valid syn (EMessage md) = message_valid syn md"
| "elem_valid syn (EField fld) = field_valid syn fld"
| "elem_valid syn (EExtension fld) = field_valid syn fld"
| "elem_valid syn (EOneof l) = no_features syn (v_opts (leaf_data l))"
| "elem_valid syn (EEnum ed) = enum_valid syn ed"
| "elem_valid syn (EValue l) = no_features syn (v_opts (leaf_data l))"
| "elem_valid syn (EService svc) = no_features syn (v_opts (svc_data svc))"
| "elem_valid syn (EMethod l) = no_features syn (v_opts (leaf_data l))"

text \<open>What the parser guarantees: options have names, ranges are not empty, fields and values have names.\<close>

fun elem_wf :: "vinfo elem \<Rightarrow> bool" where
  "elem_wf (EMessage md) = message_wf md"
| "elem_wf (EField l) = wf_opts (v_opts (leaf_data l))"
| "elem_wf (EExtension l) = wf_opts (v_opts (leaf_data l))"
| "elem_wf (EOneof l) = wf_opts (v_opts (leaf_data l))"
| "elem_wf (EEnum ed) = enum_wf ed"
| "elem_wf (EValue l) = wf_opts (v_opts (leaf_data l))"
| "elem_wf (EService svc) = wf_opts (v_opts (svc_data svc))"
| "elem_wf (EMethod l) = wf_opts (v_opts (leaf_data l))"

text \<open>The contract between the traversal and the checks it runs: a callback that checks each element on its own
  makes the traversal check them all.\<close>

locale element_checks =
  fixes h :: nat and check :: "full_name \<times> 'a elem \<Rightarrow> 'r vact" and wf valid :: "'a elem \<Rightarrow> bool"
  assumes element: "wf e \<Longrightarrow> checks h (check (n, e)) (valid e)"
begin

lemma events:
  assumes "\<forall>e \<in> set (concat (map entered_elem es)). wf e" "w = \<lparr>usePath = False, enter = \<lambda>(n, _, m). check (n, m), exit = None\<rparr>"
  shows "checks h (run_walk w es) (\<forall>e \<in> set (concat (map entered_elem es)). valid e)"
proof -
  let ?P = "\<lambda>ev. \<forall>e \<in> set (entered_elem ev). valid e"
  have "checks h (callback (up_enter w) (up_exit w) ev) (?P ev)" if "ev \<in> set es" for ev
  proof (cases ev)
    case (Enter v)
    moreover obtain n path e where "v = (n, path, e)" by (cases v)
    ultimately show ?thesis using element [of e n] assms that by (fastforce simp: up_enter_def)
  next
    case (Exit v)
    then show ?thesis using checks_skip assms(2) by (simp add: call_exit_def up_exit_def)
  qed
  from checks_run_all [of es, OF this] show ?thesis by (rule checks_cong) auto
qed

lemma walk:
  "\<forall>e \<in> set (file_elems f). wf e \<Longrightarrow> checks h (DescriptorProtos f check) (\<forall>e \<in> set (file_elems f). valid e)"
  using events [of "ev_file f", OF _ refl]
  by (simp add: DescriptorProtos_def DescriptorProtosEnterAndExit_def walkDescriptorProtos_events file_elems_def)

end

interpretation basic: element_checks h "validate_element env h syn" "\<lambda>e. sorts (e_sort env) \<and> elem_wf e" "elem_valid syn"
proof unfold_locales
  fix n e
  assume "sorts (e_sort env) \<and> elem_wf e"
  then show "checks h (validate_element env h syn (n, e)) (elem_valid syn e)"
    by (cases e) (auto intro: checks_message checks_enum checks_field checks_validateNoFeatures)
qed

section \<open>Imports and visibility\<close>

fun import_name :: "decl \<Rightarrow> string list" where
  "import_name (ImportDecl name _ _) = [name]"
| "import_name _ = []"

fun import_option :: "decl \<Rightarrow> bool" where
  "import_option (ImportDecl _ (Some (val, _)) _) = (val = ''option'')"
| "import_option _ = False"

definition imports_valid :: "source_file \<Rightarrow> bool" where
  "imports_valid p \<longleftrightarrow> distinct (concat (map import_name (sf_decls p))) \<and>
     (sf_edition p = Some ''2024'' \<or> (\<forall>d \<in> set (sf_decls p). \<not> import_option d))"

lemma checks_import_loop:
  "checks h (import_loop env h supported imps ds)
     (distinct (concat (map import_name ds)) \<and> set (concat (map import_name ds)) \<inter> dom imps = {} \<and>
      (supported \<or> (\<forall>d \<in> set ds. \<not> import_option d)))"
proof (induction ds arbitrary: imps)
  case Nil
  then show ?case using checks_skip by simp
next
  case (Cons d ds)
  show ?case
  proof (cases d)
    case (ImportDecl name modifier info)
    have rest: "checks h (case imps name of Some prev \<Rightarrow> herrorf env h info (msg prev)
        | None \<Rightarrow> import_loop env h supported (imps(name \<mapsto> Start info)) ds)
      (name \<notin> dom imps \<and> distinct (concat (map import_name ds)) \<and>
       set (concat (map import_name ds)) \<inter> dom (imps(name \<mapsto> Start info)) = {} \<and> (supported \<or> (\<forall>d \<in> set ds. \<not> import_option d)))" for msg
    proof (cases "imps name")
      case None
      then have "name \<notin> dom imps" by (simp add: domIff)
      with None Cons [of "imps(name \<mapsto> Start info)"] show ?thesis by (simp only: option.case simp_thms)
    next
      case (Some prev)
      then have "name \<in> dom imps" by (simp add: domIff)
      with Some checks_herrorf show ?thesis by (simp only: option.case simp_thms)
    qed
    have "checks h (import_loop env h supported imps (d # ds))
      ((supported \<or> \<not> import_option d) \<and> name \<notin> dom imps \<and> distinct (concat (map import_name ds)) \<and>
       set (concat (map import_name ds)) \<inter> dom (imps(name \<mapsto> Start info)) = {} \<and> (supported \<or> (\<forall>d \<in> set ds. \<not> import_option d)))"
      unfolding ImportDecl import_loop.simps decl.case
      using rest checks_herrorf by (cases modifier) (auto simp del: dom_fun_upd)
    then show ?thesis by (rule checks_cong) (auto simp: ImportDecl)
  qed (use Cons in auto)
qed

text \<open>The rule on \<open>export\<close> and \<open>local\<close>: before edition 2024, no message or enum of the file may carry one of the
  keywords, wherever it is declared. \<open>declared ds hidden d\<close>: the declaration \<open>d\<close> is one of \<open>ds\<close> or is nested in one
  of them at any depth, and \<open>hidden\<close> says that something other than a message is around it: a group, or, as far as
  the type of declarations goes, a oneof or an extend block.\<close>

fun body_of :: "decl \<Rightarrow> decl list" where
  "body_of (MessageDecl _ _ _ body) = body"
| "body_of (GroupDecl _ body) = body"
| "body_of (OneofDecl _ _ body) = body"
| "body_of (ExtendDecl _ _ body) = body"
| "body_of _ = []"

fun is_message_decl :: "decl \<Rightarrow> bool" where
  "is_message_decl (MessageDecl _ _ _ _) = True"
| "is_message_decl _ = False"

inductive declared :: "decl list \<Rightarrow> bool \<Rightarrow> decl \<Rightarrow> bool" for ds where
  declared_here: "d \<in> set ds \<Longrightarrow> declared ds False d"
| declared_inside: "declared ds hidden e \<Longrightarrow> d \<in> set (body_of e) \<Longrightarrow> declared ds (hidden \<or> \<not> is_message_decl e) d"

fun has_keyword :: "decl \<Rightarrow> bool" where
  "has_keyword (MessageDecl _ vis _ _) = (vis \<noteq> None)"
| "has_keyword (EnumDecl en) = (ea_visibility en \<noteq> None)"
| "has_keyword _ = False"

definition keywords_valid :: "source_file \<Rightarrow> bool" where
  "keywords_valid p \<longleftrightarrow> sf_edition p = Some ''2024'' \<or> (\<forall>hidden d. declared (sf_decls p) hidden d \<longrightarrow> \<not> has_keyword d)"

text \<open>What the code does not see: a file before edition 2024 that uses the keywords, but only in groups.\<close>

definition keywords_overlooked :: "source_file \<Rightarrow> bool" where
  "keywords_overlooked p \<longleftrightarrow> \<not> keywords_valid p \<and> (\<forall>d. declared (sf_decls p) False d \<longrightarrow> \<not> has_keyword d)"

text \<open>What the recursion of \<open>validateExportLocalNode\<close> looks at.\<close>

fun visibility_free :: "decl \<Rightarrow> bool" where
  "visibility_free d =
     (case d of
        MessageDecl _ vis _ body \<Rightarrow> vis = None \<and> list_all visibility_free body
      | EnumDecl en \<Rightarrow> ea_visibility en = None
      | _ \<Rightarrow> True)"

declare validateExportLocalNode.simps [simp del] visibility_free.simps [simp del]

lemma checks_export_local:
  shows "checks h (validateExportLocalNode env h d) (visibility_free d)"
    and "checks h (validateExportLocalInMessageBody env h ds) (list_all visibility_free ds)"
proof (induction env h d and env h ds rule: validateExportLocalNode_validateExportLocalInMessageBody.induct)
  case (1 env h d)
  then show ?case using checks_skip checks_herrorf
    by (auto simp: validateExportLocalNode.simps [of env h d] visibility_free.simps [of d] visibility_error_def
        split: decl.split option.split)
next
  case (3 env h d ds)
  from checks_andThen [OF 3] show ?case by simp
qed (use checks_skip in simp)

lemma visibility_free_cases:
  "visibility_free (MessageDecl n vis sp body) \<longleftrightarrow> vis = None \<and> list_all visibility_free body"
  "\<not> is_message_decl d \<Longrightarrow> visibility_free d \<longleftrightarrow> \<not> has_keyword d"
  by (subst visibility_free.simps, simp) (subst visibility_free.simps, cases d, simp_all del: not_None_eq)

lemma visibility_free_found:
  "\<not> visibility_free e \<Longrightarrow> declared ds False e \<Longrightarrow> \<exists>d. declared ds False d \<and> has_keyword d"
proof (induction e rule: visibility_free.induct)
  case (1 e)
  show ?case
  proof (cases "has_keyword e")
    case True
    with "1.prems"(2) show ?thesis by blast
  next
    case False
    then have "is_message_decl e" using "1.prems"(1) visibility_free_cases(2) by blast
    then obtain n vis sp body where e0: "e = MessageDecl n vis sp body" by (cases e) simp_all
    with False have e: "e = MessageDecl n None sp body" by (simp del: not_None_eq)
    then obtain d where d: "d \<in> set body" "\<not> visibility_free d"
      using "1.prems"(1) by (auto simp: visibility_free_cases(1) list_all_iff)
    have "declared ds False d" using declared_inside [OF "1.prems"(2), of d] e d by simp
    with "1.IH" [OF e d] show ?thesis by blast
  qed
qed

lemma visibility_free_hit: "declared ds hidden d \<Longrightarrow> \<not> hidden \<Longrightarrow> list_all visibility_free ds \<Longrightarrow> visibility_free d"
proof (induction rule: declared.induct)
  case (declared_inside hidden e d)
  then have "visibility_free e" "is_message_decl e" by auto
  with declared_inside(2) show ?case by (cases e) (auto simp: visibility_free_cases list_all_iff)
qed (simp add: list_all_iff)

lemma visibility_free_declared:
  "(\<forall>d \<in> set ds. visibility_free d) \<longleftrightarrow> (\<forall>d. declared ds False d \<longrightarrow> \<not> has_keyword d)"
proof
  assume free: "\<forall>d \<in> set ds. visibility_free d"
  have "\<not> has_keyword d" if "visibility_free d" for d using that by (cases d) (simp_all add: visibility_free.simps)
  with free visibility_free_hit [of ds False] show "\<forall>d. declared ds False d \<longrightarrow> \<not> has_keyword d" by (auto simp: list_all_iff)
next
  assume "\<forall>d. declared ds False d \<longrightarrow> \<not> has_keyword d"
  then show "\<forall>d \<in> set ds. visibility_free d" using visibility_free_found declared_here by blast
qed

text \<open>The rules of the language that \<open>validateBasic\<close> is there for: those on imports, features, messages, enums and
  fields, and the one on the two keywords.\<close>

definition source_rules :: "source_file \<Rightarrow> bool" where
  "source_rules p \<longleftrightarrow>
     (let syn = syntax_of (sf_syntax p)
      in imports_valid p \<and> no_features syn (sf_opts p) \<and> (\<forall>e \<in> set (file_elems (sf_proto p)). elem_valid syn e))"

definition source_valid :: "source_file \<Rightarrow> bool" where
  "source_valid p \<longleftrightarrow> source_rules p \<and> keywords_valid p"

definition source_wf :: "source_file \<Rightarrow> bool" where
  "source_wf p \<longleftrightarrow> wf_opts (sf_opts p) \<and> (\<forall>e \<in> set (file_elems (sf_proto p)). elem_wf e)"

lemma checks_source:
  assumes "sorts (e_sort env)" "source_wf p"
  shows "checks h (validateBasic env h p) (source_rules p \<and> (keywords_valid p \<or> keywords_overlooked p))"
proof -
  have "checks h (validateImports env h p) (imports_valid p)"
    unfolding validateImports_def by (rule checks_cong [OF checks_import_loop]) (simp add: imports_valid_def)
  moreover have "checks h (validateExportLocal env h p)
      (if sf_edition p = Some ''2024'' then True else \<forall>d \<in> set (sf_decls p). visibility_free d)"
    unfolding validateExportLocal_def by (intro checks_if checks_skip checks_run_all checks_export_local)
  moreover have "checks h (validateNoFeatures env h syn ''file options'' (sf_opts p)) (no_features syn (sf_opts p))" for syn
    using assms(2) by (intro checks_validateNoFeatures) (simp add: source_wf_def)
  moreover have "checks h (DescriptorProtos (sf_proto p) (validate_element env h syn))
      (\<forall>e \<in> set (file_elems (sf_proto p)). elem_valid syn e)" for syn
    using assms by (intro basic.walk) (simp add: source_wf_def)
  ultimately have "checks h (validateBasic env h p)
    (imports_valid p \<and> (if sf_edition p = Some ''2024'' then True else \<forall>d \<in> set (sf_decls p). visibility_free d) \<and>
     no_features (syntax_of (sf_syntax p)) (sf_opts p) \<and>
     (\<forall>e \<in> set (file_elems (sf_proto p)). elem_valid (syntax_of (sf_syntax p)) e))"
    unfolding validateBasic_def Let_def by (intro checks_andThen)
  then show ?thesis
    by (rule checks_cong)
       (auto simp: source_rules_def Let_def visibility_free_declared keywords_overlooked_def keywords_valid_def)
qed

text \<open>C3: the validation of a parsed file accepts exactly the files that are valid, with one exception: files before
  edition 2024 that are valid except for the keywords \<open>export\<close> and \<open>local\<close> on messages and enums inside of groups, which are
  accepted although the keywords are not allowed there. If the file is valid, validation reports nothing; if it is neither
  valid nor an exception, the handler has an error in the end, whatever the reporter answers to the errors; and it never
  panics. Valid means, among others, that the reserved and extension ranges of a message are disjoint and its fields have
  different numbers outside of them, although the code only compares neighbours in sorted lists, merges the two lists and
  looks numbers up by binary search. (The descriptor protos have to be well formed, and the handler has no error yet.)\<close>

theorem validateBasic_exact:
  assumes "sorts (e_sort env)" "source_wf p" "hstore_ok st" "h < length (handlers st)" "Handler_Error h st = None"
    "validateBasic env h p st = (res, st')"
  shows "res \<noteq> Some VPanicked \<and>
    (Handler_Error h st' = None \<longleftrightarrow> source_valid p \<or> source_rules p \<and> keywords_overlooked p) \<and>
    (source_valid p \<longrightarrow> res = None \<and> st' = st)"
proof -
  have "hok h st" using assms(3,4) by (simp add: hok_def)
  from checks_source [OF assms(1,2), of h, unfolded checks_def, rule_format, OF this] assms(5,6) show ?thesis
    by (cases "source_rules p \<and> (keywords_valid p \<or> keywords_overlooked p)") (auto simp: source_valid_def)
qed

section \<open>An example\<close>

definition plain_info :: vinfo where
  "plain_info = blank_info (UnknownSpan ''a.proto'')"

definition tag_range :: "int \<Rightarrow> int \<Rightarrow> tagRange" where
  "tag_range a b = \<lparr>tr_start = a, tr_end = b, tr_node = UnknownSpan ''a.proto''\<rparr>"

text \<open>A message that reserves 5 to 9 and 20, has the extension range 100 to 199, and one field.\<close>

definition example_source :: "int \<Rightarrow> source_file" where
  "example_source tag = \<lparr>sf_edition = None, sf_decls = [MessageDecl ''M'' None (UnknownSpan ''a.proto'') [EmptyDecl]], sf_syntax = [], sf_opts = [],
     sf_proto = \<lparr>fpackage = [], fmessages =
       [MsgP ''M'' (plain_info\<lparr>v_reservedRange := [tag_range 20 21, tag_range 5 10], v_extensionRange := [(tag_range 100 200, [])]\<rparr>)
          [Leaf ''f'' (plain_info\<lparr>v_number := Some tag, v_label := Some LabelOptional\<rparr>)] [] [] [] []],
       fenums = [], fexts = [], fservices = []\<rparr>\<rparr>"

text \<open>Insertion sort by \<open>Less\<close>.\<close>

fun insert_range :: "tagRange \<Rightarrow> tagRange list \<Rightarrow> tagRange list" where
  "insert_range r [] = [r]"
| "insert_range r (x # xs) = (if Less x r then x # insert_range r xs else r # x # xs)"

definition insort_ranges :: "tagRange list \<Rightarrow> tagRange list" where
  "insort_ranges rs = foldr insert_range rs []"

lemma sorts_insort: "sorts insort_ranges"
proof -
  have set_insert: "set (insert_range r xs) = insert r (set xs)" for r xs by (induction xs) auto
  have "mset (insert_range r xs) = add_mset r (mset xs)" for r xs by (induction xs) auto
  then have "mset (insort_ranges rs) = mset rs" for rs by (induction rs) (simp_all add: insort_ranges_def)
  moreover have ins: "sorted_wrt (\<lambda>a b. \<not> Less b a) xs \<Longrightarrow> sorted_wrt (\<lambda>a b. \<not> Less b a) (insert_range r xs)" for r xs
    by (induction xs) (auto simp: set_insert Less_def)
  have "sorted_wrt (\<lambda>a b. \<not> Less b a) (insort_ranges rs)" for rs
    by (induction rs) (simp_all add: insort_ranges_def ins)
  ultimately show ?thesis by (simp add: sorts_def)
qed

definition example_env :: "go_error list env" where
  "example_env = \<lparr>e_reporter = \<lambda>e r. (None, e # r), e_sort = insort_ranges, e_quote = quoted, e_syntax = \<lambda>_. ''proto2''\<rparr>"

definition example_handlers :: "go_error list hstore" where
  "example_handlers = snd (NewHandler \<lparr>handlers = [], rstate = []\<rparr>)"

lemma example_elems:
  "file_elems (sf_proto (example_source tag)) =
     (let m = hd (fmessages (sf_proto (example_source tag))) in [EMessage m, EField (hd (msg_fields m))])"
  by (simp add: example_source_def file_elems_def ev_file_def bracket_def ev_leaves_def ev_enums_def Let_def)

lemma example_wf: "source_wf (example_source tag)"
  by (simp add: source_wf_def example_elems Let_def)
     (simp add: example_source_def plain_info_def blank_info_def message_wf_def wf_opts_def tag_range_def upto_of_def)

lemma example_declared: "declared (sf_decls (example_source tag)) hidden d \<Longrightarrow> \<not> has_keyword d \<and> set (body_of d) \<subseteq> {EmptyDecl}"
  by (induction rule: declared.induct) (auto simp: example_source_def)

lemma example_keywords: "keywords_valid (example_source tag)" "\<not> keywords_overlooked (example_source tag)"
  using example_declared by (auto simp: keywords_valid_def keywords_overlooked_def)

lemma example_valid: "source_valid (example_source tag) \<longleftrightarrow> tag \<notin> {5..9} \<union> {20} \<union> {100..199}"
  by (simp add: source_valid_def source_rules_def example_elems example_keywords Let_def)
     (auto simp: example_source_def plain_info_def blank_info_def message_valid_def field_valid_def tag_range_def numbers_def upto_of_def
        no_features_def imports_valid_def disjoint_ranges_def syntax_of_def GetNumber_def)

text \<open>The field number 11 is accepted and the reserved number 7 is not.\<close>

theorem validateBasic_exact_witness:
  "Handler_Error 0 (snd (validateBasic example_env 0 (example_source 11) example_handlers)) = None \<and>
   Handler_Error 0 (snd (validateBasic example_env 0 (example_source 7) example_handlers)) \<noteq> None"
proof -
  have st: "hstore_ok example_handlers" "0 < length (handlers example_handlers)" "Handler_Error 0 example_handlers = None"
    by (simp_all add: example_handlers_def NewHandler_def hstore_ok_def Handler_Error_def)
  have srt: "sorts (e_sort example_env)" by (simp add: example_env_def sorts_insort)
  have "(Handler_Error 0 (snd (validateBasic example_env 0 (example_source tag) example_handlers)) = None) =
      source_valid (example_source tag)" for tag
    using validateBasic_exact [OF srt example_wf st, of tag] example_keywords(2) by (metis prod.collapse)
  then show ?thesis by (simp add: example_valid)
qed

section \<open>Further facts\<close>

text \<open>The keywords \<open>export\<close> and \<open>local\<close> are only rejected on declarations at the top level or nested in messages.
  The body of a group is not looked into, so a file without editions may use them there.\<close>

lemma visibility_in_group_accepted:
  "validateExportLocalNode env h
     (MessageDecl m None sp [GroupDecl g [MessageDecl n (Some (''export'', sp)) sp []]]) st = (None, st)"
  by (simp add: validateExportLocalNode.simps skip_def andThen_def)

text \<open>After validation every field and extension has a label, and labels that were there stay.\<close>

lemma fillInMissingLabel_label:
  "v_label (leaf_data (fillInMissingLabel l)) = Some (case v_label (leaf_data l) of Some x \<Rightarrow> x | None \<Rightarrow> LabelOptional)"
  by (cases l) (auto simp: fillInMissingLabel_def split: option.splits)

fun labelled :: "vinfo msgp \<Rightarrow> bool" where
  "labelled (MsgP n d flds oneofs nested enums extns) \<longleftrightarrow>
     (\<forall>l \<in> set (flds @ extns). v_label (leaf_data l) \<noteq> None) \<and> list_all labelled nested"

lemma fillInMissingLabels_labelled:
  "list_all labelled (fmessages (fillInMissingLabels fd)) \<and> (\<forall>l \<in> set (fexts (fillInMissingLabels fd)). v_label (leaf_data l) \<noteq> None)"
proof -
  have "labelled (fillInMissingLabelsInMsg m)" for m
    by (induction m rule: fillInMissingLabelsInMsg.induct) (auto simp: fillInMissingLabel_label list_all_iff)
  then show ?thesis by (simp add: fillInMissingLabels_def list_all_iff fillInMissingLabel_label)
qed

lemma fillInMissingLabels_idem: "fillInMissingLabels (fillInMissingLabels fd) = fillInMissingLabels fd"
proof -
  have leaf: "fillInMissingLabel (fillInMissingLabel l) = fillInMissingLabel l" for l
    by (simp add: fillInMissingLabel_def)
  have "fillInMissingLabelsInMsg (fillInMissingLabelsInMsg m) = fillInMissingLabelsInMsg m" for m
    by (induction m rule: fillInMissingLabelsInMsg.induct) (auto simp: leaf)
  then show ?thesis by (simp add: fillInMissingLabels_def leaf)
qed

end
