(* ===== verification/BuildSafe.thy ===== *)
theory BuildSafe
  imports Build ValidateSafe
begin

text \<open>
  What a parse result that has no errors looks like. \<open>builds h m R\<close> describes an operation that builds a
  value: it does not panic, it does not take back errors that were reported, its value satisfies \<open>R False\<close> in any
  case, and \<open>R True\<close> if no error has been reported in the end.
\<close>

section \<open>Building\<close>

definition builds :: "nat \<Rightarrow> ('a, 'r) bact \<Rightarrow> (bool \<Rightarrow> 'a \<Rightarrow> bool) \<Rightarrow> bool" where
  "builds h m R \<longleftrightarrow> (\<forall>st. hok h st \<longrightarrow> (\<exists>x st'. m st = Some (x, st') \<and> hok h st' \<and>
     (Handler_Error h st \<noteq> None \<longrightarrow> Handler_Error h st' \<noteq> None) \<and> R False x \<and> (Handler_Error h st' = None \<longrightarrow> R True x)))"

lemma buildsE:
  fixes m :: "('a, 'r) bact"
  assumes "builds h m R" "hok h st"
  obtains x st' where "m st = Some (x, st')" "hok h st'" "Handler_Error h st \<noteq> None \<longrightarrow> Handler_Error h st' \<noteq> None"
    "R False x" "Handler_Error h st' = None \<longrightarrow> R True x"
proof -
  from assms(1) [unfolded builds_def, THEN spec, THEN mp, OF assms(2)] show thesis
    by (elim exE conjE) (rule that)
qed

lemma builds_give: "R False x \<Longrightarrow> R True x \<Longrightarrow> builds h (give x) R"
  by (simp add: builds_def give_def)

lemma builds_bnd:
  fixes m :: "('a, 'r) bact" and f :: "'a \<Rightarrow> ('b, 'r) bact"
  assumes "builds h m R" "\<And>x. R False x \<Longrightarrow> builds h (f x) (\<lambda>s y. (s \<longrightarrow> R True x) \<longrightarrow> R' s y)"
  shows "builds h (bnd m f) R'"
  unfolding builds_def
proof (intro allI impI)
  fix st :: "'r hstore"
  assume "hok h st"
  from buildsE [OF assms(1) this] obtain x st1 where 1: "m st = Some (x, st1)" "hok h st1"
    "Handler_Error h st \<noteq> None \<longrightarrow> Handler_Error h st1 \<noteq> None" "R False x" "Handler_Error h st1 = None \<longrightarrow> R True x" .
  from buildsE [OF assms(2) [OF 1(4)] 1(2)] obtain y st2 where "f x st1 = Some (y, st2)" "hok h st2"
    "Handler_Error h st1 \<noteq> None \<longrightarrow> Handler_Error h st2 \<noteq> None" "(False \<longrightarrow> R True x) \<longrightarrow> R' False y"
    "Handler_Error h st2 = None \<longrightarrow> (True \<longrightarrow> R True x) \<longrightarrow> R' True y" .
  with 1 show "\<exists>x st'. bnd m f st = Some (x, st') \<and> hok h st' \<and>
    (Handler_Error h st \<noteq> None \<longrightarrow> Handler_Error h st' \<noteq> None) \<and> R' False x \<and> (Handler_Error h st' = None \<longrightarrow> R' True x)"
    by (auto simp: bnd_def)
qed

lemma builds_mono: "builds h m R \<Longrightarrow> (\<And>s x. R s x \<Longrightarrow> R' s x) \<Longrightarrow> builds h m R'"
  unfolding builds_def by meson

lemma builds_raise: "builds h (raise_error b h err) (\<lambda>s _. \<not> s)"
  unfolding builds_def
proof (intro allI impI)
  fix st :: "'a hstore"
  assume st: "hok h st"
  obtain res st' where run: "HandleError (e_reporter (b_env b)) h err st = (res, st')" by fastforce
  then have "hok h st'" "Handler_Error h st' \<noteq> None"
    using HandleError_hok [OF st, of "e_reporter (b_env b)" err] Handler_Error_after [OF _ _ run] st by (simp_all add: hok_def)
  with run show "\<exists>x st'. raise_error b h err st = Some (x, st') \<and> hok h st' \<and>
    (Handler_Error h st \<noteq> None \<longrightarrow> Handler_Error h st' \<noteq> None) \<and> \<not> False \<and> (Handler_Error h st' = None \<longrightarrow> \<not> True)"
    by (simp add: raise_error_def)
qed

lemma builds_raise_if: "builds h (raise_if c b h sp msg) (\<lambda>s _. s \<longrightarrow> \<not> c)"
  using builds_raise [of h b "Errorf sp msg"] by (auto simp: raise_if_def intro: builds_give builds_mono)

lemma builds_bmap:
  assumes "\<And>x. x \<in> set xs \<Longrightarrow> builds h (f x) R"
  shows "builds h (bmap f xs) (\<lambda>s ys. \<forall>y \<in> set ys. R s y)"
  using assms
proof (induction xs)
  case Nil
  then show ?case by (simp add: builds_give)
next
  case (Cons x xs)
  show ?case unfolding bmap.simps
    by (rule builds_bnd [OF Cons.prems], simp)
       (rule builds_bnd [OF Cons.IH], use Cons.prems in \<open>auto intro!: builds_give\<close>)
qed

lemma HandleWarning_handlers: "handlers (HandleWarning warn h err st) = handlers st"
  by (induction warn h err st rule: HandleWarning.induct) (subst HandleWarning.simps, auto split: option.split)

lemma builds_warn: "builds h (warn_at b h sp err) (\<lambda>_ _. True)"
  by (simp add: builds_def warn_at_def hok_def hstore_ok_def HandleWarning_handlers Handler_Error_def)

section \<open>Numbers\<close>

definition number_ok :: "int \<Rightarrow> int \<Rightarrow> bool" where
  "number_ok maxTag n \<longleftrightarrow> 1 \<le> n \<and> n \<le> maxTag \<and> \<not> (19000 \<le> n \<and> n \<le> 19999)"

lemma to_int32_id: "- (2 ^ 31) \<le> v \<Longrightarrow> v < 2 ^ 31 \<Longrightarrow> to_int32 v = v"
  by (simp add: to_int32_def)

lemma max_tags: "FieldMax \<le> MessageSetMax" "1 \<le> FieldMax" "MessageSetMax < 2 ^ 31 - 1"
  by (simp_all add: FieldMax_def MessageSetMax_def)

lemma builds_tag:
  assumes "maxTag \<le> MessageSetMax"
  shows "builds h (as_tag b h maxTag nd) (\<lambda>s tag. s \<longrightarrow> (case tag of None \<Rightarrow> True | Some n \<Rightarrow> number_ok maxTag n))"
proof (cases "fa_tag nd")
  case None
  then show ?thesis by (simp add: as_tag_def builds_give)
next
  case (Some v)
  have "builds h (case checkTag (fa_tag_span nd) v maxTag of None \<Rightarrow> give None | Some err \<Rightarrow> raise_error b h err)
      (\<lambda>s _. s \<longrightarrow> number_ok maxTag v)"
    by (cases "checkTag (fa_tag_span nd) v maxTag")
       (auto simp: checkTag_def number_ok_def FirstReserved_def LastReserved_def split: if_splits
         intro: builds_give builds_mono [OF builds_raise])
  then show ?thesis using Some assms max_tags(3)
    by (auto simp: as_tag_def number_ok_def to_int32_id intro!: builds_bnd builds_give)
qed

lemma builds_range:
  assumes "minVal \<le> maxVal"
  shows "builds h (getRangeBounds b h rng minVal maxVal) (\<lambda>s (start, end'). s \<longrightarrow> minVal \<le> start \<and> start \<le> end' \<and> end' \<le> maxVal)"
proof -
  obtain start ok1 where 1: "StartValueAsInt32 rng minVal maxVal = (start, ok1)" by fastforce
  obtain end' ok2 where 2: "EndValueAsInt32 rng minVal maxVal = (end', ok2)" by fastforce
  have in1: "ok1 \<longrightarrow> minVal \<le> start \<and> start \<le> maxVal"
    using 1 by (auto simp: StartValueAsInt32_def AsInt32_def split: if_splits)
  have in2: "ok2 \<longrightarrow> minVal \<le> end' \<and> end' \<le> maxVal"
    using 2 assms 1 in1 by (auto simp: EndValueAsInt32_def AsInt32_def split: if_splits range_end.splits)
  have ok2: "builds h (case ra_end rng of EndVal v sp \<Rightarrow> raise_if (\<not> ok2) b h sp (msg v) | _ \<Rightarrow> give None)
      (\<lambda>s _. s \<longrightarrow> ok1 \<longrightarrow> ok2)" for msg
    using 1 2 by (cases "ra_end rng") (auto simp: EndValueAsInt32_def intro: builds_give builds_mono [OF builds_raise_if])
  show ?thesis
    unfolding getRangeBounds_def 1 2 Let_def prod.case
    by (intro builds_bnd [OF builds_raise_if] builds_bnd [OF ok2] builds_give) (use in1 in2 in auto)
qed

section \<open>Options\<close>

definition opt_wf :: "option_node \<Rightarrow> bool" where
  "opt_wf opt \<longleftrightarrow> on_parts opt \<noteq> []"

lemma wf_asOption: "opt_wf opt \<Longrightarrow> o_name (asUninterpretedOption opt) \<noteq> []"
  by (simp add: opt_wf_def asUninterpretedOption_def)

lemma wf_asOptions: "list_all opt_wf opts \<Longrightarrow> wf_opts (asUninterpretedOptions opts)"
  by (auto simp: asUninterpretedOptions_def wf_opts_def list_all_iff wf_asOption)

lemma wf_opts_append [simp]: "wf_opts (xs @ ys) \<longleftrightarrow> wf_opts xs \<and> wf_opts ys"
  and wf_opts_Nil [simp]: "wf_opts []"
  and wf_opts_Cons [simp]: "wf_opts (opt # opts) \<longleftrightarrow> o_name opt \<noteq> [] \<and> wf_opts opts"
  by (auto simp: wf_opts_def)

text \<open>A message has the wire format of message sets if its options say so once. Its tags have a higher maximum.\<close>

definition is_message_set :: "vopt list \<Rightarrow> bool" where
  "is_message_set opts \<longleftrightarrow>
     (\<exists>opt. filter (is_option ''message_set_wire_format'') opts = [opt] \<and> o_ident opt = Some ''true'')"

definition max_tag :: "vopt list \<Rightarrow> int" where
  "max_tag opts = (if is_message_set opts then MessageSetMax else FieldMax)"

lemma builds_messageSet:
  "builds h (isMessageSetWireFormat b h scope uo) (\<lambda>s (opt, failed). s \<longrightarrow> \<not> failed \<and> (opt \<noteq> None \<longleftrightarrow> is_message_set uo))"
proof (cases "filter (is_option ''message_set_wire_format'') uo")
  case Nil
  then show ?thesis by (auto simp: isMessageSetWireFormat_def find_exact is_message_set_def intro!: builds_give)
next
  case (Cons opt rest)
  note first = filter_first [OF Cons]
  show ?thesis
  proof (cases rest)
    case Nil
    with Cons first show ?thesis
      by (auto simp: isMessageSetWireFormat_def find_exact is_message_set_def Let_def intro!: builds_give builds_bnd [OF builds_raise])
  next
    case (Cons opt' rest')
    with \<open>filter (is_option ''message_set_wire_format'') uo = opt # rest\<close> show ?thesis
      by (auto simp: isMessageSetWireFormat_def find_exact is_message_set_def intro!: builds_give builds_bnd [OF builds_raise])
  qed
qed

section \<open>Fields and enums\<close>

text \<open>The parameter \<open>s\<close> says whether the conditions that errors are reported for are included.\<close>

definition field_built :: "int \<Rightarrow> bool \<Rightarrow> vinfo leaf \<Rightarrow> bool" where
  "field_built maxTag s l \<longleftrightarrow> leaf_name l \<noteq> [] \<and> wf_opts (v_opts (leaf_data l)) \<and>
     (s \<longrightarrow> (case v_number (leaf_data l) of None \<Rightarrow> True | Some n \<Rightarrow> number_ok maxTag n))"

definition field_wf :: "field_ast \<Rightarrow> bool" where
  "field_wf f \<longleftrightarrow> fa_name f \<noteq> [] \<and> list_all opt_wf (fa_opts f)"

lemma newField_simps [simp]:
  "leaf_name (newFieldDescriptor U name ty tag lbl sp) = name"
  "v_number (leaf_data (newFieldDescriptor U name ty tag lbl sp)) = tag"
  "v_opts (leaf_data (newFieldDescriptor U name ty tag lbl sp)) = []"
  "v_oneofIndex (leaf_data (newFieldDescriptor U name ty tag lbl sp)) = None"
  by (simp_all add: newFieldDescriptor_def blank_info_def)

lemma map_leaf_simps [simp]: "leaf_name (map_leaf f l) = leaf_name l" "leaf_data (map_leaf f l) = f (leaf_data l)"
  by (cases l; simp)+

lemma put_field_node_simps [simp]:
  "v_opts (put_field_node nd d) = asUninterpretedOptions (fa_opts nd)" "v_number (put_field_node nd d) = v_number d"
  "v_oneofIndex (put_field_node nd d) = v_oneofIndex d"
  by (simp_all add: put_field_node_def)

lemma builds_field:
  assumes "maxTag \<le> MessageSetMax" "field_wf f"
  shows "builds h (asFieldDescriptor b h syn maxTag f) (\<lambda>s l. field_built maxTag s l \<and> v_oneofIndex (leaf_data l) = None)"
  unfolding asFieldDescriptor_def
  by (rule builds_bnd [OF builds_tag [OF assms(1)]], rule builds_give)
     (use assms(2) wf_asOptions in \<open>auto simp: field_built_def field_wf_def\<close>)

lemma builds_depth: "builds h (checkDepth b h depth sp) (\<lambda>s ok. (ok \<longleftrightarrow> depth < 32) \<and> (s \<longrightarrow> ok))"
  unfolding checkDepth_def by (rule builds_bnd [OF builds_raise_if], rule builds_give) auto

lemma on_runes_Nil [simp]: "on_runes f s = [] \<longleftrightarrow> f (map of_char s) = []"
  by (simp add: on_runes_def)

lemma builds_group:
  assumes "maxTag \<le> MessageSetMax" "field_wf f"
  shows "builds h (group_field b h maxTag f) (\<lambda>s l. field_built maxTag s l \<and> v_oneofIndex (leaf_data l) = None)"
proof -
  obtain c cs where name: "fa_name f = c # cs" using assms(2) by (cases "fa_name f") (auto simp: field_wf_def)
  show ?thesis
    unfolding group_field_def Let_def name list.case
    by (rule builds_bnd [OF builds_tag [OF assms(1)]], rule builds_bnd [OF builds_raise_if], rule builds_give)
       (use assms(2) wf_asOptions name in \<open>auto simp: field_built_def field_wf_def blank_info_def\<close>)
qed

definition range_built :: "int \<Rightarrow> bool \<Rightarrow> tagRange \<Rightarrow> bool" where
  "range_built maxTag s r \<longleftrightarrow> (s \<longrightarrow> 1 \<le> tr_start r \<and> tr_start r < tr_end r \<and> tr_end r \<le> maxTag + 1)"

definition value_wf :: "value_ast \<Rightarrow> bool" where
  "value_wf ev \<longleftrightarrow> ev_name ev \<noteq> [] \<and> list_all opt_wf (ev_opts ev)"

definition value_built :: "bool \<Rightarrow> vinfo leaf \<Rightarrow> bool" where
  "value_built s l \<longleftrightarrow> leaf_name l \<noteq> [] \<and> wf_opts (v_opts (leaf_data l)) \<and>
     (s \<longrightarrow> (\<exists>n. v_number (leaf_data l) = Some n \<and> - (2 ^ 31) \<le> n \<and> n < 2 ^ 31))"

lemma builds_value: "value_wf ev \<Longrightarrow> builds h (asEnumValue b h ev) value_built"
  unfolding asEnumValue_def
  by (cases "AsInt32 (ev_number ev) (- (2 ^ 31)) (2 ^ 31 - 1)", simp only: Let_def prod.case)
     (rule builds_bnd [OF builds_raise_if], rule builds_give,
      use wf_asOptions in \<open>auto simp: value_built_def value_wf_def blank_info_def AsInt32_def split: if_splits\<close>)

lemma builds_enum_range: "builds h (asEnumReservedRange b h rng) (\<lambda>s r. s \<longrightarrow> tr_start r \<le> tr_end r)"
  unfolding asEnumReservedRange_def
  by (rule builds_bnd [OF builds_range]) (auto split: prod.splits intro!: builds_give)

lemma builds_add_names: "builds h (add_names b h ns acc) (\<lambda>_ _. True)"
proof (induction ns arbitrary: acc)
  case (Cons n ns)
  then show ?case
    by (auto split: option.split intro: builds_bnd [OF builds_raise] builds_mono [OF Cons])
qed (simp add: builds_give)

lemma builds_reserved_names: "builds h (addReservedNames b h syn r acc) (\<lambda>_ _. True)"
  unfolding addReservedNames_def
  by (auto intro!: builds_bnd [OF builds_raise_if] builds_mono [OF builds_add_names])

fun enum_decl_wf :: "enum_decl \<Rightarrow> bool" where
  "enum_decl_wf (EnumOption opt) = opt_wf opt"
| "enum_decl_wf (EnumValue ev) = value_wf ev"
| "enum_decl_wf _ = True"

definition eb_ok :: "bool \<Rightarrow> ebuild \<Rightarrow> bool" where
  "eb_ok s eb \<longleftrightarrow> wf_opts (eb_opts eb) \<and> (\<forall>v \<in> set (eb_values eb). value_built s v) \<and>
     (\<forall>r \<in> set (eb_ranges eb). s \<longrightarrow> tr_start r \<le> tr_end r)"

lemma builds_enum_decls:
  assumes "list_all enum_decl_wf ds" "eb_ok False eb"
  shows "builds h (add_enum_decls b h syn ds eb) (\<lambda>s eb'. (s \<longrightarrow> eb_ok True eb) \<longrightarrow> eb_ok s eb')"
  using assms
proof (induction ds arbitrary: eb)
  case Nil
  then show ?case by (simp add: builds_give)
next
  case (Cons d ds)
  let ?step = "case d of
      EnumOption opt \<Rightarrow> give (eb\<lparr>eb_opts := eb_opts eb @ [asUninterpretedOption opt]\<rparr>)
    | EnumValue ev \<Rightarrow> bnd (asEnumValue b h ev) (\<lambda>v. give (eb\<lparr>eb_values := eb_values eb @ [v]\<rparr>))
    | EnumReserved r \<Rightarrow>
        bnd (addReservedNames b h syn r (eb_reserved eb)) (\<lambda>names.
        bnd (bmap (asEnumReservedRange b h) (rs_ranges r)) (\<lambda>rs.
          give (eb\<lparr>eb_reserved := names, eb_ranges := eb_ranges eb @ rs\<rparr>)))
    | EnumEmpty \<Rightarrow> give eb"
  have "builds h ?step (\<lambda>s eb'. (s \<longrightarrow> eb_ok True eb) \<longrightarrow> eb_ok s eb')"
  proof (cases d)
    case (EnumOption opt)
    then show ?thesis using Cons.prems wf_asOption by (auto simp: eb_ok_def intro!: builds_give)
  next
    case (EnumValue ev)
    then have "value_wf ev" using Cons.prems by simp
    with EnumValue Cons.prems show ?thesis
      by (auto simp: eb_ok_def intro!: builds_give builds_bnd [OF builds_value])
  next
    case (EnumReserved r)
    with Cons.prems show ?thesis
      by (auto simp: eb_ok_def intro!: builds_give builds_bnd [OF builds_reserved_names]
          builds_bnd [OF builds_bmap [OF builds_enum_range]])
  next
    case EnumEmpty
    with Cons.prems show ?thesis by (auto intro!: builds_give)
  qed
  then show ?case unfolding add_enum_decls.simps
    by (rule builds_bnd) (rule builds_mono [OF Cons.IH], use Cons.prems in auto)
qed

definition enum_built :: "bool \<Rightarrow> vinfo enump \<Rightarrow> bool" where
  "enum_built s en \<longleftrightarrow> wf_opts (v_opts (en_data en)) \<and> (\<forall>v \<in> set (en_values en). value_built s v) \<and>
     (\<forall>r \<in> set (v_reservedRange (en_data en)). s \<longrightarrow> tr_start r \<le> tr_end r)"

lemma builds_enum:
  assumes "list_all enum_decl_wf (ea_decls en)"
  shows "builds h (asEnumDescriptor b h syn en) enum_built"
  unfolding asEnumDescriptor_def
  by (rule builds_bnd [OF builds_enum_decls [OF assms]])
     (auto simp: eb_ok_def enum_built_def blank_info_def intro!: builds_give)

section \<open>Messages\<close>

text \<open>A message and all that is nested in it: numbers and ranges within the maximum of the message, a message set with
  extension ranges and without fields, oneof indices in range, and a nesting depth below 32.\<close>

fun msg_built :: "bool \<Rightarrow> nat \<Rightarrow> vinfo msgp \<Rightarrow> bool" where
  "msg_built s depth (MsgP n d flds oneofs nested enums extns) \<longleftrightarrow>
     wf_opts (v_opts d) \<and> (\<forall>r \<in> set (v_reservedRange d). range_built (max_tag (v_opts d)) s r) \<and>
     (\<forall>er \<in> set (v_extensionRange d). range_built (max_tag (v_opts d)) s (fst er) \<and> wf_opts (snd er)) \<and>
     (s \<longrightarrow> is_message_set (v_opts d) \<longrightarrow> flds = [] \<and> v_extensionRange d \<noteq> []) \<and>
     (\<forall>l \<in> set flds. field_built FieldMax s l \<and> (\<forall>i. v_oneofIndex (leaf_data l) = Some i \<longrightarrow> i < length oneofs)) \<and>
     (\<forall>l \<in> set oneofs. wf_opts (v_opts (leaf_data l))) \<and> list_all (msg_built s (Suc depth)) nested \<and>
     (\<forall>en \<in> set enums. enum_built s en) \<and> (\<forall>l \<in> set extns. field_built MessageSetMax s l) \<and> (s \<longrightarrow> depth < 32)"

definition mb_ok :: "bool \<Rightarrow> nat \<Rightarrow> int \<Rightarrow> nat \<Rightarrow> mbuild \<Rightarrow> bool" where
  "mb_ok s depth maxTag k mb \<longleftrightarrow>
     wf_opts (mb_opts mb) \<and> (s \<longrightarrow> maxTag = max_tag (mb_opts mb)) \<and> (\<forall>r \<in> set (mb_ranges mb). range_built maxTag s r) \<and>
     (\<forall>er \<in> set (mb_extRanges mb). range_built maxTag s (fst er) \<and> wf_opts (snd er)) \<and>
     (\<forall>l \<in> set (mb_fields mb). field_built maxTag s l \<and> (\<forall>i. v_oneofIndex (leaf_data l) = Some i \<longrightarrow> i < k)) \<and>
     (\<forall>l \<in> set (mb_oneofs mb). wf_opts (v_opts (leaf_data l))) \<and> list_all (msg_built s (Suc depth)) (mb_nested mb) \<and>
     (\<forall>en \<in> set (mb_enums mb). enum_built s en) \<and> (\<forall>l \<in> set (mb_exts mb). field_built MessageSetMax s l)"

abbreviation mb_good :: "bool \<Rightarrow> nat \<Rightarrow> int \<Rightarrow> mbuild \<Rightarrow> bool" where
  "mb_good s depth maxTag mb \<equiv> mb_ok s depth maxTag (length (mb_oneofs mb)) mb"

lemma max_tag_eq: "is_message_set opts \<Longrightarrow> max_tag opts = MessageSetMax" "\<not> is_message_set opts \<Longrightarrow> max_tag opts = FieldMax"
  by (simp_all add: max_tag_def)

lemma loose_range: "range_built maxTag False r" "field_built maxTag False l = field_built maxTag' False l"
  by (simp_all add: range_built_def field_built_def)

lemma finish_built:
  assumes "mb_good s depth maxTag mb" "s \<longrightarrow> depth < 32"
    "s \<longrightarrow> is_message_set (mb_opts mb) \<longrightarrow> mb_fields mb = [] \<and> mb_extRanges mb \<noteq> []"
  shows "msg_built s depth (finish_message name sp body mb)"
proof (cases s)
  case True
  with assms show ?thesis
    by (cases "is_message_set (mb_opts mb)") (auto simp: finish_message_def mb_ok_def blank_info_def max_tag_eq)
next
  case False
  with assms(1) show ?thesis
    by (auto simp: finish_message_def mb_ok_def blank_info_def loose_range(1) loose_range(2) [of maxTag _ FieldMax])
qed

lemma field_built_oneof [simp]:
  "field_built maxTag s (map_leaf (\<lambda>d. d\<lparr>v_oneofIndex := i\<rparr>) l) = field_built maxTag s l"
  "field_built maxTag s (map_leaf (\<lambda>d. d\<lparr>v_extendee := e\<rparr>) l) = field_built maxTag s l"
  by (simp_all add: field_built_def)

lemma proto3_loop_built:
  assumes "proto3_loop names oneofs flds = (flds', oneofs')" "\<forall>l \<in> set oneofs. wf_opts (v_opts (leaf_data l))"
    "\<forall>l \<in> set flds. field_built maxTag s l \<and> (\<forall>i. v_oneofIndex (leaf_data l) = Some i \<longrightarrow> i < length oneofs)"
  shows "length oneofs \<le> length oneofs' \<and> (\<forall>l \<in> set oneofs'. wf_opts (v_opts (leaf_data l))) \<and>
    (\<forall>l \<in> set flds'. field_built maxTag s l \<and> (\<forall>i. v_oneofIndex (leaf_data l) = Some i \<longrightarrow> i < length oneofs'))"
  using assms
proof (induction flds arbitrary: names oneofs flds' oneofs')
  case (Cons fd flds)
  show ?case
  proof (cases "v_proto3Optional (leaf_data fd)")
    case True
    let ?nm = "oneof_name names (leaf_name fd)"
    let ?oneofs = "oneofs @ [Leaf ?nm (blank_info (v_node (leaf_data fd)))]"
    obtain flds1 oneofs1 where run: "proto3_loop (?nm # names) ?oneofs flds = (flds1, oneofs1)" by fastforce
    have "length ?oneofs \<le> length oneofs1 \<and> (\<forall>l \<in> set oneofs1. wf_opts (v_opts (leaf_data l))) \<and>
      (\<forall>l \<in> set flds1. field_built maxTag s l \<and> (\<forall>i. v_oneofIndex (leaf_data l) = Some i \<longrightarrow> i < length oneofs1))"
      by (rule Cons.IH [OF run]) (use Cons.prems in \<open>auto simp: blank_info_def intro: less_SucI\<close>)
    with Cons.prems True run show ?thesis by (auto simp: Let_def)
  next
    case False
    obtain flds1 oneofs1 where run: "proto3_loop names oneofs flds = (flds1, oneofs1)" by fastforce
    with Cons.IH [OF run] Cons.prems False show ?thesis by (auto simp: Let_def intro: order_less_le_trans)
  qed
qed simp

lemma proto3_good: "mb_good s depth maxTag mb \<Longrightarrow> mb_good s depth maxTag (processProto3OptionalFields mb)"
  using proto3_loop_built [of "all_names mb" "mb_oneofs mb" "mb_fields mb" _ _ maxTag s]
  by (auto simp: processProto3OptionalFields_def mb_ok_def split: prod.split)

lemma proto3_keeps [simp]:
  "mb_opts (processProto3OptionalFields mb) = mb_opts mb" "mb_extRanges (processProto3OptionalFields mb) = mb_extRanges mb"
  "mb_fields (processProto3OptionalFields mb) = [] \<longleftrightarrow> mb_fields mb = []"
  by (cases "mb_fields mb"; simp add: processProto3OptionalFields_def Let_def split: prod.split)+

lemma builds_message:
  assumes rest: "\<And>mt mb. mt \<le> MessageSetMax \<Longrightarrow> 1 \<le> mt \<Longrightarrow> mb_good False depth mt mb \<Longrightarrow>
      builds h (rest mt mb) (\<lambda>s mb'. (s \<longrightarrow> mb_good True depth mt mb) \<longrightarrow> mb_good s depth mt mb')"
    and opts: "\<And>opt. OptionDecl opt \<in> set body \<Longrightarrow> opt_wf opt"
  shows "builds h (asMessageDescriptor b h syn depth name sp sp' body rest) (\<lambda>s. msg_built s depth)"
proof -
  let ?opts = "List.map_filter (\<lambda>d. case d of OptionDecl opt \<Rightarrow> Some (asUninterpretedOption opt) | _ \<Rightarrow> None) body"
  let ?mb = "no_body\<lparr>mb_opts := ?opts\<rparr>"
  have wf: "wf_opts ?opts"
    using opts wf_asOption by (auto simp: wf_opts_def List.map_filter_def split: decl.splits)
  have init: "mb_good s depth (max_tag ?opts) ?mb" "mb_good False depth mt ?mb" "mb_good False depth mt no_body" for s mt
    using wf by (simp_all add: mb_ok_def no_body_def)
  have loose: "msg_built False depth (finish_message name sp body ?mb)" "msg_built False depth (finish_message name sp body no_body)"
    using init(2,3) by (auto intro: finish_built)
  have inner: "builds h (if failed then give (finish_message name sp body ?mb)
        else bnd (case opt of None \<Rightarrow> give None
            | Some o' \<Rightarrow> raise_if (syn = Proto3) b h (o_span o') ''messages with message-set wire format are not allowed with proto3 syntax'')
          (\<lambda>_. bnd (rest (if opt = None then FieldMax else MessageSetMax) ?mb) (\<lambda>mb. bnd (case opt of None \<Rightarrow> give None
            | Some o' \<Rightarrow> bnd (raise_if (mb_fields mb \<noteq> []) b h (v_node (leaf_data (hd (mb_fields mb))))
                    ''messages with message-set wire format cannot contain non-extension fields'')
                (\<lambda>_. raise_if (mb_extRanges mb = []) b h (o_span o')
                    ''messages with message-set wire format must contain at least one extension range''))
            (\<lambda>_. give (finish_message name sp body (if syn = Proto3 then processProto3OptionalFields mb else mb))))))
      (\<lambda>s y. (s \<longrightarrow> \<not> failed \<and> (opt \<noteq> None \<longleftrightarrow> is_message_set ?opts)) \<longrightarrow> depth < 32 \<longrightarrow> msg_built s depth y)"
    for opt :: "vopt option" and failed
  proof -
    let ?mt = "if opt = None then FieldMax else MessageSetMax"
    have mt: "?mt \<le> MessageSetMax" "1 \<le> ?mt" using max_tags by auto
    have fin: "builds h (case opt of None \<Rightarrow> give None
        | Some o' \<Rightarrow> bnd (raise_if (mb_fields mb \<noteq> []) b h (sp1 mb) msg1) (\<lambda>_. raise_if (mb_extRanges mb = []) b h (o_span o') msg2))
        (\<lambda>s _. s \<longrightarrow> opt \<noteq> None \<longrightarrow> mb_fields mb = [] \<and> mb_extRanges mb \<noteq> [])" for mb sp1 msg1 msg2
      by (cases opt) (auto intro!: builds_give builds_bnd [OF builds_raise_if] builds_mono [OF builds_raise_if])
    have finished: "msg_built s depth (finish_message name sp body (if syn = Proto3 then processProto3OptionalFields mb else mb))"
      if "mb_good s depth ?mt mb" "s \<longrightarrow> opt \<noteq> None \<longrightarrow> mb_fields mb = [] \<and> mb_extRanges mb \<noteq> []" "depth < 32" for s mb
    proof -
      have "s \<longrightarrow> is_message_set (mb_opts mb) \<longrightarrow> opt \<noteq> None"
        using that(1) max_tags by (auto simp: mb_ok_def max_tag_def FieldMax_def MessageSetMax_def split: if_splits)
      with that show ?thesis by (auto intro!: finish_built proto3_good)
    qed
    show ?thesis
    proof (cases failed)
      case True
      then show ?thesis using loose by (auto intro!: builds_give)
    next
      case False
      have syn: "builds h (case opt of None \<Rightarrow> give None | Some o' \<Rightarrow> raise_if (syn = Proto3) b h (o_span o') msg) (\<lambda>_ _. True)" for msg
        by (cases opt) (auto intro: builds_give builds_mono [OF builds_raise_if])
      have start: "mb_good True depth ?mt ?mb" if "opt \<noteq> None \<longleftrightarrow> is_message_set ?opts"
      proof -
        have "?mt = max_tag ?opts" using that by (cases opt) (simp_all add: max_tag_def)
        then show ?thesis using init(1) [of True] by (simp only:)
      qed
      show ?thesis unfolding if_not_P [OF False]
        by (rule builds_bnd [OF syn], rule builds_bnd [OF rest [OF mt init(2)]], rule builds_bnd [OF fin], rule builds_give)
           (use finished start in blast)+
    qed
  qed
  have body: "builds h (addMessageBody b h syn name sp body rest) (\<lambda>s m. depth < 32 \<longrightarrow> msg_built s depth m)"
    unfolding addMessageBody_def Let_def
    by (rule builds_bnd [OF builds_messageSet], split prod.split, intro allI impI, rule builds_mono [OF inner]) simp
  show ?thesis
    unfolding asMessageDescriptor_def
    by (rule builds_bnd [OF builds_depth], split if_split)
       (use loose in \<open>auto intro!: builds_give builds_mono [OF body]\<close>)
qed

section \<open>Declarations\<close>

lemma builds_map:
  assumes "maxTag \<le> MessageSetMax" "field_wf f"
  shows "builds h (asMapDescriptors b h syn maxTag depth f)
    (\<lambda>s (fd, md). field_built maxTag s fd \<and> v_oneofIndex (leaf_data fd) = None \<and> msg_built s depth md)"
  unfolding asMapDescriptors_def Let_def
  by (rule builds_bnd [OF builds_tag [OF assms(1)]], rule builds_bnd [OF builds_depth], rule builds_give)
     (use assms(2) wf_asOptions in \<open>auto simp: field_built_def field_wf_def blank_info_def number_ok_def FieldMax_def is_message_set_def\<close>)

lemma builds_message_range:
  assumes "maxTag \<le> MessageSetMax" "1 \<le> maxTag"
  shows "builds h (asMessageReservedRange b h maxTag rng) (range_built maxTag)"
  unfolding asMessageReservedRange_def
  by (rule builds_bnd [OF builds_range [OF assms(2)]])
     (use assms max_tags(3) in \<open>auto simp: range_built_def to_int32_id split: prod.splits intro!: builds_give\<close>)

lemma builds_extension_ranges:
  assumes "maxTag \<le> MessageSetMax" "1 \<le> maxTag" "list_all opt_wf opts"
  shows "builds h (asExtensionRanges b h maxTag rngs opts)
    (\<lambda>s ers. \<forall>er \<in> set ers. range_built maxTag s (fst er) \<and> wf_opts (snd er))"
  unfolding asExtensionRanges_def
  by (rule builds_bmap, rule builds_bnd [OF builds_message_range [OF assms(1,2)]], rule builds_give)
     (use wf_asOptions [OF assms(3)] in auto)

definition service_wf :: "service_ast \<Rightarrow> bool" where
  "service_wf svc \<longleftrightarrow> (\<forall>d \<in> set (sa_decls svc). case d of ServiceOption opt \<Rightarrow> opt_wf opt
     | ServiceRPC rpc \<Rightarrow> list_all opt_wf (rpc_opts rpc) | _ \<Rightarrow> True)"

text \<open>What the grammar guarantees: names of options, fields, groups and enum values are not empty.\<close>

fun decl_wf :: "decl \<Rightarrow> bool" where
  "decl_wf (OptionDecl opt) = opt_wf opt"
| "decl_wf (MessageDecl n vis sp body) = list_all decl_wf body"
| "decl_wf (EnumDecl en) = list_all enum_decl_wf (ea_decls en)"
| "decl_wf (ServiceDecl svc) = service_wf svc"
| "decl_wf (ExtendDecl e sp ds) = list_all decl_wf ds"
| "decl_wf (FieldDecl f) = field_wf f"
| "decl_wf (MapFieldDecl f) = field_wf f"
| "decl_wf (GroupDecl f body) = (field_wf f \<and> list_all decl_wf body)"
| "decl_wf (OneofDecl n sp ds) = list_all decl_wf ds"
| "decl_wf (ExtensionRangeDecl rs opts) = list_all opt_wf opts"
| "decl_wf _ = True"

lemma body_options: "list_all decl_wf body \<Longrightarrow> OptionDecl opt \<in> set body \<Longrightarrow> opt_wf opt"
  by (auto simp: list_all_iff)

definition ext_ok :: "bool \<Rightarrow> nat \<Rightarrow> vinfo leaf list \<times> vinfo msgp list \<times> nat \<Rightarrow> bool" where
  "ext_ok s depth acc \<longleftrightarrow> (case acc of (flds, msgs, n) \<Rightarrow>
     (\<forall>l \<in> set flds. field_built MessageSetMax s l) \<and> list_all (msg_built s (Suc depth)) msgs)"

definition oneof_ok :: "bool \<Rightarrow> nat \<Rightarrow> int \<Rightarrow> nat \<Rightarrow> vopt list \<times> nat \<times> mbuild \<Rightarrow> bool" where
  "oneof_ok s depth maxTag index acc \<longleftrightarrow> (case acc of (opts, n, mb) \<Rightarrow>
     wf_opts opts \<and> length (mb_oneofs mb) = index \<and> mb_ok s depth maxTag (Suc index) mb)"

text \<open>One lemma for each kind of declaration in a message body; those for groups, messages, extend blocks and oneofs
  take what holds of their own declarations.\<close>

abbreviation step_ok :: "nat \<Rightarrow> nat \<Rightarrow> int \<Rightarrow> mbuild \<Rightarrow> (mbuild, 'r) bact \<Rightarrow> bool" where
  "step_ok h depth maxTag mb m \<equiv> builds h m (\<lambda>s mb'. (s \<longrightarrow> mb_good True depth maxTag mb) \<longrightarrow> mb_good s depth maxTag mb')"

lemma step_enum:
  assumes "decl_wf (EnumDecl en)" "mb_good False depth maxTag mb"
  shows "step_ok h depth maxTag mb (bnd (asEnumDescriptor b h syn en) (\<lambda>ed. give (mb\<lparr>mb_enums := mb_enums mb @ [ed]\<rparr>)))"
  by (rule builds_bnd [OF builds_enum], use assms(1) in simp, intro builds_give) (use assms(2) in \<open>auto simp: mb_ok_def\<close>)

lemma step_extension_ranges:
  assumes "decl_wf (ExtensionRangeDecl rngs opts)" "mb_good False depth maxTag mb" "maxTag \<le> MessageSetMax" "1 \<le> maxTag"
  shows "step_ok h depth maxTag mb
    (bnd (asExtensionRanges b h maxTag rngs opts) (\<lambda>rs. give (mb\<lparr>mb_extRanges := mb_extRanges mb @ rs\<rparr>)))"
  by (rule builds_bnd [OF builds_extension_ranges [OF assms(3,4)]], use assms(1) in simp, intro builds_give)
     (use assms(2) in \<open>auto simp: mb_ok_def\<close>)

lemma step_field:
  assumes "field_wf f" "mb_good False depth maxTag mb" "maxTag \<le> MessageSetMax"
  shows "step_ok h depth maxTag mb
    (bnd (asFieldDescriptor b h syn maxTag f) (\<lambda>fd. give (mb\<lparr>mb_fields := mb_fields mb @ [fd]\<rparr>)))"
  by (rule builds_bnd [OF builds_field [OF assms(3,1)]], intro builds_give) (use assms(2) in \<open>auto simp: mb_ok_def\<close>)

lemma step_map:
  assumes "field_wf f" "mb_good False depth maxTag mb" "maxTag \<le> MessageSetMax"
  shows "step_ok h depth maxTag mb (bnd (asMapDescriptors b h syn maxTag (Suc depth) f) (\<lambda>(fd, md).
      give (mb\<lparr>mb_fields := mb_fields mb @ [fd], mb_nested := mb_nested mb @ [md]\<rparr>)))"
  unfolding case_prod_beta'
  by (rule builds_bnd [OF builds_map [OF assms(3,1)]], intro builds_give) (use assms(2) in \<open>auto simp: mb_ok_def\<close>)

lemma step_group:
  assumes "field_wf f" "mb_good False depth maxTag mb" "maxTag \<le> MessageSetMax" "builds h m (\<lambda>s. msg_built s (Suc depth))"
  shows "step_ok h depth maxTag mb (bnd (group_field b h maxTag f) (\<lambda>fd. bnd m (\<lambda>md.
      give (mb\<lparr>mb_fields := mb_fields mb @ [fd], mb_nested := mb_nested mb @ [md]\<rparr>))))"
  by (rule builds_bnd [OF builds_group [OF assms(3,1)]], rule builds_bnd [OF assms(4)], intro builds_give)
     (use assms(2) in \<open>auto simp: mb_ok_def\<close>)

lemma step_message:
  assumes "mb_good False depth maxTag mb" "builds h m (\<lambda>s. msg_built s (Suc depth))"
  shows "step_ok h depth maxTag mb (bnd m (\<lambda>md. give (mb\<lparr>mb_nested := mb_nested mb @ [md]\<rparr>)))"
  by (rule builds_bnd [OF assms(2)], intro builds_give) (use assms(1) in \<open>auto simp: mb_ok_def\<close>)

lemma step_reserved:
  assumes "mb_good False depth maxTag mb" "maxTag \<le> MessageSetMax" "1 \<le> maxTag"
  shows "step_ok h depth maxTag mb (bnd (addReservedNames b h syn r (mb_reserved mb)) (\<lambda>names.
      bnd (bmap (asMessageReservedRange b h maxTag) (rs_ranges r)) (\<lambda>rs.
        give (mb\<lparr>mb_reserved := names, mb_ranges := mb_ranges mb @ rs\<rparr>))))"
  by (rule builds_bnd [OF builds_reserved_names], rule builds_bnd [OF builds_bmap [OF builds_message_range [OF assms(2,3)]]],
      intro builds_give) (use assms(1) in \<open>auto simp: mb_ok_def\<close>)

lemma step_extend:
  assumes "mb_good False depth maxTag mb"
    and "ext_ok False depth (mb_exts mb, mb_nested mb, 0) \<Longrightarrow>
      builds h m (\<lambda>s acc'. (s \<longrightarrow> ext_ok True depth (mb_exts mb, mb_nested mb, 0)) \<longrightarrow> ext_ok s depth acc')"
  shows "step_ok h depth maxTag mb (bnd m (\<lambda>(flds, msgs, count).
      bnd (raise_if (count = 0) b h sp msg) (\<lambda>_. give (mb\<lparr>mb_exts := flds, mb_nested := msgs\<rparr>))))"
proof -
  have "ext_ok False depth (mb_exts mb, mb_nested mb, 0)" using assms(1) by (simp add: ext_ok_def mb_ok_def)
  from assms(2) [OF this] show ?thesis unfolding case_prod_beta'
    by (rule builds_bnd, intro builds_bnd [OF builds_raise_if] builds_give) (use assms(1) in \<open>auto simp: mb_ok_def ext_ok_def\<close>)
qed

lemma step_oneof:
  assumes "mb_good False depth maxTag mb"
    and "oneof_ok False depth maxTag (length (mb_oneofs mb)) ([], 0, mb) \<Longrightarrow>
      builds h m (\<lambda>s acc'. (s \<longrightarrow> oneof_ok True depth maxTag (length (mb_oneofs mb)) ([], 0, mb)) \<longrightarrow>
        oneof_ok s depth maxTag (length (mb_oneofs mb)) acc')"
  shows "step_ok h depth maxTag mb (bnd m (\<lambda>(opts, ooFields, mb).
      bnd (raise_if (ooFields = 0) b h sp msg) (\<lambda>_.
        give (mb\<lparr>mb_oneofs := mb_oneofs mb @ [Leaf name ((blank_info sp)\<lparr>v_opts := opts\<rparr>)]\<rparr>))))"
proof -
  have up: "mb_good s depth maxTag mb \<Longrightarrow> oneof_ok s depth maxTag (length (mb_oneofs mb)) ([], 0, mb)" for s
    by (auto simp: oneof_ok_def mb_ok_def intro: less_SucI)
  have fin: "mb_good s depth maxTag ((snd (snd acc))\<lparr>mb_oneofs := mb_oneofs (snd (snd acc)) @
      [Leaf name ((blank_info sp)\<lparr>v_opts := fst acc\<rparr>)]\<rparr>)" if "oneof_ok s depth maxTag (length (mb_oneofs mb)) acc" for s acc
    using that by (cases acc) (simp add: oneof_ok_def mb_ok_def)
  show ?thesis unfolding case_prod_beta'
    by (rule builds_bnd [OF assms(2) [OF up [OF assms(1)]]], rule builds_bnd [OF builds_raise_if], rule builds_give)
       (use up fin in \<open>simp only: simp_thms; blast\<close>)+
qed

lemma builds_decls:
  fixes mb :: mbuild
  shows "list_all decl_wf ds \<Longrightarrow> maxTag \<le> MessageSetMax \<Longrightarrow> 1 \<le> maxTag \<Longrightarrow> mb_good False depth maxTag mb \<Longrightarrow>
      builds h (add_decls b h syn depth maxTag ds mb) (\<lambda>s mb'. (s \<longrightarrow> mb_good True depth maxTag mb) \<longrightarrow> mb_good s depth maxTag mb')"
    and "list_all decl_wf ds \<Longrightarrow> maxTag \<le> MessageSetMax \<Longrightarrow> 1 \<le> maxTag \<Longrightarrow> oneof_ok False depth maxTag index oacc \<Longrightarrow>
      builds h (add_oneof_decls b h syn depth maxTag index ds oacc)
        (\<lambda>s acc'. (s \<longrightarrow> oneof_ok True depth maxTag index oacc) \<longrightarrow> oneof_ok s depth maxTag index acc')"
    and "list_all decl_wf ds \<Longrightarrow> ext_ok False depth eacc \<Longrightarrow>
      builds h (add_extension_decls b h syn depth extendee ds eacc) (\<lambda>s acc'. (s \<longrightarrow> ext_ok True depth eacc) \<longrightarrow> ext_ok s depth acc')"
proof (induction b h syn depth maxTag ds mb and b h syn depth maxTag index ds oacc and b h syn depth extendee ds eacc
    rule: add_decls_add_oneof_decls_add_extension_decls.induct)
  case (1 b h syn depth maxTag mb)
  then show ?case by (simp add: builds_give)
next
  case (2 b h syn depth maxTag d ds mb)
  note mt = 2(7,8) and good = 2(9)
  have wf: "decl_wf d" "list_all decl_wf ds" using 2(6) by simp_all
  show ?case unfolding add_decls.simps
  proof (rule builds_bnd [where R = "\<lambda>s mb'. (s \<longrightarrow> mb_good True depth maxTag mb) \<longrightarrow> mb_good s depth maxTag mb'"], goal_cases)
    case 1
    show ?case
    proof (cases d)
      case (EnumDecl en)
      with step_enum [OF _ good] wf show ?thesis by (simp only: decl.case)
    next
      case (ExtendDecl extendee sp decls)
      with wf show ?thesis unfolding ExtendDecl decl.case by (intro step_extend [OF good] 2(2) [OF ExtendDecl]) simp
    next
      case (ExtensionRangeDecl rngs opts)
      with step_extension_ranges [OF _ good mt] wf show ?thesis by (simp only: decl.case)
    next
      case (FieldDecl f)
      with step_field [OF _ good mt(1)] wf show ?thesis by (simp only: decl.case decl_wf.simps)
    next
      case (MapFieldDecl f)
      with step_map [OF _ good mt(1)] wf show ?thesis by (simp only: decl.case decl_wf.simps)
    next
      case (GroupDecl f body)
      show ?thesis unfolding GroupDecl decl.case
        by (intro step_group [OF _ good mt(1)] builds_message 2(3) [OF GroupDecl]) (use wf GroupDecl body_options in auto)
    next
      case (OneofDecl name sp decls)
      with wf mt show ?thesis unfolding OneofDecl decl.case by (intro step_oneof [OF good] 2(4) [OF OneofDecl]) simp_all
    next
      case (MessageDecl name vis sp body)
      show ?thesis unfolding MessageDecl decl.case
        by (intro step_message [OF good] builds_message 2(1) [OF MessageDecl]) (use wf MessageDecl body_options in auto)
    next
      case (ReservedDecl r)
      with step_reserved [OF good mt] show ?thesis by (simp only: decl.case)
    qed (use good in \<open>auto intro!: builds_give\<close>)
  next
    case (2 mb')
    then show ?case by (intro builds_mono [OF "2.IH"(5)]) (use wf mt in auto)
  qed
next
  case (3 b h syn depth maxTag index acc)
  then show ?case by (simp add: builds_give)
next
  case (4 b h syn depth maxTag index d ds acc)
  obtain opts n mb where acc: "acc = (opts, n, mb)" by (cases acc)
  note mt = 4(4,5) and good = 4(6)
  have wf: "decl_wf d" "list_all decl_wf ds" using 4(3) by simp_all
  show ?case unfolding add_oneof_decls.simps acc prod.case
  proof (rule builds_bnd [where R = "\<lambda>s acc'. (s \<longrightarrow> oneof_ok True depth maxTag index acc) \<longrightarrow> oneof_ok s depth maxTag index acc'"], goal_cases)
    case 1
    show ?case
    proof (cases d)
      case (OptionDecl opt)
      with wf good acc wf_asOption show ?thesis by (auto simp: oneof_ok_def intro!: builds_give)
    next
      case (FieldDecl f)
      have "field_wf f" using wf FieldDecl by simp
      from builds_field [OF mt(1) this] show ?thesis unfolding FieldDecl decl.case
        by (rule builds_bnd, intro builds_give) (use good acc in \<open>auto simp: mb_ok_def oneof_ok_def\<close>)
    next
      case (GroupDecl f body)
      have md: "builds h (asMessageDescriptor b h syn (Suc depth) (fa_name f) (fa_span f) (fa_group_span f) body
          (\<lambda>mt mb. add_decls b h syn (Suc depth) mt body mb)) (\<lambda>s. msg_built s (Suc depth))"
        by (rule builds_message) (use 4(1) [OF acc [symmetric] refl GroupDecl] wf GroupDecl body_options in auto)
      have "field_wf f" using wf GroupDecl by simp
      from builds_group [OF mt(1) this] show ?thesis unfolding GroupDecl decl.case
        by (rule builds_bnd, intro builds_bnd [OF md] builds_give) (use good acc in \<open>auto simp: mb_ok_def oneof_ok_def\<close>)
    qed (use good acc in \<open>auto intro!: builds_give\<close>)
  next
    case (2 acc')
    then show ?case by (intro builds_mono [OF 4(2)]) (use wf mt good acc in auto)
  qed
next
  case (5 b h syn depth extendee acc)
  then show ?case by (simp add: builds_give)
next
  case (6 b h syn depth extendee d ds acc)
  obtain flds msgs n where acc: "acc = (flds, msgs, n)" by (cases acc)
  note good = 6(4)
  have wf: "decl_wf d" "list_all decl_wf ds" using 6(3) by simp_all
  show ?case unfolding add_extension_decls.simps acc prod.case
  proof (rule builds_bnd [where R = "\<lambda>s acc'. (s \<longrightarrow> ext_ok True depth acc) \<longrightarrow> ext_ok s depth acc'"], goal_cases)
    case 1
    show ?case
    proof (cases d)
      case (FieldDecl f)
      have "field_wf f" using wf FieldDecl by simp
      from builds_field [OF order.refl this] show ?thesis unfolding FieldDecl decl.case
        by (rule builds_bnd, intro builds_give) (use good acc in \<open>auto simp: ext_ok_def\<close>)
    next
      case (GroupDecl f body)
      have md: "builds h (asMessageDescriptor b h syn (Suc depth) (fa_name f) (fa_span f) (fa_group_span f) body
          (\<lambda>mt mb. add_decls b h syn (Suc depth) mt body mb)) (\<lambda>s. msg_built s (Suc depth))"
        by (rule builds_message) (use 6(1) [OF acc [symmetric] refl GroupDecl] wf GroupDecl body_options in auto)
      have "field_wf f" using wf GroupDecl by simp
      from builds_group [OF order.refl this] show ?thesis unfolding GroupDecl decl.case
        by (rule builds_bnd, intro builds_bnd [OF md] builds_give) (use good acc in \<open>auto simp: ext_ok_def\<close>)
    qed (use good acc in \<open>auto intro!: builds_give\<close>)
  next
    case (2 acc')
    then show ?case by (intro builds_mono [OF 6(2)]) (use wf good acc in auto)
  qed
qed

section \<open>Files\<close>

definition svc_built :: "vinfo svcp \<Rightarrow> bool" where
  "svc_built svc \<longleftrightarrow> wf_opts (v_opts (svc_data svc)) \<and> (\<forall>l \<in> set (svc_methods svc). wf_opts (v_opts (leaf_data l)))"

lemma service_built: "service_wf svc \<Longrightarrow> svc_built (asServiceDescriptor svc)"
  using wf_asOption wf_asOptions
  by (fastforce simp: svc_built_def asServiceDescriptor_def asMethodDescriptor_def service_wf_def blank_info_def List.map_filter_def
      wf_opts_def split: service_decl.splits)

definition fb_ok :: "bool \<Rightarrow> fbuild \<Rightarrow> bool" where
  "fb_ok s fb \<longleftrightarrow> wf_opts (fb_opts fb) \<and> list_all (msg_built s 1) (fb_messages fb) \<and> (\<forall>en \<in> set (fb_enums fb). enum_built s en) \<and>
     (\<forall>l \<in> set (fb_exts fb). field_built MessageSetMax s l) \<and> (\<forall>svc \<in> set (fb_services fb). svc_built svc)"

lemma no_file_ok [simp]: "fb_ok s no_file" "fb_ok s (no_file\<lparr>fb_syntax := syn, fb_edition := ed\<rparr>)" "fb_ok s (no_file\<lparr>fb_syntax := syn\<rparr>)"
  by (simp_all add: fb_ok_def no_file_def)

lemma builds_syntax: "builds h (file_syntax_of b h file) (\<lambda>_ x. \<forall>s. fb_ok s (snd x))"
proof -
  have known: "builds h (bnd (raise_if c b h sp msg) (\<lambda>res. give (if res \<noteq> None then (None, fb) else (Some syn, fb'))))
      (\<lambda>_ x. \<forall>s. fb_ok s (snd x))" if "\<And>s. fb_ok s fb" "\<And>s. fb_ok s fb'" for c sp msg and syn :: syntaxKind and fb fb'
    by (rule builds_bnd [OF builds_raise_if], intro builds_give) (use that in auto)
  show ?thesis
  proof (cases "file_syntax file")
    case None
    show ?thesis
    proof (cases "file_edition file")
      case edition: None
      show ?thesis unfolding file_syntax_of_def None edition option.case
        by (rule builds_bnd [OF builds_warn], intro builds_give) simp_all
    next
      case (Some e)
      show ?thesis unfolding file_syntax_of_def None Some option.case case_prod_beta' by (intro known) simp_all
    qed
  next
    case (Some s)
    show ?thesis unfolding file_syntax_of_def Some option.case case_prod_beta' Let_def by (intro known) simp_all
  qed
qed

lemma builds_package: "builds h (package_checks b h again name sp name_sp) (\<lambda>_ _. True)"
  unfolding package_checks_def
  by (auto intro!: builds_bnd [OF builds_raise_if] builds_give)

lemma builds_file_decl:
  assumes "decl_wf d" "fb_ok False fb"
  shows "builds h (file_decl b h syn d fb) (\<lambda>s x. (s \<longrightarrow> fb_ok True fb) \<longrightarrow> fb_ok s (snd x))"
proof (cases d)
  case (EnumDecl en)
  have "list_all enum_decl_wf (ea_decls en)" using assms EnumDecl by simp
  from builds_enum [OF this] show ?thesis unfolding EnumDecl file_decl_def decl.case
    by (rule builds_bnd, intro builds_give) (use assms in \<open>auto simp: fb_ok_def\<close>)
next
  case (ExtendDecl extendee sp decls)
  have "ext_ok False 0 (fb_exts fb, fb_messages fb, 0)" using assms by (simp add: ext_ok_def fb_ok_def)
  moreover have "list_all decl_wf decls" using assms ExtendDecl by simp
  ultimately have ext: "builds h (add_extension_decls b h syn 0 extendee decls (fb_exts fb, fb_messages fb, 0))
      (\<lambda>s acc'. (s \<longrightarrow> ext_ok True 0 (fb_exts fb, fb_messages fb, 0)) \<longrightarrow> ext_ok s 0 acc')"
    by (intro builds_decls(3))
  show ?thesis unfolding ExtendDecl file_decl_def decl.case case_prod_beta'
    by (rule builds_bnd [OF ext], rule builds_bnd [OF builds_raise_if], intro builds_give)
       (use assms in \<open>auto simp: fb_ok_def ext_ok_def\<close>)
next
  case (MessageDecl name vis sp body)
  have md: "builds h (asMessageDescriptor b h syn 1 name sp sp body (\<lambda>mt mb. add_decls b h syn 1 mt body mb)) (\<lambda>s. msg_built s 1)"
    by (intro builds_message builds_decls(1)) (use assms MessageDecl body_options in auto)
  show ?thesis unfolding MessageDecl file_decl_def decl.case
    by (rule builds_bnd [OF md], intro builds_give) (use assms in \<open>auto simp: fb_ok_def\<close>)
next
  case (PackageDecl name sp name_sp)
  show ?thesis unfolding PackageDecl file_decl_def decl.case
    by (rule builds_bnd [OF builds_package], intro builds_give) (use assms in \<open>auto simp: fb_ok_def\<close>)
qed (use assms wf_asOption service_built in \<open>auto simp: file_decl_def fb_ok_def Let_def intro!: builds_give\<close>)

lemma ReporterError_Error: "ReporterError h st \<noteq> None \<Longrightarrow> Handler_Error h st \<noteq> None"
  by (auto simp: ReporterError_def Handler_Error_def Let_def)

lemma builds_file_loop:
  assumes "list_all decl_wf ds" "fb_ok False fb"
  shows "builds h (file_loop b h syn ds fb) (\<lambda>s fb'. (s \<longrightarrow> fb_ok True fb) \<longrightarrow> fb_ok s fb')"
  using assms
proof (induction ds arbitrary: fb)
  case Nil
  then show ?case by (simp add: builds_give)
next
  case (Cons d ds)
  let ?next = "bnd (file_decl b h syn d fb) (\<lambda>(stop, fb). if stop then give fb else file_loop b h syn ds fb)"
  have "decl_wf d" using Cons.prems by simp
  from builds_file_decl [OF this Cons.prems(2)]
  have "builds h ?next (\<lambda>s fb'. (s \<longrightarrow> fb_ok True fb) \<longrightarrow> fb_ok s fb')"
    unfolding case_prod_beta'
    by (rule builds_bnd, split if_split)
       (use Cons.prems in \<open>auto intro: builds_give intro!: builds_mono [OF Cons.IH]\<close>)
  then show ?case
    using Cons.prems(2) ReporterError_Error unfolding builds_def file_loop.simps by fastforce
qed

lemma builds_file:
  assumes "list_all decl_wf (file_decls file)"
  shows "builds h (createFileDescriptor b h file) fb_ok"
  unfolding createFileDescriptor_def case_prod_beta'
  by (rule builds_bnd [OF builds_syntax], split option.split)
     (use assms in \<open>auto intro!: builds_give builds_mono [OF builds_file_loop]\<close>)

section \<open>Elements of a file\<close>

fun msg_all :: "('a elem \<Rightarrow> bool) \<Rightarrow> 'a msgp \<Rightarrow> bool" where
  "msg_all Q (MsgP n d flds oneofs nested enums extns) \<longleftrightarrow>
     Q (EMessage (MsgP n d flds oneofs nested enums extns)) \<and> (\<forall>l \<in> set flds. Q (EField l)) \<and> (\<forall>l \<in> set oneofs. Q (EOneof l)) \<and>
     list_all (msg_all Q) nested \<and> (\<forall>en \<in> set enums. Q (EEnum en) \<and> (\<forall>l \<in> set (en_values en). Q (EValue l))) \<and>
     (\<forall>l \<in> set extns. Q (EExtension l))"

abbreviation all_entered :: "('a elem \<Rightarrow> bool) \<Rightarrow> 'a visit event list \<Rightarrow> bool" where
  "all_entered Q es \<equiv> \<forall>e \<in> set (concat (map entered_elem es)). Q e"

lemma entered_leaves: "all_entered Q (ev_leaves prefix path tag con ls) \<longleftrightarrow> (\<forall>l \<in> set ls. Q (con l))"
proof -
  have "all_entered Q (concat (map (\<lambda>(i, l). let v = (prefix @ leaf_name l, path @ [tag, int i], con l) in [Enter v, Exit v])
      (enumerate n ls))) \<longleftrightarrow> (\<forall>l \<in> set ls. Q (con l))" for n
    by (induction ls arbitrary: n) (auto simp: Let_def)
  then show ?thesis by (simp add: ev_leaves_def)
qed

lemma entered_enums:
  "all_entered Q (ev_enums prefix path tag ens) \<longleftrightarrow> (\<forall>en \<in> set ens. Q (EEnum en) \<and> (\<forall>l \<in> set (en_values en). Q (EValue l)))"
proof -
  have "all_entered Q (concat (map (\<lambda>(i, en). ev_enum prefix (path @ [tag, int i]) en) (enumerate n ens))) \<longleftrightarrow>
      (\<forall>en \<in> set ens. Q (EEnum en) \<and> (\<forall>l \<in> set (en_values en). Q (EValue l)))" for n
    by (induction ens arbitrary: n) (simp_all add: ev_enum_def bracket_def ball_Un entered_leaves [simplified])
  then show ?thesis by (simp add: ev_enums_def)
qed

lemma entered_messages:
  shows "all_entered Q (ev_message prefix path m) \<longleftrightarrow> msg_all Q m"
    and "all_entered Q (ev_messages prefix path tag i ms) \<longleftrightarrow> list_all (msg_all Q) ms"
proof (induction prefix path m and prefix path tag i ms rule: ev_message_ev_messages.induct)
  case (1 prefix path n d flds oneofs nested enums extns)
  from 1 [OF refl refl] show ?case
    by (simp add: Let_def bracket_def ball_Un entered_leaves [simplified] entered_enums [simplified])
qed (simp_all add: ball_Un)

lemma entered_file:
  "(\<forall>e \<in> set (file_elems f). Q e) \<longleftrightarrow> list_all (msg_all Q) (fmessages f) \<and>
     (\<forall>en \<in> set (fenums f). Q (EEnum en) \<and> (\<forall>l \<in> set (en_values en). Q (EValue l))) \<and> (\<forall>l \<in> set (fexts f). Q (EExtension l)) \<and>
     (\<forall>svc \<in> set (fservices f). Q (EService svc) \<and> (\<forall>l \<in> set (svc_methods svc). Q (EMethod l)))"
proof -
  have "all_entered Q (concat (map (\<lambda>(i, svc). ev_service prefix [File_Service, int i] svc) (enumerate n svcs))) \<longleftrightarrow>
      (\<forall>svc \<in> set svcs. Q (EService svc) \<and> (\<forall>l \<in> set (svc_methods svc). Q (EMethod l)))" for prefix n svcs
    by (induction svcs arbitrary: n) (simp_all add: ev_service_def Let_def bracket_def ball_Un entered_leaves [simplified])
  then show ?thesis
    by (simp add: file_elems_def ev_file_def Let_def ball_Un entered_messages(2) [simplified] entered_enums [simplified]
        entered_leaves [simplified])
qed

section \<open>Validation of anything that was built\<close>

text \<open>When errors have been reported, ranges may be empty, and validation says nothing exact about the file any more. It
  still does not panic and does not lose errors, as long as options have names.\<close>

definition safe :: "nat \<Rightarrow> 'r vact \<Rightarrow> bool" where
  "safe h a \<longleftrightarrow> (\<forall>st. hok h st \<longrightarrow> hok h (snd (a st)) \<and> fst (a st) \<noteq> Some VPanicked \<and>
     (Handler_Error h st \<noteq> None \<longrightarrow> Handler_Error h (snd (a st)) \<noteq> None))"

lemma checks_safe: "checks h a P \<Longrightarrow> safe h a"
  by (cases P) (simp_all add: checks_def safe_def)

lemma safe_andThen: "safe h a \<Longrightarrow> safe h b \<Longrightarrow> safe h (andThen a b)"
  by (fastforce simp: safe_def andThen_def split: prod.split option.split)

lemma safe_run_all: "(\<And>x. x \<in> set xs \<Longrightarrow> safe h (f x)) \<Longrightarrow> safe h (run_all (map f xs))"
  by (induction xs) (simp_all add: safe_andThen checks_safe [OF checks_skip])

lemmas safe_intros = safe_andThen safe_run_all checks_safe [OF checks_skip] checks_safe [OF checks_herrorf]
  checks_safe [OF checks_error_if] checks_safe [OF checks_validateNoFeatures] checks_safe [OF checks_no_option]
  checks_safe [OF checks_reserved_names] checks_safe [OF checks_tag] checks_safe [OF checks_value]

lemma safe_FindOption:
  assumes "\<And>j. safe h (k j)"
  shows "safe h (FindOption env h scope opts name k)"
proof -
  have "find_option_loop True False name (-1) 0 opts \<noteq> NoName" by (simp add: find_exact split: list.split)
  then show ?thesis unfolding FindOption_def findOption_def
    by (auto split: option_hit.split intro!: safe_intros assms)
qed

lemma safe_neighbours: "safe h (check_neighbours env h inc prefix rs)"
proof (induction env h inc prefix rs rule: check_neighbours.induct)
  case (1 env h inc prefix a b rs)
  then show ?case unfolding check_neighbours.simps by (intro safe_andThen checks_safe [OF checks_error_if])
qed (simp_all only: check_neighbours.simps checks_safe [OF checks_skip])

lemma safe_reserved_extensions: "safe h (check_reserved_extensions env h scope rs es)"
proof (induction env h scope rs es rule: check_reserved_extensions.induct)
  case (1 env h scope r rs e es)
  note IH = 1(1) [OF refl refl] 1(2) [OF refl refl]
  show ?case unfolding check_reserved_extensions.simps Let_def
    by (intro safe_andThen checks_safe [OF checks_error_if]) (simp only: IH if_split simp_thms, use IH in blast)
qed (simp_all only: check_reserved_extensions.simps checks_safe [OF checks_skip])

lemma safe_fields: "safe h (check_fields env h scope names rsvd extRanges tags flds)"
  by (induction flds arbitrary: tags) (auto simp: Let_def intro!: safe_intros)

lemma safe_aliases: "(\<And>b. safe h (k b)) \<Longrightarrow> safe h (check_aliases env h scope allow vals als k vs)"
  by (induction vs arbitrary: vals als) (auto simp: Let_def intro!: safe_intros)

lemma safe_message:
  assumes "wf_opts (v_opts (msg_data md))" "\<forall>er \<in> set (v_extensionRange (msg_data md)). wf_opts (snd er)"
  shows "safe h (validateMessage env h syn name md)"
  unfolding validateMessage_def Let_def run_all.simps
  by (intro safe_intros safe_neighbours safe_reserved_extensions safe_fields) (use assms in auto)

lemma safe_enum:
  assumes "wf_opts (v_opts (en_data ed))"
  shows "safe h (validateEnum env h syn name ed)"
proof -
  have "safe h (validate_values env h syn scope (en_data ed) (en_values ed) allow sp)" for scope allow sp
    unfolding validate_values_def Let_def run_all.simps
    by (intro safe_intros safe_neighbours safe_aliases)
  then show ?thesis unfolding validateEnum_def Let_def
    by (intro safe_intros safe_FindOption assms) (auto intro!: safe_intros)
qed

fun elem_loose :: "vinfo elem \<Rightarrow> bool" where
  "elem_loose (EMessage md) = (wf_opts (v_opts (msg_data md)) \<and> (\<forall>er \<in> set (v_extensionRange (msg_data md)). wf_opts (snd er)))"
| "elem_loose (EEnum ed) = wf_opts (v_opts (en_data ed))"
| "elem_loose e = elem_wf e"

lemma safe_element: "elem_loose e \<Longrightarrow> safe h (validate_element env h syn (n, e))"
  by (cases e) (auto intro: safe_message safe_enum safe_intros checks_safe [OF checks_field])

lemma safe_walk:
  assumes "\<forall>e \<in> set (file_elems f). elem_loose e"
  shows "safe h (DescriptorProtos f (validate_element env h syn))"
proof -
  let ?w = "\<lparr>usePath = False, enter = \<lambda>(n, _, m). validate_element env h syn (n, m), exit = None\<rparr>"
  have "safe h (callback (up_enter ?w) (up_exit ?w) ev)" if "ev \<in> set (ev_file f)" for ev
  proof (cases ev)
    case (Enter v)
    moreover obtain n path e where "v = (n, path, e)" by (cases v)
    ultimately show ?thesis using assms that by (fastforce simp: up_enter_def file_elems_def intro: safe_element)
  next
    case (Exit v)
    then show ?thesis using safe_intros(3) by (simp add: call_exit_def up_exit_def)
  qed
  then show ?thesis
    by (simp add: DescriptorProtos_def DescriptorProtosEnterAndExit_def walkDescriptorProtos_events safe_run_all)
qed

lemma safe_source:
  assumes "wf_opts (sf_opts p)" "\<forall>e \<in> set (file_elems (sf_proto p)). elem_loose e"
  shows "safe h (validateBasic env h p)"
  unfolding validateBasic_def validateImports_def validateExportLocal_def Let_def
  by (intro safe_andThen safe_walk assms checks_safe [OF checks_import_loop] checks_safe [OF checks_validateNoFeatures])
     (auto intro!: safe_intros checks_safe [OF checks_export_local(1)])

section \<open>What was built can be validated\<close>

lemma built_elements:
  "msg_built s depth m \<Longrightarrow> msg_all (\<lambda>e. elem_loose e \<and> (s \<longrightarrow> elem_wf e)) m"
proof (induction m arbitrary: depth rule: fillInMissingLabelsInMsg.induct)
  case (1 n d flds oneofs nested enums extns)
  then show ?case
    by (auto simp: list_all_iff field_built_def message_wf_def range_built_def upto_of_def enum_built_def enum_wf_def value_built_def)
qed

lemma built_file:
  assumes "fb_ok s fb"
  shows "wf_opts (sf_opts (source_of file fb))"
    "\<forall>e \<in> set (file_elems (sf_proto (source_of file fb))). elem_loose e \<and> (s \<longrightarrow> elem_wf e)"
proof -
  show "wf_opts (sf_opts (source_of file fb))" using assms by (simp add: source_of_def fb_ok_def)
  show "\<forall>e \<in> set (file_elems (sf_proto (source_of file fb))). elem_loose e \<and> (s \<longrightarrow> elem_wf e)"
    unfolding entered_file
    using assms built_elements
    by (auto simp: source_of_def fb_ok_def list_all_iff field_built_def enum_built_def enum_wf_def value_built_def upto_of_def svc_built_def)
qed

section \<open>Parse results\<close>

text \<open>C7: a parse result without errors is well formed. For a syntax tree of the grammar's shape, turning it into descriptor
  protos and validating them never panics and never forgets an error that was reported before. If the handler has no
  error in the end, the file is valid in the sense of the language (except that before edition 2024 the keywords \<open>export\<close>
  and \<open>local\<close> are overlooked in groups). Moreover, all field numbers are between 1 and the maximum of their message and
  outside of the range that protobuf reserves for itself; all reserved and extension ranges are not empty and within the
  maximum of their own message, which is higher for message sets; message sets have extension ranges and no fields; oneof
  indices are in range; messages are nested less than 32 deep; and every field has a label in the result.\<close>

theorem ResultFromAST_sound:
  fixes st :: "'r hstore"
  assumes "sorts (e_sort (b_env b))" "list_all decl_wf (file_decls file)" "hstore_ok st" "h < length (handlers st)"
  shows "\<exists>fb fd verdict st'. ResultFromAST b h True file st = Some (((fb, fd), verdict), st') \<and>
    (Handler_Error h st \<noteq> None \<longrightarrow> verdict \<noteq> None) \<and>
    (verdict = None \<longrightarrow>
       (source_valid (source_of file fb) \<or> source_rules (source_of file fb) \<and> keywords_overlooked (source_of file fb)) \<and>
       fb_ok True fb \<and> list_all labelled (fmessages fd) \<and> (\<forall>l \<in> set (fexts fd). v_label (leaf_data l) \<noteq> None))"
proof -
  have "hok h st" using assms(3,4) by (simp add: hok_def)
  from buildsE [OF builds_file [OF assms(2), of h b] this] obtain fb st1 where build:
    "createFileDescriptor b h file st = Some (fb, st1)" "hok h st1" "Handler_Error h st \<noteq> None \<longrightarrow> Handler_Error h st1 \<noteq> None"
    "fb_ok False fb" "Handler_Error h st1 = None \<longrightarrow> fb_ok True fb" .
  let ?p = "source_of file fb"
  obtain res st2 where val: "validateBasic (b_env b) h ?p st1 = (res, st2)" by fastforce
  have "safe h (validateBasic (b_env b) h ?p)" by (rule safe_source) (use built_file [OF build(4)] in auto)
  from this [unfolded safe_def, rule_format, OF build(2)] val
  have ok: "res \<noteq> Some VPanicked" "Handler_Error h st1 \<noteq> None \<longrightarrow> Handler_Error h st2 \<noteq> None" by simp_all
  have run: "ResultFromAST b h True file st = Some (((fb, fillInMissingLabels (sf_proto ?p)), Handler_Error h st2), st2)"
    using build(1) val ok(1) by (simp add: ResultFromAST_def bnd_def Let_def)
  let ?accepted = "source_rules ?p \<and> (keywords_valid ?p \<or> keywords_overlooked ?p)"
  have valid: "fb_ok True fb \<and> ?accepted" if none: "Handler_Error h st2 = None"
  proof -
    have fb: "fb_ok True fb" using none ok(2) build(5) by blast
    then have "source_wf ?p" using built_file [OF fb] by (simp add: source_wf_def)
    from checks_source [OF assms(1) this, of h, unfolded checks_def, rule_format, OF build(2)] none val fb
    show ?thesis by (cases ?accepted) simp_all
  qed
  have "Handler_Error h st \<noteq> None \<longrightarrow> Handler_Error h st2 \<noteq> None" using build(3) ok(2) by blast
  with run valid fillInMissingLabels_labelled [of "sf_proto ?p"] show ?thesis unfolding run by (auto simp: source_valid_def)
qed

section \<open>Synthetic oneofs\<close>

lemma unique_name_fresh: "unique_name names n \<notin> set names"
  by (induction names n rule: unique_name.induct) (subst unique_name.simps, simp)

lemma oneof_name_fresh: "oneof_name names n \<notin> set names"
  by (simp add: oneof_name_def unique_name_fresh)

abbreviation is_p3 :: "vinfo leaf \<Rightarrow> bool" where
  "is_p3 l \<equiv> v_proto3Optional (leaf_data l)"

text \<open>A field, without the oneof it belongs to.\<close>

abbreviation no_oneof :: "vinfo leaf \<Rightarrow> vinfo leaf" where
  "no_oneof \<equiv> map_leaf (\<lambda>d. d\<lparr>v_oneofIndex := None\<rparr>)"

lemma no_oneof_index [simp]: "no_oneof (map_leaf (\<lambda>d. d\<lparr>v_oneofIndex := i\<rparr>) l) = no_oneof l"
  by (cases l) simp

lemma proto3_loop_oneofs:
  assumes "proto3_loop names oneofs flds = (flds', oneofs')"
  shows "\<exists>synth. oneofs' = oneofs @ synth \<and> distinct (map leaf_name synth) \<and> leaf_name ` set synth \<inter> set names = {} \<and>
    map leaf_data synth = map (\<lambda>l. blank_info (v_node (leaf_data l))) (filter is_p3 flds) \<and>
    map (v_oneofIndex \<circ> leaf_data) (filter is_p3 flds') = map Some [length oneofs ..< length oneofs + length synth] \<and>
    filter (\<lambda>l. \<not> is_p3 l) flds' = filter (\<lambda>l. \<not> is_p3 l) flds \<and> map no_oneof flds' = map no_oneof flds"
  using assms
proof (induction flds arbitrary: names oneofs flds' oneofs')
  case Nil
  then show ?case by auto
next
  case (Cons fd flds)
  show ?case
  proof (cases "is_p3 fd")
    case True
    let ?nm = "oneof_name names (leaf_name fd)"
    let ?new = "Leaf ?nm (blank_info (v_node (leaf_data fd)))"
    obtain flds1 oneofs1 where run: "proto3_loop (?nm # names) (oneofs @ [?new]) flds = (flds1, oneofs1)" by fastforce
    obtain synth where IH: "oneofs1 = (oneofs @ [?new]) @ synth" "distinct (map leaf_name synth)" "leaf_name ` set synth \<inter> set (?nm # names) = {}"
      "map leaf_data synth = map (\<lambda>l. blank_info (v_node (leaf_data l))) (filter is_p3 flds)"
      "map (v_oneofIndex \<circ> leaf_data) (filter is_p3 flds1) = map Some [length (oneofs @ [?new]) ..< length (oneofs @ [?new]) + length synth]"
      "filter (\<lambda>l. \<not> is_p3 l) flds1 = filter (\<lambda>l. \<not> is_p3 l) flds" "map no_oneof flds1 = map no_oneof flds"
      using Cons.IH [OF run] by blast
    have split: "[length oneofs ..< length oneofs + length (?new # synth)] =
      length oneofs # [Suc (length oneofs) ..< Suc (length oneofs) + length synth]"
      by (simp add: upt_conv_Cons del: upt_Suc)
    show ?thesis
      by (rule exI [of _ "?new # synth"], unfold split)
         (use IH True run Cons.prems oneof_name_fresh [of names "leaf_name fd"] in \<open>auto simp: Let_def comp_def simp del: upt_Suc\<close>)
  next
    case False
    obtain flds1 oneofs1 where run: "proto3_loop names oneofs flds = (flds1, oneofs1)" by fastforce
    with Cons.IH [OF run] Cons.prems False show ?thesis by (auto simp: Let_def)
  qed
qed

text \<open>C15: every optional field of a proto3 message gets a oneof of its own. The synthetic oneofs are added behind
  the declared ones, one for each optional field and in the order of the fields, which refer to them; they have no options,
  and their names are distinct and differ from the names of all fields, oneofs, extensions, enums, enum values and nested
  messages of the message. Nothing else changes: the fields that are not optional stay as they are, the optional ones too
  up to their oneof index, and so does everything else that has been built of the message.\<close>

theorem processProto3OptionalFields_oneofs:
  "\<exists>synth. mb_oneofs (processProto3OptionalFields mb) = mb_oneofs mb @ synth \<and>
     distinct (map leaf_name synth) \<and> leaf_name ` set synth \<inter> set (all_names mb) = {} \<and>
     map leaf_data synth = map (\<lambda>l. blank_info (v_node (leaf_data l))) (filter is_p3 (mb_fields mb)) \<and>
     map (v_oneofIndex \<circ> leaf_data) (filter is_p3 (mb_fields (processProto3OptionalFields mb))) =
       map Some [length (mb_oneofs mb) ..< length (mb_oneofs mb) + length synth] \<and>
     filter (\<lambda>l. \<not> is_p3 l) (mb_fields (processProto3OptionalFields mb)) = filter (\<lambda>l. \<not> is_p3 l) (mb_fields mb) \<and>
     map no_oneof (mb_fields (processProto3OptionalFields mb)) = map no_oneof (mb_fields mb) \<and>
     (processProto3OptionalFields mb)\<lparr>mb_fields := mb_fields mb, mb_oneofs := mb_oneofs mb\<rparr> = mb"
proof -
  obtain flds oneofs where run: "proto3_loop (all_names mb) (mb_oneofs mb) (mb_fields mb) = (flds, oneofs)" by fastforce
  then have "mb_fields (processProto3OptionalFields mb) = flds" "mb_oneofs (processProto3OptionalFields mb) = oneofs"
    "(processProto3OptionalFields mb)\<lparr>mb_fields := mb_fields mb, mb_oneofs := mb_oneofs mb\<rparr> = mb"
    by (simp_all add: processProto3OptionalFields_def)
  with proto3_loop_oneofs [OF run] show ?thesis by simp
qed

section \<open>An example\<close>

definition example_field :: "string \<Rightarrow> int \<Rightarrow> field_ast" where
  "example_field name tag = (let sp = UnknownSpan ''a.proto'' in
     \<lparr>fa_name = name, fa_type = ''string'', fa_key = [], fa_tag = Some tag, fa_label = Some LabelOptional, fa_opts = [],
      fa_span = sp, fa_name_span = sp, fa_tag_span = sp, fa_label_span = sp, fa_group_span = sp, fa_key_span = sp, fa_type_span = sp\<rparr>)"

text \<open>A proto3 file with a message that has an optional field and reserves another tag, and what is built from it.\<close>

definition example_file :: file_ast where
  "example_file = (let sp = UnknownSpan ''a.proto'' in
     \<lparr>file_name = ''a.proto'', file_syntax = Some (''proto3'', sp), file_edition = None,
      file_decls = [PackageDecl ''p'' sp sp,
        MessageDecl ''M'' None sp
          [FieldDecl (example_field ''f'' 1),
           ReservedDecl \<lparr>rs_ranges = [\<lparr>ra_start = 2, ra_end = NoEnd, ra_span = sp, ra_start_span = sp\<rparr>], rs_names = [], rs_idents = []\<rparr>]],
      file_span = sp\<rparr>)"

definition example_benv :: "go_error list benv" where
  "example_benv = \<lparr>b_env = example_env, b_unicode = ascii, b_warn = (\<lambda>e r. r), b_supported = Map.empty, b_supported_names = [],
     b_known = [], b_latest = ''2023''\<rparr>"

definition example_built :: fbuild where
  "example_built = no_file\<lparr>fb_syntax := ''proto3'', fb_package := Some ''p'', fb_messages :=
     [MsgP ''M'' (plain_info\<lparr>v_reservedRange := [tag_range 2 3], v_reservedNodes := [[]]\<rparr>)
        [Leaf ''f'' (plain_info\<lparr>v_number := Some 1, v_label := Some LabelOptional, v_type := Some (TypeScalar ''string''), v_jsonName := ''f'',
           v_oneofIndex := Some 0, v_proto3Optional := True\<rparr>)]
        [Leaf ''_f'' plain_info] [] [] []]\<rparr>"

lemmas example_defs = example_file_def example_field_def example_benv_def Let_def
lemmas example_run = createFileDescriptor_def file_syntax_of_def bnd_def raise_if_def give_def file_decl_def package_checks_def
  ReporterError_def example_handlers_def NewHandler_def asMessageDescriptor_def checkDepth_def addMessageBody_def isMessageSetWireFormat_def
  asFieldDescriptor_def as_tag_def checkTag_def FieldMax_def FirstReserved_def LastReserved_def addReservedNames_def
  asMessageReservedRange_def getRangeBounds_def StartValueAsInt32_def EndValueAsInt32_def AsInt32_def to_int32_def

lemma example_json: "on_runes (JSONName ascii) ''f'' = ''f''"
  by code_simp

lemma example_name: "unique_name [''f''] ''_f'' = ''_f''"
  by (simp add: unique_name.simps)

lemma example_creates: "createFileDescriptor example_benv 0 example_file example_handlers = Some (example_built, example_handlers)"
  by (simp add: example_defs example_run no_file_def map_filter_simps cong: if_cong)
     (simp add: example_built_def no_file_def finish_message_def processProto3OptionalFields_def no_body_def all_names_def oneof_name_def HasPrefix_def
        newFieldDescriptor_def put_field_node_def asUninterpretedOptions_def fieldTypes_def plain_info_def blank_info_def tag_range_def
        example_json example_name map_filter_simps Let_def)

lemma example_file_declared:
  "declared (file_decls example_file) hidden d \<Longrightarrow> \<not> has_keyword d \<and> (\<forall>e \<in> set (body_of d). \<not> has_keyword e \<and> body_of e = [])"
  by (induction rule: declared.induct) (auto simp: example_defs)

lemma example_source_ok: "source_valid (source_of example_file example_built)" "source_wf (source_of example_file example_built)"
proof -
  have "keywords_valid (source_of example_file example_built)"
    using example_file_declared by (auto simp: keywords_valid_def source_of_def)
  moreover have "source_rules (source_of example_file example_built)"
    unfolding source_rules_def entered_file Let_def
    by (simp_all add: example_defs)
       (simp_all add: source_of_def example_built_def no_file_def imports_valid_def plain_info_def blank_info_def syntax_of_def
         no_features_def message_valid_def message_wf_def field_valid_def disjoint_ranges_def tag_range_def numbers_def
         upto_of_def GetNumber_def)
  ultimately show "source_valid (source_of example_file example_built)" by (simp add: source_valid_def)
  show "source_wf (source_of example_file example_built)"
    unfolding source_wf_def entered_file Let_def
    by (simp_all add: example_defs)
       (simp_all add: source_of_def example_built_def no_file_def plain_info_def blank_info_def message_wf_def tag_range_def upto_of_def)
qed

theorem ResultFromAST_sound_witness:
  "\<exists>fb fd st'. ResultFromAST example_benv 0 True example_file example_handlers = Some (((fb, fd), None), st') \<and>
     source_valid (source_of example_file fb) \<and> fb_ok True fb \<and> list_all labelled (fmessages fd)"
proof -
  have st: "hstore_ok example_handlers" "0 < length (handlers example_handlers)" "Handler_Error 0 example_handlers = None"
    by (simp_all add: example_handlers_def NewHandler_def hstore_ok_def Handler_Error_def)
  have srt: "sorts (e_sort (b_env example_benv))" by (simp add: example_benv_def example_env_def sorts_insort)
  have wf: "list_all decl_wf (file_decls example_file)" by (simp add: example_defs field_wf_def)
  have "validateBasic (b_env example_benv) 0 (source_of example_file example_built) example_handlers = (None, example_handlers)"
    using checks_source [OF srt example_source_ok(2), of 0] example_source_ok(1) st by (simp add: checks_def hok_def source_valid_def)
  then have "ResultFromAST example_benv 0 True example_file example_handlers =
      Some (((example_built, fillInMissingLabels (sf_proto (source_of example_file example_built))), None), example_handlers)"
    by (simp add: ResultFromAST_def bnd_def example_creates st(3))
  with ResultFromAST_sound [OF srt wf st(1,2)] example_source_ok(1) show ?thesis by auto
qed

end
