(* ===== verification/Spec2Isabelle.thy ===== *)
theory Spec2Isabelle
  imports Bits LogConc Heap Symbols Cases Literal Toposort Queue Trie DriverSafe LinkSafe BuildSafe
begin

text \<open>
  A model of protocompile, a compiler for Protocol Buffers written in Go, and of what makes it correct.

  \<^bold>\<open>The program.\<close> The compiler reads \<open>.proto\<close> files. The lexer (\<open>parser/lexer.go\<close>) cuts a file into tokens and
  comments and records every one of them, and every line, in the file's \<open>FileInfo\<close> (\<open>ast/file_info.go\<close>),
  from which all positions in error messages and source code info are computed. A generated parser builds a
  syntax tree, from which descriptor protos are built (\<open>parser/result.go\<close>) and checked (\<open>parser/validate.go\<close>). The
  linker (\<open>linker/linker.go\<close>) registers every declared name in a table of symbols that all
  files of a compilation share (\<open>linker/symbols.go\<close>), walking each file's descriptors with \<open>walk/walk.go\<close>, creates
  the descriptors (\<open>linker/descriptors.go\<close>) and resolves references (\<open>linker/resolve.go\<close>). The driver (\<open>compiler.go\<close>)
  does all this for many files at the same time. Errors and warnings go through handlers (\<open>reporter\<close>) that decide whether to go on.
  The packages under \<open>internal\<close> serve these parts and the newer compiler under \<open>experimental\<close>.

  \<^bold>\<open>The theories\<close>, in the order in which they build on each other:

  \<^item> \<open>Prelude\<close>: Go's types, total correctness in the option monad (\<open>None\<close> is a panic), words, decimal numbers.
  \<^item> \<open>Bits\<close> (\<open>internal/ext/bitsx\<close>): powers of two and checked or saturating arithmetic at 64 bits.
  \<^item> \<open>Intern\<close> (\<open>internal/intern\<close>, \<open>internal/ext/syncx/log.go\<close>): the interning table. Inlined short names are
    functions; calls of \<open>Intern\<close> that run at the same time are an inductive step relation between the query, the
    claim of a key, the append to the log and the commit, with its invariant by rule induction. \<open>LogConc\<close> opens up
    the append: concurrent callers of the log take one step for each access to shared memory.
  \<^item> \<open>Walk\<close> (\<open>walk/walk.go\<close>): traversals as state transformers that a callback's error stops, shown equal to a
    list of events.
  \<^item> \<open>Reporter\<close> (\<open>reporter\<close>): the tree of handlers as a store of nodes; the mutexes make each operation atomic.
  \<^item> \<open>Symbols\<close> (\<open>linker/symbols.go\<close>): the tree of packages as a store of nodes; the abstract table of
    \<open>tstep\<close> is what \<open>Import\<close> refines.
  \<^item> \<open>Ast\<close> (\<open>ast\<close>): the syntax tree by what later stages read of it, and the payload of descriptor protos.
  \<^item> \<open>Validate\<close> (\<open>parser/validate.go\<close>, \<open>internal/options.go\<close>): all checks of a parse. \<open>ValidateSafe\<close> has the
    conditions of the language, and shows that each check reports exactly what violates its condition.
  \<^item> \<open>Build\<close> (\<open>parser/result.go\<close>): descriptor protos from the syntax tree, for every kind of declaration.
    \<open>BuildSafe\<close> shows what they look like when no error was reported, composed with validation.
  \<^item> \<open>Resolve\<close> (\<open>linker/resolve.go\<close>, \<open>linker/files.go\<close>): visibility through imports, the scopes of a name and the
    queries of files. \<open>Create\<close> (\<open>linker/pool.go\<close>, \<open>linker/descriptors.go\<close>): the descriptors of a file, cut from a
    pool that was counted before. \<open>Link\<close>: \<open>Link\<close> and \<open>resolveReferences\<close> with the types of fields, extensions,
    methods and the names in options; \<open>LinkSafe\<close> the invariant that makes linked files well typed.
  \<^item> \<open>Cases\<close> (\<open>internal/cases\<close>) and \<open>Util\<close> (\<open>internal/util.go\<close>): case conversion, JSON names, scopes of a
    package, escaping of strings, and paths of source code info.
  \<^item> \<open>FileInfo\<close> (\<open>ast/file_info.go\<close>): the tables of lines, items and comments and every accessor.
  \<^item> \<open>Reader\<close>, \<open>Lexer\<close> (\<open>parser/lexer.go\<close>): decoding of UTF-8, the rune reader, and the whole lexer with its
    error handling; \<open>LexerSafe\<close> its invariant; \<open>Literal\<close> the round trip of string literals.
  \<^item> \<open>Driver\<close> (\<open>compiler.go\<close>, \<open>resolver.go\<close>): a compilation as a state machine. Each goroutine of \<open>compiler.go\<close> is
    a task with a program counter, whose steps are the accesses to shared state; \<open>creachable\<close> are the states that
    interleaved tasks, \<open>Compile\<close> and a caller who may cancel can reach. \<open>DriverSafe\<close> has its invariants.
  \<^item> \<open>Toposort\<close> (\<open>internal/toposort\<close>), \<open>Queue\<close> and \<open>Heap\<close> (\<open>internal/ext/slicesx\<close>) and \<open>Trie\<close>
    (\<open>internal/trie\<close>): containers and algorithms, each against its specification.

  \<^bold>\<open>What is shown.\<close> The lexer never panics on valid UTF-8, always makes progress and ends, and loses nothing: the
  items and the white space between them are the file. Positions computed from the line table are the ones of
  the text. Importing files into the symbol table refines a table that only grows; it is all or nothing for each
  file, whatever the reporter answers. Validation accepts exactly the files that are valid, but for keywords that
  it overlooks in groups, and a parse result without errors has all its numbers, ranges, indices and nesting within
  bounds, those of its own message. A name resolves to what C++ scoping says, but for types in parent packages that
  are hidden by other elements; a file sees what it, its imports and their public imports declare; and if linking
  reports nothing every reference leads to a visible element of the right kind. Interning is injective under every interleaving of the
  steps above, and under every interleaving inside the log no value is lost or overwritten and some caller can always go
  on. Traversals visit each element once under the path that leads to it. As long as \<open>descriptor.proto\<close> imports
  nothing, the driver does not deadlock, whatever the other imports, the number of permits and the schedule; a deadlock
  that an override of \<open>descriptor.proto\<close> causes is shown too. It does not run forever, reports only cycles that exist,
  and returns no error only if everything the files import is compiled. The sort yields a topological order or
  reports a cycle. The queue and the trie implement a list and a map, and the merge of sorted slices is sorted and
  loses nothing. Some theorems state behaviour that departs from the documentation or from the evident intention; they are listed as findings in the manifest.

  \<^bold>\<open>Conventions and bounds.\<close> Loops that end for a structural reason are \<open>fun\<close> or \<open>function\<close> with a measure.
  The loop of the topological sort runs on graphs that may be infinite and is a partial function; that it
  returns on finite graphs is proved. The loops of the heap are partial functions as lists may be longer than Go's
  indices; that they return on lists that are not is proved. No fuel is used. Bounds that appear as hypotheses are those of the
  code's own integer types: fewer than \<open>2^32\<close> interned strings, fewer than \<open>2^61\<close> elements in a queue or slices
  in a merge, fewer than \<open>2^32\<close> bytes of keys in a trie. Of the growth of Go's slices only the documented part is
  assumed, that there is room for the appended element; where an \<open>int32\<close> capacity may wrap, theorems say so. That the driver ends is shown for finitely many files. Callbacks, reporters,
  resolvers, the consumer of an iterator, the sorting routine, the character tables and the parser of floating-point
  numbers of Go's library are parameters; so are, for the driver, parsing and linking a file, which may succeed, fail or panic.

  \<^bold>\<open>Not modelled.\<close> The parser is generated by goyacc and its actions only build nodes. Interpreting options, resolving
  features, the checks of linked files that depend on features (\<open>linker/validate.go\<close>) and source retention work by
  reflection on messages of the protobuf-go library, which is not part of the repository. The compiler under
  \<open>experimental\<close> is a second front end. Interval maps sit on a third-party B-tree.
\<close>

text \<open>C31: the two ways the linker walks the scopes of a package agree. The prefix list that references are
  resolved with (\<open>CreatePrefixList\<close>) is the list of packages that the symbol table registers for the same
  name (\<open>nameEnumerator\<close>), innermost first, followed by the root.\<close>

theorem CreatePrefixList_as_enumerator:
  assumes "pkg \<noteq> []"
  shows "CreatePrefixList pkg = rev (enum_all \<lparr>ne_name = pkg, ne_start = 0\<rparr>) @ [[]]"
  using CreatePrefixList_eq [OF assms] enum_all_prefixes [of pkg 0] by (simp add: prefixes_from_def dots_def rev_map)

theorem CreatePrefixList_as_enumerator_witness:
  "CreatePrefixList ''a.b'' = [''a.b'', ''a'', []] \<and> rev (enum_all \<lparr>ne_name = ''a.b'', ne_start = 0\<rparr>) = [''a.b'', ''a'']"
proof -
  have e: "enum_all \<lparr>ne_name = ''a.b'', ne_start = 0\<rparr> = [''a'', ''a.b'']" by code_simp
  show ?thesis using CreatePrefixList_as_enumerator [of "''a.b''"] unfolding e by simp
qed

end
